(* ===== verification/Prelude.thy ===== *)
theory Prelude
  imports Main "HOL-Library.Word"
begin

unbundle bit_operations_syntax

text \<open>
  Shared vocabulary of the development: the machine types of \<^verbatim>\<open>gpos/types.h\<close>, the
  result type that carries the failures of the C++ code (a violated \<^verbatim>\<open>GPOS_ASSERT\<close>, a
  dereferenced NULL pointer, a raised exception), its sequencing operator, and the generic
  facts on results, lists and machine words that the component theories use.
\<close>

section \<open>Machine types\<close>

text \<open>\<^verbatim>\<open>typedef uint32_t ULONG\<close> and \<^verbatim>\<open>typedef uint64_t ULLONG\<close>.\<close>

type_synonym ULONG = "32 word"
type_synonym ULLONG = "64 word"

section \<open>Results\<close>

text \<open>
  \<open>AssertFailed\<close> is a violated \<^verbatim>\<open>GPOS_ASSERT\<close> (an abort in a debug build, undefined
  behaviour of the statements it guards in a release build), \<open>NullDeref\<close> a member access
  through NULL, \<open>OutOfBounds\<close> an array access past the end, \<open>OverflowExc\<close> the exception
  of the checked arithmetic of \<^verbatim>\<open>gpos/utils.h\<close>, \<open>OutOfStack\<close> the exception of
  \<^verbatim>\<open>GPOS_CHECK_STACK_SIZE\<close>, \<open>OutOfMemory\<close> a loop that allocates without end, and
  \<open>RuntimeError\<close> a C++ exception thrown with a message.
\<close>

datatype gpos_error =
    AssertFailed
  | NullDeref
  | OutOfBounds
  | OverflowExc
  | OutOfStack
  | OutOfMemory
  | RuntimeError string

type_synonym 'a result = "gpos_error + 'a"

fun rbind :: "'e + 'a \<Rightarrow> ('a \<Rightarrow> 'e + 'b) \<Rightarrow> 'e + 'b" where
  "rbind (Inl e) f = Inl e"
| "rbind (Inr x) f = f x"

definition gpos_assert :: "bool \<Rightarrow> 'a result \<Rightarrow> 'a result" where
  "gpos_assert b k = (if b then k else Inl AssertFailed)"

text \<open>A loop over a list of elements whose body may fail, collecting the new elements.\<close>

fun rmap :: "('a \<Rightarrow> 'e + 'b) \<Rightarrow> 'a list \<Rightarrow> 'e + 'b list" where
  "rmap f [] = Inr []"
| "rmap f (x # xs) = rbind (f x) (\<lambda>y. rbind (rmap f xs) (\<lambda>ys. Inr (y # ys)))"

named_theorems result_simps \<open>facts that evaluate the sequencing of results\<close>

lemma rbind_cong [fundef_cong]:
  "m = m' \<Longrightarrow> (\<And>x. m' = Inr x \<Longrightarrow> f x = g x) \<Longrightarrow> rbind m f = rbind m' g"
  by (cases m') auto

lemma rbind_eq_Inr_iff [result_simps]:
  "rbind m f = Inr y \<longleftrightarrow> (\<exists>x. m = Inr x \<and> f x = Inr y)"
  by (cases m) auto

lemma rbind_assoc: "rbind (rbind m f) g = rbind m (\<lambda>x. rbind (f x) g)"
  by (cases m) auto

lemma gpos_assert_True [simp]: "gpos_assert True k = k"
  by (simp add: gpos_assert_def)

lemma gpos_assert_False [simp]: "gpos_assert False k = Inl AssertFailed"
  by (simp add: gpos_assert_def)

lemma gpos_assert_eq_Inr_iff [result_simps]: "gpos_assert b k = Inr y \<longleftrightarrow> b \<and> k = Inr y"
  by (simp add: gpos_assert_def)

lemma rmap_Inr: "(\<And>x. x \<in> set xs \<Longrightarrow> f x = Inr (g x)) \<Longrightarrow> rmap f xs = Inr (map g xs)"
  by (induction xs) auto

lemma rmap_cong: "(\<And>x. x \<in> set xs \<Longrightarrow> f x = g x) \<Longrightarrow> rmap f xs = rmap g xs"
  by (induction xs) auto

text \<open>A step after a computation that may not end and may fail.\<close>

definition obind :: "'a result option \<Rightarrow> ('a \<Rightarrow> 'b result option) \<Rightarrow> 'b result option" where
  "obind m f = (case m of None \<Rightarrow> None | Some r \<Rightarrow> (case r of Inl e \<Rightarrow> Some (Inl e) | Inr x \<Rightarrow> f x))"

lemma obind_simps [simp]:
  "obind None f = None" "obind (Some (Inl e)) f = Some (Inl e)" "obind (Some (Inr x)) f = f x"
  by (simp_all add: obind_def)

section \<open>Lists\<close>

lemma nth_map2: "i < length xs \<Longrightarrow> i < length ys \<Longrightarrow> map2 f xs ys ! i = f (xs ! i) (ys ! i)"
  by simp

lemma list_all_nth_iff: "list_all P xs \<longleftrightarrow> (\<forall>i < length xs. P (xs ! i))"
  by (simp add: list_all_length)

section \<open>Words\<close>

lemma unat_div_numeral: "unat (x div numeral k :: ULONG) = unat x div unat (numeral k :: ULONG)"
  by (rule unat_div)

lemma bit_and_mask_nonzero_iff:
  fixes w :: "'a::len word"
  shows "w AND 2 ^ n = 0 \<longleftrightarrow> \<not> bit w n"
  by (rule and_exp_eq_0_iff_not_bit)

lemma drop_bit_one_less:
  fixes w :: "'a::len word"
  assumes "w \<noteq> 0"
  shows "unat (drop_bit 1 w) < unat w"
proof -
  have "unat (drop_bit 1 w) = unat w div 2"
    by (subst unat_drop_bit_eq) (simp add: drop_bit_eq_div)
  moreover have "0 < unat w" using assms by (simp add: unat_gt_0)
  ultimately show ?thesis by simp
qed

lemma card_bits_bound: "card {n. bit (w :: 'a::len word) n} \<le> LENGTH('a)"
proof -
  have "{n. bit w n} \<subseteq> {..<LENGTH('a)}"
    by (auto dest: bit_imp_le_length)
  then show ?thesis using card_mono [of "{..<LENGTH('a)}"] by fastforce
qed

lemma finite_bits: "finite {n. bit (w :: 'a::len word) n}"
  by (rule finite_subset [of _ "{..<LENGTH('a)}"]) (auto dest: bit_imp_le_length)

lemma unat_ULONG_less: "unat (x :: ULONG) < 4294967296"
  using unsigned_less [of x] by simp

lemma div_mod_64_eq:
  fixes n m :: nat
  assumes "n div 64 = m div 64"
  shows "n mod 64 = m mod 64 \<longleftrightarrow> n = m"
  using assms div_mult_mod_eq [of n 64] div_mult_mod_eq [of m 64] by metis

lemma ull_eq_iff: "(a :: ULLONG) = b \<longleftrightarrow> (\<forall>n < 64. bit a n \<longleftrightarrow> bit b n)"
  by (auto intro: bit_word_eqI)

lemma unat_eq_imp_eq: "unat (a :: 'a::len word) = unat b \<Longrightarrow> a = b"
  by (rule unsigned_word_eqI)

lemma bit_drop_bit_nonzero:
  assumes "bit (w :: 'a::len word) n" and "m \<le> n"
  shows "drop_bit m w \<noteq> 0"
proof -
  have "bit (drop_bit m w) (n - m)" using assms by (simp add: bit_drop_bit_eq)
  then show ?thesis by (metis bit_0_eq bot_apply bot_bool_def)
qed

lemma and_one_eq_zero_iff: "w AND 1 = 0 \<longleftrightarrow> \<not> bit (w :: 'a::len word) 0"
  using and_exp_eq_0_iff_not_bit [of w 0] by simp

end
