(* ===== verification/BitVector.thy ===== *)
theory BitVector
  imports Prelude
begin

unbundle bit_operations_syntax

text \<open>
  \<^verbatim>\<open>libgpos/src/common/CBitVector.cpp\<close>: the fixed-size bit vector over 64-bit units. The
  state is the record \<open>CBitVector\<close>; every member function is one definition, with the
  \<^verbatim>\<open>GPOS_ASSERT\<close> preconditions as error results. The abstraction \<open>bv_set\<close> reads a
  vector as the set of its set positions, \<open>bv_ok\<close> is the representation invariant, and the
  lemmas give the set-theoretic meaning of every operation, the two bit-scanning loops
  included.
\<close>

section \<open>Definitions\<close>

record CBitVector =
  bv_nbits :: ULONG
  bv_len :: ULONG
  bv_vec :: "ULLONG list"

definition CBitVector_ctor :: "ULONG \<Rightarrow> CBitVector" where
  "CBitVector_ctor nbits =
     (let len0 = nbits div 64;
          len = (if unat len0 * 64 < unat nbits then len0 + 1 else len0)
      in \<lparr>bv_nbits = nbits, bv_len = len, bv_vec = replicate (unat len) 0\<rparr>)"

definition CBitVector_copy :: "CBitVector \<Rightarrow> CBitVector" where
  "CBitVector_copy bv =
     \<lparr>bv_nbits = bv_nbits bv, bv_len = bv_len bv, bv_vec = take (unat (bv_len bv)) (bv_vec bv)\<rparr>"

definition bv_mask :: "ULONG \<Rightarrow> ULLONG" where
  "bv_mask pos = push_bit (unat (pos mod 64)) 1"

definition bv_Get :: "CBitVector \<Rightarrow> ULONG \<Rightarrow> bool result" where
  "bv_Get v pos =
     gpos_assert (pos < bv_nbits v)
       (Inr (bv_vec v ! unat (pos div 64) AND bv_mask pos \<noteq> 0))"

definition bv_ExchangeSet :: "CBitVector \<Rightarrow> ULONG \<Rightarrow> (bool \<times> CBitVector) result" where
  "bv_ExchangeSet v pos =
     gpos_assert (pos < bv_nbits v)
       (rbind (bv_Get v pos) (\<lambda>fSet.
          let idx = unat (pos div 64)
          in Inr (fSet, v\<lparr>bv_vec := (bv_vec v)[idx := bv_vec v ! idx OR bv_mask pos]\<rparr>)))"

definition bv_ExchangeClear :: "CBitVector \<Rightarrow> ULONG \<Rightarrow> (bool \<times> CBitVector) result" where
  "bv_ExchangeClear v ulBit =
     gpos_assert (ulBit < bv_nbits v)
       (rbind (bv_Get v ulBit) (\<lambda>fSet.
          let idx = unat (ulBit div 64)
          in Inr (fSet, v\<lparr>bv_vec := (bv_vec v)[idx := bv_vec v ! idx AND NOT (bv_mask ulBit)]\<rparr>)))"

definition bv_same_size :: "CBitVector \<Rightarrow> CBitVector \<Rightarrow> bool" where
  "bv_same_size v w \<longleftrightarrow> bv_nbits v = bv_nbits w \<and> bv_len v = bv_len w"

definition bv_Or :: "CBitVector \<Rightarrow> CBitVector \<Rightarrow> CBitVector result" where
  "bv_Or v w =
     gpos_assert (bv_same_size v w) (Inr (v\<lparr>bv_vec := map2 (OR) (bv_vec v) (bv_vec w)\<rparr>))"

definition bv_And :: "CBitVector \<Rightarrow> CBitVector \<Rightarrow> CBitVector result" where
  "bv_And v w =
     gpos_assert (bv_same_size v w) (Inr (v\<lparr>bv_vec := map2 (AND) (bv_vec v) (bv_vec w)\<rparr>))"

fun bv_contains_units :: "ULLONG list \<Rightarrow> ULLONG list \<Rightarrow> bool" where
  "bv_contains_units (a # as) (b # bs) =
     (let ull = a AND b in if ull \<noteq> b then False else bv_contains_units as bs)"
| "bv_contains_units _ _ = True"

definition bv_ContainsAll :: "CBitVector \<Rightarrow> CBitVector \<Rightarrow> bool result" where
  "bv_ContainsAll v w =
     gpos_assert (bv_same_size v w) (Inr (bv_contains_units (bv_vec v) (bv_vec w)))"

fun bv_disjoint_units :: "ULLONG list \<Rightarrow> ULLONG list \<Rightarrow> bool" where
  "bv_disjoint_units (a # as) (b # bs) =
     (if 0 \<noteq> a AND b then False else bv_disjoint_units as bs)"
| "bv_disjoint_units _ _ = True"

definition bv_IsDisjoint :: "CBitVector \<Rightarrow> CBitVector \<Rightarrow> bool result" where
  "bv_IsDisjoint v w =
     gpos_assert (bv_same_size v w) (Inr (bv_disjoint_units (bv_vec v) (bv_vec w)))"

definition bv_Equals :: "CBitVector \<Rightarrow> CBitVector \<Rightarrow> bool result" where
  "bv_Equals v w = gpos_assert (bv_same_size v w) (Inr (bv_vec v = bv_vec w))"

definition bv_IsEmpty :: "CBitVector \<Rightarrow> bool" where
  "bv_IsEmpty v = list_all (\<lambda>ull. ull = 0) (bv_vec v)"

text \<open>The inner loop of \<^verbatim>\<open>GetNextSetBit\<close>: shift right until the lowest bit is set.\<close>

function bv_shift_to_bit :: "ULLONG \<Rightarrow> ULONG \<Rightarrow> ULLONG \<times> ULONG" where
  "bv_shift_to_bit ull b =
     (if ull \<noteq> 0 \<and> ull AND 1 = 0 then bv_shift_to_bit (drop_bit 1 ull) (b + 1) else (ull, b))"
  by pat_completeness auto
termination
  by (relation "measure (\<lambda>(ull, b). unat ull)") (auto simp only: in_measure case_prod_conv intro: drop_bit_one_less)

text \<open>The outer loop: the initial offset applies only to the first unit.\<close>

fun bv_scan_units :: "ULLONG list \<Rightarrow> ULONG \<Rightarrow> ULONG \<Rightarrow> ULONG option" where
  "bv_scan_units [] idx offset = None"
| "bv_scan_units (u # us) idx offset =
     (case bv_shift_to_bit (drop_bit (unat offset) u) offset of (ull, b) \<Rightarrow>
        if ull \<noteq> 0 then Some (b + idx * 64) else bv_scan_units us (idx + 1) 0)"

definition bv_GetNextSetBit :: "CBitVector \<Rightarrow> ULONG \<Rightarrow> ULONG option" where
  "bv_GetNextSetBit v start_pos =
     bv_scan_units (drop (unat (start_pos div 64)) (bv_vec v)) (start_pos div 64) (start_pos mod 64)"

text \<open>The bit-clearing loop of \<^verbatim>\<open>CountSetBits\<close>.\<close>

lemma and_minus_one_less:
  fixes w :: "'a::len word"
  assumes "w \<noteq> 0"
  shows "unat (w AND (w - 1)) < unat w"
proof -
  have "w AND (w - 1) \<le> w - 1" by (rule word_and_le1)
  then have "unat (w AND (w - 1)) \<le> unat (w - 1)" by (simp add: word_le_nat_alt)
  also have "unat (w - 1) < unat w" using assms by (rule measure_unat)
  finally show ?thesis .
qed

function bv_count_unit :: "ULLONG \<Rightarrow> ULONG \<Rightarrow> ULONG" where
  "bv_count_unit ull j = (if ull \<noteq> 0 then bv_count_unit (ull AND (ull - 1)) (j + 1) else j)"
  by pat_completeness auto
termination
  by (relation "measure (\<lambda>(ull, j). unat ull)") (auto simp only: in_measure case_prod_conv intro: and_minus_one_less)

definition bv_CountSetBits :: "CBitVector \<Rightarrow> ULONG" where
  "bv_CountSetBits v = foldl (\<lambda>nbits ull. nbits + bv_count_unit ull 0) 0 (bv_vec v)"

declare bv_shift_to_bit.simps [simp del] bv_count_unit.simps [simp del]

section \<open>Abstraction and invariant\<close>

definition bv_bit :: "CBitVector \<Rightarrow> nat \<Rightarrow> bool" where
  "bv_bit v n \<longleftrightarrow> n div 64 < length (bv_vec v) \<and> bit (bv_vec v ! (n div 64)) (n mod 64)"

definition bv_set :: "CBitVector \<Rightarrow> nat set" where
  "bv_set v = {n. bv_bit v n}"

text \<open>The unit count matches the bit count, and no bit past the last one is ever set.\<close>

definition bv_ok :: "CBitVector \<Rightarrow> bool" where
  "bv_ok v \<longleftrightarrow>
     length (bv_vec v) = unat (bv_len v) \<and>
     unat (bv_len v) = (unat (bv_nbits v) + 63) div 64 \<and>
     (\<forall>n \<in> bv_set v. n < unat (bv_nbits v))"

lemma bv_set_mem [simp]: "n \<in> bv_set v \<longleftrightarrow> bv_bit v n"
  by (simp add: bv_set_def)

lemma bv_ok_bound: "bv_ok v \<Longrightarrow> bv_bit v n \<Longrightarrow> n < unat (bv_nbits v)"
  by (auto simp: bv_ok_def)

lemma bv_set_bounded: "bv_ok v \<Longrightarrow> bv_set v \<subseteq> {..<unat (bv_nbits v)}"
  by (auto dest: bv_ok_bound)

lemma finite_bv_set: "bv_ok v \<Longrightarrow> finite (bv_set v)"
  by (rule finite_subset [OF bv_set_bounded]) simp_all

lemma card_bv_set: "bv_ok v \<Longrightarrow> card (bv_set v) \<le> unat (bv_nbits v)"
  using card_mono [OF _ bv_set_bounded, of v] by simp

lemma bv_bit_less: "bv_bit v n \<Longrightarrow> n < 64 * length (bv_vec v)"
  by (simp add: bv_bit_def div_less_iff_less_mult mult.commute)

lemma bv_index_in_range:
  assumes "bv_ok v" and "pos < bv_nbits v"
  shows "unat pos div 64 < length (bv_vec v)"
proof -
  have "unat pos < unat (bv_nbits v)" using assms(2) by (simp add: word_less_nat_alt)
  then show ?thesis using assms(1) by (simp add: bv_ok_def)
qed

lemma unat_div64 [simp]: "unat (pos div 64 :: ULONG) = unat pos div 64"
  by (simp add: unat_div)

lemma unat_mod64 [simp]: "unat (pos mod 64 :: ULONG) = unat pos mod 64"
  by (simp add: unat_mod)

lemma bit_bv_mask: "bit (bv_mask pos) n \<longleftrightarrow> n = unat pos mod 64"
  by (auto simp: bv_mask_def bit_simps)

lemma bit_or_bv_mask: "bit (u OR bv_mask pos) n \<longleftrightarrow> bit u n \<or> n = unat pos mod 64"
  by (simp add: bit_or_iff bit_bv_mask)

lemma bit_and_not_bv_mask:
  "bit (u AND NOT (bv_mask pos)) n \<longleftrightarrow> bit u n \<and> n \<noteq> unat pos mod 64"
  by (auto simp: bit_and_iff bit_not_iff bit_bv_mask dest: bit_imp_le_length)

section \<open>Single-bit operations\<close>

lemma bv_set_ctor [simp]: "bv_set (CBitVector_ctor nbits) = {}"
  by (auto simp: CBitVector_ctor_def bv_bit_def Let_def)

lemma bv_ok_ctor: "bv_ok (CBitVector_ctor nbits)"
proof -
  have "unat (nbits div 64 + 1) = unat nbits div 64 + 1"
    using unat_ULONG_less [of nbits] by (simp add: unat_word_ariths)
  then have "length (bv_vec (CBitVector_ctor nbits)) = unat (bv_len (CBitVector_ctor nbits))"
    and "unat (bv_len (CBitVector_ctor nbits)) = (unat nbits + 63) div 64"
    by (auto simp: CBitVector_ctor_def Let_def)
  then show ?thesis
    by (simp add: bv_ok_def del: bv_set_mem) (simp add: CBitVector_ctor_def Let_def)
qed

lemma bv_nbits_ctor [simp]: "bv_nbits (CBitVector_ctor nbits) = nbits"
  by (simp add: CBitVector_ctor_def Let_def)

lemma CBitVector_copy_id: "bv_ok v \<Longrightarrow> CBitVector_copy v = v"
  by (simp add: CBitVector_copy_def bv_ok_def)

lemma bv_Get_spec:
  "bv_Get v pos = (if pos < bv_nbits v then Inr (bit (bv_vec v ! (unat pos div 64)) (unat pos mod 64))
                   else Inl AssertFailed)"
  by (simp add: bv_Get_def bv_mask_def bit_and_mask_nonzero_iff)

lemma bv_Get_correct:
  assumes "bv_ok v" and "pos < bv_nbits v"
  shows "bv_Get v pos = Inr (unat pos \<in> bv_set v)"
  using bv_index_in_range [OF assms] assms(2) by (simp add: bv_Get_spec bv_bit_def)

lemma bv_bit_update:
  assumes "k < length (bv_vec v)"
  shows "bv_bit (v\<lparr>bv_vec := (bv_vec v)[k := u]\<rparr>) n \<longleftrightarrow>
    (if n div 64 = k then bit u (n mod 64) else bv_bit v n)"
  using assms by (auto simp: bv_bit_def)

lemma bv_ExchangeSet_correct:
  assumes ok: "bv_ok v" and pos: "pos < bv_nbits v"
  obtains v' where "bv_ExchangeSet v pos = Inr (unat pos \<in> bv_set v, v')" and "bv_ok v'"
    and "bv_set v' = insert (unat pos) (bv_set v)" and "bv_nbits v' = bv_nbits v"
    and "bv_len v' = bv_len v"
proof -
  let ?k = "unat pos div 64"
  let ?v = "v\<lparr>bv_vec := (bv_vec v)[?k := bv_vec v ! ?k OR bv_mask pos]\<rparr>"
  have k: "?k < length (bv_vec v)" by (rule bv_index_in_range [OF assms])
  have "bv_bit ?v n \<longleftrightarrow> n = unat pos \<or> bv_bit v n" for n
    by (cases "n div 64 = ?k") (auto simp: bv_bit_update k bit_or_bv_mask div_mod_64_eq bv_bit_def)
  then have set: "bv_set ?v = insert (unat pos) (bv_set v)" by auto
  have "unat pos < unat (bv_nbits v)" using pos by (simp add: word_less_nat_alt)
  with ok set have "bv_ok ?v" by (auto simp: bv_ok_def)
  moreover have "bv_ExchangeSet v pos = Inr (unat pos \<in> bv_set v, ?v)"
    using assms by (simp add: bv_ExchangeSet_def bv_Get_correct Let_def del: bv_set_mem)
  ultimately show thesis using set by (intro that [of ?v]) simp_all
qed

lemma bv_ExchangeClear_correct:
  assumes ok: "bv_ok v" and pos: "pos < bv_nbits v"
  obtains v' where "bv_ExchangeClear v pos = Inr (unat pos \<in> bv_set v, v')" and "bv_ok v'"
    and "bv_set v' = bv_set v - {unat pos}" and "bv_nbits v' = bv_nbits v"
    and "bv_len v' = bv_len v"
proof -
  let ?k = "unat pos div 64"
  let ?v = "v\<lparr>bv_vec := (bv_vec v)[?k := bv_vec v ! ?k AND NOT (bv_mask pos)]\<rparr>"
  have k: "?k < length (bv_vec v)" by (rule bv_index_in_range [OF assms])
  have "bv_bit ?v n \<longleftrightarrow> n \<noteq> unat pos \<and> bv_bit v n" for n
  proof (cases "n div 64 = ?k")
    case True
    then show ?thesis
      using k by (simp add: bv_bit_update bit_and_not_bv_mask div_mod_64_eq [OF True] bv_bit_def conj_commute)
  next
    case False
    then show ?thesis using k by (auto simp: bv_bit_update)
  qed
  then have set: "bv_set ?v = bv_set v - {unat pos}"
    unfolding bv_set_def by blast
  with ok have "bv_ok ?v" by (auto simp: bv_ok_def)
  moreover have "bv_ExchangeClear v pos = Inr (unat pos \<in> bv_set v, ?v)"
    using assms by (simp add: bv_ExchangeClear_def bv_Get_correct Let_def del: bv_set_mem)
  ultimately show thesis using set by (intro that [of ?v]) simp_all
qed

section \<open>Whole-vector operations\<close>

text \<open>The bits of a list of units, which the loops over the units walk through.\<close>

definition units_bit :: "ULLONG list \<Rightarrow> nat \<Rightarrow> bool" where
  "units_bit us n \<longleftrightarrow> n div 64 < length us \<and> bit (us ! (n div 64)) (n mod 64)"

lemma bv_bit_units: "bv_bit v n = units_bit (bv_vec v) n"
  by (simp add: bv_bit_def units_bit_def)

lemma units_bit_Nil [simp]: "\<not> units_bit [] n"
  by (simp add: units_bit_def)

lemma units_bit_Cons: "units_bit (u # us) n \<longleftrightarrow> (if n < 64 then bit u n else units_bit us (n - 64))"
proof (cases "n < 64")
  case False
  then obtain m where "n = m + 64" by (metis add.commute le_Suc_ex not_less)
  moreover from this have "n div 64 = Suc (m div 64)" by simp
  ultimately show ?thesis by (simp add: units_bit_def)
qed (simp add: units_bit_def)

lemma all_units_bit_Cons:
  "(\<forall>n. P (units_bit (a # as) n) (units_bit (b # bs) n)) \<longleftrightarrow>
     (\<forall>n < 64. P (bit a n) (bit b n)) \<and> (\<forall>n. P (units_bit as n) (units_bit bs n))"
  (is "?L \<longleftrightarrow> ?R")
proof
  assume ?L
  then have "P (bit a n) (bit b n)" if "n < 64" for n
    using that by (auto simp: units_bit_Cons dest: spec [of _ n])
  moreover have "P (units_bit as n) (units_bit bs n)" for n
    using \<open>?L\<close> [rule_format, of "n + 64"] by (simp add: units_bit_Cons)
  ultimately show ?R by blast
qed (auto simp: units_bit_Cons)

lemma and_eq_right_iff: "(a :: ULLONG) AND b = b \<longleftrightarrow> (\<forall>n < 64. bit b n \<longrightarrow> bit a n)"
  by (auto simp: ull_eq_iff bit_and_iff)

lemma and_eq_zero_iff: "0 = (a :: ULLONG) AND b \<longleftrightarrow> (\<forall>n < 64. \<not> (bit a n \<and> bit b n))"
  by (auto simp: ull_eq_iff bit_and_iff)

lemma bv_contains_units_iff:
  "length as = length bs \<Longrightarrow> bv_contains_units as bs \<longleftrightarrow> (\<forall>n. units_bit bs n \<longrightarrow> units_bit as n)"
proof (induction as bs rule: list_induct2)
  case (Cons a as b bs)
  then show ?case
    using all_units_bit_Cons [of "\<lambda>x y. y \<longrightarrow> x" a as b bs] by (simp add: Let_def and_eq_right_iff)
qed simp

lemma bv_disjoint_units_iff:
  "length as = length bs \<Longrightarrow> bv_disjoint_units as bs \<longleftrightarrow> (\<forall>n. \<not> (units_bit as n \<and> units_bit bs n))"
proof (induction as bs rule: list_induct2)
  case (Cons a as b bs)
  then show ?case
    using all_units_bit_Cons [of "\<lambda>x y. \<not> (x \<and> y)" a as b bs] by (simp add: and_eq_zero_iff)
qed simp

lemma units_eq_iff:
  "length as = length bs \<Longrightarrow> as = bs \<longleftrightarrow> (\<forall>n. units_bit as n \<longleftrightarrow> units_bit bs n)"
proof (induction as bs rule: list_induct2)
  case (Cons a as b bs)
  then show ?case
    using all_units_bit_Cons [of "(=)" a as b bs] by (simp add: ull_eq_iff)
qed simp

lemma units_empty_iff: "list_all (\<lambda>u. u = 0) us \<longleftrightarrow> (\<forall>n. \<not> units_bit us n)"
proof (induction us)
  case (Cons u us)
  then show ?case
    using all_units_bit_Cons [of "\<lambda>x y. \<not> x" u us u us] by (simp add: ull_eq_iff)
qed simp

lemma units_bit_map2_or:
  "length as = length bs \<Longrightarrow> units_bit (map2 (OR) as bs) n \<longleftrightarrow> units_bit as n \<or> units_bit bs n"
  by (auto simp: units_bit_def bit_or_iff)

lemma units_bit_map2_and:
  "length as = length bs \<Longrightarrow> units_bit (map2 (AND) as bs) n \<longleftrightarrow> units_bit as n \<and> units_bit bs n"
  by (auto simp: units_bit_def bit_and_iff)

lemma bv_same_size_length:
  "bv_ok v \<Longrightarrow> bv_ok w \<Longrightarrow> bv_same_size v w \<Longrightarrow> length (bv_vec v) = length (bv_vec w)"
  by (simp add: bv_ok_def bv_same_size_def)

lemma bv_same_sizeI: "bv_ok v \<Longrightarrow> bv_ok w \<Longrightarrow> bv_nbits v = bv_nbits w \<Longrightarrow> bv_same_size v w"
  by (simp add: bv_ok_def bv_same_size_def unat_eq_imp_eq)

lemma bv_ok_new_vec:
  assumes "bv_ok v" and "length us = length (bv_vec v)"
    and "\<And>n. units_bit us n \<Longrightarrow> n < unat (bv_nbits v)"
  shows "bv_ok (v\<lparr>bv_vec := us\<rparr>)"
  using assms by (simp add: bv_ok_def bv_bit_units)

lemma units_bit_bound: "bv_ok v \<Longrightarrow> units_bit (bv_vec v) n \<Longrightarrow> n < unat (bv_nbits v)"
  using bv_ok_bound by (simp add: bv_bit_units)

lemma bv_Or_correct:
  assumes "bv_ok v" and "bv_ok w" and "bv_same_size v w"
  obtains u where "bv_Or v w = Inr u" and "bv_ok u" and "bv_set u = bv_set v \<union> bv_set w"
    and "bv_nbits u = bv_nbits v"
proof -
  let ?u = "v\<lparr>bv_vec := map2 (OR) (bv_vec v) (bv_vec w)\<rparr>"
  note len = bv_same_size_length [OF assms]
  have set: "bv_set ?u = bv_set v \<union> bv_set w"
    by (auto simp: bv_bit_units units_bit_map2_or len)
  have "bv_ok ?u"
    using len units_bit_bound [OF assms(1)] units_bit_bound [OF assms(2)] assms(3)
    by (intro bv_ok_new_vec [OF assms(1)]) (auto simp: units_bit_map2_or bv_same_size_def)
  with assms(3) set show thesis by (intro that [of ?u]) (simp_all add: bv_Or_def del: bv_set_mem)
qed

lemma bv_And_correct:
  assumes "bv_ok v" and "bv_ok w" and "bv_same_size v w"
  obtains u where "bv_And v w = Inr u" and "bv_ok u" and "bv_set u = bv_set v \<inter> bv_set w"
    and "bv_nbits u = bv_nbits v"
proof -
  let ?u = "v\<lparr>bv_vec := map2 (AND) (bv_vec v) (bv_vec w)\<rparr>"
  note len = bv_same_size_length [OF assms]
  have set: "bv_set ?u = bv_set v \<inter> bv_set w"
    by (auto simp: bv_bit_units units_bit_map2_and len)
  have "bv_ok ?u"
    using len units_bit_bound [OF assms(1)]
    by (intro bv_ok_new_vec [OF assms(1)]) (auto simp: units_bit_map2_and)
  with assms(3) set show thesis by (intro that [of ?u]) (simp_all add: bv_And_def)
qed

lemma bv_ContainsAll_correct:
  "bv_ok v \<Longrightarrow> bv_ok w \<Longrightarrow> bv_same_size v w \<Longrightarrow> bv_ContainsAll v w = Inr (bv_set w \<subseteq> bv_set v)"
  by (auto simp: bv_ContainsAll_def bv_contains_units_iff bv_same_size_length bv_bit_units)

lemma bv_IsDisjoint_correct:
  "bv_ok v \<Longrightarrow> bv_ok w \<Longrightarrow> bv_same_size v w \<Longrightarrow> bv_IsDisjoint v w = Inr (bv_set v \<inter> bv_set w = {})"
  by (auto simp: bv_IsDisjoint_def bv_disjoint_units_iff bv_same_size_length bv_bit_units)

lemma bv_Equals_correct:
  "bv_ok v \<Longrightarrow> bv_ok w \<Longrightarrow> bv_same_size v w \<Longrightarrow> bv_Equals v w = Inr (bv_set v = bv_set w)"
  by (auto simp: bv_Equals_def units_eq_iff bv_same_size_length bv_bit_units set_eq_iff)

lemma bv_IsEmpty_correct: "bv_IsEmpty v \<longleftrightarrow> bv_set v = {}"
  by (auto simp: bv_IsEmpty_def units_empty_iff bv_bit_units)

section \<open>Finding the next set bit\<close>

lemma bv_shift_to_bit_zero [simp]: "bv_shift_to_bit 0 b = (0, b)"
  by (simp add: bv_shift_to_bit.simps)

lemma ull_nonzero_iff: "(u :: ULLONG) \<noteq> 0 \<longleftrightarrow> (\<exists>n < 64. bit u n)"
  by (simp add: ull_eq_iff)

lemma bv_shift_to_bit_spec:
  "ull \<noteq> 0 \<Longrightarrow> \<exists>k. bit ull k \<and> (\<forall>j < k. \<not> bit ull j) \<and>
     bv_shift_to_bit ull b = (drop_bit k ull, b + of_nat k)"
proof (induction ull b rule: bv_shift_to_bit.induct)
  case (1 ull b)
  show ?case
  proof (cases "bit ull 0")
    case True
    then have "ull AND 1 \<noteq> 0" by (simp only: and_one_eq_zero_iff not_not)
    with True show ?thesis by (intro exI [of _ 0]) (simp add: bv_shift_to_bit.simps)
  next
    case False
    then have even: "ull AND 1 = 0" by (simp only: and_one_eq_zero_iff not_False_eq_True)
    from "1.prems" obtain n where n: "n < 64" "bit ull n" by (auto simp: ull_nonzero_iff)
    with False have "n \<noteq> 0" by (cases n) auto
    with n(2) have nz: "drop_bit 1 ull \<noteq> 0" by (intro bit_drop_bit_nonzero) auto
    then obtain k where k: "bit (drop_bit 1 ull) k" "\<forall>j < k. \<not> bit (drop_bit 1 ull) j"
      "bv_shift_to_bit (drop_bit 1 ull) (b + 1) = (drop_bit k (drop_bit 1 ull), b + 1 + of_nat k)"
      using "1.IH" "1.prems" even by blast
    have "\<not> bit ull j" if "j < Suc k" for j
      using that k(2) False by (cases j) (auto simp: bit_drop_bit_eq)
    moreover have "bv_shift_to_bit ull b = (drop_bit (Suc k) ull, b + of_nat (Suc k))"
      using "1.prems" even k(3) by (simp add: bv_shift_to_bit.simps [of ull] add.assoc)
    ultimately show ?thesis using k(1) by (intro exI [of _ "Suc k"]) (auto simp: bit_drop_bit_eq)
  qed
qed

text \<open>\<open>is_next P start r\<close>: \<open>r\<close> is the least position at or after \<open>start\<close> with \<open>P\<close>, if any.\<close>

definition is_next :: "(nat \<Rightarrow> bool) \<Rightarrow> nat \<Rightarrow> nat option \<Rightarrow> bool" where
  "is_next P start r \<longleftrightarrow>
     (case r of None \<Rightarrow> (\<forall>n \<ge> start. \<not> P n)
      | Some p \<Rightarrow> P p \<and> start \<le> p \<and> (\<forall>n. P n \<and> start \<le> n \<longrightarrow> p \<le> n))"

lemma bv_scan_units_spec:
  assumes "unat offset < 64"
  shows "\<exists>r. is_next (units_bit us) (unat offset) r \<and>
    bv_scan_units us idx offset = map_option (\<lambda>n. of_nat n + idx * 64) r"
  using assms
proof (induction us arbitrary: idx offset)
  case Nil
  then show ?case by (intro exI [of _ None]) (simp add: is_next_def)
next
  case (Cons u us)
  let ?d = "drop_bit (unat offset) u"
  show ?case
  proof (cases "?d = 0")
    case False
    then obtain k where k: "bit ?d k" "\<forall>j < k. \<not> bit ?d j"
      and shift: "bv_shift_to_bit ?d offset = (drop_bit k ?d, offset + of_nat k)"
      using bv_shift_to_bit_spec by blast
    from k(1) have nz: "drop_bit k ?d \<noteq> 0" by (rule bit_drop_bit_nonzero) simp
    let ?p = "unat offset + k"
    from k(1) have p: "bit u ?p" by (simp add: bit_drop_bit_eq)
    then have p64: "?p < 64" by (auto dest: bit_imp_le_length)
    have "?p \<le> n" if "units_bit (u # us) n" "unat offset \<le> n" for n
    proof (rule ccontr)
      assume "\<not> ?p \<le> n"
      with that p64 have "bit ?d (n - unat offset)" by (simp add: units_bit_Cons bit_drop_bit_eq)
      with k(2) \<open>\<not> ?p \<le> n\<close> that(2) show False by (metis add.commute less_diff_conv2 not_le)
    qed
    with p p64 have "is_next (units_bit (u # us)) (unat offset) (Some ?p)"
      by (simp add: is_next_def units_bit_Cons)
    moreover have "bv_scan_units (u # us) idx offset = Some (of_nat ?p + idx * 64)"
      using shift nz by (simp add: unat_of_nat)
    ultimately show ?thesis by (intro exI [of _ "Some ?p"]) simp
  next
    case True
    have none: "\<not> bit u n" if "unat offset \<le> n" for n
      using that True bit_drop_bit_nonzero by blast
    from Cons.IH [of 0 "idx + 1"] obtain r where r: "is_next (units_bit us) 0 r"
      and eq: "bv_scan_units us (idx + 1) 0 = map_option (\<lambda>n. of_nat n + (idx + 1) * 64) r"
      by auto
    let ?r = "map_option (\<lambda>n. n + 64) r"
    have "is_next (units_bit (u # us)) (unat offset) ?r"
      using r none Cons.prems by (cases r) (auto simp: is_next_def units_bit_Cons)
    moreover have "bv_scan_units (u # us) idx offset = map_option (\<lambda>n. of_nat n + idx * 64) ?r"
      using True eq by (cases r) (simp_all add: algebra_simps)
    ultimately show ?thesis by blast
  qed
qed

lemma units_bit_drop: "units_bit (drop k us) n \<longleftrightarrow> units_bit us (n + 64 * k)"
  by (auto simp: units_bit_def add.commute)

lemma is_next_shift:
  assumes "is_next (\<lambda>n. P (n + d)) s r"
  shows "is_next P (s + d) (map_option (\<lambda>n. n + d) r)"
proof (cases r)
  case None
  have "\<not> P n" if "s + d \<le> n" for n
    using that assms None by (auto simp: is_next_def dest: spec [of _ "n - d"])
  with None show ?thesis by (simp add: is_next_def)
next
  case (Some p)
  have "p + d \<le> n" if "P n" "s + d \<le> n" for n
    using that assms Some by (auto simp: is_next_def dest: spec [of _ "n - d"])
  with assms Some show ?thesis by (simp add: is_next_def)
qed

lemma bv_GetNextSetBit_correct:
  assumes "bv_ok v"
  shows "is_next (\<lambda>n. n \<in> bv_set v) (unat start_pos) (map_option unat (bv_GetNextSetBit v start_pos))"
proof -
  let ?d = "64 * (unat start_pos div 64)"
  have offset: "unat (start_pos mod 64) < 64" by simp
  from bv_scan_units_spec [OF offset] obtain r where
    r: "is_next (units_bit (drop (unat (start_pos div 64)) (bv_vec v))) (unat (start_pos mod 64)) r"
    and eq: "bv_GetNextSetBit v start_pos = map_option (\<lambda>n. of_nat n + start_pos div 64 * 64) r"
    unfolding bv_GetNextSetBit_def by blast
  from r have "is_next (\<lambda>n. units_bit (bv_vec v) (n + ?d)) (unat start_pos mod 64) r"
    by (simp add: units_bit_drop [abs_def])
  from is_next_shift [OF this]
  have next': "is_next (\<lambda>n. n \<in> bv_set v) (unat start_pos) (map_option (\<lambda>n. n + ?d) r)"
    by (simp add: bv_bit_units)
  have "unat (of_nat n + start_pos div 64 * 64 :: ULONG) = n + ?d" if "r = Some n" for n
  proof -
    from next' that have "n + ?d \<in> bv_set v" by (simp add: is_next_def)
    then have "n + ?d < 4294967296"
      using bv_ok_bound [OF assms] unat_ULONG_less [of "bv_nbits v"] by force
    moreover have "of_nat n + start_pos div 64 * 64 = (of_nat (n + ?d) :: ULONG)"
      by (simp add: unat_div64 [symmetric] mult.commute del: unat_div64)
    ultimately show ?thesis by (simp add: unat_of_nat del: of_nat_add of_nat_mult)
  qed
  then have "map_option unat (bv_GetNextSetBit v start_pos) = map_option (\<lambda>n. n + ?d) r"
    using eq by (cases r) simp_all
  with next' show ?thesis by simp
qed

section \<open>Counting the set bits\<close>

lemma bit_and_minus_one:
  fixes w :: "'a::len word"
  assumes k: "bit w k" and least: "\<forall>j < k. \<not> bit w j"
  shows "bit (w AND (w - 1)) n \<longleftrightarrow> bit w n \<and> n \<noteq> k"
proof -
  have kl: "k < LENGTH('a)" using k by (rule bit_imp_le_length)
  let ?h = "w AND NOT (mask (Suc k))"
  have bh: "bit ?h n \<longleftrightarrow> k < n \<and> bit w n" for n
    by (auto simp: bit_simps dest: bit_imp_le_length)
  have "w = ?h OR 2 ^ k"
  proof (rule bit_word_eqI)
    fix n assume "n < LENGTH('a)"
    then show "bit w n \<longleftrightarrow> bit (?h OR 2 ^ k) n"
      using k least bh [of n] by (auto simp: bit_or_iff bit_exp_iff)
  qed
  also have "\<dots> = ?h + 2 ^ k"
    by (rule disjunctive_add_eq_or [symmetric], rule bit_word_eqI)
       (simp add: bit_and_iff [of ?h] bh bit_exp_iff)
  finally have "w - 1 = ?h + mask k" by (simp add: mask_eq_exp_minus_1)
  also have "\<dots> = ?h OR mask k"
    by (rule disjunctive_add_eq_or, rule bit_word_eqI) (simp add: bit_and_iff [of ?h] bh bit_mask_iff)
  finally have "bit (w - 1) n \<longleftrightarrow> (k < n \<and> bit w n) \<or> (n < k \<and> n < LENGTH('a))"
    using bh [of n] by (simp add: bit_or_iff [of ?h] bit_mask_iff conj_commute)
  with least kl show ?thesis by (auto simp: bit_and_iff)
qed

lemma bv_count_unit_correct: "bv_count_unit ull j = j + of_nat (card {n. bit ull n})"
proof (induction ull j rule: bv_count_unit.induct)
  case (1 ull j)
  show ?case
  proof (cases "ull = 0")
    case False
    then obtain m where "bit ull m" by (auto simp: ull_nonzero_iff)
    define k where "k = (LEAST n. bit ull n)"
    have k: "bit ull k" unfolding k_def using \<open>bit ull m\<close> by (rule LeastI)
    have least: "\<forall>j < k. \<not> bit ull j" unfolding k_def using not_less_Least by blast
    have "{n. bit (ull AND (ull - 1)) n} = {n. bit ull n} - {k}"
      using bit_and_minus_one [OF k least] by auto
    with k have "card {n. bit ull n} = Suc (card {n. bit (ull AND (ull - 1)) n})"
      using card.remove [OF finite_bits, of k ull] by simp
    moreover have "bv_count_unit ull j = bv_count_unit (ull AND (ull - 1)) (j + 1)"
      using False by (simp add: bv_count_unit.simps [of ull])
    ultimately show ?thesis using "1.IH" [OF False] by (simp add: add.assoc)
  qed (simp add: bv_count_unit.simps)
qed

lemma units_bit_set_Cons:
  "{n. units_bit (u # us) n} = {n. bit u n} \<union> (\<lambda>n. n + 64) ` {n. units_bit us n}"
proof -
  have "units_bit (u # us) n \<longleftrightarrow> bit u n \<or> (\<exists>m. n = m + 64 \<and> units_bit us m)" for n
    using bit_imp_le_length [of u n] by (auto simp: units_bit_Cons intro: exI [of _ "n - 64"])
  then show ?thesis by auto
qed

lemma finite_units_bit: "finite {n. units_bit us n}"
  by (induction us) (simp_all add: units_bit_set_Cons finite_bits)

lemma card_units_bit_Cons:
  "card {n. units_bit (u # us) n} = card {n. bit u n} + card {n. units_bit us n}"
proof -
  have "{n. bit u n} \<inter> (\<lambda>n. n + 64) ` {n. units_bit us n} = {}"
    by (auto dest: bit_imp_le_length)
  then show ?thesis
    by (simp add: units_bit_set_Cons card_Un_disjoint finite_bits finite_units_bit card_image)
qed

lemma bv_count_units_correct:
  "foldl (\<lambda>nbits ull. nbits + bv_count_unit ull 0) c us = c + of_nat (card {n. units_bit us n})"
proof (induction us arbitrary: c)
  case Nil
  have "{n. units_bit [] n} = {}" by simp
  then have "card {n. units_bit [] n} = 0" by (simp only: card.empty)
  then show ?case unfolding foldl_Nil by (rule ssubst) simp
qed (simp add: bv_count_unit_correct card_units_bit_Cons)

lemma bv_CountSetBits_correct: "bv_CountSetBits v = of_nat (card (bv_set v))"
  by (simp add: bv_CountSetBits_def bv_count_units_correct bv_set_def bv_bit_units)

lemma unat_bv_CountSetBits: "bv_ok v \<Longrightarrow> unat (bv_CountSetBits v) = card (bv_set v)"
  using card_bv_set [of v] unat_ULONG_less [of "bv_nbits v"]
  by (simp add: bv_CountSetBits_correct unat_of_nat)

section \<open>Properties\<close>

definition bv_sample :: "ULLONG list \<Rightarrow> CBitVector" where
  "bv_sample us = \<lparr>bv_nbits = of_nat (64 * length us), bv_len = of_nat (length us), bv_vec = us\<rparr>"

lemma bv_ok_sample:
  assumes "length us < 67108864"
  shows "bv_ok (bv_sample us)"
proof -
  have "unat (of_nat (64 * length us) :: ULONG) = 64 * length us"
    using assms by (simp only: unat_of_nat) simp
  then show ?thesis
    using assms bv_bit_less [of "bv_sample us"]
    by (auto simp: bv_ok_def bv_sample_def unat_of_nat simp del: of_nat_mult)
qed

text \<open>
  the bitwise operations of \<^verbatim>\<open>CBitVector\<close> are the set operations. On two valid vectors
  of the same size none of them fails; \<^verbatim>\<open>Or\<close> and \<^verbatim>\<open>And\<close> leave a valid vector with the
  union and the intersection, and the unit-wise tests decide inclusion, disjointness, equality
  and emptiness.
\<close>

theorem bv_bitwise_refines_sets:
  assumes "bv_ok v" and "bv_ok w" and "bv_same_size v w"
  shows "\<exists>u u'. bv_Or v w = Inr u \<and> bv_ok u \<and> bv_set u = bv_set v \<union> bv_set w \<and>
    bv_And v w = Inr u' \<and> bv_ok u' \<and> bv_set u' = bv_set v \<inter> bv_set w \<and>
    bv_ContainsAll v w = Inr (bv_set w \<subseteq> bv_set v) \<and>
    bv_IsDisjoint v w = Inr (bv_set v \<inter> bv_set w = {}) \<and>
    bv_Equals v w = Inr (bv_set v = bv_set w) \<and>
    bv_IsEmpty v = (bv_set v = {})"
proof -
  obtain u where "bv_Or v w = Inr u" "bv_ok u" "bv_set u = bv_set v \<union> bv_set w"
    using bv_Or_correct [OF assms] by blast
  moreover obtain u' where "bv_And v w = Inr u'" "bv_ok u'" "bv_set u' = bv_set v \<inter> bv_set w"
    using bv_And_correct [OF assms] by blast
  ultimately show ?thesis
    using bv_ContainsAll_correct [OF assms] bv_IsDisjoint_correct [OF assms] bv_Equals_correct [OF assms]
      bv_IsEmpty_correct [of v] by blast
qed

theorem bv_bitwise_refines_sets_witness:
  "\<exists>u. bv_Or (bv_sample [5, 0]) (bv_sample [6, 1]) = Inr u \<and>
     bv_set u = bv_set (bv_sample [5, 0]) \<union> bv_set (bv_sample [6, 1]) \<and>
     bv_IsDisjoint (bv_sample [5, 0]) (bv_sample [6, 1]) =
       Inr (bv_set (bv_sample [5, 0]) \<inter> bv_set (bv_sample [6, 1]) = {})"
proof -
  have "bv_same_size (bv_sample [5, 0]) (bv_sample [6, 1])"
    by (simp add: bv_same_size_def bv_sample_def)
  from bv_bitwise_refines_sets [OF _ _ this] show ?thesis by (auto simp: bv_ok_sample)
qed

text \<open>
  the two nested loops of \<^verbatim>\<open>GetNextSetBit\<close> end and return the least set position at or
  after the start, across unit boundaries, or report that there is none; \<^verbatim>\<open>CountSetBits\<close>
  returns the number of set positions without wrapping.
\<close>

theorem bv_scan_and_count:
  assumes "bv_ok v"
  shows "(case bv_GetNextSetBit v start_pos of
       None \<Rightarrow> \<forall>n \<in> bv_set v. n < unat start_pos
     | Some p \<Rightarrow> unat p \<in> bv_set v \<and> start_pos \<le> p \<and> (\<forall>n \<in> bv_set v. unat start_pos \<le> n \<longrightarrow> unat p \<le> n)) \<and>
    unat (bv_CountSetBits v) = card (bv_set v)"
  using bv_GetNextSetBit_correct [OF assms, of start_pos] unat_bv_CountSetBits [OF assms]
  by (auto simp: is_next_def word_le_nat_alt split: option.splits) (meson not_le)

theorem bv_scan_and_count_witness:
  "bv_GetNextSetBit (bv_sample [5, 1]) 3 = Some 64 \<and> (64 :: nat) \<in> bv_set (bv_sample [5, 1]) \<and>
   card (bv_set (bv_sample [5, 1])) = 3"
proof -
  have "bv_GetNextSetBit (bv_sample [5, 1]) 3 = Some 64" "bv_CountSetBits (bv_sample [5, 1]) = 3"
    by code_simp+
  then show ?thesis using bv_scan_and_count [of "bv_sample [5, 1]" 3] bv_ok_sample [of "[5, 1]"] by simp
qed

end
