(* ===== verification/BitSet.thy ===== *)
theory BitSet
  imports BitVector
begin

text \<open>
  \<^verbatim>\<open>libgpos/src/common/CBitSet.cpp\<close> and \<^verbatim>\<open>CBitSetIter.cpp\<close>: the sparse set of
  32-bit positions kept as a sorted list of links, each a bit vector at an offset that is a
  multiple of the vector size. A link pointer of the C++ code (a cursor into the intrusive
  list) is the index of the link in the list, NULL is \<open>None\<close>. \<open>bs_ok\<close> is the representation
  invariant, \<open>bs_set\<close> the set of positions, and the lemmas give every operation its meaning
  on sets; the loops that sweep two lists with one cursor are shown equal to lookups from the
  head of the list.
\<close>

section \<open>Definitions\<close>

type_synonym CBitSetLink = "ULONG \<times> CBitVector"

record CBitSet =
  bs_vector_size :: ULONG
  bs_size :: ULONG
  bs_links :: "CBitSetLink list"

definition CBitSetLink_ctor :: "ULONG \<Rightarrow> ULONG \<Rightarrow> CBitSetLink" where
  "CBitSetLink_ctor offset vector_size = (offset, CBitVector_ctor vector_size)"

definition CBitSetLink_copy :: "CBitSetLink \<Rightarrow> CBitSetLink" where
  "CBitSetLink_copy bsl = (fst bsl, CBitVector_copy (snd bsl))"

text \<open>The \<^verbatim>\<open>while (1)\<close> loop of \<^verbatim>\<open>FindLinkByOffset\<close>: the remaining links from the
  cursor on, the index of the cursor, the last link passed.\<close>

fun bs_find_loop :: "CBitSetLink list \<Rightarrow> ULONG \<Rightarrow> nat \<Rightarrow> nat option \<Rightarrow> nat option" where
  "bs_find_loop [] offset cursor found = found"
| "bs_find_loop (bsl # bsls) offset cursor found =
     (if fst bsl > offset then found else bs_find_loop bsls offset (Suc cursor) (Some cursor))"

definition bs_FindLinkByOffset ::
  "CBitSetLink list \<Rightarrow> ULONG \<Rightarrow> nat option \<Rightarrow> nat option result" where
  "bs_FindLinkByOffset links offset bsl =
     (case bsl of
        None \<Rightarrow> Inr (bs_find_loop links offset 0 None)
      | Some i \<Rightarrow>
          gpos_assert (i < length links \<and> fst (links ! i) \<le> offset)
            (Inr (bs_find_loop (drop i links) offset i (Some i))))"

text \<open>The test \<^verbatim>\<open>NULL != bsl && bsl->GetOffset() == offset\<close>.\<close>

definition bs_hit :: "CBitSetLink list \<Rightarrow> ULONG \<Rightarrow> nat option \<Rightarrow> CBitVector option" where
  "bs_hit links offset bsl =
     (case bsl of
        None \<Rightarrow> None
      | Some i \<Rightarrow> if fst (links ! i) = offset then Some (snd (links ! i)) else None)"

text \<open>\<^verbatim>\<open>Prepend\<close> when there is no previous link, \<^verbatim>\<open>Append\<close> after it otherwise;
  and \<^verbatim>\<open>Remove\<close>.\<close>

definition bs_insert_link :: "CBitSetLink list \<Rightarrow> CBitSetLink \<Rightarrow> nat option \<Rightarrow> CBitSetLink list" where
  "bs_insert_link links new bsl =
     (case bsl of
        None \<Rightarrow> new # links
      | Some i \<Rightarrow> take (Suc i) links @ new # drop (Suc i) links)"

definition bs_remove_link :: "CBitSetLink list \<Rightarrow> nat \<Rightarrow> CBitSetLink list" where
  "bs_remove_link links i = take i links @ drop (Suc i) links"

definition bs_RecomputeSize :: "CBitSet \<Rightarrow> CBitSet" where
  "bs_RecomputeSize bs =
     bs\<lparr>bs_size := foldl (\<lambda>m_size bsl. m_size + bv_CountSetBits (snd bsl)) 0 (bs_links bs)\<rparr>"

definition bs_Clear :: "CBitSet \<Rightarrow> CBitSet" where
  "bs_Clear bs = bs_RecomputeSize (bs\<lparr>bs_links := []\<rparr>)"

definition bs_ComputeOffset :: "CBitSet \<Rightarrow> ULONG \<Rightarrow> ULONG" where
  "bs_ComputeOffset bs ul = (ul div bs_vector_size bs) * bs_vector_size bs"

definition CBitSet_ctor :: "ULONG \<Rightarrow> CBitSet" where
  "CBitSet_ctor vector_size = \<lparr>bs_vector_size = vector_size, bs_size = 0, bs_links = []\<rparr>"

definition bs_Get :: "CBitSet \<Rightarrow> ULONG \<Rightarrow> bool result" where
  "bs_Get bs pos =
     (let offset = bs_ComputeOffset bs pos in
      rbind (bs_FindLinkByOffset (bs_links bs) offset None) (\<lambda>bsl.
        case bs_hit (bs_links bs) offset bsl of
          Some vec \<Rightarrow> bv_Get vec (pos - offset)
        | None \<Rightarrow> Inr False))"

definition bs_ExchangeSet :: "CBitSet \<Rightarrow> ULONG \<Rightarrow> (bool \<times> CBitSet) result" where
  "bs_ExchangeSet bs pos =
     (let offset = bs_ComputeOffset bs pos in
      rbind (bs_FindLinkByOffset (bs_links bs) offset None) (\<lambda>bsl.
        let (links, i) =
              (case bs_hit (bs_links bs) offset bsl of
                 Some vec \<Rightarrow> (bs_links bs, the bsl)
               | None \<Rightarrow>
                   (bs_insert_link (bs_links bs) (CBitSetLink_ctor offset (bs_vector_size bs)) bsl,
                    (case bsl of None \<Rightarrow> 0 | Some i \<Rightarrow> Suc i)))
        in gpos_assert (fst (links ! i) = offset)
             (rbind (bv_ExchangeSet (snd (links ! i)) (pos - offset)) (\<lambda>(bit, vec).
                Inr (bit,
                  bs\<lparr>bs_links := links[i := (offset, vec)],
                     bs_size := (if \<not> bit then bs_size bs + 1 else bs_size bs)\<rparr>)))))"

definition bs_ExchangeClear :: "CBitSet \<Rightarrow> ULONG \<Rightarrow> (bool \<times> CBitSet) result" where
  "bs_ExchangeClear bs pos =
     (let offset = bs_ComputeOffset bs pos in
      rbind (bs_FindLinkByOffset (bs_links bs) offset None) (\<lambda>bsl.
        case bs_hit (bs_links bs) offset bsl of
          Some vec \<Rightarrow>
            rbind (bv_ExchangeClear vec (pos - offset)) (\<lambda>(bit, vec').
              Inr (bit,
                bs\<lparr>bs_links :=
                     (if bv_IsEmpty vec' then bs_remove_link (bs_links bs) (the bsl)
                      else (bs_links bs)[the bsl := (offset, vec')]),
                   bs_size := (if bit then bs_size bs - 1 else bs_size bs)\<rparr>))
        | None \<Rightarrow> Inr (False, bs)))"

text \<open>
  The three loops of \<^verbatim>\<open>Union\<close>: (1) collect copies of the links of the other set that
  this set lacks, (2) insert them, (3) union all links vector by vector. Every loop carries
  the cursor of its last search.
\<close>

fun bs_union_missing ::
  "CBitSetLink list \<Rightarrow> CBitSetLink list \<Rightarrow> nat option \<Rightarrow> CBitSetLink list result" where
  "bs_union_missing links [] bsl = Inr []"
| "bs_union_missing links (other # others) bsl =
     rbind (bs_FindLinkByOffset links (fst other) bsl) (\<lambda>bsl'.
       rbind (bs_union_missing links others bsl') (\<lambda>rest.
         Inr (case bs_hit links (fst other) bsl' of
                Some _ \<Rightarrow> rest
              | None \<Rightarrow> CBitSetLink_copy other # rest)))"

fun bs_union_insert ::
  "CBitSetLink list \<Rightarrow> CBitSetLink list \<Rightarrow> nat option \<Rightarrow> CBitSetLink list result" where
  "bs_union_insert links [] bsl = Inr links"
| "bs_union_insert links (new # news) bsl =
     rbind (bs_FindLinkByOffset links (fst new) bsl) (\<lambda>bsl'.
       gpos_assert (case bsl' of None \<Rightarrow> True | Some i \<Rightarrow> fst (links ! i) < fst new)
         (bs_union_insert (bs_insert_link links new bsl') news bsl'))"

fun bs_union_or ::
  "CBitSetLink list \<Rightarrow> CBitSetLink list \<Rightarrow> nat option \<Rightarrow> CBitSetLink list result" where
  "bs_union_or others [] bsl_other = Inr []"
| "bs_union_or others (bsl # bsls) bsl_other =
     rbind (bs_FindLinkByOffset others (fst bsl) bsl_other) (\<lambda>bsl_other'.
       rbind (case bs_hit others (fst bsl) bsl_other' of
                Some vec_other \<Rightarrow> bv_Or (snd bsl) vec_other
              | None \<Rightarrow> Inr (snd bsl)) (\<lambda>vec.
         rbind (bs_union_or others bsls bsl_other') (\<lambda>rest. Inr ((fst bsl, vec) # rest))))"

definition bs_Union :: "CBitSet \<Rightarrow> CBitSet \<Rightarrow> CBitSet result" where
  "bs_Union bs other =
     rbind (bs_union_missing (bs_links bs) (bs_links other) None) (\<lambda>news.
       rbind (bs_union_insert (bs_links bs) news None) (\<lambda>links.
         rbind (bs_union_or (bs_links other) links None) (\<lambda>links'.
           Inr (bs_RecomputeSize (bs\<lparr>bs_links := links'\<rparr>)))))"

definition CBitSet_copy :: "CBitSet \<Rightarrow> CBitSet result" where
  "CBitSet_copy bs = bs_Union (CBitSet_ctor (bs_vector_size bs)) bs"

fun bs_intersect_loop ::
  "CBitSetLink list \<Rightarrow> CBitSetLink list \<Rightarrow> nat option \<Rightarrow> CBitSetLink list result" where
  "bs_intersect_loop others [] bsl_other = Inr []"
| "bs_intersect_loop others (bsl # bsls) bsl_other =
     rbind (bs_FindLinkByOffset others (fst bsl) bsl_other) (\<lambda>bsl_other'.
       case bs_hit others (fst bsl) bsl_other' of
         Some vec_other \<Rightarrow>
           rbind (bv_And (snd bsl) vec_other) (\<lambda>vec.
             rbind (bs_intersect_loop others bsls bsl_other') (\<lambda>rest. Inr ((fst bsl, vec) # rest)))
       | None \<Rightarrow> bs_intersect_loop others bsls bsl_other')"

text \<open>A NULL argument leaves the set as it is.\<close>

definition bs_Intersection :: "CBitSet \<Rightarrow> CBitSet option \<Rightarrow> CBitSet result" where
  "bs_Intersection bs pbsOther =
     (case pbsOther of
        None \<Rightarrow> Inr bs
      | Some other \<Rightarrow>
          rbind (bs_intersect_loop (bs_links other) (bs_links bs) None) (\<lambda>links.
            Inr (bs_RecomputeSize (bs\<lparr>bs_links := links\<rparr>))))"

fun bs_contains_loop ::
  "CBitSetLink list \<Rightarrow> CBitSetLink list \<Rightarrow> nat option \<Rightarrow> bool result" where
  "bs_contains_loop links [] bsl = Inr True"
| "bs_contains_loop links (other # others) bsl =
     rbind (bs_FindLinkByOffset links (fst other) bsl) (\<lambda>bsl'.
       case bs_hit links (fst other) bsl' of
         None \<Rightarrow> Inr False
       | Some vec \<Rightarrow>
           rbind (bv_ContainsAll vec (snd other)) (\<lambda>c.
             if \<not> c then Inr False else bs_contains_loop links others bsl'))"

definition bs_ContainsAll :: "CBitSet \<Rightarrow> CBitSet \<Rightarrow> bool result" where
  "bs_ContainsAll this bs =
     (if bs_size this < bs_size bs then Inr False
      else bs_contains_loop (bs_links this) (bs_links bs) None)"

fun bs_equals_loop :: "CBitSetLink list \<Rightarrow> CBitSetLink list \<Rightarrow> bool result" where
  "bs_equals_loop [] others = Inr (others = [])"
| "bs_equals_loop (bsl # bsls) [] = Inr False"
| "bs_equals_loop (bsl # bsls) (other # others) =
     (if fst bsl \<noteq> fst other then Inr False
      else rbind (bv_Equals (snd bsl) (snd other)) (\<lambda>e.
             if \<not> e then Inr False else bs_equals_loop bsls others))"

text \<open>The first argument is the outcome of the pointer comparison \<^verbatim>\<open>this == bs\<close>.\<close>

definition bs_Equals :: "bool \<Rightarrow> CBitSet \<Rightarrow> CBitSet \<Rightarrow> bool result" where
  "bs_Equals same_object this bs =
     (if same_object then Inr True
      else if bs_size this \<noteq> bs_size bs then Inr False
      else bs_equals_loop (bs_links this) (bs_links bs))"

fun bs_disjoint_loop ::
  "CBitSetLink list \<Rightarrow> CBitSetLink list \<Rightarrow> nat option \<Rightarrow> bool result" where
  "bs_disjoint_loop links [] bsl = Inr True"
| "bs_disjoint_loop links (other # others) bsl =
     rbind (bs_FindLinkByOffset links (fst other) bsl) (\<lambda>bsl'.
       case bs_hit links (fst other) bsl' of
         None \<Rightarrow> bs_disjoint_loop links others bsl'
       | Some vec \<Rightarrow>
           rbind (bv_IsDisjoint vec (snd other)) (\<lambda>d.
             if \<not> d then Inr False else bs_disjoint_loop links others bsl'))"

definition bs_IsDisjoint :: "CBitSet \<Rightarrow> CBitSet \<Rightarrow> bool result" where
  "bs_IsDisjoint this bs = bs_disjoint_loop (bs_links this) (bs_links bs) None"

text \<open>The iterator: cursor within the current vector, current link, activity flag.\<close>

record CBitSetIter =
  it_cursor :: ULONG
  it_bsl :: "nat option"
  it_active :: bool

definition CBitSetIter_ctor :: CBitSetIter where
  "CBitSetIter_ctor = \<lparr>it_cursor = - 1, it_bsl = None, it_active = True\<rparr>"

fun bs_advance_loop ::
  "ULONG \<Rightarrow> CBitSetLink list \<Rightarrow> nat \<Rightarrow> ULONG \<Rightarrow> (ULONG \<times> nat option)" where
  "bs_advance_loop vector_size [] i cursor = (cursor, None)"
| "bs_advance_loop vector_size (bsl # bsls) i cursor =
     (case (if cursor + 1 \<le> vector_size then bv_GetNextSetBit (snd bsl) (cursor + 1) else None) of
        Some next_pos \<Rightarrow> (next_pos, Some i)
      | None \<Rightarrow> bs_advance_loop vector_size bsls (Suc i) (- 1))"

definition bs_iter_Advance :: "CBitSet \<Rightarrow> CBitSetIter \<Rightarrow> (bool \<times> CBitSetIter) result" where
  "bs_iter_Advance bs it =
     gpos_assert (it_active it)
       (let i = (case it_bsl it of None \<Rightarrow> 0 | Some i \<Rightarrow> i);
            (cursor, bsl) =
              bs_advance_loop (bs_vector_size bs) (drop i (bs_links bs)) i (it_cursor it);
            active = (bsl \<noteq> None)
        in Inr (active, \<lparr>it_cursor = cursor, it_bsl = bsl, it_active = active\<rparr>))"

definition bs_iter_Bit :: "CBitSet \<Rightarrow> CBitSetIter \<Rightarrow> ULONG result" where
  "bs_iter_Bit bs it =
     (case it_bsl it of
        None \<Rightarrow> Inl AssertFailed
      | Some i \<Rightarrow>
          gpos_assert (it_active it \<and> i < length (bs_links bs))
            (rbind (bv_Get (snd (bs_links bs ! i)) (it_cursor it)) (\<lambda>b.
               gpos_assert b (Inr (fst (bs_links bs ! i) + it_cursor it)))))"

text \<open>The element loop of \<^verbatim>\<open>OsPrint\<close>: the positions printed, in order.\<close>

fun bs_print_loop :: "nat \<Rightarrow> CBitSet \<Rightarrow> CBitSetIter \<Rightarrow> ULONG list result" where
  "bs_print_loop 0 bs it = Inr []"
| "bs_print_loop (Suc n) bs it =
     rbind (bs_iter_Advance bs it) (\<lambda>(_, it').
       rbind (bs_iter_Bit bs it') (\<lambda>p.
         rbind (bs_print_loop n bs it') (\<lambda>ps. Inr (p # ps))))"

definition bs_OsPrint_elems :: "CBitSet \<Rightarrow> ULONG list result" where
  "bs_OsPrint_elems bs = bs_print_loop (unat (bs_size bs)) bs CBitSetIter_ctor"

text \<open>
  The loop \<^verbatim>\<open>while (iter.Advance()) { body(iter.Bit()) }\<close> that clients of the iterator write,
  with \<open>None\<close> for a run that does not end. The body returns whether the loop goes on (\<open>False\<close> is
  a \<^verbatim>\<open>return\<close> from inside the loop) and the new state. The set that is walked and the
  state that is changed are distinct objects.
\<close>

partial_function (option) bs_foreach ::
  "CBitSet \<Rightarrow> CBitSetIter \<Rightarrow> (ULONG \<Rightarrow> 's \<Rightarrow> (bool \<times> 's) result) \<Rightarrow> 's \<Rightarrow> 's result option" where
  "bs_foreach bs it body s =
     (case bs_iter_Advance bs it of
        Inl e \<Rightarrow> Some (Inl e)
      | Inr (active, it') \<Rightarrow>
          if \<not> active then Some (Inr s)
          else (case rbind (bs_iter_Bit bs it') (\<lambda>p. body p s) of
                  Inl e \<Rightarrow> Some (Inl e)
                | Inr (cont, s') \<Rightarrow> if cont then bs_foreach bs it' body s' else Some (Inr s')))"

definition bs_clear_body :: "ULONG \<Rightarrow> CBitSet \<Rightarrow> (bool \<times> CBitSet) result" where
  "bs_clear_body p bs = rbind (bs_ExchangeClear bs p) (\<lambda>(_, bs'). Inr (True, bs'))"

definition bs_Difference :: "CBitSet \<Rightarrow> CBitSet \<Rightarrow> CBitSet result option" where
  "bs_Difference bs other =
     (case bs_IsDisjoint bs other of
        Inl e \<Rightarrow> Some (Inl e)
      | Inr True \<Rightarrow> Some (Inr bs)
      | Inr False \<Rightarrow> bs_foreach other CBitSetIter_ctor bs_clear_body bs)"

section \<open>Searching the list of links\<close>

text \<open>The offsets of the links are strictly increasing.\<close>

definition links_sorted :: "CBitSetLink list \<Rightarrow> bool" where
  "links_sorted links \<longleftrightarrow> sorted_wrt (<) (map fst links)"

text \<open>The index of the last link at or before an offset.\<close>

definition last_le :: "CBitSetLink list \<Rightarrow> ULONG \<Rightarrow> nat option" where
  "last_le links offset =
     (case length (takeWhile (\<lambda>l. fst l \<le> offset) links) of 0 \<Rightarrow> None | Suc i \<Rightarrow> Some i)"

lemma links_sorted_simps [simp]:
  "links_sorted []"
  "links_sorted (l # ls) \<longleftrightarrow> (\<forall>l' \<in> set ls. fst l < fst l') \<and> links_sorted ls"
  by (simp_all add: links_sorted_def)

lemma links_sorted_append:
  "links_sorted (xs @ ys) \<longleftrightarrow>
     links_sorted xs \<and> links_sorted ys \<and> (\<forall>x \<in> set xs. \<forall>y \<in> set ys. fst x < fst y)"
  by (auto simp: links_sorted_def sorted_wrt_append)

lemma links_sorted_distinct: "links_sorted links \<Longrightarrow> distinct (map fst links)"
  by (induction links) auto

lemma links_sorted_nth:
  "links_sorted links \<Longrightarrow> i < j \<Longrightarrow> j < length links \<Longrightarrow> fst (links ! i) < fst (links ! j)"
  by (simp add: links_sorted_def sorted_wrt_iff_nth_less)

lemma bs_find_loop_eq:
  "bs_find_loop ls offset c found =
     (case length (takeWhile (\<lambda>l. fst l \<le> offset) ls) of 0 \<Rightarrow> found | Suc k \<Rightarrow> Some (c + k))"
  by (induction ls arbitrary: c found) (auto split: nat.splits)

lemma last_le_Some_iff:
  assumes "links_sorted links"
  shows "last_le links offset = Some i \<longleftrightarrow>
    i < length links \<and> fst (links ! i) \<le> offset \<and> (\<forall>j < length links. i < j \<longrightarrow> offset < fst (links ! j))"
proof -
  let ?t = "takeWhile (\<lambda>l. fst l \<le> offset) links"
  have inside: "j < length links \<and> fst (links ! j) \<le> offset" if "j < length ?t" for j
    using that by (metis (mono_tags, lifting) length_takeWhile_le nth_mem order.strict_trans2
        set_takeWhileD takeWhile_nth)
  have outside: "offset < fst (links ! j)" if "length ?t \<le> j" "j < length links" for j
  proof -
    have "offset < fst (links ! length ?t)"
      using nth_length_takeWhile [of "\<lambda>l. fst l \<le> offset" links] that by simp
    then show ?thesis
      using links_sorted_nth [OF assms, of "length ?t" j] that by (cases "length ?t = j") auto
  qed
  show ?thesis
  proof (cases "length ?t")
    case 0
    have "offset < fst (links ! i)" if "i < length links" using outside [of i] 0 that by simp
    with 0 show ?thesis by (force simp: last_le_def)
  next
    case (Suc k)
    have a: "k < length links" "fst (links ! k) \<le> offset" using inside [of k] Suc by simp_all
    have b: "offset < fst (links ! j)" if "k < j" "j < length links" for j
      using outside [of j] Suc that by simp
    show ?thesis using a b Suc by (auto simp: last_le_def) (meson leD linorder_neqE_nat)+
  qed
qed

lemma last_le_None_iff:
  assumes "links_sorted links"
  shows "last_le links offset = None \<longleftrightarrow> (\<forall>l \<in> set links. offset < fst l)"
  using assms by (cases links) (auto simp: last_le_def split: nat.splits dest: order.strict_trans1)

text \<open>
  A search from any cursor that the code's assertion admits returns what the search from the
  head of the list returns.
\<close>

lemma bs_FindLinkByOffset_None: "bs_FindLinkByOffset links offset None = Inr (last_le links offset)"
  by (simp add: bs_FindLinkByOffset_def bs_find_loop_eq last_le_def split: nat.splits)

definition cursor_ok :: "CBitSetLink list \<Rightarrow> ULONG \<Rightarrow> nat option \<Rightarrow> bool" where
  "cursor_ok links offset bsl \<longleftrightarrow>
     (case bsl of None \<Rightarrow> True | Some i \<Rightarrow> i < length links \<and> fst (links ! i) \<le> offset)"

lemma bs_FindLinkByOffset_cursor:
  assumes "links_sorted links" and "cursor_ok links offset bsl"
  shows "bs_FindLinkByOffset links offset bsl = Inr (last_le links offset)"
proof (cases bsl)
  case None
  then show ?thesis by (simp add: bs_FindLinkByOffset_None)
next
  case (Some i)
  then have i: "i < length links" "fst (links ! i) \<le> offset"
    using assms(2) by (simp_all add: cursor_ok_def)
  have "fst l \<le> offset" if "l \<in> set (take i links)" for l
  proof -
    from that obtain j where "j < i" "l = links ! j" using i by (auto simp: in_set_conv_nth)
    then show ?thesis using links_sorted_nth [OF assms(1), of j i] i by simp
  qed
  then have "takeWhile (\<lambda>l. fst l \<le> offset) links =
      take i links @ takeWhile (\<lambda>l. fst l \<le> offset) (drop i links)"
    using takeWhile_append2 [of "take i links" "\<lambda>l. fst l \<le> offset" "drop i links"] by simp
  moreover have "takeWhile (\<lambda>l. fst l \<le> offset) (drop i links) \<noteq> []"
    using i by (simp flip: Cons_nth_drop_Suc)
  ultimately show ?thesis
    using i Some
    by (auto simp: bs_FindLinkByOffset_def bs_find_loop_eq last_le_def split: nat.splits)
qed

lemma cursor_ok_last_le:
  assumes "links_sorted links" and "offset \<le> offset'"
  shows "cursor_ok links offset' (last_le links offset)"
  using assms last_le_Some_iff [OF assms(1), of offset]
  by (fastforce simp: cursor_ok_def split: option.splits)

lemma bs_hit_last_le:
  assumes "links_sorted links"
  shows "bs_hit links offset (last_le links offset) = map_of links offset"
proof (cases "last_le links offset")
  case None
  then have "map_of links offset = None"
    using last_le_None_iff [OF assms, of offset] by (auto simp: map_of_eq_None_iff)
  then show ?thesis using None by (simp add: bs_hit_def)
next
  case (Some i)
  then have i: "i < length links" "fst (links ! i) \<le> offset"
    "\<forall>j < length links. i < j \<longrightarrow> offset < fst (links ! j)"
    using last_le_Some_iff [OF assms] by auto
  show ?thesis
  proof (cases "fst (links ! i) = offset")
    case True
    then have "map_of links offset = Some (snd (links ! i))"
      using map_of_is_SomeI [OF links_sorted_distinct [OF assms]] i nth_mem [OF i(1)]
      by (metis prod.collapse)
    with True Some show ?thesis by (simp add: bs_hit_def)
  next
    case False
    have "offset \<noteq> fst (links ! j)" if "j < length links" for j
    proof (cases "i < j")
      case True
      then show ?thesis using i(3) that by auto
    next
      case nlt: False
      then show ?thesis using False i links_sorted_nth [OF assms, of j i] by (cases "j = i") auto
    qed
    then have "offset \<notin> fst ` set links" by (auto simp: in_set_conv_nth) (metis fst_conv)
    then have "map_of links offset = None" by (simp add: map_of_eq_None_iff)
    with False Some show ?thesis by (simp add: bs_hit_def)
  qed
qed

lemmas find_link_simps = bs_FindLinkByOffset_cursor bs_FindLinkByOffset_None bs_hit_last_le

lemma last_le_hit_index:
  assumes "links_sorted links" and "map_of links offset = Some v"
  obtains i where "last_le links offset = Some i" and "i < length links" and "links ! i = (offset, v)"
proof -
  from bs_hit_last_le [OF assms(1), of offset] assms(2)
  obtain i where i: "last_le links offset = Some i" "fst (links ! i) = offset" "snd (links ! i) = v"
    by (auto simp: bs_hit_def split: option.splits if_splits)
  then show ?thesis using that last_le_Some_iff [OF assms(1), of offset i] by (metis prod.collapse)
qed

section \<open>Changing the list of links\<close>

lemma update_link:
  assumes "links_sorted links" and "i < length links" and "fst (links ! i) = offset"
  shows "links_sorted (links[i := (offset, v)])"
    and "map_of (links[i := (offset, v)]) = (map_of links)(offset \<mapsto> v)"
proof -
  have offs: "map fst (links[i := (offset, v)]) = map fst links"
    using assms(2,3) by (metis fst_conv list_update_id map_update nth_map)
  then show s: "links_sorted (links[i := (offset, v)])" using assms(1) by (simp add: links_sorted_def)
  show "map_of (links[i := (offset, v)]) = (map_of links)(offset \<mapsto> v)"
  proof
    fix k
    have split: "links = take i links @ (offset, snd (links ! i)) # drop (Suc i) links"
      using assms(2,3) by (metis id_take_nth_drop prod.collapse)
    have d: "distinct (map fst (take i links @ (offset, snd (links ! i)) # drop (Suc i) links))"
      using links_sorted_distinct [OF assms(1)] split by simp
    then have n: "map_of (take i links) offset = None" by (auto simp: map_of_eq_None_iff)
    show "map_of (links[i := (offset, v)]) k = ((map_of links)(offset \<mapsto> v)) k"
      using n assms(2) by (subst (2) split) (auto simp: upd_conv_take_nth_drop map_add_def split: option.splits)
  qed
qed

lemma remove_link:
  assumes "links_sorted links" and "i < length links" and "fst (links ! i) = offset"
  shows "links_sorted (bs_remove_link links i)"
    and "map_of (bs_remove_link links i) = (map_of links)(offset := None)"
proof -
  have split: "links = take i links @ (offset, snd (links ! i)) # drop (Suc i) links"
    using assms(2,3) by (metis id_take_nth_drop prod.collapse)
  have s: "links_sorted (take i links @ (offset, snd (links ! i)) # drop (Suc i) links)"
    using assms(1) split by simp
  then show "links_sorted (bs_remove_link links i)"
    by (auto simp: bs_remove_link_def links_sorted_append)
  have "map_of (take i links) offset = None" "map_of (drop (Suc i) links) offset = None"
    using links_sorted_distinct [OF s] by (auto simp: map_of_eq_None_iff)
  then show "map_of (bs_remove_link links i) = (map_of links)(offset := None)"
    by (subst (2) split) (auto simp: bs_remove_link_def map_add_def fun_eq_iff split: option.splits)
qed

lemma insert_link_append:
  assumes "links_sorted links"
  obtains xs ys where "links = xs @ ys" and "bs_insert_link links new (last_le links (fst new)) = xs @ new # ys"
    and "length xs = (case last_le links (fst new) of None \<Rightarrow> 0 | Some i \<Rightarrow> Suc i)"
    and "\<forall>x \<in> set xs. fst x \<le> fst new" and "\<forall>y \<in> set ys. fst new < fst y"
proof (cases "last_le links (fst new)")
  case None
  then show ?thesis
    using that [of "[]" links] last_le_None_iff [OF assms, of "fst new"]
    by (simp add: bs_insert_link_def)
next
  case (Some i)
  then have i: "i < length links" "fst (links ! i) \<le> fst new"
    "\<forall>j < length links. i < j \<longrightarrow> fst new < fst (links ! j)"
    using last_le_Some_iff [OF assms] by auto
  have "fst x \<le> fst new" if "x \<in> set (take (Suc i) links)" for x
  proof -
    from that obtain j where "j < Suc i" "x = links ! j"
      using i(1) by (auto simp: in_set_conv_nth)
    then show ?thesis using links_sorted_nth [OF assms, of j i] i by (cases "j = i") auto
  qed
  moreover have "fst new < fst y" if "y \<in> set (drop (Suc i) links)" for y
    using that i(3) by (auto simp: in_set_conv_nth)
  ultimately show ?thesis
    using that [of "take (Suc i) links" "drop (Suc i) links"] Some i(1)
    by (auto simp: bs_insert_link_def)
qed

lemma insert_link:
  assumes "links_sorted links" and "map_of links (fst new) = None"
  shows "links_sorted (bs_insert_link links new (last_le links (fst new)))" (is ?S)
    and "map_of (bs_insert_link links new (last_le links (fst new))) =
      (map_of links)(fst new \<mapsto> snd new)" (is ?M)
    and "(case last_le links (fst new) of None \<Rightarrow> 0 | Some i \<Rightarrow> Suc i)
      < length (bs_insert_link links new (last_le links (fst new)))" (is ?L)
    and "bs_insert_link links new (last_le links (fst new)) !
      (case last_le links (fst new) of None \<Rightarrow> 0 | Some i \<Rightarrow> Suc i) = new" (is ?N)
proof -
  obtain xs ys where xy: "links = xs @ ys"
    and ins: "bs_insert_link links new (last_le links (fst new)) = xs @ new # ys"
    and len: "length xs = (case last_le links (fst new) of None \<Rightarrow> 0 | Some i \<Rightarrow> Suc i)"
    and le: "\<forall>x \<in> set xs. fst x \<le> fst new" and gt: "\<forall>y \<in> set ys. fst new < fst y"
    using insert_link_append [OF assms(1)] .
  have ne: "fst x \<noteq> fst new" if "x \<in> set xs" for x
    using assms(2) that xy by (auto simp: map_of_eq_None_iff image_iff)
  then have "\<forall>x \<in> set xs. fst x < fst new" using le by force
  then show ?S using assms(1) xy ins gt
    by (auto simp: links_sorted_append intro: order.strict_trans)
  have "map_of xs (fst new) = None" using ne by (force simp: map_of_eq_None_iff)
  then show ?M unfolding ins using xy
    by (cases new) (auto simp: map_add_def fun_eq_iff split: option.splits)
  show ?L ?N unfolding ins len [symmetric] by simp_all
qed

section \<open>Abstraction and invariant\<close>

definition links_set :: "CBitSetLink list \<Rightarrow> nat set" where
  "links_set links = {n. \<exists>off v m. map_of links off = Some v \<and> bv_bit v m \<and> n = unat off + m}"

definition bs_set :: "CBitSet \<Rightarrow> nat set" where
  "bs_set bs = links_set (bs_links bs)"

definition link_ok :: "ULONG \<Rightarrow> ULONG \<Rightarrow> CBitVector \<Rightarrow> bool" where
  "link_ok vector_size off v \<longleftrightarrow>
     unat vector_size dvd unat off \<and> bv_ok v \<and> bv_nbits v = vector_size \<and>
     (\<forall>m. bv_bit v m \<longrightarrow> unat off + m < 4294967296)"

definition links_ok :: "ULONG \<Rightarrow> CBitSetLink list \<Rightarrow> bool" where
  "links_ok vector_size links \<longleftrightarrow>
     links_sorted links \<and> (\<forall>off v. map_of links off = Some v \<longrightarrow> link_ok vector_size off v)"

text \<open>
  The invariant: vectors of the set's size at sorted, aligned offsets, no position past the
  32-bit range, and the element count of \<^verbatim>\<open>m_size\<close> (modulo the width of the counter).
\<close>

definition bs_ok :: "CBitSet \<Rightarrow> bool" where
  "bs_ok bs \<longleftrightarrow>
     bs_vector_size bs \<noteq> 0 \<and> links_ok (bs_vector_size bs) (bs_links bs) \<and>
     bs_size bs = of_nat (card (bs_set bs))"

text \<open>No link is empty. \<^verbatim>\<open>ExchangeClear\<close> removes a link that becomes empty.\<close>

definition links_tight :: "CBitSetLink list \<Rightarrow> bool" where
  "links_tight links \<longleftrightarrow> (\<forall>off v. map_of links off = Some v \<longrightarrow> bv_set v \<noteq> {})"

definition bs_tight :: "CBitSet \<Rightarrow> bool" where
  "bs_tight bs \<longleftrightarrow> links_tight (bs_links bs)"

lemma links_ok_sorted [dest]: "links_ok vs links \<Longrightarrow> links_sorted links"
  by (simp add: links_ok_def)

lemma links_ok_linkD: "links_ok vs links \<Longrightarrow> map_of links off = Some v \<Longrightarrow> link_ok vs off v"
  by (simp add: links_ok_def)

lemma links_setE:
  assumes "n \<in> links_set links" and "links_ok vs links"
  obtains off v m where "map_of links off = Some v" and "bv_bit v m" and "n = unat off + m"
    and "m < unat vs" and "unat off = n div unat vs * unat vs"
proof -
  from assms(1) obtain off v m where e: "map_of links off = Some v" "bv_bit v m" "n = unat off + m"
    by (auto simp: links_set_def)
  from links_ok_linkD [OF assms(2) e(1)] have k: "link_ok vs off v" .
  then have m: "m < unat vs" using e(2) bv_ok_bound [of v m] by (auto simp: link_ok_def)
  moreover from k obtain q where "unat off = unat vs * q" by (auto simp: link_ok_def dvd_def)
  ultimately have "unat off = n div unat vs * unat vs" using e(3) by simp
  with e m that show ?thesis by blast
qed

text \<open>Membership is decided by the one link whose range covers the position.\<close>

lemma links_set_iff:
  assumes "links_ok vs links" and "unat off = n div unat vs * unat vs"
  shows "n \<in> links_set links \<longleftrightarrow> (\<exists>v. map_of links off = Some v \<and> bv_bit v (n - unat off))"
proof
  assume "n \<in> links_set links"
  then obtain off' v m where "map_of links off' = Some v" "bv_bit v m" "n = unat off' + m"
    "unat off' = n div unat vs * unat vs"
    using assms(1) by (rule links_setE)
  moreover from this have "off' = off" using assms(2) by (simp add: unat_eq_imp_eq)
  ultimately show "\<exists>v. map_of links off = Some v \<and> bv_bit v (n - unat off)" by auto
next
  assume "\<exists>v. map_of links off = Some v \<and> bv_bit v (n - unat off)"
  moreover have "unat off \<le> n" using assms(2) by simp
  ultimately show "n \<in> links_set links" by (force simp: links_set_def)
qed

lemma links_set_bound: "links_ok vs links \<Longrightarrow> n \<in> links_set links \<Longrightarrow> n < 4294967296"
  by (auto simp: links_set_def links_ok_def link_ok_def)

lemma finite_links_set: "links_ok vs links \<Longrightarrow> finite (links_set links)"
  by (rule finite_subset [of _ "{..<4294967296}"]) (auto dest: links_set_bound)

lemma unat_offset:
  fixes pos vs :: ULONG
  shows "unat (pos div vs * vs) = unat pos div unat vs * unat vs"
    and "unat (pos - pos div vs * vs) = unat pos - unat pos div unat vs * unat vs"
proof -
  have "unat pos div unat vs * unat vs \<le> unat pos" by simp
  then have "unat pos div unat vs * unat vs < 4294967296"
    using unat_ULONG_less [of pos] by (rule order.strict_trans1)
  then show e: "unat (pos div vs * vs) = unat pos div unat vs * unat vs"
    by (simp add: unat_mult_lem [THEN iffD1] unat_div)
  then have "pos div vs * vs \<le> pos" by (simp add: word_le_nat_alt)
  then show "unat (pos - pos div vs * vs) = unat pos - unat pos div unat vs * unat vs"
    by (simp add: unat_sub e)
qed

lemma links_set_mem:
  assumes "links_ok vs links"
  shows "n \<in> links_set links \<longleftrightarrow>
    (\<exists>off v. unat off = n div unat vs * unat vs \<and> map_of links off = Some v \<and> bv_bit v (n - unat off))"
  using links_set_iff [OF assms] links_setE [OF _ assms, of n] by metis

text \<open>The effect of changing one link on the set, and on the invariant.\<close>

lemma links_set_upd:
  assumes "links_ok vs links" and "links_ok vs links'" and "map_of links' = (map_of links)(off := w)"
  shows "n \<in> links_set links' \<longleftrightarrow>
    (if unat off = n div unat vs * unat vs then \<exists>v. w = Some v \<and> bv_bit v (n - unat off)
     else n \<in> links_set links)"
proof (cases "unat off = n div unat vs * unat vs")
  case True
  then show ?thesis using links_set_iff [OF assms(2) True] assms(3) by simp
next
  case False
  then show ?thesis
    unfolding links_set_mem [OF assms(1)] links_set_mem [OF assms(2)] using assms(3) by auto
qed

lemma links_ok_upd:
  assumes "links_ok vs links" and "links_sorted links'" and "map_of links' = (map_of links)(off := w)"
    and "\<And>v. w = Some v \<Longrightarrow> link_ok vs off v"
  shows "links_ok vs links'"
  using assms by (auto simp: links_ok_def split: if_splits)

lemma links_set_Nil [simp]: "links_set [] = {}"
  by (simp add: links_set_def)

lemma links_set_Cons:
  assumes "links_sorted (l # ls)"
  shows "links_set (l # ls) = (\<lambda>m. unat (fst l) + m) ` bv_set (snd l) \<union> links_set ls"
proof -
  obtain a b where l: "l = (a, b)" by (cases l)
  have none: "map_of ls a = None" using assms l by (auto simp: map_of_eq_None_iff)
  have "links_set (l # ls) = {n. \<exists>m. bv_bit b m \<and> n = unat a + m} \<union>
      {n. \<exists>off v m. off \<noteq> a \<and> map_of ls off = Some v \<and> bv_bit v m \<and> n = unat off + m}"
    unfolding links_set_def l by auto
  also have "{n. \<exists>off v m. off \<noteq> a \<and> map_of ls off = Some v \<and> bv_bit v m \<and> n = unat off + m} = links_set ls"
    unfolding links_set_def using none by force
  finally show ?thesis by (auto simp: l)
qed

lemma links_ok_ConsD:
  assumes "links_ok vs (l # ls)"
  shows "links_ok vs ls" and "link_ok vs (fst l) (snd l)"
proof -
  have s: "links_sorted (l # ls)" and k: "\<And>off v. map_of (l # ls) off = Some v \<Longrightarrow> link_ok vs off v"
    using assms by (auto simp only: links_ok_def)
  have none: "map_of ls (fst l) = None" using s by (auto simp: map_of_eq_None_iff)
  have "link_ok vs off v" if "map_of ls off = Some v" for off v
    using k [of off v] that none by (cases "off = fst l"; cases l) auto
  with s show "links_ok vs ls" by (simp add: links_ok_def)
  show "link_ok vs (fst l) (snd l)" using k [of "fst l" "snd l"] by (cases l) simp
qed

lemma card_links_set_Cons:
  assumes "links_ok vs (l # ls)"
  shows "card (links_set (l # ls)) = card (bv_set (snd l)) + card (links_set ls)"
proof -
  let ?f = "\<lambda>m. unat (fst l) + m"
  have l: "link_ok vs (fst l) (snd l)" and ls: "links_ok vs ls" using links_ok_ConsD [OF assms] by auto
  have off: "map_of ls (fst l) = None" using assms by (auto simp: map_of_eq_None_iff links_ok_def)
  have "?f ` bv_set (snd l) \<inter> links_set ls = {}"
  proof (rule ccontr)
    assume "?f ` bv_set (snd l) \<inter> links_set ls \<noteq> {}"
    then obtain m where m: "bv_bit (snd l) m" "unat (fst l) + m \<in> links_set ls" by auto
    then have "m < unat vs" using l bv_ok_bound [of "snd l" m] by (auto simp: link_ok_def)
    then have "unat (fst l) = (unat (fst l) + m) div unat vs * unat vs"
      using l by (auto simp: link_ok_def dvd_def)
    then show False using links_set_iff [OF ls, of "fst l"] m(2) off by simp
  qed
  moreover have "finite (bv_set (snd l))" using l by (simp add: link_ok_def finite_bv_set)
  moreover have "links_sorted (l # ls)" using assms by (simp add: links_ok_def)
  ultimately show ?thesis
    using finite_links_set [OF ls] by (simp add: links_set_Cons card_Un_disjoint card_image)
qed

lemma recompute_links:
  "links_ok vs links \<Longrightarrow>
   foldl (\<lambda>m_size bsl. m_size + bv_CountSetBits (snd bsl)) c links = c + of_nat (card (links_set links))"
  by (induction links arbitrary: c)
     (simp_all add: bv_CountSetBits_correct card_links_set_Cons links_ok_ConsD)

lemma bs_RecomputeSize_ok:
  assumes "bs_vector_size bs \<noteq> 0" and "links_ok (bs_vector_size bs) links"
  shows "bs_ok (bs_RecomputeSize (bs\<lparr>bs_links := links\<rparr>))"
    and "bs_set (bs_RecomputeSize (bs\<lparr>bs_links := links\<rparr>)) = links_set links"
    and "bs_vector_size (bs_RecomputeSize (bs\<lparr>bs_links := links\<rparr>)) = bs_vector_size bs"
    and "bs_links (bs_RecomputeSize (bs\<lparr>bs_links := links\<rparr>)) = links"
  using assms recompute_links [OF assms(2), of 0]
  by (simp_all add: bs_ok_def bs_RecomputeSize_def bs_set_def)

section \<open>Single positions\<close>

lemma bs_ok_ctor: "vector_size \<noteq> 0 \<Longrightarrow> bs_ok (CBitSet_ctor vector_size)"
  by (simp add: bs_ok_def CBitSet_ctor_def links_ok_def bs_set_def)

lemma bs_set_ctor [simp]: "bs_set (CBitSet_ctor vector_size) = {}"
  by (simp add: CBitSet_ctor_def bs_set_def)

lemma bs_tight_ctor: "bs_tight (CBitSet_ctor vector_size)"
  by (simp add: CBitSet_ctor_def bs_tight_def links_tight_def)

lemma bs_Clear_correct:
  assumes "bs_ok bs"
  shows "bs_ok (bs_Clear bs)" and "bs_set (bs_Clear bs) = {}"
  using assms bs_RecomputeSize_ok [of bs "[]"] by (simp_all add: bs_Clear_def bs_ok_def links_ok_def)

lemma bs_okD:
  assumes "bs_ok bs"
  shows "bs_vector_size bs \<noteq> 0" "links_sorted (bs_links bs)" "links_ok (bs_vector_size bs) (bs_links bs)"
    "bs_size bs = of_nat (card (bs_set bs))"
  using assms by (auto simp: bs_ok_def)

lemma bs_okI:
  "bs_vector_size bs \<noteq> 0 \<Longrightarrow> links_ok (bs_vector_size bs) (bs_links bs) \<Longrightarrow> bs_set bs = S \<Longrightarrow>
   bs_size bs = of_nat (card S) \<Longrightarrow> bs_ok bs"
  by (simp add: bs_ok_def)

lemma finite_bs_set: "bs_ok bs \<Longrightarrow> finite (bs_set bs)"
  using finite_links_set by (auto simp: bs_ok_def bs_set_def)

lemma bs_set_bound: "bs_ok bs \<Longrightarrow> n \<in> bs_set bs \<Longrightarrow> n < 4294967296"
  using links_set_bound by (auto simp: bs_ok_def bs_set_def)

lemma bs_offset_facts:
  fixes bs pos
  defines "off \<equiv> bs_ComputeOffset bs pos"
  assumes "bs_ok bs"
  shows "unat off = unat pos div unat (bs_vector_size bs) * unat (bs_vector_size bs)"
    and "unat (pos - off) = unat pos - unat off" and "unat off \<le> unat pos"
    and "pos - off < bs_vector_size bs" and "unat (bs_vector_size bs) dvd unat off"
proof -
  have v: "0 < unat (bs_vector_size bs)" using assms(2) by (simp add: bs_ok_def unat_gt_0)
  show o: "unat off = unat pos div unat (bs_vector_size bs) * unat (bs_vector_size bs)"
    unfolding off_def bs_ComputeOffset_def by (rule unat_offset)
  show p: "unat (pos - off) = unat pos - unat off"
    unfolding o unfolding off_def bs_ComputeOffset_def by (rule unat_offset)
  show "unat off \<le> unat pos" "unat (bs_vector_size bs) dvd unat off" by (simp_all add: o)
  show "pos - off < bs_vector_size bs"
    using v by (simp add: word_less_nat_alt p o minus_div_mult_eq_mod)
qed

lemma bs_Get_correct:
  assumes "bs_ok bs"
  shows "bs_Get bs pos = Inr (unat pos \<in> bs_set bs)"
proof -
  note ok = bs_okD [OF assms] and off = bs_offset_facts [OF assms, of pos]
  have mem: "unat pos \<in> bs_set bs \<longleftrightarrow> (\<exists>v. map_of (bs_links bs) (bs_ComputeOffset bs pos) = Some v \<and>
      bv_bit v (unat pos - unat (bs_ComputeOffset bs pos)))"
    unfolding bs_set_def by (rule links_set_iff [OF ok(3) off(1)])
  show ?thesis
  proof (cases "map_of (bs_links bs) (bs_ComputeOffset bs pos)")
    case None
    with mem ok show ?thesis by (simp add: bs_Get_def find_link_simps Let_def)
  next
    case (Some v)
    then have "bv_ok v" "bv_nbits v = bs_vector_size bs"
      using links_ok_linkD [OF ok(3) Some] by (auto simp: link_ok_def)
    with Some mem ok off show ?thesis
      by (simp add: bs_Get_def find_link_simps Let_def bv_Get_correct)
  qed
qed

text \<open>
  Replacing the vector at the offset of a position by one that differs from the old one at most
  in that position.
\<close>

lemma exchange_link:
  fixes bs pos
  defines "off \<equiv> bs_ComputeOffset bs pos"
  assumes ok: "bs_ok bs" and sorted: "links_sorted links'"
    and m: "map_of links' = (map_of (bs_links bs))(off := w)"
    and w: "\<And>v'. w = Some v' \<Longrightarrow> bv_ok v' \<and> bv_nbits v' = bs_vector_size bs"
    and bits: "\<And>k. (\<exists>v'. w = Some v' \<and> bv_bit v' k) \<longleftrightarrow>
      (if k = unat (pos - off) then b else \<exists>v. map_of (bs_links bs) off = Some v \<and> bv_bit v k)"
  shows "links_ok (bs_vector_size bs) links'"
    and "links_set links' = (if b then insert (unat pos) (bs_set bs) else bs_set bs - {unat pos})"
proof -
  note okd = bs_okD [OF ok] and facts = bs_offset_facts [OF ok, of pos, folded off_def]
  have pos: "unat pos = unat off + unat (pos - off)" using facts(2,3) by simp
  have "link_ok (bs_vector_size bs) off v'" if "w = Some v'" for v'
  proof -
    have "unat off + k < 4294967296" if kb: "bv_bit v' k" for k
    proof (cases "k = unat (pos - off)")
      case True
      then show ?thesis using pos unat_ULONG_less [of pos] by simp
    next
      case False
      then obtain v where "map_of (bs_links bs) off = Some v" "bv_bit v k"
        using bits [of k] kb \<open>w = Some v'\<close> by auto
      then show ?thesis using links_ok_linkD [OF okd(3)] by (auto simp: link_ok_def)
    qed
    then show ?thesis using w [OF that] facts(5) by (simp add: link_ok_def)
  qed
  then show l: "links_ok (bs_vector_size bs) links'" by (rule links_ok_upd [OF okd(3) sorted m])
  show "links_set links' = (if b then insert (unat pos) (bs_set bs) else bs_set bs - {unat pos})"
  proof (rule set_eqI)
    fix n
    show "n \<in> links_set links' \<longleftrightarrow>
        n \<in> (if b then insert (unat pos) (bs_set bs) else bs_set bs - {unat pos})"
    proof (cases "unat off = n div unat (bs_vector_size bs) * unat (bs_vector_size bs)")
      case True
      then have "unat off \<le> n" by simp
      then have "n - unat off = unat (pos - off) \<longleftrightarrow> n = unat pos" using pos by linarith
      then show ?thesis
        using links_set_upd [OF okd(3) l m, of n] True bits [of "n - unat off"]
          links_set_iff [OF okd(3) True]
        by (auto simp: bs_set_def)
    next
      case False
      then have "n \<noteq> unat pos" using facts(1) by auto
      then show ?thesis
        using links_set_upd [OF okd(3) l m, of n] False by (auto simp: bs_set_def)
    qed
  qed
qed

lemma of_nat_card_insert:
  "finite A \<Longrightarrow> of_nat (card (insert x A)) = (if x \<in> A then of_nat (card A) else of_nat (card A) + (1::ULONG))"
  by (simp add: insert_absorb add.commute)

lemma of_nat_card_remove:
  "finite A \<Longrightarrow> of_nat (card (A - {x})) = (if x \<in> A then of_nat (card A) - 1 else (of_nat (card A)::ULONG))"
  using card.remove [of A x] by (auto simp: Diff_insert_absorb)

lemma bs_ExchangeSet_correct:
  assumes ok: "bs_ok bs"
  obtains bs' where "bs_ExchangeSet bs pos = Inr (unat pos \<in> bs_set bs, bs')" and "bs_ok bs'"
    and "bs_set bs' = insert (unat pos) (bs_set bs)" and "bs_vector_size bs' = bs_vector_size bs"
    and "bs_tight bs \<Longrightarrow> bs_tight bs'"
proof -
  let ?off = "bs_ComputeOffset bs pos" and ?L = "bs_links bs" and ?vs = "bs_vector_size bs"
  note okd = bs_okD [OF ok] and facts = bs_offset_facts [OF ok, of pos]
  define v where "v = (case map_of ?L ?off of Some v \<Rightarrow> v | None \<Rightarrow> CBitVector_ctor ?vs)"
  have v: "bv_ok v" "bv_nbits v = ?vs"
    using links_ok_linkD [OF okd(3), of ?off] bv_ok_ctor [of ?vs]
    by (auto simp: v_def link_ok_def CBitVector_ctor_def Let_def split: option.splits)
  have vbit: "bv_bit v k \<longleftrightarrow> (\<exists>v. map_of ?L ?off = Some v \<and> bv_bit v k)" for k
    using bv_set_ctor [of ?vs] by (auto simp: v_def bv_set_def split: option.splits)
  have "pos - ?off < bv_nbits v" using facts(4) v(2) by simp
  from bv_ExchangeSet_correct [OF v(1) this] obtain v' where
    ex: "bv_ExchangeSet v (pos - ?off) = Inr (unat (pos - ?off) \<in> bv_set v, v')" and v': "bv_ok v'"
    and set: "bv_set v' = insert (unat (pos - ?off)) (bv_set v)" and n: "bv_nbits v' = bv_nbits v"
    by blast
  obtain links i where li: "links_sorted links" "map_of links = (map_of ?L)(?off \<mapsto> v)"
    "i < length links" "links ! i = (?off, v)"
    and eq: "bs_ExchangeSet bs pos = rbind (bv_ExchangeSet v (pos - ?off)) (\<lambda>(bit, vec).
      Inr (bit, bs\<lparr>bs_links := links[i := (?off, vec)],
        bs_size := (if \<not> bit then bs_size bs + 1 else bs_size bs)\<rparr>))"
  proof (cases "map_of ?L ?off")
    case None
    define new where "new = CBitSetLink_ctor ?off ?vs"
    have new: "fst new = ?off" "snd new = v" "new = (?off, v)"
      by (simp_all add: new_def CBitSetLink_ctor_def v_def None)
    note ins = insert_link [OF okd(2), of new, unfolded new(1), OF None]
    show ?thesis
      by (rule that [OF ins(1) _ ins(3)])
         (use ins None new in \<open>simp_all add: bs_ExchangeSet_def find_link_simps okd Let_def flip: new_def\<close>)
  next
    case (Some u)
    then obtain i where i: "last_le ?L ?off = Some i" "i < length ?L" "?L ! i = (?off, u)"
      by (rule last_le_hit_index [OF okd(2)])
    show ?thesis
      by (rule that [OF okd(2) _ i(2)])
         (use i Some in \<open>simp_all add: v_def bs_ExchangeSet_def find_link_simps okd Let_def fun_upd_idem\<close>)
  qed
  let ?new = "links[i := (?off, v')]"
  have fi: "fst (links ! i) = ?off" using li(4) by simp
  note up = update_link [OF li(1,3) fi, of v']
  have m: "map_of ?new = (map_of ?L)(?off := Some v')" using up(2) li(2) by simp
  have bits: "(\<exists>u. Some v' = Some u \<and> bv_bit u k) \<longleftrightarrow>
      (if k = unat (pos - ?off) then True else \<exists>v. map_of ?L ?off = Some v \<and> bv_bit v k)" for k
    using set vbit [of k] by (auto simp: set_eq_iff)
  have w: "\<And>u. Some v' = Some u \<Longrightarrow> bv_ok u \<and> bv_nbits u = ?vs" using v' n v(2) by simp
  note ex2 = exchange_link [OF ok up(1) m w bits]
  let ?bs = "bs\<lparr>bs_links := ?new,
        bs_size := (if \<not> unat (pos - ?off) \<in> bv_set v then bs_size bs + 1 else bs_size bs)\<rparr>"
  have mem: "unat (pos - ?off) \<in> bv_set v \<longleftrightarrow> unat pos \<in> bs_set bs"
    using vbit links_set_iff [OF okd(3) facts(1)] facts(2) by (simp add: bs_set_def)
  have "bs_ExchangeSet bs pos = Inr (unat pos \<in> bs_set bs, ?bs)" using eq ex mem by simp
  moreover have s: "bs_set ?bs = insert (unat pos) (bs_set bs)" using ex2(2) by (simp add: bs_set_def)
  moreover have "bs_ok ?bs"
    by (rule bs_okI [OF _ _ s])
       (use ex2(1) okd mem of_nat_card_insert [OF finite_bs_set [OF ok], of "unat pos"] in simp_all)
  moreover have "bs_tight ?bs" if "bs_tight bs"
    using that set m by (auto simp: bs_tight_def links_tight_def)
  ultimately show ?thesis using that by simp
qed

lemma bs_ExchangeClear_correct:
  assumes ok: "bs_ok bs"
  obtains bs' where "bs_ExchangeClear bs pos = Inr (unat pos \<in> bs_set bs, bs')" and "bs_ok bs'"
    and "bs_set bs' = bs_set bs - {unat pos}" and "bs_vector_size bs' = bs_vector_size bs"
    and "bs_tight bs \<Longrightarrow> bs_tight bs'"
proof (cases "map_of (bs_links bs) (bs_ComputeOffset bs pos)")
  let ?off = "bs_ComputeOffset bs pos"
  note okd = bs_okD [OF ok] and facts = bs_offset_facts [OF ok, of pos]
  case None
  then have "unat pos \<notin> bs_set bs" using links_set_iff [OF okd(3) facts(1)] by (simp add: bs_set_def)
  then show ?thesis
    using that [of bs] None ok by (simp add: bs_ExchangeClear_def find_link_simps okd Let_def)
next
  let ?off = "bs_ComputeOffset bs pos" and ?L = "bs_links bs" and ?vs = "bs_vector_size bs"
  note okd = bs_okD [OF ok] and facts = bs_offset_facts [OF ok, of pos]
  case (Some v)
  then obtain i where i: "last_le ?L ?off = Some i" "i < length ?L" "?L ! i = (?off, v)"
    by (rule last_le_hit_index [OF okd(2)])
  have v: "bv_ok v" "bv_nbits v = ?vs" using links_ok_linkD [OF okd(3) Some] by (auto simp: link_ok_def)
  then have "pos - ?off < bv_nbits v" using facts(4) by simp
  from bv_ExchangeClear_correct [OF v(1) this] obtain v' where
    ex: "bv_ExchangeClear v (pos - ?off) = Inr (unat (pos - ?off) \<in> bv_set v, v')" and v': "bv_ok v'"
    and set: "bv_set v' = bv_set v - {unat (pos - ?off)}" and n: "bv_nbits v' = bv_nbits v"
    by blast
  define w where "w = (if bv_IsEmpty v' then None else Some v')"
  define links where "links = (if bv_IsEmpty v' then bs_remove_link ?L i else ?L[i := (?off, v')])"
  have fi: "fst (?L ! i) = ?off" using i(3) by simp
  have sorted: "links_sorted links" and m: "map_of links = (map_of ?L)(?off := w)"
    using update_link [OF okd(2) i(2) fi, of v'] remove_link [OF okd(2) i(2) fi]
    by (simp_all add: links_def w_def)
  have bits: "(\<exists>u. w = Some u \<and> bv_bit u k) \<longleftrightarrow>
      (if k = unat (pos - ?off) then False else \<exists>v. map_of ?L ?off = Some v \<and> bv_bit v k)" for k
    using set Some bv_IsEmpty_correct [of v'] by (auto simp: w_def bv_set_def)
  have w: "\<And>u. w = Some u \<Longrightarrow> bv_ok u \<and> bv_nbits u = ?vs"
    using v' n v(2) by (simp add: w_def split: if_splits)
  note ex2 = exchange_link [OF ok sorted m w bits]
  let ?bs = "bs\<lparr>bs_links := links,
        bs_size := (if unat (pos - ?off) \<in> bv_set v then bs_size bs - 1 else bs_size bs)\<rparr>"
  have mem: "unat (pos - ?off) \<in> bv_set v \<longleftrightarrow> unat pos \<in> bs_set bs"
    using Some links_set_iff [OF okd(3) facts(1)] facts(2) by (simp add: bs_set_def)
  have "bs_ExchangeClear bs pos = Inr (unat pos \<in> bs_set bs, ?bs)"
    using ex mem Some i by (simp add: bs_ExchangeClear_def find_link_simps okd Let_def links_def)
  moreover have s: "bs_set ?bs = bs_set bs - {unat pos}" using ex2(2) by (simp add: bs_set_def)
  moreover have "bs_ok ?bs"
    by (rule bs_okI [OF _ _ s])
       (use ex2(1) okd mem of_nat_card_remove [OF finite_bs_set [OF ok], of "unat pos"] in simp_all)
  moreover have "bs_tight ?bs" if "bs_tight bs"
    using that m bv_IsEmpty_correct [of v'] by (auto simp: bs_tight_def links_tight_def w_def)
  ultimately show ?thesis using that by simp
qed

section \<open>The sweeps over two sets\<close>

lemma link_compat:
  assumes "links_ok vs links" and "links_ok vs others"
    and "map_of links off = Some v" and "map_of others off = Some w"
  shows "bv_ok v" "bv_ok w" "bv_same_size v w" "bv_nbits v = vs" "bv_nbits w = vs"
  using links_ok_linkD [OF assms(1,3)] links_ok_linkD [OF assms(2,4)] bv_same_sizeI [of v w]
  by (auto simp: link_ok_def)

text \<open>The cursor left by one search is admissible for the next link of a sorted list.\<close>

lemma cursor_next:
  "links_sorted links \<Longrightarrow> links_sorted (l # ls) \<Longrightarrow> l' \<in> set ls \<Longrightarrow>
   cursor_ok links (fst l') (last_le links (fst l))"
  by (rule cursor_ok_last_le) (auto intro: less_imp_le)

definition cursor_before :: "CBitSetLink list \<Rightarrow> nat option \<Rightarrow> CBitSetLink list \<Rightarrow> bool" where
  "cursor_before links bsl others \<longleftrightarrow> (\<forall>l \<in> set others. cursor_ok links (fst l) bsl)"

lemma cursor_before_None [simp]: "cursor_before links None others"
  by (simp add: cursor_before_def cursor_ok_def)

lemma cursor_before_next:
  "links_sorted links \<Longrightarrow> links_sorted (l # ls) \<Longrightarrow> cursor_before links (last_le links (fst l)) ls"
  by (auto simp: cursor_before_def intro: cursor_next)

lemma find_before:
  "links_sorted links \<Longrightarrow> cursor_before links bsl (l # ls) \<Longrightarrow>
   bs_FindLinkByOffset links (fst l) bsl = Inr (last_le links (fst l))"
  by (rule bs_FindLinkByOffset_cursor) (simp_all add: cursor_before_def)

lemmas sweep_simps = find_before cursor_before_next bs_hit_last_le

lemma bs_contains_loop_eq:
  assumes "links_sorted links" and "links_sorted others" and "cursor_before links bsl others"
    and "\<And>l. l \<in> set others \<Longrightarrow>
      (case map_of links (fst l) of None \<Rightarrow> \<not> P l | Some v \<Rightarrow> bv_ContainsAll v (snd l) = Inr (P l))"
  shows "bs_contains_loop links others bsl = Inr (\<forall>l \<in> set others. P l)"
  using assms(2-4)
proof (induction others arbitrary: bsl)
  case (Cons l ls)
  have IH: "bs_contains_loop links ls (last_le links (fst l)) = Inr (\<forall>l \<in> set ls. P l)"
    using Cons.IH Cons.prems assms(1) by (simp add: cursor_before_next)
  show ?case
    using Cons.prems(3) [of l] IH find_before [OF assms(1) Cons.prems(2)]
    by (simp add: bs_hit_last_le [OF assms(1)] split: option.splits)
qed simp

lemma bs_disjoint_loop_eq:
  assumes "links_sorted links" and "links_sorted others" and "cursor_before links bsl others"
    and "\<And>l. l \<in> set others \<Longrightarrow>
      (case map_of links (fst l) of None \<Rightarrow> P l | Some v \<Rightarrow> bv_IsDisjoint v (snd l) = Inr (P l))"
  shows "bs_disjoint_loop links others bsl = Inr (\<forall>l \<in> set others. P l)"
  using assms(2-4)
proof (induction others arbitrary: bsl)
  case (Cons l ls)
  have IH: "bs_disjoint_loop links ls (last_le links (fst l)) = Inr (\<forall>l \<in> set ls. P l)"
    using Cons.IH Cons.prems assms(1) by (simp add: cursor_before_next)
  show ?case
    using Cons.prems(3) [of l] IH find_before [OF assms(1) Cons.prems(2)]
    by (simp add: bs_hit_last_le [OF assms(1)] split: option.splits)
qed simp

lemma map_of_set_iff: "links_sorted links \<Longrightarrow> map_of links (fst l) = Some (snd l) \<longleftrightarrow> l \<in> set links"
  using map_of_eq_Some_iff [OF links_sorted_distinct, of links "fst l" "snd l"] by simp

text \<open>Inclusion and disjointness of the sets, link by link.\<close>

lemma links_set_I: "map_of links off = Some v \<Longrightarrow> bv_bit v k \<Longrightarrow> unat off + k \<in> links_set links"
  by (auto simp: links_set_def)

lemma links_set_at:
  assumes "links_ok vs links" and "link_ok vs off v" and "bv_bit v k"
  shows "unat off + k \<in> links_set links \<longleftrightarrow> (\<exists>w. map_of links off = Some w \<and> bv_bit w k)"
proof -
  have "k < unat vs" using assms(2,3) bv_ok_bound by (auto simp: link_ok_def)
  then have "unat off = (unat off + k) div unat vs * unat vs"
    using assms(2) by (auto simp: link_ok_def dvd_def)
  from links_set_iff [OF assms(1) this] show ?thesis by simp
qed

lemma links_disjoint_iff:
  assumes "links_ok vs links" and "links_ok vs others"
  shows "links_set links \<inter> links_set others = {} \<longleftrightarrow>
    (\<forall>off v w. map_of links off = Some v \<longrightarrow> map_of others off = Some w \<longrightarrow> bv_set v \<inter> bv_set w = {})"
  (is "?L \<longleftrightarrow> ?R")
proof
  assume ?L
  then show ?R using links_set_I [of links] links_set_I [of others] by (fastforce simp: bv_set_def)
next
  assume R: ?R
  show ?L
  proof (rule ccontr)
    assume "\<not> ?L"
    then obtain n where "n \<in> links_set links" and n2: "n \<in> links_set others" by auto
    then obtain off v m where "map_of links off = Some v" "bv_bit v m" "n = unat off + m"
      using assms(1) by (auto elim: links_setE)
    then show False
      using R n2 links_set_at [OF assms(2) links_ok_linkD [OF assms(1)]] by (force simp: bv_set_def)
  qed
qed

lemma links_subset_iff:
  assumes "links_ok vs links" and "links_ok vs others"
  shows "links_set others \<subseteq> links_set links \<longleftrightarrow>
    (\<forall>off w. map_of others off = Some w \<longrightarrow> bv_set w \<noteq> {} \<longrightarrow>
       (\<exists>v. map_of links off = Some v \<and> bv_set w \<subseteq> bv_set v))"
  (is "?L \<longleftrightarrow> ?R")
proof
  assume L: ?L
  show ?R
  proof (intro allI impI)
    fix off w assume w: "map_of others off = Some w" "bv_set w \<noteq> {}"
    have "\<exists>v. map_of links off = Some v \<and> bv_bit v k" if "bv_bit w k" for k
      using L links_set_I [OF w(1) that] links_set_at [OF assms(1) links_ok_linkD [OF assms(2) w(1)] that]
      by auto
    with w(2) show "\<exists>v. map_of links off = Some v \<and> bv_set w \<subseteq> bv_set v"
      by (cases "map_of links off") (auto simp: bv_set_def)
  qed
next
  assume R: ?R
  show ?L
  proof
    fix n assume "n \<in> links_set others"
    then obtain off w m where w: "map_of others off = Some w" "bv_bit w m" "n = unat off + m"
      by (auto simp: links_set_def)
    then obtain v where "map_of links off = Some v" "bv_set w \<subseteq> bv_set v"
      using R by (fastforce simp: bv_set_def)
    then show "n \<in> links_set links" using w links_set_I [of links off v m] by (auto simp: bv_set_def)
  qed
qed

definition bs_compatible :: "CBitSet \<Rightarrow> CBitSet \<Rightarrow> bool" where
  "bs_compatible bs bs' \<longleftrightarrow> bs_ok bs \<and> bs_ok bs' \<and> bs_vector_size bs = bs_vector_size bs'"

lemma bs_compatibleD:
  assumes "bs_compatible bs bs'"
  shows "bs_ok bs" "bs_ok bs'" "links_ok (bs_vector_size bs) (bs_links bs)"
    "links_ok (bs_vector_size bs) (bs_links bs')" "links_sorted (bs_links bs)" "links_sorted (bs_links bs')"
  using assms by (auto simp: bs_compatible_def bs_ok_def)

lemma bs_IsDisjoint_correct:
  assumes "bs_compatible this bs"
  shows "bs_IsDisjoint this bs = Inr (bs_set this \<inter> bs_set bs = {})"
proof -
  note ok = bs_compatibleD [OF assms]
  let ?P = "\<lambda>l. case map_of (bs_links this) (fst l) of None \<Rightarrow> True | Some v \<Rightarrow> bv_set v \<inter> bv_set (snd l) = {}"
  have "bs_IsDisjoint this bs = Inr (\<forall>l \<in> set (bs_links bs). ?P l)"
    unfolding bs_IsDisjoint_def
  proof (rule bs_disjoint_loop_eq [OF ok(5,6)])
    fix l assume "l \<in> set (bs_links bs)"
    then have m: "map_of (bs_links bs) (fst l) = Some (snd l)" using map_of_set_iff [OF ok(6)] by blast
    show "case map_of (bs_links this) (fst l) of None \<Rightarrow> ?P l
        | Some v \<Rightarrow> bv_IsDisjoint v (snd l) = Inr (?P l)"
      using link_compat [OF ok(3,4) _ m] by (auto split: option.split intro!: bv_IsDisjoint_correct)
  qed simp
  also have "(\<forall>l \<in> set (bs_links bs). ?P l) \<longleftrightarrow> bs_set this \<inter> bs_set bs = {}"
    unfolding bs_set_def links_disjoint_iff [OF ok(3,4)]
    by (force simp: map_of_eq_Some_iff [OF links_sorted_distinct [OF ok(6)]] simp del: bv_set_mem
        split: option.splits)
  finally show ?thesis .
qed

text \<open>The link sweep of \<^verbatim>\<open>ContainsAll\<close>, before the shortcut on the sizes.\<close>

lemma bs_contains_loop_correct:
  assumes "bs_compatible this bs"
  shows "bs_contains_loop (bs_links this) (bs_links bs) None =
    Inr (\<forall>off w. map_of (bs_links bs) off = Some w \<longrightarrow>
      (\<exists>v. map_of (bs_links this) off = Some v \<and> bv_set w \<subseteq> bv_set v))"
proof -
  note ok = bs_compatibleD [OF assms]
  let ?P = "\<lambda>l. \<exists>v. map_of (bs_links this) (fst l) = Some v \<and> bv_set (snd l) \<subseteq> bv_set v"
  have "bs_contains_loop (bs_links this) (bs_links bs) None = Inr (\<forall>l \<in> set (bs_links bs). ?P l)"
  proof (rule bs_contains_loop_eq [OF ok(5,6)])
    fix l assume "l \<in> set (bs_links bs)"
    then have m: "map_of (bs_links bs) (fst l) = Some (snd l)" using map_of_set_iff [OF ok(6)] by blast
    show "case map_of (bs_links this) (fst l) of None \<Rightarrow> \<not> ?P l
        | Some v \<Rightarrow> bv_ContainsAll v (snd l) = Inr (?P l)"
      using link_compat [OF ok(3,4) _ m] by (auto split: option.split simp: bv_ContainsAll_correct)
  qed simp
  also have "(\<forall>l \<in> set (bs_links bs). ?P l) \<longleftrightarrow>
      (\<forall>off w. map_of (bs_links bs) off = Some w \<longrightarrow>
         (\<exists>v. map_of (bs_links this) off = Some v \<and> bv_set w \<subseteq> bv_set v))"
    by (auto simp: map_of_eq_Some_iff [OF links_sorted_distinct [OF ok(6)]])
  finally show ?thesis .
qed

lemma bs_ContainsAll_sound:
  assumes "bs_compatible this bs" and "bs_ContainsAll this bs = Inr True"
  shows "bs_set bs \<subseteq> bs_set this"
proof -
  note ok = bs_compatibleD [OF assms(1)]
  show ?thesis
    using assms(2) unfolding bs_set_def links_subset_iff [OF ok(3,4)]
    by (auto simp: bs_ContainsAll_def bs_contains_loop_correct [OF assms(1)] split: if_splits)
qed

lemma unat_bs_size:
  "bs_ok bs \<Longrightarrow> card (bs_set bs) < 4294967296 \<Longrightarrow> unat (bs_size bs) = card (bs_set bs)"
  by (simp add: bs_ok_def unat_of_nat)

lemma bs_ContainsAll_correct:
  assumes c: "bs_compatible this bs" and tight: "bs_tight bs" and card: "card (bs_set this) < 4294967296"
  shows "bs_ContainsAll this bs = Inr (bs_set bs \<subseteq> bs_set this)"
proof (cases "bs_size this < bs_size bs")
  case True
  note ok = bs_compatibleD [OF c]
  have "\<not> bs_set bs \<subseteq> bs_set this"
  proof
    assume "bs_set bs \<subseteq> bs_set this"
    then have le: "card (bs_set bs) \<le> card (bs_set this)"
      using finite_bs_set [OF ok(1)] by (rule card_mono [rotated])
    then have "unat (bs_size bs) \<le> unat (bs_size this)"
      using unat_bs_size [OF ok(1) card] unat_bs_size [OF ok(2)] card by simp
    with True show False by (simp add: word_less_nat_alt)
  qed
  with True show ?thesis by (simp add: bs_ContainsAll_def)
next
  case False
  note ok = bs_compatibleD [OF c]
  have "bs_set bs \<subseteq> bs_set this \<longleftrightarrow> (\<forall>off w. map_of (bs_links bs) off = Some w \<longrightarrow>
      (\<exists>v. map_of (bs_links this) off = Some v \<and> bv_set w \<subseteq> bv_set v))"
    unfolding bs_set_def links_subset_iff [OF ok(3,4)]
    using tight unfolding bs_tight_def links_tight_def by blast
  with False show ?thesis by (simp add: bs_ContainsAll_def bs_contains_loop_correct [OF c])
qed

lemma bs_equals_loop_correct:
  "links_ok vs links \<Longrightarrow> links_ok vs others \<Longrightarrow>
   bs_equals_loop links others =
     Inr (list_all2 (\<lambda>l l'. fst l = fst l' \<and> bv_set (snd l) = bv_set (snd l')) links others)"
proof (induction links others rule: bs_equals_loop.induct)
  case (3 l ls l' ls')
  have k: "link_ok vs (fst l) (snd l)" "link_ok vs (fst l') (snd l')" "links_ok vs ls" "links_ok vs ls'"
    using links_ok_ConsD "3.prems" by blast+
  then have "bv_Equals (snd l) (snd l') = Inr (bv_set (snd l) = bv_set (snd l'))"
    by (auto simp: link_ok_def intro!: bv_Equals_correct bv_same_sizeI)
  with "3.IH" k(3,4) show ?case by simp
qed auto

lemma links_eq_offsets:
  assumes "links_ok vs links" and "links_ok vs others" and "links_tight links" and "links_tight others"
    and "links_set links = links_set others"
  shows "map fst links = map fst others"
proof -
  have sub: "dom (map_of a) \<subseteq> dom (map_of b)"
    if ok: "links_ok vs a" "links_ok vs b" "links_tight a" "links_set a \<subseteq> links_set b" for a b
  proof
    fix off assume "off \<in> dom (map_of a)"
    then obtain v where "map_of a off = Some v" "bv_set v \<noteq> {}"
      using ok(3) by (auto simp: links_tight_def)
    then show "off \<in> dom (map_of b)" using ok(4) unfolding links_subset_iff [OF ok(2,1)] by blast
  qed
  have "set (map fst links) = set (map fst others)"
    using sub [OF assms(1,2,3)] sub [OF assms(2,1,4)] assms(5) by (simp add: dom_map_of_conv_image_fst)
  moreover have "sorted_wrt (<) (map fst links)" "sorted_wrt (<) (map fst others)"
    using assms(1,2) by (simp_all add: links_ok_def links_sorted_def)
  ultimately show ?thesis by (intro strict_sorted_equal) simp_all
qed

lemma bs_Equals_correct:
  assumes c: "bs_compatible this bs" and tight: "bs_tight this" "bs_tight bs"
    and same: "same_object \<Longrightarrow> this = bs"
  shows "bs_Equals same_object this bs = Inr (bs_set this = bs_set bs)"
proof -
  note ok = bs_compatibleD [OF c]
  let ?Q = "\<lambda>l l'. fst l = fst l' \<and> bv_set (snd l) = bv_set (snd l')"
  have "bs_set this = bs_set bs \<longleftrightarrow> list_all2 ?Q (bs_links this) (bs_links bs)"
  proof
    assume eq: "bs_set this = bs_set bs"
    then have offs: "map fst (bs_links this) = map fst (bs_links bs)"
      using links_eq_offsets [OF ok(3,4)] tight by (simp add: bs_tight_def bs_set_def)
    then have len: "length (bs_links this) = length (bs_links bs)" by (metis length_map)
    have "?Q (bs_links this ! i) (bs_links bs ! i)" if i: "i < length (bs_links this)" for i
    proof -
      have f: "fst (bs_links this ! i) = fst (bs_links bs ! i)" using offs i len by (metis nth_map)
      have m: "map_of (bs_links this) (fst (bs_links this ! i)) = Some (snd (bs_links this ! i))"
          "map_of (bs_links bs) (fst (bs_links this ! i)) = Some (snd (bs_links bs ! i))"
        using i len map_of_set_iff [OF ok(5)] map_of_set_iff [OF ok(6)] by (simp_all add: f) (simp add: f [symmetric])
      have "bv_bit (snd (bs_links this ! i)) k \<longleftrightarrow> bv_bit (snd (bs_links bs ! i)) k" for k
        using links_set_I [OF m(1)] links_set_I [OF m(2)] eq m
          links_set_at [OF ok(3) links_ok_linkD [OF ok(4) m(2)], of k]
          links_set_at [OF ok(4) links_ok_linkD [OF ok(3) m(1)], of k]
        by (auto simp: bs_set_def)
      with f show ?thesis by (simp add: bv_set_def)
    qed
    with len show "list_all2 ?Q (bs_links this) (bs_links bs)" by (simp add: list_all2_conv_all_nth)
  next
    assume "list_all2 ?Q (bs_links this) (bs_links bs)"
    then show "bs_set this = bs_set bs" using ok(5,6) unfolding bs_set_def
      by (induction rule: list_all2_induct) (simp_all add: links_set_Cons)
  qed
  moreover have "bs_size this = bs_size bs" if "bs_set this = bs_set bs"
    using that ok(1,2) by (simp add: bs_ok_def)
  ultimately show ?thesis
    using same by (auto simp: bs_Equals_def bs_equals_loop_correct [OF ok(3,4)])
qed

lemma links_ok_Cons:
  "links_ok vs ls \<Longrightarrow> link_ok vs off v \<Longrightarrow> \<forall>l' \<in> set ls. off < fst l' \<Longrightarrow> links_ok vs ((off, v) # ls)"
  by (simp add: links_ok_def)

lemma links_tight_Cons:
  "links_tight ls \<Longrightarrow> bv_set v \<noteq> {} \<Longrightarrow> links_tight ((off, v) # ls)"
  by (simp add: links_tight_def)

lemma links_tight_ConsD:
  assumes "links_tight (l # ls)" and "links_sorted (l # ls)"
  shows "links_tight ls" and "bv_set (snd l) \<noteq> {}"
proof -
  have none: "map_of ls (fst l) = None" using assms(2) by (auto simp: map_of_eq_None_iff)
  have t: "bv_set v \<noteq> {}" if "map_of (l # ls) off = Some v" for off v
    using assms(1) that unfolding links_tight_def by blast
  have "bv_set v \<noteq> {}" if "map_of ls off = Some v" for off v
    using t [of off v] that none by (cases "off = fst l"; cases l) auto
  then show "links_tight ls" by (simp add: links_tight_def)
  show "bv_set (snd l) \<noteq> {}" using t [of "fst l" "snd l"] by (cases l) simp
qed

text \<open>The bits that a list of links has at an offset.\<close>

definition links_at :: "CBitSetLink list \<Rightarrow> ULONG \<Rightarrow> nat set" where
  "links_at links off = (case map_of links off of None \<Rightarrow> {} | Some v \<Rightarrow> bv_set v)"

lemma links_at_inter:
  assumes "links_ok vs others" and "link_ok vs off v"
  shows "((+) (unat off) ` bv_set v) \<inter> links_set others = (+) (unat off) ` (bv_set v \<inter> links_at others off)"
  using links_set_at [OF assms] by (auto simp: links_at_def split: option.splits)

lemma links_set_UN: "links_set links = (\<Union>off. (+) (unat off) ` links_at links off)"
proof (rule set_eqI)
  fix n
  show "n \<in> links_set links \<longleftrightarrow> n \<in> (\<Union>off. (+) (unat off) ` links_at links off)"
    by (fastforce simp: links_set_def links_at_def split: option.splits)
qed

lemma offsets_above:
  assumes "fst ` set r \<subseteq> fst ` set ls" and "links_sorted (l # ls)"
  shows "\<forall>l' \<in> set r. fst l < fst l'"
proof
  fix l' assume "l' \<in> set r"
  then obtain k where "k \<in> set ls" "fst k = fst l'" using assms(1) by force
  then show "fst l < fst l'" using assms(2) by fastforce
qed

lemma bs_intersect_loop_correct:
  assumes "links_ok vs others" and "links_ok vs links" and "cursor_before others bsl links"
  shows "\<exists>r. bs_intersect_loop others links bsl = Inr r \<and> links_ok vs r \<and>
    fst ` set r = fst ` set links \<inter> fst ` set others \<and> links_set r = links_set links \<inter> links_set others"
  using assms(2,3)
proof (induction links arbitrary: bsl)
  case Nil
  then show ?case by simp
next
  case (Cons l ls)
  have so: "links_sorted others" and sl: "links_sorted (l # ls)"
    using assms(1) Cons.prems(1) by (blast dest: links_ok_sorted)+
  note ok = links_ok_ConsD [OF Cons.prems(1)]
  obtain r where r: "bs_intersect_loop others ls (last_le others (fst l)) = Inr r" "links_ok vs r"
    "fst ` set r = fst ` set ls \<inter> fst ` set others" "links_set r = links_set ls \<inter> links_set others"
    using Cons.IH [OF ok(1) cursor_before_next [OF so sl]] by blast
  have sub: "fst ` set r \<subseteq> fst ` set ls" using r(3) by blast
  have eq: "links_set (l # ls) \<inter> links_set others =
      (+) (unat (fst l)) ` (bv_set (snd l) \<inter> links_at others (fst l)) \<union> links_set r"
    using links_set_Cons [OF sl] links_at_inter [OF assms(1) ok(2)] r(4) by (simp add: Int_Un_distrib2)
  show ?case
  proof (cases "map_of others (fst l)")
    case None
    then have "fst l \<notin> fst ` set others" by (simp add: map_of_eq_None_iff)
    with None show ?thesis
      using r eq find_before [OF so Cons.prems(2)] by (auto simp: bs_hit_last_le [OF so] links_at_def)
  next
    case (Some w)
    have w: "link_ok vs (fst l) w" by (rule links_ok_linkD [OF assms(1) Some])
    have off: "fst l \<in> fst ` set others" using map_of_SomeD [OF Some] by (metis fst_conv image_eqI)
    from w obtain u where u: "bv_And (snd l) w = Inr u" "bv_ok u" "bv_set u = bv_set (snd l) \<inter> bv_set w"
      "bv_nbits u = bv_nbits (snd l)"
      using ok(2) bv_And_correct [of "snd l" w] bv_same_sizeI [of "snd l" w] by (auto simp: link_ok_def)
    have uok: "link_ok vs (fst l) u" using ok(2) u by (auto simp: link_ok_def bv_set_def set_eq_iff)
    have "\<forall>l' \<in> set r. fst l < fst l'" by (rule offsets_above [OF sub sl])
    then have rok: "links_ok vs ((fst l, u) # r)" using r(2) uok by (intro links_ok_Cons)
    then have "links_set ((fst l, u) # r) = (+) (unat (fst l)) ` bv_set u \<union> links_set r"
      using links_set_Cons [of "(fst l, u)" r] by (simp add: links_ok_def)
    then show ?thesis
      using r rok eq u off find_before [OF so Cons.prems(2)] Some
      by (intro exI [of _ "(fst l, u) # r"]) (auto simp: bs_hit_last_le [OF so] links_at_def)
  qed
qed

lemma bs_Intersection_correct:
  assumes "bs_compatible bs other"
  obtains bs' where "bs_Intersection bs (Some other) = Inr bs'" and "bs_ok bs'"
    and "bs_set bs' = bs_set bs \<inter> bs_set other" and "bs_vector_size bs' = bs_vector_size bs"
    and "fst ` set (bs_links bs') = fst ` set (bs_links bs) \<inter> fst ` set (bs_links other)"
proof -
  note ok = bs_compatibleD [OF assms]
  obtain r where r: "bs_intersect_loop (bs_links other) (bs_links bs) None = Inr r"
    "links_ok (bs_vector_size bs) r" "links_set r = links_set (bs_links bs) \<inter> links_set (bs_links other)"
    "fst ` set r = fst ` set (bs_links bs) \<inter> fst ` set (bs_links other)"
    using bs_intersect_loop_correct [OF ok(4,3), of None] by auto
  note rs = bs_RecomputeSize_ok [OF bs_okD(1) [OF ok(1)] r(2)]
  show ?thesis
    by (rule that [of "bs_RecomputeSize (bs\<lparr>bs_links := r\<rparr>)"])
       (use r rs in \<open>simp_all add: bs_Intersection_def bs_set_def\<close>)
qed

section \<open>Union\<close>

lemma CBitVector_copy_ok [simp]: "bv_ok v \<Longrightarrow> CBitVector_copy v = v"
  by (simp add: CBitVector_copy_def bv_ok_def)

lemma bs_union_missing_correct:
  assumes "links_sorted links" and "links_ok vs others" and "cursor_before links bsl others"
  shows "bs_union_missing links others bsl = Inr (filter (\<lambda>l. map_of links (fst l) = None) others)"
  using assms(2,3)
proof (induction others arbitrary: bsl)
  case (Cons l ls)
  have sl: "links_sorted (l # ls)" using Cons.prems(1) by (rule links_ok_sorted)
  note ok = links_ok_ConsD [OF Cons.prems(1)]
  have "CBitSetLink_copy l = l" using ok(2) by (simp add: CBitSetLink_copy_def link_ok_def)
  then show ?case
    using Cons.IH [OF ok(1) cursor_before_next [OF assms(1) sl]] find_before [OF assms(1) Cons.prems(2)]
    by (simp add: bs_hit_last_le [OF assms(1)] split: option.splits)
qed simp

lemma insert_link_nth:
  assumes "links_sorted links" and "last_le links (fst new) = Some i"
  shows "i < length (bs_insert_link links new (Some i))" and "bs_insert_link links new (Some i) ! i = links ! i"
  using last_le_Some_iff [OF assms(1), of "fst new" i] assms(2)
  by (auto simp: bs_insert_link_def nth_append)

lemma bs_union_insert_correct:
  assumes "links_sorted links" and "links_sorted news" and "cursor_before links bsl news"
    and "\<And>l. l \<in> set news \<Longrightarrow> map_of links (fst l) = None"
  shows "\<exists>r. bs_union_insert links news bsl = Inr r \<and> links_sorted r \<and> map_of r = map_of links ++ map_of news"
  using assms
proof (induction news arbitrary: links bsl)
  case Nil
  then show ?case by simp
next
  case (Cons l ls)
  let ?i = "last_le links (fst l)" and ?links = "bs_insert_link links l (last_le links (fst l))"
  have none: "map_of links (fst l) = None" using Cons.prems(4) by simp
  note ins = insert_link [OF Cons.prems(1) none]
  have strict: "fst (links ! i) < fst l" if "?i = Some i" for i
  proof -
    have "i < length links" "fst (links ! i) \<le> fst l" using last_le_Some_iff [OF Cons.prems(1)] that by blast+
    moreover have "fst (links ! i) \<noteq> fst l" using none \<open>i < length links\<close>
      by (metis image_eqI map_of_eq_None_iff nth_mem)
    ultimately show ?thesis by simp
  qed
  have ls: "links_sorted ls" using Cons.prems(2) by simp
  have cur: "cursor_before ?links ?i ls"
    using insert_link_nth [OF Cons.prems(1), of l] strict Cons.prems(2)
    by (force simp: cursor_before_def cursor_ok_def split: option.splits)
  have rest: "map_of ?links (fst l') = None" if "l' \<in> set ls" for l'
    using that Cons.prems(2,4) ins(2) by (auto simp: fun_upd_apply)
  obtain r where r: "bs_union_insert ?links ls ?i = Inr r" "links_sorted r"
    "map_of r = map_of ?links ++ map_of ls"
    using Cons.IH [OF ins(1) ls cur rest] by blast
  have nl: "map_of ls (fst l) = None" using Cons.prems(2) by (auto simp: map_of_eq_None_iff)
  have "map_of r = map_of links ++ map_of (l # ls)"
    using r(3) ins(2) nl by (cases l) (auto simp: map_add_def fun_eq_iff split: option.splits)
  moreover have "bs_union_insert links (l # ls) bsl = Inr r"
    using r(1) find_before [OF Cons.prems(1,3)] strict by (auto split: option.splits)
  ultimately show ?case using r(2) by blast
qed

lemma bs_union_or_correct:
  assumes "links_ok vs others" and "links_ok vs links" and "cursor_before others bsl links"
  shows "\<exists>r. bs_union_or others links bsl = Inr r \<and> links_ok vs r \<and> fst ` set r = fst ` set links \<and>
    links_set r = links_set links \<union> (\<Union>l \<in> set links. (+) (unat (fst l)) ` links_at others (fst l)) \<and>
    (links_tight links \<longrightarrow> links_tight r)"
  using assms(2,3)
proof (induction links arbitrary: bsl)
  case Nil
  then show ?case by simp
next
  case (Cons l ls)
  have so: "links_sorted others" and sl: "links_sorted (l # ls)"
    using assms(1) Cons.prems(1) by (blast dest: links_ok_sorted)+
  note ok = links_ok_ConsD [OF Cons.prems(1)]
  obtain r where r: "bs_union_or others ls (last_le others (fst l)) = Inr r" "links_ok vs r"
    "fst ` set r = fst ` set ls" "links_tight ls \<longrightarrow> links_tight r"
    "links_set r = links_set ls \<union> (\<Union>l \<in> set ls. (+) (unat (fst l)) ` links_at others (fst l))"
    using Cons.IH [OF ok(1) cursor_before_next [OF so sl]] by blast
  obtain u where u: "(case map_of others (fst l) of Some w \<Rightarrow> bv_Or (snd l) w | None \<Rightarrow> Inr (snd l)) = Inr u"
    "link_ok vs (fst l) u" "bv_set u = bv_set (snd l) \<union> links_at others (fst l)"
  proof (cases "map_of others (fst l)")
    case None
    then show ?thesis using that ok(2) by (simp add: links_at_def)
  next
    case (Some w)
    have w: "link_ok vs (fst l) w" by (rule links_ok_linkD [OF assms(1) Some])
    then obtain u where u: "bv_Or (snd l) w = Inr u" "bv_ok u" "bv_set u = bv_set (snd l) \<union> bv_set w"
      "bv_nbits u = bv_nbits (snd l)"
      using ok(2) bv_Or_correct [of "snd l" w] bv_same_sizeI [of "snd l" w] by (auto simp: link_ok_def)
    then have "link_ok vs (fst l) u" using ok(2) w by (auto simp: link_ok_def bv_set_def set_eq_iff)
    with u Some that show ?thesis by (simp add: links_at_def)
  qed
  have "\<forall>l' \<in> set r. fst l < fst l'" using r(3) by (intro offsets_above [OF _ sl]) simp
  then have rok: "links_ok vs ((fst l, u) # r)" using r(2) u(2) by (intro links_ok_Cons)
  then have "links_set ((fst l, u) # r) = (+) (unat (fst l)) ` bv_set u \<union> links_set r"
    using links_set_Cons [of "(fst l, u)" r] by (simp add: links_ok_def)
  then have set: "links_set ((fst l, u) # r) =
      links_set (l # ls) \<union> (\<Union>l \<in> set (l # ls). (+) (unat (fst l)) ` links_at others (fst l))"
    using r(5) u(3) links_set_Cons [OF sl] by auto
  have "links_tight ((fst l, u) # r)" if "links_tight (l # ls)"
    using links_tight_ConsD [OF that sl] r(4) u(3) by (intro links_tight_Cons) auto
  moreover have "bs_union_or others (l # ls) bsl = Inr ((fst l, u) # r)"
    using r(1) u(1) by (simp add: find_before [OF so Cons.prems(2)] bs_hit_last_le [OF so])
  moreover have "fst ` set ((fst l, u) # r) = fst ` set (l # ls)" using r(3) by simp
  ultimately show ?case using rok set by blast
qed

lemma map_of_filter_fst: "map_of (filter (\<lambda>l. P (fst l)) ls) k = (if P k then map_of ls k else None)"
  by (induction ls) auto

lemma links_set_subset:
  assumes "\<And>off v. map_of a off = Some v \<Longrightarrow> map_of b off = Some v \<or> map_of c off = Some v"
  shows "links_set a \<subseteq> links_set b \<union> links_set c"
proof
  fix n assume "n \<in> links_set a"
  then obtain off v k where n: "map_of a off = Some v" "bv_bit v k" "n = unat off + k"
    by (auto simp: links_set_def)
  from assms [OF n(1)] n(2,3) show "n \<in> links_set b \<union> links_set c" by (auto dest: links_set_I)
qed

lemma bs_Union_correct:
  assumes "bs_compatible bs other"
  obtains bs' where "bs_Union bs other = Inr bs'" and "bs_ok bs'"
    and "bs_set bs' = bs_set bs \<union> bs_set other" and "bs_vector_size bs' = bs_vector_size bs"
    and "bs_tight bs \<Longrightarrow> bs_tight other \<Longrightarrow> bs_tight bs'"
proof -
  note ok = bs_compatibleD [OF assms]
  let ?L = "bs_links bs" and ?O = "bs_links other" and ?vs = "bs_vector_size bs"
  let ?news = "filter (\<lambda>l. map_of ?L (fst l) = None) ?O"
  have miss: "bs_union_missing ?L ?O None = Inr ?news"
    by (rule bs_union_missing_correct [OF ok(5,4)]) simp
  have none: "map_of ?L (fst l) = None" if "l \<in> set ?news" for l using that by simp
  have "links_sorted ?news" using ok(6) by (auto simp: links_sorted_def sorted_wrt_map sorted_wrt_filter)
  then obtain links where links: "bs_union_insert ?L ?news None = Inr links" "links_sorted links"
    "map_of links = map_of ?L ++ map_of ?news"
    using bs_union_insert_correct [OF ok(5) _ cursor_before_None none] by blast
  have m: "map_of links off = (case map_of ?L off of None \<Rightarrow> map_of ?O off | Some v \<Rightarrow> Some v)" for off
    using links(3) by (simp add: map_add_def map_of_filter_fst [of "\<lambda>off. map_of ?L off = None"] split: option.splits)
  have mD: "map_of ?L off = Some v \<or> map_of ?O off = Some v" if "map_of links off = Some v" for off v
    using m [of off] that by (simp split: option.splits)
  have lok: "links_ok ?vs links"
    using links(2) mD links_ok_linkD [OF ok(3)] links_ok_linkD [OF ok(4)] unfolding links_ok_def by blast
  obtain r where r: "bs_union_or ?O links None = Inr r" "links_ok ?vs r"
    "links_set r = links_set links \<union> (\<Union>l \<in> set links. (+) (unat (fst l)) ` links_at ?O (fst l))"
    "links_tight links \<longrightarrow> links_tight r"
    using bs_union_or_correct [OF ok(4) lok cursor_before_None] by blast
  have dom: "off \<in> fst ` set links" if "map_of ?O off = Some v" for off v
  proof -
    have "map_of links off \<noteq> None" using that m [of off] by (simp split: option.splits)
    then show ?thesis by (simp add: map_of_eq_None_iff)
  qed
  have "links_set r = links_set ?L \<union> links_set ?O"
  proof
    have "links_set links \<subseteq> links_set ?L \<union> links_set ?O"
      by (rule links_set_subset [OF mD])
    moreover have "(\<Union>l \<in> set links. (+) (unat (fst l)) ` links_at ?O (fst l)) \<subseteq> links_set ?O"
      unfolding links_set_UN [of ?O] by blast
    ultimately show "links_set r \<subseteq> links_set ?L \<union> links_set ?O" unfolding r(3) by blast
    have "links_set ?L \<subseteq> links_set links \<union> links_set []"
      by (rule links_set_subset) (simp add: m)
    then have "links_set ?L \<subseteq> links_set links" by simp
    moreover have "links_set ?O \<subseteq> (\<Union>l \<in> set links. (+) (unat (fst l)) ` links_at ?O (fst l))"
    proof
      fix n assume "n \<in> links_set ?O"
      then obtain off v k where "map_of ?O off = Some v" "bv_bit v k" "n = unat off + k"
        by (auto simp: links_set_def)
      moreover from this dom obtain l where "l \<in> set links" "fst l = off" by blast
      ultimately have "n \<in> (+) (unat (fst l)) ` links_at ?O (fst l)"
        by (simp add: links_at_def)
      with \<open>l \<in> set links\<close> show "n \<in> (\<Union>l \<in> set links. (+) (unat (fst l)) ` links_at ?O (fst l))"
        by (rule UN_I)
    qed
    ultimately show "links_set ?L \<union> links_set ?O \<subseteq> links_set r" unfolding r(3) by blast
  qed
  moreover have "links_tight r" if "links_tight ?L" "links_tight ?O"
  proof -
    have "links_tight links" using that mD unfolding links_tight_def by blast
    with r(4) show ?thesis ..
  qed
  moreover note rs = bs_RecomputeSize_ok [OF bs_okD(1) [OF ok(1)] r(2)]
  moreover have "bs_Union bs other = Inr (bs_RecomputeSize (bs\<lparr>bs_links := r\<rparr>))"
    by (simp add: bs_Union_def miss links(1) r(1))
  ultimately show ?thesis
    by (intro that [of "bs_RecomputeSize (bs\<lparr>bs_links := r\<rparr>)"]) (simp_all add: bs_set_def bs_tight_def)
qed

lemma bs_compatible_ctor: "bs_ok bs \<Longrightarrow> bs_compatible (CBitSet_ctor (bs_vector_size bs)) bs"
  using bs_ok_ctor [of "bs_vector_size bs"] by (simp add: bs_compatible_def bs_okD CBitSet_ctor_def)

lemma CBitSet_copy_correct:
  assumes "bs_ok bs"
  obtains bs' where "CBitSet_copy bs = Inr bs'" and "bs_ok bs'" and "bs_set bs' = bs_set bs"
    and "bs_vector_size bs' = bs_vector_size bs" and "bs_tight bs \<Longrightarrow> bs_tight bs'"
proof -
  have v: "bs_vector_size (CBitSet_ctor (bs_vector_size bs)) = bs_vector_size bs"
    by (simp add: CBitSet_ctor_def)
  show ?thesis
    using bs_Union_correct [OF bs_compatible_ctor [OF assms]] that v bs_tight_ctor
    by (auto simp: CBitSet_copy_def)
qed

section \<open>Iteration\<close>

text \<open>
  The state of an iterator denotes the positions it has still to visit: those of the current
  link after the cursor, and those of the links behind it. A fresh iterator has all of them.
\<close>

definition iter_rest :: "CBitSetLink list \<Rightarrow> ULONG \<Rightarrow> nat set" where
  "iter_rest links cursor =
     (case links of [] \<Rightarrow> {}
      | l # ls \<Rightarrow> (+) (unat (fst l)) ` {m \<in> bv_set (snd l). unat (cursor + 1) \<le> m} \<union> links_set ls)"

lemma links_set_Cons_above:
  assumes "links_ok vs (l # ls)" and "bv_bit (snd l) m" and "n \<in> links_set ls"
  shows "unat (fst l) + m < n"
proof -
  note ok = links_ok_ConsD [OF assms(1)]
  from assms(3) obtain off v k where off: "map_of ls off = Some v" "n = unat off + k"
    by (auto simp: links_set_def)
  have m: "m < unat vs" using assms(2) ok(2) bv_ok_bound by (auto simp: link_ok_def)
  have "fst l < off" using assms(1) map_of_SomeD [OF off(1)] by (force simp: links_ok_def)
  then have lt: "unat (fst l) < unat off" by (simp add: word_less_nat_alt)
  obtain p q where "unat (fst l) = unat vs * p" "unat off = unat vs * q"
    using ok(2) links_ok_linkD [OF ok(1) off(1)] by (auto simp: link_ok_def dvd_def)
  moreover from this lt have "p + 1 \<le> q" by (metis Suc_eq_plus1 Suc_leI mult_less_cancel1)
  then have "unat vs * (p + 1) \<le> unat vs * q" by (rule mult_le_mono2)
  ultimately have "unat (fst l) + unat vs \<le> unat off" by simp
  with m off(2) show ?thesis by simp
qed

text \<open>One step of the iterator: it stops at the least position left, or there is none.\<close>

lemma bs_advance_loop_correct:
  assumes "links_ok vs links" and "cursor + 1 \<le> vs"
  shows "case bs_advance_loop vs links i cursor of
      (c, None) \<Rightarrow> iter_rest links cursor = {}
    | (c, Some j) \<Rightarrow> i \<le> j \<and> j < i + length links \<and> c < vs \<and> bv_bit (snd (links ! (j - i))) (unat c) \<and>
        unat (fst (links ! (j - i))) + unat c \<in> iter_rest links cursor \<and>
        iter_rest (drop (j - i) links) c = iter_rest links cursor - {unat (fst (links ! (j - i))) + unat c}"
  using assms
proof (induction links arbitrary: i cursor)
  case Nil
  then show ?case by (simp add: iter_rest_def)
next
  case (Cons l ls)
  note ok = links_ok_ConsD [OF Cons.prems(1)]
  have v: "bv_ok (snd l)" "bv_nbits (snd l) = vs" using ok(2) by (auto simp: link_ok_def)
  note nx = bv_GetNextSetBit_correct [OF v(1), of "cursor + 1"]
  show ?case
  proof (cases "bv_GetNextSetBit (snd l) (cursor + 1)")
    case (Some c)
    have c: "bv_bit (snd l) (unat c)" "unat (cursor + 1) \<le> unat c"
      "\<And>m. bv_bit (snd l) m \<Longrightarrow> unat (cursor + 1) \<le> m \<Longrightarrow> unat c \<le> m"
      using nx Some by (auto simp: is_next_def)
    have cv: "c < vs" using bv_ok_bound [OF v(1) c(1)] v(2) by (simp add: word_less_nat_alt)
    then have c1: "unat (c + 1) = unat c + 1"
      using unat_ULONG_less [of vs] by (simp add: word_less_nat_alt unat_word_ariths)
    have "unat (c + 1) \<le> m \<longleftrightarrow> unat (cursor + 1) \<le> m \<and> m \<noteq> unat c" if "bv_bit (snd l) m" for m
      using c(2) c(3) [OF that] c1 by linarith
    then have "{m \<in> bv_set (snd l). unat (c + 1) \<le> m} =
        {m \<in> bv_set (snd l). unat (cursor + 1) \<le> m} - {unat c}"
      unfolding bv_set_def by blast
    then have "iter_rest (l # ls) c = iter_rest (l # ls) cursor - {unat (fst l) + unat c}"
      using links_set_Cons_above [OF Cons.prems(1) c(1)] by (auto simp: iter_rest_def)
    moreover have "unat (fst l) + unat c \<in> iter_rest (l # ls) cursor"
      using c(1,2) by (auto simp: iter_rest_def)
    ultimately show ?thesis using Some Cons.prems(2) cv c(1) by simp
  next
    case None
    have e: "{m \<in> bv_set (snd l). unat (cursor + 1) \<le> m} = {}"
      using nx None by (auto simp: is_next_def)
    have r: "iter_rest (l # ls) cursor = iter_rest ls (- 1)"
    proof -
      have "iter_rest (l # ls) cursor = links_set ls" unfolding iter_rest_def list.case e by simp
      also have "\<dots> = iter_rest ls (- 1)"
        using links_set_Cons ok(1) by (cases ls) (auto simp: iter_rest_def links_ok_def)
      finally show ?thesis .
    qed
    have IH: "case bs_advance_loop vs ls (Suc i) (- 1) of
        (c, None) \<Rightarrow> iter_rest ls (- 1) = {}
      | (c, Some j) \<Rightarrow> Suc i \<le> j \<and> j < Suc i + length ls \<and> c < vs \<and>
          bv_bit (snd (ls ! (j - Suc i))) (unat c) \<and>
          unat (fst (ls ! (j - Suc i))) + unat c \<in> iter_rest ls (- 1) \<and>
          iter_rest (drop (j - Suc i) ls) c = iter_rest ls (- 1) - {unat (fst (ls ! (j - Suc i))) + unat c}"
      by (rule Cons.IH [OF ok(1)]) simp
    obtain c j where cj: "bs_advance_loop vs ls (Suc i) (- 1) = (c, j)" by fastforce
    show ?thesis
    proof (cases j)
      case (Some k)
      then have "Suc i \<le> k" using IH cj by simp
      then have "k - i = Suc (k - Suc i)" by simp
      then show ?thesis using IH cj None Cons.prems(2) r Some by simp
    qed (use IH cj None Cons.prems(2) r in simp)
  qed
qed

text \<open>What an iterator has still to visit, and the states a running iterator can be in.\<close>

definition iter_rem :: "CBitSet \<Rightarrow> CBitSetIter \<Rightarrow> nat set" where
  "iter_rem bs it =
     (case it_bsl it of None \<Rightarrow> bs_set bs | Some i \<Rightarrow> iter_rest (drop i (bs_links bs)) (it_cursor it))"

definition iter_ok :: "CBitSet \<Rightarrow> CBitSetIter \<Rightarrow> bool" where
  "iter_ok bs it \<longleftrightarrow> it_active it \<and>
     (case it_bsl it of
        None \<Rightarrow> it_cursor it = - 1
      | Some i \<Rightarrow> i < length (bs_links bs) \<and> it_cursor it < bs_vector_size bs)"

lemma iter_ok_ctor [simp]: "iter_ok bs CBitSetIter_ctor" "iter_rem bs CBitSetIter_ctor = bs_set bs"
  by (simp_all add: iter_ok_def iter_rem_def CBitSetIter_ctor_def)

lemma iter_rest_all: "links_sorted links \<Longrightarrow> iter_rest links (- 1) = links_set links"
  using links_set_Cons by (cases links) (auto simp: iter_rest_def)

lemma links_ok_drop: "links_ok vs links \<Longrightarrow> links_ok vs (drop i links)"
proof (induction links arbitrary: i)
  case (Cons l ls)
  then show ?case using links_ok_ConsD(1) [OF Cons.prems] by (cases i) simp_all
qed simp

lemma iter_rest_above:
  assumes "links_ok vs (l # ls)" and "c < vs" and "bv_bit (snd l) (unat c)" and "n \<in> iter_rest (l # ls) c"
  shows "unat (fst l) + unat c < n"
proof -
  have "unat (c + 1) = unat c + 1"
    using assms(2) unat_ULONG_less [of vs] by (simp add: word_less_nat_alt unat_word_ariths)
  then show ?thesis
    using links_set_Cons_above [OF assms(1,3)] assms(4) by (auto simp: iter_rest_def)
qed

lemma bs_iter_step:
  assumes ok: "bs_ok bs" and it: "iter_ok bs it"
  shows "(iter_rem bs it = {} \<and> (\<exists>it'. bs_iter_Advance bs it = Inr (False, it'))) \<or>
    (\<exists>it' p. bs_iter_Advance bs it = Inr (True, it') \<and> bs_iter_Bit bs it' = Inr p \<and> iter_ok bs it' \<and>
       unat p \<in> iter_rem bs it \<and> iter_rem bs it' = iter_rem bs it - {unat p} \<and>
       (\<forall>n \<in> iter_rem bs it. unat p \<le> n))"
proof -
  note okd = bs_okD [OF ok]
  define i where "i = (case it_bsl it of None \<Rightarrow> 0 | Some i \<Rightarrow> i)"
  define ls where "ls = drop i (bs_links bs)"
  let ?vs = "bs_vector_size bs"
  have rem: "iter_rem bs it = iter_rest ls (it_cursor it)"
    using it iter_rest_all [OF okd(2)]
    by (auto simp: iter_rem_def iter_ok_def i_def ls_def bs_set_def split: option.splits)
  have cur: "it_cursor it + 1 \<le> ?vs"
    using it by (auto simp: iter_ok_def inc_le split: option.splits)
  have act: "it_active it" using it by (simp add: iter_ok_def)
  have lsok: "links_ok ?vs ls" unfolding ls_def by (rule links_ok_drop [OF okd(3)])
  note adv = bs_advance_loop_correct [OF lsok cur, of i]
  obtain c j where cj: "bs_advance_loop ?vs ls i (it_cursor it) = (c, j)" by fastforce
  have eq: "bs_iter_Advance bs it =
      Inr (j \<noteq> None, \<lparr>it_cursor = c, it_bsl = j, it_active = (j \<noteq> None)\<rparr>)"
    using cj act by (simp add: bs_iter_Advance_def Let_def flip: i_def ls_def)
  show ?thesis
  proof (cases j)
    case None
    then show ?thesis using adv cj eq rem by simp
  next
    case (Some k)
    have a: "i \<le> k" "k < i + length ls" "c < ?vs" "bv_bit (snd (ls ! (k - i))) (unat c)"
      "unat (fst (ls ! (k - i))) + unat c \<in> iter_rem bs it"
      "iter_rest (drop (k - i) ls) c = iter_rem bs it - {unat (fst (ls ! (k - i))) + unat c}"
      using adv unfolding cj Some rem by simp_all
    have k: "k < length (bs_links bs)" "ls ! (k - i) = bs_links bs ! k" "drop (k - i) ls = drop k (bs_links bs)"
      using a(1,2) unfolding ls_def by simp_all
    let ?l = "bs_links bs ! k" and ?it = "\<lparr>it_cursor = c, it_bsl = Some k, it_active = True\<rparr>"
    have "map_of (bs_links bs) (fst ?l) = Some (snd ?l)" using k(1) map_of_set_iff [OF okd(2)] by simp
    then have l: "link_ok ?vs (fst ?l) (snd ?l)" by (rule links_ok_linkD [OF okd(3)])
    have bit: "bv_bit (snd ?l) (unat c)" using a(4) k by simp
    have p: "unat (fst ?l + c) = unat (fst ?l) + unat c"
      using l bit by (auto simp: link_ok_def unat_word_ariths)
    have "bs_iter_Advance bs it = Inr (True, ?it)" using eq Some by simp
    moreover have "bs_iter_Bit bs ?it = Inr (fst ?l + c)"
      using k(1) l bit a(3) bv_Get_correct [of "snd ?l" c] by (simp add: bs_iter_Bit_def link_ok_def)
    moreover have r': "iter_rem bs ?it = iter_rem bs it - {unat (fst ?l + c)}"
      using a(6) k p by (simp add: iter_rem_def)
    moreover have "\<forall>n \<in> iter_rem bs it. unat (fst ?l + c) \<le> n"
    proof
      fix n assume n: "n \<in> iter_rem bs it"
      show "unat (fst ?l + c) \<le> n"
      proof (cases "n = unat (fst ?l + c)")
        case False
        then have "n \<in> iter_rest (?l # drop (Suc k) (bs_links bs)) c"
          using n r' k(1) by (simp add: iter_rem_def Cons_nth_drop_Suc)
        moreover have "links_ok ?vs (?l # drop (Suc k) (bs_links bs))"
          using links_ok_drop [OF okd(3), of k] k(1) by (simp add: Cons_nth_drop_Suc)
        ultimately show ?thesis using iter_rest_above [OF _ a(3) bit] p by force
      qed simp
    qed
    moreover have "iter_ok bs ?it" using k(1) a(3) by (simp add: iter_ok_def)
    moreover have "unat (fst ?l + c) \<in> iter_rem bs it" using a(5) k p by simp
    ultimately show ?thesis by blast
  qed
qed

section \<open>Loops over an iterator\<close>

text \<open>The same loop over a list of positions.\<close>

fun foreach_list :: "(ULONG \<Rightarrow> 's \<Rightarrow> (bool \<times> 's) result) \<Rightarrow> ULONG list \<Rightarrow> 's \<Rightarrow> 's result" where
  "foreach_list body [] s = Inr s"
| "foreach_list body (p # ps) s =
     rbind (body p s) (\<lambda>(cont, s'). if cont then foreach_list body ps s' else Inr s')"

definition elems_of :: "nat set \<Rightarrow> ULONG list" where
  "elems_of A = map of_nat (sorted_list_of_set A)"

lemma elems_of_empty [simp]: "elems_of {} = []"
  by (simp add: elems_of_def)

lemma elems_of_least:
  assumes "finite A" and "unat p \<in> A" and "\<forall>n \<in> A. unat p \<le> n"
  shows "elems_of A = p # elems_of (A - {unat p})"
proof -
  have "Min A = unat p" using assms by (intro Min_eqI) auto
  then have "sorted_list_of_set A = unat p # sorted_list_of_set (A - {unat p})"
    using sorted_list_of_set_nonempty [OF assms(1)] assms(2) by auto
  then show ?thesis by (simp add: elems_of_def)
qed

lemma unat_elems_of:
  assumes "finite A" and "\<forall>n \<in> A. n < 4294967296"
  shows "map unat (elems_of A) = sorted_list_of_set A" and "unat ` set (elems_of A) = A"
proof -
  have "unat (of_nat n :: ULONG) = n" if "n \<in> A" for n
    using assms(2) that by (simp add: unat_of_nat)
  then show "map unat (elems_of A) = sorted_list_of_set A" using assms(1)
    by (auto simp: elems_of_def comp_def intro!: map_idI)
  then show "unat ` set (elems_of A) = A" using assms(1)
    by (metis list.set_map set_sorted_list_of_set)
qed

lemma unat_elems_bs:
  "bs_ok bs \<Longrightarrow> map unat (elems_of (bs_set bs)) = sorted_list_of_set (bs_set bs)"
  "bs_ok bs \<Longrightarrow> unat ` set (elems_of (bs_set bs)) = bs_set bs"
  using unat_elems_of [OF finite_bs_set] bs_set_bound by blast+

text \<open>A loop over an iterator ends, and is the loop over the positions in ascending order.\<close>

lemma bs_foreach_rem:
  assumes "bs_ok bs" and "iter_ok bs it" and "finite (iter_rem bs it)"
  shows "bs_foreach bs it body s = Some (foreach_list body (elems_of (iter_rem bs it)) s)"
  using assms(2,3)
proof (induction "card (iter_rem bs it)" arbitrary: it s rule: less_induct)
  case less
  from bs_iter_step [OF assms(1) less.prems(1)] show ?case
  proof (elim disjE conjE exE)
    fix it' assume "iter_rem bs it = {}" "bs_iter_Advance bs it = Inr (False, it')"
    then show ?thesis by (simp add: bs_foreach.simps)
  next
    fix it' p
    assume s: "bs_iter_Advance bs it = Inr (True, it')" "bs_iter_Bit bs it' = Inr p"
      "iter_ok bs it'" "unat p \<in> iter_rem bs it" "iter_rem bs it' = iter_rem bs it - {unat p}"
      "\<forall>n \<in> iter_rem bs it. unat p \<le> n"
    have "card (iter_rem bs it') < card (iter_rem bs it)"
      unfolding s(5) using less.prems(2) s(4) by (rule card_Diff1_less)
    then have "bs_foreach bs it' body s' = Some (foreach_list body (elems_of (iter_rem bs it')) s')" for s'
      using less.hyps [OF _ s(3)] less.prems(2) s(5) by auto
    then show ?thesis
      using s elems_of_least [OF less.prems(2) s(4,6)]
      by (auto simp: bs_foreach.simps [of bs it] split: sum.splits)
  qed
qed

lemma bs_foreach_correct:
  assumes "bs_ok bs"
  shows "bs_foreach bs CBitSetIter_ctor body s = Some (foreach_list body (elems_of (bs_set bs)) s)"
  using bs_foreach_rem [OF assms iter_ok_ctor(1)] finite_bs_set [OF assms] by simp

lemma bs_print_loop_correct:
  assumes "bs_ok bs" and "iter_ok bs it" and "finite (iter_rem bs it)" and "card (iter_rem bs it) = n"
  shows "bs_print_loop n bs it = Inr (elems_of (iter_rem bs it))"
  using assms(2-4)
proof (induction n arbitrary: it)
  case (Suc n)
  then have "iter_rem bs it \<noteq> {}" by auto
  then obtain it' p where s: "bs_iter_Advance bs it = Inr (True, it')" "bs_iter_Bit bs it' = Inr p"
    "iter_ok bs it'" "unat p \<in> iter_rem bs it" "iter_rem bs it' = iter_rem bs it - {unat p}"
    "\<forall>n \<in> iter_rem bs it. unat p \<le> n"
    using bs_iter_step [OF assms(1) Suc.prems(1)] by auto
  have "card (iter_rem bs it') = n" using s(4,5) Suc.prems(2,3) by simp
  then have "bs_print_loop n bs it' = Inr (elems_of (iter_rem bs it - {unat p}))"
    using Suc.IH [OF s(3)] Suc.prems(2) s(5) by simp
  with s show ?case using elems_of_least [OF Suc.prems(2) s(4,6)] by simp
qed simp

lemma bs_OsPrint_elems_correct:
  assumes "bs_ok bs" and "card (bs_set bs) < 4294967296"
  shows "bs_OsPrint_elems bs = Inr (elems_of (bs_set bs))"
  unfolding bs_OsPrint_elems_def unat_bs_size [OF assms]
  using bs_print_loop_correct [OF assms(1) iter_ok_ctor(1)] finite_bs_set [OF assms(1)] by simp

section \<open>The interface of a set of positions\<close>

text \<open>
  What the clients of the bit set rely on: a test, an insertion and a removal that never fail
  on a valid set and that mean what they mean on sets. The loops over arrays of positions are
  verified once, from the laws.
\<close>

locale ulong_set =
  fixes inv :: "'s \<Rightarrow> bool" and set_of :: "'s \<Rightarrow> nat set"
    and get :: "'s \<Rightarrow> ULONG \<Rightarrow> bool result"
    and ins :: "'s \<Rightarrow> ULONG \<Rightarrow> (bool \<times> 's) result"
    and del :: "'s \<Rightarrow> ULONG \<Rightarrow> (bool \<times> 's) result"
  assumes get_law: "inv s \<Longrightarrow> get s p = Inr (unat p \<in> set_of s)"
    and ins_law: "inv s \<Longrightarrow>
      \<exists>s'. ins s p = Inr (unat p \<in> set_of s, s') \<and> inv s' \<and> set_of s' = insert (unat p) (set_of s)"
    and del_law: "inv s \<Longrightarrow>
      \<exists>s'. del s p = Inr (unat p \<in> set_of s, s') \<and> inv s' \<and> set_of s' = set_of s - {unat p}"
begin

definition ins_body :: "ULONG \<Rightarrow> 's \<Rightarrow> (bool \<times> 's) result" where
  "ins_body p s = rbind (ins s p) (\<lambda>(_, s'). Inr (True, s'))"

definition del_body :: "ULONG \<Rightarrow> 's \<Rightarrow> (bool \<times> 's) result" where
  "del_body p s = rbind (del s p) (\<lambda>(_, s'). Inr (True, s'))"

lemma insert_all:
  "inv s \<Longrightarrow> \<exists>s'. foreach_list ins_body ps s = Inr s' \<and> inv s' \<and> set_of s' = set_of s \<union> unat ` set ps"
proof (induction ps arbitrary: s)
  case (Cons p ps)
  from ins_law [OF Cons.prems, of p] obtain s1 where
    "ins s p = Inr (unat p \<in> set_of s, s1)" "inv s1" "set_of s1 = insert (unat p) (set_of s)" by blast
  with Cons.IH [OF \<open>inv s1\<close>] show ?case by (auto simp: ins_body_def)
qed simp

lemma delete_all:
  "inv s \<Longrightarrow> \<exists>s'. foreach_list del_body ps s = Inr s' \<and> inv s' \<and> set_of s' = set_of s - unat ` set ps"
proof (induction ps arbitrary: s)
  case (Cons p ps)
  from del_law [OF Cons.prems, of p] obtain s1 where
    "del s p = Inr (unat p \<in> set_of s, s1)" "inv s1" "set_of s1 = set_of s - {unat p}" by blast
  with Cons.IH [OF \<open>inv s1\<close>] show ?case by (auto simp: del_body_def)
qed simp

lemma replace_one:
  assumes "inv s"
  shows "\<exists>s'. rbind (get s p) (\<lambda>m. if m then rbind (del s p) (\<lambda>(_, s1). rbind (ins s1 q) (\<lambda>(_, s2). Inr s2))
      else Inr s) = Inr s' \<and> inv s' \<and>
    set_of s' = (if unat p \<in> set_of s then insert (unat q) (set_of s - {unat p}) else set_of s)"
proof -
  from del_law [OF assms, of p] obtain s1 where
    s1: "del s p = Inr (unat p \<in> set_of s, s1)" "inv s1" "set_of s1 = set_of s - {unat p}" by blast
  from ins_law [OF s1(2), of q] obtain s2 where
    "ins s1 q = Inr (unat q \<in> set_of s1, s2)" "inv s2" "set_of s2 = insert (unat q) (set_of s1)" by blast
  with s1 assms show ?thesis by (simp add: get_law)
qed

end

text \<open>The bit set provides the interface, for the sets of one vector size with no empty link.\<close>

definition bs_inv :: "ULONG \<Rightarrow> CBitSet \<Rightarrow> bool" where
  "bs_inv vector_size bs \<longleftrightarrow> bs_ok bs \<and> bs_tight bs \<and> bs_vector_size bs = vector_size"

interpretation bset: ulong_set "bs_inv vector_size" bs_set bs_Get bs_ExchangeSet bs_ExchangeClear
  for vector_size
proof
  fix s p assume inv: "bs_inv vector_size s"
  then have ok: "bs_ok s" by (simp add: bs_inv_def)
  show "bs_Get s p = Inr (unat p \<in> bs_set s)" using ok by (rule bs_Get_correct)
  show "\<exists>s'. bs_ExchangeSet s p = Inr (unat p \<in> bs_set s, s') \<and> bs_inv vector_size s' \<and>
      bs_set s' = insert (unat p) (bs_set s)"
    by (rule bs_ExchangeSet_correct [OF ok, of p]) (use inv in \<open>auto simp: bs_inv_def\<close>)
  show "\<exists>s'. bs_ExchangeClear s p = Inr (unat p \<in> bs_set s, s') \<and> bs_inv vector_size s' \<and>
      bs_set s' = bs_set s - {unat p}"
    by (rule bs_ExchangeClear_correct [OF ok, of p]) (use inv in \<open>auto simp: bs_inv_def\<close>)
qed

section \<open>Difference\<close>

lemma bs_clear_all:
  assumes "bs_ok bs"
  shows "\<exists>bs'. foreach_list bs_clear_body ps bs = Inr bs' \<and> bs_ok bs' \<and> bs_set bs' = bs_set bs - unat ` set ps \<and>
    bs_vector_size bs' = bs_vector_size bs \<and> (bs_tight bs \<longrightarrow> bs_tight bs')"
  using assms
proof (induction ps arbitrary: bs)
  case (Cons p ps)
  obtain b where b: "bs_ExchangeClear bs p = Inr (unat p \<in> bs_set bs, b)" "bs_ok b"
    "bs_set b = bs_set bs - {unat p}" "bs_vector_size b = bs_vector_size bs" "bs_tight bs \<Longrightarrow> bs_tight b"
    using bs_ExchangeClear_correct [OF Cons.prems] by blast
  with Cons.IH [OF b(2)] show ?case by (auto simp: bs_clear_body_def)
qed simp

lemma bs_Difference_correct:
  assumes "bs_compatible bs other"
  obtains bs' where "bs_Difference bs other = Some (Inr bs')" and "bs_ok bs'"
    and "bs_set bs' = bs_set bs - bs_set other" and "bs_vector_size bs' = bs_vector_size bs"
    and "bs_tight bs \<Longrightarrow> bs_tight bs'"
proof (cases "bs_set bs \<inter> bs_set other = {}")
  case True
  then show ?thesis
    using that [of bs] bs_compatibleD(1) [OF assms]
    by (auto simp: bs_Difference_def bs_IsDisjoint_correct [OF assms])
next
  case False
  note ok = bs_compatibleD [OF assms]
  from bs_clear_all [OF ok(1), of "elems_of (bs_set other)"] False show ?thesis
    using that unat_elems_bs(2) [OF ok(2)]
    by (auto simp: bs_Difference_def bs_IsDisjoint_correct [OF assms] bs_foreach_correct [OF ok(2)])
qed

section \<open>Properties\<close>

text \<open>A set built by inserting positions one by one, for the concrete instances below.\<close>

definition bs_sample :: "ULONG list \<Rightarrow> CBitSet" where
  "bs_sample ids =
     (case foreach_list (\<lambda>p s. rbind (bs_ExchangeSet s p) (\<lambda>(_, s'). Inr (True, s'))) ids
             (CBitSet_ctor 256) of
        Inr s \<Rightarrow> s | Inl _ \<Rightarrow> CBitSet_ctor 256)"

lemma bs_inv_ctor: "vector_size \<noteq> 0 \<Longrightarrow> bs_inv vector_size (CBitSet_ctor vector_size)"
  by (simp add: bs_inv_def bs_ok_ctor bs_tight_ctor) (simp add: CBitSet_ctor_def)

lemma bs_sample_ok: "bs_inv 256 (bs_sample ids)" "bs_set (bs_sample ids) = unat ` set ids"
proof -
  have "(\<lambda>p s. rbind (bs_ExchangeSet s p) (\<lambda>(_, s'). Inr (True, s'))) = bset.ins_body"
    by (simp add: fun_eq_iff bset.ins_body_def)
  moreover obtain s where "foreach_list bset.ins_body ids (CBitSet_ctor 256) = Inr s" "bs_inv 256 s"
    "bs_set s = unat ` set ids"
    using bset.insert_all [OF bs_inv_ctor, of 256 ids] by auto
  ultimately show "bs_inv 256 (bs_sample ids)" "bs_set (bs_sample ids) = unat ` set ids"
    by (simp_all add: bs_sample_def)
qed

lemma bs_sample_compatible: "bs_compatible (bs_sample ids) (bs_sample ids')"
  using bs_sample_ok(1) [of ids] bs_sample_ok(1) [of ids'] by (simp add: bs_compatible_def bs_inv_def)

lemma bs_sample_facts: "bs_ok (bs_sample ids)" "bs_tight (bs_sample ids)"
  using bs_sample_ok(1) [of ids] by (simp_all add: bs_inv_def)

text \<open>
  \<^verbatim>\<open>FindLinkByOffset\<close> started from any cursor that its assertion admits returns the link
  that the search from the head of the sorted list returns, so the one-sweep loops of the set
  operations see every link.
\<close>

theorem bs_find_from_cursor:
  assumes "links_sorted links" and "i < length links" and "fst (links ! i) \<le> offset"
  shows "bs_FindLinkByOffset links offset (Some i) = bs_FindLinkByOffset links offset None"
  using assms by (simp add: find_link_simps cursor_ok_def)

theorem bs_find_from_cursor_witness:
  "bs_FindLinkByOffset (map (\<lambda>k. (k, CBitVector_ctor 256)) [0, 512, 1024]) 768 (Some 0) =
   bs_FindLinkByOffset (map (\<lambda>k. (k, CBitVector_ctor 256)) [0, 512, 1024]) 768 None"
  using bs_find_from_cursor [of "map (\<lambda>k. (k, CBitVector_ctor 256)) [0, 512, 1024]" 0 768] by simp



text \<open>
  C15: \<^verbatim>\<open>Union\<close>, in its three sweeps over the links, never fails an assertion on two valid
  sets of the same vector size; the result is valid, holds the union and the right element
  count, and has no empty link when the arguments have none.
\<close>

theorem bs_Union_refines_union:
  assumes "bs_compatible bs other"
  shows "\<exists>bs'. bs_Union bs other = Inr bs' \<and> bs_ok bs' \<and> bs_set bs' = bs_set bs \<union> bs_set other \<and>
    bs_size bs' = of_nat (card (bs_set bs \<union> bs_set other)) \<and>
    (bs_tight bs \<and> bs_tight other \<longrightarrow> bs_tight bs')"
proof -
  obtain bs' where "bs_Union bs other = Inr bs'" "bs_ok bs'" "bs_set bs' = bs_set bs \<union> bs_set other"
    "bs_tight bs \<Longrightarrow> bs_tight other \<Longrightarrow> bs_tight bs'"
    using bs_Union_correct [OF assms] by blast
  then show ?thesis using bs_okD(4) [of bs'] by auto
qed

theorem bs_Union_refines_union_witness:
  "\<exists>bs'. bs_Union (bs_sample [1, 300]) (bs_sample [2, 300, 9000]) = Inr bs' \<and>
     bs_set bs' = {1, 2, 300, 9000}"
  using bs_Union_refines_union [OF bs_sample_compatible [of "[1, 300]" "[2, 300, 9000]"]]
  by (auto simp: bs_sample_ok(2) insert_commute)

text \<open>
  C28: \<^verbatim>\<open>Intersection\<close> and \<^verbatim>\<open>Difference\<close> on valid sets of the same vector size never
  fail, the iterator loop of \<^verbatim>\<open>Difference\<close> ends, and the results are valid and hold the
  intersection and the difference; only \<^verbatim>\<open>Difference\<close> also keeps the absence of empty links.
\<close>

theorem bs_Intersection_Difference_refine:
  assumes "bs_compatible bs other"
  shows "(\<exists>r. bs_Intersection bs (Some other) = Inr r \<and> bs_ok r \<and> bs_set r = bs_set bs \<inter> bs_set other) \<and>
    (\<exists>d. bs_Difference bs other = Some (Inr d) \<and> bs_ok d \<and> bs_set d = bs_set bs - bs_set other \<and>
       (bs_tight bs \<longrightarrow> bs_tight d))"
proof
  show "\<exists>r. bs_Intersection bs (Some other) = Inr r \<and> bs_ok r \<and> bs_set r = bs_set bs \<inter> bs_set other"
    using bs_Intersection_correct [OF assms] by metis
  show "\<exists>d. bs_Difference bs other = Some (Inr d) \<and> bs_ok d \<and> bs_set d = bs_set bs - bs_set other \<and>
      (bs_tight bs \<longrightarrow> bs_tight d)"
    using bs_Difference_correct [OF assms] by metis
qed

theorem bs_Intersection_Difference_refine_witness:
  "\<exists>d. bs_Difference (bs_sample [1, 300]) (bs_sample [300, 5]) = Some (Inr d) \<and> bs_set d = {1}"
  using bs_Intersection_Difference_refine [OF bs_sample_compatible [of "[1, 300]" "[300, 5]"]]
  by (auto simp: bs_sample_ok(2))

text \<open>
  C40: \<^verbatim>\<open>ContainsAll\<close>, \<^verbatim>\<open>IsDisjoint\<close> and \<^verbatim>\<open>Equals\<close> decide inclusion,
  disjointness and equality of the sets, provided no link is empty (and the containing set is
  not the full 32-bit range, whose element count wraps to zero).
\<close>

theorem bs_comparisons_decide:
  assumes "bs_compatible this bs" and "bs_tight this" and "bs_tight bs" and "card (bs_set this) < 4294967296"
  shows "bs_ContainsAll this bs = Inr (bs_set bs \<subseteq> bs_set this) \<and>
    bs_IsDisjoint this bs = Inr (bs_set this \<inter> bs_set bs = {}) \<and>
    bs_Equals False this bs = Inr (bs_set this = bs_set bs)"
  using bs_ContainsAll_correct [OF assms(1,3,4)] bs_IsDisjoint_correct [OF assms(1)]
    bs_Equals_correct [OF assms(1-3), of False] by simp

theorem bs_comparisons_decide_witness:
  "bs_ContainsAll (bs_sample [1, 300, 7]) (bs_sample [7, 1]) = Inr True \<and>
   bs_Equals False (bs_sample [1, 300]) (bs_sample [300, 1]) = Inr True"
proof -
  have card: "card (bs_set (bs_sample ids)) < 4294967296" if "length ids < 10" for ids
    using card_image_le [of "set ids" unat] card_length [of ids] that by (simp add: bs_sample_ok(2))
  show ?thesis
    using bs_comparisons_decide [OF bs_sample_compatible bs_sample_facts(2,2) card, of "[1, 300, 7]" "[7, 1]"]
      bs_comparisons_decide [OF bs_sample_compatible bs_sample_facts(2,2) card, of "[1, 300]" "[300, 1]"]
    by (simp add: bs_sample_ok(2) insert_commute)
qed

text \<open>
  C30: the comparisons are wrong after an \<^verbatim>\<open>Intersection\<close>, which keeps a link whose vector became
  empty. For all valid sets of one vector size that have no common element, but have elements in the
  range of one bit vector, the intersection has no element and the element count 0, yet \<^verbatim>\<open>Equals\<close>
  finds it different from a fresh empty set, in both directions, and the empty set does not contain it
  according to \<^verbatim>\<open>ContainsAll\<close>.
\<close>

lemma bs_set_link:
  assumes "bs_ok bs" and "n \<in> bs_set bs"
  obtains off where "off \<in> fst ` set (bs_links bs)"
    and "unat off = unat (bs_vector_size bs) * (n div unat (bs_vector_size bs))"
proof -
  let ?vs = "unat (bs_vector_size bs)"
  obtain off v m where m: "map_of (bs_links bs) off = Some v" "bv_bit v m" "n = unat off + m"
    using assms(2) unfolding bs_set_def links_set_def by (auto simp: bv_set_def)
  have ok: "link_ok (bs_vector_size bs) off v"
    using assms(1) m(1) unfolding bs_ok_def by (blast intro: links_ok_linkD)
  then have "m < ?vs" using m(2) by (auto simp: link_ok_def bv_ok_def bv_set_def)
  moreover from ok obtain k where "unat off = ?vs * k" unfolding link_ok_def by blast
  ultimately have "unat off = ?vs * (n div ?vs)" using m(3) by simp
  with m(1) show ?thesis by (force intro: that dest: map_of_SomeD)
qed

theorem bs_Intersection_breaks_Equals:
  assumes "bs_compatible bs other" and "bs_set bs \<inter> bs_set other = {}"
    and "p \<in> bs_set bs" and "q \<in> bs_set other"
    and "p div unat (bs_vector_size bs) = q div unat (bs_vector_size bs)"
  shows "\<exists>r. bs_Intersection bs (Some other) = Inr r \<and> bs_set r = {} \<and>
    bs_size r = bs_size (CBitSet_ctor (bs_vector_size bs)) \<and>
    bs_Equals False r (CBitSet_ctor (bs_vector_size bs)) = Inr False \<and>
    bs_Equals False (CBitSet_ctor (bs_vector_size bs)) r = Inr False \<and>
    bs_ContainsAll (CBitSet_ctor (bs_vector_size bs)) r = Inr False"
proof -
  have vs: "bs_vector_size other = bs_vector_size bs" using assms(1) by (simp add: bs_compatible_def)
  obtain r where r: "bs_Intersection bs (Some other) = Inr r" "bs_ok r" "bs_set r = bs_set bs \<inter> bs_set other"
    "fst ` set (bs_links r) = fst ` set (bs_links bs) \<inter> fst ` set (bs_links other)"
    by (rule bs_Intersection_correct [OF assms(1)])
  obtain off off' where off: "off \<in> fst ` set (bs_links bs)" "off' \<in> fst ` set (bs_links other)"
    "unat off = unat off'"
    using bs_set_link [OF bs_compatibleD(1) [OF assms(1)] assms(3)]
      bs_set_link [OF bs_compatibleD(2) [OF assms(1)] assms(4)] assms(5) unfolding vs by metis
  then have "off \<in> fst ` set (bs_links r)" using r(4) word_unat_eq_iff [of off off'] by simp
  then obtain l ls where ls: "bs_links r = l # ls" by (cases "bs_links r") auto
  have size: "bs_size r = 0" using r(2,3) assms(2) by (simp add: bs_ok_def)
  show ?thesis
    using r(1,3) assms(2) size ls
    by (simp add: bs_Equals_def bs_ContainsAll_def CBitSet_ctor_def bs_FindLinkByOffset_def bs_hit_def)
qed

theorem bs_Intersection_breaks_Equals_witness:
  "\<exists>r. bs_Intersection (bs_sample [1, 2]) (Some (bs_sample [3])) = Inr r \<and> bs_set r = {} \<and>
     bs_Equals False r (CBitSet_ctor 256) = Inr False \<and> bs_ContainsAll (CBitSet_ctor 256) r = Inr False"
proof -
  have "bs_vector_size (bs_sample [1, 2]) = 256" using bs_sample_ok(1) [of "[1, 2]"] by (simp add: bs_inv_def)
  then show ?thesis
    using bs_Intersection_breaks_Equals [OF bs_sample_compatible, of "[1, 2]" "[3]" 1 3]
    by (auto simp: bs_sample_ok(2))
qed

text \<open>
  a loop over \<^verbatim>\<open>CBitSetIter\<close> ends for every loop body and every valid set, and runs
  the body on exactly the members of the set, each once and in ascending order; in particular
  \<^verbatim>\<open>OsPrint\<close> prints them so.
\<close>

theorem bs_iteration_ascending:
  assumes "bs_ok bs" and "card (bs_set bs) < 4294967296"
  shows "\<exists>ps. map unat ps = sorted_list_of_set (bs_set bs) \<and> bs_OsPrint_elems bs = Inr ps \<and>
    (\<forall>body s. bs_foreach bs CBitSetIter_ctor body s = Some (foreach_list body ps (s :: 'a)))"
  using bs_foreach_correct [OF assms(1)] unat_elems_bs(1) [OF assms(1)] bs_OsPrint_elems_correct [OF assms]
  by blast

theorem bs_iteration_ascending_witness:
  "\<exists>ps. map unat ps = [2, 5, 900] \<and> bs_OsPrint_elems (bs_sample [900, 2, 5]) = Inr ps \<and>
    (\<forall>body s. bs_foreach (bs_sample [900, 2, 5]) CBitSetIter_ctor body s =
       Some (foreach_list body ps (s :: ULONG list)))"
proof -
  have "bs_set (bs_sample [900, 2, 5]) = {2, 5, 900}" by (auto simp: bs_sample_ok(2))
  then show ?thesis
    using bs_iteration_ascending [OF bs_sample_facts(1) [of "[900, 2, 5]"]] by simp
qed

end
