(* ===== verification/ColRefSet.thy ===== *)
theory ColRefSet
  imports BitSet
begin

text \<open>
  \<^verbatim>\<open>libgpopt/src/base/CColRefSet.cpp\<close>: the optimizer's sets of column references. A column
  set is a bit set over column ids; a column reference is modelled by its id, as the column factory
  returns for an id the one column that carries it. The functions are clients of the interface
  \<open>ulong_set\<close> that the bit set provides.
\<close>

section \<open>Definitions\<close>

type_synonym CColRefSet = CBitSet

definition crs_FMember :: "CColRefSet \<Rightarrow> ULONG \<Rightarrow> bool result" where
  "crs_FMember crs colref = bs_Get crs colref"

definition crs_PcrFirst :: "CColRefSet \<Rightarrow> ULONG option result" where
  "crs_PcrFirst crs =
     rbind (bs_iter_Advance crs CBitSetIter_ctor) (\<lambda>(active, it).
       if active then rbind (bs_iter_Bit crs it) (\<lambda>p. Inr (Some p))
       else gpos_assert (bs_size crs = 0) (Inr None))"

definition crs_Include :: "CColRefSet \<Rightarrow> ULONG \<Rightarrow> CColRefSet result" where
  "crs_Include crs colref = rbind (bs_ExchangeSet crs colref) (\<lambda>(_, crs'). Inr crs')"




definition crs_Exclude :: "CColRefSet \<Rightarrow> ULONG \<Rightarrow> CColRefSet result" where
  "crs_Exclude crs colref = rbind (bs_ExchangeClear crs colref) (\<lambda>(_, crs'). Inr crs')"



definition crs_Replace :: "CColRefSet \<Rightarrow> ULONG \<Rightarrow> ULONG \<Rightarrow> CColRefSet result" where
  "crs_Replace crs pcrOut pcrIn =
     rbind (crs_FMember crs pcrOut) (\<lambda>m.
       if m then rbind (crs_Exclude crs pcrOut) (\<lambda>crs'. crs_Include crs' pcrIn) else Inr crs)"

fun crs_replace_loop :: "CColRefSet \<Rightarrow> (ULONG \<times> ULONG) list \<Rightarrow> CColRefSet result" where
  "crs_replace_loop crs [] = Inr crs"
| "crs_replace_loop crs ((pcrOut, pcrIn) # cs) =
     rbind (crs_Replace crs pcrOut pcrIn) (\<lambda>crs'. crs_replace_loop crs' cs)"

definition crs_Replace_array :: "CColRefSet \<Rightarrow> ULONG list \<Rightarrow> ULONG list \<Rightarrow> CColRefSet result" where
  "crs_Replace_array crs pdrgpcrOut pdrgpcrIn =
     gpos_assert (length pdrgpcrOut = length pdrgpcrIn) (crs_replace_loop crs (zip pdrgpcrOut pdrgpcrIn))"

definition crs_Pdrgpcr :: "CColRefSet \<Rightarrow> ULONG list result option" where
  "crs_Pdrgpcr crs = bs_foreach crs CBitSetIter_ctor (\<lambda>p cs. Inr (True, cs @ [p])) []"

definition crs_ExtractColIds :: "CColRefSet \<Rightarrow> ULONG list \<Rightarrow> ULONG list result option" where
  "crs_ExtractColIds crs colids = bs_foreach crs CBitSetIter_ctor (\<lambda>p cs. Inr (True, cs @ [p])) colids"

fun crs_FContained :: "CColRefSet \<Rightarrow> CColRefSet list \<Rightarrow> bool result" where
  "crs_FContained crs [] = Inr False"
| "crs_FContained crs (s # ss) =
     rbind (bs_ContainsAll s crs) (\<lambda>c. if c then Inr True else crs_FContained crs ss)"

definition crs_FIntersects :: "CColRefSet \<Rightarrow> CColRefSet \<Rightarrow> bool result" where
  "crs_FIntersects crs pcrs =
     rbind (CBitSet_copy crs) (\<lambda>copy.
       rbind (bs_Intersection copy (Some pcrs)) (\<lambda>inter. Inr (bs_size inter > 0)))"

fun crs_found_loop :: "CColRefSet list \<Rightarrow> ULONG \<Rightarrow> bool result" where
  "crs_found_loop [] colref = Inr False"
| "crs_found_loop (s # ss) colref =
     rbind (crs_FMember s colref) (\<lambda>m. if m then Inr True else crs_found_loop ss colref)"

definition crs_FCovered :: "CColRefSet list \<Rightarrow> CColRefSet \<Rightarrow> bool result option" where
  "crs_FCovered pdrgpcrs pcrs =
     (if pdrgpcrs = [] then Some (Inl AssertFailed)
      else if bs_size pcrs = 0 then Some (Inr False)
      else bs_foreach pcrs CBitSetIter_ctor
             (\<lambda>colref _. rbind (crs_found_loop pdrgpcrs colref) (\<lambda>fFound. Inr (fFound, fFound))) True)"

section \<open>Correctness\<close>

abbreviation crs_inv :: "ULONG \<Rightarrow> CColRefSet \<Rightarrow> bool" where
  "crs_inv \<equiv> bs_inv"

lemma crs_invD: "crs_inv vs crs \<Longrightarrow> bs_ok crs" "crs_inv vs crs \<Longrightarrow> bs_tight crs"
  "crs_inv vs crs \<Longrightarrow> bs_vector_size crs = vs"
  by (simp_all add: bs_inv_def)





lemma foreach_append:
  "foreach_list (\<lambda>p cs. Inr (True, cs @ [p])) ps cs = Inr (cs @ ps)"
  by (induction ps arbitrary: cs) simp_all

lemma crs_Replace_correct:
  assumes "crs_inv vs crs"
  shows "\<exists>crs'. crs_Replace crs p q = Inr crs' \<and> crs_inv vs crs' \<and>
    bs_set crs' = (if unat p \<in> bs_set crs then insert (unat q) (bs_set crs - {unat p}) else bs_set crs)"
proof -
  have "crs_Replace crs p q = rbind (bs_Get crs p) (\<lambda>m.
      if m then rbind (bs_ExchangeClear crs p) (\<lambda>(_, s1). rbind (bs_ExchangeSet s1 q) (\<lambda>(_, s2). Inr s2))
      else Inr crs)"
    by (auto simp: crs_Replace_def crs_FMember_def crs_Exclude_def crs_Include_def rbind_assoc
        intro!: rbind_cong)
  then show ?thesis using bset.replace_one [OF assms, of p q] by simp
qed

text \<open>The meaning of a simultaneous replacement, one pair after the other.\<close>

fun replace_all :: "nat set \<Rightarrow> (ULONG \<times> ULONG) list \<Rightarrow> nat set" where
  "replace_all A [] = A"
| "replace_all A ((p, q) # cs) =
     replace_all (if unat p \<in> A then insert (unat q) (A - {unat p}) else A) cs"

lemma crs_replace_loop_correct:
  "crs_inv vs crs \<Longrightarrow> \<exists>crs'. crs_replace_loop crs cs = Inr crs' \<and> crs_inv vs crs' \<and>
     bs_set crs' = replace_all (bs_set crs) cs"
proof (induction cs arbitrary: crs)
  case (Cons c cs)
  obtain p q where c: "c = (p, q)" by (cases c)
  obtain crs1 where crs1: "crs_Replace crs p q = Inr crs1" "crs_inv vs crs1"
    "bs_set crs1 = (if unat p \<in> bs_set crs then insert (unat q) (bs_set crs - {unat p}) else bs_set crs)"
    using crs_Replace_correct [OF Cons.prems] by blast
  from Cons.IH [OF crs1(2)] show ?case using crs1(1,3) by (simp add: c)
qed simp

lemma crs_found_loop_correct:
  "\<forall>s \<in> set ss. bs_ok s \<Longrightarrow> crs_found_loop ss c = Inr (\<exists>s \<in> set ss. unat c \<in> bs_set s)"
  by (induction ss) (auto simp: crs_FMember_def bs_Get_correct)

lemma foreach_covered:
  "\<forall>s \<in> set ss. bs_ok s \<Longrightarrow>
   foreach_list (\<lambda>c _. rbind (crs_found_loop ss c) (\<lambda>f. Inr (f, f))) ps True =
     Inr (\<forall>p \<in> set ps. \<exists>s \<in> set ss. unat p \<in> bs_set s)"
  by (induction ps) (auto simp: crs_found_loop_correct)

lemma crs_FContained_correct:
  assumes "crs_inv vs crs" and "\<forall>s \<in> set ss. bs_ok s \<and> bs_vector_size s = vs \<and> card (bs_set s) < 4294967296"
  shows "crs_FContained crs ss = Inr (\<exists>s \<in> set ss. bs_set crs \<subseteq> bs_set s)"
  using assms(2)
proof (induction ss)
  case (Cons s ss)
  have "bs_ContainsAll s crs = Inr (bs_set crs \<subseteq> bs_set s)"
    using Cons.prems crs_invD [OF assms(1)] by (intro bs_ContainsAll_correct) (auto simp: bs_compatible_def)
  with Cons show ?case by simp
qed simp

lemma bs_size_zero_iff:
  "bs_ok bs \<Longrightarrow> card (bs_set bs) < 4294967296 \<Longrightarrow> bs_size bs = 0 \<longleftrightarrow> bs_set bs = {}"
  using unat_bs_size [of bs] finite_bs_set [of bs] by (metis card_eq_0_iff unat_eq_zero)

lemma crs_FIntersects_correct:
  assumes c: "bs_compatible crs pcrs" and card: "card (bs_set crs) < 4294967296"
  shows "crs_FIntersects crs pcrs = Inr (bs_set crs \<inter> bs_set pcrs \<noteq> {})"
proof -
  note ok = bs_compatibleD [OF c]
  obtain copy where copy: "CBitSet_copy crs = Inr copy" "bs_ok copy" "bs_set copy = bs_set crs"
    "bs_vector_size copy = bs_vector_size crs"
    using CBitSet_copy_correct [OF ok(1)] by blast
  have "bs_compatible copy pcrs" using copy c by (simp add: bs_compatible_def)
  then obtain r where r: "bs_Intersection copy (Some pcrs) = Inr r" "bs_ok r"
    "bs_set r = bs_set copy \<inter> bs_set pcrs"
    using bs_Intersection_correct by metis
  have "card (bs_set r) < 4294967296"
    using card card_mono [OF finite_bs_set [OF ok(1)], of "bs_set r"] r(3) copy(3) by auto
  then show ?thesis
    using bs_size_zero_iff [OF r(2)] copy r by (simp add: crs_FIntersects_def word_neq_0_conv [symmetric])
qed

lemma crs_FCovered_correct:
  assumes "bs_ok crs" and "card (bs_set crs) < 4294967296" and "ss \<noteq> []" and "\<forall>s \<in> set ss. bs_ok s"
  shows "crs_FCovered ss crs = Some (Inr (bs_set crs \<noteq> {} \<and> bs_set crs \<subseteq> (\<Union>s \<in> set ss. bs_set s)))"
proof -
  have "(\<forall>p \<in> set (elems_of (bs_set crs)). \<exists>s \<in> set ss. unat p \<in> bs_set s) \<longleftrightarrow>
      unat ` set (elems_of (bs_set crs)) \<subseteq> (\<Union>s \<in> set ss. bs_set s)" by auto
  then show ?thesis
    using assms(3) bs_size_zero_iff [OF assms(1,2)]
    by (simp add: crs_FCovered_def bs_foreach_correct [OF assms(1)] foreach_covered [OF assms(4)]
        unat_elems_bs(2) [OF assms(1)])
qed

lemma crs_PcrFirst_correct:
  assumes "bs_ok crs"
  shows "crs_PcrFirst crs = Inr (if bs_set crs = {} then None else Some (of_nat (Min (bs_set crs))))"
proof -
  have sz: "bs_size crs = 0" if "bs_set crs = {}" using bs_okD(4) [OF assms] that by simp
  from bs_iter_step [OF assms iter_ok_ctor(1)] show ?thesis
  proof (elim disjE conjE exE)
    fix it' assume "iter_rem crs CBitSetIter_ctor = {}" "bs_iter_Advance crs CBitSetIter_ctor = Inr (False, it')"
    then show ?thesis using sz by (simp add: crs_PcrFirst_def)
  next
    fix it' p
    assume s: "bs_iter_Advance crs CBitSetIter_ctor = Inr (True, it')" "bs_iter_Bit crs it' = Inr p"
      "unat p \<in> iter_rem crs CBitSetIter_ctor" "\<forall>n \<in> iter_rem crs CBitSetIter_ctor. unat p \<le> n"
    then have "Min (bs_set crs) = unat p" using finite_bs_set [OF assms] by (intro Min_eqI) auto
    then show ?thesis using s by (auto simp: crs_PcrFirst_def)
  qed
qed

section \<open>Properties\<close>



text \<open>
  \<^verbatim>\<open>Replace\<close> on arrays of the same length never fails and replaces pair after pair,
  a column being inserted only where the one it stands for was a member; arrays of different
  lengths are rejected.
\<close>

theorem crs_Replace_array_refine:
  assumes "crs_inv vs crs"
  shows "(length outs = length ins \<longrightarrow>
      (\<exists>r. crs_Replace_array crs outs ins = Inr r \<and> crs_inv vs r \<and>
         bs_set r = replace_all (bs_set crs) (zip outs ins))) \<and>
    (length outs \<noteq> length ins \<longrightarrow> crs_Replace_array crs outs ins = Inl AssertFailed)"
  using crs_replace_loop_correct [OF assms, of "zip outs ins"] by (simp add: crs_Replace_array_def)

theorem crs_Replace_array_refine_witness:
  "\<exists>r. crs_Replace_array (bs_sample [1, 2]) [1, 3] [5, 6] = Inr r \<and> bs_set r = {5, 2}"
  using crs_Replace_array_refine [OF bs_sample_ok(1) [of "[1, 2]"], of "[1, 3]" "[5, 6]"]
  by (auto simp: bs_sample_ok(2))

text \<open>
  the queries on column sets. \<^verbatim>\<open>FContained\<close> decides whether some set of the array
  contains the set, \<^verbatim>\<open>FIntersects\<close> whether two sets have a common column,
  \<^verbatim>\<open>FCovered\<close> whether a non-empty set is covered by the union of an array of sets (the
  empty set is reported as not covered), \<^verbatim>\<open>Pdrgpcr\<close> lists the columns in ascending
  order and \<^verbatim>\<open>PcrFirst\<close> returns the least one. Every loop ends.
\<close>

theorem crs_queries_refine:
  assumes crs: "crs_inv vs crs" "card (bs_set crs) < 4294967296"
    and ss: "ss \<noteq> []" "\<forall>s \<in> set ss. bs_ok s \<and> bs_vector_size s = vs \<and> card (bs_set s) < 4294967296"
  shows "crs_FContained crs ss = Inr (\<exists>s \<in> set ss. bs_set crs \<subseteq> bs_set s) \<and>
    crs_FIntersects crs (hd ss) = Inr (bs_set crs \<inter> bs_set (hd ss) \<noteq> {}) \<and>
    crs_FCovered ss crs = Some (Inr (bs_set crs \<noteq> {} \<and> bs_set crs \<subseteq> (\<Union>s \<in> set ss. bs_set s))) \<and>
    (\<exists>cs. crs_Pdrgpcr crs = Some (Inr cs) \<and> map unat cs = sorted_list_of_set (bs_set crs)) \<and>
    crs_PcrFirst crs = Inr (if bs_set crs = {} then None else Some (of_nat (Min (bs_set crs))))"
proof (intro conjI)
  note ok = crs_invD [OF crs(1)]
  show "crs_FContained crs ss = Inr (\<exists>s \<in> set ss. bs_set crs \<subseteq> bs_set s)"
    by (rule crs_FContained_correct [OF crs(1) ss(2)])
  have "bs_compatible crs (hd ss)" using ok ss by (cases ss) (auto simp: bs_compatible_def)
  then show "crs_FIntersects crs (hd ss) = Inr (bs_set crs \<inter> bs_set (hd ss) \<noteq> {})"
    using crs(2) by (rule crs_FIntersects_correct)
  show "crs_FCovered ss crs = Some (Inr (bs_set crs \<noteq> {} \<and> bs_set crs \<subseteq> (\<Union>s \<in> set ss. bs_set s)))"
    using ss by (intro crs_FCovered_correct [OF ok(1) crs(2)]) auto
  show "\<exists>cs. crs_Pdrgpcr crs = Some (Inr cs) \<and> map unat cs = sorted_list_of_set (bs_set crs)"
    by (simp add: crs_Pdrgpcr_def bs_foreach_correct [OF ok(1)] foreach_append unat_elems_bs(1) [OF ok(1)])
  show "crs_PcrFirst crs = Inr (if bs_set crs = {} then None else Some (of_nat (Min (bs_set crs))))"
    by (rule crs_PcrFirst_correct [OF ok(1)])
qed

theorem crs_queries_refine_witness:
  "crs_FCovered [bs_sample [1, 300], bs_sample [2]] (bs_sample [2, 300]) = Some (Inr True) \<and>
   crs_FIntersects (bs_sample [2, 300]) (bs_sample [1, 300]) = Inr True"
proof -
  have card: "card (bs_set (bs_sample ids)) < 4294967296" if "length ids < 10" for ids
    using card_image_le [of "set ids" unat] card_length [of ids] that by (simp add: bs_sample_ok(2))
  show ?thesis
    using crs_queries_refine [OF bs_sample_ok(1) card, of "[2, 300]" "[bs_sample [1, 300], bs_sample [2]]"]
      card [of "[1, 300]"] card [of "[2]"] bs_sample_ok(1) [of "[1, 300]"] bs_sample_ok(1) [of "[2]"]
    by (simp add: bs_sample_ok(2) bs_inv_def)
qed

end
