(* ===== verification/Range.thy ===== *)
theory Range
  imports Prelude
begin

text \<open>
  \<^verbatim>\<open>libgpopt/src/base/CRange.cpp\<close>: ranges of datum values with optional infinite ends, and
  the comparator interface \<^verbatim>\<open>IComparator\<close> they use. The datums are of an arbitrary type; the
  comparator is an argument of the range operations, as it is a member of \<^verbatim>\<open>CRange\<close>. A member
  access through an infinite (NULL) end is the error \<open>NullDeref\<close>, and the assertions of the
  constructor are error results.

  The locale \<open>datum_order\<close> states the laws that the range operations rely on: on a class of
  datums the five comparisons are those of one linear order. In it every end of a range is a
  cut of that order, and each operation is characterised by cuts.
\<close>

section \<open>Definitions\<close>

record 'd IComparator =
  cmp_Equals :: "'d \<Rightarrow> 'd \<Rightarrow> bool"
  cmp_IsLessThan :: "'d \<Rightarrow> 'd \<Rightarrow> bool"
  cmp_IsLessThanOrEqual :: "'d \<Rightarrow> 'd \<Rightarrow> bool"
  cmp_IsGreaterThan :: "'d \<Rightarrow> 'd \<Rightarrow> bool"
  cmp_IsGreaterThanOrEqual :: "'d \<Rightarrow> 'd \<Rightarrow> bool"

datatype ERangeInclusion = EriIncluded | EriExcluded

datatype ECmpType = EcmptEq | EcmptNEq | EcmptL | EcmptLEq | EcmptG | EcmptGEq | EcmptIDF | EcmptOther

record 'd CRange =
  rng_left :: "'d option"
  rng_eriLeft :: ERangeInclusion
  rng_right :: "'d option"
  rng_eriRight :: ERangeInclusion

fun EriInverseInclusion :: "ERangeInclusion \<Rightarrow> ERangeInclusion" where
  "EriInverseInclusion eri = (if EriIncluded = eri then EriExcluded else EriIncluded)"

text \<open>The constructor from two ends, with its assertion that they are in order.\<close>

definition CRange_ctor ::
  "'d IComparator \<Rightarrow> 'd option \<Rightarrow> ERangeInclusion \<Rightarrow> 'd option \<Rightarrow> ERangeInclusion \<Rightarrow> 'd CRange result" where
  "CRange_ctor C left eriLeft right eriRight =
     gpos_assert (case (left, right) of (Some l, Some r) \<Rightarrow> cmp_IsLessThanOrEqual C l r | _ \<Rightarrow> True)
       (Inr \<lparr>rng_left = left, rng_eriLeft = eriLeft, rng_right = right, rng_eriRight = eriRight\<rparr>)"

text \<open>The constructor from a comparison with a constant; any other comparison is \<open>(-inf, inf)\<close>.\<close>

definition CRange_cmp_ctor :: "ECmpType \<Rightarrow> 'd \<Rightarrow> 'd CRange" where
  "CRange_cmp_ctor cmp_type datum =
     (let r = \<lparr>rng_left = None, rng_eriLeft = EriExcluded, rng_right = None, rng_eriRight = EriExcluded\<rparr>
      in case cmp_type of
           EcmptEq \<Rightarrow> r\<lparr>rng_left := Some datum, rng_right := Some datum,
                        rng_eriLeft := EriIncluded, rng_eriRight := EriIncluded\<rparr>
         | EcmptL \<Rightarrow> r\<lparr>rng_right := Some datum\<rparr>
         | EcmptLEq \<Rightarrow> r\<lparr>rng_right := Some datum, rng_eriRight := EriIncluded\<rparr>
         | EcmptG \<Rightarrow> r\<lparr>rng_left := Some datum\<rparr>
         | EcmptGEq \<Rightarrow> r\<lparr>rng_left := Some datum, rng_eriLeft := EriIncluded\<rparr>
         | _ \<Rightarrow> r)"

definition rng_IsConstraintUnbounded :: "'d CRange \<Rightarrow> bool" where
  "rng_IsConstraintUnbounded r \<longleftrightarrow> rng_left r = None \<and> rng_right r = None"

definition FDisjointLeft :: "'d IComparator \<Rightarrow> 'd CRange \<Rightarrow> 'd CRange \<Rightarrow> bool" where
  "FDisjointLeft C this prange =
     (case (rng_right this, rng_left prange) of
        (Some right, Some left) \<Rightarrow>
          if cmp_IsLessThan C right left then True
          else if cmp_Equals C right left
               then EriExcluded = rng_eriRight this \<or> EriExcluded = rng_eriLeft prange
          else False
      | _ \<Rightarrow> False)"

definition FStartsBefore :: "'d IComparator \<Rightarrow> 'd CRange \<Rightarrow> 'd CRange \<Rightarrow> bool result" where
  "FStartsBefore C this prange =
     (case rng_left prange of
        None \<Rightarrow> Inr (rng_left this = None)
      | Some pleft \<Rightarrow>
          (case rng_left this of
             None \<Rightarrow> Inr True
           | Some mleft \<Rightarrow>
               if cmp_IsLessThan C mleft pleft then Inr True
               else if cmp_IsGreaterThan C mleft pleft then Inr False
               else gpos_assert (cmp_Equals C mleft pleft)
                      (Inr (EriIncluded = rng_eriLeft this \<and> EriExcluded = rng_eriLeft prange))))"

definition FStartsWithOrBefore :: "'d IComparator \<Rightarrow> 'd CRange \<Rightarrow> 'd CRange \<Rightarrow> bool result" where
  "FStartsWithOrBefore C this prange =
     rbind (FStartsBefore C this prange) (\<lambda>b.
       if b then Inr True
       else case (rng_left prange, rng_left this) of
              (None, None) \<Rightarrow> Inr True
            | (Some pleft, Some mleft) \<Rightarrow>
                Inr (cmp_Equals C mleft pleft \<and> rng_eriLeft this = rng_eriLeft prange)
            | _ \<Rightarrow> Inr False)"

definition FEndsAfter :: "'d IComparator \<Rightarrow> 'd CRange \<Rightarrow> 'd CRange \<Rightarrow> bool result" where
  "FEndsAfter C this prange =
     (case rng_right prange of
        None \<Rightarrow> Inr (rng_right this = None)
      | Some pright \<Rightarrow>
          (case rng_right this of
             None \<Rightarrow> Inr True
           | Some mright \<Rightarrow>
               if cmp_IsGreaterThan C mright pright then Inr True
               else if cmp_IsLessThan C mright pright then Inr False
               else gpos_assert (cmp_Equals C mright pright)
                      (Inr (EriIncluded = rng_eriRight this \<and> EriExcluded = rng_eriRight prange))))"

definition FEndsWithOrAfter :: "'d IComparator \<Rightarrow> 'd CRange \<Rightarrow> 'd CRange \<Rightarrow> bool result" where
  "FEndsWithOrAfter C this prange =
     rbind (FEndsAfter C this prange) (\<lambda>b.
       if b then Inr True
       else case (rng_right prange, rng_right this) of
              (None, None) \<Rightarrow> Inr True
            | (Some pright, Some mright) \<Rightarrow>
                Inr (cmp_Equals C mright pright \<and> rng_eriRight this = rng_eriRight prange)
            | _ \<Rightarrow> Inr False)"

definition rng_Contains :: "'d IComparator \<Rightarrow> 'd CRange \<Rightarrow> 'd CRange \<Rightarrow> bool result" where
  "rng_Contains C this prange =
     rbind (FStartsWithOrBefore C this prange) (\<lambda>s.
       if s then FEndsWithOrAfter C this prange else Inr False)"

definition FOverlapsLeft :: "'d IComparator \<Rightarrow> 'd CRange \<Rightarrow> 'd CRange \<Rightarrow> bool result" where
  "FOverlapsLeft C this prange =
     rbind (FStartsBefore C this prange) (\<lambda>s.
       if \<not> s then Inr False
       else rbind (FEndsAfter C this prange) (\<lambda>e.
              if e then Inr False else Inr (\<not> FDisjointLeft C this prange)))"

definition FOverlapsRight :: "'d IComparator \<Rightarrow> 'd CRange \<Rightarrow> 'd CRange \<Rightarrow> bool result" where
  "FOverlapsRight C this prange =
     rbind (FEndsAfter C this prange) (\<lambda>e.
       if \<not> e then Inr False
       else rbind (FStartsBefore C this prange) (\<lambda>s.
              if s then Inr False else Inr (\<not> FDisjointLeft C prange this)))"

definition FUpperBoundEqualsLowerBound :: "'d IComparator \<Rightarrow> 'd CRange \<Rightarrow> 'd CRange \<Rightarrow> bool" where
  "FUpperBoundEqualsLowerBound C this prange =
     (case (rng_left prange, rng_right this) of
        (None, None) \<Rightarrow> True
      | (Some left, Some right) \<Rightarrow> cmp_Equals C right left
      | _ \<Rightarrow> False)"

text \<open>\<^verbatim>\<open>Equals\<close> of the comparator dereferences both datums.\<close>

definition cmp_Equals_ptr :: "'d IComparator \<Rightarrow> 'd option \<Rightarrow> 'd option \<Rightarrow> bool result" where
  "cmp_Equals_ptr C d1 d2 =
     (case (d1, d2) of (Some x, Some y) \<Rightarrow> Inr (cmp_Equals C x y) | _ \<Rightarrow> Inl NullDeref)"

definition FPoint :: "'d IComparator \<Rightarrow> 'd CRange \<Rightarrow> bool result" where
  "FPoint C this =
     (if EriIncluded = rng_eriLeft this \<and> EriIncluded = rng_eriRight this
      then cmp_Equals_ptr C (rng_right this) (rng_left this) else Inr False)"

definition deref :: "'d option \<Rightarrow> 'd result" where
  "deref p = (case p of None \<Rightarrow> Inl NullDeref | Some d \<Rightarrow> Inr d)"

definition PrngIntersect :: "'d IComparator \<Rightarrow> 'd CRange \<Rightarrow> 'd CRange \<Rightarrow> 'd CRange option result" where
  "PrngIntersect C this prange =
     rbind (rng_Contains C this prange) (\<lambda>c1.
       if c1 then Inr (Some prange)
       else rbind (rng_Contains C prange this) (\<lambda>c2.
         if c2 then Inr (Some this)
         else rbind (FOverlapsLeft C this prange) (\<lambda>ol.
           if ol then
             rbind (deref (rng_left prange)) (\<lambda>left.
               rbind (deref (rng_right this)) (\<lambda>right.
                 rbind (CRange_ctor C (Some left) (rng_eriLeft prange) (Some right) (rng_eriRight this))
                   (\<lambda>r. Inr (Some r))))
           else rbind (FOverlapsRight C this prange) (\<lambda>orr.
             if orr then
               rbind (deref (rng_right prange)) (\<lambda>right.
                 rbind (deref (rng_left this)) (\<lambda>left.
                   rbind (CRange_ctor C (Some left) (rng_eriLeft this) (Some right) (rng_eriRight prange))
                     (\<lambda>r. Inr (Some r))))
             else Inr None))))"

definition PrngDifferenceLeft ::
  "'d IComparator \<Rightarrow> 'd CRange \<Rightarrow> 'd CRange \<Rightarrow> 'd CRange option result" where
  "PrngDifferenceLeft C this prange =
     (if FDisjointLeft C this prange then Inr (Some this)
      else case rng_left prange of
             None \<Rightarrow> Inr None
           | Some pleft \<Rightarrow>
               rbind (FStartsBefore C this prange) (\<lambda>s.
                 if s then
                   rbind (CRange_ctor C (rng_left this) (rng_eriLeft this) (Some pleft)
                            (EriInverseInclusion (rng_eriLeft prange)))
                     (\<lambda>r. Inr (Some r))
                 else Inr None))"

definition PrngDifferenceRight ::
  "'d IComparator \<Rightarrow> 'd CRange \<Rightarrow> 'd CRange \<Rightarrow> 'd CRange option result" where
  "PrngDifferenceRight C this prange =
     (if FDisjointLeft C prange this then Inr (Some this)
      else case rng_right prange of
             None \<Rightarrow> Inr None
           | Some pright \<Rightarrow>
               rbind (FEndsAfter C this prange) (\<lambda>e.
                 if e then
                   rbind (CRange_ctor C (Some pright) (EriInverseInclusion (rng_eriRight prange))
                            (rng_right this) (rng_eriRight this))
                     (\<lambda>r. Inr (Some r))
                 else Inr None))"

definition PrngExtend :: "'d IComparator \<Rightarrow> 'd CRange \<Rightarrow> 'd CRange \<Rightarrow> 'd CRange option result" where
  "PrngExtend C this prange =
     (if EriIncluded = rng_eriLeft prange \<or> EriIncluded = rng_eriRight this
      then rbind (cmp_Equals_ptr C (rng_left prange) (rng_right this)) (\<lambda>e.
             if e then
               rbind (CRange_ctor C (rng_left this) (rng_eriLeft this) (rng_right prange) (rng_eriRight prange))
                 (\<lambda>r. Inr (Some r))
             else Inr None)
      else Inr None)"

section \<open>Cuts\<close>

text \<open>
  A cut divides a linear order in two: \<open>Below k\<close> just below \<open>k\<close>, \<open>Above k\<close> just above it. The
  order of the cuts is syntactic, so the range from \<open>Above 3\<close> to \<open>Below 4\<close> is not empty even
  where no value lies between.
\<close>

datatype 'k cut = NegInf | Below 'k | Above 'k | PosInf

instantiation cut :: (linorder) linorder
begin

fun less_eq_cut :: "'a cut \<Rightarrow> 'a cut \<Rightarrow> bool" where
  "less_eq_cut NegInf _ \<longleftrightarrow> True"
| "less_eq_cut _ PosInf \<longleftrightarrow> True"
| "less_eq_cut (Below a) (Below b) \<longleftrightarrow> a \<le> b"
| "less_eq_cut (Below a) (Above b) \<longleftrightarrow> a \<le> b"
| "less_eq_cut (Above a) (Below b) \<longleftrightarrow> a < b"
| "less_eq_cut (Above a) (Above b) \<longleftrightarrow> a \<le> b"
| "less_eq_cut _ _ \<longleftrightarrow> False"

definition less_cut :: "'a cut \<Rightarrow> 'a cut \<Rightarrow> bool" where
  "less_cut a b \<longleftrightarrow> a \<le> b \<and> \<not> b \<le> a"

instance
proof
  fix x y z :: "'a cut"
  show "(x < y) = (x \<le> y \<and> \<not> y \<le> x)" by (simp add: less_cut_def)
  show "x \<le> x" by (cases x) auto
  show "x \<le> y \<Longrightarrow> y \<le> z \<Longrightarrow> x \<le> z" by (cases x; cases y; cases z) auto
  show "x \<le> y \<Longrightarrow> y \<le> x \<Longrightarrow> x = y" by (cases x; cases y) auto
  show "x \<le> y \<or> y \<le> x" by (cases x; cases y) auto
qed

end

lemma less_cut_simps [simp]:
  "\<not> x < NegInf" "\<not> PosInf < x" "NegInf < x \<longleftrightarrow> x \<noteq> NegInf" "x < PosInf \<longleftrightarrow> x \<noteq> PosInf"
  "Below a < Below b \<longleftrightarrow> a < b" "Below a < Above b \<longleftrightarrow> a \<le> b"
  "Above a < Below b \<longleftrightarrow> a < b" "Above a < Above b \<longleftrightarrow> a < b"
  "x \<le> PosInf" "x \<le> NegInf \<longleftrightarrow> x = NegInf" "PosInf \<le> x \<longleftrightarrow> x = PosInf"
  by (cases x; auto simp: less_cut_def)+

text \<open>Every value lies on one side of a cut.\<close>

lemma cut_side: "c \<le> Below x \<or> Above x \<le> c" "\<not> (c \<le> Below x \<and> Above x \<le> c)"
  by (cases c; auto)+

definition left_cut :: "('d \<Rightarrow> 'k) \<Rightarrow> 'd CRange \<Rightarrow> 'k cut" where
  "left_cut key r =
     (case rng_left r of
        None \<Rightarrow> NegInf
      | Some d \<Rightarrow> (if rng_eriLeft r = EriIncluded then Below (key d) else Above (key d)))"

definition right_cut :: "('d \<Rightarrow> 'k) \<Rightarrow> 'd CRange \<Rightarrow> 'k cut" where
  "right_cut key r =
     (case rng_right r of
        None \<Rightarrow> PosInf
      | Some d \<Rightarrow> (if rng_eriRight r = EriIncluded then Above (key d) else Below (key d)))"

text \<open>The values of a range.\<close>

definition in_range :: "('d \<Rightarrow> 'k::linorder) \<Rightarrow> 'd CRange \<Rightarrow> 'k \<Rightarrow> bool" where
  "in_range key r x \<longleftrightarrow>
     (case rng_left r of None \<Rightarrow> True
      | Some d \<Rightarrow> key d < x \<or> (rng_eriLeft r = EriIncluded \<and> key d = x)) \<and>
     (case rng_right r of None \<Rightarrow> True
      | Some d \<Rightarrow> x < key d \<or> (rng_eriRight r = EriIncluded \<and> key d = x))"

lemma in_range_cuts: "in_range key r x \<longleftrightarrow> left_cut key r \<le> Below x \<and> Above x \<le> right_cut key r"
  by (auto simp: in_range_def left_cut_def right_cut_def split: option.splits)

text \<open>
  A valid range: its ends are datums of the class, an infinite end is excluded, and the left
  cut lies before the right one.
\<close>

definition range_ok :: "('d \<Rightarrow> bool) \<Rightarrow> ('d \<Rightarrow> 'k::linorder) \<Rightarrow> 'd CRange \<Rightarrow> bool" where
  "range_ok cls key r \<longleftrightarrow>
     (case rng_left r of None \<Rightarrow> rng_eriLeft r = EriExcluded | Some d \<Rightarrow> cls d) \<and>
     (case rng_right r of None \<Rightarrow> rng_eriRight r = EriExcluded | Some d \<Rightarrow> cls d) \<and>
     left_cut key r < right_cut key r"

lemma EriIncluded_neq [simp]: "eri \<noteq> EriIncluded \<longleftrightarrow> eri = EriExcluded" "EriIncluded \<noteq> eri \<longleftrightarrow> eri = EriExcluded"
  by (cases eri; simp)+

section \<open>The laws of a comparator\<close>

text \<open>
  On the datums of the class \<open>cls\<close> the comparisons are those of the linear order of the keys.
\<close>

locale datum_order =
  fixes C :: "'d IComparator" and cls :: "'d \<Rightarrow> bool" and key :: "'d \<Rightarrow> 'k::linorder"
  assumes eq_law: "cls a \<Longrightarrow> cls b \<Longrightarrow> cmp_Equals C a b \<longleftrightarrow> key a = key b"
    and lt_law: "cls a \<Longrightarrow> cls b \<Longrightarrow> cmp_IsLessThan C a b \<longleftrightarrow> key a < key b"
    and le_law: "cls a \<Longrightarrow> cls b \<Longrightarrow> cmp_IsLessThanOrEqual C a b \<longleftrightarrow> key a \<le> key b"
    and gt_law: "cls a \<Longrightarrow> cls b \<Longrightarrow> cmp_IsGreaterThan C a b \<longleftrightarrow> key b < key a"
    and ge_law: "cls a \<Longrightarrow> cls b \<Longrightarrow> cmp_IsGreaterThanOrEqual C a b \<longleftrightarrow> key b \<le> key a"
begin

abbreviation lc :: "'d CRange \<Rightarrow> 'k cut" where "lc \<equiv> left_cut key"
abbreviation rc :: "'d CRange \<Rightarrow> 'k cut" where "rc \<equiv> right_cut key"
abbreviation ok :: "'d CRange \<Rightarrow> bool" where "ok \<equiv> range_ok cls key"

lemmas cut_defs = left_cut_def right_cut_def

lemma okD:
  assumes "ok r"
  shows "lc r < rc r" and "rng_left r = Some d \<Longrightarrow> cls d" and "rng_right r = Some d \<Longrightarrow> cls d"
    and "rng_left r = None \<Longrightarrow> rng_eriLeft r = EriExcluded"
    and "rng_right r = None \<Longrightarrow> rng_eriRight r = EriExcluded"
  using assms by (auto simp: range_ok_def split: option.splits)

lemma cut_neq [simp]: "lc r \<noteq> PosInf" "rc r \<noteq> NegInf" "PosInf \<noteq> lc r" "NegInf \<noteq> rc r"
  by (auto simp: cut_defs split: option.splits)

lemma cut_inf_iff: "lc r = NegInf \<longleftrightarrow> rng_left r = None" "rc r = PosInf \<longleftrightarrow> rng_right r = None"
  by (auto simp: cut_defs split: option.splits)

lemma disjoint_left_iff: "ok a \<Longrightarrow> ok b \<Longrightarrow> FDisjointLeft C a b \<longleftrightarrow> rc a \<le> lc b"
  by (auto simp: FDisjointLeft_def cut_defs range_ok_def lt_law eq_law split: option.splits)

text \<open>Two infinite left ends count as starting before each other, and likewise on the right.\<close>

lemma starts_before_iff:
  "ok a \<Longrightarrow> ok b \<Longrightarrow> FStartsBefore C a b = Inr (lc a < lc b \<or> (lc a = NegInf \<and> lc b = NegInf))"
  by (auto simp: FStartsBefore_def cut_defs range_ok_def lt_law gt_law eq_law gpos_assert_def
      split: option.splits)

lemma ends_after_iff:
  "ok a \<Longrightarrow> ok b \<Longrightarrow> FEndsAfter C a b = Inr (rc b < rc a \<or> (rc a = PosInf \<and> rc b = PosInf))"
  by (auto simp: FEndsAfter_def cut_defs range_ok_def lt_law gt_law eq_law gpos_assert_def
      split: option.splits)

lemma starts_with_or_before_iff: "ok a \<Longrightarrow> ok b \<Longrightarrow> FStartsWithOrBefore C a b = Inr (lc a \<le> lc b)"
  by (cases "rng_left a"; cases "rng_left b"; cases "rng_eriLeft a"; cases "rng_eriLeft b")
     (auto simp: FStartsWithOrBefore_def starts_before_iff, auto simp: cut_defs range_ok_def eq_law)

lemma ends_with_or_after_iff: "ok a \<Longrightarrow> ok b \<Longrightarrow> FEndsWithOrAfter C a b = Inr (rc b \<le> rc a)"
  by (cases "rng_right a"; cases "rng_right b"; cases "rng_eriRight a"; cases "rng_eriRight b")
     (auto simp: FEndsWithOrAfter_def ends_after_iff, auto simp: cut_defs range_ok_def eq_law)

lemma contains_iff: "ok a \<Longrightarrow> ok b \<Longrightarrow> rng_Contains C a b = Inr (lc a \<le> lc b \<and> rc b \<le> rc a)"
  by (simp add: rng_Contains_def starts_with_or_before_iff ends_with_or_after_iff)

lemma overlaps_left_iff:
  assumes "ok a" and "ok b"
  shows "FOverlapsLeft C a b = Inr ((lc a < lc b \<or> lc a = NegInf \<and> lc b = NegInf) \<and>
    \<not> (rc b < rc a \<or> rc a = PosInf \<and> rc b = PosInf) \<and> lc b < rc a)"
  using assms by (auto simp: FOverlapsLeft_def starts_before_iff ends_after_iff disjoint_left_iff not_le)

lemma overlaps_right_iff:
  assumes "ok a" and "ok b"
  shows "FOverlapsRight C a b = Inr ((rc b < rc a \<or> rc a = PosInf \<and> rc b = PosInf) \<and>
    \<not> (lc a < lc b \<or> lc a = NegInf \<and> lc b = NegInf) \<and> lc a < rc b)"
  using assms by (auto simp: FOverlapsRight_def starts_before_iff ends_after_iff disjoint_left_iff not_le)

text \<open>A constructed range is valid when its cuts are in order; then the constructor's assertion holds.\<close>

lemma ctor_ok:
  assumes r: "r = \<lparr>rng_left = left, rng_eriLeft = el, rng_right = right, rng_eriRight = er\<rparr>"
    and "lc r < rc r" and "case left of None \<Rightarrow> el = EriExcluded | Some d \<Rightarrow> cls d"
    and "case right of None \<Rightarrow> er = EriExcluded | Some d \<Rightarrow> cls d"
  shows "CRange_ctor C left el right er = Inr r" and "ok r"
  using assms by (auto simp: CRange_ctor_def range_ok_def cut_defs le_law gpos_assert_def
      split: option.splits if_splits)

definition mk :: "'d CRange \<Rightarrow> 'd CRange \<Rightarrow> 'd CRange" where
  "mk a b = \<lparr>rng_left = rng_left a, rng_eriLeft = rng_eriLeft a,
             rng_right = rng_right b, rng_eriRight = rng_eriRight b\<rparr>"

lemma mk_cuts [simp]: "lc (mk a b) = lc a" "rc (mk a b) = rc b"
  by (auto simp: mk_def cut_defs split: option.splits)

lemma mk_ctor:
  assumes "ok a" and "ok b" and "lc a < rc b"
  shows "CRange_ctor C (rng_left a) (rng_eriLeft a) (rng_right b) (rng_eriRight b) = Inr (mk a b)"
    and "ok (mk a b)"
  using ctor_ok [of "mk a b" "rng_left a" "rng_eriLeft a" "rng_right b" "rng_eriRight b"] assms
  by (auto simp: mk_def range_ok_def cut_defs split: option.splits)

text \<open>The intersection of two ranges: the later start and the earlier end, when they are in order.\<close>

lemma intersect_correct:
  assumes a: "ok a" and b: "ok b"
  shows "\<exists>r. PrngIntersect C a b = Inr r \<and>
    (case r of None \<Rightarrow> min (rc a) (rc b) \<le> max (lc a) (lc b)
     | Some n \<Rightarrow> ok n \<and> lc n = max (lc a) (lc b) \<and> rc n = min (rc a) (rc b))"
proof (cases "lc a \<le> lc b \<and> rc b \<le> rc a")
  case True
  then show ?thesis using assms by (simp add: PrngIntersect_def contains_iff)
next
  case n1: False
  show ?thesis
  proof (cases "lc b \<le> lc a \<and> rc a \<le> rc b")
    case True
    then show ?thesis using assms n1 by (auto simp: PrngIntersect_def contains_iff)
  next
    case n2: False
    note ord = n1 n2
    show ?thesis
    proof (cases "lc a < lc b")
      case True
      then have r: "rc a < rc b" using ord by auto
      show ?thesis
      proof (cases "lc b < rc a")
        case ov: True
        obtain l where l: "rng_left b = Some l" using True by (cases "rng_left b") (auto simp: left_cut_def)
        obtain u where u: "rng_right a = Some u" using r by (cases "rng_right a") (auto simp: right_cut_def)
        have "PrngIntersect C a b = Inr (Some (mk b a))"
          using assms ord True r ov mk_ctor(1) [OF b a ov] l u
          by (auto simp: PrngIntersect_def contains_iff overlaps_left_iff deref_def)
        with True r mk_ctor(2) [OF b a ov] show ?thesis by simp
      next
        case False
        then show ?thesis using assms ord True r
          by (auto simp: PrngIntersect_def contains_iff overlaps_left_iff overlaps_right_iff)
      qed
    next
      case False
      then have lr: "lc b < lc a" "rc b < rc a" using ord by auto
      show ?thesis
      proof (cases "lc a < rc b")
        case ov: True
        obtain l where l: "rng_left a = Some l" using lr by (cases "rng_left a") (auto simp: left_cut_def)
        obtain u where u: "rng_right b = Some u" using lr by (cases "rng_right b") (auto simp: right_cut_def)
        have "PrngIntersect C a b = Inr (Some (mk a b))"
          using assms ord lr ov mk_ctor(1) [OF a b ov] l u
          by (auto simp: PrngIntersect_def contains_iff overlaps_left_iff overlaps_right_iff deref_def)
        with lr mk_ctor(2) [OF a b ov] show ?thesis by simp
      next
        case no: False
        then show ?thesis using assms ord lr
          by (auto simp: PrngIntersect_def contains_iff overlaps_left_iff overlaps_right_iff)
      qed
    qed
  qed
qed

text \<open>The part of a range before another one, and the part after it.\<close>

definition inv_left :: "'d CRange \<Rightarrow> 'd CRange" where
  "inv_left b = \<lparr>rng_left = None, rng_eriLeft = EriExcluded, rng_right = rng_left b,
     rng_eriRight = EriInverseInclusion (rng_eriLeft b)\<rparr>"

definition inv_right :: "'d CRange \<Rightarrow> 'd CRange" where
  "inv_right b = \<lparr>rng_left = rng_right b, rng_eriLeft = EriInverseInclusion (rng_eriRight b),
     rng_right = None, rng_eriRight = EriExcluded\<rparr>"

lemma inv_cuts:
  "rng_left b \<noteq> None \<Longrightarrow> rc (inv_left b) = lc b" "rng_right b \<noteq> None \<Longrightarrow> lc (inv_right b) = rc b"
  "ok b \<Longrightarrow> rng_left b \<noteq> None \<Longrightarrow> ok (inv_left b)" "ok b \<Longrightarrow> rng_right b \<noteq> None \<Longrightarrow> ok (inv_right b)"
  by (auto simp: inv_left_def inv_right_def cut_defs range_ok_def)

lemma difference_left_correct:
  assumes a: "ok a" and b: "ok b"
  shows "\<exists>r. PrngDifferenceLeft C a b = Inr r \<and>
    (case r of None \<Rightarrow> lc b \<le> lc a
     | Some n \<Rightarrow> ok n \<and> lc n = lc a \<and> rc n = min (rc a) (lc b) \<and> lc a < lc b)"
proof (cases "rc a \<le> lc b")
  case True
  then show ?thesis using assms okD(1) [OF a]
    by (auto simp: PrngDifferenceLeft_def disjoint_left_iff)
next
  case False
  show ?thesis
  proof (cases "rng_left b")
    case None
    then show ?thesis using assms False
      by (simp add: PrngDifferenceLeft_def disjoint_left_iff left_cut_def)
  next
    case (Some l)
    then have nn: "rng_left b \<noteq> None" and ni: "lc b \<noteq> NegInf" by (auto simp: left_cut_def)
    show ?thesis
    proof (cases "lc a < lc b")
      case True
      have lt: "lc a < rc (inv_left b)" using True inv_cuts(1) [OF nn] by simp
      note c = mk_ctor [OF a inv_cuts(3) [OF b nn] lt]
      have "PrngDifferenceLeft C a b = Inr (Some (mk a (inv_left b)))"
        using assms False Some True c(1) ni
        by (simp add: PrngDifferenceLeft_def disjoint_left_iff starts_before_iff inv_left_def)
      with c(2) True False inv_cuts(1) [OF nn] show ?thesis by simp
    next
      case no: False
      then show ?thesis using assms False Some ni
        by (auto simp: PrngDifferenceLeft_def disjoint_left_iff starts_before_iff)
    qed
  qed
qed

lemma difference_right_correct:
  assumes a: "ok a" and b: "ok b"
  shows "\<exists>r. PrngDifferenceRight C a b = Inr r \<and>
    (case r of None \<Rightarrow> rc a \<le> rc b
     | Some n \<Rightarrow> ok n \<and> lc n = max (lc a) (rc b) \<and> rc n = rc a \<and> rc b < rc a)"
proof (cases "rc b \<le> lc a")
  case True
  then show ?thesis using assms okD(1) [OF a]
    by (auto simp: PrngDifferenceRight_def disjoint_left_iff)
next
  case False
  show ?thesis
  proof (cases "rng_right b")
    case None
    then show ?thesis using assms False
      by (simp add: PrngDifferenceRight_def disjoint_left_iff right_cut_def)
  next
    case (Some u)
    then have nn: "rng_right b \<noteq> None" and ni: "rc b \<noteq> PosInf" by (auto simp: right_cut_def)
    show ?thesis
    proof (cases "rc b < rc a")
      case True
      have lt: "lc (inv_right b) < rc a" using True inv_cuts(2) [OF nn] by simp
      note c = mk_ctor [OF inv_cuts(4) [OF b nn] a lt]
      have "PrngDifferenceRight C a b = Inr (Some (mk (inv_right b) a))"
        using assms False Some True c(1) ni
        by (simp add: PrngDifferenceRight_def disjoint_left_iff ends_after_iff inv_right_def)
      with c(2) True False inv_cuts(2) [OF nn] show ?thesis by simp
    next
      case no: False
      then show ?thesis using assms False Some ni
        by (auto simp: PrngDifferenceRight_def disjoint_left_iff ends_after_iff)
    qed
  qed
qed

text \<open>
  Extending a range by one that does not start before its end never touches an infinite end,
  and joins the two exactly when they are contiguous.
\<close>

lemma extend_correct:
  assumes a: "ok a" and b: "ok b" and le: "rc a \<le> lc b"
  shows "PrngExtend C a b = Inr (if rc a = lc b then Some (mk a b) else None)"
    and "rc a = lc b \<Longrightarrow> ok (mk a b)"
proof -
  obtain u where u: "rng_right a = Some u" "cls u"
    using le okD(3) [OF a] by (cases "rng_right a") (auto simp: right_cut_def left_cut_def split: option.splits if_splits)
  obtain l where l: "rng_left b = Some l" "cls l"
    using le okD(2) [OF b] by (cases "rng_left b") (auto simp: right_cut_def left_cut_def split: option.splits if_splits)
  have lt: "lc a < rc b" using okD(1) [OF a] okD(1) [OF b] le by (metis order.strict_trans order_le_less)
  note c = mk_ctor [OF a b lt]
  show "PrngExtend C a b = Inr (if rc a = lc b then Some (mk a b) else None)"
    using u l le c(1)
    by (cases "rng_eriLeft b"; cases "rng_eriRight a")
       (auto simp: PrngExtend_def cmp_Equals_ptr_def eq_law left_cut_def right_cut_def)
  show "rc a = lc b \<Longrightarrow> ok (mk a b)" using c(2) by simp
qed

lemma point_correct: "ok a \<Longrightarrow> \<exists>b. FPoint C a = Inr b \<and> (b \<longrightarrow> (\<exists>d. rng_left a = Some d \<and> (\<forall>x. in_range key a x \<longleftrightarrow> x = key d)))"
  by (auto simp: FPoint_def cmp_Equals_ptr_def range_ok_def eq_law in_range_def split: option.splits)

end

end
