(* ===== verification/Datum.thy ===== *)
theory Datum
  imports Range "HOL-Library.Option_ord"
begin

text \<open>
  Datum comparison: the statistics-level comparisons of \<^verbatim>\<open>libnaucrates/src/base/IDatum.cpp\<close>
  and the comparator \<^verbatim>\<open>libgpopt/src/base/CDefaultComparator.cpp\<close>. A datum is the record of
  what these functions read of it: its type, whether it is NULL, and its mappings to \<^verbatim>\<open>LINT\<close>
  and to \<^verbatim>\<open>CDouble\<close> (of an arbitrary type). The trace flags, the comparisons on
  \<^verbatim>\<open>CDouble\<close> and the external evaluator of constant expressions are fields of the
  environment. The comparator is shown to satisfy the laws \<open>datum_order\<close> with NULL as the least
  datum.
\<close>

section \<open>Definitions\<close>

datatype ETypeInfo = EtiInt2 | EtiInt4 | EtiInt8 | EtiBool | EtiOid | EtiGeneric

record 'f IDatum =
  dat_mdid :: ULONG
  dat_type :: ETypeInfo
  dat_all_cmps :: bool  \<comment> \<open>its type has all default comparisons\<close>
  dat_time :: bool  \<comment> \<open>its type is time related\<close>
  dat_null :: bool
  dat_is_lint :: bool
  dat_is_double :: bool
  dat_lint :: int
  dat_double :: 'f

record 'f cmp_env =
  env_const_eval :: bool  \<comment> \<open>EopttraceEnableConstantExpressionEvaluation\<close>
  env_ext_ints :: bool  \<comment> \<open>EopttraceUseExternalConstantExpressionEvaluationForInts\<close>
  env_eval :: "ECmpType \<Rightarrow> 'f IDatum \<Rightarrow> 'f IDatum \<Rightarrow> bool"
  env_double_eq :: "'f \<Rightarrow> 'f \<Rightarrow> bool"
  env_double_lt :: "'f \<Rightarrow> 'f \<Rightarrow> bool"

text \<open>
  The comparisons assert that both datums have one of the two mappings (\<^verbatim>\<open>IDatum.cpp\<close>, lines 43 and 91).
  The assertion is stated as the predicate \<open>stats_assertion\<close> and not as an error value of the
  comparisons: the comparator calls them on integer types only, and \<open>stats_assertion_holds\<close> shows it for
  all integer datums. The second assertion, before the double branch, follows from the first.
\<close>

definition stats_assertion :: "'f IDatum \<Rightarrow> 'f IDatum \<Rightarrow> bool" where
  "stats_assertion this datum \<longleftrightarrow>
     (dat_is_double this \<and> dat_is_double datum) \<or> (dat_is_lint this \<and> dat_is_lint datum)"

definition StatsAreEqual :: "'f cmp_env \<Rightarrow> 'f IDatum \<Rightarrow> 'f IDatum \<Rightarrow> bool" where
  "StatsAreEqual env this datum =
     (let is_lint_comparison = (dat_is_lint this \<and> dat_is_lint datum) in
      if dat_null this then dat_null datum
      else if dat_null datum then False
      else if is_lint_comparison then dat_lint this = dat_lint datum
      else env_double_eq env (dat_double this) (dat_double datum))"

definition StatsAreLessThan :: "'f cmp_env \<Rightarrow> 'f IDatum \<Rightarrow> 'f IDatum \<Rightarrow> bool" where
  "StatsAreLessThan env this datum =
     (let is_lint_comparison = (dat_is_lint this \<and> dat_is_lint datum) in
      if dat_null this then \<not> dat_null datum
      else if dat_null datum then False
      else if is_lint_comparison then dat_lint this < dat_lint datum
      else env_double_lt env (dat_double this) (dat_double datum))"

definition StatsAreComparable :: "'f IDatum \<Rightarrow> 'f IDatum \<Rightarrow> bool" where
  "StatsAreComparable this datum =
     (let is_types_match = (dat_mdid this = dat_mdid datum) in
      if \<not> is_types_match \<and> dat_time this \<and> dat_time datum then False
      else (dat_is_double this \<and> dat_is_double datum) \<or> (dat_is_lint this \<and> dat_is_lint datum))"

definition StatsAreGreaterThan :: "'f cmp_env \<Rightarrow> 'f IDatum \<Rightarrow> 'f IDatum \<Rightarrow> bool" where
  "StatsAreGreaterThan env this datum \<longleftrightarrow>
     StatsAreComparable datum this \<and> StatsAreLessThan env datum this"

definition FIntType :: "'f IDatum \<Rightarrow> bool" where
  "FIntType d \<longleftrightarrow> dat_type d = EtiInt2 \<or> dat_type d = EtiInt4 \<or> dat_type d = EtiInt8"

definition FConstrainableType :: "'f cmp_env \<Rightarrow> 'f IDatum \<Rightarrow> bool" where
  "FConstrainableType env d =
     (if FIntType d then True else if \<not> env_const_eval env then False else dat_all_cmps d)"

definition FUseBuiltinIntEvaluators :: "'f cmp_env \<Rightarrow> bool" where
  "FUseBuiltinIntEvaluators env \<longleftrightarrow> \<not> env_const_eval env \<or> \<not> env_ext_ints env"

text \<open>The test for the built-in evaluation that every comparison starts with.\<close>

definition use_stats :: "'f cmp_env \<Rightarrow> 'f IDatum \<Rightarrow> 'f IDatum \<Rightarrow> bool" where
  "use_stats env d1 d2 \<longleftrightarrow> FUseBuiltinIntEvaluators env \<and> FIntType d1 \<and> FIntType d2"

definition dc_Equals :: "'f cmp_env \<Rightarrow> 'f IDatum \<Rightarrow> 'f IDatum \<Rightarrow> bool" where
  "dc_Equals env d1 d2 =
     (if \<not> FConstrainableType env d1 \<or> \<not> FConstrainableType env d2 then False
      else if use_stats env d1 d2 then StatsAreEqual env d1 d2
      else if dat_null d1 \<and> dat_null d2 then True
      else env_eval env EcmptEq d1 d2)"

definition dc_IsLessThan :: "'f cmp_env \<Rightarrow> 'f IDatum \<Rightarrow> 'f IDatum \<Rightarrow> bool" where
  "dc_IsLessThan env d1 d2 =
     (if \<not> FConstrainableType env d1 \<or> \<not> FConstrainableType env d2 then False
      else if use_stats env d1 d2 then StatsAreLessThan env d1 d2
      else if dat_null d1 \<and> \<not> dat_null d2 then True
      else env_eval env EcmptL d1 d2)"

definition dc_IsLessThanOrEqual :: "'f cmp_env \<Rightarrow> 'f IDatum \<Rightarrow> 'f IDatum \<Rightarrow> bool" where
  "dc_IsLessThanOrEqual env d1 d2 =
     (if \<not> FConstrainableType env d1 \<or> \<not> FConstrainableType env d2 then False
      else if use_stats env d1 d2 then StatsAreLessThan env d1 d2 \<or> StatsAreEqual env d1 d2
      else if dat_null d1 then True
      else env_eval env EcmptLEq d1 d2)"

definition dc_IsGreaterThan :: "'f cmp_env \<Rightarrow> 'f IDatum \<Rightarrow> 'f IDatum \<Rightarrow> bool" where
  "dc_IsGreaterThan env d1 d2 =
     (if \<not> FConstrainableType env d1 \<or> \<not> FConstrainableType env d2 then False
      else if use_stats env d1 d2 then StatsAreGreaterThan env d1 d2
      else if \<not> dat_null d1 \<and> dat_null d2 then True
      else env_eval env EcmptG d1 d2)"

definition dc_IsGreaterThanOrEqual :: "'f cmp_env \<Rightarrow> 'f IDatum \<Rightarrow> 'f IDatum \<Rightarrow> bool" where
  "dc_IsGreaterThanOrEqual env d1 d2 =
     (if \<not> FConstrainableType env d1 \<or> \<not> FConstrainableType env d2 then False
      else if use_stats env d1 d2 then StatsAreGreaterThan env d1 d2 \<or> StatsAreEqual env d1 d2
      else if dat_null d2 then True
      else env_eval env EcmptGEq d1 d2)"

definition CDefaultComparator :: "'f cmp_env \<Rightarrow> 'f IDatum IComparator" where
  "CDefaultComparator env =
     \<lparr>cmp_Equals = dc_Equals env, cmp_IsLessThan = dc_IsLessThan env,
      cmp_IsLessThanOrEqual = dc_IsLessThanOrEqual env, cmp_IsGreaterThan = dc_IsGreaterThan env,
      cmp_IsGreaterThanOrEqual = dc_IsGreaterThanOrEqual env\<rparr>"

section \<open>The order of the datums\<close>

text \<open>Integer datums, ordered by their value with NULL first.\<close>

definition int_datum :: "'f IDatum \<Rightarrow> bool" where
  "int_datum d \<longleftrightarrow> FIntType d \<and> dat_is_lint d \<and> \<not> dat_time d"

definition int_key :: "'f IDatum \<Rightarrow> int option" where
  "int_key d = (if dat_null d then None else Some (dat_lint d))"

lemma stats_assertion_holds: "int_datum d1 \<Longrightarrow> int_datum d2 \<Longrightarrow> stats_assertion d1 d2"
  by (simp add: int_datum_def stats_assertion_def)

lemmas dc_defs = CDefaultComparator_def dc_Equals_def dc_IsLessThan_def dc_IsLessThanOrEqual_def
  dc_IsGreaterThan_def dc_IsGreaterThanOrEqual_def

lemmas stats_defs = StatsAreEqual_def StatsAreLessThan_def StatsAreGreaterThan_def StatsAreComparable_def

text \<open>The comparator on integers, with the built-in evaluation.\<close>

lemma builtin_int_order: "datum_order (CDefaultComparator (env\<lparr>env_ext_ints := False\<rparr>)) int_datum int_key"
  by unfold_locales
     (auto simp: dc_defs stats_defs int_datum_def int_key_def use_stats_def FConstrainableType_def
       FUseBuiltinIntEvaluators_def)

interpretation dc: datum_order "CDefaultComparator (env\<lparr>env_ext_ints := False\<rparr>)" int_datum int_key for env
  by (rule builtin_int_order)

text \<open>
  What the code relies on of the external evaluator of constant expressions on the datums of a
  class: the SQL comparison, whose result with a NULL argument is not true.
\<close>

definition evaluates_order ::
  "('f IDatum \<Rightarrow> bool) \<Rightarrow> ('f IDatum \<Rightarrow> 'k::linorder) \<Rightarrow> (ECmpType \<Rightarrow> 'f IDatum \<Rightarrow> 'f IDatum \<Rightarrow> bool) \<Rightarrow> bool" where
  "evaluates_order cls val ev \<longleftrightarrow>
     (\<forall>a b. cls a \<longrightarrow> cls b \<longrightarrow>
        (if dat_null a \<or> dat_null b then \<forall>c. \<not> ev c a b
         else (ev EcmptEq a b \<longleftrightarrow> val a = val b) \<and> (ev EcmptL a b \<longleftrightarrow> val a < val b) \<and>
              (ev EcmptLEq a b \<longleftrightarrow> val a \<le> val b) \<and> (ev EcmptG a b \<longleftrightarrow> val b < val a) \<and>
              (ev EcmptGEq a b \<longleftrightarrow> val b \<le> val a)))"

definition null_first :: "('f IDatum \<Rightarrow> 'k) \<Rightarrow> 'f IDatum \<Rightarrow> 'k option" where
  "null_first val d = (if dat_null d then None else Some (val d))"

lemma external_order:
  assumes "evaluates_order cls val (env_eval env)"
    and "\<And>d. cls d \<Longrightarrow> FConstrainableType env d \<and> (FUseBuiltinIntEvaluators env \<longrightarrow> \<not> FIntType d)"
  shows "datum_order (CDefaultComparator env) cls (null_first val)"
proof -
  have ev: "if dat_null a \<or> dat_null b then \<forall>c. \<not> env_eval env c a b
      else (env_eval env EcmptEq a b \<longleftrightarrow> val a = val b) \<and> (env_eval env EcmptL a b \<longleftrightarrow> val a < val b) \<and>
        (env_eval env EcmptLEq a b \<longleftrightarrow> val a \<le> val b) \<and> (env_eval env EcmptG a b \<longleftrightarrow> val b < val a) \<and>
        (env_eval env EcmptGEq a b \<longleftrightarrow> val b \<le> val a)" if "cls a" "cls b" for a b
    using assms(1) that by (simp add: evaluates_order_def)
  have c: "FConstrainableType env d" "\<not> use_stats env d d'" if "cls d" for d d'
    using assms(2) [OF that] by (auto simp: use_stats_def)
  show ?thesis
    by unfold_locales (use ev c in \<open>auto simp: dc_defs null_first_def split: if_splits\<close>)
qed

text \<open>
  the comparator over an external evaluator. When the evaluator computes the SQL comparisons
  of an order on a class of constrainable datums (none of them integers that the built-in
  evaluation takes over), the five comparisons of \<^verbatim>\<open>CDefaultComparator\<close> decide that order extended
  by NULL as the least datum, equal to itself, although the evaluator answers false on every NULL.
\<close>

theorem comparator_external_order:
  assumes "evaluates_order cls val (env_eval env)"
    and "\<And>d. cls d \<Longrightarrow> FConstrainableType env d \<and> (FUseBuiltinIntEvaluators env \<longrightarrow> \<not> FIntType d)"
    and "cls d1" and "cls d2"
  shows "(dc_Equals env d1 d2 \<longleftrightarrow> null_first val d1 = null_first val d2) \<and>
    (dc_IsLessThan env d1 d2 \<longleftrightarrow> null_first val d1 < null_first val d2) \<and>
    (dc_IsLessThanOrEqual env d1 d2 \<longleftrightarrow> null_first val d1 \<le> null_first val d2) \<and>
    (dc_IsGreaterThan env d1 d2 \<longleftrightarrow> null_first val d2 < null_first val d1) \<and>
    (dc_IsGreaterThanOrEqual env d1 d2 \<longleftrightarrow> null_first val d2 \<le> null_first val d1)"
proof -
  note order = external_order [OF assms(1,2)]
  show ?thesis
    using datum_order.eq_law [OF order assms(3,4)] datum_order.lt_law [OF order assms(3,4)]
      datum_order.le_law [OF order assms(3,4)] datum_order.gt_law [OF order assms(3,4)]
      datum_order.ge_law [OF order assms(3,4)]
    by (simp add: CDefaultComparator_def)
qed

text \<open>An external evaluator for a generic type whose datums carry their value in the double mapping.\<close>

definition generic_env :: "int cmp_env" where
  "generic_env = \<lparr>env_const_eval = True, env_ext_ints = False,
     env_eval = (\<lambda>t a b. \<not> dat_null a \<and> \<not> dat_null b \<and>
       (case t of EcmptEq \<Rightarrow> dat_double a = dat_double b | EcmptL \<Rightarrow> dat_double a < dat_double b
        | EcmptLEq \<Rightarrow> dat_double a \<le> dat_double b | EcmptG \<Rightarrow> dat_double b < dat_double a
        | EcmptGEq \<Rightarrow> dat_double b \<le> dat_double a | _ \<Rightarrow> False)),
     env_double_eq = (=), env_double_lt = (<)\<rparr>"

definition generic_datum :: "bool \<Rightarrow> int \<Rightarrow> int IDatum" where
  "generic_datum null n = \<lparr>dat_mdid = 1043, dat_type = EtiGeneric, dat_all_cmps = True, dat_time = False,
     dat_null = null, dat_is_lint = False, dat_is_double = True, dat_lint = 0, dat_double = n\<rparr>"

theorem comparator_external_order_witness:
  "dc_IsLessThan generic_env (generic_datum True 0) (generic_datum False (- 5)) \<and>
   dc_IsLessThanOrEqual generic_env (generic_datum False 3) (generic_datum False 4) \<and>
   dc_Equals generic_env (generic_datum True 1) (generic_datum True 2)"
proof -
  let ?cls = "\<lambda>d. dat_type d = EtiGeneric \<and> dat_all_cmps d"
  have ev: "evaluates_order ?cls dat_double (env_eval generic_env)"
    by (auto simp: evaluates_order_def generic_env_def)
  have cls: "FConstrainableType generic_env d \<and> (FUseBuiltinIntEvaluators generic_env \<longrightarrow> \<not> FIntType d)"
    if "?cls d" for d :: "int IDatum"
    using that by (simp add: FConstrainableType_def FIntType_def generic_env_def)
  have g: "?cls (generic_datum b n)" for b n by (simp add: generic_datum_def)
  show ?thesis
    using comparator_external_order [OF ev cls g g, of True 0 False "- 5"]
      comparator_external_order [OF ev cls g g, of False 3 False 4]
      comparator_external_order [OF ev cls g g, of True 1 True 2]
    by (simp add: null_first_def generic_datum_def)
qed

end
