(* ===== verification/Interval.thy ===== *)
theory Interval
  imports Datum
begin

text \<open>
  The interval algebra of \<^verbatim>\<open>libgpopt/src/base/CConstraintInterval.cpp\<close>: a constraint on
  one column as a sorted list of disjoint ranges and a flag for NULL. Union, intersection,
  difference, complement and containment are single sweeps over two lists of ranges; the pair
  of indexes of a C++ loop is the pair of the remaining lists. The column is its id, and whether
  its type can be constrained is the argument \<open>cons\<close>.

  The lemmas show that on valid intervals no sweep fails an assertion or touches an infinite end,
  that the results are valid again, and that they have exactly the values of the union,
  intersection, difference and complement.
\<close>

section \<open>Definitions\<close>

record 'd CConstraintInterval =
  ci_pcr :: ULONG
  ci_ranges :: "'d CRange list"
  ci_null :: bool

definition FContradiction :: "'d CConstraintInterval \<Rightarrow> bool" where
  "FContradiction pci \<longleftrightarrow> \<not> ci_null pci \<and> length (ci_ranges pci) = 0"

definition ci_IsConstraintUnbounded :: "'d CConstraintInterval \<Rightarrow> bool" where
  "ci_IsConstraintUnbounded pci \<longleftrightarrow>
     ci_null pci \<and> length (ci_ranges pci) = 1 \<and> rng_IsConstraintUnbounded (ci_ranges pci ! 0)"

definition AppendOrExtend ::
  "'d IComparator \<Rightarrow> 'd CRange list \<Rightarrow> 'd CRange option \<Rightarrow> 'd CRange list result" where
  "AppendOrExtend C rs prange =
     (case prange of
        None \<Rightarrow> Inr rs
      | Some r \<Rightarrow>
          if length rs = 0 then Inr (rs @ [r])
          else rbind (PrngExtend C (rs ! (length rs - 1)) r) (\<lambda>new.
                 case new of
                   None \<Rightarrow> Inr (rs @ [r])
                 | Some n \<Rightarrow> Inr (rs[length rs - 1 := n])))"

fun AddRemainingRanges ::
  "'d IComparator \<Rightarrow> 'd CRange list \<Rightarrow> 'd CRange list \<Rightarrow> 'd CRange list result" where
  "AddRemainingRanges C [] dest = Inr dest"
| "AddRemainingRanges C (r # rs) dest =
     rbind (AppendOrExtend C dest (Some r)) (\<lambda>dest'. AddRemainingRanges C rs dest')"

fun intersect_sweep ::
  "'d IComparator \<Rightarrow> 'd CRange list \<Rightarrow> 'd CRange list \<Rightarrow> 'd CRange list \<Rightarrow> 'd CRange list result" where
  "intersect_sweep C (this # fst_rest) (other # snd_rest) new =
     rbind (FEndsAfter C other this) (\<lambda>e.
       if e then
         rbind (PrngIntersect C this other) (\<lambda>n.
           intersect_sweep C fst_rest (other # snd_rest) (case n of None \<Rightarrow> new | Some r \<Rightarrow> new @ [r]))
       else
         rbind (PrngIntersect C other this) (\<lambda>n.
           intersect_sweep C (this # fst_rest) snd_rest (case n of None \<Rightarrow> new | Some r \<Rightarrow> new @ [r])))"
| "intersect_sweep C _ _ new = Inr new"

definition PciIntersect ::
  "'d IComparator \<Rightarrow> 'd CConstraintInterval \<Rightarrow> 'd CConstraintInterval \<Rightarrow> 'd CConstraintInterval result" where
  "PciIntersect C this pci =
     gpos_assert (ci_pcr this = ci_pcr pci)
       (rbind (intersect_sweep C (ci_ranges this) (ci_ranges pci) []) (\<lambda>new.
          Inr \<lparr>ci_pcr = ci_pcr this, ci_ranges = new, ci_null = (ci_null this \<and> ci_null pci)\<rparr>))"

fun union_sweep ::
  "'d IComparator \<Rightarrow> 'd CRange list \<Rightarrow> 'd CRange list \<Rightarrow> 'd CRange list \<Rightarrow> 'd CRange list result" where
  "union_sweep C (this # fst_rest) (other # snd_rest) new =
     rbind (FEndsAfter C other this) (\<lambda>e.
       if e then
         rbind (PrngDifferenceLeft C this other) (\<lambda>n.
           rbind (AppendOrExtend C new n) (\<lambda>new'. union_sweep C fst_rest (other # snd_rest) new'))
       else
         rbind (PrngDifferenceLeft C other this) (\<lambda>n.
           rbind (AppendOrExtend C new n) (\<lambda>new'. union_sweep C (this # fst_rest) snd_rest new')))"
| "union_sweep C fst_rest snd_rest new =
     rbind (AddRemainingRanges C fst_rest new) (\<lambda>new'. AddRemainingRanges C snd_rest new')"

definition PciUnion ::
  "'d IComparator \<Rightarrow> 'd CConstraintInterval \<Rightarrow> 'd CConstraintInterval \<Rightarrow> 'd CConstraintInterval result" where
  "PciUnion C this pci =
     gpos_assert (ci_pcr this = ci_pcr pci)
       (rbind (union_sweep C (ci_ranges this) (ci_ranges pci) []) (\<lambda>new.
          Inr \<lparr>ci_pcr = ci_pcr this, ci_ranges = new, ci_null = (ci_null this \<or> ci_null pci)\<rparr>))"

text \<open>The range to emit and the residual.\<close>

definition PrangeDiffWithRightResidual ::
  "'d IComparator \<Rightarrow> 'd CRange \<Rightarrow> 'd CRange \<Rightarrow> ('d CRange option \<times> 'd CRange option) result" where
  "PrangeDiffWithRightResidual C prangeFirst prangeSecond =
     (if FDisjointLeft C prangeSecond prangeFirst then Inr (None, None)
      else rbind (rng_Contains C prangeFirst prangeSecond) (\<lambda>c.
        rbind (if c then PrngDifferenceLeft C prangeFirst prangeSecond else Inr None) (\<lambda>ret.
          rbind (PrngDifferenceRight C prangeFirst prangeSecond) (\<lambda>residual.
            Inr (ret, residual)))))"

text \<open>
  The sweep of \<^verbatim>\<open>PciDifference\<close> with the residual of the current range, and what follows
  the loop: the residual replaces the current range.
\<close>

fun difference_sweep ::
  "'d IComparator \<Rightarrow> 'd CRange option \<Rightarrow> 'd CRange list \<Rightarrow> 'd CRange list \<Rightarrow> 'd CRange list
     \<Rightarrow> 'd CRange list result" where
  "difference_sweep C residual (f # fst_rest) (other # snd_rest) new =
     (let this = (case residual of None \<Rightarrow> f | Some r \<Rightarrow> r) in
      rbind (FEndsWithOrAfter C other this) (\<lambda>e.
        if e then
          rbind (PrngDifferenceLeft C this other) (\<lambda>n.
            rbind (AppendOrExtend C new n) (\<lambda>new'.
              difference_sweep C None fst_rest (other # snd_rest) new'))
        else
          rbind (PrangeDiffWithRightResidual C this other) (\<lambda>(n, residual').
            rbind (AppendOrExtend C new n) (\<lambda>new'.
              difference_sweep C residual' (f # fst_rest) snd_rest new'))))"
| "difference_sweep C residual fst_rest snd_rest new =
     rbind (AppendOrExtend C new residual) (\<lambda>new'.
       AddRemainingRanges C (if residual \<noteq> None then drop 1 fst_rest else fst_rest) new')"

definition PciDifference ::
  "'d IComparator \<Rightarrow> 'd CConstraintInterval \<Rightarrow> 'd CConstraintInterval \<Rightarrow> 'd CConstraintInterval result" where
  "PciDifference C this pci =
     gpos_assert (ci_pcr this = ci_pcr pci)
       (rbind (difference_sweep C None (ci_ranges this) (ci_ranges pci) []) (\<lambda>new.
          Inr \<lparr>ci_pcr = ci_pcr this, ci_ranges = new, ci_null = (ci_null this \<and> \<not> ci_null pci)\<rparr>))"

definition FContainsInterval ::
  "'d IComparator \<Rightarrow> 'd CConstraintInterval \<Rightarrow> 'd CConstraintInterval \<Rightarrow> bool result" where
  "FContainsInterval C this pci =
     gpos_assert (ci_pcr this = ci_pcr pci)
       (if ci_IsConstraintUnbounded this then Inr True
        else if ci_IsConstraintUnbounded pci \<or> (\<not> ci_null this \<and> ci_null pci) then Inr False
        else rbind (PciDifference C pci this) (\<lambda>diff. Inr (FContradiction diff)))"

definition PciUnbounded :: "(ULONG \<Rightarrow> bool) \<Rightarrow> ULONG \<Rightarrow> bool \<Rightarrow> 'd CConstraintInterval option" where
  "PciUnbounded cons colref fIncludesNull =
     (if \<not> cons colref then None
      else Some \<lparr>ci_pcr = colref,
             ci_ranges = [\<lparr>rng_left = None, rng_eriLeft = EriExcluded, rng_right = None, rng_eriRight = EriExcluded\<rparr>],
             ci_null = fIncludesNull\<rparr>)"

definition PciComplement ::
  "'d IComparator \<Rightarrow> (ULONG \<Rightarrow> bool) \<Rightarrow> 'd CConstraintInterval \<Rightarrow> 'd CConstraintInterval result" where
  "PciComplement C cons this =
     (case PciUnbounded cons (ci_pcr this) True of
        None \<Rightarrow> Inl NullDeref
      | Some pciUniversal \<Rightarrow> PciDifference C pciUniversal this)"

section \<open>Valid intervals and their values\<close>

fun ranges_sorted :: "('d \<Rightarrow> 'k::linorder) \<Rightarrow> 'd CRange list \<Rightarrow> bool" where
  "ranges_sorted key [] \<longleftrightarrow> True"
| "ranges_sorted key (r # rs) \<longleftrightarrow> (\<forall>s \<in> set rs. right_cut key r \<le> left_cut key s) \<and> ranges_sorted key rs"

definition ranges_ok :: "('d \<Rightarrow> bool) \<Rightarrow> ('d \<Rightarrow> 'k::linorder) \<Rightarrow> 'd CRange list \<Rightarrow> bool" where
  "ranges_ok cls key rs \<longleftrightarrow> (\<forall>r \<in> set rs. range_ok cls key r) \<and> ranges_sorted key rs"

definition in_ranges :: "('d \<Rightarrow> 'k::linorder) \<Rightarrow> 'd CRange list \<Rightarrow> 'k \<Rightarrow> bool" where
  "in_ranges key rs x \<longleftrightarrow> (\<exists>r \<in> set rs. in_range key r x)"

text \<open>The values of an interval: a key, or \<open>None\<close> for NULL.\<close>

definition in_interval :: "('d \<Rightarrow> 'k::linorder) \<Rightarrow> 'd CConstraintInterval \<Rightarrow> 'k option \<Rightarrow> bool" where
  "in_interval key pci v =
     (case v of None \<Rightarrow> ci_null pci | Some x \<Rightarrow> in_ranges key (ci_ranges pci) x)"

definition interval_ok :: "('d \<Rightarrow> bool) \<Rightarrow> ('d \<Rightarrow> 'k::linorder) \<Rightarrow> 'd CConstraintInterval \<Rightarrow> bool" where
  "interval_ok cls key pci \<longleftrightarrow> ranges_ok cls key (ci_ranges pci)"

lemma ranges_ok_Nil [simp]: "ranges_ok cls key []"
  by (simp add: ranges_ok_def)

lemma ranges_ok_Cons [simp]:
  "ranges_ok cls key (r # rs) \<longleftrightarrow>
     range_ok cls key r \<and> (\<forall>s \<in> set rs. right_cut key r \<le> left_cut key s) \<and> ranges_ok cls key rs"
  by (auto simp: ranges_ok_def)

lemma ranges_sorted_append:
  "ranges_sorted key (xs @ ys) \<longleftrightarrow>
     ranges_sorted key xs \<and> ranges_sorted key ys \<and>
     (\<forall>x \<in> set xs. \<forall>y \<in> set ys. right_cut key x \<le> left_cut key y)"
  by (induction xs) auto

lemma ranges_ok_append:
  "ranges_ok cls key (xs @ ys) \<longleftrightarrow>
     ranges_ok cls key xs \<and> ranges_ok cls key ys \<and>
     (\<forall>x \<in> set xs. \<forall>y \<in> set ys. right_cut key x \<le> left_cut key y)"
  by (auto simp: ranges_ok_def ranges_sorted_append)

lemma in_ranges_simps [simp]:
  "\<not> in_ranges key [] x"
  "in_ranges key (r # rs) x \<longleftrightarrow> in_range key r x \<or> in_ranges key rs x"
  "in_ranges key (rs @ ss) x \<longleftrightarrow> in_ranges key rs x \<or> in_ranges key ss x"
  by (auto simp: in_ranges_def)

text \<open>\<open>sep ds ss\<close>: every range of \<open>ds\<close> ends at or before the start of every range of \<open>ss\<close>.\<close>

definition sep :: "('d \<Rightarrow> 'k::linorder) \<Rightarrow> 'd CRange list \<Rightarrow> 'd CRange list \<Rightarrow> bool" where
  "sep key ds ss \<longleftrightarrow> (\<forall>d \<in> set ds. \<forall>s \<in> set ss. right_cut key d \<le> left_cut key s)"

lemma sep_Nil [simp]: "sep key [] ss" "sep key ds []"
  by (auto simp: sep_def)

lemma sep_Cons_right [simp]:
  "sep key ds (s # ss) \<longleftrightarrow> (\<forall>d \<in> set ds. right_cut key d \<le> left_cut key s) \<and> sep key ds ss"
  by (auto simp: sep_def)

lemma sep_append_left [simp]: "sep key (ds @ es) ss \<longleftrightarrow> sep key ds ss \<and> sep key es ss"
  by (auto simp: sep_def)

lemma sep_single: "sep key [d] ss \<longleftrightarrow> (\<forall>s \<in> set ss. right_cut key d \<le> left_cut key s)"
  by (simp add: sep_def)

lemma sepI_cut:
  "\<forall>d \<in> set ds. right_cut key d \<le> c \<Longrightarrow> \<forall>s \<in> set ss. c \<le> left_cut key s \<Longrightarrow> sep key ds ss"
  by (meson order_trans sep_def)

lemma ranges_ok_snoc:
  "ranges_ok cls key (rs @ [r]) \<longleftrightarrow> ranges_ok cls key rs \<and> range_ok cls key r \<and> sep key rs [r]"
  by (auto simp: ranges_ok_append)

lemma in_rangeD: "in_range key r x \<Longrightarrow> left_cut key r \<le> Below x" "in_range key r x \<Longrightarrow> Above x \<le> right_cut key r"
  by (simp_all add: in_range_cuts)

lemma not_in_ranges_after:
  assumes "\<forall>s \<in> set rs. c \<le> left_cut key s" and "Above x \<le> c"
  shows "\<not> in_ranges key rs x"
proof
  assume "in_ranges key rs x"
  then obtain s where "s \<in> set rs" "left_cut key s \<le> Below x"
    by (auto simp: in_ranges_def in_range_cuts)
  then have "c \<le> Below x" using assms(1) order_trans by blast
  with assms(2) show False using cut_side(2) by blast
qed

context datum_order
begin

abbreviation rsok :: "'d CRange list \<Rightarrow> bool" where "rsok \<equiv> ranges_ok cls key"
abbreviation inr :: "'d CRange \<Rightarrow> 'k \<Rightarrow> bool" where "inr \<equiv> in_range key"
abbreviation inrs :: "'d CRange list \<Rightarrow> 'k \<Rightarrow> bool" where "inrs \<equiv> in_ranges key"

lemma mk_in_range:
  assumes "ok a" and "ok b" and "rc a = lc b"
  shows "inr (mk a b) x \<longleftrightarrow> inr a x \<or> inr b x"
proof -
  have "lc a < lc b" "lc b < rc b" using okD(1) assms by metis+
  then show ?thesis using cut_side(1) [of "lc b" x] assms(3) by (auto simp: in_range_cuts)
qed

text \<open>What \<^verbatim>\<open>AppendOrExtend\<close> does to the accumulated ranges.\<close>

lemma append_or_extend_correct:
  assumes "rsok rs" and "ok r" and "sep key rs [r]"
  shows "\<exists>rs'. AppendOrExtend C rs (Some r) = Inr rs' \<and> rsok rs' \<and>
    (\<forall>d \<in> set rs'. rc d \<le> rc r) \<and> (\<forall>x. inrs rs' x \<longleftrightarrow> inrs rs x \<or> inr r x)"
proof (cases rs rule: rev_exhaust)
  case Nil
  then show ?thesis using assms(2) by (simp add: AppendOrExtend_def)
next
  case (snoc ys l)
  have l: "rsok ys" "ok l" "sep key ys [l]" "rc l \<le> lc r" using assms snoc by (auto simp: ranges_ok_snoc)
  have ys: "rc d \<le> rc r" if "d \<in> set ys" for d
    using that l(3,4) okD(1) [OF l(2)] okD(1) [OF assms(2)] by (auto simp: sep_def dest!: bspec)
  note e = extend_correct [OF l(2) assms(2) l(4)]
  show ?thesis
  proof (cases "rc l = lc r")
    case True
    have "AppendOrExtend C rs (Some r) = Inr (ys @ [mk l r])"
      using e(1) True by (simp add: AppendOrExtend_def snoc)
    moreover have "rsok (ys @ [mk l r])" using l e(2) [OF True] by (simp add: ranges_ok_snoc)
    ultimately show ?thesis
      using ys mk_in_range [OF l(2) assms(2) True] by (auto simp: snoc)
  next
    case False
    have "AppendOrExtend C rs (Some r) = Inr (rs @ [r])"
      using e(1) False by (simp add: AppendOrExtend_def snoc)
    moreover have "rsok (rs @ [r])" using assms by (simp add: ranges_ok_snoc)
    moreover have "rc l \<le> rc r" using l(4) okD(1) [OF assms(2)] by auto
    ultimately show ?thesis using ys by (auto simp: snoc)
  qed
qed

lemma add_remaining_correct:
  assumes "rsok src" and "rsok dest" and "sep key dest src"
  shows "\<exists>rs'. AddRemainingRanges C src dest = Inr rs' \<and> rsok rs' \<and> (\<forall>x. inrs rs' x \<longleftrightarrow> inrs dest x \<or> inrs src x)"
  using assms
proof (induction src arbitrary: dest)
  case (Cons r rs)
  then obtain d where d: "AppendOrExtend C dest (Some r) = Inr d" "rsok d" "\<forall>x \<in> set d. rc x \<le> rc r"
    "\<forall>x. inrs d x \<longleftrightarrow> inrs dest x \<or> inr r x"
    using append_or_extend_correct [of dest r] by (auto simp: sep_def)
  have "sep key d rs" using d(3) Cons.prems(1) by (intro sepI_cut [of _ _ "rc r"]) simp_all
  with Cons.IH [of d] Cons.prems(1) d show ?case by auto
qed simp

lemma diff_left_values:
  assumes "ok a" and "ok b" and "rc a \<le> rc b"
  shows "\<exists>n. PrngDifferenceLeft C a b = Inr n \<and>
    (case n of None \<Rightarrow> \<forall>x. inr a x \<longrightarrow> inr b x
     | Some m \<Rightarrow> ok m \<and> lc m = lc a \<and> rc m \<le> rc a \<and> rc m \<le> lc b \<and>
         (\<forall>x. inr m x \<longleftrightarrow> inr a x \<and> \<not> inr b x))"
proof -
  obtain n where n: "PrngDifferenceLeft C a b = Inr n"
    "case n of None \<Rightarrow> lc b \<le> lc a
     | Some n \<Rightarrow> ok n \<and> lc n = lc a \<and> rc n = min (rc a) (lc b) \<and> lc a < lc b"
    using difference_left_correct [OF assms(1,2)] by blast
  have "inr m x \<longleftrightarrow> inr a x \<and> \<not> inr b x" if "n = Some m" for m x
    using n(2) that assms(3) cut_side [of "lc b" x] by (auto simp: in_range_cuts)
  moreover have "inr a x \<longrightarrow> inr b x" if "n = None" for x
    using n(2) that assms(3) by (auto simp: in_range_cuts)
  ultimately show ?thesis using n by (auto split: option.splits)
qed

text \<open>The union sweep.\<close>

lemma union_step:
  assumes a: "rsok (a # as)" and b: "rsok (b # bs)" and new: "rsok new"
    and sa: "sep key new (a # as)" and sb: "sep key new (b # bs)" and le: "rc a \<le> rc b"
  obtains n new' where "PrngDifferenceLeft C a b = Inr n" and "AppendOrExtend C new n = Inr new'"
    and "rsok new'" and "sep key new' as" and "sep key new' (b # bs)"
    and "\<And>x. inrs new' x \<or> inrs as x \<or> inrs (b # bs) x \<longleftrightarrow> inrs new x \<or> inrs (a # as) x \<or> inrs (b # bs) x"
proof -
  have ab: "ok a" "ok b" using a b by simp_all
  obtain n where n: "PrngDifferenceLeft C a b = Inr n"
    "case n of None \<Rightarrow> \<forall>x. inr a x \<longrightarrow> inr b x
     | Some m \<Rightarrow> ok m \<and> lc m = lc a \<and> rc m \<le> rc a \<and> rc m \<le> lc b \<and> (\<forall>x. inr m x \<longleftrightarrow> inr a x \<and> \<not> inr b x)"
    using diff_left_values [OF ab le] by blast
  show ?thesis
  proof (cases n)
    case None
    with n new sa sb show ?thesis by (intro that [of n new]) (auto simp: AppendOrExtend_def)
  next
    case (Some m)
    then have m: "ok m" "lc m = lc a" "rc m \<le> rc a" "rc m \<le> lc b" "\<forall>x. inr m x \<longleftrightarrow> inr a x \<and> \<not> inr b x"
      using n(2) by auto
    have "sep key new [m]" using sa m(2) by simp
    then obtain new' where nw: "AppendOrExtend C new (Some m) = Inr new'" "rsok new'"
      "\<forall>d \<in> set new'. rc d \<le> rc m" "\<forall>x. inrs new' x \<longleftrightarrow> inrs new x \<or> inr m x"
      using append_or_extend_correct [OF new m(1)] by blast
    have "rc m \<le> lc s" if "s \<in> set as" for s using that a m(3) by (auto dest!: bspec)
    then have "sep key new' as" using nw(3) by (intro sepI_cut [of _ _ "rc m"]) simp_all
    moreover have "rc m \<le> lc s" if "s \<in> set bs" for s
      using b that okD(1) [OF ab(2)] m(4) by (auto dest!: bspec)
    then have "sep key new' (b # bs)" using nw(3) m(4) by (intro sepI_cut [of _ _ "rc m"]) simp_all
    ultimately show ?thesis using n(1) Some nw m(5) by (intro that [of n new']) auto
  qed
qed

lemma union_sweep_correct:
  "rsok as \<Longrightarrow> rsok bs \<Longrightarrow> rsok new \<Longrightarrow> sep key new as \<Longrightarrow> sep key new bs \<Longrightarrow>
   \<exists>rs. union_sweep C as bs new = Inr rs \<and> rsok rs \<and> (\<forall>x. inrs rs x \<longleftrightarrow> inrs new x \<or> inrs as x \<or> inrs bs x)"
proof (induction "length as + length bs" arbitrary: as bs new rule: less_induct)
  case less
  show ?case
  proof (cases "as = [] \<or> bs = []")
    case True
    then show ?thesis
      using add_remaining_correct [of as new] add_remaining_correct [of bs new] less.prems
      by (cases as; cases bs) auto
  next
    case False
    then obtain a as' b bs' where e: "as = a # as'" "bs = b # bs'" by (cases as; cases bs) auto
    have ab: "ok a" "ok b" using less.prems e by simp_all
    note ends = ends_after_iff [OF ab(2,1)]
    show ?thesis
    proof (cases "rc a < rc b \<or> rc b = PosInf \<and> rc a = PosInf")
      case True
      then have le: "rc a \<le> rc b" by auto
      obtain n new' where n: "PrngDifferenceLeft C a b = Inr n" "AppendOrExtend C new n = Inr new'"
        "rsok new'" "sep key new' as'" "sep key new' bs"
        "\<And>x. inrs new' x \<or> inrs as' x \<or> inrs bs x \<longleftrightarrow> inrs new x \<or> inrs as x \<or> inrs bs x"
        using union_step [OF _ _ _ _ _ le, of as' bs' new] less.prems unfolding e by blast
      have "length as' + length bs < length as + length bs" by (simp add: e)
      from less.hyps [OF this _ less.prems(2) n(3,4,5)] less.prems(1) n(6)
      show ?thesis using True ends n(1,2) by (auto simp: e)
    next
      case False
      then have le: "rc b \<le> rc a" by auto
      obtain n new' where n: "PrngDifferenceLeft C b a = Inr n" "AppendOrExtend C new n = Inr new'"
        "rsok new'" "sep key new' bs'" "sep key new' as"
        "\<And>x. inrs new' x \<or> inrs bs' x \<or> inrs as x \<longleftrightarrow> inrs new x \<or> inrs bs x \<or> inrs as x"
        using union_step [OF _ _ _ _ _ le, of bs' as' new] less.prems unfolding e by blast
      have "length as + length bs' < length as + length bs" by (simp add: e)
      from less.hyps [OF this less.prems(1) _ n(3,5,4)] less.prems(2) n(6)
      show ?thesis using False ends n(1,2) by (auto simp: e)
    qed
  qed
qed

text \<open>The intersection sweep.\<close>

lemma intersect_values:
  assumes "ok a" and "ok b"
  shows "\<exists>n. PrngIntersect C a b = Inr n \<and>
    (case n of None \<Rightarrow> \<forall>x. \<not> (inr a x \<and> inr b x)
     | Some m \<Rightarrow> ok m \<and> lc m = max (lc a) (lc b) \<and> rc m = min (rc a) (rc b) \<and>
         (\<forall>x. inr m x \<longleftrightarrow> inr a x \<and> inr b x))"
proof -
  obtain n where n: "PrngIntersect C a b = Inr n"
    "case n of None \<Rightarrow> min (rc a) (rc b) \<le> max (lc a) (lc b)
     | Some n \<Rightarrow> ok n \<and> lc n = max (lc a) (lc b) \<and> rc n = min (rc a) (rc b)"
    using intersect_correct [OF assms] by blast
  have "\<not> (inr a x \<and> inr b x)" if "n = None" for x
  proof
    assume "inr a x \<and> inr b x"
    then have "max (lc a) (lc b) \<le> Below x" "Above x \<le> min (rc a) (rc b)" by (auto simp: in_range_cuts)
    moreover have "min (rc a) (rc b) \<le> max (lc a) (lc b)" using n(2) that by simp
    ultimately have "Above x \<le> max (lc a) (lc b)" by (meson order_trans)
    with \<open>max (lc a) (lc b) \<le> Below x\<close> show False using cut_side(2) by blast
  qed
  moreover have "inr m x \<longleftrightarrow> inr a x \<and> inr b x" if "n = Some m" for m x
    using n(2) that by (auto simp: in_range_cuts)
  ultimately show ?thesis using n by (cases n) simp_all
qed

text \<open>
  One step, in which the range \<open>a\<close> that ends first is left behind: the accumulated ranges end
  before the rest of one of the two lists.
\<close>

lemma intersect_step:
  assumes a: "rsok (a # as)" and b: "rsok (b # bs)" and new: "rsok new"
    and s: "sep key new (a # as) \<or> sep key new (b # bs)" and le: "rc a \<le> rc b"
    and n: "case n of None \<Rightarrow> \<forall>x. \<not> (inr a x \<and> inr b x)
     | Some m \<Rightarrow> ok m \<and> lc m = max (lc a) (lc b) \<and> rc m = min (rc a) (rc b) \<and> (\<forall>x. inr m x \<longleftrightarrow> inr a x \<and> inr b x)"
  defines "new' \<equiv> (case n of None \<Rightarrow> new | Some r \<Rightarrow> new @ [r])"
  shows "rsok new'" and "sep key new' as \<or> sep key new' (b # bs)"
    and "inrs new' x \<or> (inrs as x \<and> inrs (b # bs) x) \<longleftrightarrow>
      inrs new x \<or> (inrs (a # as) x \<and> inrs (b # bs) x)"
proof -
  have nb: "\<not> inrs bs x" if "inr a x" for x
    using not_in_ranges_after [of bs "rc b" key x] b le in_rangeD(2) [OF that] by auto
  have "rsok new' \<and> (sep key new' as \<or> sep key new' (b # bs)) \<and>
    (inrs new' x \<or> (inrs as x \<and> inrs (b # bs) x) \<longleftrightarrow> inrs new x \<or> (inrs (a # as) x \<and> inrs (b # bs) x))"
  proof (cases n)
    case None
    then show ?thesis using new s n nb by (auto simp: new'_def)
  next
    case (Some m)
    then have m: "ok m" "lc m = max (lc a) (lc b)" "rc m = rc a" "\<forall>x. inr m x \<longleftrightarrow> inr a x \<and> inr b x"
      using n le by auto
    have before: "\<forall>d \<in> set new. rc d \<le> lc m" using s m(2) by (auto simp: le_max_iff_disj)
    then have sm: "sep key new [m]" by simp
    have "\<forall>d \<in> set (new @ [m]). rc d \<le> rc a" using before okD(1) [OF m(1)] m(3) by auto
    moreover have "\<forall>s \<in> set as. rc a \<le> lc s" using a by simp
    ultimately have "sep key (new @ [m]) as" by (rule sepI_cut)
    then show ?thesis using Some new m(1,4) sm nb by (auto simp: new'_def ranges_ok_snoc)
  qed
  then show "rsok new'" and "sep key new' as \<or> sep key new' (b # bs)"
    and "inrs new' x \<or> (inrs as x \<and> inrs (b # bs) x) \<longleftrightarrow>
      inrs new x \<or> (inrs (a # as) x \<and> inrs (b # bs) x)" by blast+
qed

lemma intersect_sweep_correct:
  "rsok as \<Longrightarrow> rsok bs \<Longrightarrow> rsok new \<Longrightarrow> sep key new as \<or> sep key new bs \<Longrightarrow>
   \<exists>rs. intersect_sweep C as bs new = Inr rs \<and> rsok rs \<and> (\<forall>x. inrs rs x \<longleftrightarrow> inrs new x \<or> (inrs as x \<and> inrs bs x))"
proof (induction "length as + length bs" arbitrary: as bs new rule: less_induct)
  case less
  show ?case
  proof (cases "as = [] \<or> bs = []")
    case True
    then show ?thesis using less.prems by (cases as; cases bs) auto
  next
    case False
    then obtain a as' b bs' where e: "as = a # as'" "bs = b # bs'" by (cases as; cases bs) auto
    have ab: "ok a" "ok b" using less.prems e by simp_all
    note ends = ends_after_iff [OF ab(2,1)]
    show ?thesis
    proof (cases "rc a < rc b \<or> rc b = PosInf \<and> rc a = PosInf")
      case True
      then have le: "rc a \<le> rc b" by auto
      obtain n where n: "PrngIntersect C a b = Inr n"
        "case n of None \<Rightarrow> \<forall>x. \<not> (inr a x \<and> inr b x)
         | Some m \<Rightarrow> ok m \<and> lc m = max (lc a) (lc b) \<and> rc m = min (rc a) (rc b) \<and> (\<forall>x. inr m x \<longleftrightarrow> inr a x \<and> inr b x)"
        using intersect_values [OF ab] by blast
      note st = intersect_step [OF less.prems(1,2) [unfolded e] less.prems(3) less.prems(4) [unfolded e] le n(2)]
      have "length as' + length bs < length as + length bs" by (simp add: e)
      from less.hyps [OF this _ less.prems(2) st(1)] less.prems(1) st(2,3)
      show ?thesis using True ends n(1) by (auto simp: e)
    next
      case False
      then have le: "rc b \<le> rc a" by auto
      obtain n where n: "PrngIntersect C b a = Inr n"
        "case n of None \<Rightarrow> \<forall>x. \<not> (inr b x \<and> inr a x)
         | Some m \<Rightarrow> ok m \<and> lc m = max (lc b) (lc a) \<and> rc m = min (rc b) (rc a) \<and> (\<forall>x. inr m x \<longleftrightarrow> inr b x \<and> inr a x)"
        using intersect_values [OF ab(2,1)] by blast
      have "sep key new (b # bs') \<or> sep key new (a # as')" using less.prems(4) e by blast
      note st = intersect_step [OF less.prems(2,1) [unfolded e] less.prems(3) this le n(2)]
      have "length as + length bs' < length as + length bs" by (simp add: e)
      moreover have "sep key (case n of None \<Rightarrow> new | Some r \<Rightarrow> new @ [r]) as \<or>
          sep key (case n of None \<Rightarrow> new | Some r \<Rightarrow> new @ [r]) bs'" using st(2) e by blast
      moreover have "rsok bs'" using less.prems(2) e by simp
      ultimately obtain rs where rs: "intersect_sweep C as bs' (case n of None \<Rightarrow> new | Some r \<Rightarrow> new @ [r]) = Inr rs"
        "rsok rs" "\<forall>x. inrs rs x \<longleftrightarrow> inrs (case n of None \<Rightarrow> new | Some r \<Rightarrow> new @ [r]) x \<or> (inrs as x \<and> inrs bs' x)"
        using less.hyps [OF _ less.prems(1) _ st(1)] by blast
      have "intersect_sweep C as bs new = Inr rs" using rs(1) False ends n(1) by (auto simp: e)
      moreover have "inrs rs x \<longleftrightarrow> inrs new x \<or> (inrs as x \<and> inrs bs x)" for x
        using rs(3) st(3) [of x] unfolding e by blast
      ultimately show ?thesis using rs(2) by blast
    qed
  qed
qed

text \<open>
  The difference sweep. The ranges still to be reduced are the residual, or the current range
  when there is none, and the ranges behind it.
\<close>

definition current :: "'d CRange option \<Rightarrow> 'd CRange list \<Rightarrow> 'd CRange list" where
  "current residual rs = (case residual of None \<Rightarrow> rs | Some r \<Rightarrow> r # drop 1 rs)"

lemma diff_right_values:
  assumes "ok a" and "ok b" and "rc b < rc a" and "lc a < rc b"
  shows "\<exists>n m. PrangeDiffWithRightResidual C a b = Inr (n, Some m) \<and> ok m \<and> lc m = rc b \<and> rc m = rc a \<and>
    (case n of None \<Rightarrow> lc b \<le> lc a | Some l \<Rightarrow> ok l \<and> lc l = lc a \<and> rc l = lc b)"
proof -
  have nd: "\<not> FDisjointLeft C b a" using disjoint_left_iff [OF assms(2,1)] assms(4) by simp
  obtain l where l: "PrngDifferenceLeft C a b = Inr l"
    "case l of None \<Rightarrow> lc b \<le> lc a
     | Some n \<Rightarrow> ok n \<and> lc n = lc a \<and> rc n = min (rc a) (lc b) \<and> lc a < lc b"
    using difference_left_correct [OF assms(1,2)] by blast
  obtain m where m: "PrngDifferenceRight C a b = Inr m"
    "case m of None \<Rightarrow> rc a \<le> rc b
     | Some n \<Rightarrow> ok n \<and> lc n = max (lc a) (rc b) \<and> rc n = rc a \<and> rc b < rc a"
    using difference_right_correct [OF assms(1,2)] by blast
  obtain m' where m': "m = Some m'" "ok m'" "lc m' = rc b" "rc m' = rc a"
    using m(2) assms(3,4) by (cases m) auto
  have "lc b < rc a" using okD(1) [OF assms(2)] assms(3) by simp
  then have "case (if lc a \<le> lc b then l else None) of None \<Rightarrow> lc b \<le> lc a
      | Some k \<Rightarrow> ok k \<and> lc k = lc a \<and> rc k = lc b"
    using l(2) by (cases l) auto
  moreover have "PrangeDiffWithRightResidual C a b = Inr (if lc a \<le> lc b then l else None, Some m')"
    using nd contains_iff [OF assms(1,2)] l(1) m(1) m'(1) less_imp_le [OF assms(3)]
    by (simp add: PrangeDiffWithRightResidual_def)
  ultimately show ?thesis using m' by blast
qed

lemma difference_ends_step:
  assumes rs: "rsok (t # ts)" and bs: "rsok (b # bs)" and new: "rsok new" and s: "sep key new (t # ts)"
    and le: "rc t \<le> rc b"
  obtains n new' where "PrngDifferenceLeft C t b = Inr n" and "AppendOrExtend C new n = Inr new'"
    and "rsok new'" and "sep key new' ts"
    and "\<And>x. inrs new' x \<longleftrightarrow> inrs new x \<or> (inr t x \<and> \<not> inrs (b # bs) x)"
proof -
  have tb: "ok t" "ok b" using rs bs by simp_all
  have nb: "\<not> inrs bs x" if "inr t x" for x
    using not_in_ranges_after [of bs "rc b" key x] bs le in_rangeD(2) [OF that] by auto
  obtain n where n: "PrngDifferenceLeft C t b = Inr n"
    "case n of None \<Rightarrow> \<forall>x. inr t x \<longrightarrow> inr b x
     | Some m \<Rightarrow> ok m \<and> lc m = lc t \<and> rc m \<le> rc t \<and> rc m \<le> lc b \<and> (\<forall>x. inr m x \<longleftrightarrow> inr t x \<and> \<not> inr b x)"
    using diff_left_values [OF tb le] by blast
  show ?thesis
  proof (cases n)
    case None
    with n new s nb show ?thesis by (intro that [of n new]) (auto simp: AppendOrExtend_def)
  next
    case (Some m)
    then have m: "ok m" "lc m = lc t" "rc m \<le> rc t" "\<forall>x. inr m x \<longleftrightarrow> inr t x \<and> \<not> inr b x"
      using n(2) by auto
    obtain new' where nw: "AppendOrExtend C new (Some m) = Inr new'" "rsok new'"
      "\<forall>d \<in> set new'. rc d \<le> rc m" "\<forall>x. inrs new' x \<longleftrightarrow> inrs new x \<or> inr m x"
      using append_or_extend_correct [OF new m(1)] s m(2) by auto
    have "rc m \<le> lc u" if "u \<in> set ts" for u using that rs m(3) by (auto dest!: bspec)
    then have "sep key new' ts" using nw(3) by (intro sepI_cut [of _ _ "rc m"]) simp_all
    with n(1) Some nw m(4) nb show ?thesis by (intro that [of n new']) auto
  qed
qed

lemma difference_residual_step:
  assumes rs: "rsok (t # ts)" and bs: "rsok (b # bs)" and new: "rsok new" and s: "sep key new (t # ts)"
    and lt: "rc b < rc t" and ov: "lc t < rc b"
  obtains n m new' where "PrangeDiffWithRightResidual C t b = Inr (n, Some m)"
    and "AppendOrExtend C new n = Inr new'" and "rsok new'" and "rsok (m # ts)" and "sep key new' (m # ts)"
    and "\<forall>u \<in> set bs. lc m \<le> lc u"
    and "\<And>x. inrs new' x \<or> (inrs (m # ts) x \<and> \<not> inrs bs x) \<longleftrightarrow>
      inrs new x \<or> (inrs (t # ts) x \<and> \<not> inrs (b # bs) x)"
proof -
  have tb: "ok t" "ok b" using rs bs by simp_all
  obtain n m where nm: "PrangeDiffWithRightResidual C t b = Inr (n, Some m)" "ok m" "lc m = rc b" "rc m = rc t"
    "case n of None \<Rightarrow> lc b \<le> lc t | Some l \<Rightarrow> ok l \<and> lc l = lc t \<and> rc l = lc b"
    using diff_right_values [OF tb lt ov] by blast
  have mts: "rsok (m # ts)" using nm(2,4) rs by simp
  have bsm: "\<forall>u \<in> set bs. lc m \<le> lc u" using bs nm(3) by simp
  have nts: "\<not> inr b x" if "inrs ts x" for x
    using not_in_ranges_after [of ts "rc t" key x] rs that lt in_rangeD(2) [of key b x] by (meson order.trans less_imp_le ranges_ok_Cons)
  have nbs: "\<not> inrs bs x" if "Above x \<le> rc b" for x
    using not_in_ranges_after [of bs "rc b" key x] bs that by simp
  have ltb: "lc b < rc b" by (rule okD(1) [OF tb(2)])
  show ?thesis
  proof (cases n)
    case None
    then have le: "lc b \<le> lc t" using nm(5) by simp
    have "inr m x \<longleftrightarrow> inr t x \<and> \<not> inr b x" for x
      using le lt ov nm(3,4) cut_side [of "rc b" x] by (auto simp: in_range_cuts)
    moreover have "sep key new (m # ts)" using s ov nm(3) by (auto dest!: bspec)
    moreover have "inrs new x \<or> (inrs (m # ts) x \<and> \<not> inrs bs x) \<longleftrightarrow>
        inrs new x \<or> (inrs (t # ts) x \<and> \<not> inrs (b # bs) x)" for x
      using calculation(1) [of x] nts [of x] by auto
    ultimately show ?thesis
      using None new mts bsm nm(1) by (intro that [of n m new]) (simp_all add: AppendOrExtend_def)
  next
    case (Some l)
    then have l: "ok l" "lc l = lc t" "rc l = lc b" using nm(5) by auto
    obtain new' where nw: "AppendOrExtend C new (Some l) = Inr new'" "rsok new'"
      "\<forall>d \<in> set new'. rc d \<le> rc l" "\<forall>x. inrs new' x \<longleftrightarrow> inrs new x \<or> inr l x"
      using append_or_extend_correct [OF new l(1)] s l(2) by auto
    have "rc l \<le> lc u" if "u \<in> set (m # ts)" for u
      using that rs l(3) ltb lt nm(3) by (auto dest!: bspec)
    then have sp: "sep key new' (m # ts)" using nw(3) by (intro sepI_cut [of _ _ "rc l"]) simp_all
    have tx: "inr t x \<and> \<not> inr b x \<longleftrightarrow> inr l x \<or> inr m x" for x
      using l(2,3) okD(1) [OF l(1)] nm(3,4) ltb lt cut_side [of "rc b" x] cut_side [of "lc b" x]
      by (auto simp: in_range_cuts)
    have lx: "\<not> inrs bs x" if "inr l x" for x
      using nbs [of x] in_rangeD(2) [OF that] l(3) ltb by simp
    have "inrs new' x \<or> (inrs (m # ts) x \<and> \<not> inrs bs x) \<longleftrightarrow>
        inrs new x \<or> (inrs (t # ts) x \<and> \<not> inrs (b # bs) x)" for x
      using nw(4) tx [of x] lx [of x] nts [of x] by auto
    with nm(1) Some nw mts sp bsm show ?thesis by (intro that [of n m new']) simp_all
  qed
qed

lemma difference_sweep_correct:
  "rsok as \<Longrightarrow> rsok (current residual as) \<Longrightarrow> rsok bs \<Longrightarrow> rsok new \<Longrightarrow> sep key new (current residual as) \<Longrightarrow>
   (\<forall>r. residual = Some r \<longrightarrow> as \<noteq> [] \<and> (\<forall>u \<in> set bs. lc r \<le> lc u)) \<Longrightarrow>
   \<exists>rs. difference_sweep C residual as bs new = Inr rs \<and> rsok rs \<and>
     (\<forall>x. inrs rs x \<longleftrightarrow> inrs new x \<or> (inrs (current residual as) x \<and> \<not> inrs bs x))"
proof (induction "length as + length bs" arbitrary: residual as bs new rule: less_induct)
  case less
  show ?case
  proof (cases "as = [] \<or> bs = []")
    case True
    have add: "\<exists>rs. AddRemainingRanges C (current residual as) new = Inr rs \<and> rsok rs \<and>
        (\<forall>x. inrs rs x \<longleftrightarrow> inrs new x \<or> inrs (current residual as) x)"
      using add_remaining_correct less.prems by blast
    have "difference_sweep C residual as bs new = AddRemainingRanges C (current residual as) new"
      using True less.prems(6)
      by (cases as; cases bs; cases residual) (auto simp: current_def AppendOrExtend_def [of C new None])
    with add True less.prems(6) show ?thesis by (cases as; cases residual) (auto simp: current_def)
  next
    case False
    then obtain a as' b bs' where e: "as = a # as'" "bs = b # bs'" by (cases as; cases bs) auto
    define t where "t = (case residual of None \<Rightarrow> a | Some r \<Rightarrow> r)"
    have cur: "current residual as = t # as'" by (simp add: current_def t_def e split: option.splits)
    have tb: "ok t" "ok b" using less.prems(2,3) cur e by simp_all
    have c: "rsok (t # as')" "sep key new (t # as')" using less.prems(2,5) unfolding cur by blast+
    have "rsok (b # bs')" using less.prems(3) unfolding e by blast
    note prems = c(1) this less.prems(4) c(2)
    note ends = ends_with_or_after_iff [OF tb(2,1)]
    show ?thesis
    proof (cases "rc t \<le> rc b")
      case True
      obtain n new' where n: "PrngDifferenceLeft C t b = Inr n" "AppendOrExtend C new n = Inr new'"
        "rsok new'" "sep key new' as'" "\<And>x. inrs new' x \<longleftrightarrow> inrs new x \<or> (inr t x \<and> \<not> inrs bs x)"
        using difference_ends_step [OF prems True] unfolding e by blast
      have eq: "difference_sweep C residual as bs new = difference_sweep C None as' bs new'"
        using True ends n(1,2) by (simp add: e Let_def flip: t_def)
      have "\<exists>rs. difference_sweep C None as' bs new' = Inr rs \<and> rsok rs \<and>
          (\<forall>x. inrs rs x \<longleftrightarrow> inrs new' x \<or> (inrs as' x \<and> \<not> inrs bs x))"
        using less.hyps [of as' bs None new'] less.prems(1,3) n(3,4) by (simp add: e current_def)
      then show ?thesis unfolding eq cur using n(5) by auto
    next
      case gt: False
      show ?thesis
      proof (cases "lc t < rc b")
        case True
        obtain n m new' where n: "PrangeDiffWithRightResidual C t b = Inr (n, Some m)"
          "AppendOrExtend C new n = Inr new'" "rsok new'" "rsok (m # as')" "sep key new' (m # as')"
          "\<forall>u \<in> set bs'. lc m \<le> lc u"
          "\<And>x. inrs new' x \<or> (inrs (m # as') x \<and> \<not> inrs bs' x) \<longleftrightarrow>
            inrs new x \<or> (inrs (t # as') x \<and> \<not> inrs bs x)"
          using difference_residual_step [OF prems _ True] gt unfolding e by (metis not_le)
        have eq: "difference_sweep C residual as bs new = difference_sweep C (Some m) as bs' new'"
          using gt ends n(1,2) by (simp add: e Let_def flip: t_def)
        have "\<exists>rs. difference_sweep C (Some m) as bs' new' = Inr rs \<and> rsok rs \<and>
            (\<forall>x. inrs rs x \<longleftrightarrow> inrs new' x \<or> (inrs (m # as') x \<and> \<not> inrs bs' x))"
          using less.hyps [of as bs' "Some m" new'] less.prems(1,3) n(3-6) by (simp add: e current_def)
        then show ?thesis unfolding eq cur using n(7) by auto
      next
        case False
        have res: "residual = None"
        proof (rule ccontr)
          assume "residual \<noteq> None"
          then have "lc t \<le> lc b" using less.prems(6) e by (auto simp: t_def)
          with False okD(1) [OF tb(2)] show False by simp
        qed
        then have t: "t = a" by (simp add: t_def)
        have nb: "\<not> inr b x" if "inrs as x" for x
        proof
          assume "inr b x"
          then have "Above x \<le> lc a" using in_rangeD(2) False t by (metis not_le order_trans)
          moreover have "\<forall>s \<in> set as. lc a \<le> lc s"
            using less.prems(1) okD(1) [OF tb(1)] t by (auto simp: e dest!: bspec)
          ultimately show False using not_in_ranges_after that by blast
        qed
        have eq: "difference_sweep C residual as bs new = difference_sweep C None as bs' new"
          using gt ends leI [OF False] disjoint_left_iff [OF tb(2,1)] t
          by (simp add: e Let_def res PrangeDiffWithRightResidual_def AppendOrExtend_def)
        have "\<exists>rs. difference_sweep C None as bs' new = Inr rs \<and> rsok rs \<and>
            (\<forall>x. inrs rs x \<longleftrightarrow> inrs new x \<or> (inrs as x \<and> \<not> inrs bs' x))"
          using less.hyps [of as bs' None new] less.prems res by (simp add: e current_def)
        then show ?thesis unfolding eq cur using nb by (auto simp: e t)
      qed
    qed
  qed
qed

text \<open>The operations on intervals.\<close>

abbreviation iok :: "'d CConstraintInterval \<Rightarrow> bool" where "iok \<equiv> interval_ok cls key"
abbreviation ini :: "'d CConstraintInterval \<Rightarrow> 'k option \<Rightarrow> bool" where "ini \<equiv> in_interval key"

lemma PciUnion_correct:
  assumes "iok a" and "iok b" and "ci_pcr a = ci_pcr b"
  shows "\<exists>r. PciUnion C a b = Inr r \<and> iok r \<and> ci_pcr r = ci_pcr a \<and> (\<forall>v. ini r v \<longleftrightarrow> ini a v \<or> ini b v)"
proof -
  obtain rs where "union_sweep C (ci_ranges a) (ci_ranges b) [] = Inr rs" "rsok rs"
    "\<forall>x. inrs rs x \<longleftrightarrow> inrs (ci_ranges a) x \<or> inrs (ci_ranges b) x"
    using union_sweep_correct [of "ci_ranges a" "ci_ranges b" "[]"] assms by (auto simp: interval_ok_def)
  then show ?thesis using assms by (auto simp: PciUnion_def interval_ok_def in_interval_def split: option.splits)
qed

lemma PciIntersect_correct:
  assumes "iok a" and "iok b" and "ci_pcr a = ci_pcr b"
  shows "\<exists>r. PciIntersect C a b = Inr r \<and> iok r \<and> ci_pcr r = ci_pcr a \<and> (\<forall>v. ini r v \<longleftrightarrow> ini a v \<and> ini b v)"
proof -
  obtain rs where "intersect_sweep C (ci_ranges a) (ci_ranges b) [] = Inr rs" "rsok rs"
    "\<forall>x. inrs rs x \<longleftrightarrow> inrs (ci_ranges a) x \<and> inrs (ci_ranges b) x"
    using intersect_sweep_correct [of "ci_ranges a" "ci_ranges b" "[]"] assms by (auto simp: interval_ok_def)
  then show ?thesis using assms by (auto simp: PciIntersect_def interval_ok_def in_interval_def split: option.splits)
qed

lemma PciDifference_correct:
  assumes "iok a" and "iok b" and "ci_pcr a = ci_pcr b"
  shows "\<exists>r. PciDifference C a b = Inr r \<and> iok r \<and> ci_pcr r = ci_pcr a \<and> (\<forall>v. ini r v \<longleftrightarrow> ini a v \<and> \<not> ini b v)"
proof -
  obtain rs where "difference_sweep C None (ci_ranges a) (ci_ranges b) [] = Inr rs" "rsok rs"
    "\<forall>x. inrs rs x \<longleftrightarrow> inrs (ci_ranges a) x \<and> \<not> inrs (ci_ranges b) x"
    using difference_sweep_correct [of "ci_ranges a" None "ci_ranges b" "[]"] assms
    by (auto simp: interval_ok_def current_def)
  then show ?thesis using assms by (auto simp: PciDifference_def interval_ok_def in_interval_def split: option.splits)
qed

lemma unbounded_ok:
  assumes "PciUnbounded cons colref null = Some pci"
  shows "iok pci" and "ci_pcr pci = colref" and "ini pci v \<longleftrightarrow> (case v of None \<Rightarrow> null | Some _ \<Rightarrow> True)"
  using assms by (auto simp: PciUnbounded_def interval_ok_def range_ok_def cut_defs in_interval_def in_range_def
      split: if_splits option.splits)

lemma PciComplement_correct:
  assumes "iok a" and "cons (ci_pcr a)"
  shows "\<exists>r. PciComplement C cons a = Inr r \<and> iok r \<and> ci_pcr r = ci_pcr a \<and> (\<forall>v. ini r v \<longleftrightarrow> \<not> ini a v)"
proof -
  obtain u :: "'d CConstraintInterval" where u: "PciUnbounded cons (ci_pcr a) True = Some u"
    using assms(2) by (simp add: PciUnbounded_def)
  note uo = unbounded_ok [OF u]
  obtain r where "PciDifference C u a = Inr r" "iok r" "ci_pcr r = ci_pcr u" "\<forall>v. ini r v \<longleftrightarrow> ini u v \<and> \<not> ini a v"
    using PciDifference_correct [OF uo(1) assms(1) uo(2)] by blast
  with u uo show ?thesis by (auto simp: PciComplement_def split: option.splits)
qed

lemma contradiction_empty: "FContradiction a \<Longrightarrow> \<not> ini a v"
  by (simp add: FContradiction_def in_interval_def split: option.splits)

lemma FContainsInterval_sound:
  assumes "iok a" and "iok b" and "ci_pcr a = ci_pcr b"
  shows "\<exists>c. FContainsInterval C a b = Inr c \<and> (c \<longrightarrow> (\<forall>v. ini b v \<longrightarrow> ini a v))"
proof -
  obtain r where "PciDifference C b a = Inr r" "\<forall>v. ini r v \<longleftrightarrow> ini b v \<and> \<not> ini a v"
    using PciDifference_correct [OF assms(2,1)] assms(3) by auto
  moreover have "ini a v" if "ci_IsConstraintUnbounded a" for v
    using that by (cases "ci_ranges a")
      (auto simp: ci_IsConstraintUnbounded_def rng_IsConstraintUnbounded_def in_interval_def in_range_def
        split: option.splits)
  ultimately show ?thesis using assms(3) contradiction_empty [of r] by (auto simp: FContainsInterval_def)
qed

end

section \<open>Properties\<close>

text \<open>Integer intervals over the built-in comparator, for the concrete instances below.\<close>

definition sample_env :: "int cmp_env" where
  "sample_env = \<lparr>env_const_eval = False, env_ext_ints = False, env_eval = (\<lambda>_ _ _. False),
     env_double_eq = (=), env_double_lt = (<)\<rparr>"

definition int4 :: "int \<Rightarrow> int IDatum" where
  "int4 n = \<lparr>dat_mdid = 23, dat_type = EtiInt4, dat_all_cmps = True, dat_time = False, dat_null = False,
     dat_is_lint = True, dat_is_double = False, dat_lint = n, dat_double = n\<rparr>"

definition int_cmp :: "int IDatum IComparator" where
  "int_cmp = CDefaultComparator (sample_env\<lparr>env_ext_ints := False\<rparr>)"

lemma int_cmp_order: "datum_order int_cmp int_datum int_key"
  unfolding int_cmp_def by (rule builtin_int_order)

text \<open>The interval of the integers from \<open>l\<close> to \<open>u\<close>, without NULL.\<close>

definition int_interval :: "int \<Rightarrow> int \<Rightarrow> int IDatum CConstraintInterval" where
  "int_interval l u = \<lparr>ci_pcr = 7, ci_ranges = [\<lparr>rng_left = Some (int4 l), rng_eriLeft = EriIncluded,
     rng_right = Some (int4 u), rng_eriRight = EriIncluded\<rparr>], ci_null = False\<rparr>"

lemma int_interval_ok: "l \<le> u \<Longrightarrow> interval_ok int_datum int_key (int_interval l u)"
  by (simp add: int_interval_def interval_ok_def range_ok_def left_cut_def right_cut_def int_datum_def
      FIntType_def int4_def int_key_def)

lemma int_interval_mem: "in_interval int_key (int_interval l u) (Some (Some n)) \<longleftrightarrow> l \<le> n \<and> n \<le> u"
  by (auto simp: int_interval_def in_interval_def in_range_def int4_def int_key_def)

lemma int_interval_pcr [simp]: "ci_pcr (int_interval l u) = 7"
  by (simp add: int_interval_def)

text \<open>
  C13: \<^verbatim>\<open>PciUnion\<close> of two valid intervals on one column never fails an assertion and never
  dereferences an infinite end; the result is a valid interval (sorted, disjoint, non-empty
  ranges) that has exactly the values of the two, NULL included. The comparator only has to
  order the datums of the class linearly.
\<close>

theorem PciUnion_denotes_union:
  assumes "datum_order C cls key" and "interval_ok cls key a" and "interval_ok cls key b"
    and "ci_pcr a = ci_pcr b"
  shows "\<exists>r. PciUnion C a b = Inr r \<and> interval_ok cls key r \<and> ci_pcr r = ci_pcr a \<and>
    (\<forall>v. in_interval key r v \<longleftrightarrow> in_interval key a v \<or> in_interval key b v)"
  using datum_order.PciUnion_correct [OF assms] .

theorem PciUnion_denotes_union_witness:
  "\<exists>r. PciUnion int_cmp (int_interval 1 5) (int_interval 3 9) = Inr r \<and>
     (\<forall>n. in_interval int_key r (Some (Some n)) \<longleftrightarrow> 1 \<le> n \<and> n \<le> 9)"
proof -
  obtain r where r: "PciUnion int_cmp (int_interval 1 5) (int_interval 3 9) = Inr r"
    "\<forall>v. in_interval int_key r v \<longleftrightarrow>
      in_interval int_key (int_interval 1 5) v \<or> in_interval int_key (int_interval 3 9) v"
    using PciUnion_denotes_union [OF int_cmp_order int_interval_ok int_interval_ok, of 1 5 3 9] by auto
  then have "\<forall>n. in_interval int_key r (Some (Some n)) \<longleftrightarrow> 1 \<le> n \<and> n \<le> 9"
    by (auto simp: int_interval_mem)
  with r(1) show ?thesis by blast
qed

text \<open>
  C14: \<^verbatim>\<open>PciIntersect\<close> of two valid intervals on one column never fails and yields a valid
  interval with exactly the common values.
\<close>

theorem PciIntersect_denotes_intersection:
  assumes "datum_order C cls key" and "interval_ok cls key a" and "interval_ok cls key b"
    and "ci_pcr a = ci_pcr b"
  shows "\<exists>r. PciIntersect C a b = Inr r \<and> interval_ok cls key r \<and> ci_pcr r = ci_pcr a \<and>
    (\<forall>v. in_interval key r v \<longleftrightarrow> in_interval key a v \<and> in_interval key b v)"
  using datum_order.PciIntersect_correct [OF assms] .

theorem PciIntersect_denotes_intersection_witness:
  "\<exists>r. PciIntersect int_cmp (int_interval 1 5) (int_interval 3 9) = Inr r \<and>
     (\<forall>n. in_interval int_key r (Some (Some n)) \<longleftrightarrow> 3 \<le> n \<and> n \<le> 5)"
proof -
  obtain r where r: "PciIntersect int_cmp (int_interval 1 5) (int_interval 3 9) = Inr r"
    "\<forall>v. in_interval int_key r v \<longleftrightarrow>
      in_interval int_key (int_interval 1 5) v \<and> in_interval int_key (int_interval 3 9) v"
    using PciIntersect_denotes_intersection [OF int_cmp_order int_interval_ok int_interval_ok, of 1 5 3 9] by auto
  then have "\<forall>n. in_interval int_key r (Some (Some n)) \<longleftrightarrow> 3 \<le> n \<and> n \<le> 5"
    by (auto simp: int_interval_mem)
  with r(1) show ?thesis by blast
qed

text \<open>
  C12: \<^verbatim>\<open>PciDifference\<close>, with its residual range carried from one step to the next, never
  fails on two valid intervals of one column and yields a valid interval with exactly the values
  of the first that the second lacks; \<^verbatim>\<open>PciComplement\<close> has exactly the values that the
  interval lacks, for a column whose type can be constrained.
\<close>

theorem PciDifference_denotes_difference:
  assumes "datum_order C cls key" and "interval_ok cls key a" and "interval_ok cls key b"
    and "ci_pcr a = ci_pcr b" and "cons (ci_pcr a)"
  shows "(\<exists>r. PciDifference C a b = Inr r \<and> interval_ok cls key r \<and> ci_pcr r = ci_pcr a \<and>
      (\<forall>v. in_interval key r v \<longleftrightarrow> in_interval key a v \<and> \<not> in_interval key b v)) \<and>
    (\<exists>r. PciComplement C cons a = Inr r \<and> interval_ok cls key r \<and> ci_pcr r = ci_pcr a \<and>
      (\<forall>v. in_interval key r v \<longleftrightarrow> \<not> in_interval key a v))"
  using datum_order.PciDifference_correct [OF assms(1-4)] datum_order.PciComplement_correct [OF assms(1,2), of cons] assms(5)
  by blast

theorem PciDifference_denotes_difference_witness:
  "\<exists>r. PciDifference int_cmp (int_interval 1 9) (int_interval 3 5) = Inr r \<and>
     (\<forall>n. in_interval int_key r (Some (Some n)) \<longleftrightarrow> (1 \<le> n \<and> n < 3) \<or> (5 < n \<and> n \<le> 9))"
proof -
  obtain r where r: "PciDifference int_cmp (int_interval 1 9) (int_interval 3 5) = Inr r"
    "\<forall>v. in_interval int_key r v \<longleftrightarrow>
      in_interval int_key (int_interval 1 9) v \<and> \<not> in_interval int_key (int_interval 3 5) v"
    using PciDifference_denotes_difference [OF int_cmp_order int_interval_ok int_interval_ok, of 1 9 3 5 "\<lambda>_. True"]
    by auto
  then have "\<forall>n. in_interval int_key r (Some (Some n)) \<longleftrightarrow> (1 \<le> n \<and> n < 3) \<or> (5 < n \<and> n \<le> 9)"
    by (auto simp: int_interval_mem)
  with r(1) show ?thesis by blast
qed

text \<open>
  C27: \<^verbatim>\<open>FContainsInterval\<close> is sound: it always returns on valid intervals of one column,
  and when it returns true every value of the given interval is a value of this one.
\<close>

theorem FContainsInterval_is_sound:
  assumes "datum_order C cls key" and "interval_ok cls key a" and "interval_ok cls key b"
    and "ci_pcr a = ci_pcr b"
  shows "\<exists>c. FContainsInterval C a b = Inr c \<and> (c \<longrightarrow> (\<forall>v. in_interval key b v \<longrightarrow> in_interval key a v))"
  using datum_order.FContainsInterval_sound [OF assms] .

theorem FContainsInterval_is_sound_witness:
  "FContainsInterval int_cmp (int_interval 1 9) (int_interval 3 5) = Inr True \<and>
   in_interval int_key (int_interval 3 5) (Some (Some 4)) \<and> in_interval int_key (int_interval 1 9) (Some (Some 4))"
proof -
  have c: "FContainsInterval int_cmp (int_interval 1 9) (int_interval 3 5) = Inr True" by code_simp
  have m: "in_interval int_key (int_interval 3 5) (Some (Some 4))" by code_simp
  have "\<forall>v. in_interval int_key (int_interval 3 5) v \<longrightarrow> in_interval int_key (int_interval 1 9) v"
    using FContainsInterval_is_sound [OF int_cmp_order int_interval_ok int_interval_ok, of 1 9 3 5] c by auto
  with c m show ?thesis by blast
qed

end
