(* ===== verification/IntervalExpr.thy ===== *)
theory IntervalExpr
  imports Interval
begin

text \<open>
  Constraint derivation: the part of \<^verbatim>\<open>libgpopt/src/base/CConstraintInterval.cpp\<close> that
  turns a scalar predicate on one column into an interval and an interval back into a predicate,
  with \<^verbatim>\<open>CDatumSortedSet.cpp\<close> and the conjunction and disjunction builders of
  \<^verbatim>\<open>CPredicateUtils.cpp\<close>. A predicate is modelled by the shapes that the code distinguishes;
  every other expression is \<open>ScOther\<close>, with an arbitrary value. \<open>ev\<close> gives predicates their
  three-valued SQL meaning.

  The lemmas show that on the supported shapes the derived interval has exactly the column values
  for which the predicate is true (or, when NULL counts as true, not false), that it never loses a
  satisfying value when no negation and no \<^verbatim>\<open><> ANY\<close> list occurs, and that the predicate built from an interval is true
  of exactly its values.
\<close>

section \<open>Definitions\<close>

datatype EArrCmpType = EarrcmpAny | EarrcmpAll

text \<open>
  \<open>ScIdent\<close> is the column, \<open>ScCmp\<close> a comparison of the column with a constant
  (\<^verbatim>\<open>FCompareIdentToConst\<close>), \<open>ScIDF\<close> the column IS DISTINCT FROM a constant,
  \<open>ScArrayCmp\<close> the column compared with an array of constants, \<open>ScConst\<close> a boolean constant
  with \<open>None\<close> for NULL.
\<close>

datatype 'd scalar =
    ScIdent
  | ScNullTest "'d scalar"
  | ScAnd "'d scalar list"
  | ScOr "'d scalar list"
  | ScNot "'d scalar"
  | ScCmp ECmpType 'd
  | ScIDF 'd
  | ScConst "bool option"
  | ScArrayCmp EArrCmpType ECmpType "'d list"
  | ScOther nat

text \<open>\<^verbatim>\<open>CUtils::IDatumCmp\<close> and the sort of \<^verbatim>\<open>CDynamicPtrArray\<close> with it.\<close>

definition IDatumCmp :: "'d IComparator \<Rightarrow> 'd \<Rightarrow> 'd \<Rightarrow> int" where
  "IDatumCmp C dat1 dat2 =
     (if cmp_Equals C dat1 dat2 then 0 else if cmp_IsLessThan C dat1 dat2 then - 1 else 1)"

fun datum_insert :: "'d IComparator \<Rightarrow> 'd \<Rightarrow> 'd list \<Rightarrow> 'd list" where
  "datum_insert C x [] = [x]"
| "datum_insert C x (y # ys) = (if IDatumCmp C x y \<le> 0 then x # y # ys else y # datum_insert C x ys)"

definition datum_sort :: "'d IComparator \<Rightarrow> 'd list \<Rightarrow> 'd list" where
  "datum_sort C ds = foldr (datum_insert C) ds []"

fun datum_dedup :: "'d IComparator \<Rightarrow> 'd \<Rightarrow> 'd list \<Rightarrow> 'd list" where
  "datum_dedup C pdatumPrev [] = []"
| "datum_dedup C pdatumPrev (d # ds) =
     (if \<not> cmp_Equals C d pdatumPrev then d # datum_dedup C d ds else datum_dedup C pdatumPrev ds)"

text \<open>The non-NULL elements, sorted and without duplicates, and whether NULL occurred.\<close>

definition CDatumSortedSet_ctor ::
  "'d IComparator \<Rightarrow> ('d \<Rightarrow> bool) \<Rightarrow> 'd list \<Rightarrow> ('d list \<times> bool) result" where
  "CDatumSortedSet_ctor C IsNull ds =
     gpos_assert (0 < length ds)
       (case datum_sort C (filter (\<lambda>d. \<not> IsNull d) ds) of
          [] \<Rightarrow> Inl OutOfBounds
        | d # rest \<Rightarrow> Inr (d # datum_dedup C d rest, \<exists>d \<in> set ds. IsNull d))"

fun not_in_ranges ::
  "'d IComparator \<Rightarrow> 'd option \<Rightarrow> 'd list \<Rightarrow> 'd CRange list result" where
  "not_in_ranges C prev [] =
     (case prev of
        None \<Rightarrow> Inl NullDeref
      | Some p \<Rightarrow> rbind (CRange_ctor C (Some p) EriExcluded None EriExcluded) (\<lambda>r. Inr [r]))"
| "not_in_ranges C prev (d # ds) =
     rbind (CRange_ctor C prev EriExcluded (Some d) EriExcluded) (\<lambda>r.
       rbind (not_in_ranges C (Some d) ds) (\<lambda>rs. Inr (r # rs)))"

definition PcnstrIntervalFromScalarArrayCmp ::
  "'d IComparator \<Rightarrow> ('d \<Rightarrow> bool) \<Rightarrow> ULONG \<Rightarrow> ECmpType \<Rightarrow> 'd list \<Rightarrow> bool
     \<Rightarrow> 'd CConstraintInterval option result" where
  "PcnstrIntervalFromScalarArrayCmp C IsNull colref cmp_type ds infer_nulls_as =
     (if length ds = 0 then Inr None
      else rbind (CDatumSortedSet_ctor C IsNull ds) (\<lambda>(sorted, _).
        case cmp_type of
          EcmptEq \<Rightarrow>
            Inr (Some \<lparr>ci_pcr = colref, ci_ranges = map (CRange_cmp_ctor EcmptEq) sorted, ci_null = infer_nulls_as\<rparr>)
        | EcmptNEq \<Rightarrow>
            rbind (not_in_ranges C None sorted) (\<lambda>rs.
              Inr (Some \<lparr>ci_pcr = colref, ci_ranges = rs, ci_null = infer_nulls_as\<rparr>))
        | _ \<Rightarrow> Inr None))"

definition PciIntervalFromScalarNullTest :: "ULONG \<Rightarrow> 'd scalar \<Rightarrow> 'd CConstraintInterval option" where
  "PciIntervalFromScalarNullTest colref child =
     (case child of
        ScIdent \<Rightarrow> Some \<lparr>ci_pcr = colref, ci_ranges = [], ci_null = True\<rparr>
      | _ \<Rightarrow> None)"

definition PciRangeFromColConstCmp :: "ECmpType \<Rightarrow> 'd \<Rightarrow> 'd CRange list option" where
  "PciRangeFromColConstCmp cmp_type datum =
     (if cmp_type = EcmptOther then None
      else if cmp_type = EcmptNEq \<or> cmp_type = EcmptIDF
           then Some [CRange_cmp_ctor EcmptL datum, CRange_cmp_ctor EcmptG datum]
      else Some [CRange_cmp_ctor cmp_type datum])"

definition PciIntervalFromColConstCmp ::
  "ULONG \<Rightarrow> ECmpType \<Rightarrow> 'd \<Rightarrow> bool \<Rightarrow> 'd CConstraintInterval option" where
  "PciIntervalFromColConstCmp colref cmp_type datum infer_nulls_as =
     map_option (\<lambda>rs. \<lparr>ci_pcr = colref, ci_ranges = rs, ci_null = infer_nulls_as\<rparr>)
       (PciRangeFromColConstCmp cmp_type datum)"

definition PciIntervalFromScalarIDF ::
  "'d IComparator \<Rightarrow> ('d \<Rightarrow> bool) \<Rightarrow> (ULONG \<Rightarrow> bool) \<Rightarrow> ULONG \<Rightarrow> 'd \<Rightarrow> 'd CConstraintInterval option result" where
  "PciIntervalFromScalarIDF C IsNull cons colref datum =
     (if IsNull datum then
        rbind (PciComplement C cons \<lparr>ci_pcr = colref, ci_ranges = [], ci_null = True\<rparr>) (\<lambda>pci. Inr (Some pci))
      else
        Inr (map_option (\<lambda>rs. \<lparr>ci_pcr = colref, ci_ranges = rs, ci_null = True\<rparr>)
               (PciRangeFromColConstCmp EcmptIDF datum)))"

text \<open>The pairwise union of the disjuncts: one round, and the rounds until one interval is left.\<close>

fun union_pairs ::
  "'d IComparator \<Rightarrow> 'd CConstraintInterval list \<Rightarrow> 'd CConstraintInterval list result" where
  "union_pairs C (p1 # p2 # ps) =
     rbind (PciUnion C p1 p2) (\<lambda>u. rbind (union_pairs C ps) (\<lambda>us. Inr (u # us)))"
| "union_pairs C ps = Inr ps"

lemma union_pairs_length: "union_pairs C ps = Inr us \<Longrightarrow> length us = (length ps + 1) div 2"
  by (induction C ps arbitrary: us rule: union_pairs.induct) (auto simp: rbind_eq_Inr_iff)

function union_rounds ::
  "'d IComparator \<Rightarrow> 'd CConstraintInterval list \<Rightarrow> 'd CConstraintInterval result" where
  "union_rounds C cs =
     (if length cs > 1 then rbind (union_pairs C cs) (\<lambda>cs'. union_rounds C cs')
      else gpos_assert (length cs = 1) (Inr (cs ! 0)))"
  by pat_completeness auto
termination
  by (relation "measure (\<lambda>(C, cs). length cs)") (auto dest!: union_pairs_length)

declare union_rounds.simps [simp del]

text \<open>
  \<^verbatim>\<open>PciIntervalFromScalarExpr\<close> with its cases; \<open>arr\<close> is the trace flag
  \<^verbatim>\<open>EopttraceArrayConstraints\<close>. The result \<open>Inr None\<close> is a NULL interval.
\<close>

fun PciIntervalFromScalarExpr ::
  "'d IComparator \<Rightarrow> ('d \<Rightarrow> bool) \<Rightarrow> (ULONG \<Rightarrow> bool) \<Rightarrow> bool \<Rightarrow> ULONG \<Rightarrow> 'd scalar \<Rightarrow> bool
     \<Rightarrow> 'd CConstraintInterval option result"
and bool_or_children ::
  "'d IComparator \<Rightarrow> ('d \<Rightarrow> bool) \<Rightarrow> (ULONG \<Rightarrow> bool) \<Rightarrow> bool \<Rightarrow> ULONG \<Rightarrow> 'd scalar list \<Rightarrow> bool
     \<Rightarrow> 'd CConstraintInterval list option result"
and bool_and_children ::
  "'d IComparator \<Rightarrow> ('d \<Rightarrow> bool) \<Rightarrow> (ULONG \<Rightarrow> bool) \<Rightarrow> bool \<Rightarrow> ULONG \<Rightarrow> 'd scalar list \<Rightarrow> bool
     \<Rightarrow> 'd CConstraintInterval option \<Rightarrow> 'd CConstraintInterval option result" where
  "PciIntervalFromScalarExpr C IsNull cons arr colref (ScNullTest child) infer =
     Inr (PciIntervalFromScalarNullTest colref child)"
| "PciIntervalFromScalarExpr C IsNull cons arr colref (ScAnd es) infer =
     (case es of
        [] \<Rightarrow> Inl AssertFailed
      | e # rest \<Rightarrow>
          rbind (PciIntervalFromScalarExpr C IsNull cons arr colref e infer) (\<lambda>pci.
            bool_and_children C IsNull cons arr colref rest infer pci))"
| "PciIntervalFromScalarExpr C IsNull cons arr colref (ScOr es) infer =
     gpos_assert (0 < length es)
       (rbind (bool_or_children C IsNull cons arr colref es infer) (\<lambda>cs.
          case cs of
            None \<Rightarrow> Inr None
          | Some child_constraints \<Rightarrow> rbind (union_rounds C child_constraints) (\<lambda>pci. Inr (Some pci))))"
| "PciIntervalFromScalarExpr C IsNull cons arr colref (ScNot e) infer =
     rbind (PciIntervalFromScalarExpr C IsNull cons arr colref e (\<not> infer)) (\<lambda>pciChild.
       case pciChild of
         None \<Rightarrow> Inr None
       | Some pci \<Rightarrow> rbind (PciComplement C cons pci) (\<lambda>pciNot. Inr (Some pciNot)))"
| "PciIntervalFromScalarExpr C IsNull cons arr colref (ScCmp cmp_type datum) infer =
     Inr (PciIntervalFromColConstCmp colref cmp_type datum infer)"
| "PciIntervalFromScalarExpr C IsNull cons arr colref (ScIDF datum) infer =
     PciIntervalFromScalarIDF C IsNull cons colref datum"
| "PciIntervalFromScalarExpr C IsNull cons arr colref (ScConst b) infer =
     (if b = Some True then Inr (PciUnbounded cons colref True)
      else Inr (Some \<lparr>ci_pcr = colref, ci_ranges = [], ci_null = False\<rparr>))"
| "PciIntervalFromScalarExpr C IsNull cons arr colref (ScArrayCmp q cmp_type ds) infer =
     (if arr then PcnstrIntervalFromScalarArrayCmp C IsNull colref cmp_type ds infer else Inr None)"
| "PciIntervalFromScalarExpr C IsNull cons arr colref ScIdent infer = Inr None"
| "PciIntervalFromScalarExpr C IsNull cons arr colref (ScOther n) infer = Inr None"
| "bool_or_children C IsNull cons arr colref [] infer = Inr (Some [])"
| "bool_or_children C IsNull cons arr colref (e # es) infer =
     rbind (PciIntervalFromScalarExpr C IsNull cons arr colref e infer) (\<lambda>pciChild.
       case pciChild of
         None \<Rightarrow> Inr None
       | Some pci \<Rightarrow>
           rbind (bool_or_children C IsNull cons arr colref es infer) (\<lambda>rest.
             Inr (map_option ((#) pci) rest)))"
| "bool_and_children C IsNull cons arr colref [] infer pci = Inr pci"
| "bool_and_children C IsNull cons arr colref (e # es) infer pci =
     rbind (PciIntervalFromScalarExpr C IsNull cons arr colref e infer) (\<lambda>pciChild.
       rbind (case (pciChild, pci) of
                (Some child, Some p) \<Rightarrow> rbind (PciIntersect C p child) (\<lambda>r. Inr (Some r))
              | (Some child, None) \<Rightarrow> Inr (Some child)
              | (None, _) \<Rightarrow> Inr pci) (\<lambda>pci'.
         bool_and_children C IsNull cons arr colref es infer pci'))"

section \<open>Building predicates\<close>

definition FScalarConstTrue :: "'d scalar \<Rightarrow> bool" where
  "FScalarConstTrue e = (case e of ScConst b \<Rightarrow> b = Some True | _ \<Rightarrow> False)"

definition FScalarConstFalse :: "'d scalar \<Rightarrow> bool" where
  "FScalarConstFalse e = (case e of ScConst b \<Rightarrow> b = Some False | _ \<Rightarrow> False)"

definition FSkippable :: "'d scalar \<Rightarrow> bool \<Rightarrow> bool" where
  "FSkippable e fConjunction \<longleftrightarrow>
     (fConjunction \<and> FScalarConstTrue e) \<or> (\<not> fConjunction \<and> FScalarConstFalse e)"

definition FReducible :: "'d scalar \<Rightarrow> bool \<Rightarrow> bool" where
  "FReducible e fConjunction \<longleftrightarrow>
     (fConjunction \<and> FScalarConstFalse e) \<or> (\<not> fConjunction \<and> FScalarConstTrue e)"

text \<open>The loop of \<^verbatim>\<open>PexprConjDisj\<close>: \<open>None\<close> when an element decides the result.\<close>

fun conj_disj_loop :: "'d scalar list \<Rightarrow> bool \<Rightarrow> 'd scalar list option" where
  "conj_disj_loop [] fConjunction = Some []"
| "conj_disj_loop (e # es) fConjunction =
     (if FSkippable e fConjunction then conj_disj_loop es fConjunction
      else if FReducible e fConjunction then None
      else map_option ((#) e) (conj_disj_loop es fConjunction))"

definition PexprConjDisj :: "'d scalar list \<Rightarrow> bool \<Rightarrow> 'd scalar" where
  "PexprConjDisj es fConjunction =
     (case conj_disj_loop es fConjunction of
        None \<Rightarrow> ScConst (Some (\<not> fConjunction))
      | Some [] \<Rightarrow> ScConst (Some fConjunction)
      | Some [e] \<Rightarrow> e
      | Some fin \<Rightarrow> if fConjunction then ScAnd fin else ScOr fin)"

definition PexprEquality :: "'d IComparator \<Rightarrow> 'd CRange \<Rightarrow> 'd scalar option" where
  "PexprEquality C r =
     (case (rng_left r, rng_right r) of
        (Some l, Some u) \<Rightarrow>
          if \<not> cmp_Equals C l u \<or> EriExcluded = rng_eriLeft r \<or> EriExcluded = rng_eriRight r then None
          else Some (ScCmp EcmptEq l)
      | _ \<Rightarrow> None)"

definition PexprScalarCompEnd ::
  "'d option \<Rightarrow> ERangeInclusion \<Rightarrow> ECmpType \<Rightarrow> ECmpType \<Rightarrow> 'd scalar option" where
  "PexprScalarCompEnd datum eri ecmptIncl ecmptExcl =
     map_option (\<lambda>d. ScCmp (if EriIncluded = eri then ecmptIncl else ecmptExcl) d) datum"

definition rng_PexprScalar :: "'d IComparator \<Rightarrow> 'd CRange \<Rightarrow> 'd scalar" where
  "rng_PexprScalar C r =
     (case PexprEquality C r of
        Some e \<Rightarrow> e
      | None \<Rightarrow>
          let pexprLeft = PexprScalarCompEnd (rng_left r) (rng_eriLeft r) EcmptGEq EcmptG;
              pexprRight = PexprScalarCompEnd (rng_right r) (rng_eriRight r) EcmptLEq EcmptL
          in PexprConjDisj
               ((case pexprLeft of None \<Rightarrow> [] | Some e \<Rightarrow> [e]) @ (case pexprRight of None \<Rightarrow> [] | Some e \<Rightarrow> [e])) True)"

definition PexprConstructDisjunctionScalar ::
  "'d IComparator \<Rightarrow> 'd CConstraintInterval \<Rightarrow> 'd scalar" where
  "PexprConstructDisjunctionScalar C pci =
     (let es = map (rng_PexprScalar C) (ci_ranges pci) in
      if length es = 1 \<and> FScalarConstTrue (es ! 0) then
        (if ci_null pci then ScConst (Some True) else ScNot (ScNullTest ScIdent))
      else PexprConjDisj (if ci_null pci then es @ [ScNullTest ScIdent] else es) False)"

fun all_points :: "'d IComparator \<Rightarrow> 'd CRange list \<Rightarrow> bool result" where
  "all_points C [] = Inr True"
| "all_points C (r # rs) = rbind (FPoint C r) (\<lambda>p. if p then all_points C rs else Inr False)"

definition FConvertsToIn :: "'d IComparator \<Rightarrow> 'd CConstraintInterval \<Rightarrow> bool result" where
  "FConvertsToIn C pci = (if 1 \<ge> length (ci_ranges pci) then Inr False else all_points C (ci_ranges pci))"

fun not_in_chain :: "'d IComparator \<Rightarrow> 'd CRange \<Rightarrow> 'd CRange list \<Rightarrow> bool" where
  "not_in_chain C pLeftRng [] = True"
| "not_in_chain C pLeftRng (pRightRng # rs) =
     (if rng_eriRight pLeftRng = EriExcluded \<and> rng_eriLeft pRightRng = EriExcluded \<and>
         FUpperBoundEqualsLowerBound C pLeftRng pRightRng
      then not_in_chain C pRightRng rs else False)"

definition FConvertsToNotIn :: "'d IComparator \<Rightarrow> 'd CConstraintInterval \<Rightarrow> bool" where
  "FConvertsToNotIn C pci =
     (let rs = ci_ranges pci in
      if 1 \<ge> length rs then False
      else if rng_left (rs ! 0) \<noteq> None \<or> rng_right (rs ! (length rs - 1)) \<noteq> None then False
      else not_in_chain C (rs ! 0) (drop 1 rs))"

definition PexprConstructArrayScalar_in ::
  "'d CConstraintInterval \<Rightarrow> bool \<Rightarrow> 'd scalar result" where
  "PexprConstructArrayScalar_in pci fIn =
     rbind (rmap (\<lambda>r. deref (rng_right r))
              (take (if fIn then length (ci_ranges pci) else length (ci_ranges pci) - 1) (ci_ranges pci))) (\<lambda>ds.
       let e = ScArrayCmp (if fIn then EarrcmpAny else EarrcmpAll) (if fIn then EcmptEq else EcmptNEq) ds
       in Inr (if ci_null pci then PexprConjDisj [e, ScNullTest ScIdent] False else e))"

definition PexprConstructArrayScalar ::
  "'d IComparator \<Rightarrow> 'd CConstraintInterval \<Rightarrow> 'd scalar option result" where
  "PexprConstructArrayScalar C pci =
     (if 1 \<ge> length (ci_ranges pci) then Inr None
      else rbind (FConvertsToIn C pci) (\<lambda>isIn.
        if isIn then rbind (PexprConstructArrayScalar_in pci True) (\<lambda>e. Inr (Some e))
        else if FConvertsToNotIn C pci
             then rbind (PexprConstructArrayScalar_in pci False) (\<lambda>e. Inr (Some e))
        else Inr None))"

definition PexprConstructScalar ::
  "'d IComparator \<Rightarrow> bool \<Rightarrow> 'd CConstraintInterval \<Rightarrow> 'd scalar result" where
  "PexprConstructScalar C arr pci =
     (if FContradiction pci then Inr (ScConst (Some False))
      else rbind (if arr then PexprConstructArrayScalar C pci else Inr None) (\<lambda>e.
        case e of
          Some e' \<Rightarrow> Inr e'
        | None \<Rightarrow> Inr (PexprConstructDisjunctionScalar C pci)))"

section \<open>The meaning of predicates\<close>

text \<open>Three-valued logic, with \<open>None\<close> for NULL.\<close>

definition and3 :: "bool option list \<Rightarrow> bool option" where
  "and3 bs = (if Some False \<in> set bs then Some False else if None \<in> set bs then None else Some True)"

definition or3 :: "bool option list \<Rightarrow> bool option" where
  "or3 bs = (if Some True \<in> set bs then Some True else if None \<in> set bs then None else Some False)"

fun cmp_keys :: "ECmpType \<Rightarrow> 'k::linorder \<Rightarrow> 'k \<Rightarrow> bool" where
  "cmp_keys EcmptEq x y \<longleftrightarrow> x = y"
| "cmp_keys EcmptNEq x y \<longleftrightarrow> x \<noteq> y"
| "cmp_keys EcmptL x y \<longleftrightarrow> x < y"
| "cmp_keys EcmptLEq x y \<longleftrightarrow> x \<le> y"
| "cmp_keys EcmptG x y \<longleftrightarrow> y < x"
| "cmp_keys EcmptGEq x y \<longleftrightarrow> y \<le> x"
| "cmp_keys _ x y \<longleftrightarrow> False"

text \<open>A comparison with NULL on either side is NULL.\<close>

definition cmp3 :: "('d \<Rightarrow> bool) \<Rightarrow> ('d \<Rightarrow> 'k::linorder) \<Rightarrow> ECmpType \<Rightarrow> 'd \<Rightarrow> 'k option \<Rightarrow> bool option" where
  "cmp3 IsNull key cmp_type d v =
     (case v of None \<Rightarrow> None | Some x \<Rightarrow> if IsNull d then None else Some (cmp_keys cmp_type x (key d)))"

text \<open>
  The value of a predicate for a column value (\<open>None\<close> for NULL); \<open>other\<close> values the expressions
  outside the modelled shapes.
\<close>

fun ev :: "('d \<Rightarrow> bool) \<Rightarrow> ('d \<Rightarrow> 'k::linorder) \<Rightarrow> (nat \<Rightarrow> 'k option \<Rightarrow> bool option) \<Rightarrow> 'd scalar
    \<Rightarrow> 'k option \<Rightarrow> bool option" where
  "ev IsNull key other ScIdent v = None"
| "ev IsNull key other (ScNullTest e) v =
     (case e of ScIdent \<Rightarrow> Some (v = None) | _ \<Rightarrow> Some (ev IsNull key other e v = None))"
| "ev IsNull key other (ScAnd es) v = and3 (map (\<lambda>e. ev IsNull key other e v) es)"
| "ev IsNull key other (ScOr es) v = or3 (map (\<lambda>e. ev IsNull key other e v) es)"
| "ev IsNull key other (ScNot e) v = map_option Not (ev IsNull key other e v)"
| "ev IsNull key other (ScCmp cmp_type d) v = cmp3 IsNull key cmp_type d v"
| "ev IsNull key other (ScIDF d) v =
     Some (case v of None \<Rightarrow> \<not> IsNull d | Some x \<Rightarrow> IsNull d \<or> x \<noteq> key d)"
| "ev IsNull key other (ScConst b) v = b"
| "ev IsNull key other (ScArrayCmp q cmp_type ds) v =
     (case q of EarrcmpAny \<Rightarrow> or3 (map (\<lambda>d. cmp3 IsNull key cmp_type d v) ds)
      | EarrcmpAll \<Rightarrow> and3 (map (\<lambda>d. cmp3 IsNull key cmp_type d v) ds))"
| "ev IsNull key other (ScOther n) v = other n v"

text \<open>Whether a value counts as satisfying a predicate, NULL standing for \<open>infer\<close>.\<close>

definition holds :: "bool option \<Rightarrow> bool \<Rightarrow> bool" where
  "holds b infer = (case b of Some t \<Rightarrow> t | None \<Rightarrow> infer)"

lemma holds_simps [simp]:
  "holds (Some t) infer = t" "holds None infer = infer"
  "holds (map_option Not b) infer \<longleftrightarrow> \<not> holds b (\<not> infer)"
  by (auto simp: holds_def split: option.splits)

lemma holds_true: "holds b False \<longleftrightarrow> b = Some True"
  by (auto simp: holds_def split: option.splits)

lemma holds_not_false: "holds b True \<longleftrightarrow> b \<noteq> Some False"
  by (auto simp: holds_def split: option.splits)

lemma bool_option_cases: "b = Some True \<longleftrightarrow> b \<noteq> None \<and> b \<noteq> Some False"
  by (cases b) auto

lemma holds_and3: "holds (and3 bs) infer \<longleftrightarrow> (\<forall>b \<in> set bs. holds b infer)"
proof (cases infer)
  case True
  then show ?thesis by (auto simp: holds_not_false and3_def)
next
  case False
  have "(\<forall>b \<in> set bs. b \<noteq> None \<and> b \<noteq> Some False) \<longleftrightarrow> None \<notin> set bs \<and> Some False \<notin> set bs" by metis
  then have "and3 bs = Some True \<longleftrightarrow> (\<forall>b \<in> set bs. b \<noteq> None \<and> b \<noteq> Some False)"
    unfolding and3_def by simp
  with False show ?thesis by (simp add: holds_true bool_option_cases)
qed

lemma holds_or3: "holds (or3 bs) infer \<longleftrightarrow> (\<exists>b \<in> set bs. holds b infer)"
proof (cases infer)
  case True
  have e: "b = Some False \<longleftrightarrow> b \<noteq> None \<and> b \<noteq> Some True" for b :: "bool option" by (cases b) auto
  have "(\<forall>b \<in> set bs. b = Some False) \<longleftrightarrow> None \<notin> set bs \<and> Some True \<notin> set bs"
    unfolding e by metis
  then have "or3 bs = Some False \<longleftrightarrow> (\<forall>b \<in> set bs. b = Some False)" unfolding or3_def by simp
  with True show ?thesis by (simp add: holds_not_false)
next
  case False
  then show ?thesis by (auto simp: holds_true or3_def)
qed

lemma cmp_ctor_in_range:
  "cmp_type \<in> {EcmptEq, EcmptL, EcmptLEq, EcmptG, EcmptGEq} \<Longrightarrow>
   in_range key (CRange_cmp_ctor cmp_type d) x \<longleftrightarrow> cmp_keys cmp_type x (key d)"
  by (auto simp: CRange_cmp_ctor_def in_range_def Let_def)

text \<open>The predicates whose interval is exact, with constants of the class \<open>cls\<close>.\<close>

fun supported :: "('d \<Rightarrow> bool) \<Rightarrow> ('d \<Rightarrow> bool) \<Rightarrow> bool \<Rightarrow> 'd scalar \<Rightarrow> bool" where
  "supported cls IsNull arr (ScNullTest e) \<longleftrightarrow> e = ScIdent"
| "supported cls IsNull arr (ScAnd es) \<longleftrightarrow> es \<noteq> [] \<and> (\<forall>e \<in> set es. supported cls IsNull arr e)"
| "supported cls IsNull arr (ScOr es) \<longleftrightarrow> es \<noteq> [] \<and> (\<forall>e \<in> set es. supported cls IsNull arr e)"
| "supported cls IsNull arr (ScNot e) \<longleftrightarrow> supported cls IsNull arr e"
| "supported cls IsNull arr (ScCmp t d) \<longleftrightarrow> cls d \<and> t \<notin> {EcmptIDF, EcmptOther}"
| "supported cls IsNull arr (ScIDF d) \<longleftrightarrow> cls d \<or> IsNull d"
| "supported cls IsNull arr (ScConst b) \<longleftrightarrow> b \<noteq> None"
| "supported cls IsNull arr (ScArrayCmp q t ds) \<longleftrightarrow>
     arr \<and> ds \<noteq> [] \<and> (\<forall>d \<in> set ds. cls d) \<and> (q, t) \<in> {(EarrcmpAny, EcmptEq), (EarrcmpAll, EcmptNEq)}"
| "supported cls IsNull arr _ \<longleftrightarrow> False"

locale sql_order = datum_order C cls key
  for C :: "'d IComparator" and cls :: "'d \<Rightarrow> bool" and key :: "'d \<Rightarrow> 'k::linorder" +
  fixes IsNull :: "'d \<Rightarrow> bool"
  assumes not_null: "cls d \<Longrightarrow> \<not> IsNull d"
begin

lemma datum_cmp_le: "cls a \<Longrightarrow> cls b \<Longrightarrow> IDatumCmp C a b \<le> 0 \<longleftrightarrow> key a \<le> key b"
  by (auto simp: IDatumCmp_def eq_law lt_law)

lemma datum_insert_sorted:
  "cls x \<Longrightarrow> \<forall>d \<in> set ds. cls d \<Longrightarrow> sorted (map key ds) \<Longrightarrow>
   sorted (map key (datum_insert C x ds)) \<and> set (datum_insert C x ds) = insert x (set ds)"
  by (induction ds) (auto simp: datum_cmp_le)

lemma datum_sort_sorted:
  assumes "\<forall>d \<in> set ds. cls d"
  shows "sorted (map key (datum_sort C ds))" and "set (datum_sort C ds) = set ds"
proof -
  have "sorted (map key (foldr (datum_insert C) ds [])) \<and> set (foldr (datum_insert C) ds []) = set ds"
    using assms
  proof (induction ds)
    case (Cons d ds)
    then show ?case using datum_insert_sorted [of d "foldr (datum_insert C) ds []"] by simp
  qed simp
  then show "sorted (map key (datum_sort C ds))" "set (datum_sort C ds) = set ds"
    by (simp_all add: datum_sort_def)
qed

lemma datum_dedup_strict:
  "cls p \<Longrightarrow> \<forall>d \<in> set ds. cls d \<Longrightarrow> sorted (map key (p # ds)) \<Longrightarrow>
   sorted_wrt (<) (map key (p # datum_dedup C p ds)) \<and> set (datum_dedup C p ds) \<subseteq> set ds \<and>
   key ` set (p # datum_dedup C p ds) = key ` set (p # ds)"
proof (induction ds arbitrary: p)
  case (Cons d ds)
  show ?case
  proof (cases "key d = key p")
    case True
    then show ?thesis using Cons by (auto simp: eq_law)
  next
    case False
    then have lt: "key p < key d" using Cons.prems(3) by (auto simp: order_le_less)
    have IH: "sorted_wrt (<) (map key (d # datum_dedup C d ds))" "set (datum_dedup C d ds) \<subseteq> set ds"
      "key ` set (d # datum_dedup C d ds) = key ` set (d # ds)"
      using Cons.IH [of d] Cons.prems by auto
    have "\<forall>x \<in> set (datum_dedup C d ds). key p < key x" using lt IH(1) by auto
    with False lt IH Cons.prems show ?thesis by (auto simp: eq_law)
  qed
qed simp

lemma sorted_set_correct:
  assumes "ds \<noteq> []" and "\<forall>d \<in> set ds. cls d"
  obtains ss n where "CDatumSortedSet_ctor C IsNull ds = Inr (ss, n)" and "ss \<noteq> []"
    and "\<forall>d \<in> set ss. cls d" and "sorted_wrt (<) (map key ss)" and "key ` set ss = key ` set ds"
proof -
  have f: "filter (\<lambda>d. \<not> IsNull d) ds = ds" using assms(2) not_null by (auto simp: filter_id_conv)
  note srt = datum_sort_sorted [OF assms(2)]
  obtain p rest where p: "datum_sort C ds = p # rest"
    using srt(2) assms(1) by (cases "datum_sort C ds") auto
  have cls: "cls p" "\<forall>d \<in> set rest. cls d" using srt(2) assms(2) p by auto
  note dd = datum_dedup_strict [OF cls, folded p, OF srt(1)]
  show ?thesis
    by (rule that [of "p # datum_dedup C p rest" "\<exists>d \<in> set ds. IsNull d"])
       (use assms dd cls p f srt(2) in \<open>auto simp: CDatumSortedSet_ctor_def\<close>)
qed

lemma cmp_ctor_ok: "cls d \<Longrightarrow> ok (CRange_cmp_ctor t d)"
  by (cases t) (auto simp: CRange_cmp_ctor_def range_ok_def left_cut_def right_cut_def Let_def)

lemma in_list_ranges:
  "\<forall>d \<in> set ds. cls d \<Longrightarrow> sorted_wrt (<) (map key ds) \<Longrightarrow>
   rsok (map (CRange_cmp_ctor EcmptEq) ds) \<and>
   (\<forall>x. inrs (map (CRange_cmp_ctor EcmptEq) ds) x \<longleftrightarrow> x \<in> key ` set ds)"
proof (induction ds)
  case (Cons d ds)
  have "right_cut key (CRange_cmp_ctor EcmptEq d) \<le> left_cut key (CRange_cmp_ctor EcmptEq e)" if "e \<in> set ds" for e
    using Cons.prems(2) that by (auto simp: CRange_cmp_ctor_def left_cut_def right_cut_def)
  with Cons cmp_ctor_ok [of d EcmptEq] show ?case by (auto simp: cmp_ctor_in_range)
qed simp

lemma not_in_list_ranges:
  assumes "\<forall>d \<in> set ds. cls d" and "sorted_wrt (<) (map key ds)"
    and "case prev of None \<Rightarrow> ds \<noteq> [] | Some p \<Rightarrow> cls p \<and> (\<forall>d \<in> set ds. key p < key d)"
  shows "\<exists>rs. not_in_ranges C prev ds = Inr rs \<and> rsok rs \<and>
    (\<forall>r \<in> set rs. (case prev of None \<Rightarrow> NegInf | Some p \<Rightarrow> Above (key p)) \<le> lc r) \<and>
    (\<forall>x. inrs rs x \<longleftrightarrow> (case prev of None \<Rightarrow> True | Some p \<Rightarrow> key p < x) \<and> x \<notin> key ` set ds)"
  using assms
proof (induction ds arbitrary: prev)
  case Nil
  then obtain p where p: "prev = Some p" "cls p" by (cases prev) auto
  let ?r = "\<lparr>rng_left = Some p, rng_eriLeft = EriExcluded, rng_right = None, rng_eriRight = EriExcluded\<rparr>"
  have "CRange_ctor C (Some p) EriExcluded None EriExcluded = Inr ?r" "ok ?r"
    using ctor_ok [of ?r "Some p" EriExcluded None EriExcluded] p by (auto simp: left_cut_def right_cut_def)
  then show ?case using p by (auto simp: in_range_def left_cut_def)
next
  case (Cons d ds)
  let ?r = "\<lparr>rng_left = prev, rng_eriLeft = EriExcluded, rng_right = Some d, rng_eriRight = EriExcluded\<rparr>"
  have d: "cls d" "\<forall>e \<in> set ds. key d < key e" using Cons.prems by auto
  have r: "CRange_ctor C prev EriExcluded (Some d) EriExcluded = Inr ?r" "ok ?r"
    using ctor_ok [of ?r prev EriExcluded "Some d" EriExcluded] Cons.prems
    by (auto simp: left_cut_def right_cut_def split: option.splits)
  obtain rs where rs: "not_in_ranges C (Some d) ds = Inr rs" "rsok rs" "\<forall>r \<in> set rs. Above (key d) \<le> lc r"
    "\<forall>x. inrs rs x \<longleftrightarrow> key d < x \<and> x \<notin> key ` set ds"
    using Cons.IH [of "Some d"] Cons.prems(1,2) d by auto
  have le: "right_cut key ?r \<le> lc s" if "s \<in> set rs" for s
  proof -
    have "right_cut key ?r < Above (key d)" by (simp add: right_cut_def)
    also have "\<dots> \<le> lc s" using rs(3) that by blast
    finally show ?thesis by simp
  qed
  have lo: "(case prev of None \<Rightarrow> NegInf | Some p \<Rightarrow> Above (key p)) \<le> lc s" if "s \<in> set (?r # rs)" for s
  proof (cases "s = ?r")
    case True
    then show ?thesis by (auto simp: left_cut_def split: option.splits)
  next
    case False
    have "Above (key p) \<le> Above (key d)" if "prev = Some p" for p using Cons.prems(3) that by auto
    moreover have "Above (key d) \<le> lc s" using rs(3) False \<open>s \<in> set (?r # rs)\<close> by simp
    ultimately show ?thesis by (cases prev) (simp, metis option.simps(5) order_trans)
  qed
  have "inrs (?r # rs) x \<longleftrightarrow> (case prev of None \<Rightarrow> True | Some p \<Rightarrow> key p < x) \<and> x \<notin> key ` set (d # ds)" for x
    using rs(4) Cons.prems(3) d by (auto simp: in_range_def split: option.splits)
  with r rs(1,2) le lo show ?case by (intro exI [of _ "?r # rs"]) auto
qed

lemma array_cmp_correct:
  assumes "ds \<noteq> []" and "\<forall>d \<in> set ds. cls d" and "t = EcmptEq \<or> t = EcmptNEq"
  shows "\<exists>pci. PcnstrIntervalFromScalarArrayCmp C IsNull colref t ds infer = Inr (Some pci) \<and> iok pci \<and>
    ci_pcr pci = colref \<and>
    (\<forall>v. ini pci v \<longleftrightarrow> (case v of None \<Rightarrow> infer | Some x \<Rightarrow> (x \<in> key ` set ds) = (t = EcmptEq)))"
proof -
  obtain ss n where ss: "CDatumSortedSet_ctor C IsNull ds = Inr (ss, n)" "ss \<noteq> []" "\<forall>d \<in> set ss. cls d"
    "sorted_wrt (<) (map key ss)" "key ` set ss = key ` set ds"
    using sorted_set_correct [OF assms(1,2)] .
  note a = in_list_ranges [OF ss(3,4)]
  obtain rs where b: "not_in_ranges C None ss = Inr rs" "rsok rs" "\<forall>x. inrs rs x \<longleftrightarrow> x \<notin> key ` set ss"
    using not_in_list_ranges [OF ss(3,4), of None] ss(2) by auto
  show ?thesis
    using assms(1,3) a b ss(1,5)
    by (auto simp: PcnstrIntervalFromScalarArrayCmp_def interval_ok_def in_interval_def split: option.splits)
qed

lemma holds_array_cmp:
  assumes "ds \<noteq> []" and "\<forall>d \<in> set ds. cls d"
    and "(q, t) = (EarrcmpAny, EcmptEq) \<or> (q, t) = (EarrcmpAll, EcmptNEq)"
  shows "holds (ev IsNull key other (ScArrayCmp q t ds) v) infer \<longleftrightarrow>
    (case v of None \<Rightarrow> infer | Some x \<Rightarrow> (x \<in> key ` set ds) = (t = EcmptEq))"
proof -
  have c: "cmp3 IsNull key t d v = (case v of None \<Rightarrow> None | Some x \<Rightarrow> Some (cmp_keys t x (key d)))"
    if "d \<in> set ds" for d
    using assms(2) that not_null by (auto simp: cmp3_def split: option.splits)
  have "holds (ev IsNull key other (ScArrayCmp q t ds) v) infer \<longleftrightarrow>
      (if q = EarrcmpAny then \<exists>d \<in> set ds. holds (cmp3 IsNull key t d v) infer
       else \<forall>d \<in> set ds. holds (cmp3 IsNull key t d v) infer)"
    using assms(1) by (cases q) (auto simp: holds_or3 holds_and3)
  also have "\<dots> \<longleftrightarrow> (case v of None \<Rightarrow> infer | Some x \<Rightarrow> (x \<in> key ` set ds) = (t = EcmptEq))"
    using assms(1,3) c by (cases v) (auto, metis list.set_intros(1) neq_Nil_conv)
  finally show ?thesis .
qed

end

context sql_order
begin

definition conj_ok :: "ULONG \<Rightarrow> 'd CConstraintInterval \<Rightarrow> bool" where
  "conj_ok colref pci \<longleftrightarrow> iok pci \<and> ci_pcr pci = colref"

lemma union_pairs_correct:
  "\<forall>p \<in> set ps. conj_ok colref p \<Longrightarrow>
   \<exists>us. union_pairs C ps = Inr us \<and> (\<forall>u \<in> set us. conj_ok colref u) \<and>
     (\<forall>v. (\<exists>u \<in> set us. ini u v) \<longleftrightarrow> (\<exists>p \<in> set ps. ini p v))"
proof (induction ps rule: induct_list012)
  case (3 p1 p2 ps)
  obtain u where "PciUnion C p1 p2 = Inr u" "iok u" "ci_pcr u = ci_pcr p1" "\<forall>v. ini u v \<longleftrightarrow> ini p1 v \<or> ini p2 v"
    using PciUnion_correct [of p1 p2] 3(3) by (auto simp: conj_ok_def)
  moreover obtain us where "union_pairs C ps = Inr us" "\<forall>u \<in> set us. conj_ok colref u"
    "\<forall>v. (\<exists>u \<in> set us. ini u v) \<longleftrightarrow> (\<exists>p \<in> set ps. ini p v)"
    using 3(1,3) by auto
  ultimately show ?case using 3(3) by (intro exI [of _ "u # us"]) (auto simp: conj_ok_def)
qed auto

lemma union_rounds_correct:
  "cs \<noteq> [] \<Longrightarrow> \<forall>p \<in> set cs. conj_ok colref p \<Longrightarrow>
   \<exists>u. union_rounds C cs = Inr u \<and> conj_ok colref u \<and> (\<forall>v. ini u v \<longleftrightarrow> (\<exists>p \<in> set cs. ini p v))"
proof (induction "length cs" arbitrary: cs rule: less_induct)
  case less
  show ?case
  proof (cases "length cs > 1")
    case True
    obtain us where us: "union_pairs C cs = Inr us" "\<forall>u \<in> set us. conj_ok colref u"
      "\<forall>v. (\<exists>u \<in> set us. ini u v) \<longleftrightarrow> (\<exists>p \<in> set cs. ini p v)"
      using union_pairs_correct [OF less.prems(2)] by blast
    have len: "length us = (length cs + 1) div 2" by (rule union_pairs_length [OF us(1)])
    with True have "length us < length cs" "us \<noteq> []" by auto
    from less.hyps [OF this us(2)] us True show ?thesis
      by (auto simp: union_rounds.simps [of C cs])
  next
    case False
    then obtain p where "cs = [p]" using less.prems(1) by (cases cs) auto
    then show ?thesis using less.prems(2) by (simp add: union_rounds.simps)
  qed
qed

definition exact :: "(ULONG \<Rightarrow> bool) \<Rightarrow> bool \<Rightarrow> ULONG \<Rightarrow> (nat \<Rightarrow> 'k option \<Rightarrow> bool option) \<Rightarrow> bool \<Rightarrow> 'd scalar \<Rightarrow> bool" where
  "exact cons arr colref other infer e \<longleftrightarrow>
     (\<exists>pci. PciIntervalFromScalarExpr C IsNull cons arr colref e infer = Inr (Some pci) \<and>
        conj_ok colref pci \<and> (\<forall>v. ini pci v \<longleftrightarrow> holds (ev IsNull key other e v) infer))"

lemma or_children_exact:
  "\<forall>e \<in> set es. exact cons arr colref other infer e \<Longrightarrow>
   \<exists>cs. bool_or_children C IsNull cons arr colref es infer = Inr (Some cs) \<and> length cs = length es \<and>
     (\<forall>c \<in> set cs. conj_ok colref c) \<and>
     (\<forall>v. (\<exists>c \<in> set cs. ini c v) \<longleftrightarrow> (\<exists>e \<in> set es. holds (ev IsNull key other e v) infer))"
proof (induction es)
  case (Cons e es)
  obtain p where p: "PciIntervalFromScalarExpr C IsNull cons arr colref e infer = Inr (Some p)"
    "conj_ok colref p" "\<forall>v. ini p v \<longleftrightarrow> holds (ev IsNull key other e v) infer"
    using Cons.prems by (auto simp: exact_def)
  obtain cs where "bool_or_children C IsNull cons arr colref es infer = Inr (Some cs)"
    "length cs = length es" "\<forall>c \<in> set cs. conj_ok colref c"
    "\<forall>v. (\<exists>c \<in> set cs. ini c v) \<longleftrightarrow> (\<exists>e \<in> set es. holds (ev IsNull key other e v) infer)"
    using Cons by auto
  with p show ?case by (intro exI [of _ "p # cs"]) auto
qed simp

lemma and_children_exact:
  "\<forall>e \<in> set es. exact cons arr colref other infer e \<Longrightarrow> conj_ok colref p \<Longrightarrow>
   \<exists>r. bool_and_children C IsNull cons arr colref es infer (Some p) = Inr (Some r) \<and> conj_ok colref r \<and>
     (\<forall>v. ini r v \<longleftrightarrow> ini p v \<and> (\<forall>e \<in> set es. holds (ev IsNull key other e v) infer))"
proof (induction es arbitrary: p)
  case (Cons e es)
  obtain q where q: "PciIntervalFromScalarExpr C IsNull cons arr colref e infer = Inr (Some q)"
    "conj_ok colref q" "\<forall>v. ini q v \<longleftrightarrow> holds (ev IsNull key other e v) infer"
    using Cons.prems by (auto simp: exact_def)
  obtain r where r: "PciIntersect C p q = Inr r" "conj_ok colref r" "\<forall>v. ini r v \<longleftrightarrow> ini p v \<and> ini q v"
    using PciIntersect_correct [of p q] Cons.prems(2) q(2) by (auto simp: conj_ok_def)
  from Cons.IH [of r] Cons.prems(1) r(2) q r show ?case by auto
qed simp

lemma cmp_exact:
  assumes "cls d" and "t \<notin> {EcmptIDF, EcmptOther}"
  shows "exact cons arr colref other infer (ScCmp t d)"
proof -
  note okr = cmp_ctor_ok [OF assms(1)]
  have lt: "right_cut key (CRange_cmp_ctor EcmptL d) \<le> left_cut key (CRange_cmp_ctor EcmptG d)"
    by (simp add: CRange_cmp_ctor_def left_cut_def right_cut_def)
  show ?thesis
    using assms okr lt not_null [OF assms(1)]
    by (cases t) (auto simp: exact_def PciIntervalFromColConstCmp_def PciRangeFromColConstCmp_def conj_ok_def
        interval_ok_def in_interval_def cmp3_def cmp_ctor_in_range split: option.splits)
qed

lemma idf_exact:
  assumes "cls d \<or> IsNull d" and "cons colref"
  shows "exact cons arr colref other infer (ScIDF d)"
proof (cases "IsNull d")
  case True
  let ?n = "\<lparr>ci_pcr = colref, ci_ranges = [], ci_null = True\<rparr> :: 'd CConstraintInterval"
  have "iok ?n" by (simp add: interval_ok_def)
  then obtain r where "PciComplement C cons ?n = Inr r" "iok r" "ci_pcr r = colref" "\<forall>v. ini r v \<longleftrightarrow> \<not> ini ?n v"
    using PciComplement_correct [of ?n cons] assms(2) by auto
  then show ?thesis using True
    by (auto simp: exact_def PciIntervalFromScalarIDF_def conj_ok_def in_interval_def split: option.splits)
next
  case False
  then have d: "cls d" using assms by simp
  have lt: "right_cut key (CRange_cmp_ctor EcmptL d) \<le> left_cut key (CRange_cmp_ctor EcmptG d)"
    by (simp add: CRange_cmp_ctor_def left_cut_def right_cut_def)
  show ?thesis
    using False lt cmp_ctor_ok [OF d]
    by (auto simp: exact_def PciIntervalFromScalarIDF_def PciRangeFromColConstCmp_def conj_ok_def
        interval_ok_def in_interval_def cmp_ctor_in_range split: option.splits)
qed

lemma derivation_exact:
  "supported cls IsNull arr e \<Longrightarrow> cons colref \<Longrightarrow> exact cons arr colref other infer e"
proof (induction e arbitrary: infer)
  case (ScNullTest e)
  then show ?case
    by (auto simp: exact_def PciIntervalFromScalarNullTest_def conj_ok_def interval_ok_def in_interval_def
        split: option.splits)
next
  case (ScAnd es)
  then obtain e rest where es: "es = e # rest" by (cases es) auto
  have all: "\<forall>e \<in> set es. exact cons arr colref other infer e" using ScAnd by simp
  then obtain p where p: "PciIntervalFromScalarExpr C IsNull cons arr colref e infer = Inr (Some p)"
    "conj_ok colref p" "\<forall>v. ini p v \<longleftrightarrow> holds (ev IsNull key other e v) infer"
    by (auto simp: exact_def es)
  from and_children_exact [of rest cons arr colref other infer p] all p show ?case
    by (auto simp: exact_def es holds_and3)
next
  case (ScOr es)
  have all: "\<forall>e \<in> set es. exact cons arr colref other infer e" and ne: "es \<noteq> []" using ScOr by simp_all
  obtain cs where cs: "bool_or_children C IsNull cons arr colref es infer = Inr (Some cs)"
    "length cs = length es" "\<forall>c \<in> set cs. conj_ok colref c"
    "\<forall>v. (\<exists>c \<in> set cs. ini c v) \<longleftrightarrow> (\<exists>e \<in> set es. holds (ev IsNull key other e v) infer)"
    using or_children_exact [OF all] by blast
  then have "cs \<noteq> []" using ne by auto
  from union_rounds_correct [OF this cs(3)] cs ne show ?case by (auto simp: exact_def holds_or3)
next
  case (ScNot e)
  then obtain p where p: "PciIntervalFromScalarExpr C IsNull cons arr colref e (\<not> infer) = Inr (Some p)"
    "conj_ok colref p" "\<forall>v. ini p v \<longleftrightarrow> holds (ev IsNull key other e v) (\<not> infer)"
    by (auto simp: exact_def)
  obtain r where "PciComplement C cons p = Inr r" "iok r" "ci_pcr r = colref" "\<forall>v. ini r v \<longleftrightarrow> \<not> ini p v"
    using PciComplement_correct [of p cons] p(2) ScNot.prems(2) by (auto simp: conj_ok_def)
  with p show ?case by (auto simp: exact_def conj_ok_def)
next
  case (ScConst b)
  then obtain t where t: "b = Some t" by auto
  show ?case
  proof (cases t)
    case True
    then show ?thesis
      using ScConst.prems(2) unbounded_ok [of cons colref True] t
      by (auto simp: exact_def conj_ok_def PciUnbounded_def split: option.splits)
  qed (simp add: t exact_def conj_ok_def interval_ok_def in_interval_def split: option.splits)
next
  case (ScArrayCmp q t ds)
  have "t = EcmptEq \<or> t = EcmptNEq" using ScArrayCmp.prems(1) by auto
  with array_cmp_correct [of ds t colref infer] holds_array_cmp [of ds q t other _ infer] ScArrayCmp.prems
  show ?case by (auto simp: exact_def conj_ok_def)
qed (auto intro: cmp_exact idf_exact)

end

text \<open>
  Predicates without negation and without \<^verbatim>\<open>c <> ANY (list)\<close>, in which any other expression may
  occur: every comparison and array constant is of the class, and every connective has an argument.
\<close>

fun positive :: "('d \<Rightarrow> bool) \<Rightarrow> ('d \<Rightarrow> bool) \<Rightarrow> bool \<Rightarrow> 'd scalar \<Rightarrow> bool" where
  "positive cls IsNull arr (ScAnd es) \<longleftrightarrow> es \<noteq> [] \<and> (\<forall>e \<in> set es. positive cls IsNull arr e)"
| "positive cls IsNull arr (ScOr es) \<longleftrightarrow> es \<noteq> [] \<and> (\<forall>e \<in> set es. positive cls IsNull arr e)"
| "positive cls IsNull arr (ScNot e) \<longleftrightarrow> False"
| "positive cls IsNull arr (ScCmp t d) \<longleftrightarrow> t = EcmptOther \<or> supported cls IsNull arr (ScCmp t d)"
| "positive cls IsNull arr (ScArrayCmp q t ds) \<longleftrightarrow>
     \<not> arr \<or> (\<forall>d \<in> set ds. cls d) \<and> (q, t) \<noteq> (EarrcmpAny, EcmptNEq)"
| "positive cls IsNull arr (ScNullTest e) \<longleftrightarrow> True"
| "positive cls IsNull arr (ScIDF d) \<longleftrightarrow> supported cls IsNull arr (ScIDF d)"
| "positive cls IsNull arr _ \<longleftrightarrow> True"

context sql_order
begin

definition safe :: "(ULONG \<Rightarrow> bool) \<Rightarrow> bool \<Rightarrow> ULONG \<Rightarrow> (nat \<Rightarrow> 'k option \<Rightarrow> bool option) \<Rightarrow> 'd scalar \<Rightarrow> bool" where
  "safe cons arr colref other e \<longleftrightarrow>
     (\<exists>o1. PciIntervalFromScalarExpr C IsNull cons arr colref e False = Inr o1 \<and>
        (\<forall>pci. o1 = Some pci \<longrightarrow> conj_ok colref pci \<and>
           (\<forall>v. ev IsNull key other e v = Some True \<longrightarrow> ini pci v)))"

lemma exact_safe: "exact cons arr colref other False e \<Longrightarrow> safe cons arr colref other e"
  by (auto simp: exact_def safe_def holds_true)

lemma or_children_safe:
  "\<forall>e \<in> set es. safe cons arr colref other e \<Longrightarrow>
   \<exists>o1. bool_or_children C IsNull cons arr colref es False = Inr o1 \<and>
     (\<forall>cs. o1 = Some cs \<longrightarrow> length cs = length es \<and> (\<forall>c \<in> set cs. conj_ok colref c) \<and>
        (\<forall>v. (\<exists>e \<in> set es. ev IsNull key other e v = Some True) \<longrightarrow> (\<exists>c \<in> set cs. ini c v)))"
proof (induction es)
  case (Cons e es)
  obtain o1 where o1: "PciIntervalFromScalarExpr C IsNull cons arr colref e False = Inr o1"
    "\<forall>pci. o1 = Some pci \<longrightarrow> conj_ok colref pci \<and> (\<forall>v. ev IsNull key other e v = Some True \<longrightarrow> ini pci v)"
    using Cons.prems by (auto simp: safe_def)
  obtain o2 where o2: "bool_or_children C IsNull cons arr colref es False = Inr o2"
    "\<forall>cs. o2 = Some cs \<longrightarrow> length cs = length es \<and> (\<forall>c \<in> set cs. conj_ok colref c) \<and>
        (\<forall>v. (\<exists>e \<in> set es. ev IsNull key other e v = Some True) \<longrightarrow> (\<exists>c \<in> set cs. ini c v))"
    using Cons by auto
  show ?case using o1 o2 by (cases o1; cases o2) auto
qed simp

lemma and_children_safe:
  "\<forall>e \<in> set es. safe cons arr colref other e \<Longrightarrow>
   \<forall>p. o1 = Some p \<longrightarrow> conj_ok colref p \<and> (\<forall>v. Q v \<longrightarrow> ini p v) \<Longrightarrow>
   \<exists>o2. bool_and_children C IsNull cons arr colref es False o1 = Inr o2 \<and>
     (\<forall>r. o2 = Some r \<longrightarrow> conj_ok colref r \<and>
        (\<forall>v. Q v \<longrightarrow> (\<forall>e \<in> set es. ev IsNull key other e v = Some True) \<longrightarrow> ini r v))"
proof (induction es arbitrary: o1 Q)
  case Nil
  then show ?case by simp
next
  case (Cons e es)
  let ?T = "\<lambda>e v. ev IsNull key other e v = Some True"
  obtain o2 where o2: "PciIntervalFromScalarExpr C IsNull cons arr colref e False = Inr o2"
    "\<forall>pci. o2 = Some pci \<longrightarrow> conj_ok colref pci \<and> (\<forall>v. ?T e v \<longrightarrow> ini pci v)"
    using Cons.prems(1) by (auto simp: safe_def)
  define m where "m = (case (o2, o1) of (Some child, Some p) \<Rightarrow> rbind (PciIntersect C p child) (\<lambda>r. Inr (Some r))
              | (Some child, None) \<Rightarrow> Inr (Some child) | (None, _) \<Rightarrow> Inr o1)"
  have "\<exists>o3. m = Inr o3 \<and> (\<forall>p. o3 = Some p \<longrightarrow> conj_ok colref p \<and> (\<forall>v. Q v \<and> ?T e v \<longrightarrow> ini p v))"
  proof (cases "\<exists>child p. o2 = Some child \<and> o1 = Some p")
    case True
    then obtain child p where cp: "o2 = Some child" "o1 = Some p" by blast
    then obtain r where "PciIntersect C p child = Inr r" "conj_ok colref r" "\<forall>v. ini r v \<longleftrightarrow> ini p v \<and> ini child v"
      using PciIntersect_correct [of p child] Cons.prems(2) o2(2) by (auto simp: conj_ok_def)
    then show ?thesis using cp Cons.prems(2) o2(2) by (auto simp: m_def)
  next
    case False
    then show ?thesis using Cons.prems(2) o2(2) by (cases o1; cases o2) (auto simp: m_def)
  qed
  then obtain o3 where o3: "m = Inr o3"
    "\<forall>p. o3 = Some p \<longrightarrow> conj_ok colref p \<and> (\<forall>v. Q v \<and> ?T e v \<longrightarrow> ini p v)" by blast
  obtain o4 where "bool_and_children C IsNull cons arr colref es False o3 = Inr o4"
    "\<forall>r. o4 = Some r \<longrightarrow> conj_ok colref r \<and> (\<forall>v. Q v \<and> ?T e v \<longrightarrow> (\<forall>e \<in> set es. ?T e v) \<longrightarrow> ini r v)"
    using Cons.IH [of o3 "\<lambda>v. Q v \<and> ?T e v"] Cons.prems(1) o3(2) by auto
  moreover have "bool_and_children C IsNull cons arr colref (e # es) False o1 =
      rbind m (bool_and_children C IsNull cons arr colref es False)"
    using o2(1) by (simp add: m_def)
  ultimately show ?case using o3(1) by auto
qed

lemma array_cmp_safe:
  assumes cls: "\<forall>d \<in> set ds. cls d" and neq: "(q, t) \<noteq> (EarrcmpAny, EcmptNEq)"
  shows "safe cons True colref other (ScArrayCmp q t ds)"
proof (cases "ds = [] \<or> t \<noteq> EcmptEq \<and> t \<noteq> EcmptNEq")
  case True
  have "\<exists>ss n. CDatumSortedSet_ctor C IsNull ds = Inr (ss, n)" if "ds \<noteq> []"
    by (rule sorted_set_correct [OF that cls]) blast
  with True have "PcnstrIntervalFromScalarArrayCmp C IsNull colref t ds False = Inr None"
    by (auto simp: PcnstrIntervalFromScalarArrayCmp_def split: ECmpType.splits)
  then show ?thesis by (simp add: safe_def)
next
  case False
  then obtain pci where pci: "PcnstrIntervalFromScalarArrayCmp C IsNull colref t ds False = Inr (Some pci)"
    "iok pci" "ci_pcr pci = colref"
    "\<forall>v. ini pci v \<longleftrightarrow> (case v of None \<Rightarrow> False | Some x \<Rightarrow> (x \<in> key ` set ds) = (t = EcmptEq))"
    using array_cmp_correct [OF _ cls, where t = t and colref = colref and infer = False] by auto
  have "ini pci v" if true: "ev IsNull key other (ScArrayCmp q t ds) v = Some True" for v
  proof -
    have "v \<noteq> None" using true False by (cases ds; cases q) (auto simp: cmp3_def and3_def or3_def split: if_splits option.splits)
    then obtain x where x: "v = Some x" by blast
    have c: "cmp3 IsNull key t d v = Some (cmp_keys t x (key d))" if "d \<in> set ds" for d
      using cls not_null that by (simp add: cmp3_def x)
    have any: "\<exists>d \<in> set ds. cmp_keys t x (key d)" if "q = EarrcmpAny"
      using that true c
        holds_or3 [of "map (\<lambda>d. cmp3 IsNull key t d v) ds" False] by (auto simp: holds_true)
    have all: "\<forall>d \<in> set ds. cmp_keys t x (key d)" if "q = EarrcmpAll"
      using that true c
        holds_and3 [of "map (\<lambda>d. cmp3 IsNull key t d v) ds" False] by (auto simp: holds_true)
    show ?thesis
    proof (cases q)
      case EarrcmpAny
      with neq False have "t = EcmptEq" by auto
      with any [OF EarrcmpAny] show ?thesis by (auto simp: pci(4) x)
    next
      case EarrcmpAll
      with all [OF EarrcmpAll] False show ?thesis by (cases ds) (auto simp: pci(4) x)
    qed
  qed
  then show ?thesis using pci(1-3) by (auto simp: safe_def conj_ok_def)
qed

lemma derivation_safe:
  "positive cls IsNull arr e \<Longrightarrow> cons colref \<Longrightarrow> safe cons arr colref other e"
proof (induction e)
  case (ScAnd es)
  then obtain e rest where es: "es = e # rest" by (cases es) auto
  have all: "\<forall>e \<in> set es. safe cons arr colref other e" using ScAnd by simp
  then obtain o1 where o1: "PciIntervalFromScalarExpr C IsNull cons arr colref e False = Inr o1"
    "\<forall>pci. o1 = Some pci \<longrightarrow> conj_ok colref pci \<and> (\<forall>v. ev IsNull key other e v = Some True \<longrightarrow> ini pci v)"
    by (auto simp: safe_def es)
  have "ev IsNull key other (ScAnd es) v = Some True \<longleftrightarrow> (\<forall>e \<in> set es. ev IsNull key other e v = Some True)" for v
    using holds_and3 [of "map (\<lambda>e. ev IsNull key other e v) es" False] by (simp add: holds_true)
  with and_children_safe [of rest cons arr colref other o1 "\<lambda>v. ev IsNull key other e v = Some True"] all o1
  show ?case by (auto simp: safe_def es)
next
  case (ScOr es)
  have all: "\<forall>e \<in> set es. safe cons arr colref other e" and ne: "es \<noteq> []" using ScOr by simp_all
  obtain o1 where o1: "bool_or_children C IsNull cons arr colref es False = Inr o1"
    "\<forall>cs. o1 = Some cs \<longrightarrow> length cs = length es \<and> (\<forall>c \<in> set cs. conj_ok colref c) \<and>
        (\<forall>v. (\<exists>e \<in> set es. ev IsNull key other e v = Some True) \<longrightarrow> (\<exists>c \<in> set cs. ini c v))"
    using or_children_safe [OF all] by blast
  have ev: "ev IsNull key other (ScOr es) v = Some True \<longleftrightarrow> (\<exists>e \<in> set es. ev IsNull key other e v = Some True)" for v
    using holds_or3 [of "map (\<lambda>e. ev IsNull key other e v) es" False] by (force simp: holds_true)
  show ?case
  proof (cases o1)
    case None
    then show ?thesis using o1(1) ne by (simp add: safe_def)
  next
    case (Some cs)
    then have "cs \<noteq> []" "\<forall>c \<in> set cs. conj_ok colref c" using o1(2) ne by auto
    from union_rounds_correct [OF this] o1 Some ne ev show ?thesis by (auto simp: safe_def)
  qed
next
  case (ScCmp t d)
  then show ?case
    using exact_safe [OF cmp_exact, of d t cons arr colref other]
    by (cases "t = EcmptOther")
       (auto simp: safe_def PciIntervalFromColConstCmp_def PciRangeFromColConstCmp_def)
next
  case (ScIDF d)
  then show ?case using exact_safe [OF idf_exact] by auto
next
  case (ScConst b)
  show ?case
  proof (cases "b = Some True")
    case True
    then show ?thesis
      using ScConst.prems(2) exact_safe [OF derivation_exact, of arr "ScConst b" cons colref other] by simp
  qed (simp add: safe_def conj_ok_def interval_ok_def)
next
  case (ScArrayCmp q t ds)
  then show ?case
    using array_cmp_safe [of ds q t cons colref other] by (cases arr) (simp_all add: safe_def)
next
  case (ScNullTest e)
  show ?case
  proof (cases e)
    case ScIdent
    then show ?thesis
      using ScNullTest.prems(2) exact_safe [OF derivation_exact, of arr "ScNullTest e" cons colref other] by simp
  qed (simp_all add: safe_def PciIntervalFromScalarNullTest_def)
qed (simp_all add: safe_def)

section \<open>The predicate of an interval\<close>

abbreviation true_at :: "(nat \<Rightarrow> 'k option \<Rightarrow> bool option) \<Rightarrow> 'd scalar \<Rightarrow> 'k option \<Rightarrow> bool" where
  "true_at other e v \<equiv> ev IsNull key other e v = Some True"

lemma true_and: "true_at other (ScAnd es) v \<longleftrightarrow> (\<forall>e \<in> set es. true_at other e v)"
  using holds_and3 [of "map (\<lambda>e. ev IsNull key other e v) es" False] by (simp add: holds_true)

lemma true_or: "true_at other (ScOr es) v \<longleftrightarrow> (\<exists>e \<in> set es. true_at other e v)"
  using holds_or3 [of "map (\<lambda>e. ev IsNull key other e v) es" False] by (force simp: holds_true)

lemma const_true_at: "FScalarConstTrue e \<Longrightarrow> true_at other e v" "FScalarConstFalse e \<Longrightarrow> \<not> true_at other e v"
  "FScalarConstTrue e \<Longrightarrow> \<not> FScalarConstFalse e"
  by (auto simp: FScalarConstTrue_def FScalarConstFalse_def split: scalar.splits)

lemma conj_loop_true:
  "case conj_disj_loop es True of
     None \<Rightarrow> \<not> (\<forall>e \<in> set es. true_at other e v)
   | Some fs \<Rightarrow> (\<forall>e \<in> set es. true_at other e v) \<longleftrightarrow> (\<forall>e \<in> set fs. true_at other e v)"
  by (induction es) (auto simp: FSkippable_def FReducible_def const_true_at split: option.splits)

lemma disj_loop_true:
  "case conj_disj_loop es False of
     None \<Rightarrow> \<exists>e \<in> set es. true_at other e v
   | Some fs \<Rightarrow> (\<exists>e \<in> set es. true_at other e v) \<longleftrightarrow> (\<exists>e \<in> set fs. true_at other e v)"
  by (induction es) (auto simp: FSkippable_def FReducible_def const_true_at split: option.splits)

lemma conjunction_true: "true_at other (PexprConjDisj es True) v \<longleftrightarrow> (\<forall>e \<in> set es. true_at other e v)"
  using conj_loop_true [of es other v]
  by (auto simp: PexprConjDisj_def true_and simp del: ev.simps(3) split: option.splits list.splits)

lemma disjunction_true: "true_at other (PexprConjDisj es False) v \<longleftrightarrow> (\<exists>e \<in> set es. true_at other e v)"
  using disj_loop_true [of es other v]
  by (auto simp: PexprConjDisj_def true_or simp del: ev.simps(4) split: option.splits list.splits)

end

context sql_order
begin

lemma true_cmp: "cls d \<Longrightarrow> true_at other (ScCmp t d) v \<longleftrightarrow> (\<exists>x. v = Some x \<and> cmp_keys t x (key d))"
  using not_null by (auto simp: cmp3_def split: option.splits)

lemma range_predicate_true:
  assumes "ok r"
  shows "true_at other (rng_PexprScalar C r) v \<longleftrightarrow>
    (if rng_IsConstraintUnbounded r then True else \<exists>x. v = Some x \<and> inr r x)"
proof (cases "PexprEquality C r")
  case (Some e)
  then obtain l u where lu: "rng_left r = Some l" "rng_right r = Some u" "cls l" "cls u" "key l = key u"
    "rng_eriLeft r = EriIncluded" "rng_eriRight r = EriIncluded" "e = ScCmp EcmptEq l"
    using assms by (cases "rng_eriLeft r"; cases "rng_eriRight r")
      (auto simp: PexprEquality_def range_ok_def eq_law split: option.splits if_splits)
  then have "\<not> rng_IsConstraintUnbounded r" "inr r x \<longleftrightarrow> x = key l" for x
    by (auto simp: rng_IsConstraintUnbounded_def in_range_def)
  then show ?thesis using Some lu true_cmp [of l other EcmptEq v] by (simp add: rng_PexprScalar_def)
next
  case None
  have l: "cls d" if "rng_left r = Some d" for d using assms that by (simp add: range_ok_def)
  have u: "cls d" if "rng_right r = Some d" for d using assms that by (simp add: range_ok_def)
  show ?thesis
  proof (cases "rng_left r"; cases "rng_right r")
    assume "rng_left r = None" "rng_right r = None"
    then show ?thesis using None
      by (simp add: rng_PexprScalar_def PexprScalarCompEnd_def rng_IsConstraintUnbounded_def conjunction_true)
  next
    fix d assume "rng_left r = None" "rng_right r = Some d"
    then show ?thesis using None true_cmp [OF u]
      by (auto simp: rng_PexprScalar_def PexprScalarCompEnd_def rng_IsConstraintUnbounded_def conjunction_true
          in_range_def simp del: ev.simps)
  next
    fix d assume "rng_left r = Some d" "rng_right r = None"
    then show ?thesis using None true_cmp [OF l]
      by (auto simp: rng_PexprScalar_def PexprScalarCompEnd_def rng_IsConstraintUnbounded_def conjunction_true
          in_range_def simp del: ev.simps)
  next
    fix d d' assume "rng_left r = Some d" "rng_right r = Some d'"
    then show ?thesis using None true_cmp [OF l] true_cmp [OF u]
      by (auto simp: rng_PexprScalar_def PexprScalarCompEnd_def rng_IsConstraintUnbounded_def conjunction_true
          in_range_def simp del: ev.simps)
  qed
qed

lemma unbounded_alone:
  assumes "rsok rs" and "r \<in> set rs" and "rng_IsConstraintUnbounded r"
  shows "rs = [r]"
proof -
  have inf: "lc r = NegInf" "rc r = PosInf" using assms(3) by (simp_all add: rng_IsConstraintUnbounded_def left_cut_def right_cut_def)
  obtain xs ys where rs: "rs = xs @ r # ys" using split_list [OF assms(2)] by blast
  have "rc x \<le> lc r" if "x \<in> set xs" for x using assms(1) rs that by (simp add: ranges_ok_append)
  then have "xs = []" using inf by (cases xs) auto
  moreover have "rc r \<le> lc y" if "y \<in> set ys" for y using assms(1) rs that by (simp add: ranges_ok_append)
  then have "ys = []" using inf by (cases ys) auto
  ultimately show ?thesis using rs by simp
qed

lemma isnull_true: "true_at other (ScNullTest ScIdent) v \<longleftrightarrow> v = None"
  by simp

lemma disjunction_predicate_true:
  assumes "iok pci"
  shows "true_at other (PexprConstructDisjunctionScalar C pci) v \<longleftrightarrow> ini pci v"
proof -
  let ?rs = "ci_ranges pci" and ?es = "map (rng_PexprScalar C) (ci_ranges pci)"
  have rs: "rsok ?rs" "\<forall>r \<in> set ?rs. ok r" using assms by (auto simp: interval_ok_def ranges_ok_def)
  show ?thesis
  proof (cases "\<exists>r \<in> set ?rs. rng_IsConstraintUnbounded r")
    case True
    then obtain r where r: "?rs = [r]" "rng_IsConstraintUnbounded r" using unbounded_alone [OF rs(1)] by metis
    have "rng_PexprScalar C r = ScConst (Some True)"
      using r(2) by (simp add: rng_PexprScalar_def PexprEquality_def PexprScalarCompEnd_def
          rng_IsConstraintUnbounded_def PexprConjDisj_def)
    moreover have "inr r x" for x using r(2) by (simp add: rng_IsConstraintUnbounded_def in_range_def)
    ultimately show ?thesis using r(1)
      by (auto simp: PexprConstructDisjunctionScalar_def Let_def FScalarConstTrue_def in_interval_def
          split: option.splits)
  next
    case False
    have t: "true_at other (rng_PexprScalar C r) v \<longleftrightarrow> (\<exists>x. v = Some x \<and> inr r x)" if "r \<in> set ?rs" for r v
      using range_predicate_true [of r other v] rs(2) False that by simp
    have nt: "\<not> (length ?es = 1 \<and> FScalarConstTrue (?es ! 0))"
    proof
      assume a: "length ?es = 1 \<and> FScalarConstTrue (?es ! 0)"
      then obtain r where "?rs = [r]" by (auto simp: length_Suc_conv)
      with a t [of r None] const_true_at(1) [of "rng_PexprScalar C r" other None] show False by simp
    qed
    have "(\<exists>e \<in> set ?es. true_at other e v) \<longleftrightarrow> (\<exists>x. v = Some x \<and> inrs ?rs x)"
      using t [of _ v] by (auto simp: in_ranges_def simp del: ev.simps)
    moreover have "true_at other (PexprConstructDisjunctionScalar C pci) v \<longleftrightarrow>
        (\<exists>e \<in> set ?es. true_at other e v) \<or> (ci_null pci \<and> v = None)"
      using nt by (auto simp: PexprConstructDisjunctionScalar_def Let_def disjunction_true)
    ultimately show ?thesis by (cases v) (simp_all add: in_interval_def)
  qed
qed

lemma points_correct:
  "\<forall>r \<in> set rs. ok r \<Longrightarrow>
   \<exists>b. all_points C rs = Inr b \<and>
     (b \<longrightarrow> (\<exists>ds. rmap (\<lambda>r. deref (rng_right r)) rs = Inr ds \<and> length ds = length rs \<and> (\<forall>d \<in> set ds. cls d) \<and>
        (\<forall>x. inrs rs x \<longleftrightarrow> x \<in> key ` set ds)))"
proof (induction rs)
  case (Cons r rs)
  obtain b where b: "all_points C rs = Inr b"
    "b \<longrightarrow> (\<exists>ds. rmap (\<lambda>r. deref (rng_right r)) rs = Inr ds \<and> length ds = length rs \<and> (\<forall>d \<in> set ds. cls d) \<and>
        (\<forall>x. inrs rs x \<longleftrightarrow> x \<in> key ` set ds))"
    using Cons by auto
  have "ok r" using Cons.prems by simp
  then have "\<exists>p. FPoint C r = Inr p \<and>
      (p \<longrightarrow> (\<exists>d. rng_right r = Some d \<and> cls d \<and> (\<forall>x. inr r x \<longleftrightarrow> x = key d)))"
    by (cases "rng_left r"; cases "rng_right r"; cases "rng_eriLeft r"; cases "rng_eriRight r")
       (auto simp: FPoint_def cmp_Equals_ptr_def range_ok_def eq_law in_range_def)
  then obtain p where p: "FPoint C r = Inr p"
    "p \<longrightarrow> (\<exists>d. rng_right r = Some d \<and> cls d \<and> (\<forall>x. inr r x \<longleftrightarrow> x = key d))"
    by blast
  show ?case
  proof (cases "p \<and> b")
    case True
    then obtain d ds where "rng_right r = Some d" "cls d" "\<forall>x. inr r x \<longleftrightarrow> x = key d"
      "rmap (\<lambda>r. deref (rng_right r)) rs = Inr ds" "length ds = length rs" "\<forall>d \<in> set ds. cls d"
      "\<forall>x. inrs rs x \<longleftrightarrow> x \<in> key ` set ds"
      using p(2) b(2) by blast
    then show ?thesis using True p(1) b(1) by (auto simp: deref_def)
  next
    case False
    then show ?thesis using p(1) b(1) by auto
  qed
qed auto

lemma chain_correct:
  "not_in_chain C l rs \<Longrightarrow> rsok (l # rs) \<Longrightarrow> rng_right (last (l # rs)) = None \<Longrightarrow>
   \<exists>ds. rmap (\<lambda>r. deref (rng_right r)) (butlast (l # rs)) = Inr ds \<and> length ds = length rs \<and>
     (\<forall>d \<in> set ds. cls d \<and> lc l \<le> Below (key d)) \<and>
     (\<forall>x. inrs (l # rs) x \<longleftrightarrow> lc l \<le> Below x \<and> x \<notin> key ` set ds)"
proof (induction rs arbitrary: l)
  case Nil
  then show ?case by (auto simp: in_range_cuts right_cut_def)
next
  case (Cons r rs)
  have okl: "ok l" and le: "rc l \<le> lc r" using Cons.prems(2) by auto
  have ch: "rng_eriRight l = EriExcluded" "rng_eriLeft r = EriExcluded" "FUpperBoundEqualsLowerBound C l r"
    "not_in_chain C r rs"
    using Cons.prems(1) by (auto split: if_splits)
  obtain d d' where d: "rng_right l = Some d" "rng_left r = Some d'"
    using ch(3) le by (auto simp: FUpperBoundEqualsLowerBound_def right_cut_def left_cut_def split: option.splits)
  have c: "cls d" "cls d'" using d okl Cons.prems(2) by (auto simp: range_ok_def)
  have k: "key d' = key d" using ch(3) d c by (simp add: FUpperBoundEqualsLowerBound_def eq_law)
  have cuts: "rc l = Below (key d)" "lc r = Above (key d)"
    using d ch(1,2) k by (auto simp: right_cut_def left_cut_def)
  obtain ds where ds: "rmap (\<lambda>r. deref (rng_right r)) (butlast (r # rs)) = Inr ds" "length ds = length rs"
    "\<forall>d \<in> set ds. cls d \<and> lc r \<le> Below (key d)"
    "\<forall>x. inrs (r # rs) x \<longleftrightarrow> lc r \<le> Below x \<and> x \<notin> key ` set ds"
    using Cons.IH [OF ch(4)] Cons.prems(2,3) by auto
  have lt: "lc l < Below (key d)" using okD(1) [OF okl] cuts by simp
  have gt: "key d < key e" if "e \<in> set ds" for e using ds(3) that cuts by auto
  have lo: "lc l \<le> Below (key e)" if "e \<in> set ds" for e
    using lt gt [OF that] by (metis less_cut_simps(5) less_imp_le order.strict_trans)
  have "inrs (l # r # rs) x \<longleftrightarrow> lc l \<le> Below x \<and> x \<notin> key ` set (d # ds)" for x
  proof -
    have a: "inr l x \<longleftrightarrow> lc l \<le> Below x \<and> x < key d" using cuts by (simp add: in_range_cuts)
    have b: "inrs (r # rs) x \<longleftrightarrow> key d < x \<and> x \<notin> key ` set ds" using ds(4) cuts by simp
    have "lc l \<le> Below x" if "key d < x"
      using lt that by (metis less_cut_simps(5) less_imp_le order.strict_trans)
    then show ?thesis using a b gt by (auto dest: order.asym)
  qed
  then show ?case
    using ds d c lt lo by (intro exI [of _ "d # ds"]) (auto simp: deref_def less_imp_le)
qed

lemma array_predicate_true:
  assumes "iok pci"
  shows "\<exists>e. PexprConstructArrayScalar C pci = Inr e \<and>
    (\<forall>e'. e = Some e' \<longrightarrow> (\<forall>v. true_at other e' v \<longleftrightarrow> ini pci v))"
proof (cases "1 \<ge> length (ci_ranges pci)")
  case True
  then show ?thesis by (simp add: PexprConstructArrayScalar_def)
next
  case False
  let ?rs = "ci_ranges pci"
  have rs: "rsok ?rs" "\<forall>r \<in> set ?rs. ok r" using assms by (auto simp: interval_ok_def ranges_ok_def)
  obtain b where b: "all_points C ?rs = Inr b"
    "b \<longrightarrow> (\<exists>ds. rmap (\<lambda>r. deref (rng_right r)) ?rs = Inr ds \<and> length ds = length ?rs \<and> (\<forall>d \<in> set ds. cls d) \<and>
        (\<forall>x. inrs ?rs x \<longleftrightarrow> x \<in> key ` set ds))"
    using points_correct [OF rs(2)] by blast
  have arr: "true_at other (ScArrayCmp q t ds) v \<longleftrightarrow> (\<exists>x. v = Some x \<and> (x \<in> key ` set ds) = (t = EcmptEq))"
    if "ds \<noteq> []" "\<forall>d \<in> set ds. cls d" "(q, t) = (EarrcmpAny, EcmptEq) \<or> (q, t) = (EarrcmpAll, EcmptNEq)" for q t ds v
    using holds_array_cmp [OF that, of other v False] by (simp add: holds_true split: option.splits)
  have null: "true_at other (if ci_null pci then PexprConjDisj [e, ScNullTest ScIdent] False else e) v \<longleftrightarrow>
      true_at other e v \<or> (ci_null pci \<and> v = None)" for e v
    by (simp add: disjunction_true)
  show ?thesis
  proof (cases b)
    case True
    then obtain ds where ds: "rmap (\<lambda>r. deref (rng_right r)) ?rs = Inr ds" "length ds = length ?rs"
      "\<forall>d \<in> set ds. cls d" "\<forall>x. inrs ?rs x \<longleftrightarrow> x \<in> key ` set ds" using b(2) by blast
    then have "ds \<noteq> []" using False by auto
    then show ?thesis
      using False True b(1) ds null arr [of ds EarrcmpAny EcmptEq]
      by (auto simp: PexprConstructArrayScalar_def PexprConstructArrayScalar_in_def FConvertsToIn_def
          in_interval_def Let_def simp del: ev.simps split: option.splits)
  next
    case nb: False
    show ?thesis
    proof (cases "FConvertsToNotIn C pci")
      case True
      obtain l rs' where l: "?rs = l # rs'" using False by (cases ?rs) auto
      then have ne: "rs' \<noteq> []" using False by auto
      have ch: "not_in_chain C l rs'" "rng_left l = None" "rng_right (last (l # rs')) = None"
        using True False l ne by (auto simp: FConvertsToNotIn_def Let_def last_conv_nth split: if_splits)
      obtain ds where ds: "rmap (\<lambda>r. deref (rng_right r)) (butlast ?rs) = Inr ds" "length ds = length rs'"
        "\<forall>d \<in> set ds. cls d" "\<forall>x. inrs ?rs x \<longleftrightarrow> lc l \<le> Below x \<and> x \<notin> key ` set ds"
        using chain_correct [OF ch(1) _ ch(3)] rs(1) l by auto
      have "lc l = NegInf" using ch(2) by (simp add: left_cut_def)
      moreover have "ds \<noteq> []" using ds(2) ne by auto
      moreover have "take (length ?rs - 1) ?rs = butlast ?rs" by (simp add: butlast_conv_take)
      ultimately show ?thesis
        using False nb True b(1) ds null arr [of ds EarrcmpAll EcmptNEq]
        by (auto simp: PexprConstructArrayScalar_def PexprConstructArrayScalar_in_def FConvertsToIn_def
            in_interval_def Let_def simp del: ev.simps split: option.splits)
    next
      case nn: False
      then show ?thesis using False nb b(1) by (simp add: PexprConstructArrayScalar_def FConvertsToIn_def)
    qed
  qed
qed

lemma predicate_true:
  assumes "iok pci"
  shows "\<exists>e. PexprConstructScalar C arr pci = Inr e \<and> (\<forall>v. true_at other e v \<longleftrightarrow> ini pci v)"
proof (cases "FContradiction pci")
  case True
  then show ?thesis using contradiction_empty [OF True] by (simp add: PexprConstructScalar_def)
next
  case False
  then show ?thesis
    using array_predicate_true [OF assms, of other] disjunction_predicate_true [OF assms, of other]
    by (cases arr) (auto simp: PexprConstructScalar_def simp del: ev.simps split: option.splits)
qed

end

section \<open>Properties\<close>

text \<open>Non-NULL integers under the built-in comparator.\<close>

definition int_const :: "'f IDatum \<Rightarrow> bool" where
  "int_const d \<longleftrightarrow> int_datum d \<and> \<not> dat_null d"

interpretation int_sql: sql_order "CDefaultComparator (env\<lparr>env_ext_ints := False\<rparr>)" int_const int_key dat_null
  for env
  by unfold_locales
     (auto simp: int_const_def dc.eq_law dc.lt_law dc.le_law dc.gt_law dc.ge_law)

lemma int_cmp_sql: "sql_order int_cmp int_const int_key dat_null"
  unfolding int_cmp_def by (rule int_sql.sql_order_axioms)

lemma int4_const [simp]: "int_const (int4 n)" "\<not> dat_null (int4 n)" "int_key (int4 n) = Some n"
  by (simp_all add: int_const_def int_datum_def FIntType_def int4_def int_key_def)

text \<open>
  C4: constraint derivation is exact on the supported predicates. For a predicate built from
  comparisons of the column with constants, IS [NOT] NULL, IS DISTINCT FROM, boolean constants,
  IN and NOT IN lists and AND, OR, NOT, \<^verbatim>\<open>PciIntervalFromScalarExpr\<close> never fails and
  returns a valid interval with exactly the column values for which the predicate is true, or,
  when NULL is to be inferred as true, not false. Three-valued logic is respected, under NOT too.
\<close>

theorem interval_derivation_exact:
  assumes "sql_order C cls key IsNull" and "supported cls IsNull arr e" and "cons colref"
  shows "\<exists>pci. PciIntervalFromScalarExpr C IsNull cons arr colref e infer = Inr (Some pci) \<and>
    interval_ok cls key pci \<and> ci_pcr pci = colref \<and>
    (\<forall>v. in_interval key pci v \<longleftrightarrow>
       (case ev IsNull key other e v of Some t \<Rightarrow> t | None \<Rightarrow> infer))"
  using sql_order.derivation_exact [OF assms(1,2), where cons = cons and colref = colref and other = other and infer = infer] assms(3)
  unfolding sql_order.exact_def [OF assms(1)] sql_order.conj_ok_def [OF assms(1)] holds_def by auto

theorem interval_derivation_exact_witness:
  "\<exists>pci. PciIntervalFromScalarExpr int_cmp dat_null (\<lambda>_. True) True 7
       (ScNot (ScOr [ScCmp EcmptL (int4 3), ScArrayCmp EarrcmpAny EcmptEq [int4 9, int4 5]])) False = Inr (Some pci) \<and>
     in_interval int_key pci (Some (Some 6)) \<and> \<not> in_interval int_key pci (Some (Some 5)) \<and>
     \<not> in_interval int_key pci None"
proof -
  let ?e = "ScNot (ScOr [ScCmp EcmptL (int4 3), ScArrayCmp EarrcmpAny EcmptEq [int4 9, int4 5]])"
  have "supported int_const dat_null True ?e" by simp
  from interval_derivation_exact [OF int_cmp_sql this, of "\<lambda>_. True" 7 False "\<lambda>_ _. None"]
  obtain pci where pci: "PciIntervalFromScalarExpr int_cmp dat_null (\<lambda>_. True) True 7 ?e False = Inr (Some pci)"
    "\<forall>v. in_interval int_key pci v \<longleftrightarrow>
       (case ev dat_null int_key (\<lambda>_ _. None) ?e v of Some t \<Rightarrow> t | None \<Rightarrow> False)"
    by auto
  then show ?thesis by (auto simp: or3_def cmp3_def)
qed

text \<open>
  C26: constraint derivation never loses a satisfying value of a predicate without NOT and without
  \<^verbatim>\<open>c <> ANY (list)\<close> (the two shapes for which it does), even when arbitrary other expressions occur
  in it: it never fails, and when an interval is derived, every column value for which the predicate
  is true lies in it. Constants are non-NULL and of one ordered class, AND and OR have arguments. (A
  conjunct without an interval is dropped, a disjunct without one gives up the interval.)
\<close>

theorem interval_derivation_safe:
  assumes "sql_order C cls key IsNull" and "positive cls IsNull arr e" and "cons colref"
  shows "\<exists>o1. PciIntervalFromScalarExpr C IsNull cons arr colref e False = Inr o1 \<and>
    (\<forall>pci. o1 = Some pci \<longrightarrow> interval_ok cls key pci \<and> ci_pcr pci = colref \<and>
       (\<forall>v. ev IsNull key other e v = Some True \<longrightarrow> in_interval key pci v))"
  using sql_order.derivation_safe [OF assms(1,2), where cons = cons and colref = colref and other = other] assms(3)
  unfolding sql_order.safe_def [OF assms(1)] sql_order.conj_ok_def [OF assms(1)] by auto

theorem interval_derivation_safe_witness:
  "\<exists>pci. PciIntervalFromScalarExpr int_cmp dat_null (\<lambda>_. True) True 7
       (ScAnd [ScOther 0, ScCmp EcmptGEq (int4 3)]) False = Inr (Some pci) \<and>
     in_interval int_key pci (Some (Some 3))"
proof -
  let ?e = "ScAnd [ScOther 0, ScCmp EcmptGEq (int4 3)]"
  have pos: "positive int_const dat_null True ?e" by simp
  obtain pci where pci: "PciIntervalFromScalarExpr int_cmp dat_null (\<lambda>_. True) True 7 ?e False = Inr (Some pci)"
    by (simp add: PciIntervalFromColConstCmp_def PciRangeFromColConstCmp_def)
  have "ev dat_null int_key (\<lambda>_ _. Some True) ?e (Some (Some 3)) = Some True"
    by (simp add: and3_def cmp3_def)
  with pci interval_derivation_safe [OF int_cmp_sql pos, of "\<lambda>_. True" 7 "\<lambda>_ _. Some True"]
  have "in_interval int_key pci (Some (Some 3))" by auto
  with pci show ?thesis by blast
qed

text \<open>
  C31: a conjunction with an expression that has no interval is not derived soundly under NOT: the
  conjunct is dropped, and the complement is taken as if the interval were exact. For every supported
  predicate \<open>e\<close> and every expression \<open>p\<close> without an interval, NOT (e AND p) gets the interval of
  NOT e; a value for which e is true and p is false satisfies NOT (e AND p), but the derived interval
  excludes it.
\<close>

theorem interval_derivation_not_and_unsound:
  assumes "sql_order C cls key IsNull" and "supported cls IsNull arr e" and "cons colref"
    and "PciIntervalFromScalarExpr C IsNull cons arr colref p True = Inr None"
    and "ev IsNull key other e v = Some True" and "ev IsNull key other p v = Some False"
  shows "\<exists>pci. PciIntervalFromScalarExpr C IsNull cons arr colref (ScNot (ScAnd [e, p])) False = Inr (Some pci) \<and>
    PciIntervalFromScalarExpr C IsNull cons arr colref (ScNot e) False = Inr (Some pci) \<and>
    ev IsNull key other (ScNot (ScAnd [e, p])) v = Some True \<and> \<not> in_interval key pci v"
proof -
  have "supported cls IsNull arr (ScNot e)" using assms(2) by simp
  then obtain pci where pci: "PciIntervalFromScalarExpr C IsNull cons arr colref (ScNot e) False = Inr (Some pci)"
    "\<forall>v. in_interval key pci v \<longleftrightarrow> holds (ev IsNull key other (ScNot e) v) False"
    using sql_order.derivation_exact [OF assms(1), where cons = cons and colref = colref] assms(3)
    unfolding sql_order.exact_def [OF assms(1)] by blast
  have "PciIntervalFromScalarExpr C IsNull cons arr colref (ScNot (ScAnd [e, p])) False =
      PciIntervalFromScalarExpr C IsNull cons arr colref (ScNot e) False"
    using assms(4) by (cases "PciIntervalFromScalarExpr C IsNull cons arr colref e True") (auto split: option.splits)
  with pci assms(5,6) show ?thesis by (auto simp: and3_def)
qed

theorem interval_derivation_not_and_unsound_witness:
  "\<exists>pci. PciIntervalFromScalarExpr int_cmp dat_null (\<lambda>_. True) True 7
       (ScNot (ScAnd [ScCmp EcmptEq (int4 1), ScOther 0])) False = Inr (Some pci) \<and>
     ev dat_null int_key (\<lambda>_ _. Some False) (ScNot (ScAnd [ScCmp EcmptEq (int4 1), ScOther 0])) (Some (Some 1)) = Some True \<and>
     \<not> in_interval int_key pci (Some (Some 1))"
proof -
  have "supported int_const dat_null True (ScCmp EcmptEq (int4 1))" by simp
  from interval_derivation_not_and_unsound [OF int_cmp_sql this, of "\<lambda>_. True" 7 "ScOther 0" "\<lambda>_ _. Some False" "Some (Some 1)"]
  show ?thesis by (auto simp: cmp3_def)
qed

text \<open>
  C32: the interval of an array comparison ignores the quantifier. For every list of constants,
  c <> ANY (list) gets the interval of c NOT IN (list); when the list has two different constants,
  every constant of the list satisfies c <> ANY (list), and the derived interval excludes it.
\<close>

theorem interval_derivation_any_neq_unsound:
  assumes "sql_order C cls key IsNull" and "\<forall>d \<in> set ds. cls d" and "cons colref"
    and "d1 \<in> set ds" and "d2 \<in> set ds" and "key d1 \<noteq> key d2"
  shows "\<exists>pci. PciIntervalFromScalarExpr C IsNull cons True colref (ScArrayCmp EarrcmpAny EcmptNEq ds) False = Inr (Some pci) \<and>
    (\<forall>v. in_interval key pci v \<longleftrightarrow> ev IsNull key other (ScArrayCmp EarrcmpAll EcmptNEq ds) v = Some True) \<and>
    (\<forall>d \<in> set ds. ev IsNull key other (ScArrayCmp EarrcmpAny EcmptNEq ds) (Some (key d)) = Some True \<and>
       \<not> in_interval key pci (Some (key d)))"
proof -
  have ne: "ds \<noteq> []" using assms(4) by auto
  have c: "cmp3 IsNull key EcmptNEq d (Some x) = Some (x \<noteq> key d)" if "d \<in> set ds" for d x
    using assms(2) sql_order.not_null [OF assms(1)] that by (simp add: cmp3_def)
  have any: "ev IsNull key other (ScArrayCmp EarrcmpAny EcmptNEq ds) (Some (key d)) = Some True" for d
  proof -
    obtain d' where "d' \<in> set ds" "key d \<noteq> key d'" using assms(4-6) by metis
    then have "Some True \<in> (\<lambda>d'. cmp3 IsNull key EcmptNEq d' (Some (key d))) ` set ds" using c by (force simp: image_iff)
    then show ?thesis by (simp add: or3_def)
  qed
  have "supported cls IsNull True (ScArrayCmp EarrcmpAll EcmptNEq ds)" using ne assms(2) by simp
  then obtain pci where pci: "PciIntervalFromScalarExpr C IsNull cons True colref (ScArrayCmp EarrcmpAll EcmptNEq ds) False = Inr (Some pci)"
    "\<forall>v. in_interval key pci v \<longleftrightarrow> holds (ev IsNull key other (ScArrayCmp EarrcmpAll EcmptNEq ds) v) False"
    using sql_order.derivation_exact [OF assms(1), where cons = cons and colref = colref] assms(3)
    unfolding sql_order.exact_def [OF assms(1)] by blast
  have "ev IsNull key other (ScArrayCmp EarrcmpAll EcmptNEq ds) (Some (key d)) \<noteq> Some True" if "d \<in> set ds" for d
    using that c by (force simp: and3_def)
  with pci any show ?thesis by (simp add: holds_true)
qed

theorem interval_derivation_any_neq_unsound_witness:
  "\<exists>pci. PciIntervalFromScalarExpr int_cmp dat_null (\<lambda>_. True) True 7
       (ScArrayCmp EarrcmpAny EcmptNEq [int4 1, int4 2]) False = Inr (Some pci) \<and>
     ev dat_null int_key (\<lambda>_ _. None) (ScArrayCmp EarrcmpAny EcmptNEq [int4 1, int4 2]) (Some (Some 1)) = Some True \<and>
     \<not> in_interval int_key pci (Some (Some 1))"
proof -
  have "\<forall>d \<in> set [int4 1, int4 2]. int_const d" by simp
  from interval_derivation_any_neq_unsound [OF int_cmp_sql this, of "\<lambda>_. True" 7 "int4 1" "int4 2" "\<lambda>_ _. None"]
  show ?thesis by (auto simp del: ev.simps)
qed

text \<open>
  the sorted set of an IN list whose elements are all NULL reads the first element of an empty
  array, for every comparator; so does the derivation of an interval from such a list.
\<close>

theorem datum_sorted_set_all_null:
  assumes "ds \<noteq> []" and "\<forall>d \<in> set ds. IsNull d"
  shows "CDatumSortedSet_ctor C IsNull ds = Inl OutOfBounds \<and>
    PciIntervalFromScalarExpr C IsNull cons True colref (ScArrayCmp q t ds) infer = Inl OutOfBounds"
  using assms by (auto simp: CDatumSortedSet_ctor_def datum_sort_def PcnstrIntervalFromScalarArrayCmp_def)

theorem datum_sorted_set_all_null_witness:
  "PciIntervalFromScalarExpr int_cmp dat_null (\<lambda>_. True) True 7
     (ScArrayCmp EarrcmpAny EcmptEq [(int4 0)\<lparr>dat_null := True\<rparr>]) False = Inl OutOfBounds"
  using datum_sorted_set_all_null [of "[(int4 0)\<lparr>dat_null := True\<rparr>]" dat_null int_cmp "\<lambda>_. True" 7 EarrcmpAny EcmptEq False]
  by simp

text \<open>
  C19: the predicate that \<^verbatim>\<open>PexprConstructScalar\<close> builds from a valid interval, as an IN
  list, a NOT IN list or a disjunction of ranges, is true of exactly the values of the interval,
  and building it never dereferences an infinite end.
\<close>

theorem interval_predicate_roundtrip:
  assumes "sql_order C cls key IsNull" and "interval_ok cls key pci"
  shows "\<exists>e. PexprConstructScalar C arr pci = Inr e \<and>
    (\<forall>v. ev IsNull key other e v = Some True \<longleftrightarrow> in_interval key pci v)"
  using sql_order.predicate_true [OF assms] .

theorem interval_predicate_roundtrip_witness:
  "\<exists>e. PexprConstructScalar int_cmp True (int_interval 1 5) = Inr e \<and>
     ev dat_null int_key (\<lambda>_ _. None) e (Some (Some 4)) = Some True"
proof -
  have ok: "interval_ok int_const int_key (int_interval 1 5)"
    by (simp add: int_interval_def interval_ok_def range_ok_def left_cut_def right_cut_def)
  from interval_predicate_roundtrip [OF int_cmp_sql this, of True "\<lambda>_ _. None"]
  obtain e where "PexprConstructScalar int_cmp True (int_interval 1 5) = Inr e"
    "\<forall>v. ev dat_null int_key (\<lambda>_ _. None) e v = Some True \<longleftrightarrow> in_interval int_key (int_interval 1 5) v"
    by blast
  then show ?thesis by (auto simp: int_interval_mem)
qed

end
