(* ===== verification/TreeMap.thy ===== *)
theory TreeMap
  imports Prelude
begin

text \<open>
  Counting and unranking of plans: \<^verbatim>\<open>libgpopt/include/gpopt/search/CTreeMap.h\<close>, with the
  checked arithmetic of \<^verbatim>\<open>libgpos/src/utils.cpp\<close>. A tree map is an AND/OR graph: a node has
  child positions, a position has alternative child nodes, and a plan chooses one alternative at
  every position. Node pointers are indices into the list of nodes, the global root has index 0.
  The specification is the list of all plans of a node; counting returns its length, unranking
  its elements.
\<close>

section \<open>Definitions\<close>

text \<open>\<^verbatim>\<open>gpos::Add\<close> and \<^verbatim>\<open>gpos::Multiply\<close>; \<open>- 1\<close> is \<^verbatim>\<open>gpos::ullong_max\<close>.\<close>

definition gpos_Add :: "ULLONG \<Rightarrow> ULLONG \<Rightarrow> ULLONG result" where
  "gpos_Add first second =
     (if first > - 1 - second then Inl OverflowExc else Inr (first + second))"

definition gpos_Multiply :: "ULLONG \<Rightarrow> ULLONG \<Rightarrow> ULLONG result" where
  "gpos_Multiply first second =
     (if 0 < second \<and> first > (- 1) div second then Inl OverflowExc else Inr (first * second))"

datatype ENodeState = EnsUncounted | EnsCounting | EnsCounted

record 'a CTreeNode =
  tn_ul :: ULONG
  tn_value :: "'a option"  \<comment> \<open>NULL for the global root\<close>
  tn_children :: "nat list list"
  tn_ullCount :: ULLONG
  tn_ulIncoming :: ULONG
  tn_ens :: ENodeState

definition CTreeNode_ctor :: "ULONG \<Rightarrow> 'a option \<Rightarrow> 'a CTreeNode" where
  "CTreeNode_ctor ul value =
     \<lparr>tn_ul = ul, tn_value = value, tn_children = [], tn_ullCount = - 1, tn_ulIncoming = 0,
      tn_ens = EnsUncounted\<rparr>"

type_synonym 'a store = "'a CTreeNode list"

text \<open>
  \<^verbatim>\<open>CTreeNode::UllCount(ulChild)\<close> and \<^verbatim>\<open>CTreeNode::UllCount()\<close>. The loops take the recursive
  count of a node as an argument; \<open>d\<close> is the number of nested activations of the count of a node
  that the stack has room for.
\<close>

fun count_alternatives ::
  "('a store \<Rightarrow> nat \<Rightarrow> ('a store \<times> ULLONG) result) \<Rightarrow> 'a store \<Rightarrow> nat list \<Rightarrow> ULLONG \<Rightarrow> ('a store \<times> ULLONG) result" where
  "count_alternatives cnt st [] ull = Inr (st, ull)"
| "count_alternatives cnt st (ptn # ptns) ull =
     rbind (cnt st ptn) (\<lambda>(st', ullCount).
       rbind (gpos_Add ull ullCount) (\<lambda>ull'. count_alternatives cnt st' ptns ull'))"

definition child_UllCount ::
  "('a store \<Rightarrow> nat \<Rightarrow> ('a store \<times> ULLONG) result) \<Rightarrow> 'a store \<Rightarrow> nat \<Rightarrow> nat \<Rightarrow> ('a store \<times> ULLONG) result" where
  "child_UllCount cnt st n ulChild =
     (if ulChild < length (tn_children (st ! n))
      then count_alternatives cnt st (tn_children (st ! n) ! ulChild) 0
      else Inl OutOfBounds)"

fun count_children ::
  "('a store \<Rightarrow> nat \<Rightarrow> ('a store \<times> ULLONG) result) \<Rightarrow> 'a store \<Rightarrow> nat \<Rightarrow> nat list \<Rightarrow> ULLONG \<Rightarrow> ('a store \<times> ULLONG) result" where
  "count_children cnt st n [] ullCount = Inr (st, ullCount)"
| "count_children cnt st n (ulChild # rest) ullCount =
     rbind (child_UllCount cnt st n ulChild) (\<lambda>(st', ull).
       if ull = 0 then Inr (st', 0)
       else rbind (gpos_Multiply ullCount ull) (\<lambda>c. count_children cnt st' n rest c))"

primrec tn_UllCount :: "nat \<Rightarrow> 'a store \<Rightarrow> nat \<Rightarrow> ('a store \<times> ULLONG) result" where
  "tn_UllCount 0 st n = Inl OutOfStack"
| "tn_UllCount (Suc d) st n =
     gpos_assert (tn_ens (st ! n) \<noteq> EnsCounting)
       (if tn_ens (st ! n) = EnsCounted then Inr (st, tn_ullCount (st ! n))
        else
          rbind (count_children (tn_UllCount d) (st[n := (st ! n)\<lparr>tn_ens := EnsCounting\<rparr>]) n
                   [0..<length (tn_children (st ! n))] 1) (\<lambda>(st', ullCount).
            Inr (st'[n := (st' ! n)\<lparr>tn_ullCount := ullCount, tn_ens := EnsCounted\<rparr>], ullCount)))"

text \<open>\<^verbatim>\<open>CTreeNode::PrUnrank\<close> for a child position and for a node, with the rehydrate function
  \<open>prfn\<close>, which may change the global context \<open>u\<close>.\<close>

fun pick_alternative ::
  "('a store \<Rightarrow> nat \<Rightarrow> ('a store \<times> ULLONG) result) \<Rightarrow> 'a store \<Rightarrow> nat list \<Rightarrow> nat option \<Rightarrow> ULLONG
     \<Rightarrow> ('a store \<times> nat option \<times> ULLONG) result" where
  "pick_alternative cnt st [] ptn ullRank = Inr (st, ptn, ullRank)"
| "pick_alternative cnt st (p # ps) ptn ullRank =
     rbind (cnt st p) (\<lambda>(st', ullLocalCount).
       if ullRank < ullLocalCount then Inr (st', Some p, ullRank)
       else pick_alternative cnt st' ps (Some p) (ullRank - ullLocalCount))"

definition child_PrUnrank ::
  "('a store \<Rightarrow> nat \<Rightarrow> ('a store \<times> ULLONG) result)
     \<Rightarrow> ('a store \<Rightarrow> 'u \<Rightarrow> nat \<Rightarrow> ULLONG \<Rightarrow> ('a store \<times> 'u \<times> 'r) result)
     \<Rightarrow> 'a store \<Rightarrow> 'u \<Rightarrow> nat \<Rightarrow> nat \<Rightarrow> ULLONG \<Rightarrow> ('a store \<times> 'u \<times> 'r) result" where
  "child_PrUnrank cnt unr st u n ulChild ullRank =
     rbind (child_UllCount cnt st n ulChild) (\<lambda>(st1, c).
       gpos_assert (ullRank < c)
         (rbind (pick_alternative cnt st1 (tn_children (st1 ! n) ! ulChild) None ullRank) (\<lambda>(st2, ptn, rank).
            case ptn of None \<Rightarrow> Inl AssertFailed | Some p \<Rightarrow> unr st2 u p rank)))"

fun unrank_children ::
  "('a store \<Rightarrow> nat \<Rightarrow> ('a store \<times> ULLONG) result)
     \<Rightarrow> ('a store \<Rightarrow> 'u \<Rightarrow> nat \<Rightarrow> ULLONG \<Rightarrow> ('a store \<times> 'u \<times> 'r) result)
     \<Rightarrow> 'a store \<Rightarrow> 'u \<Rightarrow> nat \<Rightarrow> nat list \<Rightarrow> ULLONG \<Rightarrow> 'r list \<Rightarrow> ('a store \<times> 'u \<times> 'r list) result" where
  "unrank_children cnt unr st u n [] ullRankRem pdrg = Inr (st, u, pdrg)"
| "unrank_children cnt unr st u n (ulChild # rest) ullRankRem pdrg =
     rbind (child_UllCount cnt st n ulChild) (\<lambda>(st1, ullLocalCount).
       gpos_assert (0 < ullLocalCount)
         (rbind (child_PrUnrank cnt unr st1 u n ulChild (ullRankRem mod ullLocalCount)) (\<lambda>(st2, u2, pr).
            unrank_children cnt unr st2 u2 n rest (ullRankRem div ullLocalCount) (pdrg @ [pr]))))"

primrec tn_PrUnrank ::
  "nat \<Rightarrow> ('a \<Rightarrow> 'r list \<Rightarrow> 'u \<Rightarrow> ('r \<times> 'u) result) \<Rightarrow> 'a store \<Rightarrow> 'u \<Rightarrow> nat \<Rightarrow> ULLONG
     \<Rightarrow> ('a store \<times> 'u \<times> 'r) result" where
  "tn_PrUnrank 0 prfn st u n ullRank = Inl OutOfStack"
| "tn_PrUnrank (Suc d) prfn st u n ullRank =
     (if tn_ul (st ! n) = 0
      then child_PrUnrank (tn_UllCount d) (tn_PrUnrank d prfn) st u n 0 ullRank
      else
        rbind (unrank_children (tn_UllCount d) (tn_PrUnrank d prfn) st u n
                 [0..<length (tn_children (st ! n))] ullRank []) (\<lambda>(st', u', pdrg).
          case tn_value (st' ! n) of
            None \<Rightarrow> Inl NullDeref
          | Some value \<Rightarrow> rbind (prfn value pdrg u') (\<lambda>(pr, u''). Inr (st', u'', pr))))"

text \<open>
  \<^verbatim>\<open>CTreeNode::Add\<close>. Its first loop makes the array of positions dense up to \<^verbatim>\<open>ulPos\<close>; for the
  largest position its 32 bit counter never passes the bound.
\<close>

definition tn_Add :: "'a store \<Rightarrow> nat \<Rightarrow> ULONG \<Rightarrow> nat \<Rightarrow> 'a store result" where
  "tn_Add st n ulPos ptn =
     gpos_assert (tn_ens (st ! n) \<noteq> EnsCounted)
       (if ulPos = - 1 then Inl OutOfMemory
        else
          let kids = tn_children (st ! n);
              dense = kids @ replicate (unat ulPos + 1 - length kids) [];
              st1 = st[ptn := (st ! ptn)\<lparr>tn_ulIncoming := tn_ulIncoming (st ! ptn) + 1\<rparr>]
          in Inr (st1[n := (st1 ! n)\<lparr>tn_children := dense[unat ulPos := dense ! unat ulPos @ [ptn]]\<rparr>]))"

text \<open>The map: its nodes, the node map in insertion order and the links created so far.\<close>

record 'a CTreeMap =
  tm_nodes :: "'a store"
  tm_ulCountNodes :: ULONG
  tm_ulCountLinks :: ULONG
  tm_map :: "('a \<times> nat) list"
  tm_links :: "('a \<times> ULONG \<times> 'a) list"

definition CTreeMap_ctor :: "'a CTreeMap" where
  "CTreeMap_ctor =
     \<lparr>tm_nodes = [CTreeNode_ctor 0 None], tm_ulCountNodes = 0, tm_ulCountLinks = 0, tm_map = [], tm_links = []\<rparr>"

text \<open>\<open>eq\<close> is the template argument \<^verbatim>\<open>EqFn\<close>; equality on \<open>'a\<close> is equality of the pointers.\<close>

fun link_Equals :: "('a \<Rightarrow> 'a \<Rightarrow> bool) \<Rightarrow> 'a \<times> ULONG \<times> 'a \<Rightarrow> 'a \<times> ULONG \<times> 'a \<Rightarrow> bool" where
  "link_Equals eq (p1, i1, c1) (p2, i2, c2) \<longleftrightarrow> eq p1 p2 \<and> eq c1 c2 \<and> i1 = i2"

definition tm_Ptn :: "('a \<Rightarrow> 'a \<Rightarrow> bool) \<Rightarrow> 'a CTreeMap \<Rightarrow> 'a \<Rightarrow> 'a CTreeMap \<times> nat" where
  "tm_Ptn eq tm value =
     (case find (\<lambda>(k, _). eq k value) (tm_map tm) of
        Some (_, ptn) \<Rightarrow> (tm, ptn)
      | None \<Rightarrow>
          let ul = tm_ulCountNodes tm + 1; ptn = length (tm_nodes tm) in
          (tm\<lparr>tm_nodes := tm_nodes tm @ [CTreeNode_ctor ul (Some value)], tm_ulCountNodes := ul,
              tm_map := tm_map tm @ [(value, ptn)]\<rparr>, ptn))"

definition tm_Insert :: "('a \<Rightarrow> 'a \<Rightarrow> bool) \<Rightarrow> 'a CTreeMap \<Rightarrow> 'a \<Rightarrow> ULONG \<Rightarrow> 'a \<Rightarrow> 'a CTreeMap result" where
  "tm_Insert eq tm ptParent ulPos ptChild =
     gpos_assert (ptParent \<noteq> ptChild)
       (if (\<exists>l \<in> set (tm_links tm). link_Equals eq l (ptParent, ulPos, ptChild)) then Inr tm
        else
          let (tm1, ptnParent) = tm_Ptn eq tm ptParent;
              (tm2, ptnChild) = tm_Ptn eq tm1 ptChild
          in rbind (tn_Add (tm_nodes tm2) ptnParent ulPos ptnChild) (\<lambda>st.
               Inr (tm2\<lparr>tm_nodes := st, tm_ulCountLinks := tm_ulCountLinks tm2 + 1,
                        tm_links := tm_links tm2 @ [(ptParent, ulPos, ptChild)]\<rparr>)))"

definition tm_InsertRoot :: "('a \<Rightarrow> 'a \<Rightarrow> bool) \<Rightarrow> 'a CTreeMap \<Rightarrow> 'a \<Rightarrow> 'a CTreeMap result" where
  "tm_InsertRoot eq tm value =
     (let (tm1, ptn) = tm_Ptn eq tm value
      in rbind (tn_Add (tm_nodes tm1) 0 0 ptn) (\<lambda>st. Inr (tm1\<lparr>tm_nodes := st\<rparr>)))"

text \<open>\<^verbatim>\<open>CTreeMap::UllCount\<close>: the nodes without incoming links become alternatives of the global
  root, in the order of the node map.\<close>

fun hook_roots :: "'a store \<Rightarrow> nat list \<Rightarrow> 'a store result" where
  "hook_roots st [] = Inr st"
| "hook_roots st (ptn # ptns) =
     (if tn_ulIncoming (st ! ptn) = 0
      then rbind (tn_Add st 0 0 ptn) (\<lambda>st'. hook_roots st' ptns)
      else hook_roots st ptns)"

definition tm_UllCount :: "nat \<Rightarrow> 'a CTreeMap \<Rightarrow> ('a CTreeMap \<times> ULLONG) result" where
  "tm_UllCount d tm =
     rbind (hook_roots (tm_nodes tm) (map snd (tm_map tm))) (\<lambda>st.
       if tm_map tm = [] then Inr (tm\<lparr>tm_nodes := st\<rparr>, 0)
       else rbind (tn_UllCount d st 0) (\<lambda>(st', ull). Inr (tm\<lparr>tm_nodes := st'\<rparr>, ull)))"

definition tm_PrUnrank ::
  "nat \<Rightarrow> ('a \<Rightarrow> 'r list \<Rightarrow> 'u \<Rightarrow> ('r \<times> 'u) result) \<Rightarrow> 'a CTreeMap \<Rightarrow> 'u \<Rightarrow> ULLONG
     \<Rightarrow> ('a CTreeMap \<times> 'u \<times> 'r) result" where
  "tm_PrUnrank d prfn tm u ullRank =
     rbind (tn_PrUnrank d prfn (tm_nodes tm) u 0 ullRank) (\<lambda>(st, u', pr). Inr (tm\<lparr>tm_nodes := st\<rparr>, u', pr))"

definition tm_UlNodes :: "'a CTreeMap \<Rightarrow> ULONG" where
  "tm_UlNodes tm = tm_ulCountNodes tm"

definition tm_UlLinks :: "'a CTreeMap \<Rightarrow> ULONG" where
  "tm_UlLinks tm = tm_ulCountLinks tm"

section \<open>Specification: the list of all plans\<close>

datatype 'a plan = Plan 'a "'a plan list"

text \<open>All choices of one element per list; the first list varies fastest.\<close>

fun prods :: "'b list list \<Rightarrow> 'b list list" where
  "prods [] = [[]]"
| "prods (xs # xss) = concat (map (\<lambda>ys. map (\<lambda>x. x # ys) xs) (prods xss))"

text \<open>The plans of a node, up to a height, over the child positions \<open>G\<close> and the elements \<open>V\<close>.\<close>

primrec plans :: "(nat \<Rightarrow> nat list list) \<Rightarrow> (nat \<Rightarrow> 'a) \<Rightarrow> nat \<Rightarrow> nat \<Rightarrow> 'a plan list" where
  "plans G V 0 n = []"
| "plans G V (Suc k) n =
     map (Plan (V n)) (prods (map (\<lambda>alts. concat (map (plans G V k) alts)) (G n)))"

text \<open>The plans a graph admits, independently of any order of enumeration.\<close>

inductive admits :: "(nat \<Rightarrow> nat list list) \<Rightarrow> (nat \<Rightarrow> 'a) \<Rightarrow> nat \<Rightarrow> 'a plan \<Rightarrow> bool" for G V where
  choose: "length ts = length (G n) \<Longrightarrow>
    (\<And>i. i < length ts \<Longrightarrow> \<exists>c \<in> set (G n ! i). admits G V c (ts ! i)) \<Longrightarrow> admits G V n (Plan (V n) ts)"

fun rehydrate :: "('a \<Rightarrow> 'r list \<Rightarrow> 'u \<Rightarrow> ('r \<times> 'u) result) \<Rightarrow> 'a plan \<Rightarrow> 'u \<Rightarrow> ('r \<times> 'u) result"
and rehydrate_list :: "('a \<Rightarrow> 'r list \<Rightarrow> 'u \<Rightarrow> ('r \<times> 'u) result) \<Rightarrow> 'a plan list \<Rightarrow> 'u \<Rightarrow> ('r list \<times> 'u) result" where
  "rehydrate prfn (Plan v ts) u = rbind (rehydrate_list prfn ts u) (\<lambda>(rs, u'). prfn v rs u')"
| "rehydrate_list prfn [] u = Inr ([], u)"
| "rehydrate_list prfn (t # ts) u =
     rbind (rehydrate prfn t u) (\<lambda>(r, u'). rbind (rehydrate_list prfn ts u') (\<lambda>(rs, u''). Inr (r # rs, u'')))"

text \<open>A height that decreases along every link.\<close>

definition height_ok :: "(nat \<Rightarrow> nat list list) \<Rightarrow> (nat \<Rightarrow> nat) \<Rightarrow> bool" where
  "height_ok G h \<longleftrightarrow> (\<forall>n. \<forall>alts \<in> set (G n). \<forall>c \<in> set alts. h c < h n)"

abbreviation node_plans :: "(nat \<Rightarrow> nat list list) \<Rightarrow> (nat \<Rightarrow> 'a) \<Rightarrow> (nat \<Rightarrow> nat) \<Rightarrow> nat \<Rightarrow> 'a plan list" where
  "node_plans G V h n \<equiv> plans G V (Suc (h n)) n"

lemma length_prods: "length (prods xss) = prod_list (map length xss)"
  by (induction xss) (simp_all add: length_concat comp_def sum_list_triv mult.commute)

lemma set_prods: "set (prods xss) = {ys. list_all2 (\<lambda>y xs. y \<in> set xs) ys xss}"
  by (induction xss) (auto simp: list_all2_Cons2)

lemma distinct_prods: "list_all distinct xss \<Longrightarrow> distinct (prods xss)"
proof (induction xss)
  case (Cons xs xss)
  show ?case
  proof (cases xs)
    case Nil
    then show ?thesis by (simp add: concat_eq_Nil_conv [THEN iffD2])
  next
    case xs: (Cons a as)
    have "distinct (map (\<lambda>ys. map (\<lambda>x. x # ys) xs) (prods xss))"
      using Cons.IH Cons.prems xs by (simp add: distinct_map inj_on_def)
    moreover have "distinct (map (\<lambda>x. x # ys) xs)" for ys
      using Cons.prems by (simp add: distinct_map inj_on_def)
    ultimately show ?thesis by (auto intro!: distinct_concat)
  qed
qed simp

lemma nth_concat_map:
  assumes "r < length xs * length yss"
  shows "concat (map (\<lambda>ys. map (\<lambda>x. f x ys) xs) yss) ! r =
    f (xs ! (r mod length xs)) (yss ! (r div length xs))"
  using assms
proof (induction yss arbitrary: r)
  case (Cons ys yss)
  show ?case
  proof (cases "r < length xs")
    case True
    then show ?thesis by (simp add: nth_append)
  next
    case False
    then have "0 < length xs" using Cons.prems by (cases xs) auto
    moreover have "r - length xs < length xs * length yss" using False Cons.prems by simp
    moreover have "(r - length xs) mod length xs = r mod length xs"
      "r div length xs = Suc ((r - length xs) div length xs)"
      using False calculation(1) by (simp_all add: le_mod_geq le_div_geq)
    ultimately show ?thesis
      using False Cons.IH [of "r - length xs"] by (simp add: nth_append)
  qed
qed simp

lemma nth_prods:
  assumes "r < length (prods (xs # xss))"
  shows "prods (xs # xss) ! r = xs ! (r mod length xs) # prods xss ! (r div length xs)"
proof -
  have "r < length xs * length (prods xss)"
    using assms length_prods [of "xs # xss"] by (simp add: length_prods del: prods.simps)
  from nth_concat_map [OF this] show ?thesis by simp
qed

text \<open>Above the height of a node its plans do not depend on the bound.\<close>

lemma plans_stable:
  assumes "height_ok G h" and "h n < k" and "h n < k'"
  shows "plans G V k n = plans G V k' n"
  using assms(2,3)
proof (induction k arbitrary: k' n)
  case (Suc k)
  from Suc.prems obtain j where j: "k' = Suc j" by (cases k') auto
  have "plans G V k c = plans G V j c" if "alts \<in> set (G n)" "c \<in> set alts" for alts c
    using that assms(1) Suc.prems j Suc.IH [of c j] by (force simp: height_ok_def)
  then have "map (\<lambda>alts. concat (map (plans G V k) alts)) (G n) =
      map (\<lambda>alts. concat (map (plans G V j) alts)) (G n)"
    by (auto intro!: arg_cong [where f = concat])
  then show ?case by (simp only: j plans.simps)
qed simp

lemma node_plans_unfold:
  assumes "height_ok G h"
  shows "node_plans G V h n =
    map (Plan (V n)) (prods (map (\<lambda>alts. concat (map (node_plans G V h) alts)) (G n)))"
proof -
  have "plans G V (h n) c = node_plans G V h c" if "alts \<in> set (G n)" "c \<in> set alts" for alts c
    using assms that by (intro plans_stable [OF assms]) (auto simp: height_ok_def)
  then have "map (\<lambda>alts. concat (map (plans G V (h n)) alts)) (G n) =
      map (\<lambda>alts. concat (map (node_plans G V h) alts)) (G n)"
    by (auto intro!: arg_cong [where f = concat])
  then show ?thesis by (simp only: plans.simps)
qed

declare plans.simps(2) [simp del]

text \<open>The number of plans: a product over the positions of sums over the alternatives.\<close>

definition alt_count :: "(nat \<Rightarrow> nat list list) \<Rightarrow> (nat \<Rightarrow> 'a) \<Rightarrow> (nat \<Rightarrow> nat) \<Rightarrow> nat list \<Rightarrow> nat" where
  "alt_count G V h alts = (\<Sum>c\<leftarrow>alts. length (node_plans G V h c))"

lemma length_node_plans:
  assumes "height_ok G h"
  shows "length (node_plans G V h n) = prod_list (map (alt_count G V h) (G n))"
  by (subst node_plans_unfold [OF assms])
     (simp add: length_prods length_concat alt_count_def [abs_def] comp_def del: plans.simps)

lemma node_plans_complete:
  assumes "height_ok G h"
  shows "t \<in> set (node_plans G V h n) \<longleftrightarrow> admits G V n t"
proof (induction "h n" arbitrary: n t rule: less_induct)
  case less
  have IH: "t' \<in> set (node_plans G V h c) \<longleftrightarrow> admits G V c t'"
    if "i < length (G n)" "c \<in> set (G n ! i)" for i c t'
  proof (rule less)
    show "h c < h n" using assms that nth_mem [OF that(1)] unfolding height_ok_def by blast
  qed
  obtain v ts where t: "t = Plan v ts" by (cases t)
  have "t \<in> set (node_plans G V h n) \<longleftrightarrow>
      v = V n \<and> list_all2 (\<lambda>t' alts. \<exists>c \<in> set alts. t' \<in> set (node_plans G V h c)) ts (G n)"
    by (subst node_plans_unfold [OF assms])
       (auto simp: t set_prods list.rel_map image_iff split: list.splits)
  also have "\<dots> \<longleftrightarrow> v = V n \<and> length ts = length (G n) \<and>
      (\<forall>i < length ts. \<exists>c \<in> set (G n ! i). admits G V c (ts ! i))"
    using IH by (auto simp: list_all2_conv_all_nth)
  also have "\<dots> \<longleftrightarrow> admits G V n t"
    by (auto simp: t intro: admits.choose elim: admits.cases)
  finally show ?case .
qed

lemma node_plans_root:
  assumes "height_ok G h" and "t \<in> set (node_plans G V h n)"
  shows "\<exists>ts. t = Plan (V n) ts"
proof -
  have "t \<in> set (map (Plan (V n)) (prods (map (\<lambda>alts. concat (map (node_plans G V h) alts)) (G n))))"
    using assms(2) by (simp only: node_plans_unfold [OF assms(1), of V n, symmetric])
  then show ?thesis unfolding set_map by blast
qed

lemma distinct_concat_map:
  assumes "distinct xs" and "\<And>x. x \<in> set xs \<Longrightarrow> distinct (f x)"
    and "\<And>x y z. x \<in> set xs \<Longrightarrow> y \<in> set xs \<Longrightarrow> z \<in> set (f x) \<Longrightarrow> z \<in> set (f y) \<Longrightarrow> x = y"
  shows "distinct (concat (map f xs))"
  using assms
proof (induction xs)
  case (Cons x xs)
  have "distinct (concat (map f xs))"
    by (rule Cons.IH) (use Cons.prems in \<open>auto\<close>)
  moreover have "set (f x) \<inter> set (concat (map f xs)) = {}"
  proof -
    have "z \<notin> set (f y)" if "z \<in> set (f x)" "y \<in> set xs" for z y
      using Cons.prems(1) Cons.prems(3) [of x y z] that by auto
    then show ?thesis by auto
  qed
  ultimately show ?case using Cons.prems(2) [of x] by simp
qed simp

lemma node_plans_distinct:
  assumes "height_ok G h" and "\<And>n alts. alts \<in> set (G n) \<Longrightarrow> distinct alts \<and> inj_on V (set alts)"
  shows "distinct (node_plans G V h n)"
proof (induction "h n" arbitrary: n rule: less_induct)
  case less
  have "distinct (concat (map (node_plans G V h) alts))" if "alts \<in> set (G n)" for alts
  proof (rule distinct_concat_map)
    show "distinct alts" using assms(2) [OF that] by blast
    show "distinct (node_plans G V h c)" if "c \<in> set alts" for c
      using less assms(1) that \<open>alts \<in> set (G n)\<close> unfolding height_ok_def by blast
    show "c = c'" if "c \<in> set alts" "c' \<in> set alts"
        "t \<in> set (node_plans G V h c)" "t \<in> set (node_plans G V h c')" for c c' t
      using node_plans_root [OF assms(1) that(3)] node_plans_root [OF assms(1) that(4)] that(1,2)
        assms(2) [OF \<open>alts \<in> set (G n)\<close>] by (auto dest: inj_onD)
  qed
  then have "distinct (prods (map (\<lambda>alts. concat (map (node_plans G V h) alts)) (G n)))"
    by (intro distinct_prods) (simp add: list_all_iff)
  then have "distinct (map (Plan (V n)) (prods (map (\<lambda>alts. concat (map (node_plans G V h) alts)) (G n))))"
    unfolding distinct_map by (simp add: inj_on_def)
  then show ?case by (simp only: node_plans_unfold [OF assms(1), of V n, symmetric])
qed

section \<open>Checked arithmetic\<close>

lemma unat_ullong_max: "unat (- 1 :: ULLONG) = 2 ^ 64 - 1"
  by (simp add: unsigned_minus_1_eq_mask mask_eq_exp_minus_1)

lemma gpos_Add_iff: "gpos_Add a b = (if unat a + unat b < 2 ^ 64 then Inr (a + b) else Inl OverflowExc)"
proof -
  have "unat (- 1 - b :: ULLONG) = 2 ^ 64 - 1 - unat b"
    using unat_sub [of b "- 1 :: ULLONG"] by (simp add: unat_ullong_max)
  moreover have "unat b < 2 ^ 64" using unsigned_less [of b] by simp
  ultimately have "- 1 - b < a \<longleftrightarrow> \<not> unat a + unat b < 2 ^ 64"
    unfolding word_less_nat_alt by auto
  then show ?thesis by (simp add: gpos_Add_def)
qed

lemma gpos_Multiply_iff: "gpos_Multiply a b = (if unat a * unat b < 2 ^ 64 then Inr (a * b) else Inl OverflowExc)"
proof (cases "b = 0")
  case False
  then have pos: "0 < unat b" by (simp add: unat_gt_0)
  have "unat ((- 1 :: ULLONG) div b) = (2 ^ 64 - 1) div unat b"
    by (simp add: unat_div unat_ullong_max)
  moreover have "unat a * unat b < 2 ^ 64 \<longleftrightarrow> unat a \<le> (2 ^ 64 - 1) div unat b"
    using pos by (auto simp: less_eq_div_iff_mult_less_eq)
  ultimately have "(- 1) div b < a \<longleftrightarrow> \<not> unat a * unat b < 2 ^ 64"
    unfolding word_less_nat_alt by auto
  then show ?thesis using pos by (simp add: gpos_Multiply_def word_less_nat_alt)
qed (simp add: gpos_Multiply_def)

section \<open>Counting\<close>

definition G_of :: "'a store \<Rightarrow> nat \<Rightarrow> nat list list" where
  "G_of st n = (if n < length st then tn_children (st ! n) else [])"

definition V_of :: "'a store \<Rightarrow> nat \<Rightarrow> 'a" where
  "V_of st n = (if n < length st then the (tn_value (st ! n)) else the None)"

definition in_state :: "'a store \<Rightarrow> ENodeState \<Rightarrow> nat \<Rightarrow> bool" where
  "in_state st s i \<longleftrightarrow> i < length st \<and> tn_ens (st ! i) = s"

text \<open>What a count changes: only counters and states, and no node in progress, no count made.\<close>

definition progress :: "'a store \<Rightarrow> 'a store \<Rightarrow> bool" where
  "progress st st' \<longleftrightarrow> length st' = length st \<and>
     (\<forall>i < length st. tn_ul (st' ! i) = tn_ul (st ! i) \<and> tn_value (st' ! i) = tn_value (st ! i) \<and>
        tn_children (st' ! i) = tn_children (st ! i) \<and> tn_ulIncoming (st' ! i) = tn_ulIncoming (st ! i) \<and>
        (tn_ens (st' ! i) = EnsCounting \<longleftrightarrow> tn_ens (st ! i) = EnsCounting) \<and>
        (tn_ens (st ! i) = EnsCounted \<longrightarrow> tn_ens (st' ! i) = EnsCounted))"

lemma progress_refl [simp]: "progress st st"
  by (simp add: progress_def)

lemma progress_trans: "progress st st' \<Longrightarrow> progress st' st'' \<Longrightarrow> progress st st''"
  by (simp add: progress_def)

lemma progress_length: "progress st st' \<Longrightarrow> length st' = length st"
  by (simp add: progress_def)

lemma progress_graph: "progress st st' \<Longrightarrow> G_of st' = G_of st \<and> V_of st' = V_of st"
  by (auto simp: progress_def G_of_def V_of_def fun_eq_iff)

lemma progress_counted: "progress st st' \<Longrightarrow> in_state st EnsCounted i \<Longrightarrow> in_state st' EnsCounted i"
  by (auto simp: progress_def in_state_def)

lemma progress_counting: "progress st st' \<Longrightarrow> in_state st' EnsCounting i \<longleftrightarrow> in_state st EnsCounting i"
  by (auto simp: progress_def in_state_def)

text \<open>The counts made so far are right, and the nodes in progress have height at least \<open>b\<close>.\<close>

definition counts_ok :: "(nat \<Rightarrow> nat list list) \<Rightarrow> (nat \<Rightarrow> 'a) \<Rightarrow> (nat \<Rightarrow> nat) \<Rightarrow> 'a store \<Rightarrow> bool" where
  "counts_ok G V h st \<longleftrightarrow> (\<forall>i. in_state st EnsCounted i \<longrightarrow>
     unat (tn_ullCount (st ! i)) = length (node_plans G V h i) \<and>
     (node_plans G V h i \<noteq> [] \<longrightarrow> (\<forall>alts \<in> set (G i). \<forall>c \<in> set alts. in_state st EnsCounted c)))"

definition ready :: "(nat \<Rightarrow> nat list list) \<Rightarrow> (nat \<Rightarrow> 'a) \<Rightarrow> (nat \<Rightarrow> nat) \<Rightarrow> nat \<Rightarrow> 'a store \<Rightarrow> bool" where
  "ready G V h b st \<longleftrightarrow> G_of st = G \<and> V_of st = V \<and>
     (\<forall>n. \<forall>alts \<in> set (G n). \<forall>c \<in> set alts. c < length st) \<and>
     counts_ok G V h st \<and> (\<forall>i. in_state st EnsCounting i \<longrightarrow> b \<le> h i)"

definition counts_node ::
  "(nat \<Rightarrow> nat list list) \<Rightarrow> (nat \<Rightarrow> 'a) \<Rightarrow> (nat \<Rightarrow> nat) \<Rightarrow> nat \<Rightarrow> ('a store \<Rightarrow> nat \<Rightarrow> ('a store \<times> ULLONG) result) \<Rightarrow> nat \<Rightarrow> bool" where
  "counts_node G V h b cnt n \<longleftrightarrow> (\<forall>st. ready G V h b st \<longrightarrow> n < length st \<longrightarrow>
     (\<exists>st' c. cnt st n = Inr (st', c) \<and> progress st st' \<and> ready G V h b st' \<and>
        in_state st' EnsCounted n \<and> unat c = length (node_plans G V h n)))"

lemma count_alternatives_correct:
  assumes "\<And>c. c \<in> set alts \<Longrightarrow> counts_node G V h b cnt c \<and> c < length st"
    and "ready G V h b st" and "unat ull + alt_count G V h alts < 2 ^ 64"
  shows "\<exists>st' ull'. count_alternatives cnt st alts ull = Inr (st', ull') \<and> progress st st' \<and>
    ready G V h b st' \<and> (\<forall>c \<in> set alts. in_state st' EnsCounted c) \<and> unat ull' = unat ull + alt_count G V h alts"
  using assms
proof (induction alts arbitrary: st ull)
  case (Cons p ps)
  have "counts_node G V h b cnt p" "p < length st" using Cons.prems(1) by auto
  then obtain st1 c where s1: "cnt st p = Inr (st1, c)" "progress st st1" "ready G V h b st1"
      "in_state st1 EnsCounted p" "unat c = length (node_plans G V h p)"
    using Cons.prems(2) unfolding counts_node_def by blast
  have sum: "alt_count G V h (p # ps) = unat c + alt_count G V h ps"
    by (simp add: alt_count_def s1(5))
  then have fit: "unat ull + unat c < 2 ^ 64" using Cons.prems(3) by simp
  then have add: "gpos_Add ull c = Inr (ull + c)" "unat (ull + c) = unat ull + unat c"
    by (simp_all add: gpos_Add_iff unat_add_lem [THEN iffD1])
  have "\<exists>st' ull'. count_alternatives cnt st1 ps (ull + c) = Inr (st', ull') \<and> progress st1 st' \<and>
      ready G V h b st' \<and> (\<forall>c \<in> set ps. in_state st' EnsCounted c) \<and>
      unat ull' = unat (ull + c) + alt_count G V h ps"
  proof (rule Cons.IH)
    show "counts_node G V h b cnt c' \<and> c' < length st1" if "c' \<in> set ps" for c'
      using Cons.prems(1) that by (simp add: progress_length [OF s1(2)])
    show "ready G V h b st1" by (rule s1(3))
    show "unat (ull + c) + alt_count G V h ps < 2 ^ 64" using Cons.prems(3) add(2) sum by simp
  qed
  then obtain st2 ull' where s2: "count_alternatives cnt st1 ps (ull + c) = Inr (st2, ull')"
      "progress st1 st2" "ready G V h b st2" "\<forall>c \<in> set ps. in_state st2 EnsCounted c"
      "unat ull' = unat (ull + c) + alt_count G V h ps"
    by blast
  have "in_state st2 EnsCounted p" using progress_counted [OF s2(2) s1(4)] .
  then show ?case
    using s1(1) s2 add sum progress_trans [OF s1(2) s2(2)] by simp
qed (simp add: alt_count_def)

lemma count_children_correct:
  assumes "\<And>i c. i \<in> set is \<Longrightarrow> c \<in> set (G n ! i) \<Longrightarrow> counts_node G V h b cnt c"
    and "set is \<subseteq> {..<length (G n)}" and "n < length st" and "ready G V h b st"
    and "unat acc * prod_list (map (\<lambda>i. max 1 (alt_count G V h (G n ! i))) is) < 2 ^ 64" and "acc \<noteq> 0"
  shows "\<exists>st' c. count_children cnt st n is acc = Inr (st', c) \<and> progress st st' \<and> ready G V h b st' \<and>
    unat c = unat acc * prod_list (map (\<lambda>i. alt_count G V h (G n ! i)) is) \<and>
    (c \<noteq> 0 \<longrightarrow> (\<forall>i \<in> set is. \<forall>p \<in> set (G n ! i). in_state st' EnsCounted p))"
  using assms
proof (induction "is" arbitrary: st acc)
  case (Cons i js)
  let ?a = "alt_count G V h (G n ! i)"
  let ?m = "prod_list (map (\<lambda>i. max 1 (alt_count G V h (G n ! i))) js)"
  have "G_of st n = G n" using Cons.prems(4) by (simp add: ready_def)
  then have kids: "tn_children (st ! n) = G n" using Cons.prems(3) by (simp add: G_of_def)
  have i: "i < length (G n)" using Cons.prems(2) by simp
  have m: "1 \<le> ?m" by (induction js) (auto simp: Suc_le_eq)
  have acc: "1 \<le> unat acc" using Cons.prems(6) by (simp add: Suc_le_eq unat_gt_0)
  have fits: "unat acc * (max 1 ?a * ?m) < 2 ^ 64" using Cons.prems(5) by simp
  have "1 * (max 1 ?a * 1) \<le> unat acc * (max 1 ?a * ?m)"
    by (intro mult_le_mono order_refl acc m)
  then have a64: "?a < 2 ^ 64" using fits by linarith
  have "\<exists>st' ull'. count_alternatives cnt st (G n ! i) 0 = Inr (st', ull') \<and> progress st st' \<and>
      ready G V h b st' \<and> (\<forall>c \<in> set (G n ! i). in_state st' EnsCounted c) \<and> unat ull' = unat (0 :: ULLONG) + ?a"
  proof (rule count_alternatives_correct)
    show "counts_node G V h b cnt c \<and> c < length st" if "c \<in> set (G n ! i)" for c
      using Cons.prems(1) [of i c] Cons.prems(4) that nth_mem [OF i] unfolding ready_def by simp
    show "unat (0 :: ULLONG) + ?a < 2 ^ 64" using a64 by simp
  qed (rule Cons.prems(4))
  then obtain st1 ull where s1: "count_alternatives cnt st (G n ! i) 0 = Inr (st1, ull)" "progress st st1"
      "ready G V h b st1" "\<forall>c \<in> set (G n ! i). in_state st1 EnsCounted c" "unat ull = ?a"
    unfolding unat_0 add_0 by blast
  have child: "child_UllCount cnt st n i = Inr (st1, ull)"
    using s1(1) i by (simp add: child_UllCount_def kids)
  show ?case
  proof (cases "ull = 0")
    case True
    then have "count_children cnt st n (i # js) acc = Inr (st1, 0)" and "?a = 0" using child s1(5) by simp_all
    with s1(2,3) show ?thesis by simp
  next
    case False
    then have "0 < unat ull" by (simp add: unat_gt_0)
    then have a1: "max 1 ?a = ?a" and a0: "0 < ?a" using s1(5) by linarith+
    have "unat acc * (?a * 1) \<le> unat acc * (?a * ?m)" by (intro mult_le_mono order_refl m)
    then have lt: "unat acc * unat ull < 2 ^ 64" using fits unfolding a1 s1(5) by linarith
    then have mul: "gpos_Multiply acc ull = Inr (acc * ull)" "unat (acc * ull) = unat acc * ?a"
      using s1(5) by (simp_all add: gpos_Multiply_iff unat_mult_lem [THEN iffD1])
    have nz: "acc * ull \<noteq> 0"
    proof
      assume "acc * ull = 0"
      with mul(2) have "unat acc * ?a = 0" by simp
      with acc a0 show False by simp
    qed
    have "\<exists>st' c. count_children cnt st1 n js (acc * ull) = Inr (st', c) \<and> progress st1 st' \<and> ready G V h b st' \<and>
        unat c = unat (acc * ull) * prod_list (map (\<lambda>i. alt_count G V h (G n ! i)) js) \<and>
        (c \<noteq> 0 \<longrightarrow> (\<forall>i \<in> set js. \<forall>p \<in> set (G n ! i). in_state st' EnsCounted p))"
    proof (rule Cons.IH)
      show "counts_node G V h b cnt c" if "k \<in> set js" "c \<in> set (G n ! k)" for k c
        using Cons.prems(1) [of k c] that by simp
      show "set js \<subseteq> {..<length (G n)}" using Cons.prems(2) by simp
      show "n < length st1" using Cons.prems(3) by (simp only: progress_length [OF s1(2)])
      show "unat (acc * ull) * ?m < 2 ^ 64" using fits by (simp only: mul(2) a1 mult.assoc)
    qed (rule s1(3), rule nz)
    then obtain st2 c where s2: "count_children cnt st1 n js (acc * ull) = Inr (st2, c)" "progress st1 st2"
        "ready G V h b st2" "unat c = unat (acc * ull) * prod_list (map (\<lambda>i. alt_count G V h (G n ! i)) js)"
        "c \<noteq> 0 \<longrightarrow> (\<forall>i \<in> set js. \<forall>p \<in> set (G n ! i). in_state st2 EnsCounted p)"
      by blast
    have "in_state st2 EnsCounted p" if "p \<in> set (G n ! i)" for p
      using s1(4) that progress_counted [OF s2(2)] by blast
    moreover have "count_children cnt st n (i # js) acc = Inr (st2, c)"
      using child False mul(1) s2(1) by simp
    moreover have "unat c = unat acc * prod_list (map (\<lambda>i. alt_count G V h (G n ! i)) (i # js))"
      unfolding s2(4) mul(2) by (simp add: mult.assoc)
    ultimately show ?thesis using s2(3,5) progress_trans [OF s1(2) s2(2)] by auto
  qed
qed simp

text \<open>No intermediate result of the count of a node overflows.\<close>

definition fits :: "(nat \<Rightarrow> nat list list) \<Rightarrow> (nat \<Rightarrow> 'a) \<Rightarrow> (nat \<Rightarrow> nat) \<Rightarrow> nat \<Rightarrow> bool" where
  "fits G V h n \<longleftrightarrow> (\<Prod>alts\<leftarrow>G n. max 1 (alt_count G V h alts)) < 2 ^ 64"

lemma nth_update_if: "i < length xs \<Longrightarrow> xs[n := x] ! i = (if i = n then x else xs ! i)"
  by (auto simp: nth_list_update)

lemma in_state_update:
  "in_state (st[n := x]) s i \<longleftrightarrow> (if i = n then n < length st \<and> tn_ens x = s else in_state st s i)"
  by (auto simp: in_state_def nth_list_update)

lemma graph_update:
  assumes "tn_children x = tn_children (st ! n)" and "tn_value x = tn_value (st ! n)"
  shows "G_of (st[n := x]) = G_of st" and "V_of (st[n := x]) = V_of st"
  using assms by (auto simp: G_of_def V_of_def fun_eq_iff nth_update_if)

lemma ready_mark:
  assumes "ready G V h b st" and "h n < b" and "\<not> in_state st EnsCounted n"
  shows "ready G V h (h n) (st[n := (st ! n)\<lparr>tn_ens := EnsCounting\<rparr>])"
proof -
  let ?st = "st[n := (st ! n)\<lparr>tn_ens := EnsCounting\<rparr>]"
  have counted: "in_state ?st EnsCounted i \<longleftrightarrow> in_state st EnsCounted i" for i
    using assms(3) by (simp add: in_state_update)
  have same: "tn_ullCount (?st ! i) = tn_ullCount (st ! i)" for i
    by (cases "i = n"; cases "n < length st") (simp_all add: list_update_beyond)
  have "counts_ok G V h ?st"
    using assms(1) unfolding ready_def counts_ok_def counted same by blast
  moreover have "h n \<le> h i" if "in_state ?st EnsCounting i" for i
    using assms(1,2) that unfolding ready_def in_state_update by (cases "i = n") (auto dest: less_imp_le)
  ultimately show ?thesis
    using assms(1) by (simp add: ready_def graph_update)
qed

lemma ready_finish:
  assumes "ready G V h (h n) st" and "n < length st" and "unat c = length (node_plans G V h n)"
    and "\<And>i. in_state st EnsCounting i \<Longrightarrow> i \<noteq> n \<Longrightarrow> b \<le> h i"
    and "c \<noteq> 0 \<Longrightarrow> \<forall>alts \<in> set (G n). \<forall>p \<in> set alts. in_state st EnsCounted p"
  shows "ready G V h b (st[n := (st ! n)\<lparr>tn_ullCount := c, tn_ens := EnsCounted\<rparr>])"
proof -
  let ?st = "st[n := (st ! n)\<lparr>tn_ullCount := c, tn_ens := EnsCounted\<rparr>]"
  have mono: "in_state ?st EnsCounted i" if "in_state st EnsCounted i" for i
    using that assms(2) by (simp add: in_state_update)
  have "unat (tn_ullCount (?st ! i)) = length (node_plans G V h i) \<and>
      (node_plans G V h i \<noteq> [] \<longrightarrow> (\<forall>alts \<in> set (G i). \<forall>p \<in> set alts. in_state ?st EnsCounted p))"
    if "in_state ?st EnsCounted i" for i
  proof (cases "i = n")
    case True
    have "c \<noteq> 0" if "node_plans G V h n \<noteq> []" using that assms(3) by auto
    then show ?thesis using True assms(2,3,5) mono by auto
  next
    case False
    then have "in_state st EnsCounted i" using that by (simp add: in_state_update)
    with assms(1) False mono show ?thesis by (auto simp: ready_def counts_ok_def)
  qed
  then have "counts_ok G V h ?st" by (simp add: counts_ok_def)
  moreover have "b \<le> h i" if "in_state ?st EnsCounting i" for i
    using assms(4) [of i] that by (auto simp: in_state_update split: if_splits)
  ultimately show ?thesis using assms(1) by (simp add: ready_def graph_update)
qed

lemma progress_count:
  assumes "progress (st[n := (st ! n)\<lparr>tn_ens := EnsCounting\<rparr>]) st'" and "tn_ens (st ! n) = EnsUncounted"
  shows "progress st (st'[n := (st' ! n)\<lparr>tn_ullCount := c, tn_ens := EnsCounted\<rparr>])"
  using assms unfolding progress_def by (simp add: nth_update_if)

lemma tn_UllCount_correct:
  assumes "height_ok G h" and "\<And>n. fits G V h n" and "h n < d" and "h n < b"
  shows "counts_node G V h b (tn_UllCount d) n"
  using assms(3,4)
proof (induction d arbitrary: n b)
  case (Suc d)
  show ?case unfolding counts_node_def
  proof (intro allI impI)
    fix st assume ready: "ready G V h b st" and n: "n < length st"
    let ?st = "st[n := (st ! n)\<lparr>tn_ens := EnsCounting\<rparr>]"
    have "\<not> in_state st EnsCounting n"
      using ready Suc.prems(2) unfolding ready_def by (meson not_le)
    then have notc: "tn_ens (st ! n) \<noteq> EnsCounting" using n by (simp add: in_state_def)
    have "G_of st n = G n" using ready by (simp add: ready_def)
    then have kids: "tn_children (st ! n) = G n" using n by (simp add: G_of_def)
    show "\<exists>st' c. tn_UllCount (Suc d) st n = Inr (st', c) \<and> progress st st' \<and> ready G V h b st' \<and>
        in_state st' EnsCounted n \<and> unat c = length (node_plans G V h n)"
    proof (cases "tn_ens (st ! n) = EnsCounted")
      case True
      then have c: "in_state st EnsCounted n" using n by (simp add: in_state_def)
      then have "unat (tn_ullCount (st ! n)) = length (node_plans G V h n)"
        using ready unfolding ready_def counts_ok_def by blast
      then show ?thesis using ready c True by simp
    next
      case False
      then have unc: "tn_ens (st ! n) = EnsUncounted" using notc by (cases "tn_ens (st ! n)") auto
      have "\<exists>st' c. count_children (tn_UllCount d) ?st n [0..<length (G n)] 1 = Inr (st', c) \<and>
          progress ?st st' \<and> ready G V h (h n) st' \<and>
          unat c = unat (1 :: ULLONG) * prod_list (map (\<lambda>i. alt_count G V h (G n ! i)) [0..<length (G n)]) \<and>
          (c \<noteq> 0 \<longrightarrow> (\<forall>i \<in> set [0..<length (G n)]. \<forall>p \<in> set (G n ! i). in_state st' EnsCounted p))"
      proof (rule count_children_correct)
        show "counts_node G V h (h n) (tn_UllCount d) c"
          if "i \<in> set [0..<length (G n)]" "c \<in> set (G n ! i)" for i c
        proof -
          have "G n ! i \<in> set (G n)" using that(1) by simp
          then have "h c < h n" using assms(1) that(2) unfolding height_ok_def by blast
          then show ?thesis using Suc.IH [of c "h n"] Suc.prems(1) by simp
        qed
        have "map (\<lambda>i. max 1 (alt_count G V h (G n ! i))) [0..<length (G n)] =
            map (\<lambda>alts. max 1 (alt_count G V h alts)) (G n)"
          by (rule nth_equalityI) auto
        then show "unat (1 :: ULLONG) * prod_list (map (\<lambda>i. max 1 (alt_count G V h (G n ! i))) [0..<length (G n)]) < 2 ^ 64"
          using assms(2) [of n] by (simp add: fits_def)
        show "ready G V h (h n) ?st"
          using ready_mark [OF ready Suc.prems(2)] False by (simp add: in_state_def)
      qed (use n in auto)
      then obtain st' c where s: "count_children (tn_UllCount d) ?st n [0..<length (G n)] 1 = Inr (st', c)"
          "progress ?st st'" "ready G V h (h n) st'"
          "unat c = prod_list (map (\<lambda>i. alt_count G V h (G n ! i)) [0..<length (G n)])"
          "c \<noteq> 0 \<longrightarrow> (\<forall>i \<in> set [0..<length (G n)]. \<forall>p \<in> set (G n ! i). in_state st' EnsCounted p)"
        unfolding unat_1 mult_1 by blast
      have all: "\<forall>alts \<in> set (G n). \<forall>p \<in> set alts. in_state st' EnsCounted p" if "c \<noteq> 0"
      proof
        fix alts assume "alts \<in> set (G n)"
        then obtain i where "i < length (G n)" "alts = G n ! i" by (metis in_set_conv_nth)
        then show "\<forall>p \<in> set alts. in_state st' EnsCounted p" using s(5) that by simp
      qed
      have "map (\<lambda>i. alt_count G V h (G n ! i)) [0..<length (G n)] = map (alt_count G V h) (G n)"
        by (rule nth_equalityI) auto
      then have len: "unat c = length (node_plans G V h n)"
        using s(4) by (simp only: length_node_plans [OF assms(1)])
      have counting: "b \<le> h i" if "in_state st' EnsCounting i" "i \<noteq> n" for i
        using that ready unfolding progress_counting [OF s(2)] ready_def by (simp add: in_state_update)
      have "n < length st'" using n progress_length [OF s(2)] by simp
      from ready_finish [OF s(3) this len counting all]
      have "ready G V h b (st'[n := (st' ! n)\<lparr>tn_ullCount := c, tn_ens := EnsCounted\<rparr>])" by blast
      moreover have "tn_UllCount (Suc d) st n =
          Inr (st'[n := (st' ! n)\<lparr>tn_ullCount := c, tn_ens := EnsCounted\<rparr>], c)"
        using s(1) notc unc by (simp add: kids)
      ultimately show ?thesis
        using len progress_count [OF s(2) unc] \<open>n < length st'\<close> by (auto simp: in_state_update)
    qed
  qed
qed simp

section \<open>Unranking\<close>

lemma tn_UllCount_counted:
  "in_state st EnsCounted n \<Longrightarrow> tn_UllCount (Suc d) st n = Inr (st, tn_ullCount (st ! n))"
  by (simp add: in_state_def)

declare tn_UllCount.simps [simp del]

lemma count_alternatives_counted:
  assumes "\<And>c. c \<in> set alts \<Longrightarrow> in_state st EnsCounted c" and "counts_ok G V h st"
    and "unat ull + alt_count G V h alts < 2 ^ 64"
  shows "\<exists>ull'. count_alternatives (tn_UllCount (Suc d)) st alts ull = Inr (st, ull') \<and>
    unat ull' = unat ull + alt_count G V h alts"
  using assms(1,3)
proof (induction alts arbitrary: ull)
  case (Cons p ps)
  let ?c = "tn_ullCount (st ! p)"
  have p: "in_state st EnsCounted p" using Cons.prems(1) by simp
  then have c: "unat ?c = length (node_plans G V h p)" using assms(2) unfolding counts_ok_def by blast
  have sum: "alt_count G V h (p # ps) = unat ?c + alt_count G V h ps" by (simp add: alt_count_def c)
  then have "unat ull + unat ?c < 2 ^ 64" using Cons.prems(2) by simp
  then have add: "gpos_Add ull ?c = Inr (ull + ?c)" "unat (ull + ?c) = unat ull + unat ?c"
    by (simp_all add: gpos_Add_iff unat_add_lem [THEN iffD1])
  from Cons.IH [of "ull + ?c"] Cons.prems sum add(2) obtain ull' where
    "count_alternatives (tn_UllCount (Suc d)) st ps (ull + ?c) = Inr (st, ull')"
    "unat ull' = unat (ull + ?c) + alt_count G V h ps"
    by auto
  then show ?case using tn_UllCount_counted [OF p, of d] add sum by simp
qed (simp add: alt_count_def)

lemma length_concat_plans: "length (concat (map (node_plans G V h) alts)) = alt_count G V h alts"
  by (simp add: alt_count_def length_concat comp_def)

lemma pick_alternative_correct:
  assumes "\<And>c. c \<in> set alts \<Longrightarrow> in_state st EnsCounted c" and "counts_ok G V h st"
    and "unat r < alt_count G V h alts"
  shows "\<exists>p r'. pick_alternative (tn_UllCount (Suc d)) st alts q r = Inr (st, Some p, r') \<and> p \<in> set alts \<and>
    unat r' < length (node_plans G V h p) \<and>
    concat (map (node_plans G V h) alts) ! unat r = node_plans G V h p ! unat r'"
  using assms(1,3)
proof (induction alts arbitrary: q r)
  case (Cons p ps)
  let ?c = "tn_ullCount (st ! p)"
  have p: "in_state st EnsCounted p" using Cons.prems(1) by simp
  then have c: "unat ?c = length (node_plans G V h p)" using assms(2) unfolding counts_ok_def by blast
  note count = tn_UllCount_counted [OF p, of d]
  show ?case
  proof (cases "r < ?c")
    case True
    then have "unat r < length (node_plans G V h p)" using c by (simp add: word_less_nat_alt)
    with True count show ?thesis by (auto simp: nth_append)
  next
    case False
    then have le: "unat ?c \<le> unat r" by (simp add: word_less_nat_alt)
    then have sub: "unat (r - ?c) = unat r - length (node_plans G V h p)"
      using c unat_sub [of ?c r] by (simp add: word_le_nat_alt)
    have "unat (r - ?c) < alt_count G V h ps"
      using Cons.prems(2) le c sub by (simp add: alt_count_def)
    from Cons.IH [OF _ this, of "Some p"] Cons.prems(1) obtain p' r' where
      "pick_alternative (tn_UllCount (Suc d)) st ps (Some p) (r - ?c) = Inr (st, Some p', r')" "p' \<in> set ps"
      "unat r' < length (node_plans G V h p')"
      "concat (map (node_plans G V h) ps) ! unat (r - ?c) = node_plans G V h p' ! unat r'"
      by auto
    with False count le c sub show ?thesis
      by (auto simp: nth_append)
  qed
qed (simp add: alt_count_def)

text \<open>What an unranking of a node has to return: its plan of that rank, rehydrated.\<close>

definition unranks ::
  "(nat \<Rightarrow> nat list list) \<Rightarrow> (nat \<Rightarrow> 'a) \<Rightarrow> (nat \<Rightarrow> nat) \<Rightarrow> ('a \<Rightarrow> 'r list \<Rightarrow> 'u \<Rightarrow> ('r \<times> 'u) result)
     \<Rightarrow> 'a store \<Rightarrow> ('a store \<Rightarrow> 'u \<Rightarrow> nat \<Rightarrow> ULLONG \<Rightarrow> ('a store \<times> 'u \<times> 'r) result) \<Rightarrow> nat \<Rightarrow> bool" where
  "unranks G V h prfn st unr n \<longleftrightarrow> (\<forall>u r. unat r < length (node_plans G V h n) \<longrightarrow>
     unr st u n r = rbind (rehydrate prfn (node_plans G V h n ! unat r) u) (\<lambda>(pr, u'). Inr (st, u', pr)))"

lemma child_UllCount_counted:
  assumes "tn_children (st ! n) = G n" and "i < length (G n)" and "counts_ok G V h st"
    and "\<And>c. c \<in> set (G n ! i) \<Longrightarrow> in_state st EnsCounted c" and "alt_count G V h (G n ! i) < 2 ^ 64"
  shows "\<exists>c. child_UllCount (tn_UllCount (Suc d)) st n i = Inr (st, c) \<and> unat c = alt_count G V h (G n ! i)"
  using count_alternatives_counted [OF assms(4,3), where ull = 0 and d = d] assms(1,2,5)
  by (simp add: child_UllCount_def)

lemma child_PrUnrank_correct:
  assumes "tn_children (st ! n) = G n" and "i < length (G n)" and "counts_ok G V h st"
    and "\<And>c. c \<in> set (G n ! i) \<Longrightarrow> in_state st EnsCounted c \<and> unranks G V h prfn st unr c"
    and "alt_count G V h (G n ! i) < 2 ^ 64" and "unat r < alt_count G V h (G n ! i)"
  shows "child_PrUnrank (tn_UllCount (Suc d)) unr st u n i r =
    rbind (rehydrate prfn (concat (map (node_plans G V h) (G n ! i)) ! unat r) u) (\<lambda>(pr, u'). Inr (st, u', pr))"
proof -
  from child_UllCount_counted [OF assms(1,2,3) _ assms(5), of d] assms(4) obtain c where
    c: "child_UllCount (tn_UllCount (Suc d)) st n i = Inr (st, c)" "unat c = alt_count G V h (G n ! i)"
    by blast
  from pick_alternative_correct [OF _ assms(3,6), of d None] assms(4) obtain p r' where
    p: "pick_alternative (tn_UllCount (Suc d)) st (G n ! i) None r = Inr (st, Some p, r')" "p \<in> set (G n ! i)"
    "unat r' < length (node_plans G V h p)"
    "concat (map (node_plans G V h) (G n ! i)) ! unat r = node_plans G V h p ! unat r'"
    by blast
  have "unr st u p r' = rbind (rehydrate prfn (node_plans G V h p ! unat r') u) (\<lambda>(pr, u'). Inr (st, u', pr))"
    using assms(4) [OF p(2)] p(3) unfolding unranks_def by blast
  moreover have "r < c" using c(2) assms(6) by (simp add: word_less_nat_alt)
  ultimately show ?thesis using c(1) p(1,4) assms(1) by (simp add: child_PrUnrank_def)
qed

lemma unrank_children_correct:
  assumes "tn_children (st ! n) = G n" and "counts_ok G V h st" and "set is \<subseteq> {..<length (G n)}"
    and "\<And>i c. i \<in> set is \<Longrightarrow> c \<in> set (G n ! i) \<Longrightarrow> in_state st EnsCounted c \<and> unranks G V h prfn st unr c"
    and "\<And>i. i \<in> set is \<Longrightarrow> alt_count G V h (G n ! i) < 2 ^ 64"
    and "unat rem < length (prods (map (\<lambda>i. concat (map (node_plans G V h) (G n ! i))) is))"
  shows "unrank_children (tn_UllCount (Suc d)) unr st u n is rem acc =
    rbind (rehydrate_list prfn (prods (map (\<lambda>i. concat (map (node_plans G V h) (G n ! i))) is) ! unat rem) u)
      (\<lambda>(rs, u'). Inr (st, u', acc @ rs))"
  using assms(3-6)
proof (induction "is" arbitrary: rem u acc)
  case (Cons i js)
  let ?X = "\<lambda>i. concat (map (node_plans G V h) (G n ! i))"
  let ?a = "alt_count G V h (G n ! i)"
  have i: "i < length (G n)" "?a < 2 ^ 64" using Cons.prems(1,3) by auto
  have kids: "in_state st EnsCounted c \<and> unranks G V h prfn st unr c" if "c \<in> set (G n ! i)" for c
    using Cons.prems(2) [of i c] that by simp
  then obtain c where
    c: "child_UllCount (tn_UllCount (Suc d)) st n i = Inr (st, c)" "unat c = ?a"
    using child_UllCount_counted [OF assms(1) i(1) assms(2) _ i(2), of d] by blast
  have len: "unat rem < ?a * length (prods (map ?X js))"
    using Cons.prems(4) length_prods [of "map ?X (i # js)"]
    by (simp add: length_prods length_concat_plans del: prods.simps)
  then have pos: "0 < ?a" by (cases ?a) auto
  have r1: "unat (rem mod c) = unat rem mod ?a" and r2: "unat (rem div c) = unat rem div ?a"
    by (simp_all add: unat_mod unat_div c(2))
  have r1': "unat (rem mod c) < ?a" using pos r1 by simp
  have r2': "unat (rem div c) < length (prods (map ?X js))"
    using len r2 by (simp add: less_mult_imp_div_less mult.commute)
  have nth: "prods (map ?X (i # js)) ! unat rem = ?X i ! unat (rem mod c) # prods (map ?X js) ! unat (rem div c)"
    using nth_prods [of "unat rem" "?X i" "map ?X js"] Cons.prems(4)
    by (simp add: length_concat_plans r1 r2 del: prods.simps)
  have IH: "unrank_children (tn_UllCount (Suc d)) unr st u' n js (rem div c) acc' =
      rbind (rehydrate_list prfn (prods (map ?X js) ! unat (rem div c)) u') (\<lambda>(rs, u''). Inr (st, u'', acc' @ rs))"
    for u' acc'
  proof (rule Cons.IH)
    show "in_state st EnsCounted c \<and> unranks G V h prfn st unr c" if "k \<in> set js" "c \<in> set (G n ! k)" for k c
      using Cons.prems(2) [of k c] that by simp
  qed (use Cons.prems(1,3) r2' in auto)
  have "0 < c" using pos c(2) by (simp add: word_less_nat_alt)
  then show ?case
    using c(1) child_PrUnrank_correct [OF assms(1) i(1) assms(2) kids i(2) r1', of d u] IH
    unfolding nth by (auto simp: rbind_assoc split: prod.splits sum.splits intro!: rbind_cong)
qed simp

lemma prod_list_max1_pos: "1 \<le> (\<Prod>x\<leftarrow>xs. max 1 (f x :: nat))"
  by (induction xs) (auto simp: Suc_le_eq)

lemma prod_list_max1_ge: "x \<in> set xs \<Longrightarrow> f x \<le> (\<Prod>y\<leftarrow>xs. max 1 (f y :: nat))"
proof (induction xs)
  case (Cons a as)
  have "max 1 (f a) * 1 \<le> max 1 (f a) * (\<Prod>y\<leftarrow>as. max 1 (f y))"
    by (intro mult_le_mono order_refl prod_list_max1_pos)
  moreover have "1 * (\<Prod>y\<leftarrow>as. max 1 (f y)) \<le> max 1 (f a) * (\<Prod>y\<leftarrow>as. max 1 (f y))"
    by (intro mult_le_mono order_refl) simp
  moreover have "f x \<le> max 1 (f a) \<or> f x \<le> (\<Prod>y\<leftarrow>as. max 1 (f y))"
    using Cons by (cases "x = a") auto
  ultimately show ?case by (auto simp del: max.bounded_iff intro: order_trans)
qed simp

lemma fits_alt: "fits G V h n \<Longrightarrow> alts \<in> set (G n) \<Longrightarrow> alt_count G V h alts < 2 ^ 64"
  using prod_list_max1_ge [of alts "G n" "alt_count G V h"] by (simp add: fits_def)

text \<open>The shape of the list of nodes: only the global root has the id 0 and no element.\<close>

definition nodes_ok :: "'a store \<Rightarrow> bool" where
  "nodes_ok st \<longleftrightarrow> 0 < length st \<and>
     (\<forall>i < length st. (tn_ul (st ! i) = 0 \<longleftrightarrow> i = 0) \<and> (tn_value (st ! i) = None \<longleftrightarrow> i = 0)) \<and>
     (\<forall>n. \<forall>alts \<in> set (G_of st n). \<forall>c \<in> set alts. 0 < c \<and> c < length st)"

lemma progress_nodes_ok: "progress st st' \<Longrightarrow> nodes_ok st \<Longrightarrow> nodes_ok st'"
  using progress_graph [of st st'] unfolding nodes_ok_def progress_def by auto

lemma tn_PrUnrank_correct:
  assumes "height_ok G h" and "\<And>n. fits G V h n" and "nodes_ok st" and "G_of st = G" and "V_of st = V"
    and "counts_ok G V h st"
    and "0 < n" and "in_state st EnsCounted n" and "h n < d"
  shows "unranks G V h prfn st (tn_PrUnrank d prfn) n"
  using assms(7-9)
proof (induction d arbitrary: n)
  case (Suc d)
  let ?X = "\<lambda>i. concat (map (node_plans G V h) (G n ! i))"
  have n: "n < length st" using Suc.prems(2) by (simp add: in_state_def)
  have kids: "tn_children (st ! n) = G n" using n assms(4) by (auto simp: G_of_def)
  have ul: "tn_ul (st ! n) \<noteq> 0" and "tn_value (st ! n) \<noteq> None"
    using assms(3) n Suc.prems(1) unfolding nodes_ok_def by auto
  then have val: "tn_value (st ! n) = Some (V n)" using n assms(5) by (auto simp: V_of_def)
  have map: "map ?X [0..<length (G n)] = map (\<lambda>alts. concat (map (node_plans G V h) alts)) (G n)"
    by (rule nth_equalityI) auto
  show ?case unfolding unranks_def
  proof (intro allI impI)
    fix u and r :: ULLONG assume r: "unat r < length (node_plans G V h n)"
    have plans: "node_plans G V h n = map (Plan (V n)) (prods (map ?X [0..<length (G n)]))"
      unfolding map by (rule node_plans_unfold [OF assms(1)])
    have r': "unat r < length (prods (map ?X [0..<length (G n)]))"
      using r unfolding plans by simp
    have "node_plans G V h n \<noteq> []" using r by auto
    then have counted: "in_state st EnsCounted c" if "alts \<in> set (G n)" "c \<in> set alts" for alts c
      using assms(6) Suc.prems(2) that unfolding counts_ok_def by blast
    have un: "in_state st EnsCounted c \<and> unranks G V h prfn st (tn_PrUnrank d prfn) c"
      if "i \<in> set [0..<length (G n)]" "c \<in> set (G n ! i)" for i c
    proof -
      have alts: "G n ! i \<in> set (G n)" using that(1) by simp
      then have "h c < h n" using assms(1) that(2) unfolding height_ok_def by blast
      moreover have "0 < c" using assms(3,4) alts that(2) unfolding nodes_ok_def by blast
      ultimately show ?thesis using Suc.IH [of c] counted [OF alts that(2)] Suc.prems(3) by simp
    qed
    have "unrank_children (tn_UllCount d) (tn_PrUnrank d prfn) st u n [0..<length (G n)] r [] =
      rbind (rehydrate_list prfn (prods (map ?X [0..<length (G n)]) ! unat r) u) (\<lambda>(rs, u'). Inr (st, u', [] @ rs))"
    proof (cases d)
      case 0
      have "set (?X i) = {}" if "i < length (G n)" for i
      proof -
        have "G n ! i \<in> set (G n)" using that by simp
        then have "set (G n ! i) = {}" using 0 Suc.prems(3) assms(1) unfolding height_ok_def by fastforce
        then show ?thesis by simp
      qed
      moreover have "list_all2 (\<lambda>y xs. y \<in> set xs) (prods (map ?X [0..<length (G n)]) ! unat r)
          (map ?X [0..<length (G n)])"
        using nth_mem [OF r'] unfolding set_prods by simp
      then have "prods (map ?X [0..<length (G n)]) ! unat r ! 0 \<in> set (?X 0)" if "0 < length (G n)"
        using that list_all2_nthD2 [where p = 0] by fastforce
      ultimately have "G n = []" by fastforce
      then show ?thesis using r' by simp
    next
      case (Suc e)
      show ?thesis unfolding Suc
        by (rule unrank_children_correct [OF kids assms(6)])
           (use un r' fits_alt [OF assms(2) nth_mem] in \<open>auto simp: Suc\<close>)
    qed
    then show "tn_PrUnrank (Suc d) prfn st u n r =
        rbind (rehydrate prfn (node_plans G V h n ! unat r) u) (\<lambda>(pr, u'). Inr (st, u', pr))"
      using ul val r' unfolding plans
      by (auto simp: kids rbind_assoc split: prod.splits intro!: rbind_cong)
  qed
qed simp

section \<open>The map\<close>

text \<open>
  The representation invariant of a map before it is counted: the nodes are numbered, their
  elements are pairwise different under \<open>eq\<close>, the node map lists them, the child positions hold
  exactly the links created, each once, and the counter of a node is 0 exactly if no link leads
  to it.
\<close>

definition is_child :: "'a store \<Rightarrow> nat \<Rightarrow> bool" where
  "is_child st c \<longleftrightarrow> (\<exists>n. \<exists>alts \<in> set (G_of st n). c \<in> set alts)"

definition linked :: "'a store \<Rightarrow> nat \<Rightarrow> nat \<Rightarrow> nat \<Rightarrow> bool" where
  "linked st p i c \<longleftrightarrow> i < length (G_of st p) \<and> c \<in> set (G_of st p ! i)"

definition tm_ok :: "('a \<Rightarrow> 'a \<Rightarrow> bool) \<Rightarrow> 'a CTreeMap \<Rightarrow> bool" where
  "tm_ok eq tm \<longleftrightarrow> (let st = tm_nodes tm in
     nodes_ok st \<and> length st \<le> 2 ^ 32 \<and> tm_ulCountNodes tm = of_nat (length st - 1) \<and>
     (\<forall>i < length st. tn_ens (st ! i) = EnsUncounted) \<and>
     tm_map tm = map (\<lambda>i. (V_of st i, i)) [1..<length st] \<and>
     (\<forall>i j. 0 < i \<longrightarrow> i < length st \<longrightarrow> 0 < j \<longrightarrow> j < length st \<longrightarrow> eq (V_of st i) (V_of st j) \<longrightarrow> i = j) \<and>
     tn_children (st ! 0) = [] \<and>
     (\<forall>n. list_all distinct (G_of st n)) \<and>
     (\<forall>p i c. linked st p i c \<longrightarrow> i < 2 ^ 32 - 1) \<and>
     (\<forall>l. (\<exists>k \<in> set (tm_links tm). link_Equals eq k l) \<longleftrightarrow>
        (\<exists>p c. linked st p (unat (fst (snd l))) c \<and> eq (V_of st p) (fst l) \<and> eq (V_of st c) (snd (snd l)))) \<and>
     (\<forall>i < length st. tn_ulIncoming (st ! i) = 0 \<longleftrightarrow> \<not> is_child st i) \<and>
     (\<forall>i < length st. unat (tn_ulIncoming (st ! i)) \<le> length (tm_links tm)) \<and>
     tm_ulCountLinks tm = of_nat (length (tm_links tm)))"

text \<open>The logical roots, and the plans of the map.\<close>

definition roots :: "'a CTreeMap \<Rightarrow> nat list" where
  "roots tm = filter (\<lambda>i. \<not> is_child (tm_nodes tm) i) [1..<length (tm_nodes tm)]"

definition all_plans :: "(nat \<Rightarrow> nat) \<Rightarrow> 'a CTreeMap \<Rightarrow> 'a plan list" where
  "all_plans h tm = concat (map (node_plans (G_of (tm_nodes tm)) (V_of (tm_nodes tm)) h) (roots tm))"

text \<open>Hooking up the roots changes the child positions of the global root only.\<close>

lemma hook_one:
  assumes "ptn \<noteq> 0" and "0 < length st" and "tn_ens (st ! 0) \<noteq> EnsCounted"
    and "tn_children (st ! 0) = (if rs = [] then [] else [rs])"
  shows "tn_Add st 0 0 ptn =
    Inr (st[ptn := (st ! ptn)\<lparr>tn_ulIncoming := tn_ulIncoming (st ! ptn) + 1\<rparr>,
            0 := (st ! 0)\<lparr>tn_children := [rs @ [ptn]]\<rparr>])"
  using assms by (simp add: tn_Add_def)

lemma hook_roots_correct:
  assumes "distinct ps" and "\<forall>p \<in> set ps. 0 < p \<and> p < length st" and "0 < length st"
    and "tn_ens (st ! 0) \<noteq> EnsCounted" and "tn_children (st ! 0) = (if rs = [] then [] else [rs])"
  shows "\<exists>st'. hook_roots st ps = Inr st' \<and> length st' = length st \<and>
    tn_children (st' ! 0) = (let ks = rs @ filter (\<lambda>p. tn_ulIncoming (st ! p) = 0) ps in if ks = [] then [] else [ks]) \<and>
    (\<forall>i < length st. tn_ul (st' ! i) = tn_ul (st ! i) \<and> tn_value (st' ! i) = tn_value (st ! i) \<and>
       tn_ens (st' ! i) = tn_ens (st ! i) \<and> (i \<noteq> 0 \<longrightarrow> tn_children (st' ! i) = tn_children (st ! i)))"
  using assms
proof (induction ps arbitrary: st rs)
  case (Cons p ps)
  show ?case
  proof (cases "tn_ulIncoming (st ! p) = 0")
    case True
    let ?st = "st[p := (st ! p)\<lparr>tn_ulIncoming := tn_ulIncoming (st ! p) + 1\<rparr>,
      0 := (st ! 0)\<lparr>tn_children := [rs @ [p]]\<rparr>]"
    have p: "p \<noteq> 0" "p < length st" using Cons.prems(2) by auto
    have add: "tn_Add st 0 0 p = Inr ?st" by (rule hook_one [OF p(1) Cons.prems(3-5)])
    have "\<exists>st'. hook_roots ?st ps = Inr st' \<and> length st' = length ?st \<and>
        tn_children (st' ! 0) = (let ks = (rs @ [p]) @ filter (\<lambda>p. tn_ulIncoming (?st ! p) = 0) ps
          in if ks = [] then [] else [ks]) \<and>
        (\<forall>i < length ?st. tn_ul (st' ! i) = tn_ul (?st ! i) \<and> tn_value (st' ! i) = tn_value (?st ! i) \<and>
           tn_ens (st' ! i) = tn_ens (?st ! i) \<and> (i \<noteq> 0 \<longrightarrow> tn_children (st' ! i) = tn_children (?st ! i)))"
      by (rule Cons.IH) (use Cons.prems p in \<open>auto simp: nth_list_update\<close>)
    moreover have "filter (\<lambda>q. tn_ulIncoming (?st ! q) = 0) ps = filter (\<lambda>q. tn_ulIncoming (st ! q) = 0) ps"
      using Cons.prems(1,2) by (auto intro!: filter_cong simp: nth_list_update split: if_splits)
    ultimately obtain st' where "hook_roots ?st ps = Inr st'" "length st' = length st"
        "tn_children (st' ! 0) = (let ks = rs @ filter (\<lambda>p. tn_ulIncoming (st ! p) = 0) (p # ps)
          in if ks = [] then [] else [ks])"
        "\<forall>i < length st. tn_ul (st' ! i) = tn_ul (?st ! i) \<and> tn_value (st' ! i) = tn_value (?st ! i) \<and>
           tn_ens (st' ! i) = tn_ens (?st ! i) \<and> (i \<noteq> 0 \<longrightarrow> tn_children (st' ! i) = tn_children (?st ! i))"
      using True by auto
    moreover have "tn_ul (?st ! i) = tn_ul (st ! i)" "tn_value (?st ! i) = tn_value (st ! i)"
        "tn_ens (?st ! i) = tn_ens (st ! i)" "i \<noteq> 0 \<Longrightarrow> tn_children (?st ! i) = tn_children (st ! i)"
      if "i < length st" for i
      using that by (auto simp: nth_update_if)
    ultimately show ?thesis using True add by auto
  next
    case False
    then show ?thesis using Cons.IH [of st rs] Cons.prems by simp
  qed
qed simp

lemma plans_graph_cong:
  assumes "\<And>m. m \<noteq> 0 \<Longrightarrow> G' m = G m" and "\<And>m alts. alts \<in> set (G m) \<Longrightarrow> 0 \<notin> set alts" and "n \<noteq> 0"
  shows "plans G' V k n = plans G V k n"
  using assms(3)
proof (induction k arbitrary: n)
  case (Suc k)
  have "plans G' V k c = plans G V k c" if "alts \<in> set (G n)" "c \<in> set alts" for alts c
    using Suc.IH [of c] assms(2) [OF that(1)] that(2) by metis
  then have "map (\<lambda>alts. concat (map (plans G' V k) alts)) (G n) =
      map (\<lambda>alts. concat (map (plans G V k) alts)) (G n)"
    by (auto intro!: arg_cong [where f = concat])
  then show ?case using assms(1) [OF Suc.prems] by (simp only: plans.simps)
qed simp

lemma tm_ok_nodes: "tm_ok eq tm \<Longrightarrow> nodes_ok (tm_nodes tm)"
  by (simp add: tm_ok_def Let_def)

lemma no_root_child: "nodes_ok st \<Longrightarrow> alts \<in> set (G_of st m) \<Longrightarrow> 0 \<notin> set alts"
  unfolding nodes_ok_def by blast

lemma roots_nonempty:
  assumes "nodes_ok (tm_nodes tm)" and "height_ok (G_of (tm_nodes tm)) h" and "1 < length (tm_nodes tm)"
    and "tn_children (tm_nodes tm ! 0) = []"
  shows "roots tm \<noteq> []"
proof -
  let ?st = "tm_nodes tm" and ?A = "{1..<length (tm_nodes tm)}"
  have "finite (h ` ?A)" "h ` ?A \<noteq> {}" using assms(3) by auto
  then have "Max (h ` ?A) \<in> h ` ?A" by (rule Max_in)
  then obtain i where i: "i \<in> ?A" "h i = Max (h ` ?A)" by auto
  have "\<not> is_child ?st i"
  proof
    assume "is_child ?st i"
    then obtain n alts where n: "alts \<in> set (G_of ?st n)" "i \<in> set alts" unfolding is_child_def by blast
    then have "n < length ?st" by (auto simp: G_of_def split: if_splits)
    moreover have "n \<noteq> 0"
    proof
      assume "n = 0"
      with n(1) assms(4) show False by (simp add: G_of_def split: if_splits)
    qed
    ultimately have "n \<in> ?A" by simp
    then have "h n \<le> h i" unfolding i(2) by (intro Max_ge) auto
    moreover have "h i < h n" using assms(2) n unfolding height_ok_def by blast
    ultimately show False by simp
  qed
  then have "i \<in> set (roots tm)" using i(1) by (simp add: roots_def)
  then show ?thesis by auto
qed

text \<open>The graph with the logical roots \<open>rs\<close> as alternatives of the global root.\<close>

lemma rooted_plans:
  assumes "\<And>m alts. alts \<in> set (G m) \<Longrightarrow> 0 \<notin> set alts" and "n \<noteq> 0"
  shows "node_plans (G(0 := [rs])) V (h(0 := H)) n = node_plans G V h n"
proof -
  have "plans (G(0 := [rs])) V (Suc (h n)) n = plans G V (Suc (h n)) n"
    by (rule plans_graph_cong [OF _ assms(1,2)]) auto
  then show ?thesis using assms(2) by simp
qed

lemma rooted_alt_count:
  assumes "\<And>m alts. alts \<in> set (G m) \<Longrightarrow> 0 \<notin> set alts" and "0 \<notin> set alts"
  shows "alt_count (G(0 := [rs])) V (h(0 := H)) alts = alt_count G V h alts"
proof -
  have "node_plans (G(0 := [rs])) V (h(0 := H)) x = node_plans G V h x" if "x \<in> set alts" for x
  proof (rule rooted_plans)
    show "x \<noteq> 0" using assms(2) that by metis
  qed (rule assms(1))
  then have "map (\<lambda>c. length (node_plans (G(0 := [rs])) V (h(0 := H)) c)) alts =
      map (\<lambda>c. length (node_plans G V h c)) alts"
    by (intro map_cong refl arg_cong [where f = length])
  then show ?thesis unfolding alt_count_def by (rule arg_cong)
qed

lemma rooted_height:
  assumes "height_ok G h" and "\<And>m alts. alts \<in> set (G m) \<Longrightarrow> 0 \<notin> set alts"
    and "\<And>r. r \<in> set rs \<Longrightarrow> r \<noteq> 0 \<and> h r < H"
  shows "height_ok (G(0 := [rs])) (h(0 := H))"
  unfolding height_ok_def
proof (intro allI ballI)
  fix n alts c assume a: "alts \<in> set ((G(0 := [rs])) n)" "c \<in> set alts"
  show "(h(0 := H)) c < (h(0 := H)) n"
  proof (cases "n = 0")
    case True
    then show ?thesis using a assms(3) [of c] by simp
  next
    case False
    then have alts: "alts \<in> set (G n)" using a(1) by simp
    then have "c \<noteq> 0" using assms(2) a(2) by metis
    moreover have "h c < h n" using assms(1) alts a(2) unfolding height_ok_def by blast
    ultimately show ?thesis using False by simp
  qed
qed

lemma rooted_fits:
  assumes "\<And>m alts. alts \<in> set (G m) \<Longrightarrow> 0 \<notin> set alts" and "0 \<notin> set rs"
    and "\<And>n. fits G V h n" and "alt_count G V h rs < 2 ^ 64"
  shows "fits (G(0 := [rs])) V (h(0 := H)) n"
proof (cases "n = 0")
  case True
  then show ?thesis
    using assms(4) rooted_alt_count [where G = G and alts = rs and rs = rs and V = V and h = h and H = H, OF assms(1,2)]
    by (simp add: fits_def)
next
  case False
  have "map (\<lambda>alts. max 1 (alt_count (G(0 := [rs])) V (h(0 := H)) alts)) (G n) =
      map (\<lambda>alts. max 1 (alt_count G V h alts)) (G n)"
    by (intro map_cong refl arg_cong [where f = "max 1"] rooted_alt_count assms(1))
  moreover have "(G(0 := [rs])) n = G n" using False by simp
  ultimately show ?thesis using assms(3) [of n] unfolding fits_def by metis
qed

lemma rooted_count_and_unrank:
  fixes prfn :: "'a \<Rightarrow> 'r list \<Rightarrow> 'u \<Rightarrow> ('r \<times> 'u) result"
  assumes "nodes_ok st" and "G_of st = G" and "V_of st = V" and "G 0 = [rs]" and "rs \<noteq> []"
    and "\<And>i. i < length st \<Longrightarrow> tn_ens (st ! i) = EnsUncounted"
    and "height_ok G h" and "\<And>n. fits G V h n" and "h 0 < d"
  shows "\<exists>st' c. tn_UllCount d st 0 = Inr (st', c) \<and> unat c = alt_count G V h rs \<and>
    (\<forall>u r. unat r < alt_count G V h rs \<longrightarrow> tn_PrUnrank d prfn st' u 0 r =
       rbind (rehydrate prfn (concat (map (node_plans G V h) rs) ! unat r) u) (\<lambda>(pr, u'). Inr (st', u', pr)))"
proof -
  have none: "\<not> in_state st s i" if "s \<noteq> EnsUncounted" for s i
    using that assms(6) by (auto simp: in_state_def)
  have len: "0 < length st" using assms(1) unfolding nodes_ok_def by blast
  have range: "0 < c \<and> c < length st" if "alts \<in> set (G n)" "c \<in> set alts" for n alts c
    using assms(1) that unfolding nodes_ok_def assms(2) by blast
  have "counts_ok G V h st" unfolding counts_ok_def using none [of EnsCounted] by blast
  then have "ready G V h (Suc (h 0)) st"
    unfolding ready_def using none [of EnsCounting] assms(2,3) range by blast
  moreover have "counts_node G V h (Suc (h 0)) (tn_UllCount d) 0"
    by (rule tn_UllCount_correct [OF assms(7,8,9)]) simp
  ultimately obtain st' c where st': "tn_UllCount d st 0 = Inr (st', c)" "progress st st'"
      "ready G V h (Suc (h 0)) st'" "in_state st' EnsCounted 0" "unat c = length (node_plans G V h 0)"
    using len unfolding counts_node_def by blast
  have c: "unat c = alt_count G V h rs"
    using st'(5) length_node_plans [OF assms(7), of V 0] by (simp add: assms(4))
  have ok': "counts_ok G V h st'" "G_of st' = G" "V_of st' = V" using st'(3) by (simp_all add: ready_def)
  have nodes': "nodes_ok st'" by (rule progress_nodes_ok [OF st'(2) assms(1)])
  have "h (hd rs) < h 0" using assms(4,5,7) unfolding height_ok_def by simp
  then have "2 \<le> d" using assms(9) by linarith
  then obtain e where "d = 2 + e" by (metis le_Suc_ex)
  then have e: "d = Suc (Suc e)" by simp
  have "tn_PrUnrank d prfn st' u 0 r =
      rbind (rehydrate prfn (concat (map (node_plans G V h) rs) ! unat r) u) (\<lambda>(pr, u'). Inr (st', u', pr))"
    if r: "unat r < alt_count G V h rs" for u r
  proof -
    have "node_plans G V h 0 \<noteq> []" using r st'(5) c by auto
    then have kid: "in_state st' EnsCounted p \<and> unranks G V h prfn st' (tn_PrUnrank (Suc e) prfn) p"
      if "p \<in> set (G 0 ! 0)" for p
    proof -
      have p: "rs \<in> set (G 0)" "p \<in> set rs" using that by (simp_all add: assms(4))
      have cnt: "in_state st' EnsCounted p"
        using ok'(1) st'(4) p \<open>node_plans G V h 0 \<noteq> []\<close> unfolding counts_ok_def by blast
      have "h p < h 0" using assms(7) p unfolding height_ok_def by blast
      then have "h p < Suc e" using assms(9) e by linarith
      moreover have "0 < p" using range [OF p] by blast
      ultimately have "unranks G V h prfn st' (tn_PrUnrank (Suc e) prfn) p"
        by (intro tn_PrUnrank_correct [OF assms(7,8) nodes' ok'(2,3,1) _ cnt])
      with cnt show ?thesis by (rule conjI)
    qed
    have "G_of st' 0 = tn_children (st' ! 0)" using nodes' by (simp add: G_of_def nodes_ok_def)
    then have "tn_children (st' ! 0) = G 0" unfolding ok'(2) by (rule sym)
    from child_PrUnrank_correct [OF this _ ok'(1) kid, where d = e and r = r and u = u]
    have "child_PrUnrank (tn_UllCount (Suc e)) (tn_PrUnrank (Suc e) prfn) st' u 0 0 r =
        rbind (rehydrate prfn (concat (map (node_plans G V h) rs) ! unat r) u) (\<lambda>(pr, u'). Inr (st', u', pr))"
      using r fits_alt [OF assms(8), of rs 0] by (simp add: assms(4))
    moreover have "tn_ul (st' ! 0) = 0" using nodes' by (simp add: nodes_ok_def)
    ultimately show ?thesis by (simp add: e)
  qed
  then show ?thesis using st'(1) c by blast
qed

lemma tm_okD:
  assumes "tm_ok eq tm"
  shows "nodes_ok (tm_nodes tm)" and "length (tm_nodes tm) \<le> 2 ^ 32"
    and "tm_ulCountNodes tm = of_nat (length (tm_nodes tm) - 1)"
    and "\<And>i. i < length (tm_nodes tm) \<Longrightarrow> tn_ens (tm_nodes tm ! i) = EnsUncounted"
    and "tm_map tm = map (\<lambda>i. (V_of (tm_nodes tm) i, i)) [1..<length (tm_nodes tm)]"
    and "tn_children (tm_nodes tm ! 0) = []"
    and "\<And>n. list_all distinct (G_of (tm_nodes tm) n)"
    and "\<And>i. i < length (tm_nodes tm) \<Longrightarrow> tn_ulIncoming (tm_nodes tm ! i) = 0 \<longleftrightarrow> \<not> is_child (tm_nodes tm) i"
  using assms unfolding tm_ok_def Let_def by blast+

lemma hook_map_roots:
  assumes "tm_ok eq tm" and "roots tm \<noteq> []"
  shows "\<exists>st. hook_roots (tm_nodes tm) (map snd (tm_map tm)) = Inr st \<and> nodes_ok st \<and>
    length st = length (tm_nodes tm) \<and> V_of st = V_of (tm_nodes tm) \<and>
    G_of st = (G_of (tm_nodes tm))(0 := [roots tm]) \<and>
    (\<forall>i < length st. tn_ens (st ! i) = EnsUncounted)"
proof -
  let ?st = "tm_nodes tm"
  note ok = tm_okD [OF assms(1)]
  have len: "0 < length ?st" using ok(1) unfolding nodes_ok_def by blast
  have map: "map snd (tm_map tm) = [1..<length ?st]" unfolding ok(5) by (simp add: comp_def)
  have filt: "filter (\<lambda>p. tn_ulIncoming (?st ! p) = 0) [1..<length ?st] = roots tm"
    unfolding roots_def by (rule filter_cong) (auto simp: ok(8))
  have "\<exists>st'. hook_roots ?st [1..<length ?st] = Inr st' \<and> length st' = length ?st \<and>
      tn_children (st' ! 0) = (let ks = [] @ filter (\<lambda>p. tn_ulIncoming (?st ! p) = 0) [1..<length ?st]
        in if ks = [] then [] else [ks]) \<and>
      (\<forall>i < length ?st. tn_ul (st' ! i) = tn_ul (?st ! i) \<and> tn_value (st' ! i) = tn_value (?st ! i) \<and>
         tn_ens (st' ! i) = tn_ens (?st ! i) \<and> (i \<noteq> 0 \<longrightarrow> tn_children (st' ! i) = tn_children (?st ! i)))"
  proof (rule hook_roots_correct)
    show "tn_ens (?st ! 0) \<noteq> EnsCounted" using ok(4) [OF len] by simp
  qed (use len ok(6) in auto)
  then obtain st where st: "hook_roots ?st [1..<length ?st] = Inr st" "length st = length ?st"
      "tn_children (st ! 0) = [roots tm]"
      "\<And>i. i < length ?st \<Longrightarrow> tn_ul (st ! i) = tn_ul (?st ! i) \<and> tn_value (st ! i) = tn_value (?st ! i) \<and>
         tn_ens (st ! i) = tn_ens (?st ! i) \<and> (i \<noteq> 0 \<longrightarrow> tn_children (st ! i) = tn_children (?st ! i))"
    using assms(2) unfolding filt append_Nil Let_def by auto
  have G: "G_of st = (G_of ?st)(0 := [roots tm])"
    using st(2,3,4) len by (auto simp: G_of_def fun_eq_iff)
  have "0 < c \<and> c < length st" if "alts \<in> set (G_of st n)" "c \<in> set alts" for n alts c
  proof (cases "n = 0")
    case True
    then show ?thesis using that by (auto simp: G roots_def st(2))
  next
    case False
    then show ?thesis using ok(1) that unfolding nodes_ok_def G st(2) by auto
  qed
  then have "nodes_ok st"
    using ok(1) st(2,4) unfolding nodes_ok_def by simp
  moreover have "V_of st = V_of ?st" using st(2,4) by (auto simp: V_of_def fun_eq_iff)
  moreover have "\<forall>i < length st. tn_ens (st ! i) = EnsUncounted" using st(2,4) ok(4) by simp
  ultimately show ?thesis using st(1,2) G unfolding map by blast
qed

lemma tm_count_and_unrank:
  fixes prfn :: "'a \<Rightarrow> 'r list \<Rightarrow> 'u \<Rightarrow> ('r \<times> 'u) result"
  assumes ok: "tm_ok eq tm" and ne: "tm_map tm \<noteq> []"
    and h: "height_ok (G_of (tm_nodes tm)) h" "\<And>n. n < length (tm_nodes tm) \<Longrightarrow> h n < H"
    and fits: "\<And>n. fits (G_of (tm_nodes tm)) (V_of (tm_nodes tm)) h n" "length (all_plans h tm) < 2 ^ 64"
    and d: "H < d"
  shows "\<exists>tm' c. tm_UllCount d tm = Inr (tm', c) \<and> unat c = length (all_plans h tm) \<and>
    (\<forall>u r. unat r < length (all_plans h tm) \<longrightarrow>
       tm_PrUnrank d prfn tm' u r =
         rbind (rehydrate prfn (all_plans h tm ! unat r) u) (\<lambda>(pr, u'). Inr (tm', u', pr)))"
proof -
  let ?G = "G_of (tm_nodes tm)" and ?V = "V_of (tm_nodes tm)" and ?rs = "roots tm"
  let ?G' = "?G(0 := [?rs])" and ?h' = "h(0 := H)"
  have no0: "\<And>m alts. alts \<in> set (?G m) \<Longrightarrow> 0 \<notin> set alts" by (rule no_root_child [OF tm_okD(1) [OF ok]])
  have rs: "r \<noteq> 0 \<and> h r < H" if "r \<in> set ?rs" for r
    using that h(2) [of r] by (simp add: roots_def)
  then have rs0: "0 \<notin> set ?rs" by blast
  have "1 < length (tm_nodes tm)" using ne unfolding tm_okD(5) [OF ok] by simp
  then have rne: "?rs \<noteq> []" using roots_nonempty [OF tm_okD(1) [OF ok] h(1) _ tm_okD(6) [OF ok]] by blast
  have cnt: "alt_count ?G ?V h ?rs = length (all_plans h tm)"
    unfolding all_plans_def by (rule length_concat_plans [symmetric])
  have cnt': "alt_count ?G' ?V ?h' ?rs = length (all_plans h tm)"
    unfolding cnt [symmetric] by (rule rooted_alt_count [OF _ rs0]) (rule no0)
  have plans': "concat (map (node_plans ?G' ?V ?h') ?rs) = all_plans h tm"
    unfolding all_plans_def
  proof (intro arg_cong [where f = concat] map_cong refl)
    fix r assume "r \<in> set ?rs"
    then have "r \<noteq> 0" using rs by blast
    then show "node_plans ?G' ?V ?h' r = node_plans ?G ?V h r" by (intro rooted_plans no0)
  qed
  have fits': "fits ?G' ?V ?h' n" for n
    by (rule rooted_fits) (use no0 rs0 fits cnt in simp_all)
  have height': "height_ok ?G' ?h'" by (rule rooted_height [OF h(1)]) (use no0 rs in blast)+
  obtain st where st: "hook_roots (tm_nodes tm) (map snd (tm_map tm)) = Inr st" "nodes_ok st"
      "V_of st = ?V" "G_of st = ?G'" "\<And>i. i < length st \<Longrightarrow> tn_ens (st ! i) = EnsUncounted"
    using hook_map_roots [OF ok rne] by blast
  have "\<exists>st' c. tn_UllCount d st 0 = Inr (st', c) \<and> unat c = alt_count ?G' ?V ?h' ?rs \<and>
    (\<forall>u r. unat r < alt_count ?G' ?V ?h' ?rs \<longrightarrow> tn_PrUnrank d prfn st' u 0 r =
       rbind (rehydrate prfn (concat (map (node_plans ?G' ?V ?h') ?rs) ! unat r) u) (\<lambda>(pr, u'). Inr (st', u', pr)))"
    by (rule rooted_count_and_unrank [OF st(2,4,3) _ rne st(5) height' fits']) (use d in simp_all)
  then obtain st' c where st': "tn_UllCount d st 0 = Inr (st', c)" "unat c = length (all_plans h tm)"
      "\<And>u r. unat r < length (all_plans h tm) \<Longrightarrow> tn_PrUnrank d prfn st' u 0 r =
        rbind (rehydrate prfn (all_plans h tm ! unat r) u) (\<lambda>(pr, u'). Inr (st', u', pr))"
    unfolding cnt' plans' by blast
  have "tm_UllCount d tm = Inr (tm\<lparr>tm_nodes := st'\<rparr>, c)"
    using st(1) st'(1) ne by (simp add: tm_UllCount_def)
  moreover have "tm_PrUnrank d prfn (tm\<lparr>tm_nodes := st'\<rparr>) u r =
      rbind (rehydrate prfn (all_plans h tm ! unat r) u) (\<lambda>(pr, u'). Inr (tm\<lparr>tm_nodes := st'\<rparr>, u', pr))"
    if "unat r < length (all_plans h tm)" for u r
    using st'(3) [OF that, of u] by (auto simp: tm_PrUnrank_def rbind_assoc intro!: rbind_cong)
  ultimately show ?thesis using st'(2) by blast
qed

end
