(* ===== verification/PlanMap.thy ===== *)
theory PlanMap
  imports TreeMap
begin

text \<open>
  The properties of the tree map: insertions keep its representation invariant, the list of plans
  it stands for has no duplicates and is complete, counting returns its length and unranking its
  elements, and counting ends on every graph. The invariant, the specification and the lemmas on
  single nodes are in \<open>TreeMap\<close>.
\<close>

section \<open>Insertions\<close>

lemma is_child_code [code]:
  "is_child st c \<longleftrightarrow> list_ex (\<lambda>n. list_ex (\<lambda>alts. c \<in> set alts) (tn_children (st ! n))) [0..<length st]"
  by (auto simp: is_child_def G_of_def list_ex_iff split: if_splits)

lemma unat_ulong_max: "unat (- 1 :: ULONG) = 2 ^ 32 - 1"
  by (simp add: unsigned_minus_1_eq_mask mask_eq_exp_minus_1)

lemma is_child_linked: "is_child st c \<longleftrightarrow> (\<exists>n i. linked st n i c)"
  unfolding is_child_def linked_def by (metis in_set_conv_nth)

lemma link_Equals_equiv:
  assumes "equivp eq" and "eq v p" and "eq w c"
  shows "link_Equals eq (p, i, c) l \<longleftrightarrow> i = fst (snd l) \<and> eq v (fst l) \<and> eq w (snd (snd l))"
proof -
  have "eq p x \<longleftrightarrow> eq v x" "eq c x \<longleftrightarrow> eq w x" for x
    using assms by (meson equivp_symp equivp_transp)+
  then show ?thesis by (cases l) auto
qed

lemma tn_Add_correct:
  assumes "n < length st" and "tn_ens (st ! n) \<noteq> EnsCounted" and "ulPos \<noteq> - 1"
  shows "\<exists>st'. tn_Add st n ulPos ptn = Inr st' \<and> length st' = length st \<and> V_of st' = V_of st \<and>
    (\<forall>i < length st. tn_ul (st' ! i) = tn_ul (st ! i) \<and> tn_value (st' ! i) = tn_value (st ! i) \<and>
       tn_ens (st' ! i) = tn_ens (st ! i) \<and>
       tn_ulIncoming (st' ! i) = tn_ulIncoming (st ! i) + (if i = ptn then 1 else 0)) \<and>
    (\<forall>i. i \<noteq> n \<longrightarrow> G_of st' i = G_of st i) \<and>
    (\<exists>kids. G_of st' n = (G_of st n @ replicate kids [])[unat ulPos := (if unat ulPos < length (G_of st n) then G_of st n ! unat ulPos else []) @ [ptn]] \<and>
       unat ulPos < length (G_of st n) + kids)"
proof -
  let ?kids = "tn_children (st ! n)" and ?k = "unat ulPos + 1 - length (tn_children (st ! n))"
  let ?dense = "?kids @ replicate ?k []"
  let ?st1 = "st[ptn := (st ! ptn)\<lparr>tn_ulIncoming := tn_ulIncoming (st ! ptn) + 1\<rparr>]"
  let ?st' = "?st1[n := (?st1 ! n)\<lparr>tn_children := ?dense[unat ulPos := ?dense ! unat ulPos @ [ptn]]\<rparr>]"
  have add: "tn_Add st n ulPos ptn = Inr ?st'"
    using assms(2,3) by (simp add: tn_Add_def Let_def)
  have nth: "?dense ! unat ulPos = (if unat ulPos < length ?kids then ?kids ! unat ulPos else [])"
    by (auto simp: nth_append)
  have a: "\<forall>i < length st. tn_ul (?st' ! i) = tn_ul (st ! i) \<and> tn_value (?st' ! i) = tn_value (st ! i) \<and>
       tn_ens (?st' ! i) = tn_ens (st ! i) \<and>
       tn_ulIncoming (?st' ! i) = tn_ulIncoming (st ! i) + (if i = ptn then 1 else 0)"
    by (auto simp: nth_update_if)
  have v: "V_of ?st' = V_of st" by (auto simp: V_of_def fun_eq_iff nth_update_if)
  have oth: "\<forall>i. i \<noteq> n \<longrightarrow> G_of ?st' i = G_of st i" by (auto simp: G_of_def nth_update_if)
  have g: "G_of ?st' n = (G_of st n @ replicate ?k [])[unat ulPos :=
      (if unat ulPos < length (G_of st n) then G_of st n ! unat ulPos else []) @ [ptn]]"
    using assms(1) unfolding nth [symmetric] by (simp add: G_of_def nth_append)
  have l: "unat ulPos < length (G_of st n) + ?k" using assms(1) by (simp add: G_of_def)
  have "length ?st' = length st" by simp
  with add a v oth g l show ?thesis by blast
qed

lemma linked_add:
  assumes "\<forall>i. i \<noteq> n \<longrightarrow> G_of st' i = G_of st i"
    and "G_of st' n = (G_of st n @ replicate k [])[pos := (if pos < length (G_of st n) then G_of st n ! pos else []) @ [ptn]]"
    and "pos < length (G_of st n) + k"
  shows "linked st' q i x \<longleftrightarrow> linked st q i x \<or> q = n \<and> i = pos \<and> x = ptn"
proof (cases "q = n")
  case True
  then show ?thesis
    using assms(2,3) by (auto simp: linked_def nth_list_update nth_append)
qed (use assms(1) in \<open>auto simp: linked_def\<close>)

lemma distinct_add:
  assumes "\<forall>i. i \<noteq> n \<longrightarrow> G_of st' i = G_of st i"
    and "G_of st' n = (G_of st n @ replicate k [])[pos := (if pos < length (G_of st n) then G_of st n ! pos else []) @ [ptn]]"
    and "pos < length (G_of st n) + k" and "\<And>m. list_all distinct (G_of st m)" and "\<not> linked st n pos ptn"
  shows "list_all distinct (G_of st' m)"
proof (cases "m = n")
  case True
  have "distinct (G_of st' n ! i)" if "i < length (G_of st' n)" for i
    using that assms(2-5) by (auto simp: nth_list_update nth_append linked_def list_all_length)
  then show ?thesis by (simp add: True list_all_length)
qed (use assms(1,4) in auto)

lemma tm_ok_insert_link:
  assumes ok: "tm_ok eq tm" and eq: "equivp eq" and p: "0 < p" "p < length (tm_nodes tm)"
    and c: "0 < c" "c < length (tm_nodes tm)" and v: "eq (V_of (tm_nodes tm) p) pp" "eq (V_of (tm_nodes tm) c) cc"
    and pos: "ulPos \<noteq> - 1" and new: "\<not> (\<exists>l \<in> set (tm_links tm). link_Equals eq l (pp, ulPos, cc))"
    and small: "length (tm_links tm) < 2 ^ 32 - 1"
  shows "\<exists>st. tn_Add (tm_nodes tm) p ulPos c = Inr st \<and>
    tm_ok eq (tm\<lparr>tm_nodes := st, tm_ulCountLinks := tm_ulCountLinks tm + 1,
      tm_links := tm_links tm @ [(pp, ulPos, cc)]\<rparr>) \<and>
    (\<forall>q i x. linked st q i x \<longleftrightarrow> linked (tm_nodes tm) q i x \<or> q = p \<and> i = unat ulPos \<and> x = c)"
proof -
  let ?st = "tm_nodes tm"
  note okD = tm_okD [OF ok]
  obtain st k where st: "tn_Add ?st p ulPos c = Inr st" "length st = length ?st" "V_of st = V_of ?st"
      "\<And>i. i < length ?st \<Longrightarrow> tn_ul (st ! i) = tn_ul (?st ! i) \<and> tn_value (st ! i) = tn_value (?st ! i) \<and>
        tn_ens (st ! i) = tn_ens (?st ! i) \<and>
        tn_ulIncoming (st ! i) = tn_ulIncoming (?st ! i) + (if i = c then 1 else 0)"
      and oth: "\<forall>i. i \<noteq> p \<longrightarrow> G_of st i = G_of ?st i"
      and G: "G_of st p = (G_of ?st p @ replicate k [])[unat ulPos :=
        (if unat ulPos < length (G_of ?st p) then G_of ?st p ! unat ulPos else []) @ [c]]"
      "unat ulPos < length (G_of ?st p) + k"
    using tn_Add_correct [of p ?st ulPos c] p okD(4) [OF p(2)] pos by auto
  have linked: "linked st q i x \<longleftrightarrow> linked ?st q i x \<or> q = p \<and> i = unat ulPos \<and> x = c" for q i x
    by (rule linked_add [OF oth G])
  have child: "is_child st x \<longleftrightarrow> is_child ?st x \<or> x = c" for x
    unfolding is_child_linked linked by blast
  have links: "(\<exists>k \<in> set (tm_links tm). link_Equals eq k l) \<longleftrightarrow>
      (\<exists>p c. linked ?st p (unat (fst (snd l))) c \<and> eq (V_of ?st p) (fst l) \<and> eq (V_of ?st c) (snd (snd l)))" for l
    using ok unfolding tm_ok_def Let_def by blast
  have "\<not> linked ?st p (unat ulPos) c"
    using new v unfolding links by auto
  then have dist: "list_all distinct (G_of st m)" for m
    by (intro distinct_add [OF oth G okD(7)])
  have nodes: "nodes_ok st"
  proof -
    have "0 < x \<and> x < length st" if "alts \<in> set (G_of st m)" "x \<in> set alts" for m alts x
    proof -
      have "is_child st x" using that unfolding is_child_def by blast
      then have "is_child ?st x \<or> x = c" by (simp only: child)
      then show ?thesis using okD(1) c st(2) unfolding nodes_ok_def is_child_def by auto
    qed
    then show ?thesis using okD(1) st(2,4) unfolding nodes_ok_def by simp
  qed
  have new_links: "(\<exists>k \<in> set (tm_links tm @ [(pp, ulPos, cc)]). link_Equals eq k l) \<longleftrightarrow>
      (\<exists>p c. linked st p (unat (fst (snd l))) c \<and> eq (V_of st p) (fst l) \<and> eq (V_of st c) (snd (snd l)))" for l
  proof -
    have "(\<exists>k \<in> set (tm_links tm @ [(pp, ulPos, cc)]). link_Equals eq k l) \<longleftrightarrow>
        (\<exists>k \<in> set (tm_links tm). link_Equals eq k l) \<or> link_Equals eq (pp, ulPos, cc) l" by auto
    also have "\<dots> \<longleftrightarrow> (\<exists>p c. linked ?st p (unat (fst (snd l))) c \<and> eq (V_of ?st p) (fst l) \<and> eq (V_of ?st c) (snd (snd l))) \<or>
        ulPos = fst (snd l) \<and> eq (V_of ?st p) (fst l) \<and> eq (V_of ?st c) (snd (snd l))"
      unfolding links link_Equals_equiv [OF eq v] by blast
    also have "\<dots> \<longleftrightarrow> (\<exists>p c. linked st p (unat (fst (snd l))) c \<and> eq (V_of st p) (fst l) \<and> eq (V_of st c) (snd (snd l)))"
      unfolding linked st(3) by (metis unat_eq_imp_eq)
    finally show ?thesis .
  qed
  have inc: "unat (tn_ulIncoming (?st ! i)) \<le> length (tm_links tm)" if "i < length ?st" for i
    using ok that unfolding tm_ok_def Let_def by blast
  have inc_c: "unat (tn_ulIncoming (?st ! c) + 1) = unat (tn_ulIncoming (?st ! c)) + 1"
    using inc [OF c(2)] small by (subst unat_add_lem [THEN iffD1]) auto
  have inc': "(tn_ulIncoming (st ! i) = 0 \<longleftrightarrow> \<not> is_child st i) \<and> unat (tn_ulIncoming (st ! i)) \<le> length (tm_links tm) + 1"
    if "i < length st" for i
  proof (cases "i = c")
    case True
    have "tn_ulIncoming (?st ! c) + 1 \<noteq> 0" using inc_c by (metis Suc_eq_plus1 nat.distinct(1) unat_0)
    then show ?thesis using True st(4) [OF c(2)] inc [OF c(2)] inc_c by (simp add: child)
  next
    case False
    then show ?thesis using st(2) st(4) [of i] that okD(8) [of i] inc [of i] by (simp add: child)
  qed
  have ens: "tn_ens (st ! i) = EnsUncounted" if "i < length st" for i
    using that st(2) st(4) [of i] okD(4) [of i] by simp
  have kids0: "tn_children (st ! 0) = []"
    using oth p(1) okD(6) nodes st(2) by (auto simp: G_of_def nodes_ok_def split: if_splits)
  have bound: "i < 2 ^ 32 - 1" if "linked st q i x" for q i x
  proof -
    have "i < 2 ^ 32 - 1" if "linked ?st q i x"
      using ok that unfolding tm_ok_def Let_def by blast
    moreover have "unat ulPos \<noteq> 2 ^ 32 - 1"
      using pos unat_eq_imp_eq [of ulPos "- 1"] by (auto simp: unat_ulong_max)
    ultimately show ?thesis using that unat_ULONG_less [of ulPos] unfolding linked by auto
  qed
  have uniq: "\<forall>i j. 0 < i \<longrightarrow> i < length ?st \<longrightarrow> 0 < j \<longrightarrow> j < length ?st \<longrightarrow>
      eq (V_of ?st i) (V_of ?st j) \<longrightarrow> i = j"
    and cl: "tm_ulCountLinks tm = of_nat (length (tm_links tm))"
    using ok unfolding tm_ok_def Let_def by blast+
  have "tm_ok eq (tm\<lparr>tm_nodes := st, tm_ulCountLinks := tm_ulCountLinks tm + 1,
      tm_links := tm_links tm @ [(pp, ulPos, cc)]\<rparr>)"
    unfolding tm_ok_def Let_def
    using nodes okD(2,3,5) ens kids0 dist bound new_links inc' uniq cl
    by (simp add: st(2,3))
  then show ?thesis using st(1) linked by blast
qed

lemma graph_append:
  assumes "tn_children x = []"
  shows "G_of (st @ [x]) = G_of st"
  using assms by (auto simp: G_of_def fun_eq_iff nth_append)

lemma V_append: "V_of (st @ [x]) i = (if i = length st then the (tn_value x) else V_of st i)"
  by (auto simp: V_of_def nth_append)

lemma of_nat_eq_0_iff_32:
  assumes "n < 2 ^ 32"
  shows "(of_nat n :: ULONG) = 0 \<longleftrightarrow> n = 0"
proof -
  have "unat (of_nat n :: ULONG) = n" using assms by (simp add: unat_of_nat take_bit_nat_eq_self_iff)
  then have "n = 0" if "(of_nat n :: ULONG) = 0" using that by simp
  then show ?thesis by auto
qed

lemma linked_range:
  assumes "nodes_ok st" and "linked st p i c"
  shows "p < length st \<and> c < length st \<and> 0 < c"
proof -
  have i: "i < length (G_of st p)" "c \<in> set (G_of st p ! i)" using assms(2) by (simp_all add: linked_def)
  then have "G_of st p ! i \<in> set (G_of st p)" by simp
  then have "0 < c \<and> c < length st" using assms(1) i(2) unfolding nodes_ok_def by blast
  moreover have "p < length st" using i(1) by (auto simp: G_of_def split: if_splits)
  ultimately show ?thesis by blast
qed

lemma nodes_ok_append:
  assumes "nodes_ok st" and "tn_children x = []" and "tn_ul x \<noteq> 0" and "tn_value x \<noteq> None"
  shows "nodes_ok (st @ [x])"
proof -
  have "(tn_ul ((st @ [x]) ! i) = 0 \<longleftrightarrow> i = 0) \<and> (tn_value ((st @ [x]) ! i) = None \<longleftrightarrow> i = 0)"
    if "i < length (st @ [x])" for i
    using that assms unfolding nodes_ok_def by (cases "i = length st") (auto simp: nth_append)
  moreover have "0 < c \<and> c < length (st @ [x])" if "alts \<in> set (G_of (st @ [x]) n)" "c \<in> set alts" for n alts c
    using that assms(1) unfolding nodes_ok_def graph_append [OF assms(2)] by fastforce
  ultimately show ?thesis unfolding nodes_ok_def by simp
qed

text \<open>A new node keeps the invariant when its element is not yet in the map.\<close>

lemma tm_ok_new_node:
  assumes ok: "tm_ok eq tm" and eq: "equivp eq" and small: "length (tm_nodes tm) < 2 ^ 32"
    and new: "\<And>i. 0 < i \<Longrightarrow> i < length (tm_nodes tm) \<Longrightarrow> \<not> eq (V_of (tm_nodes tm) i) v"
  shows "tm_ok eq (tm\<lparr>tm_nodes := tm_nodes tm @ [CTreeNode_ctor (tm_ulCountNodes tm + 1) (Some v)],
    tm_ulCountNodes := tm_ulCountNodes tm + 1, tm_map := tm_map tm @ [(v, length (tm_nodes tm))]\<rparr>)"
proof -
  let ?st = "tm_nodes tm" and ?n = "length (tm_nodes tm)" and ?x = "CTreeNode_ctor (tm_ulCountNodes tm + 1) (Some v)"
  define st' where "st' = ?st @ [?x]"
  have len: "length st' = Suc ?n" by (simp add: st'_def)
  note okD = tm_okD [OF ok]
  obtain m where m: "?n = Suc m" using okD(1) unfolding nodes_ok_def by (cases ?n) auto
  have x: "tn_children ?x = []" "tn_value ?x = Some v" "tn_ens ?x = EnsUncounted" "tn_ulIncoming ?x = 0"
    by (simp_all add: CTreeNode_ctor_def)
  have ul: "tm_ulCountNodes tm + 1 = of_nat ?n" by (simp add: okD(3) m)
  have "(of_nat ?n :: ULONG) \<noteq> 0" using of_nat_eq_0_iff_32 [OF small] m by simp
  then have ul0: "tn_ul ?x \<noteq> 0" by (simp add: CTreeNode_ctor_def ul)
  have G: "G_of st' = G_of ?st" unfolding st'_def by (rule graph_append [OF x(1)])
  have V: "V_of st' i = (if i = ?n then v else V_of ?st i)" for i by (simp add: st'_def V_append x(2))
  have nodes: "nodes_ok st'" unfolding st'_def by (rule nodes_ok_append [OF okD(1) x(1) ul0]) (simp add: x(2))
  have child: "is_child st' i = is_child ?st i" "linked st' p i c = linked ?st p i c" for p i c
    unfolding is_child_def linked_def G by simp_all
  have nchild: "\<not> is_child ?st ?n" using linked_range [OF okD(1)] unfolding is_child_linked by blast
  have nth: "st' ! i = (if i = ?n then ?x else ?st ! i)" if "i < Suc ?n" for i
    using that by (cases "i = ?n") (simp_all add: st'_def nth_append)
  have old: "\<forall>i j. 0 < i \<longrightarrow> i < ?n \<longrightarrow> 0 < j \<longrightarrow> j < ?n \<longrightarrow> eq (V_of ?st i) (V_of ?st j) \<longrightarrow> i = j"
    "\<forall>p i c. linked ?st p i c \<longrightarrow> i < 2 ^ 32 - 1"
    "\<forall>l. (\<exists>k \<in> set (tm_links tm). link_Equals eq k l) \<longleftrightarrow>
      (\<exists>p c. linked ?st p (unat (fst (snd l))) c \<and> eq (V_of ?st p) (fst l) \<and> eq (V_of ?st c) (snd (snd l)))"
    "\<forall>i < ?n. unat (tn_ulIncoming (?st ! i)) \<le> length (tm_links tm)"
    "tm_ulCountLinks tm = of_nat (length (tm_links tm))"
    using ok unfolding tm_ok_def Let_def by blast+
  have uniq: "i = j" if "0 < i" "i < Suc ?n" "0 < j" "j < Suc ?n" "eq (V_of st' i) (V_of st' j)" for i j
  proof (cases "i = ?n")
    case True
    then show ?thesis using that new [of j] equivp_symp [OF eq, of v "V_of ?st j"] by (cases "j = ?n") (auto simp: V)
  next
    case False
    then show ?thesis using that new [of i] old(1) by (cases "j = ?n") (auto simp: V)
  qed
  have links: "(\<exists>k \<in> set (tm_links tm). link_Equals eq k l) \<longleftrightarrow>
      (\<exists>p c. linked st' p (unat (fst (snd l))) c \<and> eq (V_of st' p) (fst l) \<and> eq (V_of st' c) (snd (snd l)))" for l
  proof -
    have "linked ?st p i c \<Longrightarrow> V_of st' p = V_of ?st p \<and> V_of st' c = V_of ?st c" for p i c
      using linked_range [OF okD(1)] by (auto simp: V)
    then show ?thesis unfolding old(3) [rule_format] child by metis
  qed
  have map: "tm_map tm @ [(v, ?n)] = map (\<lambda>i. (V_of st' i, i)) [1..<Suc ?n]"
    by (simp add: okD(5) V m)
  have inc: "(tn_ulIncoming (st' ! i) = 0 \<longleftrightarrow> \<not> is_child st' i) \<and> unat (tn_ulIncoming (st' ! i)) \<le> length (tm_links tm)
      \<and> tn_ens (st' ! i) = EnsUncounted"
    if "i < Suc ?n" for i
    using that okD(4) [of i] okD(8) [of i] old(4) x(3,4) nchild by (cases "i = ?n") (simp_all add: nth child)
  have kids0: "tn_children (st' ! 0) = []" using okD(6) m by (simp add: st'_def nth_append)
  show ?thesis
    unfolding tm_ok_def Let_def st'_def [symmetric]
    using nodes small ul kids0 uniq old(2,5) links inc map okD(7)
    by (simp add: G child len)
qed

lemma tm_Ptn_correct:
  assumes ok: "tm_ok eq tm" and eq: "equivp eq" and small: "length (tm_nodes tm) < 2 ^ 32"
    and Ptn: "tm_Ptn eq tm v = (tm', p)"
  shows "tm_ok eq tm' \<and> 0 < p \<and> p < length (tm_nodes tm') \<and> eq (V_of (tm_nodes tm') p) v \<and>
    tm_links tm' = tm_links tm \<and> G_of (tm_nodes tm') = G_of (tm_nodes tm) \<and>
    length (tm_nodes tm) \<le> length (tm_nodes tm') \<and> length (tm_nodes tm') \<le> length (tm_nodes tm) + 1 \<and>
    (\<forall>i < length (tm_nodes tm). V_of (tm_nodes tm') i = V_of (tm_nodes tm) i)"
proof -
  let ?st = "tm_nodes tm" and ?n = "length (tm_nodes tm)"
  note okD = tm_okD [OF ok]
  have len: "0 < ?n" using okD(1) unfolding nodes_ok_def by blast
  show ?thesis
  proof (cases "find (\<lambda>(k, _). eq k v) (tm_map tm)")
    case (Some kp)
    then obtain i where "i < length (tm_map tm)" "kp = tm_map tm ! i" "eq (fst kp) v"
      by (auto simp: find_Some_iff)
    then have "kp \<in> set (tm_map tm)" "eq (fst kp) v" by simp_all
    moreover have "tm' = tm" "p = snd kp" using Ptn Some by (auto simp: tm_Ptn_def split: prod.splits)
    ultimately show ?thesis using ok by (auto simp: okD(5))
  next
    case None
    let ?x = "CTreeNode_ctor (tm_ulCountNodes tm + 1) (Some v)"
    have tm': "tm' = tm\<lparr>tm_nodes := ?st @ [?x], tm_ulCountNodes := tm_ulCountNodes tm + 1,
        tm_map := tm_map tm @ [(v, ?n)]\<rparr>" "p = ?n"
      using Ptn None by (auto simp: tm_Ptn_def Let_def)
    have "\<not> eq (V_of ?st i) v" if "0 < i" "i < ?n" for i
      using None that by (auto simp: okD(5) find_None_iff)
    then have "tm_ok eq tm'" unfolding tm'(1) by (rule tm_ok_new_node [OF ok eq small])
    moreover have "G_of (?st @ [?x]) = G_of ?st" by (rule graph_append) (simp add: CTreeNode_ctor_def)
    moreover have "V_of (?st @ [?x]) i = (if i = ?n then v else V_of ?st i)" for i
      by (simp add: V_append CTreeNode_ctor_def)
    ultimately show ?thesis using len equivp_reflp [OF eq] by (simp add: tm')
  qed
qed

lemma tm_ok_ctor: "tm_ok eq CTreeMap_ctor"
proof -
  have G: "G_of [CTreeNode_ctor 0 None] n = []" for n :: nat
    by (simp add: G_of_def CTreeNode_ctor_def)
  show ?thesis
    by (simp add: tm_ok_def Let_def CTreeMap_ctor_def nodes_ok_def linked_def is_child_def G)
       (simp add: CTreeNode_ctor_def)
qed

lemma linked_cong: "G_of st' = G_of st \<Longrightarrow> linked st' = linked st"
  by (simp add: linked_def fun_eq_iff)

lemma tm_Insert_new:
  assumes ok: "tm_ok eq tm" and eq: "equivp eq" and small: "length (tm_nodes tm) < 2 ^ 32 - 1"
    "length (tm_links tm) < 2 ^ 32 - 1" and ne: "pp \<noteq> cc" and pos: "ulPos \<noteq> - 1"
    and new: "\<not> (\<exists>l \<in> set (tm_links tm). link_Equals eq l (pp, ulPos, cc))"
  shows "\<exists>tm' p c. tm_Insert eq tm pp ulPos cc = Inr tm' \<and> tm_ok eq tm' \<and>
    tm_links tm' = tm_links tm @ [(pp, ulPos, cc)] \<and>
    eq (V_of (tm_nodes tm') p) pp \<and> eq (V_of (tm_nodes tm') c) cc \<and>
    (\<forall>q i x. linked (tm_nodes tm') q i x \<longleftrightarrow> linked (tm_nodes tm) q i x \<or> q = p \<and> i = unat ulPos \<and> x = c) \<and>
    (\<forall>i < length (tm_nodes tm). V_of (tm_nodes tm') i = V_of (tm_nodes tm) i) \<and>
    length (tm_nodes tm') \<le> length (tm_nodes tm) + 2"
proof -
  obtain tm1 p where P1: "tm_Ptn eq tm pp = (tm1, p)" by force
  obtain tm2 c where P2: "tm_Ptn eq tm1 cc = (tm2, c)" by force
  have "length (tm_nodes tm) < 2 ^ 32" using small(1) by simp
  note s1 = tm_Ptn_correct [OF ok eq this P1]
  then have ok1: "tm_ok eq tm1" "length (tm_nodes tm1) < 2 ^ 32" using small(1) by auto
  note s2 = tm_Ptn_correct [OF ok1(1) eq ok1(2) P2]
  have p: "p < length (tm_nodes tm1)" "p < length (tm_nodes tm2)" "V_of (tm_nodes tm2) p = V_of (tm_nodes tm1) p"
    using s1 s2 by auto
  have "\<exists>st. tn_Add (tm_nodes tm2) p ulPos c = Inr st \<and>
    tm_ok eq (tm2\<lparr>tm_nodes := st, tm_ulCountLinks := tm_ulCountLinks tm2 + 1,
      tm_links := tm_links tm2 @ [(pp, ulPos, cc)]\<rparr>) \<and>
    (\<forall>q i x. linked st q i x \<longleftrightarrow> linked (tm_nodes tm2) q i x \<or> q = p \<and> i = unat ulPos \<and> x = c)"
    by (rule tm_ok_insert_link [OF _ eq _ p(2) _ _ _ _ pos]) (use s1 s2 p(3) new small(2) in simp_all)
  then obtain st where st: "tn_Add (tm_nodes tm2) p ulPos c = Inr st"
      "tm_ok eq (tm2\<lparr>tm_nodes := st, tm_ulCountLinks := tm_ulCountLinks tm2 + 1,
        tm_links := tm_links tm2 @ [(pp, ulPos, cc)]\<rparr>)"
      "\<forall>q i x. linked st q i x \<longleftrightarrow> linked (tm_nodes tm2) q i x \<or> q = p \<and> i = unat ulPos \<and> x = c"
    by blast
  let ?tm = "tm2\<lparr>tm_nodes := st, tm_ulCountLinks := tm_ulCountLinks tm2 + 1,
        tm_links := tm_links tm2 @ [(pp, ulPos, cc)]\<rparr>"
  have ins: "tm_Insert eq tm pp ulPos cc = Inr ?tm"
    using ne new st(1) by (simp add: tm_Insert_def P1 P2)
  have V: "V_of st = V_of (tm_nodes tm2) \<and> length st = length (tm_nodes tm2)"
  proof -
    have "tn_ens (tm_nodes tm2 ! p) \<noteq> EnsCounted" using tm_okD(4) [of eq tm2 p] s2 p(2) by simp
    from tn_Add_correct [OF p(2) this pos, of c] st(1) show ?thesis by auto
  qed
  have G: "linked (tm_nodes tm2) = linked (tm_nodes tm)"
    using s1 s2 by (intro linked_cong) simp
  have "eq (V_of (tm_nodes ?tm) p) pp \<and> eq (V_of (tm_nodes ?tm) c) cc" using s1 s2 p(3) by (simp add: V)
  moreover have "\<forall>i < length (tm_nodes tm). V_of (tm_nodes ?tm) i = V_of (tm_nodes tm) i"
    using s1 s2 by (simp add: V)
  moreover have "tm_links ?tm = tm_links tm @ [(pp, ulPos, cc)]" using s1 s2 by simp
  moreover have "\<forall>q i x. linked (tm_nodes ?tm) q i x \<longleftrightarrow> linked (tm_nodes tm) q i x \<or> q = p \<and> i = unat ulPos \<and> x = c"
    using st(3) by (simp add: G)
  moreover have "length (tm_nodes ?tm) \<le> length (tm_nodes tm) + 2" using s1 s2 by (simp add: V)
  ultimately show ?thesis using ins st(2) by blast
qed

text \<open>A sequence of insertions, as the memo makes them.\<close>

fun tm_inserts :: "('a \<Rightarrow> 'a \<Rightarrow> bool) \<Rightarrow> 'a CTreeMap \<Rightarrow> ('a \<times> ULONG \<times> 'a) list \<Rightarrow> 'a CTreeMap result" where
  "tm_inserts eq tm [] = Inr tm"
| "tm_inserts eq tm ((p, i, c) # ls) = rbind (tm_Insert eq tm p i c) (\<lambda>tm'. tm_inserts eq tm' ls)"

lemma tm_Insert_step:
  assumes ok: "tm_ok eq tm" and eq: "equivp eq" and small: "length (tm_nodes tm) < 2 ^ 32 - 1"
    "length (tm_links tm) < 2 ^ 32 - 1" and ne: "pp \<noteq> cc" and pos: "ulPos \<noteq> - 1"
  shows "\<exists>tm'. tm_Insert eq tm pp ulPos cc = Inr tm' \<and> tm_ok eq tm' \<and>
    length (tm_nodes tm') \<le> length (tm_nodes tm) + 2 \<and> length (tm_links tm') \<le> length (tm_links tm) + 1"
proof (cases "\<exists>l \<in> set (tm_links tm). link_Equals eq l (pp, ulPos, cc)")
  case True
  then show ?thesis using ok ne by (simp add: tm_Insert_def)
next
  case False
  from tm_Insert_new [OF assms this] show ?thesis by force
qed

lemma tm_inserts_ok:
  assumes "equivp eq" and "\<forall>(p, i, c) \<in> set ls. p \<noteq> c \<and> i \<noteq> - 1" and "tm_ok eq tm"
    and "length (tm_nodes tm) + 2 * length ls < 2 ^ 32" and "length (tm_links tm) + length ls < 2 ^ 32"
  shows "\<exists>tm'. tm_inserts eq tm ls = Inr tm' \<and> tm_ok eq tm'"
  using assms(2-)
proof (induction ls arbitrary: tm)
  case (Cons l ls)
  obtain p i c where l: "l = (p, i, c)" by (cases l)
  obtain tm' where tm': "tm_Insert eq tm p i c = Inr tm'" "tm_ok eq tm'"
      "length (tm_nodes tm') \<le> length (tm_nodes tm) + 2" "length (tm_links tm') \<le> length (tm_links tm) + 1"
    using tm_Insert_step [OF Cons.prems(2) assms(1), of p c i] Cons.prems by (auto simp: l)
  with Cons.IH [of tm'] Cons.prems show ?case by (auto simp: l)
qed simp

section \<open>Counting ends on every graph\<close>

text \<open>The outcomes of a count: a result, an overflow, or the assertion against cycles.\<close>

definition outcome :: "'a store \<Rightarrow> ('a store \<times> ULLONG) result \<Rightarrow> bool" where
  "outcome st r \<longleftrightarrow> (case r of Inr (st', c) \<Rightarrow> progress st st' | Inl e \<Rightarrow> e = AssertFailed \<or> e = OverflowExc)"

lemma outcome_simps [simp]:
  "outcome st (Inr (st', c)) \<longleftrightarrow> progress st st'"
  "outcome st (Inl e) \<longleftrightarrow> e = AssertFailed \<or> e = OverflowExc"
  by (simp_all add: outcome_def)

lemma outcome_rbind:
  assumes "outcome st r" and "\<And>st' c. r = Inr (st', c) \<Longrightarrow> progress st st' \<Longrightarrow> outcome st (f (st', c))"
  shows "outcome st (rbind r f)"
  using assms by (cases r) auto

lemma outcome_trans: "progress st st' \<Longrightarrow> outcome st' r \<Longrightarrow> outcome st r"
  by (auto simp: outcome_def split: sum.splits intro: progress_trans)

lemma gpos_Add_cases: "gpos_Add a b = Inr (a + b) \<or> gpos_Add a b = Inl OverflowExc"
  by (simp add: gpos_Add_def)

lemma gpos_Multiply_cases: "gpos_Multiply a b = Inr (a * b) \<or> gpos_Multiply a b = Inl OverflowExc"
  by (simp add: gpos_Multiply_def)

lemma outcome_alternatives:
  assumes "\<And>st' p. progress st st' \<Longrightarrow> p \<in> set alts \<Longrightarrow> outcome st' (cnt st' p)"
  shows "outcome st (count_alternatives cnt st alts ull)"
  using assms
proof (induction alts arbitrary: st ull)
  case (Cons a alts)
  show ?case unfolding count_alternatives.simps
  proof (rule outcome_rbind)
    show "outcome st (cnt st a)" using Cons.prems [of st a] by simp
    fix st' c assume st': "progress st st'"
    have rest: "outcome st' (count_alternatives cnt st' alts ull')" for ull'
    proof (rule Cons.IH)
      show "outcome st'' (cnt st'' p)" if "progress st' st''" "p \<in> set alts" for st'' p
        using Cons.prems [OF progress_trans [OF st' that(1)], of p] that(2) by simp
    qed
    show "outcome st (case (st', c) of (st', ullCount) \<Rightarrow>
        rbind (gpos_Add ull ullCount) (\<lambda>ull'. count_alternatives cnt st' alts ull'))"
      using gpos_Add_cases [of ull c] outcome_trans [OF st' rest] by auto
  qed
qed simp

lemma outcome_children:
  assumes "n < length st" and "set is \<subseteq> {..<length (tn_children (st ! n))}"
    and "\<And>st' i p. progress st st' \<Longrightarrow> i \<in> set is \<Longrightarrow> p \<in> set (tn_children (st ! n) ! i) \<Longrightarrow> outcome st' (cnt st' p)"
  shows "outcome st (count_children cnt st n is acc)"
  using assms
proof (induction "is" arbitrary: st acc)
  case (Cons i js)
  have "outcome st (count_alternatives cnt st (tn_children (st ! n) ! i) 0)"
    by (rule outcome_alternatives) (rule Cons.prems(3), auto)
  then have child: "outcome st (child_UllCount cnt st n i)"
    using Cons.prems(2) by (simp add: child_UllCount_def)
  show ?case unfolding count_children.simps
  proof (rule outcome_rbind [OF child])
    fix st' c assume st': "progress st st'"
    have same: "tn_children (st' ! n) = tn_children (st ! n)" "n < length st'"
      using st' Cons.prems(1) by (simp_all add: progress_def)
    have rest: "outcome st' (count_children cnt st' n js acc')" for acc'
    proof (rule Cons.IH [OF same(2)])
      show "set js \<subseteq> {..<length (tn_children (st' ! n))}" using Cons.prems(2) by (simp add: same(1))
      show "outcome st'' (cnt st'' p)"
        if "progress st' st''" "k \<in> set js" "p \<in> set (tn_children (st' ! n) ! k)" for st'' k p
        by (rule Cons.prems(3) [of st'' k p]) (use that same(1) progress_trans [OF st' that(1)] in simp_all)
    qed
    show "outcome st (case (st', c) of (st', ull) \<Rightarrow>
        if ull = 0 then Inr (st', 0)
        else rbind (gpos_Multiply acc ull) (\<lambda>c. count_children cnt st' n js c))"
      using st' gpos_Multiply_cases [of acc c] outcome_trans [OF st' rest] by auto
  qed
qed simp

definition idle :: "'a store \<Rightarrow> nat set" where
  "idle st = {i. i < length st \<and> tn_ens (st ! i) \<noteq> EnsCounting}"

lemma idle_progress: "progress st st' \<Longrightarrow> idle st' = idle st"
  by (auto simp: idle_def progress_def)

lemma tn_UllCount_outcome:
  assumes "nodes_ok st" and "n < length st" and "card (idle st) < d"
  shows "outcome st (tn_UllCount d st n)"
  using assms
proof (induction d arbitrary: st n)
  case (Suc d)
  show ?case
  proof (cases "tn_ens (st ! n)")
    case EnsUncounted
    let ?st = "st[n := (st ! n)\<lparr>tn_ens := EnsCounting\<rparr>]"
    have n: "n \<in> idle st" using EnsUncounted Suc.prems(2) by (simp add: idle_def)
    have idle: "idle ?st = idle st - {n}"
      using Suc.prems(2) by (auto simp: idle_def nth_update_if split: if_splits)
    have "finite (idle st)" by (simp add: idle_def)
    then have card: "card (idle ?st) < d"
      using Suc.prems(3) card_Suc_Diff1 [OF _ n] unfolding idle by simp
    have nodes: "nodes_ok ?st"
      using Suc.prems(1) unfolding nodes_ok_def by (simp add: graph_update nth_update_if)
    have kids: "tn_children (?st ! n) = tn_children (st ! n)" using Suc.prems(2) by simp
    have "outcome ?st (count_children (tn_UllCount d) ?st n [0..<length (tn_children (st ! n))] 1)"
    proof (rule outcome_children)
      fix st' i p
      assume st': "progress ?st st'" and i: "i \<in> set [0..<length (tn_children (st ! n))]"
        and p: "p \<in> set (tn_children (?st ! n) ! i)"
      show "outcome st' (tn_UllCount d st' p)"
      proof (rule Suc.IH)
        show "nodes_ok st'" by (rule progress_nodes_ok [OF st' nodes])
        have "linked st n i p" using i p Suc.prems(2) by (simp add: linked_def G_of_def)
        then show "p < length st'" using linked_range [OF Suc.prems(1)] progress_length [OF st'] by auto
        show "card (idle st') < d" using card idle_progress [OF st'] by simp
      qed
    qed (use Suc.prems(2) in auto)
    then have "outcome st (rbind (count_children (tn_UllCount d) ?st n [0..<length (tn_children (st ! n))] 1)
        (\<lambda>(st', c). Inr (st'[n := (st' ! n)\<lparr>tn_ullCount := c, tn_ens := EnsCounted\<rparr>], c)))"
      using progress_count [OF _ EnsUncounted]
      by (cases "count_children (tn_UllCount d) ?st n [0..<length (tn_children (st ! n))] 1") auto
    then show ?thesis using EnsUncounted by (simp add: tn_UllCount.simps)
  qed (simp_all add: tn_UllCount.simps)
qed simp

lemma hook_none: "\<forall>p \<in> set ps. tn_ulIncoming (st ! p) \<noteq> 0 \<Longrightarrow> hook_roots st ps = Inr st"
  by (induction ps) auto

lemma hook_map_ok:
  assumes "tm_ok eq tm"
  shows "\<exists>st. hook_roots (tm_nodes tm) (map snd (tm_map tm)) = Inr st \<and> nodes_ok st \<and>
    length st = length (tm_nodes tm)"
proof (cases "roots tm = []")
  case True
  then have "hook_roots (tm_nodes tm) (map snd (tm_map tm)) = Inr (tm_nodes tm)"
    using tm_okD(8) [OF assms]
    by (intro hook_none) (auto simp: roots_def filter_empty_conv tm_okD(5) [OF assms])
  then show ?thesis using tm_okD(1) [OF assms] by blast
qed (use hook_map_roots [OF assms] in blast)

section \<open>Properties\<close>

text \<open>
  C17: building the map. An insertion of a link into a valid map (within the range of the 32 bit
  counters) never fails and keeps the map valid. A link that is already there, up to \<^verbatim>\<open>EqFn\<close>, leaves
  the map unchanged; otherwise the child becomes an alternative of the parent at that position,
  nothing else changes in the graph, and the counter of links grows by one.
\<close>

theorem treemap_Insert_correct:
  assumes "tm_ok eq tm" and "equivp eq" and "length (tm_nodes tm) < 2 ^ 32 - 1"
    and "length (tm_links tm) < 2 ^ 32 - 1" and "ptParent \<noteq> ptChild" and "ulPos \<noteq> - 1"
  shows "\<exists>tm'. tm_Insert eq tm ptParent ulPos ptChild = Inr tm' \<and> tm_ok eq tm' \<and>
    (if \<exists>l \<in> set (tm_links tm). link_Equals eq l (ptParent, ulPos, ptChild) then tm' = tm
     else tm_UlLinks tm' = tm_UlLinks tm + 1 \<and>
       (\<exists>p c. eq (V_of (tm_nodes tm') p) ptParent \<and> eq (V_of (tm_nodes tm') c) ptChild \<and>
          (\<forall>q i x. linked (tm_nodes tm') q i x \<longleftrightarrow>
             linked (tm_nodes tm) q i x \<or> q = p \<and> i = unat ulPos \<and> x = c)))"
proof (cases "\<exists>l \<in> set (tm_links tm). link_Equals eq l (ptParent, ulPos, ptChild)")
  case True
  then show ?thesis using assms(1,5) by (simp add: tm_Insert_def)
next
  case False
  from tm_Insert_new [OF assms False] obtain tm' p c where
    tm': "tm_Insert eq tm ptParent ulPos ptChild = Inr tm'" "tm_ok eq tm'"
      "tm_links tm' = tm_links tm @ [(ptParent, ulPos, ptChild)]"
      "eq (V_of (tm_nodes tm') p) ptParent \<and> eq (V_of (tm_nodes tm') c) ptChild \<and>
          (\<forall>q i x. linked (tm_nodes tm') q i x \<longleftrightarrow>
             linked (tm_nodes tm) q i x \<or> q = p \<and> i = unat ulPos \<and> x = c)"
    by blast
  have "tm_ulCountLinks tm = of_nat (length (tm_links tm))" "tm_ulCountLinks tm' = of_nat (length (tm_links tm'))"
    using assms(1) tm'(2) unfolding tm_ok_def Let_def by blast+
  then have "tm_UlLinks tm' = tm_UlLinks tm + 1" using tm'(3) by (simp add: tm_UlLinks_def)
  with tm' False show ?thesis by (simp only: if_False) blast
qed

theorem treemap_Insert_correct_witness:
  "\<exists>tm'. tm_Insert (=) (CTreeMap_ctor :: nat CTreeMap) 5 0 7 = Inr tm' \<and> tm_ok (=) tm' \<and> tm_UlLinks tm' = 1"
  using treemap_Insert_correct [OF tm_ok_ctor identity_equivp, of "5 :: nat" 7 0]
  by (auto simp: CTreeMap_ctor_def tm_UlLinks_def)

text \<open>
  The plans of a map, independently of any order: the trees that choose, from a logical root on, one
  alternative at every child position. In an acyclic map the list of all plans has no duplicates and
  holds exactly these.
\<close>

definition map_plans :: "'a CTreeMap \<Rightarrow> 'a plan set" where
  "map_plans tm = {t. \<exists>r \<in> set (roots tm). admits (G_of (tm_nodes tm)) (V_of (tm_nodes tm)) r t}"

lemma all_plans_enumerate:
  assumes "tm_ok eq tm" and "equivp eq" and "height_ok (G_of (tm_nodes tm)) h"
  shows "distinct (all_plans h tm) \<and>
    set (all_plans h tm) = map_plans tm"
proof
  let ?G = "G_of (tm_nodes tm)" and ?V = "V_of (tm_nodes tm)"
  have inj: "inj_on ?V {0<..<length (tm_nodes tm)}"
  proof (rule inj_onI)
    fix i j assume ij: "i \<in> {0<..<length (tm_nodes tm)}" "j \<in> {0<..<length (tm_nodes tm)}" "?V i = ?V j"
    then have "eq (?V i) (?V j)" using equivp_reflp [OF assms(2)] by simp
    then show "i = j" using assms(1) ij unfolding tm_ok_def Let_def by auto
  qed
  have dist: "distinct alts \<and> inj_on ?V (set alts)" if "alts \<in> set (?G n)" for n alts
  proof
    show "distinct alts" using tm_okD(7) [OF assms(1)] that by (auto simp: list_all_iff)
    show "inj_on ?V (set alts)"
      by (rule inj_on_subset [OF inj])
         (use tm_okD(1) [OF assms(1)] that in \<open>auto simp: nodes_ok_def\<close>)
  qed
  have plans: "distinct (node_plans ?G ?V h n)" for n by (rule node_plans_distinct [OF assms(3) dist])
  show "distinct (all_plans h tm)"
    unfolding all_plans_def
  proof (rule distinct_concat_map [OF _ plans])
    show "distinct (roots tm)" by (simp add: roots_def)
    fix x y t
    assume xy: "x \<in> set (roots tm)" "y \<in> set (roots tm)"
      and t: "t \<in> set (node_plans ?G ?V h x)" "t \<in> set (node_plans ?G ?V h y)"
    have "?V x = ?V y"
      using node_plans_root [OF assms(3) t(1)] node_plans_root [OF assms(3) t(2)] by auto
    then show "x = y" by (rule inj_onD [OF inj]) (use xy in \<open>auto simp: roots_def\<close>)
  qed
  show "set (all_plans h tm) = map_plans tm"
    unfolding all_plans_def map_plans_def set_concat set_map by (auto simp: node_plans_complete [OF assms(3)])
qed

text \<open>
  C1: counting and unranking. On a valid acyclic map whose counts fit into 64 bits, with stack for
  one activation per level of the graph, \<^verbatim>\<open>UllCount\<close> returns the number of plans, and afterwards
  \<^verbatim>\<open>PrUnrank\<close> returns, for every rank below that number, the plan of that rank, built bottom-up by
  the rehydrate function with the context threaded through, and changes nothing in the map.
\<close>

theorem treemap_count_unrank:
  fixes prfn :: "'a \<Rightarrow> 'r list \<Rightarrow> 'u \<Rightarrow> ('r \<times> 'u) result"
  assumes "tm_ok eq tm" and "tm_map tm \<noteq> []"
    and "height_ok (G_of (tm_nodes tm)) h" and "\<And>n. n < length (tm_nodes tm) \<Longrightarrow> h n < H"
    and "\<And>n. fits (G_of (tm_nodes tm)) (V_of (tm_nodes tm)) h n" and "length (all_plans h tm) < 2 ^ 64"
    and "H < d"
  shows "\<exists>tm' c. tm_UllCount d tm = Inr (tm', c) \<and> unat c = length (all_plans h tm) \<and>
    (\<forall>u r. unat r < length (all_plans h tm) \<longrightarrow>
       tm_PrUnrank d prfn tm' u r =
         rbind (rehydrate prfn (all_plans h tm ! unat r) u) (\<lambda>(pr, u'). Inr (tm', u', pr)))"
  by (rule tm_count_and_unrank [OF assms(1-3)]) (use assms(4-7) in auto)

text \<open>
  C21: unranking enumerates the plans. In a valid acyclic map whose counts fit into 64 bits, with the
  rehydrate function that builds the tree of the plan, \<^verbatim>\<open>UllCount\<close> returns the number of plans of the
  graph; \<^verbatim>\<open>PrUnrank\<close> yields a plan of the graph for every rank below it, and yields every plan of the
  graph for exactly one rank. The plans of the graph are given by an inductive definition that knows
  neither ranks nor an order of the alternatives.
\<close>

lemma rehydrate_list_plan:
  fixes u :: 'u
  assumes "\<And>t (u :: 'u). t \<in> set ts \<Longrightarrow> rehydrate (\<lambda>v ts u. Inr (Plan v ts, u)) t u = Inr (t, u)"
  shows "rehydrate_list (\<lambda>v ts u. Inr (Plan v ts, u)) ts u = Inr (ts, u)"
  using assms by (induction ts arbitrary: u) auto

lemma rehydrate_plan: "rehydrate (\<lambda>v ts u. Inr (Plan v ts, u)) t u = Inr (t, u)"
  by (induction t arbitrary: u) (simp add: rehydrate_list_plan)

theorem treemap_unrank_enumerates:
  fixes u :: 'u
  assumes "tm_ok eq tm" and "equivp eq" and "tm_map tm \<noteq> []"
    and "height_ok (G_of (tm_nodes tm)) h" and "\<And>n. n < length (tm_nodes tm) \<Longrightarrow> h n < H"
    and "\<And>n. fits (G_of (tm_nodes tm)) (V_of (tm_nodes tm)) h n" and "card (map_plans tm) < 2 ^ 64"
    and "H < d"
  shows "\<exists>tm' c. tm_UllCount d tm = Inr (tm', c) \<and> finite (map_plans tm) \<and> unat c = card (map_plans tm) \<and>
    (\<forall>r. r < c \<longrightarrow> (\<exists>t \<in> map_plans tm.
       tm_PrUnrank d (\<lambda>v ts u. Inr (Plan v ts, u)) tm' u r = Inr (tm', u, t))) \<and>
    (\<forall>t \<in> map_plans tm. \<exists>!r. r < c \<and>
       tm_PrUnrank d (\<lambda>v ts u. Inr (Plan v ts, u)) tm' u r = Inr (tm', u, t))"
proof -
  let ?P = "all_plans h tm"
  have P: "distinct ?P" "set ?P = map_plans tm"
    using all_plans_enumerate [OF assms(1,2,4)] by blast+
  then have card: "length ?P = card (map_plans tm)" by (metis distinct_card)
  then have "length ?P < 2 ^ 64" using assms(7) by simp
  from tm_count_and_unrank [OF assms(1,3,4,5,6) this assms(8), of "\<lambda>v ts (u :: 'u). Inr (Plan v ts, u)"]
  obtain tm' c where c: "tm_UllCount d tm = Inr (tm', c)" "unat c = length ?P"
    and unr: "\<And>r. unat r < length ?P \<Longrightarrow>
      tm_PrUnrank d (\<lambda>v ts u. Inr (Plan v ts, u)) tm' u r = Inr (tm', u, ?P ! unat r)"
    by (auto simp: rehydrate_plan)
  show ?thesis
  proof (intro exI conjI allI ballI impI)
    show "tm_UllCount d tm = Inr (tm', c)" by (rule c(1))
    show "finite (map_plans tm)" using P(2) by (metis finite_set)
    show "unat c = card (map_plans tm)" using c(2) card by simp
  next
    fix r assume "r < c"
    then have "unat r < length ?P" using c(2) by (simp add: word_less_nat_alt)
    then show "\<exists>t \<in> map_plans tm.
        tm_PrUnrank d (\<lambda>v ts u. Inr (Plan v ts, u)) tm' u r = Inr (tm', u, t)"
      using unr P(2) nth_mem by blast
  next
    fix t assume "t \<in> map_plans tm"
    then obtain i where i: "i < length ?P" "?P ! i = t" using P(2) by (metis in_set_conv_nth)
    have "i < 2 ^ 64" using i(1) card assms(7) by simp
    then have "unat (word_of_nat i :: ULLONG) = i" by (simp add: unsigned_of_nat take_bit_nat_eq_self)
    moreover have "r = word_of_nat i" if "r < c" "?P ! unat r = t" for r :: ULLONG
    proof -
      have "unat r < length ?P" using that(1) c(2) by (simp add: word_less_nat_alt)
      then have "unat r = i" using nth_eq_iff_index_eq [OF P(1)] i that(2) by blast
      then have "word_of_nat (unat r) = (word_of_nat i :: ULLONG)" by (rule arg_cong)
      then show ?thesis by simp
    qed
    ultimately show "\<exists>!r. r < c \<and>
        tm_PrUnrank d (\<lambda>v ts u. Inr (Plan v ts, u)) tm' u r = Inr (tm', u, t)"
      using i c(2) unr by (intro ex1I [of _ "word_of_nat i"]) (auto simp: word_less_nat_alt)
  qed
qed

text \<open>A map of two plans: 10 over 20 or 30 at position 0 and 40 at position 1, 20 over 40.\<close>

definition sample_links :: "(nat \<times> ULONG \<times> nat) list" where
  "sample_links = [(10, 0, 20), (10, 0, 30), (10, 1, 40), (20, 0, 40)]"

definition sample_map :: "nat CTreeMap" where
  "sample_map = (case tm_inserts (=) CTreeMap_ctor sample_links of Inr tm \<Rightarrow> tm | Inl _ \<Rightarrow> CTreeMap_ctor)"

definition sample_height :: "nat \<Rightarrow> nat" where
  "sample_height n = (if n = 1 then 2 else if n = 2 then 1 else 0)"

lemma sample_map_ok: "tm_ok (=) sample_map"
proof -
  have "\<exists>tm. tm_inserts (=) CTreeMap_ctor sample_links = Inr tm \<and> tm_ok (=) tm"
    by (rule tm_inserts_ok [OF identity_equivp _ tm_ok_ctor]) (auto simp: sample_links_def CTreeMap_ctor_def)
  then show ?thesis by (auto simp: sample_map_def)
qed

lemma height_ok_check:
  "list_all (\<lambda>n. list_all (list_all (\<lambda>c. h c < h n)) (tn_children (st ! n))) [0..<length st] \<Longrightarrow> height_ok (G_of st) h"
  by (auto simp: height_ok_def G_of_def list_all_iff split: if_splits)

lemma fits_check:
  assumes "list_all (\<lambda>n. (\<Prod>alts\<leftarrow>G_of st n. max 1 (alt_count (G_of st) V h alts)) < 4) [0..<length st]"
  shows "fits (G_of st) V h n"
proof (cases "n < length st")
  case True
  then have "(\<Prod>alts\<leftarrow>G_of st n. max 1 (alt_count (G_of st) V h alts)) < 4"
    using assms by (simp add: list_all_iff)
  then show ?thesis unfolding fits_def by (rule less_trans) simp
qed (simp add: fits_def G_of_def)

lemma sample_height_ok: "height_ok (G_of (tm_nodes sample_map)) sample_height"
  by (rule height_ok_check) code_simp

lemma sample_fits: "fits (G_of (tm_nodes sample_map)) (V_of (tm_nodes sample_map)) sample_height n"
  by (rule fits_check) code_simp

theorem treemap_unrank_enumerates_witness:
  "card (map_plans sample_map) = 2 \<and> (\<exists>tm' c. tm_UllCount 4 sample_map = Inr (tm', c) \<and> unat c = 2 \<and>
     (\<forall>t \<in> map_plans sample_map. \<exists>!r. r < c \<and>
        tm_PrUnrank 4 (\<lambda>v ts u. Inr (Plan v ts, u)) tm' (0 :: nat) r = Inr (tm', 0, t)))"
proof -
  have "length (all_plans sample_height sample_map) = 2" by code_simp
  then have card: "card (map_plans sample_map) = 2"
    using all_plans_enumerate [OF sample_map_ok identity_equivp sample_height_ok] by (metis distinct_card)
  have ne: "tm_map sample_map \<noteq> []" by code_simp
  from treemap_unrank_enumerates [OF sample_map_ok identity_equivp ne sample_height_ok _ sample_fits,
      where H = 3 and d = 4 and u = "0 :: nat"] card
  have "\<exists>tm' c. tm_UllCount 4 sample_map = Inr (tm', c) \<and> finite (map_plans sample_map) \<and> unat c = 2 \<and>
      (\<forall>r. r < c \<longrightarrow> (\<exists>t \<in> map_plans sample_map.
         tm_PrUnrank 4 (\<lambda>v ts u. Inr (Plan v ts, u)) tm' (0 :: nat) r = Inr (tm', 0, t))) \<and>
      (\<forall>t \<in> map_plans sample_map. \<exists>!r. r < c \<and>
         tm_PrUnrank 4 (\<lambda>v ts u. Inr (Plan v ts, u)) tm' (0 :: nat) r = Inr (tm', 0, t))"
    by (simp add: sample_height_def)
  with card show ?thesis by blast
qed

theorem treemap_count_unrank_witness:
  "\<exists>tm' c. tm_UllCount 4 sample_map = Inr (tm', c) \<and> unat c = 2 \<and>
     tm_PrUnrank 4 (\<lambda>v ts u. Inr (Plan v ts, u)) tm' () 1 = Inr (tm', (), Plan 10 [Plan 30 [], Plan 40 []])"
proof -
  let ?f = "\<lambda>v ts u. Inr (Plan v ts, u) :: (nat plan \<times> unit) result"
  have len: "length (all_plans sample_height sample_map) = 2" by code_simp
  have ne: "tm_map sample_map \<noteq> []" by code_simp
  have "\<exists>tm' c. tm_UllCount 4 sample_map = Inr (tm', c) \<and> unat c = length (all_plans sample_height sample_map) \<and>
    (\<forall>u r. unat r < length (all_plans sample_height sample_map) \<longrightarrow>
       tm_PrUnrank 4 ?f tm' u r =
         rbind (rehydrate ?f (all_plans sample_height sample_map ! unat r) u) (\<lambda>(pr, u'). Inr (tm', u', pr)))"
    by (rule treemap_count_unrank [OF sample_map_ok ne sample_height_ok _ sample_fits, where H = 3])
       (simp_all add: sample_height_def len)
  then obtain tm' c where tm': "tm_UllCount 4 sample_map = Inr (tm', c)" "unat c = 2"
      "\<And>r. unat r < 2 \<Longrightarrow> tm_PrUnrank 4 ?f tm' () r =
         rbind (rehydrate ?f (all_plans sample_height sample_map ! unat r) ()) (\<lambda>(pr, u'). Inr (tm', u', pr))"
    unfolding len by blast
  have "rehydrate ?f (all_plans sample_height sample_map ! 1) () = Inr (Plan 10 [Plan 30 [], Plan 40 []], ())"
    by code_simp
  with tm'(3) [of 1] have "tm_PrUnrank 4 ?f tm' () 1 = Inr (tm', (), Plan 10 [Plan 30 [], Plan 40 []])" by simp
  with tm'(1,2) show ?thesis by blast
qed

text \<open>
  C20: counting ends on every valid map, with cycles or without. With stack for one activation per
  node it returns a count, raises the overflow exception, or fails the assertion against cycles;
  it never runs out of stack.
\<close>

theorem treemap_count_ends:
  assumes "tm_ok eq tm" and "length (tm_nodes tm) < d"
  shows "tm_UllCount d tm = Inl OverflowExc \<or> tm_UllCount d tm = Inl AssertFailed \<or>
    (\<exists>tm' c. tm_UllCount d tm = Inr (tm', c))"
proof -
  obtain st where st: "hook_roots (tm_nodes tm) (map snd (tm_map tm)) = Inr st" "nodes_ok st"
      "length st = length (tm_nodes tm)"
    using hook_map_ok [OF assms(1)] by blast
  have "card (idle st) \<le> length st"
    using card_mono [of "{..<length st}" "idle st"] by (auto simp: idle_def)
  moreover have "0 < length st" using st(2) unfolding nodes_ok_def by blast
  ultimately have "outcome st (tn_UllCount d st 0)"
    using tn_UllCount_outcome [OF st(2), of 0 d] assms(2) st(3) by linarith
  then show ?thesis
    by (cases "tn_UllCount d st 0") (auto simp: tm_UllCount_def st(1))
qed

theorem treemap_count_ends_witness:
  "tm_UllCount 6 sample_map = Inl OverflowExc \<or> tm_UllCount 6 sample_map = Inl AssertFailed \<or>
    (\<exists>tm' c. tm_UllCount 6 sample_map = Inr (tm', c))"
proof -
  have "length (tm_nodes sample_map) < 6" by code_simp
  from treemap_count_ends [OF sample_map_ok this] show ?thesis .
qed

text \<open>
  C33: cycles that no logical root reaches are not detected. In every valid map with links in which
  each node has an incoming link, none is hooked to the global root, and its empty product counts one
  plan; unranking that plan, with whatever rehydrate function, then reads past the end of the root's
  positions.
\<close>

theorem treemap_cycle_undetected:
  fixes prfn :: "'a \<Rightarrow> 'r list \<Rightarrow> 'u \<Rightarrow> ('r \<times> 'u) result" and tm :: "'a CTreeMap"
  assumes "tm_ok eq tm" and "tm_map tm \<noteq> []" and "0 < d"
    and "\<And>c. 0 < c \<Longrightarrow> c < length (tm_nodes tm) \<Longrightarrow> \<exists>p i. linked (tm_nodes tm) p i c"
  shows "\<exists>tm'. tm_UllCount d tm = Inr (tm', 1) \<and> tm_PrUnrank d prfn tm' u 0 = Inl OutOfBounds"
proof -
  let ?st = "tm_nodes tm"
  note ok = tm_okD [OF assms(1)]
  obtain e where d: "d = Suc e" using assms(3) by (cases d) auto
  have len: "0 < length ?st" using ok(1) unfolding nodes_ok_def by blast
  have child: "is_child ?st c" if "0 < c" "c < length ?st" for c
    using assms(4) [OF that] unfolding linked_def is_child_def by (meson nth_mem)
  have hook: "hook_roots ?st (map snd (tm_map tm)) = Inr ?st"
    by (intro hook_none) (use child ok(8) in \<open>auto simp: ok(5)\<close>)
  have idle: "tn_ens (?st ! 0) = EnsUncounted" by (rule ok(4) [OF len])
  have root: "tn_ul (?st ! 0) = 0" using ok(1) len unfolding nodes_ok_def by blast
  let ?st' = "?st[0 := (?st ! 0)\<lparr>tn_ullCount := 1, tn_ens := EnsCounted\<rparr>]"
  have "tn_UllCount d ?st 0 = Inr (?st', 1)"
    using len ok(6) by (simp add: d idle tn_UllCount.simps)
  then have "tm_UllCount d tm = Inr (tm\<lparr>tm_nodes := ?st'\<rparr>, 1)"
    using assms(2) by (simp add: tm_UllCount_def hook)
  moreover have "tm_PrUnrank d prfn (tm\<lparr>tm_nodes := ?st'\<rparr>) u 0 = Inl OutOfBounds"
    using len ok(6) root by (simp add: tm_PrUnrank_def d child_PrUnrank_def child_UllCount_def)
  ultimately show ?thesis by blast
qed

text \<open>Two nodes that are each other's child.\<close>

definition cyclic_map :: "nat CTreeMap" where
  "cyclic_map = (case tm_inserts (=) CTreeMap_ctor [(1, 0, 2), (2, 0, 1)] of Inr tm \<Rightarrow> tm | Inl _ \<Rightarrow> CTreeMap_ctor)"

lemma cyclic_map_ok: "tm_ok (=) cyclic_map"
proof -
  have "\<exists>tm. tm_inserts (=) CTreeMap_ctor [(1 :: nat, 0, 2), (2, 0, 1)] = Inr tm \<and> tm_ok (=) tm"
    by (rule tm_inserts_ok [OF identity_equivp _ tm_ok_ctor]) (auto simp: CTreeMap_ctor_def)
  then show ?thesis by (auto simp: cyclic_map_def)
qed

theorem treemap_cycle_undetected_witness:
  "\<exists>tm'. tm_UllCount 9 cyclic_map = Inr (tm', 1) \<and>
     tm_PrUnrank 9 (\<lambda>v ts u. Inr (Plan v ts, u)) tm' (0 :: nat) 0 = Inl OutOfBounds"
proof -
  have ne: "tm_map cyclic_map \<noteq> []" by code_simp
  have "length (tm_nodes cyclic_map) = 3" and kids: "G_of (tm_nodes cyclic_map) 1 = [[2]]" "G_of (tm_nodes cyclic_map) 2 = [[1]]"
    by code_simp+
  have "\<exists>p i. linked (tm_nodes cyclic_map) p i c" if "0 < c" "c < length (tm_nodes cyclic_map)" for c
  proof -
    from that \<open>length (tm_nodes cyclic_map) = 3\<close> consider "c = 1" | "c = 2" by linarith
    then show ?thesis
    proof cases
      case 1
      then have "linked (tm_nodes cyclic_map) 2 0 c" using kids by (simp add: linked_def)
      then show ?thesis by blast
    next
      case 2
      then have "linked (tm_nodes cyclic_map) 1 0 c" using kids by (simp add: linked_def)
      then show ?thesis by blast
    qed
  qed
  from treemap_cycle_undetected [OF cyclic_map_ok ne _ this, of 9 "\<lambda>v ts u. Inr (Plan v ts, u)" "0 :: nat"]
  show ?thesis by auto
qed

end
