(* ===== verification/XformFactory.thy ===== *)
theory XformFactory
  imports Prelude
begin

text \<open>
  The factory of transformation rules, \<^verbatim>\<open>libgpopt/src/xforms/CXformFactory.cpp\<close>: an array of
  rules indexed by their id, a map from names to rules, and the sets of exploration and
  implementation rules. The built-in rules have the ids below \<^verbatim>\<open>ExfSentinel\<close>, dynamically
  registered rules the ids above it. A rule is the record of what the factory reads of it.
\<close>

section \<open>Definitions\<close>

text \<open>\<^verbatim>\<open>CXform::ExfSentinel\<close>, the number of built-in rules.\<close>

definition ExfSentinel :: nat where
  "ExfSentinel = 152"

record CXform =
  xfm_Exfid :: nat
  xfm_SzId :: string
  xfm_FExploration :: bool
  xfm_FImplementation :: bool

record CXformFactory =
  xf_rgpxf :: "CXform option list"
  xf_phmszxform :: "string \<rightharpoonup> CXform"
  xf_pxfsExploration :: "nat set"
  xf_pxfsImplementation :: "nat set"

definition CXformFactory_ctor :: CXformFactory where
  "CXformFactory_ctor = \<lparr>xf_rgpxf = replicate ExfSentinel None, xf_phmszxform = Map.empty,
     xf_pxfsExploration = {}, xf_pxfsImplementation = {}\<rparr>"

text \<open>The array part of \<^verbatim>\<open>Add\<close>: the assertion on the order of instantiation reads the preceding
  element, and a rule whose id is past the end of the array is appended, wherever the end is.\<close>

definition xf_store :: "CXform option list \<Rightarrow> CXform \<Rightarrow> CXform option list result" where
  "xf_store rg pxform =
     (let exfid = xfm_Exfid pxform;
          store = (if exfid \<ge> length rg then Inr (rg @ [Some pxform])
                   else gpos_assert (rg ! exfid = None) (Inr (rg[exfid := Some pxform])))
      in if 0 < exfid then
           if exfid - 1 < length rg
           then gpos_assert (rg ! (exfid - 1) \<noteq> None \<or> exfid - 1 = ExfSentinel) store
           else Inl OutOfBounds
         else store)"

definition xf_Add :: "CXformFactory \<Rightarrow> CXform \<Rightarrow> CXformFactory result" where
  "xf_Add fac pxform =
     rbind (xf_store (xf_rgpxf fac) pxform) (\<lambda>rg.
       gpos_assert (xf_phmszxform fac (xfm_SzId pxform) = None)
         (let exfid = xfm_Exfid pxform;
              fac1 = fac\<lparr>xf_rgpxf := rg, xf_phmszxform := (xf_phmszxform fac)(xfm_SzId pxform \<mapsto> pxform)\<rparr>
          in if xfm_FImplementation pxform
             then gpos_assert (\<not> xfm_FExploration pxform)
               (gpos_assert (exfid \<notin> xf_pxfsImplementation fac)
                  (Inr (fac1\<lparr>xf_pxfsImplementation := insert exfid (xf_pxfsImplementation fac)\<rparr>)))
             else gpos_assert (exfid \<notin> xf_pxfsExploration fac)
               (Inr (fac1\<lparr>xf_pxfsExploration := insert exfid (xf_pxfsExploration fac)\<rparr>))))"

text \<open>The body of \<^verbatim>\<open>Instantiate\<close> over the rules \<open>xs\<close>, in their order: then a NULL in the place of the
  sentinel. The rules themselves are in the theory \<open>XformRules\<close>.\<close>

fun xf_Add_all :: "CXformFactory \<Rightarrow> CXform list \<Rightarrow> CXformFactory result" where
  "xf_Add_all fac [] = Inr fac"
| "xf_Add_all fac (x # xs) = rbind (xf_Add fac x) (\<lambda>fac'. xf_Add_all fac' xs)"

definition xf_Instantiate :: "CXformFactory \<Rightarrow> CXform list \<Rightarrow> CXformFactory result" where
  "xf_Instantiate fac xs =
     rbind (xf_Add_all fac xs) (\<lambda>fac1.
       let rg = xf_rgpxf fac1 @ [None]
       in gpos_assert (rg ! (ExfSentinel - 1) \<noteq> None) (Inr (fac1\<lparr>xf_rgpxf := rg\<rparr>)))"

definition xf_Pxf :: "CXformFactory \<Rightarrow> nat \<Rightarrow> CXform result" where
  "xf_Pxf fac exfid =
     (if exfid < length (xf_rgpxf fac)
      then case xf_rgpxf fac ! exfid of
             None \<Rightarrow> Inl NullDeref
           | Some pxf \<Rightarrow> gpos_assert (xfm_Exfid pxf = exfid) (Inr pxf)
      else Inl OutOfBounds)"

definition xf_Pxf_name :: "CXformFactory \<Rightarrow> string \<Rightarrow> CXform option" where
  "xf_Pxf_name fac szXformName = xf_phmszxform fac szXformName"

section \<open>The invariant\<close>

text \<open>Every rule is at the index of its id and under its name; the two sets hold the ids by kind.\<close>

definition stored :: "CXformFactory \<Rightarrow> CXform \<Rightarrow> bool" where
  "stored fac x \<longleftrightarrow> Some x \<in> set (xf_rgpxf fac)"

definition factory_ok :: "CXformFactory \<Rightarrow> bool" where
  "factory_ok fac \<longleftrightarrow>
     (\<forall>i < length (xf_rgpxf fac). \<forall>x. xf_rgpxf fac ! i = Some x \<longrightarrow> xfm_Exfid x = i) \<and>
     (\<forall>n x. xf_phmszxform fac n = Some x \<longleftrightarrow> stored fac x \<and> xfm_SzId x = n) \<and>
     xf_pxfsImplementation fac = {xfm_Exfid x | x. stored fac x \<and> xfm_FImplementation x} \<and>
     xf_pxfsExploration fac = {xfm_Exfid x | x. stored fac x \<and> \<not> xfm_FImplementation x}"

lemma factory_okI:
  assumes "\<And>i x. i < length (xf_rgpxf fac) \<Longrightarrow> xf_rgpxf fac ! i = Some x \<Longrightarrow> xfm_Exfid x = i"
    and "\<And>n x. xf_phmszxform fac n = Some x \<longleftrightarrow> stored fac x \<and> xfm_SzId x = n"
    and "xf_pxfsImplementation fac = {xfm_Exfid x | x. stored fac x \<and> xfm_FImplementation x}"
    and "xf_pxfsExploration fac = {xfm_Exfid x | x. stored fac x \<and> \<not> xfm_FImplementation x}"
  shows "factory_ok fac"
  unfolding factory_ok_def by (intro conjI allI impI assms)

lemma factory_ok_index:
  assumes "factory_ok fac" and "i < length (xf_rgpxf fac)" and "xf_rgpxf fac ! i = Some x"
  shows "xfm_Exfid x = i"
  using conjunct1 [OF assms(1) [unfolded factory_ok_def]] assms(2,3) by simp

lemma factory_ok_name:
  assumes "factory_ok fac"
  shows "xf_phmszxform fac n = Some x \<longleftrightarrow> stored fac x \<and> xfm_SzId x = n"
  using conjunct1 [OF conjunct2 [OF assms(1) [unfolded factory_ok_def]]] by (elim allE)

lemma factory_ok_sets:
  assumes "factory_ok fac"
  shows "xf_pxfsImplementation fac = {xfm_Exfid x | x. stored fac x \<and> xfm_FImplementation x}"
    and "xf_pxfsExploration fac = {xfm_Exfid x | x. stored fac x \<and> \<not> xfm_FImplementation x}"
  using conjunct2 [OF conjunct2 [OF assms(1) [unfolded factory_ok_def]]] by (rule conjunct1, rule conjunct2)

lemma factory_ok_ctor: "factory_ok CXformFactory_ctor"
  by (simp add: factory_ok_def CXformFactory_ctor_def stored_def)

text \<open>Where a rule may be added: at its own free index, next to an earlier rule or to the sentinel.\<close>

definition can_add :: "CXformFactory \<Rightarrow> CXform \<Rightarrow> bool" where
  "can_add fac x \<longleftrightarrow> (let i = xfm_Exfid x; rg = xf_rgpxf fac in
     i \<le> length rg \<and> (i < length rg \<longrightarrow> rg ! i = None) \<and>
     (0 < i \<longrightarrow> i - 1 < length rg \<and> (rg ! (i - 1) \<noteq> None \<or> i - 1 = ExfSentinel)) \<and>
     xf_phmszxform fac (xfm_SzId x) = None \<and> (xfm_FImplementation x \<longrightarrow> \<not> xfm_FExploration x))"

definition put :: "CXform option list \<Rightarrow> CXform \<Rightarrow> CXform option list" where
  "put rg x = (if xfm_Exfid x < length rg then rg[xfm_Exfid x := Some x] else rg @ [Some x])"

lemma xf_store_put: "can_add fac x \<Longrightarrow> xf_store (xf_rgpxf fac) x = Inr (put (xf_rgpxf fac) x)"
  by (auto simp: can_add_def Let_def xf_store_def put_def)

lemma set_put:
  assumes "can_add fac x"
  shows "Some y \<in> set (put (xf_rgpxf fac) x) \<longleftrightarrow> Some y \<in> set (xf_rgpxf fac) \<or> y = x"
proof (cases "xfm_Exfid x < length (xf_rgpxf fac)")
  case True
  then have free: "xf_rgpxf fac ! xfm_Exfid x = None" using assms by (simp add: can_add_def Let_def)
  have "Some y \<in> set (xf_rgpxf fac) \<Longrightarrow> Some y \<in> set ((xf_rgpxf fac)[xfm_Exfid x := Some x])"
    by (metis free in_set_conv_nth length_list_update nth_list_update_neq option.distinct(1))
  then show ?thesis
    using True by (auto simp: put_def dest!: set_update_subset_insert [THEN subsetD] intro: set_update_memI)
qed (auto simp: put_def)

lemma nth_put:
  assumes "can_add fac x" and "i < length (put (xf_rgpxf fac) x)"
  shows "put (xf_rgpxf fac) x ! i = (if i = xfm_Exfid x then Some x else xf_rgpxf fac ! i)"
  using assms by (auto simp: put_def can_add_def Let_def nth_append less_Suc_eq split: if_splits)

lemma length_put:
  "can_add fac x \<Longrightarrow> xfm_Exfid x < length (put (xf_rgpxf fac) x) \<and> length (xf_rgpxf fac) \<le> length (put (xf_rgpxf fac) x)"
  by (auto simp: put_def can_add_def Let_def)

lemma fresh_id:
  assumes "factory_ok fac" and "can_add fac x" and "stored fac y"
  shows "xfm_Exfid y \<noteq> xfm_Exfid x"
proof
  assume eq: "xfm_Exfid y = xfm_Exfid x"
  obtain i where i: "i < length (xf_rgpxf fac)" "xf_rgpxf fac ! i = Some y"
    using assms(3) by (auto simp: stored_def in_set_conv_nth)
  then have "xfm_Exfid y = i" by (rule factory_ok_index [OF assms(1)])
  then show False using assms(2) i eq by (simp add: can_add_def Let_def)
qed

lemma put_index:
  assumes "factory_ok fac" and "can_add fac x" and "i < length (put (xf_rgpxf fac) x)" and "put (xf_rgpxf fac) x ! i = Some y"
  shows "xfm_Exfid y = i"
proof (cases "i = xfm_Exfid x")
  case True
  then show ?thesis using nth_put [OF assms(2,3)] assms(4) by simp
next
  case False
  then have "i < length (xf_rgpxf fac)"
    using assms(2,3) by (auto simp: put_def can_add_def Let_def split: if_splits)
  moreover have "xf_rgpxf fac ! i = Some y" using nth_put [OF assms(2,3)] assms(4) False by simp
  ultimately show ?thesis by (rule factory_ok_index [OF assms(1)])
qed

text \<open>Adding a rule keeps the invariant and changes nothing for the other rules.\<close>

lemma xf_Add_correct:
  assumes "factory_ok fac" and "can_add fac x"
  shows "\<exists>fac'. xf_Add fac x = Inr fac' \<and> factory_ok fac' \<and> xf_rgpxf fac' = put (xf_rgpxf fac) x \<and>
    xf_phmszxform fac' = (xf_phmszxform fac)(xfm_SzId x \<mapsto> x)"
proof -
  let ?names = "(xf_phmszxform fac)(xfm_SzId x \<mapsto> x)"
  define fac' where "fac' = fac\<lparr>xf_rgpxf := put (xf_rgpxf fac) x, xf_phmszxform := ?names,
    xf_pxfsImplementation := (if xfm_FImplementation x then insert (xfm_Exfid x) (xf_pxfsImplementation fac) else xf_pxfsImplementation fac),
    xf_pxfsExploration := (if xfm_FImplementation x then xf_pxfsExploration fac else insert (xfm_Exfid x) (xf_pxfsExploration fac))\<rparr>"
  note names = factory_ok_name [OF assms(1)] and sets_eq = factory_ok_sets [OF assms(1)]
  have free: "xf_phmszxform fac (xfm_SzId x) = None" "xfm_FImplementation x \<longrightarrow> \<not> xfm_FExploration x"
    using assms(2) by (simp_all add: can_add_def Let_def)
  have fresh: "xfm_Exfid x \<notin> xf_pxfsImplementation fac" "xfm_Exfid x \<notin> xf_pxfsExploration fac"
    unfolding sets_eq using fresh_id [OF assms, THEN not_sym] by blast+
  have add: "xf_Add fac x = Inr fac'"
    using free fresh by (simp add: xf_Add_def xf_store_put [OF assms(2)] fac'_def)
  have st: "stored fac' y \<longleftrightarrow> stored fac y \<or> y = x" for y
    using set_put [OF assms(2)] by (simp add: stored_def fac'_def)
  have rg: "xf_rgpxf fac' = put (xf_rgpxf fac) x" by (simp add: fac'_def)
  have nm: "xf_phmszxform fac' n = Some y \<longleftrightarrow> stored fac' y \<and> xfm_SzId y = n" for n y
  proof (cases "n = xfm_SzId x")
    case True
    have "\<not> (stored fac y \<and> xfm_SzId y = xfm_SzId x)" using names [of "xfm_SzId x" y] free(1) by simp
    then show ?thesis unfolding st by (auto simp: fac'_def True)
  next
    case False
    then show ?thesis unfolding st using names [of n y] by (auto simp: fac'_def)
  qed
  have im: "xf_pxfsImplementation fac' = {xfm_Exfid x | x. stored fac' x \<and> xfm_FImplementation x}"
    unfolding st by (simp add: fac'_def sets_eq) blast
  have ex: "xf_pxfsExploration fac' = {xfm_Exfid x | x. stored fac' x \<and> \<not> xfm_FImplementation x}"
    unfolding st by (simp add: fac'_def sets_eq) blast
  have "factory_ok fac'"
    by (rule factory_okI) (use put_index [OF assms] nm im ex in \<open>simp_all only: rg\<close>)
  with add show ?thesis by (simp add: fac'_def)
qed

lemma xf_Pxf_added:
  assumes "can_add fac x" and "xf_rgpxf fac' = put (xf_rgpxf fac) x"
  shows "xf_Pxf fac' (xfm_Exfid x) = Inr x"
    and "i < length (xf_rgpxf fac) \<Longrightarrow> i \<noteq> xfm_Exfid x \<Longrightarrow> xf_Pxf fac' i = xf_Pxf fac i"
  using length_put [OF assms(1)] nth_put [OF assms(1)] assms(2) by (auto simp: xf_Pxf_def)

section \<open>The built-in rules\<close>

definition filled :: "CXformFactory \<Rightarrow> nat \<Rightarrow> bool" where
  "filled fac k \<longleftrightarrow> length (xf_rgpxf fac) = ExfSentinel \<and> (\<forall>i < ExfSentinel. xf_rgpxf fac ! i \<noteq> None \<longleftrightarrow> i < k)"

lemma xf_Add_all_correct:
  assumes "factory_ok fac" and "filled fac k" and "map xfm_Exfid xs = [k..<k + length xs]" and "k + length xs \<le> ExfSentinel"
    and "distinct (map xfm_SzId xs)" and "\<And>x. x \<in> set xs \<Longrightarrow> xf_phmszxform fac (xfm_SzId x) = None"
    and "\<And>x. x \<in> set xs \<Longrightarrow> xfm_FImplementation x \<longrightarrow> \<not> xfm_FExploration x"
  shows "\<exists>fac'. xf_Add_all fac xs = Inr fac' \<and> factory_ok fac' \<and> filled fac' (k + length xs) \<and>
    (\<forall>y. stored fac' y \<longleftrightarrow> stored fac y \<or> y \<in> set xs)"
  using assms
proof (induction xs arbitrary: fac k)
  case (Cons x xs)
  have idx: "xfm_Exfid x = k" "map xfm_Exfid xs = [Suc k..<Suc k + length xs]"
    using Cons.prems(3) unfolding list.size add_Suc_right list.map
    by (simp_all add: upt_conv_Cons del: upt_Suc)
  have k: "k < ExfSentinel" using Cons.prems(4) by simp
  have len: "length (xf_rgpxf fac) = ExfSentinel" and fil: "xf_rgpxf fac ! i \<noteq> None \<longleftrightarrow> i < k" if "i < ExfSentinel" for i
    using Cons.prems(2) that unfolding filled_def by blast+
  have "xf_rgpxf fac ! k = None" using fil [OF k] by blast
  moreover have "0 < k \<Longrightarrow> xf_rgpxf fac ! (k - 1) \<noteq> None" using fil [of "k - 1"] k by linarith
  moreover have "k - 1 < ExfSentinel" using k by simp
  ultimately have add: "can_add fac x"
    using Cons.prems(6,7) [of x] k len [OF k] unfolding can_add_def Let_def idx(1) by simp
  obtain fac1 where f1: "xf_Add fac x = Inr fac1" "factory_ok fac1" "xf_rgpxf fac1 = put (xf_rgpxf fac) x"
      "xf_phmszxform fac1 = (xf_phmszxform fac)(xfm_SzId x \<mapsto> x)"
    using xf_Add_correct [OF Cons.prems(1) add] by blast
  have fill: "filled fac1 (Suc k)"
    using Cons.prems(2,4) by (auto simp: filled_def f1(3) put_def idx(1) nth_list_update)
  have "\<exists>fac'. xf_Add_all fac1 xs = Inr fac' \<and> factory_ok fac' \<and> filled fac' (Suc k + length xs) \<and>
      (\<forall>y. stored fac' y \<longleftrightarrow> stored fac1 y \<or> y \<in> set xs)"
  proof (rule Cons.IH [OF f1(2) fill idx(2)])
    show "xf_phmszxform fac1 (xfm_SzId y) = None" if "y \<in> set xs" for y
    proof -
      have "xfm_SzId y \<noteq> xfm_SzId x" using Cons.prems(5) that by (metis distinct.simps(2) image_eqI list.simps(9) set_map)
      then show ?thesis using Cons.prems(6) [of y] that by (simp add: f1(4))
    qed
  qed (use Cons.prems(4,5,7) in auto)
  moreover have "stored fac1 y \<longleftrightarrow> stored fac y \<or> y = x" for y
    using set_put [OF add] by (simp add: stored_def f1(3))
  ultimately show ?case using f1(1) by auto
qed auto

lemma stored_Pxf:
  assumes "factory_ok fac" and "stored fac x"
  shows "xf_Pxf fac (xfm_Exfid x) = Inr x"
proof -
  obtain i where i: "i < length (xf_rgpxf fac)" "xf_rgpxf fac ! i = Some x"
    using assms(2) unfolding stored_def in_set_conv_nth by blast
  then have "xfm_Exfid x = i" by (rule factory_ok_index [OF assms(1)])
  then show ?thesis using i by (simp add: xf_Pxf_def)
qed

lemma factory_ok_sentinel: "factory_ok fac \<Longrightarrow> factory_ok (fac\<lparr>xf_rgpxf := xf_rgpxf fac @ [None]\<rparr>)"
proof -
  assume ok: "factory_ok fac"
  have st: "stored (fac\<lparr>xf_rgpxf := xf_rgpxf fac @ [None]\<rparr>) x \<longleftrightarrow> stored fac x" for x
    by (simp add: stored_def)
  have ix: "xfm_Exfid x = i" if i: "i < length (xf_rgpxf fac @ [None])" "(xf_rgpxf fac @ [None]) ! i = Some x" for i x
  proof -
    have lt: "i < length (xf_rgpxf fac)" using i by (cases "i = length (xf_rgpxf fac)") auto
    then have "xf_rgpxf fac ! i = Some x" using i(2) by (simp add: nth_append)
    then show ?thesis by (rule factory_ok_index [OF ok lt])
  qed
  have "xf_rgpxf (fac\<lparr>xf_rgpxf := xf_rgpxf fac @ [None]\<rparr>) = xf_rgpxf fac @ [None]"
    "xf_phmszxform (fac\<lparr>xf_rgpxf := xf_rgpxf fac @ [None]\<rparr>) = xf_phmszxform fac"
    "xf_pxfsImplementation (fac\<lparr>xf_rgpxf := xf_rgpxf fac @ [None]\<rparr>) = xf_pxfsImplementation fac"
    "xf_pxfsExploration (fac\<lparr>xf_rgpxf := xf_rgpxf fac @ [None]\<rparr>) = xf_pxfsExploration fac"
    by simp_all
  note fields = this
  show ?thesis
    by (rule factory_okI; (unfold st)?; (unfold fields)?)
       (erule (1) ix, rule factory_ok_name [OF ok], rule factory_ok_sets [OF ok], rule factory_ok_sets [OF ok])
qed

lemma xf_Instantiate_ok:
  assumes "map xfm_Exfid xs = [0..<ExfSentinel]" and "distinct (map xfm_SzId xs)"
    and "\<And>x. x \<in> set xs \<Longrightarrow> xfm_FImplementation x \<longrightarrow> \<not> xfm_FExploration x"
  obtains fac where "xf_Instantiate CXformFactory_ctor xs = Inr fac" and "factory_ok fac"
    and "length (xf_rgpxf fac) = ExfSentinel + 1" and "\<forall>x. stored fac x \<longleftrightarrow> x \<in> set xs"
proof -
  have len: "length xs = ExfSentinel" using arg_cong [OF assms(1), of length] by simp
  have "\<exists>fac. xf_Add_all CXformFactory_ctor xs = Inr fac \<and> factory_ok fac \<and> filled fac (0 + length xs) \<and>
      (\<forall>y. stored fac y \<longleftrightarrow> stored CXformFactory_ctor y \<or> y \<in> set xs)"
    by (rule xf_Add_all_correct [OF factory_ok_ctor])
       (use assms len in \<open>auto simp: filled_def CXformFactory_ctor_def\<close>)
  then obtain fac where fac: "xf_Add_all CXformFactory_ctor xs = Inr fac" "factory_ok fac" "filled fac ExfSentinel"
      "\<And>y. stored fac y \<longleftrightarrow> y \<in> set xs"
    by (auto simp: len stored_def CXformFactory_ctor_def)
  have "xf_Instantiate CXformFactory_ctor xs = Inr (fac\<lparr>xf_rgpxf := xf_rgpxf fac @ [None]\<rparr>)"
    using fac(1,3) by (auto simp: xf_Instantiate_def filled_def nth_append ExfSentinel_def)
  then show thesis
    by (rule that [OF _ factory_ok_sentinel [OF fac(2)]]) (use fac(3,4) in \<open>simp_all add: filled_def stored_def\<close>)
qed

end
