(* ===== verification/XformRules.thy ===== *)
theory XformRules
  imports XformFactory
begin

text \<open>
  The built-in transformation rules, in the order in which \<^verbatim>\<open>CXformFactory::Instantiate\<close> adds them: the
  id and the name that the class of each rule answers (\<^verbatim>\<open>Exfid\<close> and \<^verbatim>\<open>SzId\<close> in the headers of
  \<^verbatim>\<open>gpopt/xforms\<close>), and whether it is an implementation rule; all others are exploration rules.
\<close>

section \<open>Definitions\<close>

definition builtin_table :: "(nat \<times> string \<times> bool) list" where
  "builtin_table = [
     (0, ''CXformProject2ComputeScalar'', True), (1, ''CXformExpandNAryJoin'', False),
     (2, ''CXformExpandNAryJoinMinCard'', False), (3, ''CXformExpandNAryJoinDP'', False),
     (4, ''CXformGet2TableScan'', True), (5, ''CXformIndexGet2IndexScan'', True),
     (6, ''CXformDynamicGet2DynamicTableScan'', True), (7, ''CXformDynamicIndexGet2DynamicIndexScan'', True),
     (8, ''CXformImplementSequence'', True), (9, ''CXformImplementConstTableGet'', True),
     (10, ''CXformUnnestTVF'', False), (11, ''CXformImplementTVF'', True), (12, ''CXformImplementTVFNoArgs'', True),
     (13, ''CXformSelect2Filter'', True), (14, ''CXformSelect2IndexGet'', False),
     (15, ''CXformSelect2DynamicIndexGet'', False), (16, ''CXformSelect2PartialDynamicIndexGet'', False),
     (17, ''CXformSimplifySelectWithSubquery'', False), (18, ''CXformSimplifyProjectWithSubquery'', False),
     (19, ''CXformSelect2Apply'', False), (20, ''CXformProject2Apply'', False), (21, ''CXformGbAgg2Apply'', False),
     (22, ''CXformSubqJoin2Apply'', False), (23, ''CXformSubqNAryJoin2Apply'', False),
     (24, ''CXformInnerJoin2IndexGetApply'', False), (25, ''CXformInnerJoin2DynamicIndexGetApply'', False),
     (26, ''CXformInnerApplyWithOuterKey2InnerJoin'', False), (27, ''CXformInnerJoin2NLJoin'', True),
     (28, ''CXformImplementIndexApply'', True), (29, ''CXformInnerJoin2HashJoin'', True),
     (30, ''CXformInnerApply2InnerJoin'', False), (31, ''CXformInnerApply2InnerJoinNoCorrelations'', False),
     (32, ''CXformImplementInnerCorrelatedApply'', True), (33, ''CXformLeftOuterApply2LeftOuterJoin'', False),
     (34, ''CXformLeftOuterApply2LeftOuterJoinNoCorrelations'', False),
     (35, ''CXformImplementLeftOuterCorrelatedApply'', True), (36, ''CXformLeftSemiApply2LeftSemiJoin'', False),
     (37, ''CXformLeftSemiApplyWithExternalCorrs2InnerJoin'', False),
     (38, ''CXformLeftSemiApply2LeftSemiJoinNoCorrelations'', False),
     (39, ''CXformLeftAntiSemiApply2LeftAntiSemiJoin'', False),
     (40, ''CXformLeftAntiSemiApply2LeftAntiSemiJoinNoCorrelations'', False),
     (41, ''CXformLeftAntiSemiApplyNotIn2LeftAntiSemiJoinNotIn'', False),
     (42, ''CXformLeftAntiSemiApplyNotIn2LeftAntiSemiJoinNotInNoCorrelations'', False),
     (43, ''CXformPushDownLeftOuterJoin'', False), (44, ''CXformSimplifyLeftOuterJoin'', False),
     (45, ''CXformLeftOuterJoin2NLJoin'', True), (46, ''CXformLeftOuterJoin2HashJoin'', True),
     (47, ''CXformLeftSemiJoin2NLJoin'', True), (48, ''CXformLeftSemiJoin2HashJoin'', True),
     (49, ''CXformLeftAntiSemiJoin2CrossProduct'', False), (50, ''CXformLeftAntiSemiJoinNotIn2CrossProduct'', False),
     (51, ''CXformLeftAntiSemiJoin2NLJoin'', True), (52, ''CXformLeftAntiSemiJoinNotIn2NLJoinNotIn'', True),
     (53, ''CXformLeftAntiSemiJoin2HashJoin'', True), (54, ''CXformLeftAntiSemiJoinNotIn2HashJoinNotIn'', True),
     (55, ''CXformGbAgg2HashAgg'', True), (56, ''CXformGbAgg2StreamAgg'', True), (57, ''CXformGbAgg2ScalarAgg'', True),
     (58, ''CXformGbAggDedup2HashAggDedup'', True), (59, ''CXformGbAggDedup2StreamAggDedup'', True),
     (60, ''CXformImplementLimit'', True), (61, ''CXformIntersectAll2LeftSemiJoin'', False),
     (62, ''CXformIntersect2Join'', False), (63, ''CXformDifference2LeftAntiSemiJoin'', False),
     (64, ''CXformDifferenceAll2LeftAntiSemiJoin'', False), (65, ''CXformUnion2UnionAll'', False),
     (66, ''CXformImplementUnionAll'', True), (67, ''CXformInsert2DML'', False), (68, ''CXformDelete2DML'', False),
     (69, ''CXformUpdate2DML'', False), (70, ''CXformImplementDML'', True), (71, ''CXformImplementRowTrigger'', True),
     (72, ''CXformImplementSplit'', True), (73, ''CXformJoinCommutativity'', False),
     (74, ''CXformJoinAssociativity'', False), (75, ''CXformSemiJoinSemiJoinSwap'', False),
     (76, ''CXformSemiJoinAntiSemiJoinSwap'', False), (77, ''CXformSemiJoinAntiSemiJoinNotInSwap'', False),
     (78, ''CXformSemiJoinInnerJoinSwap'', False), (79, ''CXformAntiSemiJoinAntiSemiJoinSwap'', False),
     (80, ''CXformAntiSemiJoinAntiSemiJoinNotInSwap'', False), (81, ''CXformAntiSemiJoinSemiJoinSwap'', False),
     (82, ''CXformAntiSemiJoinInnerJoinSwap'', False), (83, ''CXformAntiSemiJoinNotInAntiSemiJoinSwap'', False),
     (84, ''CXformAntiSemiJoinNotInAntiSemiJoinNotInSwap'', False),
     (85, ''CXformAntiSemiJoinNotInSemiJoinSwap'', False), (86, ''CXformAntiSemiJoinNotInInnerJoinSwap'', False),
     (87, ''CXformInnerJoinSemiJoinSwap'', False), (88, ''CXformInnerJoinAntiSemiJoinSwap'', False),
     (89, ''CXformInnerJoinAntiSemiJoinNotInSwap'', False), (90, ''CXformLeftSemiJoin2InnerJoin'', False),
     (91, ''CXformLeftSemiJoin2InnerJoinUnderGb'', False), (92, ''CXformLeftSemiJoin2CrossProduct'', False),
     (93, ''CXformSplitLimit'', False), (94, ''CXformSimplifyGbAgg'', False), (95, ''CXformCollapseGbAgg'', False),
     (96, ''CXformPushGbBelowJoin'', False), (97, ''CXformPushGbDedupBelowJoin'', False),
     (98, ''CXformPushGbWithHavingBelowJoin'', False), (99, ''CXformPushGbBelowUnion'', False),
     (100, ''CXformPushGbBelowUnionAll'', False), (101, ''CXformSplitGbAgg'', False),
     (102, ''CXformSplitGbAggDedup'', False), (103, ''CXformSplitDQA'', False),
     (104, ''CXformSequenceProject2Apply'', False), (105, ''CXformImplementSequenceProject'', True),
     (106, ''CXformImplementAssert'', True), (107, ''CXformCTEAnchor2Sequence'', False),
     (108, ''CXformCTEAnchor2TrivialSelect'', False), (109, ''CXformInlineCTEConsumer'', False),
     (110, ''CXformInlineCTEConsumerUnderSelect'', False), (111, ''CXformImplementCTEProducer'', True),
     (112, ''CXformImplementCTEConsumer'', True), (113, ''CXformExpandFullOuterJoin'', False),
     (114, ''CXformExternalGet2ExternalScan'', True), (115, ''CXformSelect2BitmapBoolOp'', False),
     (116, ''CXformSelect2DynamicBitmapBoolOp'', False), (117, ''CXformImplementBitmapTableGet'', True),
     (118, ''CXformImplementDynamicBitmapTableGet'', True),
     (119, ''CXformInnerJoin2PartialDynamicIndexGetApply'', False),
     (120, ''CXformLeftOuter2InnerUnionAllLeftAntiSemiJoin'', False),
     (121, ''CXformImplementLeftSemiCorrelatedApply'', True),
     (122, ''CXformImplementLeftSemiCorrelatedApplyIn'', True),
     (123, ''CXformImplementLeftAntiSemiCorrelatedApply'', True),
     (124, ''CXformImplementLeftAntiSemiCorrelatedApplyNotIn'', True),
     (125, ''CXformLeftSemiApplyIn2LeftSemiJoin'', False),
     (126, ''CXformLeftSemiApplyInWithExternalCorrs2InnerJoin'', False),
     (127, ''CXformLeftSemiApplyIn2LeftSemiJoinNoCorrelations'', False),
     (128, ''CXformInnerJoin2BitmapIndexGetApply'', False), (129, ''CXformImplementPartitionSelector'', True),
     (130, ''CXformMaxOneRow2Assert'', False), (131, ''CXformInnerJoinWithInnerSelect2IndexGetApply'', False),
     (132, ''CXformInnerJoinWithInnerSelect2DynamicIndexGetApply'', False),
     (133, ''CXformInnerJoinWithInnerSelect2PartialDynamicIndexGetApply'', False),
     (134, ''CXformInnerJoin2DynamicBitmapIndexGetApply'', False),
     (135, ''CXformInnerJoinWithInnerSelect2BitmapIndexGetApply'', False),
     (136, ''CXformInnerJoinWithInnerSelect2DynamicBitmapIndexGetApply'', False),
     (137, ''CXformGbAggWithMDQA2Join'', False), (138, ''CXformCollapseProject'', False),
     (139, ''CXformRemoveSubqDistinct'', False), (140, ''CXformLeftOuterJoin2BitmapIndexGetApply'', False),
     (141, ''CXformLeftOuterJoin2IndexGetApply'', False),
     (142, ''CXformLeftOuterJoinWithInnerSelect2BitmapIndexGetApply'', False),
     (143, ''CXformLeftOuterJoinWithInnerSelect2IndexGetApply'', False), (144, ''CXformExpandNAryJoinGreedy'', False),
     (145, ''CXformEagerAgg'', False), (146, ''CXformExpandNAryJoinDPv2'', False),
     (147, ''CXformImplementFullOuterMergeJoin'', False),
     (148, ''CXformLeftOuterJoin2DynamicBitmapIndexGetApply'', False),
     (149, ''CXformLeftOuterJoin2DynamicIndexGetApply'', False),
     (150, ''CXformLeftOuterJoinWithInnerSelect2DynamicBitmapIndexGetApply'', False),
     (151, ''CXformLeftOuterJoinWithInnerSelect2DynamicIndexGetApply'', False)]"

definition builtin_rules :: "CXform list" where
  "builtin_rules = map (\<lambda>(i, name, impl). \<lparr>xfm_Exfid = i, xfm_SzId = name, xfm_FExploration = \<not> impl,
     xfm_FImplementation = impl\<rparr>) builtin_table"

definition CXformFactory_Instantiate :: "CXformFactory \<Rightarrow> CXformFactory result" where
  "CXformFactory_Instantiate fac = xf_Instantiate fac builtin_rules"

section \<open>The table is well-formed\<close>

lemma builtin_ids: "map xfm_Exfid builtin_rules = [0..<ExfSentinel]"
  by (simp add: builtin_rules_def builtin_table_def ExfSentinel_def upt_conv_Cons)

lemma builtin_kinds: "x \<in> set builtin_rules \<Longrightarrow> xfm_FImplementation x \<longrightarrow> \<not> xfm_FExploration x"
  by (auto simp: builtin_rules_def)

text \<open>The names differ because their weighted sums of characters do.\<close>

fun name_weight :: "int \<Rightarrow> string \<Rightarrow> int" where
  "name_weight k [] = 0"
| "name_weight k (c # cs) = k * of_char c + name_weight (k + 1) cs"

lemma builtin_weights: "distinct (map (\<lambda>row. name_weight 1 (fst (snd row))) builtin_table)"
  by code_simp

lemma builtin_names: "distinct (map xfm_SzId builtin_rules)"
proof -
  have "distinct (map (name_weight 1) (map xfm_SzId builtin_rules))"
    using builtin_weights by (simp add: builtin_rules_def comp_def case_prod_beta)
  then show ?thesis by (simp only: distinct_map)
qed

lemma builtin_initials: "n \<in> xfm_SzId ` set builtin_rules \<Longrightarrow> hd n = CHR ''C''"
proof -
  have "list_all (\<lambda>row. hd (fst (snd row)) = CHR ''C'') builtin_table" by code_simp
  then show "n \<in> xfm_SzId ` set builtin_rules \<Longrightarrow> hd n = CHR ''C''"
    by (auto simp: builtin_rules_def list_all_iff)
qed

lemma Instantiate_ok:
  obtains fac where "CXformFactory_Instantiate CXformFactory_ctor = Inr fac" and "factory_ok fac"
    and "length (xf_rgpxf fac) = ExfSentinel + 1" and "\<forall>x. stored fac x \<longleftrightarrow> x \<in> set builtin_rules"
  unfolding CXformFactory_Instantiate_def by (rule xf_Instantiate_ok [OF builtin_ids builtin_names builtin_kinds])

section \<open>Properties\<close>

text \<open>
  C22: \<^verbatim>\<open>Instantiate\<close> on a new factory adds all built-in rules without violating an assertion: they come
  in the order of their ids, and no two have the same name. Every rule is then found under its id
  and under its name, no other id below the sentinel is left empty, the sets of exploration and
  implementation rules split the ids between them, and the array ends with the place of the
  sentinel, so that the next free index is the first dynamic id.
\<close>

theorem factory_instantiated:
  "\<exists>fac. CXformFactory_Instantiate CXformFactory_ctor = Inr fac \<and> length (xf_rgpxf fac) = ExfSentinel + 1 \<and>
    (\<forall>x \<in> set builtin_rules. xf_Pxf fac (xfm_Exfid x) = Inr x \<and> xf_Pxf_name fac (xfm_SzId x) = Some x) \<and>
    (\<forall>i < ExfSentinel. \<exists>x. xf_Pxf fac i = Inr x) \<and>
    xf_pxfsExploration fac \<union> xf_pxfsImplementation fac = {..<ExfSentinel} \<and>
    xf_pxfsExploration fac \<inter> xf_pxfsImplementation fac = {}"
proof -
  obtain fac where fac: "CXformFactory_Instantiate CXformFactory_ctor = Inr fac" "factory_ok fac"
      "length (xf_rgpxf fac) = ExfSentinel + 1" "\<forall>x. stored fac x \<longleftrightarrow> x \<in> set builtin_rules"
    by (rule Instantiate_ok)
  have found: "xf_Pxf fac (xfm_Exfid x) = Inr x \<and> xf_Pxf_name fac (xfm_SzId x) = Some x" if "x \<in> set builtin_rules" for x
    using stored_Pxf [OF fac(2), of x] factory_ok_name [OF fac(2)] fac(4) that unfolding xf_Pxf_name_def by blast
  have ids: "xfm_Exfid ` set builtin_rules = {..<ExfSentinel}"
    using arg_cong [OF builtin_ids, of set] by (simp add: atLeast0LessThan)
  have "\<exists>x. xf_Pxf fac i = Inr x" if "i < ExfSentinel" for i
  proof -
    have "i \<in> xfm_Exfid ` set builtin_rules" using that ids by simp
    then show ?thesis using found by blast
  qed
  moreover have "xf_pxfsExploration fac \<union> xf_pxfsImplementation fac = {..<ExfSentinel}"
    unfolding factory_ok_sets [OF fac(2)] ids [symmetric] using fac(4) by blast
  moreover have "xf_pxfsExploration fac \<inter> xf_pxfsImplementation fac = {}"
  proof -
    have "inj_on xfm_Exfid (set builtin_rules)" using builtin_ids by (metis distinct_map distinct_upt)
    then show ?thesis unfolding factory_ok_sets [OF fac(2)] using fac(4) by (auto dest: inj_onD)
  qed
  ultimately show ?thesis using fac(1,3) found by blast
qed

theorem factory_instantiated_witness:
  "\<exists>fac x. CXformFactory_Instantiate CXformFactory_ctor = Inr fac \<and> xf_Pxf fac 4 = Inr x \<and>
     xfm_SzId x = ''CXformGet2TableScan'' \<and> xf_Pxf_name fac ''CXformGet2TableScan'' = Some x"
proof -
  define x where "x = \<lparr>xfm_Exfid = 4, xfm_SzId = ''CXformGet2TableScan'', xfm_FExploration = False, xfm_FImplementation = True\<rparr>"
  have x: "x \<in> set builtin_rules" by (simp add: x_def builtin_rules_def builtin_table_def)
  obtain fac where fac: "CXformFactory_Instantiate CXformFactory_ctor = Inr fac"
      "\<forall>x \<in> set builtin_rules. xf_Pxf fac (xfm_Exfid x) = Inr x \<and> xf_Pxf_name fac (xfm_SzId x) = Some x"
    using factory_instantiated by blast
  show ?thesis using bspec [OF fac(2) x] fac(1) unfolding x_def by auto
qed

end
