(* ===== verification/Registry.thy ===== *)
theory Registry
  imports Prelude XformRules
begin

text \<open>
  The registry of dynamically added components, \<^verbatim>\<open>libgpoptextender\<close>: engines, operators, rules,
  the hooks between operators and rules, preprocessing rules and the translators of the converters
  (\<^verbatim>\<open>DynamicRegistry.cpp\<close>, \<^verbatim>\<open>DynamicRegistry.hpp\<close>), and the tables of the cost model it fills
  (\<^verbatim>\<open>BOSSCostModel.cpp\<close>). Hash maps are maps; where the code iterates over a hash map and the order
  can be seen, the order is an argument. The subscript operator of a hash map, which inserts the
  default value for a missing key, is written out. Enumeration values are natural numbers below \<open>2 ^ 32\<close>:
  the ids of dynamic components are made by adding one and casting, with no check against the
  \<^verbatim>\<open>DynamicEnd\<close> of the enumeration, and wrap around (\<open>enum_succ\<close>).

  The payloads that the registry only stores are type variables: \<open>'c\<close> cost functions, \<open>'p\<close> cost
  parameters, \<open>'f\<close> operator factories, \<open>'r\<close> preprocessing rules and \<open>'v\<close> converters. The converters
  are not part of the repository: their methods are arguments of the operations that call them.
\<close>

section \<open>Enumerations\<close>

type_synonym EEngineType = nat
type_synonym EOperatorId = nat
type_synonym EXformId = nat

text \<open>\<^verbatim>\<open>(E) (e + 1)\<close> for an enumeration \<^verbatim>\<open>E\<close>, whose underlying type has 32 bits with the usual compilers. (By the
  standard already a value that needs more bits than the enumerators is undefined.)\<close>

definition enum_succ :: "nat \<Rightarrow> nat" where
  "enum_succ e = (e + 1) mod 2 ^ 32"

definition EetGP :: EEngineType where "EetGP = 0"
definition EetAny :: EEngineType where "EetAny = 1"
definition EetSentinel :: EEngineType where "EetSentinel = 2"

text \<open>\<^verbatim>\<open>EetDynamicStart\<close>, \<^verbatim>\<open>EopDynamicStart\<close> and \<^verbatim>\<open>ExfDynamicStart\<close> are the sentinels of their enumerations;
  the zero of the operator ids is \<^verbatim>\<open>EopLogicalGet\<close>.\<close>

definition EopLogicalGet :: EOperatorId where "EopLogicalGet = 0"
definition EopPhysicalEngineTransform :: EOperatorId where "EopPhysicalEngineTransform = 153"
definition EopSentinel :: EOperatorId where "EopSentinel = 154"
definition EmdidDynamicStart :: nat where "EmdidDynamicStart = 1000"

lemmas enum_defs = EetGP_def EetAny_def EetSentinel_def EopLogicalGet_def EopPhysicalEngineTransform_def
  EopSentinel_def EmdidDynamicStart_def ExfSentinel_def

section \<open>Hash maps\<close>

text \<open>The subscript operator as an rvalue, and the value it inserts when the key is missing.\<close>

definition subscript :: "'v \<Rightarrow> ('k \<rightharpoonup> 'v) \<Rightarrow> 'k \<Rightarrow> 'v" where
  "subscript dflt m k = (case m k of None \<Rightarrow> dflt | Some v \<Rightarrow> v)"

definition touch :: "'v \<Rightarrow> ('k \<rightharpoonup> 'v) \<Rightarrow> 'k \<Rightarrow> ('k \<rightharpoonup> 'v)" where
  "touch dflt m k = m(k \<mapsto> subscript dflt m k)"

definition erase :: "('k \<rightharpoonup> 'v) \<Rightarrow> 'k \<Rightarrow> ('k \<rightharpoonup> 'v)" where
  "erase m k = m(k := None)"

text \<open>\<^verbatim>\<open>m[k].push_back(v)\<close>.\<close>

definition push_at :: "('k \<rightharpoonup> 'v list) \<Rightarrow> 'k \<Rightarrow> 'v \<Rightarrow> ('k \<rightharpoonup> 'v list)" where
  "push_at m k v = m(k \<mapsto> subscript [] m k @ [v])"

lemma subscript_simps [simp]:
  "m k = Some v \<Longrightarrow> subscript d m k = v" "m k = None \<Longrightarrow> subscript d m k = d"
  by (simp_all add: subscript_def)

lemma erase_apply [simp]: "erase m k x = (if x = k then None else m x)"
  by (simp add: erase_def)

lemma subscript_push_at: "subscript [] (push_at m k v) x = (if x = k then subscript [] m k @ [v] else subscript [] m x)"
  by (simp add: push_at_def subscript_def)

lemma touch_apply: "touch d m k x = (if x = k then Some (subscript d m k) else m x)"
  by (simp add: touch_def)

text \<open>The cost functions: those that an engine registers, an empty \<^verbatim>\<open>std::function\<close>, and those of the cost model itself.\<close>

datatype 'c FnCost =
    Registered 'c
  | EmptyFnCost
  | FnCostScan
  | FnCostFilter
  | FnCostIndexScan
  | FnCostBitmapTableScan
  | FnCostSequenceProject
  | FnCostCTEProducer
  | FnCostCTEConsumer
  | FnCostConstTableGet
  | FnCostDML
  | FnCostHashAgg
  | FnCostScalarAgg
  | FnCostStreamAgg
  | FnCostSequence
  | FnCostSort
  | FnCostTVF
  | FnCostUnionAll
  | FnCostHashJoin
  | FnCostIndexNLJoin
  | FnCostMotion
  | FnCostNLJoin
  | FnCostMergeJoin
  | FnCostUnary
  | FnCostEngineTransform

text \<open>The static table of the cost model, by the numbers of the operator ids.\<close>

definition m_cost_map_init :: "(EOperatorId \<times> 'c FnCost) list" where
  "m_cost_map_init = [
     (93, FnCostScan), (112, FnCostScan), (94, FnCostScan), (97, FnCostFilter), (95, FnCostIndexScan),
     (118, FnCostIndexScan), (96, FnCostBitmapTableScan), (152, FnCostBitmapTableScan),
     (117, FnCostSequenceProject), (115, FnCostCTEProducer), (116, FnCostCTEConsumer),
     (142, FnCostConstTableGet), (143, FnCostDML), (129, FnCostHashAgg), (130, FnCostHashAgg),
     (133, FnCostScalarAgg), (131, FnCostStreamAgg), (132, FnCostStreamAgg), (113, FnCostSequence),
     (136, FnCostSort), (114, FnCostTVF), (134, FnCostUnionAll), (135, FnCostUnionAll),
     (119, FnCostHashJoin), (121, FnCostHashJoin), (122, FnCostHashJoin), (123, FnCostHashJoin),
     (120, FnCostHashJoin), (99, FnCostIndexNLJoin), (102, FnCostIndexNLJoin), (124, FnCostMotion),
     (125, FnCostMotion), (126, FnCostMotion), (128, FnCostMotion), (127, FnCostMotion), (98, FnCostNLJoin),
     (104, FnCostNLJoin), (107, FnCostNLJoin), (109, FnCostNLJoin), (101, FnCostNLJoin), (100, FnCostNLJoin),
     (103, FnCostNLJoin), (105, FnCostNLJoin), (106, FnCostNLJoin), (108, FnCostNLJoin), (110, FnCostNLJoin),
     (111, FnCostMergeJoin), (146, FnCostUnary), (138, FnCostUnary), (137, FnCostUnary), (140, FnCostUnary),
     (141, FnCostUnary), (145, FnCostUnary), (144, FnCostUnary), (139, FnCostUnary),
     (153, FnCostEngineTransform)]"

text \<open>The operators of the optimizer itself that can be assigned to an engine, with their names
  (the keys of \<^verbatim>\<open>defaultEngineTypes\<close> and the table \<^verbatim>\<open>opIdToString\<close>).\<close>

definition opIdToString_init :: "(EOperatorId \<times> string) list" where
  "opIdToString_init = [
     (93, ''PhysicalTableScan''), (94, ''PhysicalExternalScan''), (95, ''PhysicalIndexScan''),
     (96, ''PhysicalBitmapTableScan''), (97, ''PhysicalFilter''), (98, ''PhysicalInnerNLJoin''),
     (99, ''PhysicalInnerIndexNLJoin''), (100, ''PhysicalCorrelatedInnerNLJoin''),
     (101, ''PhysicalLeftOuterNLJoin''), (102, ''PhysicalLeftOuterIndexNLJoin''),
     (103, ''PhysicalCorrelatedLeftOuterNLJoin''), (104, ''PhysicalLeftSemiNLJoin''),
     (105, ''PhysicalCorrelatedLeftSemiNLJoin''), (106, ''PhysicalCorrelatedInLeftSemiNLJoin''),
     (107, ''PhysicalLeftAntiSemiNLJoin''), (108, ''PhysicalCorrelatedLeftAntiSemiNLJoin''),
     (109, ''PhysicalLeftAntiSemiNLJoinNotIn''), (110, ''PhysicalCorrelatedNotInLeftAntiSemiNLJoin''),
     (111, ''PhysicalFullMergeJoin''), (112, ''PhysicalDynamicTableScan''), (113, ''PhysicalSequence''),
     (114, ''PhysicalTVF''), (115, ''PhysicalCTEProducer''), (116, ''PhysicalCTEConsumer''),
     (117, ''PhysicalSequenceProject''), (118, ''PhysicalDynamicIndexScan''),
     (119, ''PhysicalInnerHashJoin''), (120, ''PhysicalLeftOuterHashJoin''),
     (121, ''PhysicalLeftSemiHashJoin''), (122, ''PhysicalLeftAntiSemiHashJoin''),
     (123, ''PhysicalLeftAntiSemiHashJoinNotIn''), (124, ''PhysicalMotionGather''),
     (125, ''PhysicalMotionBroadcast''), (126, ''PhysicalMotionHashDistribute''),
     (127, ''PhysicalMotionRoutedDistribute''), (128, ''PhysicalMotionRandom''), (129, ''PhysicalHashAgg''),
     (130, ''PhysicalHashAggDeduplicate''), (131, ''PhysicalStreamAgg''),
     (132, ''PhysicalStreamAggDeduplicate''), (133, ''PhysicalScalarAgg''),
     (134, ''PhysicalSerialUnionAll''), (135, ''PhysicalParallelUnionAll''), (136, ''PhysicalSort''),
     (137, ''PhysicalLimit''), (138, ''PhysicalComputeScalar''), (139, ''PhysicalSpool''),
     (140, ''PhysicalPartitionSelector''), (141, ''PhysicalPartitionSelectorDML''),
     (142, ''PhysicalConstTableGet''), (143, ''PhysicalDML''), (144, ''PhysicalSplit''),
     (145, ''PhysicalRowTrigger''), (146, ''PhysicalAssert''), (152, ''PhysicalDynamicBitmapTableScan'')]"

section \<open>The cost model\<close>

record ('c, 'p) BOSSCostModel =
  m_cost_map :: "EOperatorId \<rightharpoonup> 'c FnCost"
  m_engine_transform_map :: "EEngineType \<times> EEngineType \<rightharpoonup> 'c FnCost"
  m_cost_model_params_map :: "EEngineType \<rightharpoonup> 'p"

text \<open>The two tables of functions are static members: a new model starts with what the models before it have left.\<close>

type_synonym 'c cost_statics = "(EOperatorId \<rightharpoonup> 'c FnCost) \<times> (EEngineType \<times> EEngineType \<rightharpoonup> 'c FnCost)"

definition static_init :: "'c cost_statics" where
  "static_init = (map_of m_cost_map_init, Map.empty)"

definition cm_statics :: "('c, 'p) BOSSCostModel \<Rightarrow> 'c cost_statics" where
  "cm_statics cm = (m_cost_map cm, m_engine_transform_map cm)"

text \<open>The constructor; \<open>dflt\<close> are the parameters created when none are given. Only given parameters are also those of \<^verbatim>\<open>EetAny\<close>.\<close>

definition BOSSCostModel_ctor :: "'c cost_statics \<Rightarrow> nat \<Rightarrow> 'p \<Rightarrow> 'p option \<Rightarrow> ('c, 'p) BOSSCostModel result" where
  "BOSSCostModel_ctor st ulSegments dflt pcp = gpos_assert (0 < ulSegments)
     (Inr \<lparr>m_cost_map = fst st, m_engine_transform_map = snd st,
           m_cost_model_params_map = (case pcp of None \<Rightarrow> [EetGP \<mapsto> dflt] | Some p \<Rightarrow> [EetGP \<mapsto> p, EetAny \<mapsto> p])\<rparr>)"

definition cm_RegisterCostFunction :: "('c, 'p) BOSSCostModel \<Rightarrow> EOperatorId \<Rightarrow> 'c FnCost \<Rightarrow> ('c, 'p) BOSSCostModel" where
  "cm_RegisterCostFunction cm op_id fn_cost = cm\<lparr>m_cost_map := (m_cost_map cm)(op_id \<mapsto> fn_cost)\<rparr>"

definition cm_RemoveCostFunction :: "('c, 'p) BOSSCostModel \<Rightarrow> EOperatorId \<Rightarrow> ('c, 'p) BOSSCostModel" where
  "cm_RemoveCostFunction cm op_id = cm\<lparr>m_cost_map := erase (m_cost_map cm) op_id\<rparr>"

definition cm_RegisterCostModelParams :: "('c, 'p) BOSSCostModel \<Rightarrow> EEngineType \<Rightarrow> 'p \<Rightarrow> ('c, 'p) BOSSCostModel" where
  "cm_RegisterCostModelParams cm engine pcp =
     cm\<lparr>m_cost_model_params_map := (m_cost_model_params_map cm)(engine \<mapsto> pcp)\<rparr>"

definition cm_RemoveCostModelParams :: "('c, 'p) BOSSCostModel \<Rightarrow> EEngineType \<Rightarrow> ('c, 'p) BOSSCostModel" where
  "cm_RemoveCostModelParams cm engine = cm\<lparr>m_cost_model_params_map := erase (m_cost_model_params_map cm) engine\<rparr>"

text \<open>\<^verbatim>\<open>removeEngineFromMap\<close> and the loop of \<^verbatim>\<open>RemoveEngineTransform\<close>: erase the pairs with the engine.\<close>

definition removeEngineFromMap :: "(EEngineType \<times> EEngineType \<rightharpoonup> 'b) \<Rightarrow> EEngineType \<Rightarrow> (EEngineType \<times> EEngineType \<rightharpoonup> 'b)" where
  "removeEngineFromMap m engineId = (\<lambda>key. if fst key = engineId \<or> snd key = engineId then None else m key)"

definition cm_RemoveEngineTransform :: "('c, 'p) BOSSCostModel \<Rightarrow> EEngineType \<Rightarrow> ('c, 'p) BOSSCostModel" where
  "cm_RemoveEngineTransform cm engine =
     cm\<lparr>m_engine_transform_map := removeEngineFromMap (m_engine_transform_map cm) engine\<rparr>"

definition cm_RegisterEngineTransform ::
  "('c, 'p) BOSSCostModel \<Rightarrow> EEngineType \<Rightarrow> EEngineType \<Rightarrow> 'c FnCost \<Rightarrow> ('c, 'p) BOSSCostModel" where
  "cm_RegisterEngineTransform cm from to fn_cost =
     cm\<lparr>m_engine_transform_map := (m_engine_transform_map cm)((from, to) \<mapsto> fn_cost)\<rparr>"

text \<open>A missing engine is a \<^verbatim>\<open>throw;\<close> without an active exception, which ends the program.\<close>

definition cm_GetCostModelParams :: "('c, 'p) BOSSCostModel \<Rightarrow> EEngineType \<Rightarrow> 'p result" where
  "cm_GetCostModelParams cm engine = (case m_cost_model_params_map cm engine of
     None \<Rightarrow> Inl (RuntimeError ''terminate'') | Some p \<Rightarrow> Inr p)"

text \<open>\<^verbatim>\<open>Cost\<close>, with \<open>run\<close> the call of a cost function on the expression and its costing information.\<close>

definition cm_Cost :: "('c, 'p) BOSSCostModel \<Rightarrow> ('c FnCost \<Rightarrow> 'k result) \<Rightarrow> EOperatorId \<Rightarrow> 'k result" where
  "cm_Cost cm run op_id = (case m_cost_map cm op_id of
     None \<Rightarrow> Inl (RuntimeError ''No cost function found for operator'')
   | Some pfnc \<Rightarrow> gpos_assert (pfnc \<noteq> EmptyFnCost) (run pfnc))"

text \<open>The sum of the costs of the children, over the addition \<open>addc\<close> of costs.\<close>

definition CostChildrenWithEngine :: "('k \<Rightarrow> 'k \<Rightarrow> 'k) \<Rightarrow> 'k \<Rightarrow> 'k list \<Rightarrow> 'k" where
  "CostChildrenWithEngine addc c0 pdCost = foldl addc c0 pdCost"

definition CostMaxChild :: "('k \<Rightarrow> 'k \<Rightarrow> bool) \<Rightarrow> 'k \<Rightarrow> 'k list \<Rightarrow> 'k" where
  "CostMaxChild gt c0 pdCost = foldl (\<lambda>res c. if gt c res then c else res) c0 pdCost"

definition CostEngineTransform :: "('k \<Rightarrow> 'k \<Rightarrow> 'k) \<Rightarrow> 'k \<Rightarrow> ('c, 'p) BOSSCostModel \<Rightarrow> ('c FnCost \<Rightarrow> 'k result) \<Rightarrow>
    EEngineType \<Rightarrow> EEngineType \<Rightarrow> 'k list \<Rightarrow> 'k result" where
  "CostEngineTransform addc c0 cm run from to pdCost =
     (let children = rbind (cm_GetCostModelParams cm from) (\<lambda>pcp. Inr (CostChildrenWithEngine addc c0 pdCost))
      in if \<not> (from = EetAny \<or> to = EetAny \<or> from = to)
         then case m_engine_transform_map cm (from, to) of
                Some f \<Rightarrow> if f = EmptyFnCost then Inl (RuntimeError ''bad_function_call'') else run f
              | None \<Rightarrow> children
         else children)"

section \<open>The registry\<close>

text \<open>
  \<open>dr_Pxff\<close> and \<open>dr_disabled\<close> are the global rule factory and the rules disabled by trace flags, which
  the registry changes. A converter pointer that is null is a missing entry of its map; the
  auxiliary values (\<^verbatim>\<open>std::any\<close>) are \<open>'a\<close>.
\<close>

record ('c, 'p, 'f, 'r, 'v, 'a) DynamicRegistry =
  currentOperatorId :: EOperatorId
  currentTransformId :: EXformId
  currentEngineType :: EEngineType
  currentMDIdType :: nat
  costModel :: "('c, 'p) BOSSCostModel"
  usingDefaultOps :: bool
  boss2cexpressionConverters :: "string \<rightharpoonup> 'v"
  cexpression2bossConverters :: "string \<rightharpoonup> 'v"
  auxiliaryMap :: "string \<rightharpoonup> 'a"
  opEngineAndNameToOperatorId :: "EEngineType \<times> string \<rightharpoonup> EOperatorId"
  transformNameToTransformId :: "string \<rightharpoonup> EXformId"
  engineNameToEngineType :: "string \<rightharpoonup> EEngineType"
  engineTypeToEngineName :: "EEngineType \<rightharpoonup> string"
  preprocessingRules :: "string \<rightharpoonup> 'r"
  projectOperators :: "EOperatorId set"
  relevantTransforms :: "EOperatorId \<rightharpoonup> EXformId list"
  opFactories :: "EXformId \<rightharpoonup> (EOperatorId \<times> 'f) list"
  enginePreserveOrder :: "EEngineType \<times> EEngineType \<rightharpoonup> bool"
  enginePreserveDistribution :: "EEngineType \<times> EEngineType \<rightharpoonup> bool"
  enginePreserveRewindability :: "EEngineType \<times> EEngineType \<rightharpoonup> bool"
  engineToMDIdType :: "EEngineType \<rightharpoonup> nat \<times> string"
  engineToPhysicalOps :: "EEngineType \<rightharpoonup> string list"
  engineToLogicalOps :: "EEngineType \<rightharpoonup> string list"
  engineToTransforms :: "EEngineType \<rightharpoonup> string list"
  engineToPreprocessingRules :: "EEngineType \<rightharpoonup> string list"
  engineToB2CTranslators :: "EEngineType \<rightharpoonup> (string \<times> nat) list"
  engineToC2BTranslators :: "EEngineType \<rightharpoonup> (string \<times> nat) list"
  engineToB2CScalarTranslators :: "EEngineType \<rightharpoonup> (string \<times> nat) list"
  engineToC2BScalarTranslators :: "EEngineType \<rightharpoonup> (string \<times> nat) list"
  OIDs :: "string \<rightharpoonup> int"
  defaultEngineTypes :: "EOperatorId \<rightharpoonup> EEngineType"
  dr_Pxff :: CXformFactory
  dr_disabled :: "EXformId set"

text \<open>The constructor and the initializers of the fields; \<open>b2c\<close> and \<open>c2b\<close> are the default converters.\<close>

definition DynamicRegistry_ctor ::
  "('c, 'p) BOSSCostModel \<Rightarrow> CXformFactory \<Rightarrow> 'v \<Rightarrow> 'v \<Rightarrow> ('c, 'p, 'f, 'r, 'v, 'a) DynamicRegistry" where
  "DynamicRegistry_ctor cm fac b2c c2b = \<lparr>
     currentOperatorId = EopSentinel, currentTransformId = ExfSentinel,
     currentEngineType = EetSentinel, currentMDIdType = EmdidDynamicStart,
     costModel = cm, usingDefaultOps = False,
     boss2cexpressionConverters = [''DEFAULT'' \<mapsto> b2c], cexpression2bossConverters = [''DEFAULT'' \<mapsto> c2b],
     auxiliaryMap = Map.empty, opEngineAndNameToOperatorId = Map.empty, transformNameToTransformId = Map.empty,
     engineNameToEngineType = [''GP'' \<mapsto> EetGP], engineTypeToEngineName = [EetGP \<mapsto> ''GP''],
     preprocessingRules = Map.empty, projectOperators = {}, relevantTransforms = Map.empty, opFactories = Map.empty,
     enginePreserveOrder = Map.empty, enginePreserveDistribution = Map.empty, enginePreserveRewindability = Map.empty,
     engineToMDIdType = Map.empty, engineToPhysicalOps = Map.empty, engineToLogicalOps = Map.empty,
     engineToTransforms = Map.empty, engineToPreprocessingRules = Map.empty,
     engineToB2CTranslators = Map.empty, engineToC2BTranslators = Map.empty,
     engineToB2CScalarTranslators = Map.empty, engineToC2BScalarTranslators = Map.empty, OIDs = Map.empty,
     defaultEngineTypes = map_of (map (\<lambda>(opId, name). (opId, EetGP)) opIdToString_init),
     dr_Pxff = fac, dr_disabled = {}\<rparr>"

subsection \<open>Operators\<close>

definition RegisterPhysicalOperator ::
  "string \<Rightarrow> EEngineType \<Rightarrow> 'c FnCost \<Rightarrow> ('c, 'p, 'f, 'r, 'v, 'a) DynamicRegistry \<Rightarrow> ('c, 'p, 'f, 'r, 'v, 'a) DynamicRegistry" where
  "RegisterPhysicalOperator opName engine costFunc r =
     (let opId = enum_succ (currentOperatorId r)
      in r\<lparr>currentOperatorId := opId,
           costModel := cm_RegisterCostFunction (costModel r) opId costFunc,
           opEngineAndNameToOperatorId := (opEngineAndNameToOperatorId r)((engine, opName) \<mapsto> opId),
           engineToPhysicalOps := push_at (engineToPhysicalOps r) engine opName\<rparr>)"

definition RegisterLogicalOperator ::
  "string \<Rightarrow> EEngineType \<Rightarrow> bool \<Rightarrow> ('c, 'p, 'f, 'r, 'v, 'a) DynamicRegistry \<Rightarrow> ('c, 'p, 'f, 'r, 'v, 'a) DynamicRegistry" where
  "RegisterLogicalOperator opName engine isAProject r =
     (let opId = enum_succ (currentOperatorId r)
      in r\<lparr>currentOperatorId := opId,
           opEngineAndNameToOperatorId := (opEngineAndNameToOperatorId r)((engine, opName) \<mapsto> opId),
           projectOperators := (if isAProject then insert opId (projectOperators r) else projectOperators r),
           engineToLogicalOps := push_at (engineToLogicalOps r) engine opName\<rparr>)"

definition GetOperatorId ::
  "('c, 'p, 'f, 'r, 'v, 'a) DynamicRegistry \<Rightarrow> EEngineType \<Rightarrow> string \<Rightarrow> bool \<Rightarrow> EOperatorId result" where
  "GetOperatorId r engine opName throwError = (case opEngineAndNameToOperatorId r (engine, opName) of
     None \<Rightarrow> if throwError then Inl (RuntimeError ''Operator not found'') else Inr EopSentinel
   | Some opId \<Rightarrow> Inr opId)"

definition RegisterCostFunctionForOperator ::
  "EOperatorId \<Rightarrow> 'c FnCost \<Rightarrow> ('c, 'p, 'f, 'r, 'v, 'a) DynamicRegistry \<Rightarrow> ('c, 'p, 'f, 'r, 'v, 'a) DynamicRegistry" where
  "RegisterCostFunctionForOperator opId costFunc r = r\<lparr>costModel := cm_RegisterCostFunction (costModel r) opId costFunc\<rparr>"

subsection \<open>Rules and hooks\<close>

text \<open>A rule that the factory does not take violates an assertion, after which there is no registry.\<close>

definition RegisterTransform ::
  "string \<Rightarrow> EEngineType \<Rightarrow> CXform \<Rightarrow> ('c, 'p, 'f, 'r, 'v, 'a) DynamicRegistry \<Rightarrow> ('c, 'p, 'f, 'r, 'v, 'a) DynamicRegistry result" where
  "RegisterTransform transformName engine transform r =
     (let xid = enum_succ (currentTransformId r)
      in rbind (xf_Add (dr_Pxff r) transform) (\<lambda>fac.
           Inr (r\<lparr>currentTransformId := xid,
                  transformNameToTransformId := (transformNameToTransformId r)(transformName \<mapsto> xid),
                  dr_Pxff := fac,
                  engineToTransforms := push_at (engineToTransforms r) engine transformName\<rparr>)))"

definition RemoveTransform :: "EXformId \<Rightarrow> ('c, 'p, 'f, 'r, 'v, 'a) DynamicRegistry \<Rightarrow> ('c, 'p, 'f, 'r, 'v, 'a) DynamicRegistry" where
  "RemoveTransform xformId r = r\<lparr>dr_disabled := insert xformId (dr_disabled r)\<rparr>"

definition GetTransformId :: "('c, 'p, 'f, 'r, 'v, 'a) DynamicRegistry \<Rightarrow> string \<Rightarrow> bool \<Rightarrow> EXformId result" where
  "GetTransformId r transformName throwError = (case transformNameToTransformId r transformName of
     None \<Rightarrow> if throwError then Inl (RuntimeError ''Transform not found'') else Inr ExfSentinel
   | Some xid \<Rightarrow> Inr xid)"

definition HookOpToTransform ::
  "EXformId \<Rightarrow> EOperatorId \<Rightarrow> 'f \<Rightarrow> ('c, 'p, 'f, 'r, 'v, 'a) DynamicRegistry \<Rightarrow> ('c, 'p, 'f, 'r, 'v, 'a) DynamicRegistry" where
  "HookOpToTransform transformId opId opFactory r = r\<lparr>opFactories := push_at (opFactories r) transformId (opId, opFactory)\<rparr>"

definition HookTransformToOp ::
  "EOperatorId \<Rightarrow> EXformId \<Rightarrow> ('c, 'p, 'f, 'r, 'v, 'a) DynamicRegistry \<Rightarrow> ('c, 'p, 'f, 'r, 'v, 'a) DynamicRegistry" where
  "HookTransformToOp opId transformId r = r\<lparr>relevantTransforms := push_at (relevantTransforms r) opId transformId\<rparr>"

text \<open>\<open>run\<close> is the call of an operator factory on the given arguments.\<close>

definition GetRelevantOperatorsForTransform ::
  "EXformId \<Rightarrow> ('f \<Rightarrow> 'o) \<Rightarrow> ('c, 'p, 'f, 'r, 'v, 'a) DynamicRegistry \<Rightarrow> 'o list \<times> ('c, 'p, 'f, 'r, 'v, 'a) DynamicRegistry" where
  "GetRelevantOperatorsForTransform transformId run r =
     (map (\<lambda>(opId, f). run f) (subscript [] (opFactories r) transformId),
      r\<lparr>opFactories := touch [] (opFactories r) transformId\<rparr>)"

definition GetRelevantTransformsForOperator ::
  "EOperatorId \<Rightarrow> ('c, 'p, 'f, 'r, 'v, 'a) DynamicRegistry \<Rightarrow> EXformId list \<times> ('c, 'p, 'f, 'r, 'v, 'a) DynamicRegistry" where
  "GetRelevantTransformsForOperator opId r =
     (subscript [] (relevantTransforms r) opId, r\<lparr>relevantTransforms := touch [] (relevantTransforms r) opId\<rparr>)"

definition AddTransformsToXFormSet ::
  "EOperatorId \<Rightarrow> EXformId set \<Rightarrow> ('c, 'p, 'f, 'r, 'v, 'a) DynamicRegistry \<Rightarrow> EXformId set \<times> ('c, 'p, 'f, 'r, 'v, 'a) DynamicRegistry" where
  "AddTransformsToXFormSet opId xformSet r =
     (fold insert (subscript [] (relevantTransforms r) opId) xformSet,
      r\<lparr>relevantTransforms := touch [] (relevantTransforms r) opId\<rparr>)"

subsection \<open>Engines\<close>

definition RegisterEngine :: "string \<Rightarrow> ('c, 'p, 'f, 'r, 'v, 'a) DynamicRegistry \<Rightarrow> ('c, 'p, 'f, 'r, 'v, 'a) DynamicRegistry" where
  "RegisterEngine engineName r =
     (let e = enum_succ (currentEngineType r); m = enum_succ (currentMDIdType r)
      in r\<lparr>currentEngineType := e,
           engineNameToEngineType := (engineNameToEngineType r)(engineName \<mapsto> e),
           engineTypeToEngineName := (engineTypeToEngineName r)(e \<mapsto> engineName),
           currentMDIdType := m,
           engineToMDIdType := (engineToMDIdType r)(e \<mapsto> (m, engineName))\<rparr>)"

definition GetEngineType :: "('c, 'p, 'f, 'r, 'v, 'a) DynamicRegistry \<Rightarrow> string \<Rightarrow> bool \<Rightarrow> EEngineType result" where
  "GetEngineType r engineName throwError = (case engineNameToEngineType r engineName of
     None \<Rightarrow> if throwError then Inl (RuntimeError ''Engine not found'') else Inr EetSentinel
   | Some e \<Rightarrow> Inr e)"

text \<open>\<^verbatim>\<open>Engine::UpdateEngineType\<close>: register the engine unless its name is known, and read its type.\<close>

definition UpdateEngineType ::
  "string \<Rightarrow> ('c, 'p, 'f, 'r, 'v, 'a) DynamicRegistry \<Rightarrow> (EEngineType \<times> ('c, 'p, 'f, 'r, 'v, 'a) DynamicRegistry) result" where
  "UpdateEngineType engineName r =
     rbind (GetEngineType r engineName False) (\<lambda>e.
       let r' = (if e = EetSentinel then RegisterEngine engineName r else r)
       in rbind (GetEngineType r' engineName True) (\<lambda>e'. Inr (e', r')))"

definition RegisterEngineTransform :: "EEngineType \<Rightarrow> EEngineType \<Rightarrow> 'c FnCost \<Rightarrow> bool \<Rightarrow> bool \<Rightarrow> bool \<Rightarrow>
    ('c, 'p, 'f, 'r, 'v, 'a) DynamicRegistry \<Rightarrow> ('c, 'p, 'f, 'r, 'v, 'a) DynamicRegistry" where
  "RegisterEngineTransform from to fn_cost preserve_order preserve_distribution preserve_rewindability r =
     r\<lparr>costModel := cm_RegisterEngineTransform (costModel r) from to fn_cost,
       enginePreserveOrder := (enginePreserveOrder r)((from, to) \<mapsto> preserve_order),
       enginePreserveDistribution := (enginePreserveDistribution r)((from, to) \<mapsto> preserve_distribution),
       enginePreserveRewindability := (enginePreserveRewindability r)((from, to) \<mapsto> preserve_distribution)\<rparr>"

text \<open>The three getters also insert \<^verbatim>\<open>false\<close> for a missing pair.\<close>

definition GetEnginePreserveOrder ::
  "EEngineType \<Rightarrow> EEngineType \<Rightarrow> ('c, 'p, 'f, 'r, 'v, 'a) DynamicRegistry \<Rightarrow> bool \<times> ('c, 'p, 'f, 'r, 'v, 'a) DynamicRegistry" where
  "GetEnginePreserveOrder from to r =
     (subscript False (enginePreserveOrder r) (from, to),
      r\<lparr>enginePreserveOrder := touch False (enginePreserveOrder r) (from, to)\<rparr>)"

definition GetEnginePreserveDistribution ::
  "EEngineType \<Rightarrow> EEngineType \<Rightarrow> ('c, 'p, 'f, 'r, 'v, 'a) DynamicRegistry \<Rightarrow> bool \<times> ('c, 'p, 'f, 'r, 'v, 'a) DynamicRegistry" where
  "GetEnginePreserveDistribution from to r =
     (subscript False (enginePreserveDistribution r) (from, to),
      r\<lparr>enginePreserveDistribution := touch False (enginePreserveDistribution r) (from, to)\<rparr>)"

definition GetEnginePreserveRewindability ::
  "EEngineType \<Rightarrow> EEngineType \<Rightarrow> ('c, 'p, 'f, 'r, 'v, 'a) DynamicRegistry \<Rightarrow> bool \<times> ('c, 'p, 'f, 'r, 'v, 'a) DynamicRegistry" where
  "GetEnginePreserveRewindability from to r =
     (subscript False (enginePreserveRewindability r) (from, to),
      r\<lparr>enginePreserveRewindability := touch False (enginePreserveRewindability r) (from, to)\<rparr>)"

definition RegisterCostModelParams ::
  "EEngineType \<Rightarrow> 'p \<Rightarrow> ('c, 'p, 'f, 'r, 'v, 'a) DynamicRegistry \<Rightarrow> ('c, 'p, 'f, 'r, 'v, 'a) DynamicRegistry" where
  "RegisterCostModelParams engine pcp r = r\<lparr>costModel := cm_RegisterCostModelParams (costModel r) engine pcp\<rparr>"

subsection \<open>Preprocessing rules and translators\<close>

definition RegisterPreprocessingRule :: "string \<Rightarrow> 'r \<Rightarrow> EEngineType \<Rightarrow> ('c, 'p, 'f, 'r, 'v, 'a) DynamicRegistry \<Rightarrow> ('c, 'p, 'f, 'r, 'v, 'a) DynamicRegistry" where
  "RegisterPreprocessingRule ruleName preprocessingRule engineType r =
     r\<lparr>preprocessingRules := (preprocessingRules r)(ruleName \<mapsto> preprocessingRule),
       engineToPreprocessingRules := push_at (engineToPreprocessingRules r) engineType ruleName\<rparr>"

definition RemovePreprocessingRule :: "string \<Rightarrow> ('c, 'p, 'f, 'r, 'v, 'a) DynamicRegistry \<Rightarrow> ('c, 'p, 'f, 'r, 'v, 'a) DynamicRegistry" where
  "RemovePreprocessingRule ruleName r = r\<lparr>preprocessingRules := erase (preprocessingRules r) ruleName\<rparr>"

text \<open>The rules in the order \<open>ord\<close> in which the hash map iterates over its keys.\<close>

definition GetPreprocessingRules :: "string list \<Rightarrow> ('c, 'p, 'f, 'r, 'v, 'a) DynamicRegistry \<Rightarrow> 'r list" where
  "GetPreprocessingRules ord r = List.map_filter (preprocessingRules r) ord"

text \<open>The converter of a name, if it is of the type asked for (\<open>typed\<close> is the dynamic cast).\<close>

definition typed_converter :: "('v \<Rightarrow> bool) \<Rightarrow> (string \<rightharpoonup> 'v) \<Rightarrow> string \<Rightarrow> 'v result" where
  "typed_converter typed convs converterName = (case convs converterName of
     None \<Rightarrow> Inl (RuntimeError ''converter is not of the correct type'')
   | Some cv \<Rightarrow> if typed cv then Inr cv else Inl (RuntimeError ''converter is not of the correct type''))"

text \<open>\<open>add\<close> registers the translator with the converter, which answers with an id.\<close>

definition RegisterBOSS2CExpressionTranslator ::
  "('v \<Rightarrow> bool) \<Rightarrow> ('v \<Rightarrow> 'v \<times> nat) \<Rightarrow> EEngineType \<Rightarrow> string \<Rightarrow> ('c, 'p, 'f, 'r, 'v, 'a) DynamicRegistry \<Rightarrow> ('c, 'p, 'f, 'r, 'v, 'a) DynamicRegistry result" where
  "RegisterBOSS2CExpressionTranslator typed add engineType converterName r =
     rbind (typed_converter typed (boss2cexpressionConverters r) converterName) (\<lambda>cv.
       let (cv', i) = add cv
       in Inr (r\<lparr>boss2cexpressionConverters := (boss2cexpressionConverters r)(converterName \<mapsto> cv'),
                 engineToB2CTranslators := push_at (engineToB2CTranslators r) engineType (converterName, i)\<rparr>))"

definition RegisterBOSS2CExpressionScalarTranslator ::
  "('v \<Rightarrow> bool) \<Rightarrow> ('v \<Rightarrow> 'v \<times> nat) \<Rightarrow> EEngineType \<Rightarrow> string \<Rightarrow> ('c, 'p, 'f, 'r, 'v, 'a) DynamicRegistry \<Rightarrow> ('c, 'p, 'f, 'r, 'v, 'a) DynamicRegistry result" where
  "RegisterBOSS2CExpressionScalarTranslator typed add engineType converterName r =
     rbind (typed_converter typed (boss2cexpressionConverters r) converterName) (\<lambda>cv.
       let (cv', i) = add cv
       in Inr (r\<lparr>boss2cexpressionConverters := (boss2cexpressionConverters r)(converterName \<mapsto> cv'),
                 engineToB2CScalarTranslators := push_at (engineToB2CScalarTranslators r) engineType (converterName, i)\<rparr>))"

definition RegisterCExpression2BOSSTranslator ::
  "('v \<Rightarrow> bool) \<Rightarrow> ('v \<Rightarrow> 'v \<times> nat) \<Rightarrow> EEngineType \<Rightarrow> string \<Rightarrow> ('c, 'p, 'f, 'r, 'v, 'a) DynamicRegistry \<Rightarrow> ('c, 'p, 'f, 'r, 'v, 'a) DynamicRegistry result" where
  "RegisterCExpression2BOSSTranslator typed add engineType converterName r =
     rbind (typed_converter typed (cexpression2bossConverters r) converterName) (\<lambda>cv.
       let (cv', i) = add cv
       in Inr (r\<lparr>cexpression2bossConverters := (cexpression2bossConverters r)(converterName \<mapsto> cv'),
                 engineToC2BTranslators := push_at (engineToC2BTranslators r) engineType (converterName, i)\<rparr>))"

definition RegisterCExpression2BOSSScalarTranslator ::
  "('v \<Rightarrow> bool) \<Rightarrow> ('v \<Rightarrow> 'v \<times> nat) \<Rightarrow> EEngineType \<Rightarrow> string \<Rightarrow> ('c, 'p, 'f, 'r, 'v, 'a) DynamicRegistry \<Rightarrow> ('c, 'p, 'f, 'r, 'v, 'a) DynamicRegistry result" where
  "RegisterCExpression2BOSSScalarTranslator typed add engineType converterName r =
     rbind (typed_converter typed (cexpression2bossConverters r) converterName) (\<lambda>cv.
       let (cv', i) = add cv
       in Inr (r\<lparr>cexpression2bossConverters := (cexpression2bossConverters r)(converterName \<mapsto> cv'),
                 engineToC2BScalarTranslators := push_at (engineToC2BScalarTranslators r) engineType (converterName, i)\<rparr>))"

subsection \<open>Operators of the optimizer itself\<close>

definition UseDefaultCPUTransforms :: "('c, 'p, 'f, 'r, 'v, 'a) DynamicRegistry \<Rightarrow> ('c, 'p, 'f, 'r, 'v, 'a) DynamicRegistry result" where
  "UseDefaultCPUTransforms r =
     rbind (CXformFactory_Instantiate (dr_Pxff r)) (\<lambda>fac. Inr (r\<lparr>usingDefaultOps := True, dr_Pxff := fac\<rparr>))"

definition UseDefaultCPUOps :: "EEngineType \<Rightarrow> ('c, 'p, 'f, 'r, 'v, 'a) DynamicRegistry \<Rightarrow> ('c, 'p, 'f, 'r, 'v, 'a) DynamicRegistry" where
  "UseDefaultCPUOps engine r = r\<lparr>defaultEngineTypes := map_option (\<lambda>e. engine) \<circ> defaultEngineTypes r\<rparr>"

definition AssignEngineToDefaultOp :: "EOperatorId \<Rightarrow> EEngineType \<Rightarrow> ('c, 'p, 'f, 'r, 'v, 'a) DynamicRegistry \<Rightarrow> ('c, 'p, 'f, 'r, 'v, 'a) DynamicRegistry result" where
  "AssignEngineToDefaultOp opId engineType r = (case defaultEngineTypes r opId of
     None \<Rightarrow> Inl (RuntimeError ''AssignEngineToDefaultOp: operator ID not found in defaultEngineTypes'')
   | Some e \<Rightarrow> Inr (r\<lparr>defaultEngineTypes := (defaultEngineTypes r)(opId \<mapsto> engineType)\<rparr>))"

definition GetEngineForDefaultOp :: "EOperatorId \<Rightarrow> ('c, 'p, 'f, 'r, 'v, 'a) DynamicRegistry \<Rightarrow> EEngineType \<times> ('c, 'p, 'f, 'r, 'v, 'a) DynamicRegistry" where
  "GetEngineForDefaultOp opId r =
     (subscript EetGP (defaultEngineTypes r) opId, r\<lparr>defaultEngineTypes := touch EetGP (defaultEngineTypes r) opId\<rparr>)"

text \<open>The two loops of \<^verbatim>\<open>GetAllOperators\<close>, over the engines with physical operators and over the default
  operators, in the order of the hash maps. The first one names an unknown engine with the empty
  string; the second one throws for it, and reads past the end of \<^verbatim>\<open>opIdToString\<close> for an unknown operator.\<close>

fun all_registered :: "(EEngineType \<rightharpoonup> string list) \<Rightarrow> EEngineType list \<Rightarrow> (EEngineType \<rightharpoonup> string) \<Rightarrow> (string \<rightharpoonup> string list) \<Rightarrow>
    (EEngineType \<rightharpoonup> string) \<times> (string \<rightharpoonup> string list)" where
  "all_registered ops [] names out = (names, out)"
| "all_registered ops (e # es) names out =
     all_registered ops es (touch [] names e) (out(subscript [] names e \<mapsto> subscript [] ops e))"

fun all_default :: "(EEngineType \<rightharpoonup> string) \<Rightarrow> (EOperatorId \<times> EEngineType) list \<Rightarrow> (string \<rightharpoonup> string list) \<Rightarrow> (string \<rightharpoonup> string list) result" where
  "all_default names [] out = Inr out"
| "all_default names ((opId, engine) # kvs) out =
     (case names engine of
        None \<Rightarrow> Inl (RuntimeError ''out_of_range'')
      | Some engName \<Rightarrow> (case map_of opIdToString_init opId of
          None \<Rightarrow> Inl OutOfBounds
        | Some opName \<Rightarrow> all_default names kvs (push_at out engName opName)))"

definition GetAllOperators :: "EEngineType list \<Rightarrow> (EOperatorId \<times> EEngineType) list \<Rightarrow> ('c, 'p, 'f, 'r, 'v, 'a) DynamicRegistry \<Rightarrow>
    ((string \<rightharpoonup> string list) \<times> ('c, 'p, 'f, 'r, 'v, 'a) DynamicRegistry) result" where
  "GetAllOperators ord1 ord2 r =
     (case all_registered (engineToPhysicalOps r) ord1 (engineTypeToEngineName r) Map.empty of
        (names, out) \<Rightarrow>
          rbind (if usingDefaultOps r then all_default names ord2 out else Inr out) (\<lambda>out'.
            Inr (out', r\<lparr>engineTypeToEngineName := names\<rparr>)))"

subsection \<open>Metadata ids and auxiliary state\<close>

definition RegisterOID :: "string \<Rightarrow> int \<Rightarrow> ('c, 'p, 'f, 'r, 'v, 'a) DynamicRegistry \<Rightarrow> ('c, 'p, 'f, 'r, 'v, 'a) DynamicRegistry" where
  "RegisterOID name oid r = r\<lparr>OIDs := (OIDs r)(name \<mapsto> oid)\<rparr>"

definition GetOID :: "string \<Rightarrow> ('c, 'p, 'f, 'r, 'v, 'a) DynamicRegistry \<Rightarrow> int \<times> ('c, 'p, 'f, 'r, 'v, 'a) DynamicRegistry" where
  "GetOID name r = (subscript 0 (OIDs r) name, r\<lparr>OIDs := touch 0 (OIDs r) name\<rparr>)"

definition DangerousAddAuxiliaryState :: "string \<Rightarrow> 'a \<Rightarrow> ('c, 'p, 'f, 'r, 'v, 'a) DynamicRegistry \<Rightarrow> ('c, 'p, 'f, 'r, 'v, 'a) DynamicRegistry" where
  "DangerousAddAuxiliaryState key v r = r\<lparr>auxiliaryMap := (auxiliaryMap r)(key \<mapsto> v)\<rparr>"

definition auxContains :: "string \<Rightarrow> ('c, 'p, 'f, 'r, 'v, 'a) DynamicRegistry \<Rightarrow> bool" where
  "auxContains key r \<longleftrightarrow> auxiliaryMap r key \<noteq> None"

subsection \<open>Removal of an engine\<close>

text \<open>The hooks without the entries of an operator, and without the uses of a rule.\<close>

definition drop_op :: "EOperatorId \<Rightarrow> (EXformId \<rightharpoonup> (EOperatorId \<times> 'f) list) \<Rightarrow> (EXformId \<rightharpoonup> (EOperatorId \<times> 'f) list)" where
  "drop_op opId m = map_option (filter (\<lambda>entry. fst entry \<noteq> opId)) \<circ> m"

definition drop_xform :: "EXformId \<Rightarrow> (EOperatorId \<rightharpoonup> EXformId list) \<Rightarrow> (EOperatorId \<rightharpoonup> EXformId list)" where
  "drop_xform xid m = map_option (filter (\<lambda>x. x \<noteq> xid)) \<circ> m"

definition rm_physical :: "EEngineType \<Rightarrow> string \<Rightarrow> ('c, 'p, 'f, 'r, 'v, 'a) DynamicRegistry \<Rightarrow> ('c, 'p, 'f, 'r, 'v, 'a) DynamicRegistry" where
  "rm_physical engine opn r =
     (let opId = subscript EopLogicalGet (opEngineAndNameToOperatorId r) (engine, opn)
      in r\<lparr>costModel := cm_RemoveCostFunction (costModel r) opId,
           opEngineAndNameToOperatorId := erase (opEngineAndNameToOperatorId r) (engine, opn),
           opFactories := drop_op opId (opFactories r)\<rparr>)"

definition rm_logical :: "EEngineType \<Rightarrow> string \<Rightarrow> ('c, 'p, 'f, 'r, 'v, 'a) DynamicRegistry \<Rightarrow> ('c, 'p, 'f, 'r, 'v, 'a) DynamicRegistry" where
  "rm_logical engine opn r =
     (let opId = subscript EopLogicalGet (opEngineAndNameToOperatorId r) (engine, opn)
      in r\<lparr>projectOperators := projectOperators r - {opId},
           opEngineAndNameToOperatorId := erase (opEngineAndNameToOperatorId r) (engine, opn),
           relevantTransforms := erase (relevantTransforms r) opId,
           opFactories := drop_op opId (opFactories r)\<rparr>)"

text \<open>A missing name would read the id 0, \<^verbatim>\<open>ExfProject2ComputeScalar\<close>.\<close>

definition rm_transform :: "string \<Rightarrow> ('c, 'p, 'f, 'r, 'v, 'a) DynamicRegistry \<Rightarrow> ('c, 'p, 'f, 'r, 'v, 'a) DynamicRegistry" where
  "rm_transform transform r =
     (let xid = subscript 0 (transformNameToTransformId r) transform; r1 = RemoveTransform xid r
      in r1\<lparr>transformNameToTransformId := erase (transformNameToTransformId r) transform,
            opFactories := erase (opFactories r) xid,
            relevantTransforms := drop_xform xid (relevantTransforms r)\<rparr>)"

text \<open>The translators are removed from the converters they were registered with; \<open>rm\<close> is \<^verbatim>\<open>RemoveTranslator\<close>
  or \<^verbatim>\<open>RemoveScalarTranslator\<close> of the converter.\<close>

fun rm_translators :: "('v \<Rightarrow> nat \<Rightarrow> 'v) \<Rightarrow> (string \<times> nat) list \<Rightarrow> (string \<rightharpoonup> 'v) \<Rightarrow> (string \<rightharpoonup> 'v) result" where
  "rm_translators rm [] convs = Inr convs"
| "rm_translators rm ((converter, translator) # ts) convs = (case convs converter of
     None \<Rightarrow> Inl NullDeref
   | Some cv \<Rightarrow> rm_translators rm ts (convs(converter \<mapsto> rm cv translator)))"

record 'v converter_api =
  api_RemoveTranslator :: "'v \<Rightarrow> nat \<Rightarrow> 'v"
  api_RemoveScalarTranslator :: "'v \<Rightarrow> nat \<Rightarrow> 'v"

text \<open>The parts of \<^verbatim>\<open>RemoveEngine\<close> in their order: the tables of the engine, its physical operators,
  its logical operators, its rules, its preprocessing rules and its translators.\<close>

definition rm_tables :: "EEngineType \<Rightarrow> ('c, 'p, 'f, 'r, 'v, 'a) DynamicRegistry \<Rightarrow> ('c, 'p, 'f, 'r, 'v, 'a) DynamicRegistry" where
  "rm_tables engine r =
     r\<lparr>engineTypeToEngineName := erase (engineTypeToEngineName r) engine,
       engineToMDIdType := erase (engineToMDIdType r) engine,
       enginePreserveOrder := removeEngineFromMap (enginePreserveOrder r) engine,
       enginePreserveDistribution := removeEngineFromMap (enginePreserveDistribution r) engine,
       enginePreserveRewindability := removeEngineFromMap (enginePreserveRewindability r) engine,
       costModel := cm_RemoveCostModelParams (cm_RemoveEngineTransform (costModel r) engine) engine\<rparr>"

definition rm_physical_all :: "EEngineType \<Rightarrow> ('c, 'p, 'f, 'r, 'v, 'a) DynamicRegistry \<Rightarrow> ('c, 'p, 'f, 'r, 'v, 'a) DynamicRegistry" where
  "rm_physical_all engine r =
     (let r1 = fold (rm_physical engine) (subscript [] (engineToPhysicalOps r) engine) r
      in r1\<lparr>engineToPhysicalOps := erase (engineToPhysicalOps r1) engine\<rparr>)"

definition rm_logical_all :: "EEngineType \<Rightarrow> ('c, 'p, 'f, 'r, 'v, 'a) DynamicRegistry \<Rightarrow> ('c, 'p, 'f, 'r, 'v, 'a) DynamicRegistry" where
  "rm_logical_all engine r =
     (let r1 = fold (rm_logical engine) (subscript [] (engineToLogicalOps r) engine) r
      in r1\<lparr>engineToLogicalOps := erase (engineToLogicalOps r1) engine\<rparr>)"

definition rm_transform_all :: "EEngineType \<Rightarrow> ('c, 'p, 'f, 'r, 'v, 'a) DynamicRegistry \<Rightarrow> ('c, 'p, 'f, 'r, 'v, 'a) DynamicRegistry" where
  "rm_transform_all engine r =
     (let r1 = fold rm_transform (subscript [] (engineToTransforms r) engine) r
      in r1\<lparr>engineToTransforms := erase (engineToTransforms r1) engine\<rparr>)"

definition rm_rules_all :: "EEngineType \<Rightarrow> ('c, 'p, 'f, 'r, 'v, 'a) DynamicRegistry \<Rightarrow> ('c, 'p, 'f, 'r, 'v, 'a) DynamicRegistry" where
  "rm_rules_all engine r =
     (let r1 = fold RemovePreprocessingRule (subscript [] (engineToPreprocessingRules r) engine) r
      in r1\<lparr>engineToPreprocessingRules := erase (engineToPreprocessingRules r1) engine\<rparr>)"

definition rm_translators_all ::
  "'v converter_api \<Rightarrow> 'v converter_api \<Rightarrow> EEngineType \<Rightarrow> ('c, 'p, 'f, 'r, 'v, 'a) DynamicRegistry \<Rightarrow> ('c, 'p, 'f, 'r, 'v, 'a) DynamicRegistry result" where
  "rm_translators_all b2c c2b engine r =
     rbind (rm_translators (api_RemoveTranslator b2c) (subscript [] (engineToB2CTranslators r) engine) (boss2cexpressionConverters r)) (\<lambda>bs1.
     rbind (rm_translators (api_RemoveTranslator c2b) (subscript [] (engineToC2BTranslators r) engine) (cexpression2bossConverters r)) (\<lambda>cs1.
     rbind (rm_translators (api_RemoveScalarTranslator b2c) (subscript [] (engineToB2CScalarTranslators r) engine) bs1) (\<lambda>bs2.
     rbind (rm_translators (api_RemoveScalarTranslator c2b) (subscript [] (engineToC2BScalarTranslators r) engine) cs1) (\<lambda>cs2.
       Inr (r\<lparr>boss2cexpressionConverters := bs2, cexpression2bossConverters := cs2,
              engineToB2CTranslators := erase (engineToB2CTranslators r) engine,
              engineToC2BTranslators := erase (engineToC2BTranslators r) engine,
              engineToB2CScalarTranslators := erase (engineToB2CScalarTranslators r) engine,
              engineToC2BScalarTranslators := erase (engineToC2BScalarTranslators r) engine\<rparr>)))))"

definition RemoveEngine_type ::
  "'v converter_api \<Rightarrow> 'v converter_api \<Rightarrow> EEngineType \<Rightarrow> ('c, 'p, 'f, 'r, 'v, 'a) DynamicRegistry \<Rightarrow> ('c, 'p, 'f, 'r, 'v, 'a) DynamicRegistry result" where
  "RemoveEngine_type b2c c2b engine r =
     rm_translators_all b2c c2b engine (rm_rules_all engine (rm_transform_all engine
       (rm_logical_all engine (rm_physical_all engine (rm_tables engine r)))))"

text \<open>By name: the subscript operator answers \<^verbatim>\<open>EetGP\<close> for an unknown name.\<close>

definition RemoveEngine ::
  "'v converter_api \<Rightarrow> 'v converter_api \<Rightarrow> string \<Rightarrow> ('c, 'p, 'f, 'r, 'v, 'a) DynamicRegistry \<Rightarrow> ('c, 'p, 'f, 'r, 'v, 'a) DynamicRegistry result" where
  "RemoveEngine b2c c2b engineName r =
     (let engineType = subscript EetGP (engineNameToEngineType r) engineName
      in rbind (RemoveEngine_type b2c c2b engineType (r\<lparr>engineNameToEngineType := touch EetGP (engineNameToEngineType r) engineName\<rparr>)) (\<lambda>r1.
           Inr (r1\<lparr>engineNameToEngineType := erase (engineNameToEngineType r1) engineName\<rparr>)))"

end
