(* ===== verification/RegistryLaws.thy ===== *)
theory RegistryLaws
  imports Registry
begin

text \<open>
  What the registry promises as long as no counter of ids has reached the end of its range: the ids it
  hands out are new and never reused, the tables of operators and cost functions agree, and the
  removal of an engine takes the ids that its tables list. The operations are the steps of \<open>reg_step\<close>, one for each
  public operation; \<open>reg_go\<close> are those on a registry whose counters are not exhausted.
\<close>

section \<open>Fresh ids\<close>

text \<open>
  The interface of a table that hands out ids: every step either binds one key to the successor of
  a counter, or binds no key. The number \<open>start\<close> at which the counter starts is the sentinel that
  stands for an unknown key.
\<close>

locale id_table =
  fixes step :: "'s \<Rightarrow> 's \<Rightarrow> bool" and table :: "'s \<Rightarrow> ('k \<rightharpoonup> nat)" and counter :: "'s \<Rightarrow> nat" and start :: nat
  assumes step_table: "step s s' \<Longrightarrow>
    (\<exists>k. counter s' = Suc (counter s) \<and> table s' = (table s)(k \<mapsto> Suc (counter s))) \<or>
    (counter s' = counter s \<and> table s' \<subseteq>\<^sub>m table s)"
begin

definition ids_ok :: "'s \<Rightarrow> bool" where
  "ids_ok s \<longleftrightarrow> start \<le> counter s \<and> (\<forall>k i. table s k = Some i \<longrightarrow> i \<le> counter s \<and> i \<noteq> start) \<and>
     (\<forall>k k' i. table s k = Some i \<longrightarrow> table s k' = Some i \<longrightarrow> k = k')"

lemma ids_okD:
  assumes "ids_ok s"
  shows "start \<le> counter s" and "table s k = Some i \<Longrightarrow> i \<le> counter s" and "table s k = Some i \<Longrightarrow> i \<noteq> start"
    and "table s k = Some i \<Longrightarrow> table s k' = Some i \<Longrightarrow> k = k'"
  using assms unfolding ids_ok_def by blast+

lemma ids_ok_step:
  assumes "ids_ok s" and "step s s'"
  shows "ids_ok s'"
  using step_table [OF assms(2)]
proof (elim disjE exE conjE)
  fix k assume s': "counter s' = Suc (counter s)" "table s' = (table s)(k \<mapsto> Suc (counter s))"
  show ?thesis
    unfolding ids_ok_def s'
    using ids_okD [OF assms(1)] by (auto split: if_splits intro: le_SucI dest: Suc_n_not_le_n [THEN notE])
next
  assume s': "counter s' = counter s" "table s' \<subseteq>\<^sub>m table s"
  have "table s' k = Some i \<Longrightarrow> table s k = Some i" for k i
    using s'(2) by (metis domI map_le_def)
  then show ?thesis unfolding ids_ok_def s'(1) using ids_okD [OF assms(1)] by blast
qed

lemma ids_ok_steps: "step\<^sup>*\<^sup>* s s' \<Longrightarrow> ids_ok s \<Longrightarrow> ids_ok s'"
  by (induction rule: rtranclp_induct) (auto intro: ids_ok_step)

lemma step_binds:
  assumes "step s s'" and "table s' k = Some i"
  shows "table s k = Some i \<or> counter s < i"
  using step_table [OF assms(1)] assms(2)
  by (auto split: if_splits dest: map_le_imp_upd_le simp: map_le_def) (metis domI)

lemma step_counter: "step s s' \<Longrightarrow> counter s \<le> counter s'"
  using step_table by force

text \<open>An id belongs to one key for ever, even if the key is removed meanwhile.\<close>

lemma id_not_reused:
  assumes "step\<^sup>*\<^sup>* s s'" and "ids_ok s" and "table s k = Some i" and "table s' k' = Some i"
  shows "k' = k"
proof -
  have "counter s \<le> counter s' \<and> (\<forall>k' i. table s' k' = Some i \<longrightarrow> table s k' = Some i \<or> counter s < i)"
    using assms(1)
  proof (induction rule: rtranclp_induct)
    case (step y z)
    have "table s k = Some i \<or> counter s < i" if "table z k = Some i" for k i
      using step_binds [OF step.hyps(2) that] step.IH by auto
    then show ?case using step_counter [OF step.hyps(2)] step.IH by auto
  qed simp
  then have "table s k' = Some i \<or> counter s < i" using assms(4) by blast
  then show ?thesis using ids_okD [OF assms(2)] assms(3) by (meson not_le)
qed

end

section \<open>The steps of the registry\<close>

inductive reg_step :: "('c, 'p, 'f, 'r, 'v, 'a) DynamicRegistry \<Rightarrow> ('c, 'p, 'f, 'r, 'v, 'a) DynamicRegistry \<Rightarrow> bool" where
  physical: "reg_step r (RegisterPhysicalOperator n e c r)"
| logical: "reg_step r (RegisterLogicalOperator n e b r)"
| cost: "reg_step r (RegisterCostFunctionForOperator i c r)"
| transform: "RegisterTransform n e x r = Inr r' \<Longrightarrow> reg_step r r'"
| disable: "reg_step r (RemoveTransform x r)"
| hook_op: "reg_step r (HookOpToTransform x i f r)"
| hook_transform: "reg_step r (HookTransformToOp i x r)"
| get_operators: "reg_step r (snd (GetRelevantOperatorsForTransform x (run :: 'f \<Rightarrow> unit) r))"
| get_transforms: "reg_step r (snd (GetRelevantTransformsForOperator i r))"
| add_transforms: "reg_step r (snd (AddTransformsToXFormSet i xs r))"
| engine: "reg_step r (RegisterEngine n r)"
| engine_transform: "reg_step r (RegisterEngineTransform e e' c b1 b2 b3 r)"
| get_order: "reg_step r (snd (GetEnginePreserveOrder e e' r))"
| get_distribution: "reg_step r (snd (GetEnginePreserveDistribution e e' r))"
| get_rewindability: "reg_step r (snd (GetEnginePreserveRewindability e e' r))"
| params: "reg_step r (RegisterCostModelParams e p r)"
| rule: "reg_step r (RegisterPreprocessingRule n u e r)"
| remove_rule: "reg_step r (RemovePreprocessingRule n r)"
| b2c: "RegisterBOSS2CExpressionTranslator typed add e n r = Inr r' \<Longrightarrow> reg_step r r'"
| b2c_scalar: "RegisterBOSS2CExpressionScalarTranslator typed add e n r = Inr r' \<Longrightarrow> reg_step r r'"
| c2b: "RegisterCExpression2BOSSTranslator typed add e n r = Inr r' \<Longrightarrow> reg_step r r'"
| c2b_scalar: "RegisterCExpression2BOSSScalarTranslator typed add e n r = Inr r' \<Longrightarrow> reg_step r r'"
| default_transforms: "UseDefaultCPUTransforms r = Inr r' \<Longrightarrow> reg_step r r'"
| default_ops: "reg_step r (UseDefaultCPUOps e r)"
| default_op: "AssignEngineToDefaultOp i e r = Inr r' \<Longrightarrow> reg_step r r'"
| get_default_op: "reg_step r (snd (GetEngineForDefaultOp i r))"
| all_operators: "GetAllOperators ord1 ord2 r = Inr (out, r') \<Longrightarrow> reg_step r r'"
| oid: "reg_step r (RegisterOID n z r)"
| get_oid: "reg_step r (snd (GetOID n r))"
| aux: "reg_step r (DangerousAddAuxiliaryState n v r)"
| remove_engine: "RemoveEngine cb cc n r = Inr r' \<Longrightarrow> reg_step r r'"

lemmas register_defs = RegisterPhysicalOperator_def RegisterLogicalOperator_def RegisterCostFunctionForOperator_def
  RemoveTransform_def HookOpToTransform_def HookTransformToOp_def GetRelevantOperatorsForTransform_def
  GetRelevantTransformsForOperator_def AddTransformsToXFormSet_def RegisterEngine_def RegisterEngineTransform_def
  GetEnginePreserveOrder_def GetEnginePreserveDistribution_def GetEnginePreserveRewindability_def
  RegisterCostModelParams_def RegisterPreprocessingRule_def RemovePreprocessingRule_def UseDefaultCPUOps_def
  GetEngineForDefaultOp_def RegisterOID_def GetOID_def DangerousAddAuxiliaryState_def Let_def

text \<open>No counter has reached the last value of its enumeration.\<close>

definition in_range :: "('c, 'p, 'f, 'r, 'v, 'a) DynamicRegistry \<Rightarrow> bool" where
  "in_range r \<longleftrightarrow> currentOperatorId r + 1 < 2 ^ 32 \<and> currentTransformId r + 1 < 2 ^ 32 \<and> currentEngineType r + 1 < 2 ^ 32"

definition reg_go :: "('c, 'p, 'f, 'r, 'v, 'a) DynamicRegistry \<Rightarrow> ('c, 'p, 'f, 'r, 'v, 'a) DynamicRegistry \<Rightarrow> bool" where
  "reg_go r r' \<longleftrightarrow> in_range r \<and> reg_step r r'"

lemma reg_goD: "reg_go r r' \<Longrightarrow> in_range r" "reg_go r r' \<Longrightarrow> reg_step r r'"
  by (simp_all add: reg_go_def)

lemma in_range_succ:
  assumes "in_range r"
  shows "enum_succ (currentOperatorId r) = Suc (currentOperatorId r)" "enum_succ (currentTransformId r) = Suc (currentTransformId r)"
    "enum_succ (currentEngineType r) = Suc (currentEngineType r)"
  using assms by (simp_all add: in_range_def enum_succ_def)

text \<open>The fields that the fallible registrations leave alone.\<close>

definition same_tables :: "('c, 'p, 'f, 'r, 'v, 'a) DynamicRegistry \<Rightarrow> ('c, 'p, 'f, 'r, 'v, 'a) DynamicRegistry \<Rightarrow> bool" where
  "same_tables r r' \<longleftrightarrow> currentOperatorId r' = currentOperatorId r \<and> currentEngineType r' = currentEngineType r \<and>
     costModel r' = costModel r \<and>
     opEngineAndNameToOperatorId r' = opEngineAndNameToOperatorId r \<and> engineNameToEngineType r' = engineNameToEngineType r \<and>
     engineToPhysicalOps r' = engineToPhysicalOps r \<and> engineToLogicalOps r' = engineToLogicalOps r"

definition same_transforms :: "('c, 'p, 'f, 'r, 'v, 'a) DynamicRegistry \<Rightarrow> ('c, 'p, 'f, 'r, 'v, 'a) DynamicRegistry \<Rightarrow> bool" where
  "same_transforms r r' \<longleftrightarrow> currentTransformId r' = currentTransformId r \<and>
     transformNameToTransformId r' = transformNameToTransformId r"

lemma translator_tables:
  "RegisterBOSS2CExpressionTranslator typed add e n r = Inr r' \<Longrightarrow> same_tables r r' \<and> same_transforms r r'"
  "RegisterBOSS2CExpressionScalarTranslator typed add e n r = Inr r' \<Longrightarrow> same_tables r r' \<and> same_transforms r r'"
  "RegisterCExpression2BOSSTranslator typed add e n r = Inr r' \<Longrightarrow> same_tables r r' \<and> same_transforms r r'"
  "RegisterCExpression2BOSSScalarTranslator typed add e n r = Inr r' \<Longrightarrow> same_tables r r' \<and> same_transforms r r'"
  by (auto simp: RegisterBOSS2CExpressionTranslator_def RegisterBOSS2CExpressionScalarTranslator_def
    RegisterCExpression2BOSSTranslator_def RegisterCExpression2BOSSScalarTranslator_def
    same_tables_def same_transforms_def result_simps case_prod_beta Let_def)

lemma default_tables:
  "UseDefaultCPUTransforms r = Inr r' \<Longrightarrow> same_tables r r' \<and> same_transforms r r'"
  "AssignEngineToDefaultOp i e r = Inr r' \<Longrightarrow> same_tables r r' \<and> same_transforms r r'"
  "GetAllOperators ord1 ord2 r = Inr (out, r') \<Longrightarrow> same_tables r r' \<and> same_transforms r r'"
  by (auto simp: UseDefaultCPUTransforms_def AssignEngineToDefaultOp_def GetAllOperators_def
    same_tables_def same_transforms_def result_simps split: prod.splits option.splits)

lemma transform_tables:
  assumes "RegisterTransform n e x r = Inr r'"
  shows "same_tables r r'" and "currentTransformId r' = enum_succ (currentTransformId r)"
    and "transformNameToTransformId r' = (transformNameToTransformId r)(n \<mapsto> enum_succ (currentTransformId r))"
  using assms by (auto simp: RegisterTransform_def same_tables_def result_simps Let_def)

section \<open>The loops of the removal\<close>

text \<open>The ids that a loop reads while it erases the keys \<open>ks\<close> one by one: those of the keys, and the
  default if a key is missing or comes twice.\<close>

fun popped :: "nat \<Rightarrow> ('k \<rightharpoonup> nat) \<Rightarrow> 'k list \<Rightarrow> nat list" where
  "popped d m [] = []"
| "popped d m (k # ks) = subscript d m k # popped d (erase m k) ks"

lemma set_popped:
  "set (popped d m ks) = {i. \<exists>k \<in> set ks. m k = Some i} \<union> (if distinct ks \<and> set ks \<subseteq> dom m then {} else {d})"
proof (induction ks arbitrary: m)
  case (Cons k ks)
  have doms: "set ks \<subseteq> dom (erase m k) \<longleftrightarrow> k \<notin> set ks \<and> set ks \<subseteq> dom m"
    by (auto simp: dom_def split: if_splits)
  have ids: "{i. \<exists>k' \<in> set (k # ks). m k' = Some i} =
      (case m k of None \<Rightarrow> {} | Some i \<Rightarrow> {i}) \<union> {i. \<exists>k' \<in> set ks. erase m k k' = Some i}"
    by (fastforce split: option.splits if_splits)
  show ?case
  proof (cases "m k")
    case None
    then show ?thesis unfolding popped.simps list.set(2) [of "subscript d m k"] Cons.IH ids by auto
  next
    case (Some i)
    have "distinct (k # ks) \<and> set (k # ks) \<subseteq> dom m \<longleftrightarrow> distinct ks \<and> set ks \<subseteq> dom (erase m k)"
      using Some doms by auto
    then show ?thesis unfolding popped.simps list.set(2) [of "subscript d m k"] Cons.IH ids by (simp add: Some)
  qed
qed simp

definition erase_all :: "('k \<rightharpoonup> 'b) \<Rightarrow> 'k set \<Rightarrow> ('k \<rightharpoonup> 'b)" where
  "erase_all m K = (\<lambda>k. if k \<in> K then None else m k)"

definition drop_ops :: "EOperatorId set \<Rightarrow> (EXformId \<rightharpoonup> (EOperatorId \<times> 'f) list) \<Rightarrow> (EXformId \<rightharpoonup> (EOperatorId \<times> 'f) list)" where
  "drop_ops I m = map_option (filter (\<lambda>entry. fst entry \<notin> I)) \<circ> m"

definition drop_xforms :: "EXformId set \<Rightarrow> (EOperatorId \<rightharpoonup> EXformId list) \<Rightarrow> (EOperatorId \<rightharpoonup> EXformId list)" where
  "drop_xforms X m = map_option (filter (\<lambda>x. x \<notin> X)) \<circ> m"

lemma erase_all_simps:
  "erase_all m {} = m" "erase_all (erase m k) K = erase_all m (insert k K)"
  by (auto simp: erase_all_def fun_eq_iff)

lemma erase_all_le: "erase_all m K \<subseteq>\<^sub>m m"
  by (auto simp: erase_all_def map_le_def split: if_splits)

lemma drop_ops_simps: "drop_ops {} m = m" "drop_ops I (drop_op i m) = drop_ops (insert i I) m"
  by (rule ext, case_tac "m x", auto simp: drop_ops_def drop_op_def intro!: filter_cong)+

lemma drop_xforms_simps: "drop_xforms {} m = m" "drop_xforms X (drop_xform xid m) = drop_xforms (insert xid X) m"
  by (rule ext, case_tac "m x", auto simp: drop_xforms_def drop_xform_def intro!: filter_cong)+

lemmas bulk_simps = erase_all_simps drop_ops_simps drop_xforms_simps

lemma fold_rm_physical:
  "fold (rm_physical e) ns r = (let I = set (popped EopLogicalGet (opEngineAndNameToOperatorId r) (map (Pair e) ns)) in
     r\<lparr>costModel := (costModel r)\<lparr>m_cost_map := erase_all (m_cost_map (costModel r)) I\<rparr>,
       opEngineAndNameToOperatorId := erase_all (opEngineAndNameToOperatorId r) (Pair e ` set ns),
       opFactories := drop_ops I (opFactories r)\<rparr>)"
  by (induction ns arbitrary: r) (simp_all add: bulk_simps rm_physical_def cm_RemoveCostFunction_def Let_def)

lemma fold_rm_logical:
  "fold (rm_logical e) ns r = (let I = set (popped EopLogicalGet (opEngineAndNameToOperatorId r) (map (Pair e) ns)) in
     r\<lparr>projectOperators := projectOperators r - I,
       opEngineAndNameToOperatorId := erase_all (opEngineAndNameToOperatorId r) (Pair e ` set ns),
       relevantTransforms := erase_all (relevantTransforms r) I,
       opFactories := drop_ops I (opFactories r)\<rparr>)"
  by (induction ns arbitrary: r) (simp_all add: bulk_simps rm_logical_def Let_def Diff_insert2 [symmetric])

lemma fold_rm_transform:
  "fold rm_transform ns r = (let X = set (popped 0 (transformNameToTransformId r) ns) in
     r\<lparr>dr_disabled := dr_disabled r \<union> X,
       transformNameToTransformId := erase_all (transformNameToTransformId r) (set ns),
       opFactories := erase_all (opFactories r) X,
       relevantTransforms := drop_xforms X (relevantTransforms r)\<rparr>)"
  by (induction ns arbitrary: r) (simp_all add: bulk_simps rm_transform_def RemoveTransform_def Let_def)

lemma fold_rm_rule:
  "fold RemovePreprocessingRule ns r = r\<lparr>preprocessingRules := erase_all (preprocessingRules r) (set ns)\<rparr>"
  by (induction ns arbitrary: r) (simp_all add: bulk_simps RemovePreprocessingRule_def)

lemma rm_translators_ok:
  "fst ` set ts \<subseteq> dom convs \<Longrightarrow> \<exists>convs'. rm_translators rm ts convs = Inr convs' \<and> dom convs' = dom convs"
proof (induction ts arbitrary: convs)
  case (Cons t ts)
  obtain c i where t: "t = (c, i)" by (cases t)
  obtain cv where cv: "convs c = Some cv" using Cons.prems t by auto
  have doms: "dom (convs(c \<mapsto> rm cv i)) = dom convs" using cv by auto
  then have "fst ` set ts \<subseteq> dom (convs(c \<mapsto> rm cv i))" using Cons.prems t by simp
  from Cons.IH [OF this] have "\<exists>convs'. rm_translators rm ts (convs(c \<mapsto> rm cv i)) = Inr convs' \<and> dom convs' = dom convs"
    unfolding doms .
  then show ?case unfolding t rm_translators.simps cv option.case .
qed simp

text \<open>The ids of an engine that its removal meets: of physical operators, of logical operators, of rules.\<close>

definition physical_ids :: "EEngineType \<Rightarrow> ('c, 'p, 'f, 'r, 'v, 'a) DynamicRegistry \<Rightarrow> EOperatorId set" where
  "physical_ids e r = set (popped EopLogicalGet (opEngineAndNameToOperatorId r) (map (Pair e) (subscript [] (engineToPhysicalOps r) e)))"

definition logical_ids :: "EEngineType \<Rightarrow> ('c, 'p, 'f, 'r, 'v, 'a) DynamicRegistry \<Rightarrow> EOperatorId set" where
  "logical_ids e r = set (popped EopLogicalGet
     (erase_all (opEngineAndNameToOperatorId r) (Pair e ` set (subscript [] (engineToPhysicalOps r) e)))
     (map (Pair e) (subscript [] (engineToLogicalOps r) e)))"

definition transform_ids :: "EEngineType \<Rightarrow> ('c, 'p, 'f, 'r, 'v, 'a) DynamicRegistry \<Rightarrow> EXformId set" where
  "transform_ids e r = set (popped 0 (transformNameToTransformId r) (subscript [] (engineToTransforms r) e))"

definition op_keys :: "EEngineType \<Rightarrow> ('c, 'p, 'f, 'r, 'v, 'a) DynamicRegistry \<Rightarrow> (EEngineType \<times> string) set" where
  "op_keys e r = Pair e ` (set (subscript [] (engineToPhysicalOps r) e) \<union> set (subscript [] (engineToLogicalOps r) e))"

definition rm_core :: "EEngineType \<Rightarrow> ('c, 'p, 'f, 'r, 'v, 'a) DynamicRegistry \<Rightarrow> ('c, 'p, 'f, 'r, 'v, 'a) DynamicRegistry" where
  "rm_core e r = rm_rules_all e (rm_transform_all e (rm_logical_all e (rm_physical_all e (rm_tables e r))))"

lemmas rm_core_defs = rm_core_def rm_tables_def rm_physical_all_def rm_logical_all_def rm_transform_all_def rm_rules_all_def
  fold_rm_physical fold_rm_logical fold_rm_transform fold_rm_rule Let_def
  cm_RemoveCostModelParams_def cm_RemoveEngineTransform_def

lemma erase_all_twice: "erase_all (erase_all m K) L = erase_all m (K \<union> L)"
  by (auto simp: erase_all_def fun_eq_iff)

lemma rm_core_counters:
  "currentOperatorId (rm_core e r) = currentOperatorId r" "currentTransformId (rm_core e r) = currentTransformId r"
  "currentEngineType (rm_core e r) = currentEngineType r" "engineNameToEngineType (rm_core e r) = engineNameToEngineType r"
  "dr_Pxff (rm_core e r) = dr_Pxff r" "defaultEngineTypes (rm_core e r) = defaultEngineTypes r"
  "usingDefaultOps (rm_core e r) = usingDefaultOps r"
  by (simp_all add: rm_core_defs)

lemma rm_core_operators:
  "opEngineAndNameToOperatorId (rm_core e r) = erase_all (opEngineAndNameToOperatorId r) (op_keys e r)"
  "m_cost_map (costModel (rm_core e r)) = erase_all (m_cost_map (costModel r)) (physical_ids e r)"
  "projectOperators (rm_core e r) = projectOperators r - logical_ids e r"
  "engineToPhysicalOps (rm_core e r) = erase (engineToPhysicalOps r) e"
  "engineToLogicalOps (rm_core e r) = erase (engineToLogicalOps r) e"
  by (simp_all add: rm_core_defs physical_ids_def logical_ids_def op_keys_def erase_all_twice image_Un)

lemma rm_core_transforms:
  "transformNameToTransformId (rm_core e r) = erase_all (transformNameToTransformId r) (set (subscript [] (engineToTransforms r) e))"
  "engineToTransforms (rm_core e r) = erase (engineToTransforms r) e"
  "dr_disabled (rm_core e r) = dr_disabled r \<union> transform_ids e r"
  by (simp_all add: rm_core_defs transform_ids_def)

lemma rm_core_hooks:
  "opFactories (rm_core e r) = erase_all (drop_ops (logical_ids e r) (drop_ops (physical_ids e r) (opFactories r))) (transform_ids e r)"
  "relevantTransforms (rm_core e r) = drop_xforms (transform_ids e r) (erase_all (relevantTransforms r) (logical_ids e r))"
  by (simp_all add: rm_core_defs physical_ids_def logical_ids_def transform_ids_def)

lemma rm_core_tables:
  "engineTypeToEngineName (rm_core e r) = erase (engineTypeToEngineName r) e"
  "engineToMDIdType (rm_core e r) = erase (engineToMDIdType r) e"
  "enginePreserveOrder (rm_core e r) = removeEngineFromMap (enginePreserveOrder r) e"
  "enginePreserveDistribution (rm_core e r) = removeEngineFromMap (enginePreserveDistribution r) e"
  "enginePreserveRewindability (rm_core e r) = removeEngineFromMap (enginePreserveRewindability r) e"
  "m_engine_transform_map (costModel (rm_core e r)) = removeEngineFromMap (m_engine_transform_map (costModel r)) e"
  "m_cost_model_params_map (costModel (rm_core e r)) = erase (m_cost_model_params_map (costModel r)) e"
  "preprocessingRules (rm_core e r) = erase_all (preprocessingRules r) (set (subscript [] (engineToPreprocessingRules r) e))"
  "engineToPreprocessingRules (rm_core e r) = erase (engineToPreprocessingRules r) e"
  by (simp_all add: rm_core_defs)

lemma rm_core_converters:
  "boss2cexpressionConverters (rm_core e r) = boss2cexpressionConverters r"
  "cexpression2bossConverters (rm_core e r) = cexpression2bossConverters r"
  "engineToB2CTranslators (rm_core e r) = engineToB2CTranslators r"
  "engineToC2BTranslators (rm_core e r) = engineToC2BTranslators r"
  "engineToB2CScalarTranslators (rm_core e r) = engineToB2CScalarTranslators r"
  "engineToC2BScalarTranslators (rm_core e r) = engineToC2BScalarTranslators r"
  by (simp_all add: rm_core_defs)

lemma rm_translators_all_frame:
  assumes "rm_translators_all b2c c2b e r = Inr r'"
  obtains bs cs where "r' = r\<lparr>boss2cexpressionConverters := bs, cexpression2bossConverters := cs,
      engineToB2CTranslators := erase (engineToB2CTranslators r) e,
      engineToC2BTranslators := erase (engineToC2BTranslators r) e,
      engineToB2CScalarTranslators := erase (engineToB2CScalarTranslators r) e,
      engineToC2BScalarTranslators := erase (engineToC2BScalarTranslators r) e\<rparr>"
  using assms by (auto simp: rm_translators_all_def result_simps)

text \<open>The registry after the removal of the engine \<open>e\<close> with the name \<open>n\<close>, up to the converters.\<close>

definition removed_engine :: "EEngineType \<Rightarrow> string \<Rightarrow> (string \<rightharpoonup> 'v) \<Rightarrow> (string \<rightharpoonup> 'v) \<Rightarrow>
    ('c, 'p, 'f, 'r, 'v, 'a) DynamicRegistry \<Rightarrow> ('c, 'p, 'f, 'r, 'v, 'a) DynamicRegistry" where
  "removed_engine e n bs cs r = (rm_core e r)
     \<lparr>boss2cexpressionConverters := bs, cexpression2bossConverters := cs,
      engineToB2CTranslators := erase (engineToB2CTranslators r) e,
      engineToC2BTranslators := erase (engineToC2BTranslators r) e,
      engineToB2CScalarTranslators := erase (engineToB2CScalarTranslators r) e,
      engineToC2BScalarTranslators := erase (engineToC2BScalarTranslators r) e,
      engineNameToEngineType := erase (engineNameToEngineType r) n\<rparr>"

lemma rm_core_names:
  "rm_core e (r\<lparr>engineNameToEngineType := m\<rparr>) = (rm_core e r)\<lparr>engineNameToEngineType := m\<rparr>"
  by (simp add: rm_core_defs)

lemma RemoveEngine_cases:
  assumes "RemoveEngine b2c c2b n r = Inr r'"
  obtains bs cs where "r' = removed_engine (subscript EetGP (engineNameToEngineType r) n) n bs cs r"
proof -
  define e where "e = subscript EetGP (engineNameToEngineType r) n"
  define m where "m = touch EetGP (engineNameToEngineType r) n"
  obtain r1 where r1: "rm_translators_all b2c c2b e ((rm_core e r)\<lparr>engineNameToEngineType := m\<rparr>) = Inr r1"
      and r': "r' = r1\<lparr>engineNameToEngineType := erase (engineNameToEngineType r1) n\<rparr>"
    using assms(1) unfolding RemoveEngine_def RemoveEngine_type_def rm_core_def [symmetric] rm_core_names Let_def
      e_def m_def rbind_eq_Inr_iff by blast
  have er: "erase m n = erase (engineNameToEngineType r) n"
    by (simp add: m_def erase_def touch_def)
  show ?thesis unfolding e_def [symmetric]
    using r1 by (elim rm_translators_all_frame)
      (rule that [folded e_def], simp add: r' removed_engine_def rm_core_converters er)
qed

lemma removed_engine_fields:
  "engineNameToEngineType (removed_engine e n bs cs r) = erase (engineNameToEngineType r) n"
  "currentEngineType (removed_engine e n bs cs r) = currentEngineType r"
  "currentOperatorId (removed_engine e n bs cs r) = currentOperatorId r"
  "currentTransformId (removed_engine e n bs cs r) = currentTransformId r"
  "opEngineAndNameToOperatorId (removed_engine e n bs cs r) = erase_all (opEngineAndNameToOperatorId r) (op_keys e r)"
  "m_cost_map (costModel (removed_engine e n bs cs r)) = erase_all (m_cost_map (costModel r)) (physical_ids e r)"
  "engineToPhysicalOps (removed_engine e n bs cs r) = erase (engineToPhysicalOps r) e"
  "engineToLogicalOps (removed_engine e n bs cs r) = erase (engineToLogicalOps r) e"
  "transformNameToTransformId (removed_engine e n bs cs r) =
     erase_all (transformNameToTransformId r) (set (subscript [] (engineToTransforms r) e))"
  by (simp_all add: removed_engine_def rm_core_counters rm_core_operators rm_core_transforms)

section \<open>The three tables of ids\<close>

lemma RemoveEngine_tables:
  assumes "RemoveEngine b2c c2b n r = Inr r'"
  shows "currentOperatorId r' = currentOperatorId r" and "currentTransformId r' = currentTransformId r"
    and "currentEngineType r' = currentEngineType r"
    and "opEngineAndNameToOperatorId r' \<subseteq>\<^sub>m opEngineAndNameToOperatorId r"
    and "transformNameToTransformId r' \<subseteq>\<^sub>m transformNameToTransformId r"
    and "engineNameToEngineType r' \<subseteq>\<^sub>m engineNameToEngineType r"
proof -
  have er: "erase m k \<subseteq>\<^sub>m m" for m :: "string \<rightharpoonup> nat" and k by (auto simp: map_le_def)
  obtain bs cs where r': "r' = removed_engine (subscript EetGP (engineNameToEngineType r) n) n bs cs r"
    by (rule RemoveEngine_cases [OF assms])
  show "currentOperatorId r' = currentOperatorId r" "currentTransformId r' = currentTransformId r"
    "currentEngineType r' = currentEngineType r"
    "opEngineAndNameToOperatorId r' \<subseteq>\<^sub>m opEngineAndNameToOperatorId r"
    "transformNameToTransformId r' \<subseteq>\<^sub>m transformNameToTransformId r"
    "engineNameToEngineType r' \<subseteq>\<^sub>m engineNameToEngineType r"
    by (simp_all add: r' removed_engine_fields erase_all_le er)
qed

lemmas reg_step_tables = translator_tables default_tables transform_tables RemoveEngine_tables

lemma ops_step:
  assumes "reg_go r r'"
  shows "(\<exists>k. currentOperatorId r' = Suc (currentOperatorId r) \<and>
      opEngineAndNameToOperatorId r' = (opEngineAndNameToOperatorId r)(k \<mapsto> Suc (currentOperatorId r))) \<or>
    (currentOperatorId r' = currentOperatorId r \<and> opEngineAndNameToOperatorId r' \<subseteq>\<^sub>m opEngineAndNameToOperatorId r)"
  using reg_goD(2) [OF assms] by cases (auto simp: register_defs same_tables_def in_range_succ [OF reg_goD(1) [OF assms]] dest: reg_step_tables)

interpretation ops: id_table reg_go opEngineAndNameToOperatorId currentOperatorId EopSentinel
  by unfold_locales (rule ops_step)

lemma xforms_step:
  assumes "reg_go r r'"
  shows "(\<exists>k. currentTransformId r' = Suc (currentTransformId r) \<and>
      transformNameToTransformId r' = (transformNameToTransformId r)(k \<mapsto> Suc (currentTransformId r))) \<or>
    (currentTransformId r' = currentTransformId r \<and> transformNameToTransformId r' \<subseteq>\<^sub>m transformNameToTransformId r)"
  using reg_goD(2) [OF assms]
proof cases
  case (transform n e x)
  then show ?thesis using transform_tables(2,3) [OF transform] in_range_succ(2) [OF reg_goD(1) [OF assms]] by auto
qed (auto simp: register_defs same_transforms_def dest: reg_step_tables)

interpretation xforms: id_table reg_go transformNameToTransformId currentTransformId ExfSentinel
  by unfold_locales (rule xforms_step)

lemma engines_step:
  assumes "reg_go r r'"
  shows "(\<exists>k. currentEngineType r' = Suc (currentEngineType r) \<and>
      engineNameToEngineType r' = (engineNameToEngineType r)(k \<mapsto> Suc (currentEngineType r))) \<or>
    (currentEngineType r' = currentEngineType r \<and> engineNameToEngineType r' \<subseteq>\<^sub>m engineNameToEngineType r)"
  using reg_goD(2) [OF assms] by cases (auto simp: register_defs same_tables_def in_range_succ [OF reg_goD(1) [OF assms]] dest: reg_step_tables)

interpretation engines: id_table reg_go engineNameToEngineType currentEngineType EetSentinel
  by unfold_locales (rule engines_step)

section \<open>Operators and their cost functions\<close>

definition ops_dynamic :: "('c, 'p, 'f, 'r, 'v, 'a) DynamicRegistry \<Rightarrow> bool" where
  "ops_dynamic r \<longleftrightarrow> (\<forall>k i. opEngineAndNameToOperatorId r k = Some i \<longrightarrow> EopSentinel < i)"

lemma ops_dynamic_step:
  assumes "ops_dynamic r" and "ops.ids_ok r" and "reg_go r r'"
  shows "ops_dynamic r'"
  unfolding ops_dynamic_def
proof (intro allI impI)
  fix k i assume "opEngineAndNameToOperatorId r' k = Some i"
  then have "opEngineAndNameToOperatorId r k = Some i \<or> currentOperatorId r < i"
    by (rule ops.step_binds [OF assms(3)])
  then show "EopSentinel < i"
    using assms(1) ops.ids_okD(1) [OF assms(2)] unfolding ops_dynamic_def by (meson le_less_trans)
qed

text \<open>Every physical operator has a cost function, unless a logical operator took its name; the
  cost functions of the optimizer's own operators stay.\<close>

definition costed :: "('c, 'p, 'f, 'r, 'v, 'a) DynamicRegistry \<Rightarrow> EEngineType \<Rightarrow> string \<Rightarrow> bool" where
  "costed r e n \<longleftrightarrow> (\<exists>i c. opEngineAndNameToOperatorId r (e, n) = Some i \<and> m_cost_map (costModel r) i = Some c)"

definition plain_physical :: "('c, 'p, 'f, 'r, 'v, 'a) DynamicRegistry \<Rightarrow> EEngineType \<Rightarrow> string \<Rightarrow> bool" where
  "plain_physical r e n \<longleftrightarrow> n \<in> set (subscript [] (engineToPhysicalOps r) e) \<and> n \<notin> set (subscript [] (engineToLogicalOps r) e)"

definition builtin_op :: "EOperatorId \<Rightarrow> bool" where
  "builtin_op i \<longleftrightarrow> 0 < i \<and> i < EopSentinel"

lemma cost_kept:
  assumes "m_cost_map (costModel r) \<subseteq>\<^sub>m m_cost_map (costModel r') \<or> dom (m_cost_map (costModel r)) \<subseteq> dom (m_cost_map (costModel r'))"
    and "opEngineAndNameToOperatorId r' (e, n) = opEngineAndNameToOperatorId r (e, n)" and "costed r e n"
  shows "costed r' e n"
  using assms unfolding costed_def by (metis domD domI map_le_implies_dom_le subsetD)

lemma physical_ids_cases:
  assumes "i \<in> physical_ids e r"
  shows "i = EopLogicalGet \<or> (\<exists>n. opEngineAndNameToOperatorId r (e, n) = Some i)"
  using assms by (auto simp: physical_ids_def set_popped split: if_splits)

lemma costed_removed:
  assumes "costed r e' n'" and "e' \<noteq> e" and "ops.ids_ok r" and "ops_dynamic r"
  shows "costed (removed_engine e n bs cs r) e' n'"
proof -
  obtain i c where ic: "opEngineAndNameToOperatorId r (e', n') = Some i" "m_cost_map (costModel r) i = Some c"
    using assms(1) unfolding costed_def by blast
  have "EopSentinel < i" using assms(4) ic(1) unfolding ops_dynamic_def by blast
  then have "i \<noteq> EopLogicalGet" by (simp add: enum_defs)
  moreover have "opEngineAndNameToOperatorId r (e, m) \<noteq> Some i" for m
    using ops.ids_okD(4) [OF assms(3) ic(1), of "(e, m)"] assms(2) by auto
  ultimately have "i \<notin> physical_ids e r" using physical_ids_cases by blast
  moreover have "(e', n') \<notin> op_keys e r" using assms(2) by (auto simp: op_keys_def)
  ultimately show ?thesis using ic by (auto simp: costed_def removed_engine_fields erase_all_def)
qed

lemma builtin_kept:
  assumes "builtin_op i" and "ops_dynamic r"
  shows "m_cost_map (costModel (removed_engine e n bs cs r)) i = m_cost_map (costModel r) i"
proof -
  have "i \<noteq> EopLogicalGet" "\<not> EopSentinel < i" using assms(1) by (auto simp: builtin_op_def EopLogicalGet_def)
  then have "i \<notin> physical_ids e r" using physical_ids_cases assms(2) unfolding ops_dynamic_def by blast
  then show ?thesis by (simp add: removed_engine_fields erase_all_def)
qed

definition costs_ok :: "('c, 'p, 'f, 'r, 'v, 'a) DynamicRegistry \<Rightarrow> bool" where
  "costs_ok r \<longleftrightarrow> (\<forall>e n. plain_physical r e n \<longrightarrow> costed r e n) \<and>
     (\<forall>i. builtin_op i \<longrightarrow> i \<in> fst ` set (m_cost_map_init :: (nat \<times> unit FnCost) list) \<longrightarrow> m_cost_map (costModel r) i \<noteq> None)"

lemma costs_ok_frame:
  fixes r r' :: "('c, 'p, 'f, 'r, 'v, 'a) DynamicRegistry"
  assumes "costs_ok r" and "dom (m_cost_map (costModel r)) \<subseteq> dom (m_cost_map (costModel r'))"
    and "\<And>e n. plain_physical r' e n \<Longrightarrow> \<not> costed r' e n \<Longrightarrow>
      plain_physical r e n \<and> opEngineAndNameToOperatorId r' (e, n) = opEngineAndNameToOperatorId r (e, n)"
  shows "costs_ok r'"
  unfolding costs_ok_def
proof (intro conjI allI impI)
  fix e n assume p: "plain_physical r' e n"
  show "costed r' e n"
  proof (rule ccontr)
    assume no: "\<not> costed r' e n"
    have "costed r e n" using assms(1) assms(3) [OF p no] unfolding costs_ok_def by blast
    then show False using no cost_kept [of r r' e n] assms(2) assms(3) [OF p no] by blast
  qed
next
  fix i assume "builtin_op i" "i \<in> fst ` set (m_cost_map_init :: (nat \<times> unit FnCost) list)"
  then have "m_cost_map (costModel r) i \<noteq> None" using assms(1) unfolding costs_ok_def by blast
  then show "m_cost_map (costModel r') i \<noteq> None" using assms(2) by blast
qed

lemma costs_ok_same: "costs_ok r \<Longrightarrow> same_tables r r' \<Longrightarrow> costs_ok r'"
  by (erule costs_ok_frame) (auto simp: same_tables_def plain_physical_def)

lemma costs_ok_removed:
  assumes "costs_ok r" and "ops.ids_ok r" and "ops_dynamic r"
  shows "costs_ok (removed_engine e n bs cs r)"
  unfolding costs_ok_def
proof (intro conjI allI impI)
  fix e' n' assume p: "plain_physical (removed_engine e n bs cs r) e' n'"
  have ne: "e' \<noteq> e" using p by (auto simp: plain_physical_def removed_engine_fields)
  then have "plain_physical r e' n'"
    using p by (simp add: plain_physical_def removed_engine_fields subscript_def)
  then show "costed (removed_engine e n bs cs r) e' n'"
    using assms(1) ne costed_removed [OF _ ne assms(2,3)] unfolding costs_ok_def by blast
next
  fix i assume i: "builtin_op i" "i \<in> fst ` set (m_cost_map_init :: (nat \<times> unit FnCost) list)"
  then show "m_cost_map (costModel (removed_engine e n bs cs r)) i \<noteq> None"
    using assms(1) unfolding builtin_kept [OF i(1) assms(3)] costs_ok_def by blast
qed

lemma costs_ok_physical: "costs_ok r \<Longrightarrow> costs_ok (RegisterPhysicalOperator n e c r)"
  by (erule costs_ok_frame)
     (auto simp: register_defs cm_RegisterCostFunction_def plain_physical_def costed_def subscript_push_at split: if_splits)

lemma costs_ok_logical: "costs_ok r \<Longrightarrow> costs_ok (RegisterLogicalOperator n e b r)"
  by (erule costs_ok_frame)
     (auto simp: register_defs plain_physical_def costed_def subscript_push_at split: if_splits)

lemma costs_ok_engine: "costs_ok r \<Longrightarrow> costs_ok (RegisterEngineTransform e e' c b1 b2 b3 r)"
  by (erule costs_ok_frame) (auto simp: register_defs cm_RegisterEngineTransform_def plain_physical_def)

lemma costs_ok_params: "costs_ok r \<Longrightarrow> costs_ok (RegisterCostModelParams e p r)"
  by (erule costs_ok_frame) (auto simp: register_defs cm_RegisterCostModelParams_def plain_physical_def)

lemma costs_ok_name: "costs_ok r \<Longrightarrow> costs_ok (RegisterEngine n r)"
  by (erule costs_ok_frame) (auto simp: register_defs plain_physical_def)

lemma costs_ok_cost: "costs_ok r \<Longrightarrow> costs_ok (RegisterCostFunctionForOperator i c r)"
  by (erule costs_ok_frame) (auto simp: register_defs cm_RegisterCostFunction_def plain_physical_def)

text \<open>The other steps change none of the tables.\<close>

lemma costs_ok_step:
  assumes "costs_ok r" and "ops.ids_ok r" and "ops_dynamic r" and "reg_step r r'"
  shows "costs_ok r'"
  using assms(4)
proof cases
  case (remove_engine cb cc n)
  then show ?thesis by (rule RemoveEngine_cases) (use costs_ok_removed [OF assms(1-3)] in simp)
next
  case (physical n e c)
  then show ?thesis using costs_ok_physical [OF assms(1)] by simp
next
  case (logical n e b)
  then show ?thesis using costs_ok_logical [OF assms(1)] by simp
next
  case (cost i c)
  then show ?thesis using costs_ok_cost [OF assms(1)] by simp
next
  case (engine_transform e e' c b1 b2 b3)
  then show ?thesis using costs_ok_engine [OF assms(1)] by simp
next
  case (params e p)
  then show ?thesis using costs_ok_params [OF assms(1)] by simp
next
  case (engine n)
  then show ?thesis using costs_ok_name [OF assms(1)] by simp
qed (auto intro!: costs_ok_same [OF assms(1)] simp: register_defs same_tables_def
       dest: translator_tables default_tables transform_tables(1))

section \<open>Reachable registries\<close>

definition reg_ok :: "('c, 'p, 'f, 'r, 'v, 'a) DynamicRegistry \<Rightarrow> bool" where
  "reg_ok r \<longleftrightarrow> ops.ids_ok r \<and> xforms.ids_ok r \<and> engines.ids_ok r \<and> ops_dynamic r \<and> costs_ok r"

lemma reg_ok_step: "reg_ok r \<Longrightarrow> reg_go r r' \<Longrightarrow> reg_ok r'"
  unfolding reg_ok_def
  using ops.ids_ok_step xforms.ids_ok_step engines.ids_ok_step ops_dynamic_step costs_ok_step reg_goD(2) by blast

lemma reg_ok_steps: "reg_go\<^sup>*\<^sup>* r r' \<Longrightarrow> reg_ok r \<Longrightarrow> reg_ok r'"
  by (induction rule: rtranclp_induct) (auto intro: reg_ok_step)

lemma reg_ok_ctor:
  fixes cm :: "('c, 'p) BOSSCostModel"
  assumes "BOSSCostModel_ctor st segs dflt pcp = Inr cm"
    and "\<forall>i. builtin_op i \<longrightarrow> i \<in> fst ` set (m_cost_map_init :: (nat \<times> unit FnCost) list) \<longrightarrow> fst st i \<noteq> None"
  shows "reg_ok (DynamicRegistry_ctor cm fac b2c c2b :: ('c, 'p, 'f, 'r, 'v, 'a) DynamicRegistry)"
proof -
  have "m_cost_map cm = fst st"
    using assms(1) by (auto simp: BOSSCostModel_ctor_def result_simps)
  then have "costs_ok (DynamicRegistry_ctor cm fac b2c c2b :: ('c, 'p, 'f, 'r, 'v, 'a) DynamicRegistry)"
    using assms(2) by (simp add: costs_ok_def DynamicRegistry_ctor_def plain_physical_def)
  moreover have "ops.ids_ok (DynamicRegistry_ctor cm fac b2c c2b)" "xforms.ids_ok (DynamicRegistry_ctor cm fac b2c c2b)"
    "engines.ids_ok (DynamicRegistry_ctor cm fac b2c c2b)" "ops_dynamic (DynamicRegistry_ctor cm fac b2c c2b)"
    unfolding ops.ids_ok_def xforms.ids_ok_def engines.ids_ok_def
    by (simp_all add: ops_dynamic_def DynamicRegistry_ctor_def enum_defs)
  ultimately show ?thesis unfolding reg_ok_def by blast
qed

lemma static_init_costs:
  "i \<in> fst ` set (m_cost_map_init :: (nat \<times> unit FnCost) list) \<Longrightarrow> fst (static_init :: 'c cost_statics) i \<noteq> None"
proof -
  have "map fst (m_cost_map_init :: (nat \<times> unit FnCost) list) = map fst (m_cost_map_init :: (nat \<times> 'c FnCost) list)"
    by (simp add: m_cost_map_init_def)
  then have "fst ` set (m_cost_map_init :: (nat \<times> unit FnCost) list) = fst ` set (m_cost_map_init :: (nat \<times> 'c FnCost) list)"
    by (metis list.set_map)
  then show "i \<in> fst ` set (m_cost_map_init :: (nat \<times> unit FnCost) list) \<Longrightarrow> fst (static_init :: 'c cost_statics) i \<noteq> None"
    by (simp add: static_init_def map_of_eq_None_iff)
qed

text \<open>
  A registry in use: the first one of the process, one that replaces another and finds the static tables of the cost
  model as that one has left them, or one that an operation has changed.
\<close>

inductive reg_reachable :: "('c, 'p, 'f, 'r, 'v, 'a) DynamicRegistry \<Rightarrow> bool" where
  start: "BOSSCostModel_ctor static_init segs dflt pcp = Inr cm \<Longrightarrow> reg_reachable (DynamicRegistry_ctor cm fac b2c c2b)"
| restart: "reg_reachable r \<Longrightarrow> BOSSCostModel_ctor (cm_statics (costModel r)) segs dflt pcp = Inr cm \<Longrightarrow>
    reg_reachable (DynamicRegistry_ctor cm fac b2c c2b)"
| go_on: "reg_reachable r \<Longrightarrow> reg_go r r' \<Longrightarrow> reg_reachable r'"

lemma reg_reachable_ok: "reg_reachable r \<Longrightarrow> reg_ok r"
proof (induction rule: reg_reachable.induct)
  case (start segs dflt pcp cm fac b2c c2b)
  then show ?case using static_init_costs by (intro reg_ok_ctor) auto
next
  case (restart r segs dflt pcp cm fac b2c c2b)
  then show ?case by (intro reg_ok_ctor [OF restart.hyps(2)]) (simp add: cm_statics_def reg_ok_def costs_ok_def)
next
  case (go_on r r')
  then show ?case by (blast intro: reg_ok_step)
qed

lemma GetOperatorId_Inr: "GetOperatorId r e n True = Inr i \<longleftrightarrow> opEngineAndNameToOperatorId r (e, n) = Some i"
  by (simp add: GetOperatorId_def split: option.splits)

lemma GetTransformId_Inr: "GetTransformId r n True = Inr i \<longleftrightarrow> transformNameToTransformId r n = Some i"
  by (simp add: GetTransformId_def split: option.splits)

lemma GetEngineType_Inr: "GetEngineType r n True = Inr i \<longleftrightarrow> engineNameToEngineType r n = Some i"
  by (simp add: GetEngineType_def split: option.splits)

lemmas getter_Inr = GetOperatorId_Inr GetTransformId_Inr GetEngineType_Inr

section \<open>Properties\<close>

text \<open>
  C18: As long as no counter of ids reaches the end of its 32 bits, ids are not reused: an id of an operator, a
  rule or an engine that names a key at some moment names no other key at any later moment,
  even if the engine that owned the key has been removed meanwhile.
\<close>

theorem registry_ids_never_reused:
  assumes "reg_reachable r" and "reg_go\<^sup>*\<^sup>* r r'"
  shows "(GetOperatorId r e n True = Inr i \<and> GetOperatorId r' e' n' True = Inr i \<longrightarrow> e' = e \<and> n' = n) \<and>
    (GetTransformId r t True = Inr i \<and> GetTransformId r' t' True = Inr i \<longrightarrow> t' = t) \<and>
    (GetEngineType r g True = Inr i \<and> GetEngineType r' g' True = Inr i \<longrightarrow> g' = g)"
proof -
  have ok: "ops.ids_ok r" "xforms.ids_ok r" "engines.ids_ok r"
    using reg_reachable_ok [OF assms(1)] unfolding reg_ok_def by blast+
  show ?thesis
    using ops.id_not_reused [OF assms(2) ok(1), of "(e, n)" i "(e', n')"]
      xforms.id_not_reused [OF assms(2) ok(2), of t i t'] engines.id_not_reused [OF assms(2) ok(3), of g i g']
    unfolding getter_Inr by simp
qed

text \<open>A registry in use: the engine \<open>''Velox''\<close> with one operator.\<close>

definition sample_model :: "(unit, unit) BOSSCostModel" where
  "sample_model = \<lparr>m_cost_map = map_of m_cost_map_init, m_engine_transform_map = Map.empty,
     m_cost_model_params_map = [EetGP \<mapsto> ()]\<rparr>"

definition sample_registry :: "(unit, unit, unit, unit, unit, unit) DynamicRegistry" where
  "sample_registry = RegisterPhysicalOperator ''Filter'' 3 (Registered ())
     (RegisterEngine ''Velox'' (DynamicRegistry_ctor sample_model CXformFactory_ctor () ()))"

lemma sample_reachable: "reg_reachable sample_registry"
proof -
  have m: "BOSSCostModel_ctor static_init 1 () None = Inr sample_model"
    by (simp add: BOSSCostModel_ctor_def sample_model_def static_init_def)
  let ?r = "DynamicRegistry_ctor sample_model CXformFactory_ctor () () :: (unit, unit, unit, unit, unit, unit) DynamicRegistry"
  have "reg_go ?r (RegisterEngine ''Velox'' ?r)"
    unfolding reg_go_def by (intro conjI reg_step.engine) (simp add: in_range_def DynamicRegistry_ctor_def enum_defs)
  then have "reg_reachable (RegisterEngine ''Velox'' ?r)" by (rule reg_reachable.go_on [OF reg_reachable.start [OF m]])
  moreover have "reg_go (RegisterEngine ''Velox'' ?r) sample_registry"
    unfolding reg_go_def sample_registry_def
    by (intro conjI reg_step.physical) (simp add: in_range_def DynamicRegistry_ctor_def enum_defs RegisterEngine_def Let_def enum_succ_def)
  ultimately show ?thesis by (rule reg_reachable.go_on)
qed

lemmas sample_defs = sample_registry_def sample_model_def DynamicRegistry_ctor_def register_defs enum_defs
  cm_RegisterCostFunction_def push_at_def subscript_def enum_succ_def

definition sample_api :: "unit converter_api" where
  "sample_api = \<lparr>api_RemoveTranslator = \<lambda>u i. (), api_RemoveScalarTranslator = \<lambda>u i. ()\<rparr>"

theorem registry_ids_never_reused_witness:
  "GetOperatorId sample_registry 3 ''Filter'' True = Inr 155 \<and> GetTransformId sample_registry ''T'' False = Inr ExfSentinel \<and>
   GetEngineType (RegisterEngine ''Other'' sample_registry) ''Other'' True \<noteq> GetEngineType sample_registry ''Velox'' True"
proof -
  have val: "GetOperatorId sample_registry 3 ''Filter'' True = Inr 155"
    "GetTransformId sample_registry ''T'' False = Inr ExfSentinel"
    "GetEngineType sample_registry ''Velox'' True = Inr 3"
    by (simp_all add: sample_defs GetOperatorId_def GetTransformId_def GetEngineType_def)
  have "reg_go\<^sup>*\<^sup>* sample_registry (RegisterEngine ''Other'' sample_registry)"
    by (rule r_into_rtranclp) (unfold reg_go_def, intro conjI reg_step.engine, simp add: in_range_def sample_defs)
  note registry_ids_never_reused [OF sample_reachable this, where g = "''Velox''" and g' = "''Other''" and i = 3]
  then show ?thesis using val by auto
qed

end
