(* ===== verification/RegistryProps.thy ===== *)
theory RegistryProps
  imports RegistryLaws
begin

text \<open>
  The properties of the registry that clients rely on: engines get a type that is not the sentinel,
  registered operators can be costed, registered rules are found in the rule factory, and an
  engine can be removed, which removes exactly its own entries. The last section shows where the
  code does not do what its callers expect.
\<close>

section \<open>Converters\<close>

text \<open>The translators listed for the engines belong to converters that exist.\<close>

definition listed :: "(EEngineType \<rightharpoonup> (string \<times> nat) list) \<Rightarrow> (string \<rightharpoonup> 'v) \<Rightarrow> bool" where
  "listed l convs \<longleftrightarrow> (\<forall>e. fst ` set (subscript [] l e) \<subseteq> dom convs)"

definition converters_ok :: "('c, 'p, 'f, 'r, 'v, 'a) DynamicRegistry \<Rightarrow> bool" where
  "converters_ok r \<longleftrightarrow>
     listed (engineToB2CTranslators r) (boss2cexpressionConverters r) \<and>
     listed (engineToB2CScalarTranslators r) (boss2cexpressionConverters r) \<and>
     listed (engineToC2BTranslators r) (cexpression2bossConverters r) \<and>
     listed (engineToC2BScalarTranslators r) (cexpression2bossConverters r)"

lemma listed_mono: "listed l cs \<Longrightarrow> dom cs \<subseteq> dom cs' \<Longrightarrow> listed l cs'"
  unfolding listed_def by blast

lemma listed_push: "listed l cs \<Longrightarrow> cs n \<noteq> None \<Longrightarrow> listed (push_at l e (n, i)) (cs(n \<mapsto> cv))"
  unfolding listed_def by (auto simp: subscript_push_at split: if_splits)

lemma listed_upd: "listed l cs \<Longrightarrow> cs n \<noteq> None \<Longrightarrow> listed l (cs(n \<mapsto> cv))"
  by (erule listed_mono) auto

lemma listed_erase: "listed l cs \<Longrightarrow> dom cs \<subseteq> dom cs' \<Longrightarrow> listed (erase l e) cs'"
  unfolding listed_def by (metis (no_types, lifting) erase_apply list.set(1) image_empty empty_subsetI order_trans subscript_def option.case(1))

lemma typed_converter_Inr: "typed_converter typed convs n = Inr cv \<Longrightarrow> convs n = Some cv"
  by (simp add: typed_converter_def split: option.splits if_splits)

lemma converters_ok_register:
  assumes "converters_ok r"
  shows "RegisterBOSS2CExpressionTranslator typed add e n r = Inr r' \<Longrightarrow> converters_ok r'"
    and "RegisterBOSS2CExpressionScalarTranslator typed add e n r = Inr r' \<Longrightarrow> converters_ok r'"
    and "RegisterCExpression2BOSSTranslator typed add e n r = Inr r' \<Longrightarrow> converters_ok r'"
    and "RegisterCExpression2BOSSScalarTranslator typed add e n r = Inr r' \<Longrightarrow> converters_ok r'"
  using assms unfolding converters_ok_def
  by (auto simp: RegisterBOSS2CExpressionTranslator_def RegisterBOSS2CExpressionScalarTranslator_def
    RegisterCExpression2BOSSTranslator_def RegisterCExpression2BOSSScalarTranslator_def result_simps case_prod_beta Let_def
    listed_push listed_upd dest!: typed_converter_Inr)

text \<open>The removal finds every converter, and keeps them all.\<close>

lemma rm_translators_all_ok:
  assumes "converters_ok r"
  obtains bs cs where "rm_translators_all b2c c2b e r = Inr (r\<lparr>boss2cexpressionConverters := bs, cexpression2bossConverters := cs,
      engineToB2CTranslators := erase (engineToB2CTranslators r) e,
      engineToC2BTranslators := erase (engineToC2BTranslators r) e,
      engineToB2CScalarTranslators := erase (engineToB2CScalarTranslators r) e,
      engineToC2BScalarTranslators := erase (engineToC2BScalarTranslators r) e\<rparr>)"
    and "dom bs = dom (boss2cexpressionConverters r)" and "dom cs = dom (cexpression2bossConverters r)"
proof -
  have l: "fst ` set (subscript [] (engineToB2CTranslators r) e) \<subseteq> dom (boss2cexpressionConverters r)"
    "fst ` set (subscript [] (engineToB2CScalarTranslators r) e) \<subseteq> dom (boss2cexpressionConverters r)"
    "fst ` set (subscript [] (engineToC2BTranslators r) e) \<subseteq> dom (cexpression2bossConverters r)"
    "fst ` set (subscript [] (engineToC2BScalarTranslators r) e) \<subseteq> dom (cexpression2bossConverters r)"
    using assms unfolding converters_ok_def listed_def by simp_all
  obtain b1 where b1: "rm_translators (api_RemoveTranslator b2c) (subscript [] (engineToB2CTranslators r) e) (boss2cexpressionConverters r) = Inr b1"
      "dom b1 = dom (boss2cexpressionConverters r)"
    by (rule exE [OF rm_translators_ok [OF l(1)]]) (erule conjE, rule that)
  obtain c1 where c1: "rm_translators (api_RemoveTranslator c2b) (subscript [] (engineToC2BTranslators r) e) (cexpression2bossConverters r) = Inr c1"
      "dom c1 = dom (cexpression2bossConverters r)"
    by (rule exE [OF rm_translators_ok [OF l(3)]]) (erule conjE, rule that)
  obtain b2 where b2: "rm_translators (api_RemoveScalarTranslator b2c) (subscript [] (engineToB2CScalarTranslators r) e) b1 = Inr b2" "dom b2 = dom b1"
    by (rule exE [OF rm_translators_ok [OF l(2) [folded b1(2)]]]) (erule conjE, rule that)
  obtain c2 where c2: "rm_translators (api_RemoveScalarTranslator c2b) (subscript [] (engineToC2BScalarTranslators r) e) c1 = Inr c2" "dom c2 = dom c1"
    by (rule exE [OF rm_translators_ok [OF l(4) [folded c1(2)]]]) (erule conjE, rule that)
  have "rm_translators_all b2c c2b e r = Inr (r\<lparr>boss2cexpressionConverters := b2, cexpression2bossConverters := c2,
      engineToB2CTranslators := erase (engineToB2CTranslators r) e,
      engineToC2BTranslators := erase (engineToC2BTranslators r) e,
      engineToB2CScalarTranslators := erase (engineToB2CScalarTranslators r) e,
      engineToC2BScalarTranslators := erase (engineToC2BScalarTranslators r) e\<rparr>)"
    unfolding rm_translators_all_def by (simp only: b1(1) c1(1) b2(1) c2(1) rbind.simps)
  then show thesis by (rule that) (simp_all only: b1(2) b2(2) c1(2) c2(2))
qed

lemma RemoveEngine_ok:
  assumes "converters_ok r"
  obtains bs cs where "RemoveEngine b2c c2b n r = Inr (removed_engine (subscript EetGP (engineNameToEngineType r) n) n bs cs r)"
    and "dom bs = dom (boss2cexpressionConverters r)" and "dom cs = dom (cexpression2bossConverters r)"
proof -
  define e where "e = subscript EetGP (engineNameToEngineType r) n"
  define m where "m = touch EetGP (engineNameToEngineType r) n"
  define q where "q = (rm_core e r)\<lparr>engineNameToEngineType := m\<rparr>"
  have q: "converters_ok q" using assms by (simp add: converters_ok_def q_def rm_core_converters)
  have er: "erase m n = erase (engineNameToEngineType r) n" by (simp add: m_def erase_def touch_def)
  have Rem: "RemoveEngine b2c c2b n r = rbind (rm_translators_all b2c c2b e q)
      (\<lambda>r1. Inr (r1\<lparr>engineNameToEngineType := erase (engineNameToEngineType r1) n\<rparr>))"
    unfolding RemoveEngine_def RemoveEngine_type_def rm_core_def [symmetric] rm_core_names Let_def e_def m_def q_def ..
  obtain bs cs where bc: "rm_translators_all b2c c2b e q = Inr (q\<lparr>boss2cexpressionConverters := bs, cexpression2bossConverters := cs,
      engineToB2CTranslators := erase (engineToB2CTranslators q) e,
      engineToC2BTranslators := erase (engineToC2BTranslators q) e,
      engineToB2CScalarTranslators := erase (engineToB2CScalarTranslators q) e,
      engineToC2BScalarTranslators := erase (engineToC2BScalarTranslators q) e\<rparr>)"
      "dom bs = dom (boss2cexpressionConverters q)" "dom cs = dom (cexpression2bossConverters q)"
    by (rule rm_translators_all_ok [OF q])
  show thesis
  proof (rule that [of bs cs])
    show "RemoveEngine b2c c2b n r = Inr (removed_engine (subscript EetGP (engineNameToEngineType r) n) n bs cs r)"
      unfolding Rem bc(1) e_def [symmetric] by (simp add: q_def removed_engine_def rm_core_converters er)
  qed (use bc in \<open>simp_all add: q_def rm_core_converters\<close>)
qed

lemma converters_ok_step:
  assumes "converters_ok r" and "reg_step r r'"
  shows "converters_ok r'"
  using assms(2)
proof cases
  case (remove_engine cb cc n)
  obtain bs cs where "RemoveEngine cb cc n r = Inr (removed_engine (subscript EetGP (engineNameToEngineType r) n) n bs cs r)"
    "dom bs = dom (boss2cexpressionConverters r)" "dom cs = dom (cexpression2bossConverters r)"
    by (rule RemoveEngine_ok [OF assms(1)])
  then show ?thesis
    using remove_engine assms(1) unfolding converters_ok_def by (auto simp: removed_engine_def intro!: listed_erase)
next
  case (all_operators ord1 ord2 out)
  then show ?thesis using assms(1) by (auto simp: GetAllOperators_def converters_ok_def result_simps split: prod.splits)
qed (use assms(1) converters_ok_register [OF assms(1)] in
    \<open>auto simp: register_defs converters_ok_def RegisterTransform_def UseDefaultCPUTransforms_def AssignEngineToDefaultOp_def
      result_simps split: option.splits\<close>)

lemma reg_reachable_converters: "reg_reachable r \<Longrightarrow> converters_ok r"
proof (induction rule: reg_reachable.induct)
  case (go_on r r')
  then show ?case by (blast intro: converters_ok_step dest: reg_goD)
qed (simp_all add: converters_ok_def DynamicRegistry_ctor_def listed_def)

section \<open>Engines\<close>

text \<open>
  \<^verbatim>\<open>Engine::UpdateEngineType\<close> always succeeds on a registry in use whose counters are not exhausted: the engine gets a type, which is
  not the sentinel, under its name; a second call finds the same type and changes nothing; and the
  types of all other engines stay as they were.
\<close>

theorem UpdateEngineType_correct:
  assumes "reg_reachable r" and "in_range r"
  shows "\<exists>e r'. UpdateEngineType n r = Inr (e, r') \<and> GetEngineType r' n True = Inr e \<and> e \<noteq> EetSentinel \<and>
    UpdateEngineType n r' = Inr (e, r') \<and> (\<forall>m t. m \<noteq> n \<longrightarrow> GetEngineType r' m t = GetEngineType r m t)"
proof -
  have ok: "engines.ids_ok r" using reg_reachable_ok [OF assms(1)] unfolding reg_ok_def by blast
  show ?thesis
  proof (cases "engineNameToEngineType r n")
    case None
    have "Suc (currentEngineType r) \<noteq> EetSentinel" using engines.ids_okD(1) [OF ok] by simp
    then show ?thesis
      using None in_range_succ(3) [OF assms(2)] by (simp add: UpdateEngineType_def GetEngineType_def RegisterEngine_def Let_def)
  next
    case (Some e)
    then have "e \<noteq> EetSentinel" by (rule engines.ids_okD(3) [OF ok])
    then show ?thesis using Some by (simp add: UpdateEngineType_def GetEngineType_def)
  qed
qed

theorem UpdateEngineType_correct_witness:
  "\<exists>r'. UpdateEngineType ''Other'' sample_registry = Inr (4, r') \<and> GetEngineType r' ''Other'' True = Inr 4"
proof -
  have "\<exists>r'. UpdateEngineType ''Other'' sample_registry = Inr (4, r')"
    by (simp add: UpdateEngineType_def GetEngineType_def sample_defs)
  moreover have "in_range sample_registry" by (simp add: in_range_def sample_defs)
  ultimately show ?thesis using UpdateEngineType_correct [OF sample_reachable, of "''Other''"] by auto
qed

section \<open>Cost functions\<close>

text \<open>
  C24: In every registry in use, for every physical operator registered for an engine that has no logical
  operator of the same name, and for every operator of the optimizer itself, \<^verbatim>\<open>Cost\<close> does not throw for a
  missing cost function, whatever has been registered and removed before: it calls the function it finds,
  unless that is an empty one, which violates its assertion.
\<close>

theorem registered_operators_costed:
  assumes "reg_reachable r"
  shows "(n \<in> set (subscript [] (engineToPhysicalOps r) e) \<and> n \<notin> set (subscript [] (engineToLogicalOps r) e) \<longrightarrow>
      (\<exists>i c. GetOperatorId r e n True = Inr i \<and> cm_Cost (costModel r) run i = (if c = EmptyFnCost then Inl AssertFailed else run c))) \<and>
    (i \<in> fst ` set opIdToString_init \<longrightarrow>
      (\<exists>c. cm_Cost (costModel r) run i = (if c = EmptyFnCost then Inl AssertFailed else run c)))"
proof (intro conjI impI)
  have ok: "costs_ok r" using reg_reachable_ok [OF assms] unfolding reg_ok_def by blast
  have run: "cm_Cost (costModel r) run i = (if c = EmptyFnCost then Inl AssertFailed else run c)"
    if "m_cost_map (costModel r) i = Some c" for i c
    using that by (simp add: cm_Cost_def)
  {
    assume "n \<in> set (subscript [] (engineToPhysicalOps r) e) \<and> n \<notin> set (subscript [] (engineToLogicalOps r) e)"
    then have "costed r e n" using ok unfolding costs_ok_def plain_physical_def by blast
    then show "\<exists>i c. GetOperatorId r e n True = Inr i \<and> cm_Cost (costModel r) run i = (if c = EmptyFnCost then Inl AssertFailed else run c)"
      unfolding costed_def GetOperatorId_Inr using run by blast
  next
    assume "i \<in> fst ` set opIdToString_init"
    then have "builtin_op i \<and> i \<in> fst ` set (m_cost_map_init :: (nat \<times> unit FnCost) list)"
      by (auto simp: opIdToString_init_def m_cost_map_init_def builtin_op_def EopSentinel_def)
    then have "m_cost_map (costModel r) i \<noteq> None" using ok unfolding costs_ok_def by blast
    then show "\<exists>c. cm_Cost (costModel r) run i = (if c = EmptyFnCost then Inl AssertFailed else run c)" using run by blast
  }
qed

theorem registered_operators_costed_witness:
  "(\<exists>i c. GetOperatorId sample_registry 3 ''Filter'' True = Inr i \<and>
      cm_Cost (costModel sample_registry) Inr i = (if c = EmptyFnCost then Inl AssertFailed else Inr c)) \<and>
   (\<exists>c. cm_Cost (costModel sample_registry) Inr 93 = (if c = EmptyFnCost then Inl AssertFailed else Inr c)) \<and>
   cm_Cost (costModel sample_registry) Inr 93 = Inr FnCostScan"
proof -
  have "''Filter'' \<in> set (subscript [] (engineToPhysicalOps sample_registry) 3) \<and>
      ''Filter'' \<notin> set (subscript [] (engineToLogicalOps sample_registry) 3)"
    by (simp add: sample_defs)
  moreover have "93 \<in> fst ` set opIdToString_init" by (simp add: opIdToString_init_def)
  moreover have "cm_Cost (costModel sample_registry) Inr 93 = Inr FnCostScan"
    by (simp add: cm_Cost_def sample_defs m_cost_map_init_def)
  ultimately show ?thesis using registered_operators_costed [OF sample_reachable] by blast
qed

section \<open>Removal of an engine\<close>




lemma engine_tables_removed:
  "engineTypeToEngineName (removed_engine e n bs cs r) e = None"
  "m_cost_model_params_map (costModel (removed_engine e n bs cs r)) e = None"
  "m_engine_transform_map (costModel (removed_engine e n bs cs r)) (e, d) = None"
  "m_engine_transform_map (costModel (removed_engine e n bs cs r)) (d, e) = None"
  by (simp_all add: removed_engine_def rm_core_tables removeEngineFromMap_def)










section \<open>Rules\<close>

text \<open>The rule factory and the registry agree: the array of the factory ends at the last id that the
  registry has given, and every id of a registered rule holds a rule.\<close>

definition xf_sync :: "('c, 'p, 'f, 'r, 'v, 'a) DynamicRegistry \<Rightarrow> bool" where
  "xf_sync r \<longleftrightarrow> factory_ok (dr_Pxff r) \<and> length (xf_rgpxf (dr_Pxff r)) = currentTransformId r + 1 \<and>
     (currentTransformId r = ExfSentinel \<or> xf_rgpxf (dr_Pxff r) ! currentTransformId r \<noteq> None)"

text \<open>
  C23: On a registry whose rule factory holds the built-in rules and whose rule ids are not exhausted, a new rule that reports the next rule id
  and a new name is registered without failure: the id found under its name leads to the rule in
  the factory, the rules registered before keep their ids and are found as before, and the
  registry is ready for the next rule.
\<close>

theorem RegisterTransform_found:
  assumes "xf_sync r" and "currentTransformId r + 1 < 2 ^ 32" and "xfm_Exfid x = currentTransformId r + 1" and "xf_Pxf_name (dr_Pxff r) (xfm_SzId x) = None"
    and "\<not> (xfm_FImplementation x \<and> xfm_FExploration x)"
  shows "\<exists>r'. RegisterTransform n e x r = Inr r' \<and> xf_sync r' \<and>
    GetTransformId r' n True = Inr (xfm_Exfid x) \<and> xf_Pxf (dr_Pxff r') (xfm_Exfid x) = Inr x \<and>
    (\<forall>m. m \<noteq> n \<longrightarrow> GetTransformId r' m True = GetTransformId r m True) \<and>
    (\<forall>i \<le> currentTransformId r. xf_Pxf (dr_Pxff r') i = xf_Pxf (dr_Pxff r) i)"
proof -
  have ok: "factory_ok (dr_Pxff r)" and len: "length (xf_rgpxf (dr_Pxff r)) = currentTransformId r + 1"
    and last: "currentTransformId r = ExfSentinel \<or> xf_rgpxf (dr_Pxff r) ! currentTransformId r \<noteq> None"
    using assms(1) unfolding xf_sync_def by simp_all
  have nx: "enum_succ (currentTransformId r) = currentTransformId r + 1" using assms(2) by (simp add: enum_succ_def)
  have add: "can_add (dr_Pxff r) x"
    using assms(3-5) len last unfolding can_add_def Let_def xf_Pxf_name_def by auto
  obtain fac where fac: "xf_Add (dr_Pxff r) x = Inr fac" "factory_ok fac" "xf_rgpxf fac = put (xf_rgpxf (dr_Pxff r)) x"
    using xf_Add_correct [OF ok add] by blast
  define r' where "r' = r\<lparr>currentTransformId := currentTransformId r + 1,
    transformNameToTransformId := (transformNameToTransformId r)(n \<mapsto> currentTransformId r + 1),
    dr_Pxff := fac, engineToTransforms := push_at (engineToTransforms r) e n\<rparr>"
  have "RegisterTransform n e x r = Inr r'" by (simp add: RegisterTransform_def fac(1) r'_def nx [simplified])
  moreover have "xf_sync r'"
    using fac(2) len assms(3) by (simp add: xf_sync_def r'_def fac(3) put_def nth_append)
  moreover have "xf_Pxf (dr_Pxff r') (xfm_Exfid x) = Inr x"
    using xf_Pxf_added(1) [OF add fac(3)] by (simp add: r'_def)
  moreover have "\<forall>i \<le> currentTransformId r. xf_Pxf (dr_Pxff r') i = xf_Pxf (dr_Pxff r) i"
    using xf_Pxf_added(2) [OF add fac(3)] len assms(3) by (simp add: r'_def)
  ultimately show ?thesis by (simp add: GetTransformId_def r'_def assms(3))
qed

lemma default_transforms_sync:
  assumes "dr_Pxff r = CXformFactory_ctor" and "currentTransformId r = ExfSentinel"
  obtains r' where "UseDefaultCPUTransforms r = Inr r'" and "xf_sync r'" and "currentTransformId r' = ExfSentinel"
    and "\<forall>n. n \<notin> xfm_SzId ` set builtin_rules \<longrightarrow> xf_Pxf_name (dr_Pxff r') n = None"
proof -
  obtain fac where fac: "CXformFactory_Instantiate CXformFactory_ctor = Inr fac" "factory_ok fac"
      "length (xf_rgpxf fac) = ExfSentinel + 1" "\<forall>x. stored fac x \<longleftrightarrow> x \<in> set builtin_rules"
    by (rule Instantiate_ok)
  show thesis
  proof (rule that)
    show "UseDefaultCPUTransforms r = Inr (r\<lparr>usingDefaultOps := True, dr_Pxff := fac\<rparr>)"
      by (simp add: UseDefaultCPUTransforms_def assms(1) fac(1))
    show "xf_sync (r\<lparr>usingDefaultOps := True, dr_Pxff := fac\<rparr>)" using fac(2,3) assms(2) by (simp add: xf_sync_def)
    have "xf_phmszxform fac n = None" if "n \<notin> xfm_SzId ` set builtin_rules" for n
    proof (rule ccontr)
      assume "xf_phmszxform fac n \<noteq> None"
      then obtain y where "stored fac y" "xfm_SzId y = n" using factory_ok_name [OF fac(2), of n] by blast
      then show False using fac(4) that by blast
    qed
    then show "\<forall>n. n \<notin> xfm_SzId ` set builtin_rules \<longrightarrow> xf_Pxf_name (dr_Pxff (r\<lparr>usingDefaultOps := True, dr_Pxff := fac\<rparr>)) n = None"
      by (simp add: xf_Pxf_name_def)
  qed (simp add: assms(2))
qed

definition sample_rule :: CXform where
  "sample_rule = \<lparr>xfm_Exfid = 153, xfm_SzId = ''VeloxScan'', xfm_FExploration = False, xfm_FImplementation = True\<rparr>"

theorem RegisterTransform_found_witness:
  "\<exists>r1 r2. UseDefaultCPUTransforms sample_registry = Inr r1 \<and>
     RegisterTransform ''T'' 3 sample_rule r1 = Inr r2 \<and>
     GetTransformId r2 ''T'' True = Inr 153 \<and> xf_Pxf (dr_Pxff r2) 153 = Inr sample_rule"
proof -
  have s: "dr_Pxff sample_registry = CXformFactory_ctor" "currentTransformId sample_registry = ExfSentinel"
    by (simp_all add: sample_defs)
  obtain r1 where r1: "UseDefaultCPUTransforms sample_registry = Inr r1" "xf_sync r1"
      "currentTransformId r1 = ExfSentinel"
      "\<forall>n. n \<notin> xfm_SzId ` set builtin_rules \<longrightarrow> xf_Pxf_name (dr_Pxff r1) n = None"
    by (rule default_transforms_sync [OF s])
  have rng: "currentTransformId r1 + 1 < 2 ^ 32" by (simp add: r1(3) ExfSentinel_def)
  have id: "xfm_Exfid sample_rule = currentTransformId r1 + 1" by (simp add: sample_rule_def r1(3) ExfSentinel_def)
  have "xfm_SzId sample_rule \<notin> xfm_SzId ` set builtin_rules"
    using builtin_initials [of "xfm_SzId sample_rule"] by (auto simp: sample_rule_def)
  then have nm: "xf_Pxf_name (dr_Pxff r1) (xfm_SzId sample_rule) = None"
    using spec [OF r1(4)] by (rule rev_mp)
  have kind: "\<not> (xfm_FImplementation sample_rule \<and> xfm_FExploration sample_rule)" by (simp add: sample_rule_def)
  have e: "xfm_Exfid sample_rule = 153" by (simp add: sample_rule_def)
  obtain r2 where "RegisterTransform ''T'' 3 sample_rule r1 = Inr r2" "GetTransformId r2 ''T'' True = Inr 153"
      "xf_Pxf (dr_Pxff r2) 153 = Inr sample_rule"
    using RegisterTransform_found [OF r1(2) rng id nm kind, of "''T''" 3] unfolding e by (elim exE conjE)
  with r1(1) show ?thesis by (intro exI conjI)
qed

text \<open>
  Without the built-in rules the registration of the first dynamic rule fails: the check on the order
  of the rules reads the element before the id of the rule, which is past the end of the array.
\<close>

theorem dynamic_rule_needs_defaults:
  assumes "dr_Pxff r = CXformFactory_ctor" and "xfm_Exfid x = ExfSentinel + 1"
  shows "RegisterTransform n e x r = Inl OutOfBounds"
  by (simp add: RegisterTransform_def xf_Add_def xf_store_def assms CXformFactory_ctor_def)

theorem dynamic_rule_needs_defaults_witness:
  "RegisterTransform ''T'' 3 sample_rule sample_registry = Inl OutOfBounds"
  by (rule dynamic_rule_needs_defaults) (simp_all add: sample_defs sample_rule_def)

section \<open>Where the registry surprises\<close>

text \<open>
  C34: The rewindability flag given for an engine transition is ignored: what is stored, and later answered,
  is the distribution flag. The flags for order and distribution are answered as given.
\<close>

theorem rewindability_flag_ignored:
  "fst (GetEnginePreserveRewindability from to (RegisterEngineTransform from to f ord dist rew r)) = dist \<and>
   fst (GetEnginePreserveDistribution from to (RegisterEngineTransform from to f ord dist rew r)) = dist \<and>
   fst (GetEnginePreserveOrder from to (RegisterEngineTransform from to f ord dist rew r)) = ord"
  by (simp add: register_defs subscript_def)

text \<open>
  Removing an engine by a name that is not registered removes the engine of the optimizer itself: its
  name and its cost parameters are gone, and asking for the parameters ends the program.
\<close>

theorem RemoveEngine_unknown_name:
  assumes "reg_reachable r" and "GetEngineType r g False = Inr EetSentinel"
  shows "\<exists>r'. RemoveEngine b2c c2b g r = Inr r' \<and> engineTypeToEngineName r' EetGP = None \<and>
    cm_GetCostModelParams (costModel r') EetGP = Inl (RuntimeError ''terminate'')"
proof -
  have "engines.ids_ok r" using reg_reachable_ok [OF assms(1)] by (simp add: reg_ok_def)
  then have "engineNameToEngineType r g = None"
    using assms(2) engines.ids_okD(3) [of r g] by (auto simp: GetEngineType_def split: option.splits)
  then have e: "subscript EetGP (engineNameToEngineType r) g = EetGP" by simp
  obtain bs cs where "RemoveEngine b2c c2b g r = Inr (removed_engine EetGP g bs cs r)"
    by (rule RemoveEngine_ok [OF reg_reachable_converters [OF assms(1)], of b2c c2b g, unfolded e])
  then show ?thesis by (auto simp: engine_tables_removed cm_GetCostModelParams_def)
qed

theorem RemoveEngine_unknown_name_witness:
  "cm_GetCostModelParams (costModel sample_registry) EetGP = Inr () \<and>
   (\<exists>r'. RemoveEngine sample_api sample_api ''Typo'' sample_registry = Inr r' \<and>
      cm_GetCostModelParams (costModel r') EetGP = Inl (RuntimeError ''terminate''))"
proof -
  have "GetEngineType sample_registry ''Typo'' False = Inr EetSentinel"
    by (simp add: sample_defs GetEngineType_def)
  from RemoveEngine_unknown_name [OF sample_reachable this, of sample_api sample_api]
  show ?thesis by (auto simp: cm_GetCostModelParams_def sample_defs)
qed

lemma all_registered_names: "names e = None \<Longrightarrow> e \<notin> set es \<Longrightarrow> fst (all_registered ops es names out) e = None"
  by (induction es arbitrary: names out) (auto simp: touch_apply)

text \<open>
  The removal of an engine leaves the optimizer's own operators assigned to it: once they have been
  assigned to an engine that is then removed, listing all operators throws.
\<close>

theorem GetAllOperators_after_removal:
  assumes "reg_reachable r" and "GetEngineType r g True = Inr e" and "usingDefaultOps r"
    and "defaultEngineTypes r i = Some d"
    and "RemoveEngine b2c c2b g (UseDefaultCPUOps e r) = Inr r'"
    and "set ord1 = dom (engineToPhysicalOps r')" and "set ord2 = {(i, d). defaultEngineTypes r' i = Some d}"
  shows "GetAllOperators ord1 ord2 r' = Inl (RuntimeError ''out_of_range'')"
proof -
  let ?r = "UseDefaultCPUOps e r"
  have "subscript EetGP (engineNameToEngineType ?r) g = e" using assms(2) by (simp add: GetEngineType_Inr UseDefaultCPUOps_def)
  then obtain bs cs where r': "r' = removed_engine e g bs cs ?r"
    using RemoveEngine_cases [OF assms(5)] by metis
  have def: "defaultEngineTypes r' = map_option (\<lambda>x. e) \<circ> defaultEngineTypes r" "usingDefaultOps r'"
    using assms(3) by (simp_all add: r' removed_engine_def rm_core_counters UseDefaultCPUOps_def)
  have "e \<notin> set ord1" using assms(6) by (auto simp: r' removed_engine_fields)
  then have names: "fst (all_registered (engineToPhysicalOps r') ord1 (engineTypeToEngineName r') Map.empty) e = None"
    by (intro all_registered_names) (simp_all add: r' engine_tables_removed)
  have "(i, e) \<in> set ord2" using assms(4,7) by (simp add: def)
  moreover have all_e: "snd kv = e" if "kv \<in> set ord2" for kv using that assms(7) by (auto simp: def)
  ultimately obtain kv kvs where "ord2 = kv # kvs" by (cases ord2) auto
  then obtain j where "ord2 = (j, e) # kvs" using all_e [of kv] by (cases kv) simp
  then show ?thesis
    using names def(2) by (auto simp: GetAllOperators_def split: prod.splits)
qed

lemma reg_reachable_step: "reg_reachable r \<Longrightarrow> in_range r \<Longrightarrow> reg_step r r' \<Longrightarrow> reg_reachable r'"
  by (rule reg_reachable.go_on) (simp_all add: reg_go_def)

lemma map_listing:
  assumes "finite (dom m)"
  obtains kvs where "set kvs = {(k, v). m k = Some v}"
proof -
  have "{(k, v). m k = Some v} = (\<lambda>k. (k, the (m k))) ` dom m" by force
  then have "finite {(k, v). m k = Some v}" using assms by simp
  then show thesis using that finite_list by blast
qed

theorem GetAllOperators_after_removal_witness:
  "\<exists>r1 r2 ord1 ord2. UseDefaultCPUTransforms sample_registry = Inr r1 \<and>
     RemoveEngine sample_api sample_api ''Velox'' (UseDefaultCPUOps 3 r1) = Inr r2 \<and>
     GetAllOperators ord1 ord2 r2 = Inl (RuntimeError ''out_of_range'')"
proof -
  have s: "dr_Pxff sample_registry = CXformFactory_ctor" "currentTransformId sample_registry = ExfSentinel"
    by (simp_all add: sample_defs)
  obtain r1 where r1: "UseDefaultCPUTransforms sample_registry = Inr r1"
    by (rule default_transforms_sync [OF s])
  obtain fac where fac: "r1 = sample_registry\<lparr>usingDefaultOps := True, dr_Pxff := fac\<rparr>"
    using r1 by (auto simp: UseDefaultCPUTransforms_def result_simps)
  have rng: "in_range sample_registry" by (simp add: in_range_def sample_defs)
  have reach: "reg_reachable r1" by (rule reg_reachable_step [OF sample_reachable rng reg_step.default_transforms [OF r1]])
  moreover have "in_range r1" using rng by (simp add: in_range_def fac)
  ultimately have "converters_ok (UseDefaultCPUOps 3 r1)"
    by (intro reg_reachable_converters) (rule reg_reachable_step [OF _ _ reg_step.default_ops])
  then obtain r2 where r2: "RemoveEngine sample_api sample_api ''Velox'' (UseDefaultCPUOps 3 r1) = Inr r2"
    using RemoveEngine_ok by metis
  obtain bs cs where r2': "r2 = removed_engine (subscript EetGP (engineNameToEngineType (UseDefaultCPUOps 3 r1)) ''Velox'') ''Velox'' bs cs (UseDefaultCPUOps 3 r1)"
    by (rule RemoveEngine_cases [OF r2])
  have "dom (defaultEngineTypes r2) \<subseteq> dom (defaultEngineTypes sample_registry)" "dom (engineToPhysicalOps r2) \<subseteq> {3}"
    by (auto simp: r2' removed_engine_def rm_core_counters rm_core_operators UseDefaultCPUOps_def fac sample_defs split: if_splits)
  moreover have "finite (dom (defaultEngineTypes sample_registry))" by (simp add: sample_defs finite_dom_map_of)
  ultimately have fin: "finite (dom (defaultEngineTypes r2))" "finite (dom (engineToPhysicalOps r2))"
    by (meson finite_subset finite.intros)+
  obtain ord2 where o2: "set ord2 = {(i, d). defaultEngineTypes r2 i = Some d}" by (rule map_listing [OF fin(1)])
  obtain ord1 where o1: "set ord1 = dom (engineToPhysicalOps r2)" using finite_list [OF fin(2)] by blast
  have e: "GetEngineType r1 ''Velox'' True = Inr 3" "usingDefaultOps r1"
    by (simp_all add: fac sample_defs GetEngineType_def)
  have d: "defaultEngineTypes r1 93 = Some EetGP" by (simp add: fac sample_defs opIdToString_init_def)
  show ?thesis
    using GetAllOperators_after_removal [OF reach e d r2 o1 o2] r1 r2 by (intro exI conjI)
qed

end
