(* ===== verification/PlanProps.thy ===== *)
theory PlanProps
  imports Registry
begin

text \<open>
  The plan properties order, rewindability and engine, the operators that enforce them
  (\<^verbatim>\<open>CPhysicalSort\<close>, \<^verbatim>\<open>CPhysicalSpool\<close>, \<^verbatim>\<open>CPhysicalEngineTransition\<close>) and the check of enforceable
  properties of \<^verbatim>\<open>CEngine\<close>. The distribution, the partition propagation and the common table
  expressions of a plan are not part of the records below: what the check reads of them is an argument.
\<close>

section \<open>Order\<close>

datatype ENullTreatment = EntAuto | EntFirst | EntLast

text \<open>The sort operator of an order expression is compared by its metadata id.\<close>

record COrderExpression =
  oe_mdid :: nat
  oe_pcr :: ULONG
  oe_ent :: ENullTreatment

type_synonym COrderSpec = "COrderExpression list"

definition oe_Matches :: "COrderExpression \<Rightarrow> COrderExpression \<Rightarrow> bool" where
  "oe_Matches this poe \<longleftrightarrow> oe_mdid poe = oe_mdid this \<and> oe_pcr poe = oe_pcr this \<and> oe_ent poe = oe_ent this"

text \<open>The loop of \<^verbatim>\<open>FSatisfies\<close> over the positions of the requirement, from \<open>ul\<close> on.\<close>

fun os_satisfies_loop :: "COrderSpec \<Rightarrow> COrderSpec \<Rightarrow> bool" where
  "os_satisfies_loop this [] \<longleftrightarrow> True"
| "os_satisfies_loop [] (p # ps) \<longleftrightarrow> False"
| "os_satisfies_loop (t # ts) (p # ps) \<longleftrightarrow> (if oe_Matches t p then os_satisfies_loop ts ps else False)"

definition os_FSatisfies :: "COrderSpec \<Rightarrow> COrderSpec \<Rightarrow> bool" where
  "os_FSatisfies this pos \<longleftrightarrow> (if length this \<ge> length pos then os_satisfies_loop this pos else False)"

definition os_Matches :: "COrderSpec \<Rightarrow> COrderSpec \<Rightarrow> bool result" where
  "os_Matches this pos =
     (let fMatch = (length this = length pos \<and> os_FSatisfies this pos)
      in gpos_assert (fMatch \<longrightarrow> os_FSatisfies pos this) (Inr fMatch))"

definition os_Append :: "COrderSpec \<Rightarrow> nat \<Rightarrow> ULONG \<Rightarrow> ENullTreatment \<Rightarrow> COrderSpec" where
  "os_Append this mdid colref ent = this @ [\<lparr>oe_mdid = mdid, oe_pcr = colref, oe_ent = ent\<rparr>]"

definition os_IsEmpty :: "COrderSpec \<Rightarrow> bool" where
  "os_IsEmpty this \<longleftrightarrow> length this = 0"

section \<open>Rewindability\<close>

datatype ERewindabilityType = ErtMarkRestore | ErtRewindable | ErtRescannable | ErtNone
datatype EMotionHazardType = EmhtMotion | EmhtNoMotion

record CRewindabilitySpec =
  rs_Ert :: ERewindabilityType
  rs_Emht :: EMotionHazardType

definition rs_HasMotionHazard :: "CRewindabilitySpec \<Rightarrow> bool" where
  "rs_HasMotionHazard prs \<longleftrightarrow> rs_Emht prs = EmhtMotion"

definition rs_IsCheckRequired :: "CRewindabilitySpec \<Rightarrow> bool" where
  "rs_IsCheckRequired prs \<longleftrightarrow> rs_Ert prs \<noteq> ErtNone"

definition rs_Matches :: "CRewindabilitySpec \<Rightarrow> CRewindabilitySpec \<Rightarrow> bool" where
  "rs_Matches this prs \<longleftrightarrow> rs_Ert this = rs_Ert prs \<and> rs_Emht this = rs_Emht prs"

definition rs_FSatisfies :: "CRewindabilitySpec \<Rightarrow> CRewindabilitySpec \<Rightarrow> bool" where
  "rs_FSatisfies this prs \<longleftrightarrow>
     (if rs_Ert prs = ErtNone then True
      else if rs_Ert this = ErtNone then False
      else if rs_Ert this = ErtRescannable \<and> (rs_Ert prs = ErtRewindable \<or> rs_Ert prs = ErtMarkRestore) then False
      else if rs_Ert this = ErtRewindable \<and> rs_Ert prs = ErtMarkRestore then False
      else if rs_HasMotionHazard prs \<and> rs_HasMotionHazard this then False
      else True)"

section \<open>Engine\<close>

definition es_FSatisfies :: "EEngineType \<Rightarrow> EEngineType \<Rightarrow> bool" where
  "es_FSatisfies this pes \<longleftrightarrow> (if this = pes \<or> pes = EetAny then True else False)"

section \<open>Required and derived properties\<close>

record CReqdPropPlan =
  rq_Pos :: COrderSpec
  rq_Prs :: CRewindabilitySpec
  rq_Pes :: EEngineType

record CDrvdPropPlan =
  dp_Pos :: COrderSpec
  dp_Prs :: CRewindabilitySpec
  dp_Pes :: EEngineType

definition dp_FSatisfies :: "CDrvdPropPlan \<Rightarrow> CReqdPropPlan \<Rightarrow> bool" where
  "dp_FSatisfies this prpp \<longleftrightarrow> os_FSatisfies (dp_Pos this) (rq_Pos prpp) \<and>
     rs_FSatisfies (dp_Prs this) (rq_Prs prpp) \<and> es_FSatisfies (dp_Pes this) (rq_Pes prpp)"

section \<open>The enforcers\<close>

text \<open>The operators that the property specs append; the flags of a transition are those that the
  registry holds for the pair of engines.\<close>

datatype enforcer =
    CPhysicalSort COrderSpec
  | CPhysicalSpool bool
  | CPhysicalEngineTransition EEngineType bool bool bool

definition EopPhysicalSort :: EOperatorId where "EopPhysicalSort = 136"
definition EopPhysicalSpool :: EOperatorId where "EopPhysicalSpool = 139"

text \<open>The helpers of \<^verbatim>\<open>CPhysical\<close> that pass a property of the child through.\<close>

definition PrsDerivePassThruOuter :: "CDrvdPropPlan \<Rightarrow> CRewindabilitySpec" where
  "PrsDerivePassThruOuter child =
     (if rs_Ert (dp_Prs child) = ErtMarkRestore then \<lparr>rs_Ert = ErtRewindable, rs_Emht = rs_Emht (dp_Prs child)\<rparr>
      else dp_Prs child)"

definition tr_PosDerive :: "bool \<Rightarrow> CDrvdPropPlan \<Rightarrow> COrderSpec" where
  "tr_PosDerive preserve_order child = (if preserve_order then dp_Pos child else [])"

fun PosDerive :: "enforcer \<Rightarrow> CDrvdPropPlan \<Rightarrow> COrderSpec" where
  "PosDerive (CPhysicalSort pos) child = pos"
| "PosDerive (CPhysicalSpool eager) child = dp_Pos child"
| "PosDerive (CPhysicalEngineTransition pes po pd pr) child = tr_PosDerive po child"

definition sort_PrsDerive :: CRewindabilitySpec where
  "sort_PrsDerive = \<lparr>rs_Ert = ErtMarkRestore, rs_Emht = EmhtNoMotion\<rparr>"

definition spool_PrsDerive :: "bool \<Rightarrow> CDrvdPropPlan \<Rightarrow> CRewindabilitySpec" where
  "spool_PrsDerive eager child = \<lparr>rs_Ert = ErtMarkRestore,
     rs_Emht = (if \<not> eager \<and> rs_HasMotionHazard (dp_Prs child) then EmhtMotion else EmhtNoMotion)\<rparr>"

definition tr_PrsDerive :: "bool \<Rightarrow> CDrvdPropPlan \<Rightarrow> CRewindabilitySpec" where
  "tr_PrsDerive preserve_rewindability child =
     (if preserve_rewindability then PrsDerivePassThruOuter child else \<lparr>rs_Ert = ErtNone, rs_Emht = rs_Emht (dp_Prs child)\<rparr>)"

fun PrsDerive :: "enforcer \<Rightarrow> CDrvdPropPlan \<Rightarrow> CRewindabilitySpec" where
  "PrsDerive (CPhysicalSort pos) child = sort_PrsDerive"
| "PrsDerive (CPhysicalSpool eager) child = spool_PrsDerive eager child"
| "PrsDerive (CPhysicalEngineTransition pes po pd pr) child = tr_PrsDerive pr child"

text \<open>The engine of an operator of the optimizer is the one that the registry assigns to it.\<close>

fun PesDerive :: "('c, 'p, 'f, 'r, 'v, 'a) DynamicRegistry \<Rightarrow> enforcer \<Rightarrow> EEngineType" where
  "PesDerive r (CPhysicalSort pos) = fst (GetEngineForDefaultOp EopPhysicalSort r)"
| "PesDerive r (CPhysicalSpool eager) = fst (GetEngineForDefaultOp EopPhysicalSpool r)"
| "PesDerive r (CPhysicalEngineTransition pes po pd pr) = pes"

definition derive_plan_props :: "('c, 'p, 'f, 'r, 'v, 'a) DynamicRegistry \<Rightarrow> enforcer \<Rightarrow> CDrvdPropPlan \<Rightarrow> CDrvdPropPlan" where
  "derive_plan_props r pop child = \<lparr>dp_Pos = PosDerive pop child, dp_Prs = PrsDerive pop child, dp_Pes = PesDerive r pop\<rparr>"

text \<open>What the operator requires of its child; \<open>outer\<close> says whether the subtree has outer references.\<close>

fun PosRequired :: "enforcer \<Rightarrow> CReqdPropPlan \<Rightarrow> COrderSpec" where
  "PosRequired (CPhysicalSort pos) prpp = []"
| "PosRequired (CPhysicalSpool eager) prpp = rq_Pos prpp"
| "PosRequired (CPhysicalEngineTransition pes po pd pr) prpp = []"

definition sort_PrsRequired :: "bool \<Rightarrow> CRewindabilitySpec" where
  "sort_PrsRequired outer = \<lparr>rs_Ert = (if outer then ErtRescannable else ErtNone), rs_Emht = EmhtNoMotion\<rparr>"

definition spool_PrsRequired :: "bool \<Rightarrow> bool \<Rightarrow> CRewindabilitySpec \<Rightarrow> CRewindabilitySpec" where
  "spool_PrsRequired outer eager prsRequired = \<lparr>rs_Ert = (if outer then ErtRescannable else ErtNone),
     rs_Emht = (if rs_HasMotionHazard prsRequired \<and> \<not> eager then EmhtMotion else EmhtNoMotion)\<rparr>"

fun PrsRequired :: "bool \<Rightarrow> enforcer \<Rightarrow> CReqdPropPlan \<Rightarrow> CRewindabilitySpec" where
  "PrsRequired outer (CPhysicalSort pos) prpp = sort_PrsRequired outer"
| "PrsRequired outer (CPhysicalSpool eager) prpp = spool_PrsRequired outer eager (rq_Prs prpp)"
| "PrsRequired outer (CPhysicalEngineTransition pes po pd pr) prpp = rq_Prs prpp"

fun PesRequired :: "('c, 'p, 'f, 'r, 'v, 'a) DynamicRegistry \<Rightarrow> enforcer \<Rightarrow> EEngineType" where
  "PesRequired r (CPhysicalSort pos) = fst (GetEngineForDefaultOp EopPhysicalSort r)"
| "PesRequired r (CPhysicalSpool eager) = fst (GetEngineForDefaultOp EopPhysicalSpool r)"
| "PesRequired r (CPhysicalEngineTransition pes po pd pr) = EetAny"

definition child_request ::
  "('c, 'p, 'f, 'r, 'v, 'a) DynamicRegistry \<Rightarrow> bool \<Rightarrow> enforcer \<Rightarrow> CReqdPropPlan \<Rightarrow> CReqdPropPlan" where
  "child_request r outer pop prpp =
     \<lparr>rq_Pos = PosRequired pop prpp, rq_Prs = PrsRequired outer pop prpp, rq_Pes = PesRequired r pop\<rparr>"

section \<open>Enforcing types\<close>

datatype EPropEnforcingType = EpetRequired | EpetOptional | EpetProhibited | EpetUnnecessary

definition epet_FEnforce :: "EPropEnforcingType \<Rightarrow> bool" where
  "epet_FEnforce epet \<longleftrightarrow> epet = EpetOptional \<or> epet = EpetRequired"

definition epet_FOptimize :: "EPropEnforcingType \<Rightarrow> bool" where
  "epet_FOptimize epet \<longleftrightarrow> epet = EpetOptional \<or> epet = EpetUnnecessary"

text \<open>\<open>drvd\<close> are the derived properties of the operator itself.\<close>

definition sort_EpetOrder :: "COrderSpec \<Rightarrow> COrderSpec \<Rightarrow> EPropEnforcingType" where
  "sort_EpetOrder m_pos posRequired = (if os_FSatisfies m_pos posRequired then EpetUnnecessary else EpetProhibited)"

definition tr_EpetOrder :: "CDrvdPropPlan \<Rightarrow> COrderSpec \<Rightarrow> EPropEnforcingType" where
  "tr_EpetOrder drvd posRequired = (if os_FSatisfies (dp_Pos drvd) posRequired then EpetUnnecessary else EpetRequired)"

fun EpetOrder :: "enforcer \<Rightarrow> CDrvdPropPlan \<Rightarrow> CReqdPropPlan \<Rightarrow> EPropEnforcingType" where
  "EpetOrder (CPhysicalSort pos) drvd prpp = sort_EpetOrder pos (rq_Pos prpp)"
| "EpetOrder (CPhysicalSpool eager) drvd prpp = EpetUnnecessary"
| "EpetOrder (CPhysicalEngineTransition pes po pd pr) drvd prpp = tr_EpetOrder drvd (rq_Pos prpp)"

fun EpetRewindability :: "enforcer \<Rightarrow> EPropEnforcingType" where
  "EpetRewindability (CPhysicalSort pos) = EpetUnnecessary"
| "EpetRewindability (CPhysicalSpool eager) = EpetUnnecessary"
| "EpetRewindability (CPhysicalEngineTransition pes po pd pr) = EpetUnnecessary"

definition tr_EpetEngine :: "EEngineType \<Rightarrow> EEngineType \<Rightarrow> EPropEnforcingType" where
  "tr_EpetEngine m_pes pesRequired = (if es_FSatisfies m_pes pesRequired then EpetUnnecessary else EpetProhibited)"

definition phys_EpetEngine :: "CDrvdPropPlan \<Rightarrow> EEngineType \<Rightarrow> EPropEnforcingType" where
  "phys_EpetEngine drvd pesRequired = (if es_FSatisfies (dp_Pes drvd) pesRequired then EpetUnnecessary else EpetRequired)"

fun EpetEngine :: "enforcer \<Rightarrow> CDrvdPropPlan \<Rightarrow> CReqdPropPlan \<Rightarrow> EPropEnforcingType" where
  "EpetEngine (CPhysicalEngineTransition pes po pd pr) drvd prpp = tr_EpetEngine pes (rq_Pes prpp)"
| "EpetEngine pop drvd prpp = phys_EpetEngine drvd (rq_Pes prpp)"

section \<open>The check of enforceable properties\<close>

record trace_flags =
  EopttraceDisableSort :: bool
  EopttraceDisableSpool :: bool
  EopttraceDisableEngineEnforcement :: bool
  EopttraceMotionHazardHandling :: bool

definition eng_FOptimize :: "EPropEnforcingType list \<Rightarrow> bool" where
  "eng_FOptimize epets \<longleftrightarrow> list_all epet_FOptimize epets"

definition eng_FProhibited :: "EPropEnforcingType list \<Rightarrow> bool" where
  "eng_FProhibited epets \<longleftrightarrow> EpetProhibited \<in> set epets"

text \<open>The enforcers that the specs append: over the derived properties \<open>drvd\<close> of the operator below.\<close>

definition os_AppendEnforcers :: "CReqdPropPlan \<Rightarrow> enforcer" where
  "os_AppendEnforcers prpp = CPhysicalSort (rq_Pos prpp)"

definition rs_AppendEnforcers :: "trace_flags \<Rightarrow> CReqdPropPlan \<Rightarrow> CDrvdPropPlan \<Rightarrow> enforcer" where
  "rs_AppendEnforcers tf prpp drvd = CPhysicalSpool
     (\<not> EopttraceMotionHazardHandling tf \<or> (rs_HasMotionHazard (rq_Prs prpp) \<and> rs_HasMotionHazard (dp_Prs drvd)))"

definition es_AppendEnforcers ::
  "('c, 'p, 'f, 'r, 'v, 'a) DynamicRegistry \<Rightarrow> trace_flags \<Rightarrow> CReqdPropPlan \<Rightarrow> CDrvdPropPlan \<Rightarrow> enforcer result" where
  "es_AppendEnforcers r tf prpp drvd = gpos_assert (\<not> EopttraceDisableEngineEnforcement tf)
     (Inr (CPhysicalEngineTransition (rq_Pes prpp)
        (fst (GetEnginePreserveOrder (dp_Pes drvd) (rq_Pes prpp) r))
        (fst (GetEnginePreserveDistribution (dp_Pes drvd) (rq_Pes prpp) r))
        (fst (GetEnginePreserveRewindability (dp_Pes drvd) (rq_Pes prpp) r))))"

text \<open>
  \<^verbatim>\<open>FCheckEnfdProps\<close> on an operator whose children have been optimized: whether the operator can be
  optimized as it is, and the enforcers to add on top of its group. The arguments \<open>valid\<close>, \<open>epetDist\<close> and
  \<open>epetPart\<close> are the checks of the properties that are not modelled; \<open>encs\<close> and \<open>encs'\<close> the enforcers
  they append.
\<close>

definition FCheckEnfdProps ::
  "('c, 'p, 'f, 'r, 'v, 'a) DynamicRegistry \<Rightarrow> trace_flags \<Rightarrow> bool \<Rightarrow> EPropEnforcingType \<Rightarrow> EPropEnforcingType \<Rightarrow>
     enforcer list \<Rightarrow> enforcer list \<Rightarrow> enforcer \<Rightarrow> CDrvdPropPlan \<Rightarrow> CReqdPropPlan \<Rightarrow> (bool \<times> enforcer list) result" where
  "FCheckEnfdProps r tf valid epetDist epetPart encs encs' pop child prpp =
     (let drvd = derive_plan_props r pop child;
          fOrderReqd = (\<not> EopttraceDisableSort tf \<and> \<not> os_IsEmpty (rq_Pos prpp));
          fRewindabilityReqd = (\<not> EopttraceDisableSpool tf \<and> rs_IsCheckRequired (rq_Prs prpp));
          fEngineReqd = (\<not> EopttraceDisableEngineEnforcement tf \<and> EetAny \<noteq> rq_Pes prpp);
          epetOrder = (if fOrderReqd then EpetOrder pop drvd prpp else EpetUnnecessary);
          epetRewindability = (if fRewindabilityReqd then EpetRewindability pop else EpetUnnecessary);
          epetEngine = (if fEngineReqd then EpetEngine pop drvd prpp else EpetUnnecessary);
          epets = [epetOrder, epetDist, epetRewindability, epetPart, epetEngine]
      in if \<not> valid \<or> eng_FProhibited epets then Inr (False, [])
         else rbind (if epet_FEnforce epetEngine
                     then rbind (es_AppendEnforcers r tf prpp drvd) (\<lambda>e. Inr [e]) else Inr []) (\<lambda>eEngine.
           Inr (eng_FOptimize epets,
                eEngine @ (if epet_FEnforce epetOrder then [os_AppendEnforcers prpp] else []) @
                (if epet_FEnforce epetDist then encs else []) @
                (if epet_FEnforce epetRewindability then [rs_AppendEnforcers tf prpp drvd] else []) @
                (if epet_FEnforce epetPart then encs' else []))))"

text \<open>The parts of the checks before and after that concern these properties: an enforcer is not used for an empty requirement, and a streaming spool
  not above a motion when motion hazards have to be handled.\<close>

fun FCheckReqdProps_enforcer :: "enforcer \<Rightarrow> CReqdPropPlan \<Rightarrow> bool" where
  "FCheckReqdProps_enforcer (CPhysicalSort pos) prpp \<longleftrightarrow> \<not> os_IsEmpty (rq_Pos prpp)"
| "FCheckReqdProps_enforcer (CPhysicalEngineTransition pes po pd pr) prpp \<longleftrightarrow> EetAny \<noteq> rq_Pes prpp"
| "FCheckReqdProps_enforcer (CPhysicalSpool eager) prpp \<longleftrightarrow> rs_IsCheckRequired (rq_Prs prpp)"

fun FValidContext :: "enforcer \<Rightarrow> CDrvdPropPlan \<Rightarrow> CReqdPropPlan \<Rightarrow> bool" where
  "FValidContext (CPhysicalSpool eager) child prpp \<longleftrightarrow>
     (if rs_HasMotionHazard (rq_Prs prpp) \<and> rs_HasMotionHazard (dp_Prs child) then eager else True)"
| "FValidContext pop child prpp \<longleftrightarrow> True"

lemmas operator_defs [simp] = tr_PosDerive_def sort_PrsDerive_def spool_PrsDerive_def tr_PrsDerive_def
  sort_PrsRequired_def spool_PrsRequired_def sort_EpetOrder_def tr_EpetOrder_def tr_EpetEngine_def phys_EpetEngine_def

section \<open>Satisfaction\<close>

text \<open>
  The interface of a property spec: satisfaction is a preorder on specs, so that a plan that satisfies a
  requirement satisfies every weaker one.
\<close>

locale prop_spec =
  fixes sat :: "'s \<Rightarrow> 's \<Rightarrow> bool"
  assumes sat_refl: "sat s s" and sat_trans: "sat s t \<Longrightarrow> sat t u \<Longrightarrow> sat s u"
begin

lemma weaker_iff: "sat s t \<longleftrightarrow> (\<forall>d. sat d s \<longrightarrow> sat d t)"
  using sat_refl sat_trans by blast

end

lemma oe_Matches_eq: "oe_Matches a b \<longleftrightarrow> a = b"
  by (cases a; cases b) (auto simp: oe_Matches_def)

lemma os_satisfies_loop_prefix: "os_satisfies_loop this pos \<longleftrightarrow> (\<exists>rest. this = pos @ rest)"
  by (induction this pos rule: os_satisfies_loop.induct) (auto simp: oe_Matches_eq)

lemma os_FSatisfies_prefix: "os_FSatisfies this pos \<longleftrightarrow> (\<exists>rest. this = pos @ rest)"
  by (auto simp: os_FSatisfies_def os_satisfies_loop_prefix)

interpretation order: prop_spec os_FSatisfies
  by unfold_locales (auto simp: os_FSatisfies_prefix)

interpretation engine: prop_spec es_FSatisfies
  by unfold_locales (auto simp: es_FSatisfies_def split: if_splits)

lemma os_Matches_eq: "os_Matches this pos = Inr (this = pos)"
proof -
  have "length this = length pos \<and> os_FSatisfies this pos \<longleftrightarrow> this = pos" by (auto simp: os_FSatisfies_prefix)
  then show ?thesis by (simp add: os_Matches_def Let_def order.sat_refl)
qed

lemma os_FSatisfies_Nil [simp]: "os_FSatisfies this []"
  by (simp add: os_FSatisfies_prefix)

lemma es_FSatisfies_Any [simp]: "es_FSatisfies this EetAny"
  by (simp add: es_FSatisfies_def)

text \<open>The rank of a rewindability, from \<^verbatim>\<open>ErtNone\<close> up; satisfaction compares ranks and motion hazards,
  as the tables in the comment of \<^verbatim>\<open>CRewindabilitySpec::FSatisfies\<close> say.\<close>

fun ert_rank :: "ERewindabilityType \<Rightarrow> nat" where
  "ert_rank ErtNone = 0"
| "ert_rank ErtRescannable = 1"
| "ert_rank ErtRewindable = 2"
| "ert_rank ErtMarkRestore = 3"

lemma rs_FSatisfies_rank:
  "rs_FSatisfies this prs \<longleftrightarrow> rs_Ert prs = ErtNone \<or>
     ert_rank (rs_Ert prs) \<le> ert_rank (rs_Ert this) \<and> \<not> (rs_HasMotionHazard prs \<and> rs_HasMotionHazard this)"
  by (cases "rs_Ert this"; cases "rs_Ert prs") (simp_all add: rs_FSatisfies_def)

lemma rs_None [simp]: "rs_Ert prs = ErtNone \<Longrightarrow> rs_FSatisfies this prs"
  by (simp add: rs_FSatisfies_rank)

lemma mark_restore_satisfies:
  "\<not> (rs_HasMotionHazard prs \<and> rs_HasMotionHazard this) \<Longrightarrow> rs_Ert this = ErtMarkRestore \<Longrightarrow> rs_FSatisfies this prs"
  by (cases "rs_Ert prs") (simp_all add: rs_FSatisfies_rank)

lemma pass_thru_satisfies:
  assumes "rs_FSatisfies (dp_Prs child) prs" and "rs_Ert prs \<noteq> ErtMarkRestore"
  shows "rs_FSatisfies (PrsDerivePassThruOuter child) prs"
  using assms by (cases "rs_Ert prs")
    (auto simp: rs_FSatisfies_rank PrsDerivePassThruOuter_def rs_HasMotionHazard_def)

section \<open>Valid plans\<close>

definition enforcement_on :: "trace_flags \<Rightarrow> bool" where
  "enforcement_on tf \<longleftrightarrow> \<not> EopttraceDisableSort tf \<and> \<not> EopttraceDisableSpool tf \<and> \<not> EopttraceDisableEngineEnforcement tf"

lemma FCheckEnfdProps_True:
  assumes "FCheckEnfdProps r tf valid epetDist epetPart encs encs' pop child prpp = Inr (True, es)" and "enforcement_on tf"
  defines "drvd \<equiv> derive_plan_props r pop child"
  shows "os_IsEmpty (rq_Pos prpp) \<or> epet_FOptimize (EpetOrder pop drvd prpp)"
    and "rq_Pes prpp = EetAny \<or> epet_FOptimize (EpetEngine pop drvd prpp)"
  using assms by (auto simp: FCheckEnfdProps_def Let_def eng_FOptimize_def enforcement_on_def result_simps split: if_splits)

text \<open>The rewindability that a transition to another engine keeps.\<close>

definition keeps_rewindability :: "enforcer \<Rightarrow> CReqdPropPlan \<Rightarrow> bool" where
  "keeps_rewindability pop prpp \<longleftrightarrow> (case pop of
     CPhysicalEngineTransition pes po pd pr \<Rightarrow>
       rs_Ert (rq_Prs prpp) = ErtNone \<or> pr \<and> rs_Ert (rq_Prs prpp) \<noteq> ErtMarkRestore
   | _ \<Rightarrow> True)"

lemma order_valid:
  assumes "os_IsEmpty (rq_Pos prpp) \<or> epet_FOptimize (EpetOrder pop (derive_plan_props r pop child) prpp)"
    and "os_FSatisfies (dp_Pos child) (PosRequired pop prpp)"
  shows "os_FSatisfies (PosDerive pop child) (rq_Pos prpp)"
  using assms by (cases pop) (auto simp: os_IsEmpty_def epet_FOptimize_def derive_plan_props_def split: if_splits)

lemma engine_valid:
  assumes "rq_Pes prpp = EetAny \<or> epet_FOptimize (EpetEngine pop (derive_plan_props r pop child) prpp)"
  shows "es_FSatisfies (PesDerive r pop) (rq_Pes prpp)"
  using assms by (cases pop) (auto simp: epet_FOptimize_def derive_plan_props_def split: if_splits)

lemma rewindability_valid:
  assumes "rs_FSatisfies (dp_Prs child) (PrsRequired outer pop prpp)" and "FValidContext pop child prpp" and "keeps_rewindability pop prpp"
  shows "rs_FSatisfies (PrsDerive pop child) (rq_Prs prpp)"
proof (cases pop)
  case (CPhysicalSort pos)
  then show ?thesis by (auto intro!: mark_restore_satisfies simp: rs_HasMotionHazard_def)
next
  case (CPhysicalSpool eager)
  then show ?thesis using assms(2) by (auto intro!: mark_restore_satisfies simp: rs_HasMotionHazard_def split: if_splits)
next
  case (CPhysicalEngineTransition pes po pd pr)
  then show ?thesis using assms(1,3) by (auto simp: keeps_rewindability_def pass_thru_satisfies)
qed

text \<open>An enforcer that is not rejected never requests of its own group what is requested of it, so the
  optimization of the request does not wait for itself. The exception is a spool over a subtree with
  outer references under a request for rescannability, which it may pass on unchanged.\<close>

lemma enforcer_progress:
  assumes "FCheckReqdProps_enforcer pop prpp"
    and "\<And>eager. pop = CPhysicalSpool eager \<Longrightarrow> outer \<Longrightarrow> rs_Ert (rq_Prs prpp) \<noteq> ErtRescannable"
  shows "child_request r outer pop prpp \<noteq> prpp"
proof
  assume eq: "child_request r outer pop prpp = prpp"
  then have "rq_Pos prpp = PosRequired pop prpp" "rq_Prs prpp = PrsRequired outer pop prpp" "rq_Pes prpp = PesRequired r pop"
    unfolding child_request_def by (metis CReqdPropPlan.select_convs)+
  then show False
    using assms by (cases pop) (auto simp: os_IsEmpty_def rs_IsCheckRequired_def split: if_splits dest: arg_cong [where f = rs_Ert])
qed

section \<open>Properties\<close>

text \<open>
  C25: With enforcement enabled, an enforcer that passes the check of enforceable properties above a child
  that satisfies what the enforcer requires of it has a valid plan, if its context is valid (\<open>FValidContext\<close>,
  the motion hazard test of a streaming spool, without the test of the partition index map) and if
  it keeps the required rewindability: its derived order, rewindability and engine satisfy the
  requirement. \<open>keeps_rewindability\<close> holds for every sort and spool; of a transition it asks that no
  rewindability is required, or that the transition preserves it and mark and restore is not required.
  Without it the statement is false: the code accepts a transition that loses the required
  rewindability, see the next property.
\<close>

theorem enforcer_plans_valid:
  assumes "FCheckEnfdProps r tf valid epetDist epetPart encs encs' pop child prpp = Inr (True, es)"
    and "enforcement_on tf" and "FValidContext pop child prpp"
    and "dp_FSatisfies child (child_request r outer pop prpp)" and "keeps_rewindability pop prpp"
  shows "dp_FSatisfies (derive_plan_props r pop child) prpp"
proof -
  have child: "os_FSatisfies (dp_Pos child) (PosRequired pop prpp)" "rs_FSatisfies (dp_Prs child) (PrsRequired outer pop prpp)"
    using assms(4) by (simp_all add: dp_FSatisfies_def child_request_def)
  note check = FCheckEnfdProps_True [OF assms(1,2)]
  show ?thesis
    using order_valid [OF check(1) child(1)] engine_valid [OF check(2)] rewindability_valid [OF child(2) assms(3,5)]
    by (simp add: dp_FSatisfies_def derive_plan_props_def)
qed

definition sample_flags :: trace_flags where
  "sample_flags = \<lparr>EopttraceDisableSort = False, EopttraceDisableSpool = False,
     EopttraceDisableEngineEnforcement = False, EopttraceMotionHazardHandling = True\<rparr>"

definition sample_engines :: "(unit, unit, unit, unit, unit, unit) DynamicRegistry" where
  "sample_engines = RegisterEngineTransform EetGP 3 (Registered ()) False False True
     (DynamicRegistry_ctor \<lparr>m_cost_map = Map.empty, m_engine_transform_map = Map.empty, m_cost_model_params_map = Map.empty\<rparr>
        CXformFactory_ctor () ())"

definition scan_props :: CDrvdPropPlan where
  "scan_props = \<lparr>dp_Pos = [], dp_Prs = \<lparr>rs_Ert = ErtRewindable, rs_Emht = EmhtNoMotion\<rparr>, dp_Pes = EetGP\<rparr>"

definition sorted_request :: CReqdPropPlan where
  "sorted_request = \<lparr>rq_Pos = [\<lparr>oe_mdid = 97, oe_pcr = 1, oe_ent = EntAuto\<rparr>],
     rq_Prs = \<lparr>rs_Ert = ErtRewindable, rs_Emht = EmhtNoMotion\<rparr>, rq_Pes = EetGP\<rparr>"

theorem enforcer_plans_valid_witness:
  "FCheckEnfdProps sample_engines sample_flags True EpetUnnecessary EpetUnnecessary [] []
     (CPhysicalSort (rq_Pos sorted_request)) scan_props sorted_request = Inr (True, []) \<and>
   dp_FSatisfies (derive_plan_props sample_engines (CPhysicalSort (rq_Pos sorted_request)) scan_props) sorted_request"
proof -
  have gp: "fst (GetEngineForDefaultOp EopPhysicalSort sample_engines) = EetGP"
    by (simp add: GetEngineForDefaultOp_def EopPhysicalSort_def sample_engines_def RegisterEngineTransform_def
      DynamicRegistry_ctor_def opIdToString_init_def)
  have check: "FCheckEnfdProps sample_engines sample_flags True EpetUnnecessary EpetUnnecessary [] []
     (CPhysicalSort (rq_Pos sorted_request)) scan_props sorted_request = Inr (True, [])"
    by (simp add: FCheckEnfdProps_def Let_def derive_plan_props_def gp sample_flags_def order.sat_refl engine.sat_refl
      eng_FProhibited_def eng_FOptimize_def epet_FOptimize_def epet_FEnforce_def sorted_request_def [THEN arg_cong [where f = rq_Pes]])
  have on: "enforcement_on sample_flags" by (simp add: enforcement_on_def sample_flags_def)
  have child: "dp_FSatisfies scan_props (child_request sample_engines False (CPhysicalSort (rq_Pos sorted_request)) sorted_request)"
    by (simp add: dp_FSatisfies_def child_request_def gp scan_props_def engine.sat_refl)
  show ?thesis
    by (rule conjI [OF check]) (rule enforcer_plans_valid [OF check on _ child], simp_all add: keeps_rewindability_def)
qed

text \<open>
  C35: A transition between engines that does not preserve rewindability answers that no enforcer is needed
  for a required rewindability, so the check accepts it whatever its child is, although its derived
  rewindability is none: the plan it is part of is invalid.
\<close>

theorem transition_plan_invalid:
  assumes "rs_IsCheckRequired (rq_Prs prpp)" and "rq_Pos prpp = []"
  shows "FCheckEnfdProps r tf True EpetUnnecessary EpetUnnecessary encs encs'
      (CPhysicalEngineTransition (rq_Pes prpp) po pd False) child prpp = Inr (True, []) \<and>
    \<not> dp_FSatisfies (derive_plan_props r (CPhysicalEngineTransition (rq_Pes prpp) po pd False) child) prpp"
  using assms by (simp add: FCheckEnfdProps_def Let_def os_IsEmpty_def engine.sat_refl eng_FProhibited_def eng_FOptimize_def
    epet_FOptimize_def epet_FEnforce_def dp_FSatisfies_def derive_plan_props_def rs_FSatisfies_rank rs_IsCheckRequired_def)
    (cases "rs_Ert (rq_Prs prpp)"; simp)

theorem transition_plan_invalid_witness:
  "es_AppendEnforcers sample_engines sample_flags \<lparr>rq_Pos = [], rq_Prs = rq_Prs sorted_request, rq_Pes = 3\<rparr> scan_props =
     Inr (CPhysicalEngineTransition 3 False False False) \<and>
   FCheckEnfdProps sample_engines sample_flags True EpetUnnecessary EpetUnnecessary [] []
     (CPhysicalEngineTransition 3 False False False) scan_props \<lparr>rq_Pos = [], rq_Prs = rq_Prs sorted_request, rq_Pes = 3\<rparr> = Inr (True, []) \<and>
   \<not> dp_FSatisfies (derive_plan_props sample_engines (CPhysicalEngineTransition 3 False False False) scan_props)
        \<lparr>rq_Pos = [], rq_Prs = rq_Prs sorted_request, rq_Pes = 3\<rparr>"
proof -
  have "es_AppendEnforcers sample_engines sample_flags \<lparr>rq_Pos = [], rq_Prs = rq_Prs sorted_request, rq_Pes = 3\<rparr> scan_props =
     Inr (CPhysicalEngineTransition 3 False False False)"
    by (simp add: es_AppendEnforcers_def sample_flags_def scan_props_def sample_engines_def RegisterEngineTransform_def
      GetEnginePreserveOrder_def GetEnginePreserveDistribution_def GetEnginePreserveRewindability_def subscript_def)
  then show ?thesis
    using transition_plan_invalid [of "\<lparr>rq_Pos = [], rq_Prs = rq_Prs sorted_request, rq_Pes = 3\<rparr>" sample_engines
      sample_flags "[]" "[]" False False scan_props] by (simp add: rs_IsCheckRequired_def sorted_request_def)
qed

end
