(* ===== verification/StateMachine.thy ===== *)
theory StateMachine
  imports Prelude
begin

text \<open>
  \<^verbatim>\<open>CStateMachine\<close> and \<^verbatim>\<open>CJobStateMachine\<close> of \<^verbatim>\<open>libgpopt\<close>. A machine is a matrix of events: the entry at
  [row, column] is the event that takes it from the row's state to the column's, and the sentinel of
  the events means that there is none. States and events are the numbers of their enumerators,
  the template arguments (the sentinels) are fields. The history arrays are not initialized by
  the code; such an entry is \<open>None\<close>. The end of the theory has the matrices of the seven search
  jobs and what holds of them.
\<close>

section \<open>The basic machine\<close>

record CStateMachine =
  tenumstateSentinel :: nat
  tenumeventSentinel :: nat
  m_tenumstate :: nat
  sm_fInit :: bool
  m_rgrgtenumeventTransitions :: "nat list list"
  m_ulHistory :: ULONG
  m_tenumstateHistory :: "nat option list"
  m_tenumeventHistory :: "nat option list"

definition GPOPT_FSM_HISTORY :: nat where
  "GPOPT_FSM_HISTORY = 25"

definition sm_TesInitial :: "CStateMachine \<Rightarrow> nat" where
  "sm_TesInitial sm = 0"

definition sm_TesFinal :: "CStateMachine \<Rightarrow> nat" where
  "sm_TesFinal sm = tenumstateSentinel sm - 1"

definition CStateMachine_ctor :: "nat \<Rightarrow> nat \<Rightarrow> CStateMachine result" where
  "CStateMachine_ctor nst nev =
     gpos_assert (0 < nst \<and> 0 < nev \<and> nst \<le> nev + 1)
       (Inr \<lparr>tenumstateSentinel = nst, tenumeventSentinel = nev, m_tenumstate = 0, sm_fInit = False,
             m_rgrgtenumeventTransitions = replicate nst (replicate nst nev), m_ulHistory = 0,
             m_tenumstateHistory = replicate GPOPT_FSM_HISTORY None,
             m_tenumeventHistory = replicate GPOPT_FSM_HISTORY None\<rparr>)"

definition sm_Init :: "CStateMachine \<Rightarrow> nat list list \<Rightarrow> CStateMachine result" where
  "sm_Init sm rgrgtenumevent =
     gpos_assert (\<not> sm_fInit sm)
       (Inr (sm\<lparr>m_rgrgtenumeventTransitions :=
                  map (\<lambda>ulOuter. map (\<lambda>ulInner. rgrgtenumevent ! ulOuter ! ulInner)
                                   [0..<tenumstateSentinel sm])
                    [0..<tenumstateSentinel sm],
                m_tenumstate := sm_TesInitial sm, sm_fInit := True\<rparr>))"

definition sm_Reset :: "CStateMachine \<Rightarrow> CStateMachine" where
  "sm_Reset sm = sm\<lparr>m_tenumstate := sm_TesInitial sm, sm_fInit := False\<rparr>"

definition sm_entry :: "CStateMachine \<Rightarrow> nat \<Rightarrow> nat \<Rightarrow> nat" where
  "sm_entry sm i j = m_rgrgtenumeventTransitions sm ! i ! j"

text \<open>
  The search of \<^verbatim>\<open>FAttemptTransition\<close>: the first column that holds the event, with the assertion that no
  later column holds it too.
\<close>

fun sm_scan :: "CStateMachine \<Rightarrow> nat \<Rightarrow> nat \<Rightarrow> nat list \<Rightarrow> nat option result" where
  "sm_scan sm tenumstateOld tenumevent [] = Inr None"
| "sm_scan sm tenumstateOld tenumevent (ulOuter # uls) =
     (if sm_entry sm tenumstateOld ulOuter = tenumevent
      then gpos_assert (\<forall>ulInner \<in> set uls. sm_entry sm tenumstateOld ulInner \<noteq> tenumevent)
             (Inr (Some ulOuter))
      else sm_scan sm tenumstateOld tenumevent uls)"

definition sm_FAttemptTransition :: "CStateMachine \<Rightarrow> nat \<Rightarrow> nat \<Rightarrow> nat option result" where
  "sm_FAttemptTransition sm tenumstateOld tenumevent =
     gpos_assert (tenumevent < tenumeventSentinel sm)
       (gpos_assert (sm_fInit sm)
         (sm_scan sm tenumstateOld tenumevent [0..<tenumstateSentinel sm]))"

definition sm_RecordHistory :: "CStateMachine \<Rightarrow> nat \<Rightarrow> nat \<Rightarrow> CStateMachine" where
  "sm_RecordHistory sm tenumevent tenumstate =
     (let ulHistory = unat (m_ulHistory sm) mod GPOPT_FSM_HISTORY
      in sm\<lparr>m_tenumeventHistory := (m_tenumeventHistory sm)[ulHistory := Some tenumevent],
            m_tenumstateHistory := (m_tenumstateHistory sm)[ulHistory := Some tenumstate],
            m_ulHistory := m_ulHistory sm + 1\<rparr>)"

text \<open>\<^verbatim>\<open>FTransition\<close> answers whether it succeeded, the state it is in, and the machine.\<close>

definition sm_FTransition :: "CStateMachine \<Rightarrow> nat \<Rightarrow> (bool \<times> nat \<times> CStateMachine) result" where
  "sm_FTransition sm tenumevent =
     rbind (sm_FAttemptTransition sm (m_tenumstate sm) tenumevent) (\<lambda>tenumstateNew.
       case tenumstateNew of
         None \<Rightarrow> Inr (False, m_tenumstate sm, sm)
       | Some st \<Rightarrow> Inr (True, st, sm_RecordHistory (sm\<lparr>m_tenumstate := st\<rparr>) tenumevent st))"

definition sm_Transition :: "CStateMachine \<Rightarrow> nat \<Rightarrow> CStateMachine result" where
  "sm_Transition sm tenumevent =
     rbind (sm_FTransition sm tenumevent) (\<lambda>(fCheck, tenumstateDummy, sm'). gpos_assert fCheck (Inr sm'))"

section \<open>Walking the graph\<close>

definition sm_States :: "CStateMachine \<Rightarrow> nat list" where
  "sm_States sm = [0..<tenumstateSentinel sm]"

definition sm_Transitions :: "CStateMachine \<Rightarrow> nat \<Rightarrow> nat \<Rightarrow> nat list" where
  "sm_Transitions sm tenumstateOld tenumstateNew =
     (let tenumevent = sm_entry sm tenumstateOld tenumstateNew
      in if tenumeventSentinel sm \<noteq> tenumevent then [tenumevent] else [])"

text \<open>The walker gets source, sink and event of every edge, sink by sink.\<close>

definition sm_Walk :: "CStateMachine \<Rightarrow> (nat \<Rightarrow> nat \<Rightarrow> nat \<Rightarrow> 'c \<Rightarrow> 'c) \<Rightarrow> 'c \<Rightarrow> 'c" where
  "sm_Walk sm Pfpv pvContext =
     fold (\<lambda>tenumstateSink.
        fold (\<lambda>tenumstateSource.
          fold (Pfpv tenumstateSource tenumstateSink) (sm_Transitions sm tenumstateSource tenumstateSink))
        (sm_States sm))
       (sm_States sm) pvContext"

definition sm_Unreachable_walker :: "nat \<Rightarrow> nat \<Rightarrow> nat \<Rightarrow> nat list \<Rightarrow> nat list" where
  "sm_Unreachable_walker tenumstateSource tenumstateSink tenumevent eset =
     (if tenumstateSource \<noteq> tenumstateSink then removeAll tenumstateSink eset else eset)"

text \<open>The array of unreachable states; the code pads it with the sentinel and returns the size.\<close>

definition sm_Unreachable :: "CStateMachine \<Rightarrow> nat list" where
  "sm_Unreachable sm = sm_Walk sm sm_Unreachable_walker (sm_States sm)"

definition sm_FReachable :: "CStateMachine \<Rightarrow> bool" where
  "sm_FReachable sm \<longleftrightarrow> length (sm_Unreachable sm) = 0"

section \<open>The history\<close>

text \<open>
  \<^verbatim>\<open>OsHistory\<close> prints the pairs of event and state this list holds; an entry that was never
  written is an indeterminate value, and names are looked up only below the sentinels.
\<close>

definition sm_OsHistory :: "CStateMachine \<Rightarrow> (nat \<times> nat) list result" where
  "sm_OsHistory sm =
     (let ulElems = min (unat (m_ulHistory sm)) GPOPT_FSM_HISTORY;
          ulStart = (if unat (m_ulHistory sm) < GPOPT_FSM_HISTORY then 0 else m_ulHistory sm + 1)
      in rmap (\<lambda>ul. let ulPos = unat (ulStart + of_nat ul) mod GPOPT_FSM_HISTORY
                in case (m_tenumeventHistory sm ! ulPos, m_tenumstateHistory sm ! ulPos) of
                     (Some ev, Some st) \<Rightarrow>
                       gpos_assert (sm_fInit sm \<and> ev < tenumeventSentinel sm \<and> st < tenumstateSentinel sm)
                         (Inr (ev, st))
                   | _ \<Rightarrow> Inl OutOfBounds)
           [0..<ulElems])"

section \<open>The machine of a job\<close>

text \<open>
  Actions are values of a type \<open>'act\<close> that name the static member functions of the job classes. The
  machine is a member of the job, and the job a part of the world \<open>'w\<close>: \<open>jsm\<close> reads the machine of
  the running job, \<open>set_jsm\<close> writes it, and \<open>call\<close> runs an action on the world.
\<close>

record 'act CJobStateMachine =
  m_rgPfuncAction :: "'act option list"
  m_sm :: CStateMachine

definition jsm_Reset :: "'act CJobStateMachine \<Rightarrow> 'act CJobStateMachine" where
  "jsm_Reset J = \<lparr>m_rgPfuncAction = replicate (tenumstateSentinel (m_sm J)) None, m_sm = sm_Reset (m_sm J)\<rparr>"

definition jsm_Init :: "'act CJobStateMachine \<Rightarrow> nat list list \<Rightarrow> 'act CJobStateMachine result" where
  "jsm_Init J rgfTransitions =
     (let J1 = jsm_Reset J
      in rbind (sm_Init (m_sm J1) rgfTransitions) (\<lambda>sm. Inr (J1\<lparr>m_sm := sm\<rparr>)))"

definition jsm_SetAction :: "'act CJobStateMachine \<Rightarrow> nat \<Rightarrow> 'act \<Rightarrow> 'act CJobStateMachine result" where
  "jsm_SetAction J est pfAction =
     gpos_assert (m_rgPfuncAction J ! est = None)
       (Inr (J\<lparr>m_rgPfuncAction := (m_rgPfuncAction J)[est := Some pfAction]\<rparr>))"

text \<open>
  One iteration of the loop of \<^verbatim>\<open>FRun\<close>: \<open>Inl\<close> the answer of the function if the loop ends here, \<open>Inr\<close> the
  world of the next iteration. The clock of the search stage is a part of the world.
\<close>

definition jsm_iteration ::
  "('w \<Rightarrow> 'act CJobStateMachine) \<Rightarrow> ('act CJobStateMachine \<Rightarrow> 'w \<Rightarrow> 'w) \<Rightarrow> ('act \<Rightarrow> 'w \<Rightarrow> (nat \<times> 'w) result) \<Rightarrow>
   ('w \<Rightarrow> bool) \<Rightarrow> ('w \<Rightarrow> 'w) \<Rightarrow> 'w \<Rightarrow> (bool \<times> 'w + 'w) result" where
  "jsm_iteration jsm set_jsm call FTimedOut Cleanup w =
     (if FTimedOut w then Inr (Inl (True, Cleanup w))
      else let estCurrent = m_tenumstate (m_sm (jsm w))
           in case m_rgPfuncAction (jsm w) ! estCurrent of
                None \<Rightarrow> Inl AssertFailed
              | Some pfunc \<Rightarrow>
                  rbind (call pfunc w) (\<lambda>(eev, w1).
                    rbind (sm_FTransition (m_sm (jsm w1)) eev) (\<lambda>(fSucceeded, estNext, sm).
                      gpos_assert fSucceeded
                        (let w2 = set_jsm ((jsm w1)\<lparr>m_sm := sm\<rparr>) w1
                         in Inr (if estNext \<noteq> estCurrent \<and> estNext \<noteq> sm_TesFinal sm then Inr w2
                                 else Inl (estNext = sm_TesFinal sm, w2))))))"

partial_function (option) jsm_FRun ::
  "('w \<Rightarrow> 'act CJobStateMachine) \<Rightarrow> ('act CJobStateMachine \<Rightarrow> 'w \<Rightarrow> 'w) \<Rightarrow> ('act \<Rightarrow> 'w \<Rightarrow> (nat \<times> 'w) result) \<Rightarrow>
   ('w \<Rightarrow> bool) \<Rightarrow> ('w \<Rightarrow> 'w) \<Rightarrow> 'w \<Rightarrow> (bool \<times> 'w) result option" where
  "jsm_FRun jsm set_jsm call FTimedOut Cleanup w =
     (case jsm_iteration jsm set_jsm call FTimedOut Cleanup w of
        Inl e \<Rightarrow> Some (Inl e)
      | Inr r \<Rightarrow> (case r of
          Inl ans \<Rightarrow> Some (Inr ans)
        | Inr w' \<Rightarrow> jsm_FRun jsm set_jsm call FTimedOut Cleanup w'))"

section \<open>Facts on machines\<close>

definition sm_ok :: "CStateMachine \<Rightarrow> bool" where
  "sm_ok sm \<longleftrightarrow> sm_fInit sm \<and> 0 < tenumstateSentinel sm \<and> m_tenumstate sm < tenumstateSentinel sm \<and>
     (\<forall>i < tenumstateSentinel sm. \<forall>j < tenumstateSentinel sm. \<forall>k < tenumstateSentinel sm.
        sm_entry sm i j = sm_entry sm i k \<longrightarrow> sm_entry sm i j < tenumeventSentinel sm \<longrightarrow> j = k)"

text \<open>\<open>sm_succ\<close> is the transition function the matrix stands for.\<close>

definition sm_succ :: "CStateMachine \<Rightarrow> nat \<Rightarrow> nat \<Rightarrow> nat option" where
  "sm_succ sm i ev = List.find (\<lambda>j. sm_entry sm i j = ev) [0..<tenumstateSentinel sm]"

lemma sm_scan_find:
  assumes "distinct uls"
    and "\<forall>j \<in> set uls. \<forall>k \<in> set uls. sm_entry sm i j = ev \<longrightarrow> sm_entry sm i k = ev \<longrightarrow> j = k"
  shows "sm_scan sm i ev uls = Inr (List.find (\<lambda>j. sm_entry sm i j = ev) uls)"
  using assms by (induction uls) (auto simp: gpos_assert_def)

lemma sm_FAttemptTransition_succ:
  assumes "sm_ok sm" and "i < tenumstateSentinel sm" and "ev < tenumeventSentinel sm"
  shows "sm_FAttemptTransition sm i ev = Inr (sm_succ sm i ev)"
proof -
  have "sm_scan sm i ev [0..<tenumstateSentinel sm] = Inr (sm_succ sm i ev)"
    unfolding sm_succ_def using assms by (intro sm_scan_find) (auto simp: sm_ok_def)
  then show ?thesis using assms by (simp add: sm_FAttemptTransition_def sm_ok_def)
qed

lemma sm_succ_Some_iff:
  assumes "sm_ok sm" and "i < tenumstateSentinel sm" and "ev < tenumeventSentinel sm"
  shows "sm_succ sm i ev = Some j \<longleftrightarrow> j < tenumstateSentinel sm \<and> sm_entry sm i j = ev"
proof
  assume "sm_succ sm i ev = Some j"
  then show "j < tenumstateSentinel sm \<and> sm_entry sm i j = ev"
    by (auto simp: sm_succ_def find_Some_iff)
next
  assume j: "j < tenumstateSentinel sm \<and> sm_entry sm i j = ev"
  then have "sm_succ sm i ev \<noteq> None" by (auto simp: sm_succ_def find_None_iff)
  then obtain k where k: "sm_succ sm i ev = Some k" by blast
  then have "k < tenumstateSentinel sm \<and> sm_entry sm i k = ev" by (auto simp: sm_succ_def find_Some_iff)
  with j assms have "k = j" by (auto simp: sm_ok_def)
  with k show "sm_succ sm i ev = Some j" by simp
qed

section \<open>What the history keeps\<close>

text \<open>A run of events, with the transitions it makes.\<close>

fun sm_run :: "CStateMachine \<Rightarrow> nat list \<Rightarrow> ((nat \<times> nat) list \<times> CStateMachine) result" where
  "sm_run sm [] = Inr ([], sm)"
| "sm_run sm (ev # evs) =
     rbind (sm_FTransition sm ev) (\<lambda>(f, st, sm1).
       rbind (sm_run sm1 evs) (\<lambda>(tr, sm2). Inr (if f then (ev, st) # tr else tr, sm2)))"

definition sm_history_ok :: "CStateMachine \<Rightarrow> (nat \<times> nat) list \<Rightarrow> bool" where
  "sm_history_ok sm tr \<longleftrightarrow> m_ulHistory sm = of_nat (length tr) \<and>
     length (m_tenumeventHistory sm) = 25 \<and> length (m_tenumstateHistory sm) = 25 \<and>
     (\<forall>i < length tr. length tr \<le> i + 25 \<longrightarrow>
        m_tenumeventHistory sm ! (i mod 25) = Some (fst (tr ! i)) \<and>
        m_tenumstateHistory sm ! (i mod 25) = Some (snd (tr ! i)))"

text \<open>What a transition changes, and what it does not.\<close>

lemma sm_scan_in: "sm_scan sm i ev uls = Inr (Some j) \<Longrightarrow> j \<in> set uls"
  by (induction uls) (auto simp: gpos_assert_def split: if_splits)

lemma sm_FTransition_cases:
  assumes "sm_FTransition sm ev = Inr (f, st, sm')"
  shows "sm_fInit sm \<and> ev < tenumeventSentinel sm \<and>
     (\<not> f \<and> sm' = sm \<and> st = m_tenumstate sm \<or>
      f \<and> st < tenumstateSentinel sm \<and> sm' = sm_RecordHistory (sm\<lparr>m_tenumstate := st\<rparr>) ev st)"
proof -
  obtain r where r: "sm_FAttemptTransition sm (m_tenumstate sm) ev = Inr r"
    using assms by (auto simp: sm_FTransition_def rbind_eq_Inr_iff)
  then have "sm_fInit sm \<and> ev < tenumeventSentinel sm"
    and scan: "sm_scan sm (m_tenumstate sm) ev [0..<tenumstateSentinel sm] = Inr r"
    by (simp_all add: sm_FAttemptTransition_def gpos_assert_eq_Inr_iff)
  moreover have "st < tenumstateSentinel sm" if "r = Some st"
    using sm_scan_in [of sm "m_tenumstate sm" ev "[0..<tenumstateSentinel sm]" st] scan that by simp
  ultimately show ?thesis using assms r
    by (cases r) (auto simp: sm_FTransition_def)
qed

lemma sm_RecordHistory_sel [simp]:
  "tenumstateSentinel (sm_RecordHistory sm ev st) = tenumstateSentinel sm"
  "tenumeventSentinel (sm_RecordHistory sm ev st) = tenumeventSentinel sm"
  "m_tenumstate (sm_RecordHistory sm ev st) = m_tenumstate sm"
  "sm_fInit (sm_RecordHistory sm ev st) = sm_fInit sm"
  "m_rgrgtenumeventTransitions (sm_RecordHistory sm ev st) = m_rgrgtenumeventTransitions sm"
  by (simp_all add: sm_RecordHistory_def Let_def)

lemma sm_RecordHistory_ok:
  assumes ok: "sm_history_ok sm tr" and len: "length tr < 4294967295"
  shows "sm_history_ok (sm_RecordHistory sm ev st) (tr @ [(ev, st)])"
proof -
  have n: "unat (m_ulHistory sm) = length tr"
    using ok len by (simp add: sm_history_ok_def unat_of_nat)
  have old: "length tr mod 25 \<noteq> i mod 25" if "i < length tr" "length tr \<le> 24 + i" for i
  proof
    assume "length tr mod 25 = i mod 25"
    then have "(length tr - i) mod 25 = 0" using that(1) by (metis less_imp_le mod_eq_dvd_iff_nat mod_0_imp_dvd dvd_imp_mod_0)
    moreover have "0 < length tr - i" "length tr - i < 25" using that by auto
    ultimately show False by simp
  qed
  show ?thesis
    using ok n old
    by (auto simp: sm_history_ok_def sm_RecordHistory_def Let_def GPOPT_FSM_HISTORY_def nth_append
        less_Suc_eq nth_list_update)
qed

lemma sm_run_history:
  assumes "sm_run sm evs = Inr (tr', sm')" and "sm_history_ok sm tr" and "length tr + length evs < 4294967295"
    and "\<forall>(ev, st) \<in> set tr. ev < tenumeventSentinel sm \<and> st < tenumstateSentinel sm" and "sm_fInit sm"
  shows "sm_history_ok sm' (tr @ tr') \<and> sm_fInit sm' \<and> length tr' \<le> length evs \<and>
    (\<forall>(ev, st) \<in> set (tr @ tr'). ev < tenumeventSentinel sm' \<and> st < tenumstateSentinel sm')"
  using assms
proof (induction sm evs arbitrary: tr tr' rule: sm_run.induct)
  case (1 sm)
  then show ?case by auto
next
  case (2 sm ev evs)
  from "2.prems"(1) obtain f st sm1 tr2 where
    step: "sm_FTransition sm ev = Inr (f, st, sm1)" and
    run: "sm_run sm1 evs = Inr (tr2, sm')" and tr': "tr' = (if f then (ev, st) # tr2 else tr2)"
    by (auto simp: result_simps)
  let ?tr = "if f then tr @ [(ev, st)] else tr"
  have ok: "sm_history_ok sm1 ?tr"
    using sm_FTransition_cases [OF step] "2.prems"(2,3) sm_RecordHistory_ok [of "sm\<lparr>m_tenumstate := st\<rparr>" tr]
    by (auto simp: sm_history_ok_def)
  have "sm_history_ok sm' (?tr @ tr2) \<and> sm_fInit sm' \<and> length tr2 \<le> length evs \<and>
    (\<forall>(ev, st) \<in> set (?tr @ tr2). ev < tenumeventSentinel sm' \<and> st < tenumstateSentinel sm')"
  proof (rule "2.IH" [OF step [symmetric, THEN sym] _ _ run ok])
  qed (use sm_FTransition_cases [OF step] "2.prems" in auto)
  then show ?case by (auto simp: tr')
qed

text \<open>Fresh machines have an empty history.\<close>

lemma sm_fresh_history:
  "CStateMachine_ctor nst nev = Inr sm0 \<Longrightarrow> sm_Init sm0 M = Inr sm \<Longrightarrow> sm_history_ok sm [] \<and> sm_fInit sm"
  by (auto simp: CStateMachine_ctor_def sm_Init_def sm_history_ok_def GPOPT_FSM_HISTORY_def result_simps)

text \<open>What the printed list ought to be: the last 25 transitions, the oldest first.\<close>

definition last_transitions :: "(nat \<times> nat) list \<Rightarrow> (nat \<times> nat) list" where
  "last_transitions tr = drop (length tr - 25) tr"

lemma sm_history_position:
  assumes "ul < min n 25" and "n < 4294967000"
  shows "unat ((if n < 25 then 0 else of_nat n + 1) + of_nat ul :: ULONG) mod 25 =
      (if n < 25 then ul else if ul = 24 then n - 25 else n - 24 + ul) mod 25"
proof (cases "n < 25")
  case True
  then have "unat (of_nat ul :: ULONG) = ul" using assms by (simp add: unat_of_nat)
  then show ?thesis using True by simp
next
  case False
  have "of_nat n + 1 + of_nat ul = (of_nat (n + 1 + ul) :: ULONG)" by simp
  moreover have "n + 1 + ul < 4294967296" using assms by simp
  ultimately have "unat (of_nat n + 1 + of_nat ul :: ULONG) = n + 1 + ul"
    by (simp only: unat_of_nat) simp
  moreover have "(n + 1 + ul) mod 25 = (if ul = 24 then n - 25 else n - 24 + ul) mod 25"
  proof (cases "ul = 24")
    case True
    then have "n + 1 + ul = (n - 25) + 2 * 25" using False by simp
    then show ?thesis using True by (simp only: mod_mult_self1 if_True simp_thms)
  next
    case ne: False
    then have "n + 1 + ul = (n - 24 + ul) + 25" using False by simp
    then show ?thesis using ne by (simp only: mod_add_self2 if_False simp_thms)
  qed
  ultimately show ?thesis using False by simp
qed

lemma sm_OsHistory_of_ok:
  assumes ok: "sm_history_ok sm tr" and fin: "sm_fInit sm" and len: "length tr < 4294967000"
    and bd: "\<forall>(ev, st) \<in> set tr. ev < tenumeventSentinel sm \<and> st < tenumstateSentinel sm"
  shows "sm_OsHistory sm =
    Inr (if length tr < 25 then tr else rotate1 (last_transitions tr))"
proof -
  define n where "n = length tr"
  define ix where "ix ul = (if n < 25 then ul else if ul = 24 then n - 25 else n - 24 + ul)" for ul
  have h: "unat (m_ulHistory sm) = n" and h': "m_ulHistory sm = of_nat n"
    using ok len by (simp_all add: sm_history_ok_def unat_of_nat n_def)
  have entry: "m_tenumeventHistory sm ! (ix ul mod 25) = Some (fst (tr ! ix ul)) \<and>
      m_tenumstateHistory sm ! (ix ul mod 25) = Some (snd (tr ! ix ul)) \<and>
      fst (tr ! ix ul) < tenumeventSentinel sm \<and> snd (tr ! ix ul) < tenumstateSentinel sm"
    if "ul < min n 25" for ul
  proof -
    have i: "ix ul < length tr" "length tr \<le> ix ul + 25" using that by (auto simp: ix_def n_def)
    have "case tr ! ix ul of (ev, st) \<Rightarrow> ev < tenumeventSentinel sm \<and> st < tenumstateSentinel sm"
      by (rule bspec [OF bd nth_mem [OF i(1)]])
    then have "fst (tr ! ix ul) < tenumeventSentinel sm \<and> snd (tr ! ix ul) < tenumstateSentinel sm"
      by (simp add: case_prod_beta)
    then show ?thesis using ok i unfolding sm_history_ok_def by blast
  qed
  have "sm_OsHistory sm = Inr (map (\<lambda>ul. tr ! ix ul) [0..<min n 25])"
    unfolding sm_OsHistory_def Let_def GPOPT_FSM_HISTORY_def h' h [unfolded h']
  proof (rule rmap_Inr)
    fix ul assume "ul \<in> set [0..<min n 25]"
    then have ul: "ul < min n 25" by simp
    note pos = sm_history_position [OF ul len [folded n_def], folded ix_def]
    show "(case (m_tenumeventHistory sm ! (unat ((if n < 25 then 0 else of_nat n + 1) + of_nat ul :: ULONG) mod 25),
            m_tenumstateHistory sm ! (unat ((if n < 25 then 0 else of_nat n + 1) + of_nat ul :: ULONG) mod 25)) of
        (Some ev, Some st) \<Rightarrow>
          gpos_assert (sm_fInit sm \<and> ev < tenumeventSentinel sm \<and> st < tenumstateSentinel sm) (Inr (ev, st))
      | _ \<Rightarrow> Inl OutOfBounds) = Inr (tr ! ix ul)"
      unfolding pos using entry [OF ul] fin by simp
  qed
  also have "map (\<lambda>ul. tr ! ix ul) [0..<min n 25] = (if n < 25 then tr else rotate1 (last_transitions tr))"
  proof (cases "n < 25")
    case True
    then show ?thesis by (simp add: ix_def n_def map_nth min_def)
  next
    case False
    have len25: "length (last_transitions tr) = 25" using False by (simp add: last_transitions_def n_def)
    have "map (\<lambda>ul. tr ! ix ul) [0..<25] = rotate1 (last_transitions tr)"
    proof (rule nth_equalityI)
      fix i assume "i < length (map (\<lambda>ul. tr ! ix ul) [0..<25])"
      then have i: "i < 25" by simp
      have "rotate1 (last_transitions tr) ! i = last_transitions tr ! (Suc i mod 25)"
        using nth_rotate1 [of i "last_transitions tr"] i by (simp only: len25)
      also have "\<dots> = tr ! (n - 25 + Suc i mod 25)"
        unfolding last_transitions_def n_def by (rule nth_drop) (use False in \<open>simp add: n_def\<close>)
      also have "n - 25 + Suc i mod 25 = ix i"
        using i False by (cases "i = 24") (simp_all add: ix_def)
      finally show "map (\<lambda>ul. tr ! ix ul) [0..<25] ! i = rotate1 (last_transitions tr) ! i"
        using i by simp
    qed (simp add: len25)
    then show ?thesis using False by simp
  qed
  finally show ?thesis by (simp add: n_def)
qed

text \<open>
  After fewer than 25 transitions the history of a machine is printed in order; after more it
  prints the last 25 transitions, but starts with the second oldest and ends with the oldest.
\<close>

theorem OsHistory_rotated:
  assumes "CStateMachine_ctor nst nev = Inr sm0" and "sm_Init sm0 M = Inr sm1"
    and "sm_run sm1 evs = Inr (tr, sm)" and "length evs < 4294967000"
  shows "sm_OsHistory sm = Inr (if length tr < 25 then tr else rotate1 (last_transitions tr))"
proof -
  have "sm_history_ok sm1 [] \<and> sm_fInit sm1" using assms(1,2) by (rule sm_fresh_history)
  then have "sm_history_ok sm tr \<and> sm_fInit sm \<and> length tr \<le> length evs \<and>
      (\<forall>(ev, st) \<in> set tr. ev < tenumeventSentinel sm \<and> st < tenumstateSentinel sm)"
    using sm_run_history [OF assms(3), of "[]"] assms(4) by simp
  then show ?thesis using assms(4) by (intro sm_OsHistory_of_ok) auto
qed

definition toggle_machine :: CStateMachine where
  "toggle_machine = projr (sm_Init (projr (CStateMachine_ctor 2 2)) [[2, 0], [1, 2]])"

theorem OsHistory_rotated_witness:
  "\<exists>sm. sm_run toggle_machine (concat (replicate 13 [0, 1])) = Inr (concat (replicate 13 [(0, 1), (1, 0)]), sm) \<and>
     sm_OsHistory sm = Inr (concat (replicate 12 [(0, 1), (1, 0)]) @ [(1, 0)])"
proof -
  have run: "map_sum id fst (sm_run toggle_machine (concat (replicate 13 [0, 1]))) =
      Inr (concat (replicate 13 [(0, 1), (1, 0)]))"
    by code_simp
  then obtain sm where sm: "sm_run toggle_machine (concat (replicate 13 [0, 1])) =
      Inr (concat (replicate 13 [(0, 1), (1, 0)]), sm)"
    by (cases "sm_run toggle_machine (concat (replicate 13 [0, 1]))") auto
  obtain sm0 where c: "CStateMachine_ctor 2 2 = Inr sm0"
    by (simp add: CStateMachine_ctor_def)
  then have i: "sm_Init sm0 [[2, 0], [1, 2]] = Inr toggle_machine"
    by (auto simp: toggle_machine_def sm_Init_def CStateMachine_ctor_def)
  have "sm_OsHistory sm = Inr (rotate1 (last_transitions (concat (replicate 13 [(0, 1), (1, 0)]))))"
    using OsHistory_rotated [OF c i sm] by (simp add: length_concat sum_list_replicate)
  also have "rotate1 (last_transitions (concat (replicate 13 [(0, 1), (1, 0)]))) =
      concat (replicate 12 [(0, 1), (1, 0)]) @ [(1, 0::nat)]"
    by code_simp
  finally show ?thesis using sm by blast
qed

section \<open>Runs of a job end\<close>

text \<open>
  Every round of the loop but the last changes the state of the machine. A measure that such
  rounds decrease bounds their number.
\<close>

lemma jsm_FRun_measure:
  fixes \<mu> :: "'w \<Rightarrow> nat" and I :: "'w \<Rightarrow> bool"
  assumes step: "\<And>w w'. I w \<Longrightarrow> jsm_iteration jsm set_jsm call FTimedOut Cleanup w = Inr (Inr w') \<Longrightarrow>
      I w' \<and> \<mu> w' < \<mu> w"
    and "I w"
  shows "\<exists>r. jsm_FRun jsm set_jsm call FTimedOut Cleanup w = Some r"
  using \<open>I w\<close>
proof (induction "\<mu> w" arbitrary: w rule: less_induct)
  case less
  show ?case
  proof (cases "\<exists>w'. jsm_iteration jsm set_jsm call FTimedOut Cleanup w = Inr (Inr w')")
    case True
    then obtain w' where it: "jsm_iteration jsm set_jsm call FTimedOut Cleanup w = Inr (Inr w')" by blast
    then have "\<exists>r. jsm_FRun jsm set_jsm call FTimedOut Cleanup w' = Some r"
      using step less by blast
    then show ?thesis by (subst jsm_FRun.simps) (simp add: it)
  next
    case False
    then show ?thesis by (subst jsm_FRun.simps) (auto split: sum.splits)
  qed
qed

text \<open>What an iteration that goes on has done.\<close>

lemma jsm_iteration_continue:
  assumes it: "jsm_iteration jsm set_jsm call FTimedOut Cleanup w = Inr (Inr w')"
  obtains pfunc eev w1 st sm where "\<not> FTimedOut w"
    and "m_rgPfuncAction (jsm w) ! m_tenumstate (m_sm (jsm w)) = Some pfunc"
    and "call pfunc w = Inr (eev, w1)" and "sm_FTransition (m_sm (jsm w1)) eev = Inr (True, st, sm)"
    and "st \<noteq> m_tenumstate (m_sm (jsm w))" and "st \<noteq> sm_TesFinal sm"
    and "w' = set_jsm ((jsm w1)\<lparr>m_sm := sm\<rparr>) w1"
  using it
  by (auto simp: jsm_iteration_def Let_def rbind_eq_Inr_iff gpos_assert_eq_Inr_iff split: if_splits option.splits)

text \<open>A matrix with no way back: no event leads to an earlier state.\<close>

definition sm_forward :: "CStateMachine \<Rightarrow> bool" where
  "sm_forward sm \<longleftrightarrow> (\<forall>i < tenumstateSentinel sm. \<forall>j < i. \<not> sm_entry sm i j < tenumeventSentinel sm)"

lemma sm_FTransition_True:
  assumes "sm_FTransition sm ev = Inr (True, st, sm')"
  shows "sm_entry sm (m_tenumstate sm) st = ev \<and> ev < tenumeventSentinel sm \<and> st < tenumstateSentinel sm \<and>
     sm' = sm_RecordHistory (sm\<lparr>m_tenumstate := st\<rparr>) ev st"
proof -
  have scan: "sm_scan sm i ev uls = Inr (Some j) \<Longrightarrow> sm_entry sm i j = ev" for i j uls
    by (induction uls) (auto simp: gpos_assert_def split: if_splits)
  have "sm_scan sm (m_tenumstate sm) ev [0..<tenumstateSentinel sm] = Inr (Some st)"
    using assms by (auto simp: sm_FTransition_def sm_FAttemptTransition_def result_simps split: option.splits)
  then show ?thesis using scan sm_FTransition_cases [OF assms] by blast
qed

text \<open>
  The loop that runs a job ends, with an answer or a failed assertion, when no event of the
  job's matrix leads to an earlier state, whatever its actions do to the rest of the world.
\<close>

theorem FRun_forward_ends:
  assumes fwd: "sm_forward (m_sm (jsm w))" and st: "m_tenumstate (m_sm (jsm w)) < tenumstateSentinel (m_sm (jsm w))"
    and keep: "\<And>pfunc w eev w1. call pfunc w = Inr (eev, w1) \<Longrightarrow> jsm w1 = jsm w"
    and get_set: "\<And>J w. jsm (set_jsm J w) = J"
  shows "\<exists>r. jsm_FRun jsm set_jsm call FTimedOut Cleanup w = Some r"
proof (rule jsm_FRun_measure [where \<mu> = "\<lambda>w. tenumstateSentinel (m_sm (jsm w)) - m_tenumstate (m_sm (jsm w))"
      and I = "\<lambda>w. sm_forward (m_sm (jsm w)) \<and> m_tenumstate (m_sm (jsm w)) < tenumstateSentinel (m_sm (jsm w))"])
  fix w w'
  assume I: "sm_forward (m_sm (jsm w)) \<and> m_tenumstate (m_sm (jsm w)) < tenumstateSentinel (m_sm (jsm w))"
    and it: "jsm_iteration jsm set_jsm call FTimedOut Cleanup w = Inr (Inr w')"
  from it obtain pfunc eev w1 st sm where
    c: "call pfunc w = Inr (eev, w1)" and tr: "sm_FTransition (m_sm (jsm w1)) eev = Inr (True, st, sm)"
    and ne: "st \<noteq> m_tenumstate (m_sm (jsm w))" and w': "w' = set_jsm ((jsm w1)\<lparr>m_sm := sm\<rparr>) w1"
    by (rule jsm_iteration_continue)
  have same: "jsm w1 = jsm w" using c by (rule keep)
  note tr' = sm_FTransition_True [OF tr, unfolded same]
  have "m_sm (jsm w') = sm" by (simp add: w' get_set)
  moreover have "sm_forward sm" using I tr' by (auto simp: sm_forward_def sm_entry_def)
  moreover have "m_tenumstate sm = st" "tenumstateSentinel sm = tenumstateSentinel (m_sm (jsm w))"
    using tr' by simp_all
  moreover have "m_tenumstate (m_sm (jsm w)) < st"
  proof (rule ccontr)
    assume "\<not> ?thesis"
    then have "st < m_tenumstate (m_sm (jsm w))" using ne by simp
    then show False using I tr' by (auto simp: sm_forward_def)
  qed
  ultimately show "(sm_forward (m_sm (jsm w')) \<and> m_tenumstate (m_sm (jsm w')) < tenumstateSentinel (m_sm (jsm w'))) \<and>
      tenumstateSentinel (m_sm (jsm w')) - m_tenumstate (m_sm (jsm w')) <
      tenumstateSentinel (m_sm (jsm w)) - m_tenumstate (m_sm (jsm w))"
    using tr' by auto
qed (use fwd st in auto)

end
