(* ===== verification/JobMachines.thy ===== *)
theory JobMachines
  imports StateMachine
begin

text \<open>
  The state machines of the seven kinds of search jobs: their states and events, the matrices of
  transitions at the head of each \<^verbatim>\<open>CJob*.cpp\<close>, and the calls of \<^verbatim>\<open>SetAction\<close> in their \<^verbatim>\<open>Init\<close>. Enumerators are
  constructors with the abbreviation of their class in front; \<open>_ix\<close> gives their numbers.
\<close>

section \<open>The matrices\<close>

datatype search_action =
    JGE_EevtStartExploration
  | JGE_EevtExploreChildren
  | JGI_EevtStartImplementation
  | JGI_EevtImplementChildren
  | JGO_EevtStartOptimization
  | JGO_EevtOptimizeChildren
  | JGO_EevtCompleteOptimization
  | JGEE_EevtExploreChildren
  | JGEE_EevtExploreSelf
  | JGEE_EevtFinalize
  | JGEI_EevtImplementChildren
  | JGEI_EevtImplementSelf
  | JGEI_EevtFinalize
  | JGEO_EevtInitialize
  | JGEO_EevtOptimizeChildren
  | JGEO_EevtAddEnforcers
  | JGEO_EevtOptimizeSelf
  | JGEO_EevtFinalize
  | JT_EevtTransform

text \<open>\<^verbatim>\<open>CJobGroupExploration\<close>.\<close>

datatype JGE_EEvent = JGE_eevStartedExploration | JGE_eevNewChildren | JGE_eevExplored | JGE_eevSentinel

datatype JGE_EState = JGE_estInitialized | JGE_estExploringChildren | JGE_estCompleted | JGE_estSentinel

fun JGE_event_ix :: "JGE_EEvent \<Rightarrow> nat" where
  "JGE_event_ix JGE_eevStartedExploration = 0"
| "JGE_event_ix JGE_eevNewChildren = 1"
| "JGE_event_ix JGE_eevExplored = 2"
| "JGE_event_ix JGE_eevSentinel = 3"

fun JGE_state_ix :: "JGE_EState \<Rightarrow> nat" where
  "JGE_state_ix JGE_estInitialized = 0"
| "JGE_state_ix JGE_estExploringChildren = 1"
| "JGE_state_ix JGE_estCompleted = 2"
| "JGE_state_ix JGE_estSentinel = 3"

definition JGE_rgeev :: "JGE_EEvent list list" where
  "JGE_rgeev =
    [[JGE_eevSentinel, JGE_eevStartedExploration, JGE_eevSentinel],
     [JGE_eevSentinel, JGE_eevNewChildren, JGE_eevExplored],
     [JGE_eevSentinel, JGE_eevSentinel, JGE_eevSentinel]]"

definition JGE_jsm_Init :: "search_action CJobStateMachine \<Rightarrow> search_action CJobStateMachine result" where
  "JGE_jsm_Init J =
     rbind (jsm_Init J (map (map JGE_event_ix) JGE_rgeev)) (\<lambda>J.
     rbind (jsm_SetAction J (JGE_state_ix JGE_estInitialized) JGE_EevtStartExploration) (\<lambda>J.
     rbind (jsm_SetAction J (JGE_state_ix JGE_estExploringChildren) JGE_EevtExploreChildren) Inr))"

definition JGE_machine :: "search_action CJobStateMachine result" where
  "JGE_machine = rbind (CStateMachine_ctor (JGE_state_ix JGE_estSentinel) (JGE_event_ix JGE_eevSentinel)) (\<lambda>sm.
     JGE_jsm_Init \<lparr>m_rgPfuncAction = [], m_sm = sm\<rparr>)"

text \<open>\<^verbatim>\<open>CJobGroupImplementation\<close>.\<close>

datatype JGI_EEvent = JGI_eevExploring | JGI_eevExplored | JGI_eevImplementing | JGI_eevImplemented | JGI_eevSentinel

datatype JGI_EState = JGI_estInitialized | JGI_estImplementingChildren | JGI_estCompleted | JGI_estSentinel

fun JGI_event_ix :: "JGI_EEvent \<Rightarrow> nat" where
  "JGI_event_ix JGI_eevExploring = 0"
| "JGI_event_ix JGI_eevExplored = 1"
| "JGI_event_ix JGI_eevImplementing = 2"
| "JGI_event_ix JGI_eevImplemented = 3"
| "JGI_event_ix JGI_eevSentinel = 4"

fun JGI_state_ix :: "JGI_EState \<Rightarrow> nat" where
  "JGI_state_ix JGI_estInitialized = 0"
| "JGI_state_ix JGI_estImplementingChildren = 1"
| "JGI_state_ix JGI_estCompleted = 2"
| "JGI_state_ix JGI_estSentinel = 3"

definition JGI_rgeev :: "JGI_EEvent list list" where
  "JGI_rgeev =
    [[JGI_eevExploring, JGI_eevExplored, JGI_eevSentinel],
     [JGI_eevSentinel, JGI_eevImplementing, JGI_eevImplemented],
     [JGI_eevSentinel, JGI_eevSentinel, JGI_eevSentinel]]"

definition JGI_jsm_Init :: "search_action CJobStateMachine \<Rightarrow> search_action CJobStateMachine result" where
  "JGI_jsm_Init J =
     rbind (jsm_Init J (map (map JGI_event_ix) JGI_rgeev)) (\<lambda>J.
     rbind (jsm_SetAction J (JGI_state_ix JGI_estInitialized) JGI_EevtStartImplementation) (\<lambda>J.
     rbind (jsm_SetAction J (JGI_state_ix JGI_estImplementingChildren) JGI_EevtImplementChildren) Inr))"

definition JGI_machine :: "search_action CJobStateMachine result" where
  "JGI_machine = rbind (CStateMachine_ctor (JGI_state_ix JGI_estSentinel) (JGI_event_ix JGI_eevSentinel)) (\<lambda>sm.
     JGI_jsm_Init \<lparr>m_rgPfuncAction = [], m_sm = sm\<rparr>)"

text \<open>\<^verbatim>\<open>CJobGroupOptimization\<close>.\<close>

datatype JGO_EEvent = JGO_eevImplementing | JGO_eevImplemented | JGO_eevOptimizing | JGO_eevOptimizedCurrentLevel | JGO_eevOptimized | JGO_eevSentinel

datatype JGO_EState = JGO_estInitialized | JGO_estOptimizingChildren | JGO_estDampingOptimizationLevel | JGO_estCompleted | JGO_estSentinel

fun JGO_event_ix :: "JGO_EEvent \<Rightarrow> nat" where
  "JGO_event_ix JGO_eevImplementing = 0"
| "JGO_event_ix JGO_eevImplemented = 1"
| "JGO_event_ix JGO_eevOptimizing = 2"
| "JGO_event_ix JGO_eevOptimizedCurrentLevel = 3"
| "JGO_event_ix JGO_eevOptimized = 4"
| "JGO_event_ix JGO_eevSentinel = 5"

fun JGO_state_ix :: "JGO_EState \<Rightarrow> nat" where
  "JGO_state_ix JGO_estInitialized = 0"
| "JGO_state_ix JGO_estOptimizingChildren = 1"
| "JGO_state_ix JGO_estDampingOptimizationLevel = 2"
| "JGO_state_ix JGO_estCompleted = 3"
| "JGO_state_ix JGO_estSentinel = 4"

definition JGO_rgeev :: "JGO_EEvent list list" where
  "JGO_rgeev =
    [[JGO_eevImplementing, JGO_eevImplemented, JGO_eevSentinel, JGO_eevOptimized],
     [JGO_eevSentinel, JGO_eevOptimizing, JGO_eevOptimizedCurrentLevel, JGO_eevSentinel],
     [JGO_eevSentinel, JGO_eevOptimizing, JGO_eevSentinel, JGO_eevOptimized],
     [JGO_eevSentinel, JGO_eevSentinel, JGO_eevSentinel, JGO_eevSentinel]]"

definition JGO_jsm_Init :: "search_action CJobStateMachine \<Rightarrow> search_action CJobStateMachine result" where
  "JGO_jsm_Init J =
     rbind (jsm_Init J (map (map JGO_event_ix) JGO_rgeev)) (\<lambda>J.
     rbind (jsm_SetAction J (JGO_state_ix JGO_estInitialized) JGO_EevtStartOptimization) (\<lambda>J.
     rbind (jsm_SetAction J (JGO_state_ix JGO_estOptimizingChildren) JGO_EevtOptimizeChildren) (\<lambda>J.
     rbind (jsm_SetAction J (JGO_state_ix JGO_estDampingOptimizationLevel) JGO_EevtCompleteOptimization) Inr)))"

definition JGO_machine :: "search_action CJobStateMachine result" where
  "JGO_machine = rbind (CStateMachine_ctor (JGO_state_ix JGO_estSentinel) (JGO_event_ix JGO_eevSentinel)) (\<lambda>sm.
     JGO_jsm_Init \<lparr>m_rgPfuncAction = [], m_sm = sm\<rparr>)"

text \<open>\<^verbatim>\<open>CJobGroupExpressionExploration\<close>.\<close>

datatype JGEE_EEvent = JGEE_eevExploringChildren | JGEE_eevChildrenExplored | JGEE_eevExploringSelf | JGEE_eevSelfExplored | JGEE_eevFinalized | JGEE_eevSentinel

datatype JGEE_EState = JGEE_estInitialized | JGEE_estChildrenExplored | JGEE_estSelfExplored | JGEE_estCompleted | JGEE_estSentinel

fun JGEE_event_ix :: "JGEE_EEvent \<Rightarrow> nat" where
  "JGEE_event_ix JGEE_eevExploringChildren = 0"
| "JGEE_event_ix JGEE_eevChildrenExplored = 1"
| "JGEE_event_ix JGEE_eevExploringSelf = 2"
| "JGEE_event_ix JGEE_eevSelfExplored = 3"
| "JGEE_event_ix JGEE_eevFinalized = 4"
| "JGEE_event_ix JGEE_eevSentinel = 5"

fun JGEE_state_ix :: "JGEE_EState \<Rightarrow> nat" where
  "JGEE_state_ix JGEE_estInitialized = 0"
| "JGEE_state_ix JGEE_estChildrenExplored = 1"
| "JGEE_state_ix JGEE_estSelfExplored = 2"
| "JGEE_state_ix JGEE_estCompleted = 3"
| "JGEE_state_ix JGEE_estSentinel = 4"

definition JGEE_rgeev :: "JGEE_EEvent list list" where
  "JGEE_rgeev =
    [[JGEE_eevExploringChildren, JGEE_eevChildrenExplored, JGEE_eevSentinel, JGEE_eevSentinel],
     [JGEE_eevSentinel, JGEE_eevExploringSelf, JGEE_eevSelfExplored, JGEE_eevSentinel],
     [JGEE_eevSentinel, JGEE_eevSentinel, JGEE_eevSentinel, JGEE_eevFinalized],
     [JGEE_eevSentinel, JGEE_eevSentinel, JGEE_eevSentinel, JGEE_eevSentinel]]"

definition JGEE_jsm_Init :: "search_action CJobStateMachine \<Rightarrow> search_action CJobStateMachine result" where
  "JGEE_jsm_Init J =
     rbind (jsm_Init J (map (map JGEE_event_ix) JGEE_rgeev)) (\<lambda>J.
     rbind (jsm_SetAction J (JGEE_state_ix JGEE_estInitialized) JGEE_EevtExploreChildren) (\<lambda>J.
     rbind (jsm_SetAction J (JGEE_state_ix JGEE_estChildrenExplored) JGEE_EevtExploreSelf) (\<lambda>J.
     rbind (jsm_SetAction J (JGEE_state_ix JGEE_estSelfExplored) JGEE_EevtFinalize) Inr)))"

definition JGEE_machine :: "search_action CJobStateMachine result" where
  "JGEE_machine = rbind (CStateMachine_ctor (JGEE_state_ix JGEE_estSentinel) (JGEE_event_ix JGEE_eevSentinel)) (\<lambda>sm.
     JGEE_jsm_Init \<lparr>m_rgPfuncAction = [], m_sm = sm\<rparr>)"

text \<open>\<^verbatim>\<open>CJobGroupExpressionImplementation\<close>.\<close>

datatype JGEI_EEvent = JGEI_eevImplementingChildren | JGEI_eevChildrenImplemented | JGEI_eevImplementingSelf | JGEI_eevSelfImplemented | JGEI_eevFinalized | JGEI_eevSentinel

datatype JGEI_EState = JGEI_estInitialized | JGEI_estChildrenImplemented | JGEI_estSelfImplemented | JGEI_estCompleted | JGEI_estSentinel

fun JGEI_event_ix :: "JGEI_EEvent \<Rightarrow> nat" where
  "JGEI_event_ix JGEI_eevImplementingChildren = 0"
| "JGEI_event_ix JGEI_eevChildrenImplemented = 1"
| "JGEI_event_ix JGEI_eevImplementingSelf = 2"
| "JGEI_event_ix JGEI_eevSelfImplemented = 3"
| "JGEI_event_ix JGEI_eevFinalized = 4"
| "JGEI_event_ix JGEI_eevSentinel = 5"

fun JGEI_state_ix :: "JGEI_EState \<Rightarrow> nat" where
  "JGEI_state_ix JGEI_estInitialized = 0"
| "JGEI_state_ix JGEI_estChildrenImplemented = 1"
| "JGEI_state_ix JGEI_estSelfImplemented = 2"
| "JGEI_state_ix JGEI_estCompleted = 3"
| "JGEI_state_ix JGEI_estSentinel = 4"

definition JGEI_rgeev :: "JGEI_EEvent list list" where
  "JGEI_rgeev =
    [[JGEI_eevImplementingChildren, JGEI_eevChildrenImplemented, JGEI_eevSentinel, JGEI_eevSentinel],
     [JGEI_eevSentinel, JGEI_eevImplementingSelf, JGEI_eevSelfImplemented, JGEI_eevSentinel],
     [JGEI_eevSentinel, JGEI_eevSentinel, JGEI_eevSentinel, JGEI_eevFinalized],
     [JGEI_eevSentinel, JGEI_eevSentinel, JGEI_eevSentinel, JGEI_eevSentinel]]"

definition JGEI_jsm_Init :: "search_action CJobStateMachine \<Rightarrow> search_action CJobStateMachine result" where
  "JGEI_jsm_Init J =
     rbind (jsm_Init J (map (map JGEI_event_ix) JGEI_rgeev)) (\<lambda>J.
     rbind (jsm_SetAction J (JGEI_state_ix JGEI_estInitialized) JGEI_EevtImplementChildren) (\<lambda>J.
     rbind (jsm_SetAction J (JGEI_state_ix JGEI_estChildrenImplemented) JGEI_EevtImplementSelf) (\<lambda>J.
     rbind (jsm_SetAction J (JGEI_state_ix JGEI_estSelfImplemented) JGEI_EevtFinalize) Inr)))"

definition JGEI_machine :: "search_action CJobStateMachine result" where
  "JGEI_machine = rbind (CStateMachine_ctor (JGEI_state_ix JGEI_estSentinel) (JGEI_event_ix JGEI_eevSentinel)) (\<lambda>sm.
     JGEI_jsm_Init \<lparr>m_rgPfuncAction = [], m_sm = sm\<rparr>)"

text \<open>\<^verbatim>\<open>CJobGroupExpressionOptimization\<close>.\<close>

datatype JGEO_EEvent = JGEO_eevOptimizingChildren | JGEO_eevChildrenOptimized | JGEO_eevCheckingEnfdProps | JGEO_eevOptimizingSelf | JGEO_eevSelfOptimized | JGEO_eevFinalized | JGEO_eevSentinel

datatype JGEO_EState = JGEO_estInitialized | JGEO_estOptimizingChildren | JGEO_estChildrenOptimized | JGEO_estEnfdPropsChecked | JGEO_estSelfOptimized | JGEO_estCompleted | JGEO_estSentinel

fun JGEO_event_ix :: "JGEO_EEvent \<Rightarrow> nat" where
  "JGEO_event_ix JGEO_eevOptimizingChildren = 0"
| "JGEO_event_ix JGEO_eevChildrenOptimized = 1"
| "JGEO_event_ix JGEO_eevCheckingEnfdProps = 2"
| "JGEO_event_ix JGEO_eevOptimizingSelf = 3"
| "JGEO_event_ix JGEO_eevSelfOptimized = 4"
| "JGEO_event_ix JGEO_eevFinalized = 5"
| "JGEO_event_ix JGEO_eevSentinel = 6"

fun JGEO_state_ix :: "JGEO_EState \<Rightarrow> nat" where
  "JGEO_state_ix JGEO_estInitialized = 0"
| "JGEO_state_ix JGEO_estOptimizingChildren = 1"
| "JGEO_state_ix JGEO_estChildrenOptimized = 2"
| "JGEO_state_ix JGEO_estEnfdPropsChecked = 3"
| "JGEO_state_ix JGEO_estSelfOptimized = 4"
| "JGEO_state_ix JGEO_estCompleted = 5"
| "JGEO_state_ix JGEO_estSentinel = 6"

definition JGEO_rgeev :: "JGEO_EEvent list list" where
  "JGEO_rgeev =
    [[JGEO_eevSentinel, JGEO_eevOptimizingChildren, JGEO_eevSentinel, JGEO_eevSentinel, JGEO_eevSentinel, JGEO_eevFinalized],
     [JGEO_eevSentinel, JGEO_eevOptimizingChildren, JGEO_eevChildrenOptimized, JGEO_eevSentinel, JGEO_eevSentinel, JGEO_eevFinalized],
     [JGEO_eevSentinel, JGEO_eevSentinel, JGEO_eevSentinel, JGEO_eevOptimizingSelf, JGEO_eevSentinel, JGEO_eevFinalized],
     [JGEO_eevSentinel, JGEO_eevSentinel, JGEO_eevSentinel, JGEO_eevOptimizingSelf, JGEO_eevSelfOptimized, JGEO_eevFinalized],
     [JGEO_eevSentinel, JGEO_eevSentinel, JGEO_eevSentinel, JGEO_eevSentinel, JGEO_eevSentinel, JGEO_eevFinalized],
     [JGEO_eevSentinel, JGEO_eevSentinel, JGEO_eevSentinel, JGEO_eevSentinel, JGEO_eevSentinel, JGEO_eevSentinel]]"

definition JGEO_jsm_Init :: "search_action CJobStateMachine \<Rightarrow> search_action CJobStateMachine result" where
  "JGEO_jsm_Init J =
     rbind (jsm_Init J (map (map JGEO_event_ix) JGEO_rgeev)) (\<lambda>J.
     rbind (jsm_SetAction J (JGEO_state_ix JGEO_estInitialized) JGEO_EevtInitialize) (\<lambda>J.
     rbind (jsm_SetAction J (JGEO_state_ix JGEO_estOptimizingChildren) JGEO_EevtOptimizeChildren) (\<lambda>J.
     rbind (jsm_SetAction J (JGEO_state_ix JGEO_estChildrenOptimized) JGEO_EevtAddEnforcers) (\<lambda>J.
     rbind (jsm_SetAction J (JGEO_state_ix JGEO_estEnfdPropsChecked) JGEO_EevtOptimizeSelf) (\<lambda>J.
     rbind (jsm_SetAction J (JGEO_state_ix JGEO_estSelfOptimized) JGEO_EevtFinalize) Inr)))))"

definition JGEO_machine :: "search_action CJobStateMachine result" where
  "JGEO_machine = rbind (CStateMachine_ctor (JGEO_state_ix JGEO_estSentinel) (JGEO_event_ix JGEO_eevSentinel)) (\<lambda>sm.
     JGEO_jsm_Init \<lparr>m_rgPfuncAction = [], m_sm = sm\<rparr>)"

text \<open>\<^verbatim>\<open>CJobTransformation\<close>.\<close>

datatype JT_EEvent = JT_eevCompleted | JT_eevSentinel

datatype JT_EState = JT_estInitialized | JT_estCompleted | JT_estSentinel

fun JT_event_ix :: "JT_EEvent \<Rightarrow> nat" where
  "JT_event_ix JT_eevCompleted = 0"
| "JT_event_ix JT_eevSentinel = 1"

fun JT_state_ix :: "JT_EState \<Rightarrow> nat" where
  "JT_state_ix JT_estInitialized = 0"
| "JT_state_ix JT_estCompleted = 1"
| "JT_state_ix JT_estSentinel = 2"

definition JT_rgeev :: "JT_EEvent list list" where
  "JT_rgeev =
    [[JT_eevSentinel, JT_eevCompleted],
     [JT_eevSentinel, JT_eevSentinel]]"

definition JT_jsm_Init :: "search_action CJobStateMachine \<Rightarrow> search_action CJobStateMachine result" where
  "JT_jsm_Init J =
     rbind (jsm_Init J (map (map JT_event_ix) JT_rgeev)) (\<lambda>J.
     rbind (jsm_SetAction J (JT_state_ix JT_estInitialized) JT_EevtTransform) Inr)"

definition JT_machine :: "search_action CJobStateMachine result" where
  "JT_machine = rbind (CStateMachine_ctor (JT_state_ix JT_estSentinel) (JT_event_ix JT_eevSentinel)) (\<lambda>sm.
     JT_jsm_Init \<lparr>m_rgPfuncAction = [], m_sm = sm\<rparr>)"

section \<open>What the matrices guarantee\<close>

definition search_machines :: "search_action CJobStateMachine result list" where
  "search_machines =
     [JGE_machine, JGI_machine, JGO_machine, JGEE_machine, JGEI_machine, JGEO_machine, JT_machine]"

text \<open>
  An edge of a machine, and the soundness of a machine: it is initialized, in its initial state and
  deterministic; exactly the initial state has no edge from another state; every state can be
  reached from the initial one and leads to the final one; the final state has no edges; and exactly the
  states before it have an action.
\<close>

definition sm_edge :: "CStateMachine \<Rightarrow> nat \<Rightarrow> nat \<Rightarrow> bool" where
  "sm_edge sm i j \<longleftrightarrow> i < tenumstateSentinel sm \<and> j < tenumstateSentinel sm \<and>
     sm_entry sm i j < tenumeventSentinel sm"

definition job_machine_sound :: "search_action CJobStateMachine \<Rightarrow> bool" where
  "job_machine_sound J \<longleftrightarrow>
     (let sm = m_sm J; n = tenumstateSentinel sm in
      sm_ok sm \<and> m_tenumstate sm = sm_TesInitial sm \<and> sm_Unreachable sm = [sm_TesInitial sm] \<and>
      (\<forall>st < n. (sm_edge sm)\<^sup>*\<^sup>* (sm_TesInitial sm) st \<and> (sm_edge sm)\<^sup>*\<^sup>* st (sm_TesFinal sm)) \<and>
      (\<forall>st. \<not> sm_edge sm (sm_TesFinal sm) st) \<and>
      (\<forall>st < n. m_rgPfuncAction J ! st = None \<longleftrightarrow> st = sm_TesFinal sm))"

text \<open>The conditions in a form that computes.\<close>

fun sm_reach_list :: "CStateMachine \<Rightarrow> nat \<Rightarrow> nat list \<Rightarrow> nat list" where
  "sm_reach_list sm 0 S = S"
| "sm_reach_list sm (Suc k) S =
     sm_reach_list sm k (filter (\<lambda>j. j \<in> set S \<or> (\<exists>i \<in> set S. sm_edge sm i j)) [0..<tenumstateSentinel sm])"

lemma sm_reach_list_sound:
  "j \<in> set (sm_reach_list sm k S) \<Longrightarrow> \<exists>i \<in> set S. (sm_edge sm)\<^sup>*\<^sup>* i j"
proof (induction sm k S rule: sm_reach_list.induct)
  case (2 sm k S)
  then obtain i where "i \<in> set S \<or> (\<exists>h \<in> set S. sm_edge sm h i)" "(sm_edge sm)\<^sup>*\<^sup>* i j" by auto
  then show ?case by (auto intro: converse_rtranclp_into_rtranclp)
qed auto

definition all_below :: "nat \<Rightarrow> (nat \<Rightarrow> bool) \<Rightarrow> bool" where
  "all_below n P = list_all P [0..<n]"

lemma all_below_iff: "all_below n P \<longleftrightarrow> (\<forall>i < n. P i)"
  by (auto simp: all_below_def list_all_iff)

definition job_machine_check :: "search_action CJobStateMachine \<Rightarrow> bool" where
  "job_machine_check J \<longleftrightarrow>
     (let sm = m_sm J; n = tenumstateSentinel sm in
      sm_fInit sm \<and> 0 < n \<and> m_tenumstate sm = 0 \<and>
      all_below n (\<lambda>i. all_below n (\<lambda>j. all_below n (\<lambda>k.
        sm_entry sm i j = sm_entry sm i k \<longrightarrow> sm_entry sm i j < tenumeventSentinel sm \<longrightarrow> j = k))) \<and>
      sm_Unreachable sm = [0] \<and>
      all_below n (\<lambda>st. st \<in> set (sm_reach_list sm n [0]) \<and> n - 1 \<in> set (sm_reach_list sm n [st])) \<and>
      all_below n (\<lambda>st. \<not> sm_edge sm (n - 1) st) \<and>
      all_below n (\<lambda>st. m_rgPfuncAction J ! st = None \<longleftrightarrow> st = n - 1))"

lemma job_machine_check_sound:
  assumes "job_machine_check J"
  shows "job_machine_sound J"
proof -
  define sm where "sm = m_sm J"
  define n where "n = tenumstateSentinel sm"
  note c = assms [unfolded job_machine_check_def Let_def, folded sm_def, folded n_def, unfolded all_below_iff]
  have ok: "sm_ok sm" using c unfolding sm_ok_def n_def [symmetric] by (intro conjI) (elim conjE; assumption | simp)+
  have reach: "(sm_edge sm)\<^sup>*\<^sup>* 0 st \<and> (sm_edge sm)\<^sup>*\<^sup>* st (n - 1)" if "st < n" for st
  proof -
    have "st \<in> set (sm_reach_list sm n [0])" "n - 1 \<in> set (sm_reach_list sm n [st])"
      using c that by blast+
    then show ?thesis
      using sm_reach_list_sound [of st sm n "[0]"] sm_reach_list_sound [of "n - 1" sm n "[st]"] by simp
  qed
  have final: "\<not> sm_edge sm (n - 1) st" for st
  proof (cases "st < n")
    case True
    then show ?thesis using c by blast
  qed (simp add: sm_edge_def n_def)
  show ?thesis
    unfolding job_machine_sound_def Let_def sm_TesInitial_def sm_TesFinal_def sm_def [symmetric] n_def [symmetric]
    using ok reach final c by (intro conjI) (elim conjE; assumption | blast)+
qed

text \<open>
  C39: The seven search machines pass the assertions of their construction and are sound: the only
  state the walker reports is the initial one, as the tests expect, no state is a dead end, and
  every state but the final one has an action.
\<close>

theorem search_machines_sound:
  "list_all (\<lambda>m. case m of Inl e \<Rightarrow> False | Inr J \<Rightarrow> job_machine_sound J) search_machines"
proof -
  have "list_all (\<lambda>m. case m of Inl e \<Rightarrow> False | Inr J \<Rightarrow> job_machine_check J) search_machines"
    by code_simp
  then show ?thesis
    by (auto simp: list_all_iff intro: job_machine_check_sound split: sum.splits)
qed

text \<open>The check \<^verbatim>\<open>FReachable\<close> fails on all of them nevertheless: no state leads back to the initial one.\<close>

lemma search_machines_not_FReachable:
  "list_all (\<lambda>m. case m of Inl e \<Rightarrow> False | Inr J \<Rightarrow> \<not> sm_FReachable (m_sm J)) search_machines"
  by code_simp

text \<open>All machines but that of group optimization are forward, so that their runs end.\<close>

lemma search_machines_forward:
  "map (\<lambda>m. case m of Inl e \<Rightarrow> False | Inr J \<Rightarrow> sm_forward (m_sm J)) search_machines =
     [True, True, False, True, True, True, True]"
  by code_simp

text \<open>The job of a transformation, whose actions answer its only event.\<close>

definition JT_job :: "search_action CJobStateMachine" where
  "JT_job = projr JT_machine"

theorem FRun_forward_ends_witness:
  "\<exists>r. jsm_FRun id (\<lambda>J _. J) (\<lambda>_ J. Inr (JT_event_ix JT_eevCompleted, J)) (\<lambda>_. False) id JT_job = Some r"
proof -
  have "sm_forward (m_sm JT_job) \<and> m_tenumstate (m_sm JT_job) < tenumstateSentinel (m_sm JT_job)"
    unfolding JT_job_def by code_simp
  then show ?thesis
    using FRun_forward_ends [where jsm = id and set_jsm = "\<lambda>J _. J" and w = JT_job
        and call = "\<lambda>_ J. Inr (JT_event_ix JT_eevCompleted, J)" and FTimedOut = "\<lambda>_. False" and Cleanup = id] by simp
qed

end
