(* ===== verification/SyncPool.thy ===== *)
theory SyncPool
  imports Prelude
begin

text \<open>
  \<^verbatim>\<open>CSyncPool\<close> of \<^verbatim>\<open>libgpos\<close>: an array of preallocated objects with two bitmaps, one for the objects that
  are reserved and one for those that wait to be recycled, and a clock index that goes around
  the array. An object of the array is the number of its slot, which is also the id it is given and
  keeps; when no slot is free an object is allocated on the heap.
\<close>

section \<open>The pool\<close>

record CSyncPool =
  sp_fInit :: bool
  m_objs_reserved :: "ULONG list"
  m_objs_recycled :: "ULONG list"
  m_numobjs :: ULONG
  m_bitmap_size :: ULONG
  m_last_lookup_idx :: ULLONG

datatype pool_object = Slot nat | Heap

definition CSyncPool_ctor :: "ULONG \<Rightarrow> CSyncPool" where
  "CSyncPool_ctor sz =
     \<lparr>sp_fInit = False, m_objs_reserved = [], m_objs_recycled = [], m_numobjs = sz,
      m_bitmap_size = sz div 32 + 1, m_last_lookup_idx = 0\<rparr>"

definition sp_Init :: "CSyncPool \<Rightarrow> CSyncPool" where
  "sp_Init sp =
     sp\<lparr>sp_fInit := True, m_objs_reserved := replicate (unat (m_bitmap_size sp)) 0,
        m_objs_recycled := replicate (unat (m_bitmap_size sp)) 0\<rparr>"

text \<open>The word and the mask of an index: \<^verbatim>\<open>1 << bit_offset\<close> at \<^verbatim>\<open>elem_offset\<close>.\<close>

definition sp_elem_offset :: "ULONG \<Rightarrow> nat" where
  "sp_elem_offset index = unat (index div 32)"

definition sp_bit_val :: "ULONG \<Rightarrow> ULONG" where
  "sp_bit_val index = push_bit (unat (index mod 32)) 1"

text \<open>
  \<^verbatim>\<open>SetBit\<close> and \<^verbatim>\<open>UnsetBit\<close> on the word at an offset of a bitmap, with the answer whether they changed it. There
  is one thread, so their loops go around once at most.
\<close>

definition sp_SetBit :: "ULONG list \<Rightarrow> nat \<Rightarrow> ULONG \<Rightarrow> (bool \<times> ULONG list) result" where
  "sp_SetBit bm off bit_val =
     (if off < length bm
      then Inr (if bit_val AND bm ! off = 0 then (True, bm[off := bit_val OR bm ! off]) else (False, bm))
      else Inl OutOfBounds)"

definition sp_UnsetBit :: "ULONG list \<Rightarrow> nat \<Rightarrow> ULONG \<Rightarrow> (bool \<times> ULONG list) result" where
  "sp_UnsetBit bm off bit_val =
     (if off < length bm
      then Inr (if bit_val AND bm ! off = bit_val then (True, bm[off := bit_val XOR bm ! off]) else (False, bm))
      else Inl OutOfBounds)"

definition sp_test :: "ULONG list \<Rightarrow> nat \<Rightarrow> ULONG \<Rightarrow> bool result" where
  "sp_test bm off bit_val = (if off < length bm then Inr (bit_val = bit_val AND bm ! off) else Inl OutOfBounds)"

text \<open>
  \<^verbatim>\<open>PtRetrieve\<close>: the argument counts the iterations that are left of two rotations; \<^verbatim>\<open>2 * m_numobjs\<close> is computed in
  32 bits and the clock index in 64.
\<close>

fun sp_retrieve_loop :: "nat \<Rightarrow> CSyncPool \<Rightarrow> (pool_object \<times> CSyncPool) result" where
  "sp_retrieve_loop 0 sp = Inr (Heap, sp)"
| "sp_retrieve_loop (Suc k) sp =
     (let index = ucast (m_last_lookup_idx sp mod ucast (m_numobjs sp)) :: ULONG;
          sp1 = sp\<lparr>m_last_lookup_idx := m_last_lookup_idx sp + 1\<rparr>;
          off = sp_elem_offset index; bit_val = sp_bit_val index
      in rbind (sp_SetBit (m_objs_reserved sp1) off bit_val) (\<lambda>(fSet, reserved).
           if fSet then Inr (Slot (unat index), sp1\<lparr>m_objs_reserved := reserved\<rparr>)
           else rbind (sp_test (m_objs_recycled sp1) off bit_val) (\<lambda>fRecycled.
             if fRecycled
             then rbind (sp_UnsetBit (m_objs_recycled sp1) off bit_val) (\<lambda>(fUnset, recycled).
               if fUnset
               then rbind (sp_UnsetBit reserved off bit_val) (\<lambda>(fUnset2, reserved2).
                 gpos_assert fUnset2
                   (sp_retrieve_loop k (sp1\<lparr>m_objs_recycled := recycled, m_objs_reserved := reserved2\<rparr>)))
               else sp_retrieve_loop k sp1)
             else sp_retrieve_loop k sp1)))"

definition sp_PtRetrieve :: "CSyncPool \<Rightarrow> (pool_object \<times> CSyncPool) result" where
  "sp_PtRetrieve sp = gpos_assert (sp_fInit sp) (sp_retrieve_loop (unat (2 * m_numobjs sp)) sp)"

definition sp_Recycle :: "pool_object \<Rightarrow> CSyncPool \<Rightarrow> CSyncPool result" where
  "sp_Recycle elem sp =
     gpos_assert (sp_fInit sp)
       (case elem of
          Heap \<Rightarrow> Inr sp
        | Slot offset \<Rightarrow>
            gpos_assert (offset < unat (m_numobjs sp))
              (let off = sp_elem_offset (of_nat offset); bit_val = sp_bit_val (of_nat offset)
               in rbind (sp_test (m_objs_reserved sp) off bit_val) (\<lambda>fReserved.
                    gpos_assert fReserved
                      (rbind (sp_SetBit (m_objs_recycled sp) off bit_val) (\<lambda>(mark_recycled, recycled).
                         gpos_assert mark_recycled (Inr (sp\<lparr>m_objs_recycled := recycled\<rparr>)))))))"

text \<open>The destructor asserts that no object of the array is in use.\<close>

definition sp_dtor :: "CSyncPool \<Rightarrow> unit result" where
  "sp_dtor sp =
     (if sp_fInit sp
      then rbind (rmap (\<lambda>i.
        rbind (sp_test (m_objs_reserved sp) (sp_elem_offset (of_nat i)) (sp_bit_val (of_nat i))) (\<lambda>reserved.
        rbind (sp_test (m_objs_recycled sp) (sp_elem_offset (of_nat i)) (sp_bit_val (of_nat i))) (\<lambda>recycled.
          gpos_assert (\<not> reserved \<or> recycled) (Inr ()))))
        [0..<unat (m_numobjs sp)]) (\<lambda>_. Inr ())
      else Inr ())"

section \<open>What the bitmaps stand for\<close>

definition bm_bit :: "ULONG list \<Rightarrow> nat \<Rightarrow> bool" where
  "bm_bit bm i \<longleftrightarrow> bit (bm ! (i div 32)) (i mod 32)"

definition sp_reserved :: "CSyncPool \<Rightarrow> nat set" where
  "sp_reserved sp = {i. i < unat (m_numobjs sp) \<and> bm_bit (m_objs_reserved sp) i}"

definition sp_recycled :: "CSyncPool \<Rightarrow> nat set" where
  "sp_recycled sp = {i. i < unat (m_numobjs sp) \<and> bm_bit (m_objs_recycled sp) i}"

definition sp_in_use :: "CSyncPool \<Rightarrow> nat set" where
  "sp_in_use sp = sp_reserved sp - sp_recycled sp"

definition sp_wf :: "CSyncPool \<Rightarrow> bool" where
  "sp_wf sp \<longleftrightarrow> sp_fInit sp \<and> unat (m_numobjs sp) < 2147483648 \<and>
     length (m_objs_reserved sp) = unat (m_numobjs sp) div 32 + 1 \<and>
     length (m_objs_recycled sp) = unat (m_numobjs sp) div 32 + 1 \<and>
     sp_recycled sp \<subseteq> sp_reserved sp"

text \<open>\<open>sp_ok b sp\<close>: a well-formed pool whose clock index will not wrap in \<open>b\<close> further retrievals.\<close>

definition sp_ok :: "nat \<Rightarrow> CSyncPool \<Rightarrow> bool" where
  "sp_ok b sp \<longleftrightarrow> sp_wf sp \<and>
     unat (m_last_lookup_idx sp) + b * (2 * unat (m_numobjs sp)) < 18446744073709551616"

lemma unat_index_parts:
  assumes "i < 4294967296"
  shows "sp_elem_offset (of_nat i) = i div 32" and "unat ((of_nat i :: ULONG) mod 32) = i mod 32"
  using assms by (simp_all add: sp_elem_offset_def unat_div unat_mod unat_of_nat)

lemma sp_bit_val_eq: "i < 4294967296 \<Longrightarrow> sp_bit_val (of_nat i) = 2 ^ (i mod 32)"
  by (simp add: sp_bit_val_def unat_index_parts push_bit_eq_mult)

lemma mask_and_zero_iff: "n < 32 \<Longrightarrow> (2 ^ n AND w = 0) \<longleftrightarrow> \<not> bit (w :: ULONG) n"
  by (simp add: and.commute [of "2 ^ n"] and_exp_eq_0_iff_not_bit)

lemma same_position: "i div 32 = j div 32 \<Longrightarrow> i mod 32 = j mod 32 \<Longrightarrow> i = (j :: nat)"
  by (metis div_mult_mod_eq)

lemma mask_and_mask_iff:
  assumes "n < 32"
  shows "(2 ^ n AND w = 2 ^ n) \<longleftrightarrow> bit (w :: ULONG) n"
proof
  assume "2 ^ n AND w = 2 ^ n"
  then have "bit (2 ^ n AND w) n" using assms by (simp add: bit_exp_iff)
  then show "bit w n" by (simp add: bit_and_iff)
qed (auto intro!: bit_word_eqI simp: bit_and_iff bit_exp_iff)

lemma sp_SetBit_eq:
  assumes "i < 4294967296" and "i div 32 < length bm"
  shows "sp_SetBit bm (i div 32) (2 ^ (i mod 32)) =
     Inr (if bm_bit bm i then (False, bm) else (True, bm[i div 32 := 2 ^ (i mod 32) OR bm ! (i div 32)]))"
  using assms by (simp add: sp_SetBit_def mask_and_zero_iff bm_bit_def)

lemma sp_UnsetBit_eq:
  assumes "i < 4294967296" and "i div 32 < length bm"
  shows "sp_UnsetBit bm (i div 32) (2 ^ (i mod 32)) =
     Inr (if bm_bit bm i then (True, bm[i div 32 := 2 ^ (i mod 32) XOR bm ! (i div 32)]) else (False, bm))"
  using assms by (simp add: sp_UnsetBit_def mask_and_mask_iff bm_bit_def)

lemma sp_test_eq:
  assumes "i < 4294967296" and "i div 32 < length bm"
  shows "sp_test bm (i div 32) (2 ^ (i mod 32)) = Inr (bm_bit bm i)"
  using assms mask_and_mask_iff [of "i mod 32" "bm ! (i div 32)"] by (auto simp: sp_test_def bm_bit_def)

lemma bm_bit_set:
  assumes "i div 32 < length bm"
  shows "bm_bit (bm[i div 32 := 2 ^ (i mod 32) OR bm ! (i div 32)]) j \<longleftrightarrow> j = i \<or> bm_bit bm j"
  using assms by (auto simp: bm_bit_def nth_list_update bit_or_iff bit_exp_iff dest: same_position)

lemma bm_bit_unset:
  assumes "i div 32 < length bm" and "bm_bit bm i"
  shows "bm_bit (bm[i div 32 := 2 ^ (i mod 32) XOR bm ! (i div 32)]) j \<longleftrightarrow> j \<noteq> i \<and> bm_bit bm j"
  using assms by (auto simp: bm_bit_def nth_list_update bit_xor_iff bit_exp_iff dest: same_position)

section \<open>One iteration\<close>

text \<open>The slot an iteration looks at, and the pool when the slot is recycled.\<close>

definition sp_index :: "CSyncPool \<Rightarrow> nat" where
  "sp_index sp = unat (m_last_lookup_idx sp) mod unat (m_numobjs sp)"

definition sp_freed :: "nat \<Rightarrow> CSyncPool \<Rightarrow> CSyncPool" where
  "sp_freed i sp = sp\<lparr>m_objs_recycled := (m_objs_recycled sp)[i div 32 := 2 ^ (i mod 32) XOR m_objs_recycled sp ! (i div 32)],
     m_objs_reserved := (m_objs_reserved sp)[i div 32 := 2 ^ (i mod 32) XOR m_objs_reserved sp ! (i div 32)]\<rparr>"

definition sp_advance :: "CSyncPool \<Rightarrow> CSyncPool" where
  "sp_advance sp = sp\<lparr>m_last_lookup_idx := m_last_lookup_idx sp + 1\<rparr>"

definition sp_taken :: "nat \<Rightarrow> CSyncPool \<Rightarrow> CSyncPool" where
  "sp_taken i sp = sp\<lparr>m_objs_reserved := (m_objs_reserved sp)[i div 32 := 2 ^ (i mod 32) OR m_objs_reserved sp ! (i div 32)]\<rparr>"

lemma sp_index_less: "m_numobjs sp \<noteq> 0 \<Longrightarrow> sp_index sp < unat (m_numobjs sp)"
  by (simp add: sp_index_def unat_gt_0)

lemma sp_index_word:
  assumes "m_numobjs sp \<noteq> 0"
  shows "(ucast (m_last_lookup_idx sp mod ucast (m_numobjs sp)) :: ULONG) = of_nat (sp_index sp)"
proof (rule unat_eq_imp_eq)
  have n: "unat (ucast (m_numobjs sp) :: ULLONG) = unat (m_numobjs sp)"
    using unat_ULONG_less [of "m_numobjs sp"] by (simp add: unsigned_ucast_eq take_bit_eq_mod)
  have lt: "sp_index sp < 4294967296"
    using sp_index_less [OF assms] unat_ULONG_less [of "m_numobjs sp"] by linarith
  have m: "unat (m_last_lookup_idx sp mod ucast (m_numobjs sp)) = sp_index sp"
    by (simp add: unat_mod n sp_index_def)
  have "unat (ucast (m_last_lookup_idx sp mod ucast (m_numobjs sp)) :: ULONG) = sp_index sp mod 4294967296"
    using m by (simp add: unsigned_ucast_eq take_bit_eq_mod)
  then show "unat (ucast (m_last_lookup_idx sp mod ucast (m_numobjs sp)) :: ULONG) = unat (of_nat (sp_index sp) :: ULONG)"
    using lt by (simp add: unat_of_nat)
qed

lemma sp_index_offset:
  assumes "sp_wf sp" and "m_numobjs sp \<noteq> 0"
  shows "sp_index sp < 4294967296" and "sp_index sp div 32 < length (m_objs_reserved sp)"
    and "sp_index sp div 32 < length (m_objs_recycled sp)"
  using assms sp_index_less [OF assms(2)] div_le_mono [of "sp_index sp" "unat (m_numobjs sp)" 32]
  by (auto simp: sp_wf_def)

lemma sp_retrieve_loop_step:
  assumes ok: "sp_wf sp" and n: "m_numobjs sp \<noteq> 0"
  shows "sp_retrieve_loop (Suc k) sp =
    (let i = sp_index sp; sp1 = sp_advance sp
     in if i \<notin> sp_reserved sp then Inr (Slot i, sp_taken i sp1)
        else if i \<in> sp_recycled sp then sp_retrieve_loop k (sp_freed i sp1)
        else sp_retrieve_loop k sp1)"
proof -
  note off = sp_index_offset [OF ok n]
  note i = sp_index_less [OF n]
  have w: "unat (of_nat (sp_index sp) :: ULONG) = sp_index sp" using off(1) by (simp add: unat_of_nat)
  show ?thesis
    using i off
    by (simp add: sp_index_word [OF n] unat_index_parts sp_bit_val_eq sp_SetBit_eq sp_test_eq sp_UnsetBit_eq w
        Let_def sp_reserved_def sp_recycled_def sp_taken_def sp_freed_def sp_advance_def
        del: of_nat_unat)
qed

lemma sp_advance_sel [simp]:
  "sp_reserved (sp_advance sp) = sp_reserved sp" "sp_recycled (sp_advance sp) = sp_recycled sp"
  "sp_in_use (sp_advance sp) = sp_in_use sp" "m_numobjs (sp_advance sp) = m_numobjs sp"
  by (simp_all add: sp_advance_def sp_reserved_def sp_recycled_def sp_in_use_def)

lemma sp_freed_sets:
  assumes "sp_wf sp" and "i \<in> sp_recycled sp"
  shows "sp_reserved (sp_freed i sp) = sp_reserved sp - {i}" and "sp_recycled (sp_freed i sp) = sp_recycled sp - {i}"
    and "sp_in_use (sp_freed i sp) = sp_in_use sp" and "m_numobjs (sp_freed i sp) = m_numobjs sp"
proof -
  have i: "i < unat (m_numobjs sp)" "i div 32 < length (m_objs_recycled sp)" "i div 32 < length (m_objs_reserved sp)"
      "bm_bit (m_objs_recycled sp) i" "bm_bit (m_objs_reserved sp) i"
    using assms div_le_mono [of i "unat (m_numobjs sp)" 32]
    by (auto simp: sp_wf_def sp_recycled_def sp_reserved_def)
  show 1: "sp_reserved (sp_freed i sp) = sp_reserved sp - {i}" "sp_recycled (sp_freed i sp) = sp_recycled sp - {i}"
    using i by (auto simp: sp_reserved_def sp_recycled_def sp_freed_def bm_bit_unset)
  show "sp_in_use (sp_freed i sp) = sp_in_use sp"
    using assms(2) by (auto simp: sp_in_use_def 1)
qed (simp add: sp_freed_def)

lemma sp_taken_sets:
  assumes "sp_wf sp" and "i < unat (m_numobjs sp)" and "i \<notin> sp_reserved sp"
  shows "sp_reserved (sp_taken i sp) = insert i (sp_reserved sp)" and "sp_recycled (sp_taken i sp) = sp_recycled sp"
    and "sp_in_use (sp_taken i sp) = insert i (sp_in_use sp)" and "m_numobjs (sp_taken i sp) = m_numobjs sp"
proof -
  have i: "i div 32 < length (m_objs_reserved sp)"
    using assms div_le_mono [of i "unat (m_numobjs sp)" 32] by (auto simp: sp_wf_def)
  show 1: "sp_reserved (sp_taken i sp) = insert i (sp_reserved sp)" "sp_recycled (sp_taken i sp) = sp_recycled sp"
    using i assms(2) by (auto simp: sp_reserved_def sp_recycled_def sp_taken_def bm_bit_set)
  have "i \<notin> sp_recycled sp" using assms(1,3) by (auto simp: sp_wf_def)
  then show "sp_in_use (sp_taken i sp) = insert i (sp_in_use sp)"
    by (auto simp: sp_in_use_def 1)
qed (simp add: sp_taken_def)

section \<open>Two rotations\<close>

lemma sp_wf_simps [simp]:
  "sp_wf sp \<Longrightarrow> sp_wf (sp_advance sp)"
  "sp_wf sp \<Longrightarrow> i \<in> sp_recycled sp \<Longrightarrow> sp_wf (sp_freed i sp)"
  "sp_wf sp \<Longrightarrow> i < unat (m_numobjs sp) \<Longrightarrow> i \<notin> sp_reserved sp \<Longrightarrow> sp_wf (sp_taken i sp)"
proof -
  show "sp_wf sp \<Longrightarrow> sp_wf (sp_advance sp)" by (simp add: sp_wf_def) (simp add: sp_advance_def)
  show "sp_wf (sp_freed i sp)" if wf: "sp_wf sp" "i \<in> sp_recycled sp"
  proof -
    have "sp_recycled (sp_freed i sp) \<subseteq> sp_reserved (sp_freed i sp)"
      unfolding sp_freed_sets(1,2) [OF wf] using wf(1) unfolding sp_wf_def by blast
    then show ?thesis using wf(1) unfolding sp_wf_def by (simp add: sp_freed_def)
  qed
  show "sp_wf (sp_taken i sp)" if wf: "sp_wf sp" "i < unat (m_numobjs sp)" "i \<notin> sp_reserved sp"
  proof -
    have "sp_recycled (sp_taken i sp) \<subseteq> sp_reserved (sp_taken i sp)"
      unfolding sp_taken_sets(1,2) [OF wf] using wf(1) unfolding sp_wf_def by blast
    then show ?thesis using wf(1) unfolding sp_wf_def by (simp add: sp_taken_def)
  qed
qed

lemma sp_last_lookup [simp]:
  "m_last_lookup_idx (sp_freed i sp) = m_last_lookup_idx sp"
  "m_last_lookup_idx (sp_taken i sp) = m_last_lookup_idx sp"
  "unat (m_last_lookup_idx sp) + 1 < 18446744073709551616 \<Longrightarrow>
     unat (m_last_lookup_idx (sp_advance sp)) = unat (m_last_lookup_idx sp) + 1"
proof -
  assume "unat (m_last_lookup_idx sp) + 1 < 18446744073709551616"
  then have "unat (m_last_lookup_idx sp + 1) = unat (m_last_lookup_idx sp) + unat (1 :: ULLONG)"
    by (intro unat_add_lem [THEN iffD1]) simp
  then show "unat (m_last_lookup_idx (sp_advance sp)) = unat (m_last_lookup_idx sp) + 1"
    by (simp add: sp_advance_def)
qed (simp_all add: sp_freed_def sp_taken_def)

text \<open>
  What the loop promises: it either takes a slot that is not in use, or changes nothing that is in
  use. In the second case it met reserved slots only, and those it met twice are in use.
\<close>

definition sp_loop_post :: "nat \<Rightarrow> CSyncPool \<Rightarrow> pool_object \<Rightarrow> CSyncPool \<Rightarrow> bool" where
  "sp_loop_post k sp obj sp' \<longleftrightarrow>
     sp_wf sp' \<and> m_numobjs sp' = m_numobjs sp \<and>
     unat (m_last_lookup_idx sp') \<le> unat (m_last_lookup_idx sp) + k \<and>
     (case obj of
        Slot i \<Rightarrow> i < unat (m_numobjs sp) \<and> i \<notin> sp_in_use sp \<and> sp_in_use sp' = insert i (sp_in_use sp)
      | Heap \<Rightarrow> sp_in_use sp' = sp_in_use sp \<and>
         (\<forall>t < k. (unat (m_last_lookup_idx sp) + t) mod unat (m_numobjs sp) \<in> sp_reserved sp) \<and>
         (\<forall>t2 < k. \<forall>t1 < t2. (unat (m_last_lookup_idx sp) + t1) mod unat (m_numobjs sp) =
             (unat (m_last_lookup_idx sp) + t2) mod unat (m_numobjs sp) \<longrightarrow>
           (unat (m_last_lookup_idx sp) + t1) mod unat (m_numobjs sp) \<in> sp_in_use sp))"

lemma all_less_Suc_shift: "(\<forall>t < Suc k. P t) \<longleftrightarrow> P 0 \<and> (\<forall>t < k. P (Suc t))"
  by (metis Suc_less_eq gr0_conv_Suc less_Suc_eq_0_disj)

lemma sp_retrieve_loop_post:
  assumes "sp_wf sp" and "m_numobjs sp \<noteq> 0" and "unat (m_last_lookup_idx sp) + k < 18446744073709551616"
  shows "\<exists>obj sp'. sp_retrieve_loop k sp = Inr (obj, sp') \<and> sp_loop_post k sp obj sp'"
  using assms
proof (induction k arbitrary: sp)
  case 0
  then show ?case by (simp add: sp_loop_post_def)
next
  case (Suc k)
  define i where "i = sp_index sp"
  define n where "n = unat (m_numobjs sp)"
  define x where "x = unat (m_last_lookup_idx sp)"
  have ix: "i = x mod n" "i < n" using sp_index_less [OF Suc.prems(2)] by (simp_all add: i_def x_def n_def sp_index_def)
  have adv: "unat (m_last_lookup_idx (sp_advance sp)) = x + 1" using Suc.prems(3) by (simp add: x_def)
  note step = sp_retrieve_loop_step [OF Suc.prems(1,2), of k, folded i_def, unfolded Let_def]
  show ?case
  proof (cases "i \<in> sp_reserved sp")
    case False
    then have "sp_loop_post (Suc k) sp (Slot i) (sp_taken i (sp_advance sp))"
      using Suc.prems ix adv sp_taken_sets [of "sp_advance sp" i]
      by (auto simp: sp_loop_post_def n_def x_def sp_in_use_def)
    then show ?thesis using step False by simp
  next
    case res: True
    define sp1 where "sp1 = (if i \<in> sp_recycled sp then sp_freed i (sp_advance sp) else sp_advance sp)"
    have sp1: "sp_wf sp1" "m_numobjs sp1 = m_numobjs sp" "unat (m_last_lookup_idx sp1) = x + 1"
        "sp_in_use sp1 = sp_in_use sp" "sp_reserved sp1 \<subseteq> sp_reserved sp"
        "i \<in> sp_in_use sp \<or> i \<notin> sp_reserved sp1"
      using Suc.prems(1) res adv sp_freed_sets [of "sp_advance sp" i] by (auto simp: sp1_def sp_in_use_def)
    obtain obj sp' where loop: "sp_retrieve_loop k sp1 = Inr (obj, sp')" and post: "sp_loop_post k sp1 obj sp'"
      using Suc.IH [of sp1] sp1 Suc.prems by (auto simp: x_def)
    have "sp_retrieve_loop (Suc k) sp = Inr (obj, sp')"
      using step res loop by (simp add: sp1_def split: if_splits)
    moreover have "sp_loop_post (Suc k) sp obj sp'"
    proof (cases obj)
      case (Slot j)
      then show ?thesis using post sp1 by (auto simp: sp_loop_post_def x_def)
    next
      case Heap
      have met: "\<forall>t < k. (x + 1 + t) mod n \<in> sp_reserved sp1"
        and twice: "\<forall>t2 < k. \<forall>t1 < t2. (x + 1 + t1) mod n = (x + 1 + t2) mod n \<longrightarrow> (x + 1 + t1) mod n \<in> sp_in_use sp"
        using post sp1 unfolding Heap sp_loop_post_def n_def by simp_all
      have "\<forall>t < Suc k. (x + t) mod n \<in> sp_reserved sp"
        unfolding all_less_Suc_shift using met sp1(5) res ix by auto
      moreover have "(x + t1) mod n \<in> sp_in_use sp"
        if "t2 < Suc k" "t1 < t2" "(x + t1) mod n = (x + t2) mod n" for t1 t2
      proof -
        define s2 where "s2 = t2 - 1"
        have s2: "t2 = Suc s2" "s2 < k" using that(1,2) by (auto simp: s2_def)
        show ?thesis
        proof (cases t1)
          case 0
          then have "i \<in> sp_reserved sp1" using met s2 that(3) ix by auto
          then show ?thesis using sp1(6) 0 ix by simp
        next
          case (Suc s1)
          then show ?thesis using twice s2 that by auto
        qed
      qed
      ultimately show ?thesis
        using post sp1 unfolding Heap sp_loop_post_def n_def x_def by auto
    qed
    ultimately show ?thesis by blast
  qed
qed

section \<open>The operations on the set of objects in use\<close>

lemma sp_PtRetrieve_correct:
  assumes ok: "sp_ok (Suc b) sp"
  shows "\<exists>obj sp'. sp_PtRetrieve sp = Inr (obj, sp') \<and> sp_ok b sp' \<and> m_numobjs sp' = m_numobjs sp \<and>
    (case obj of
       Slot i \<Rightarrow> i < unat (m_numobjs sp) \<and> i \<notin> sp_in_use sp \<and> sp_in_use sp' = insert i (sp_in_use sp)
     | Heap \<Rightarrow> sp_in_use sp = {..<unat (m_numobjs sp)} \<and> sp_in_use sp' = sp_in_use sp)"
proof -
  define n where "n = unat (m_numobjs sp)"
  define x where "x = unat (m_last_lookup_idx sp)"
  have wf: "sp_wf sp" and room: "x + 2 * n + b * (2 * n) < 18446744073709551616"
    using ok by (auto simp: sp_ok_def n_def x_def)
  have two: "unat (2 * m_numobjs sp) = 2 * n" using wf by (simp add: sp_wf_def n_def unat_mult_lem [THEN iffD1])
  have run: "sp_PtRetrieve sp = sp_retrieve_loop (2 * n) sp"
    using wf by (simp add: sp_PtRetrieve_def two sp_wf_def)
  show ?thesis
  proof (cases "m_numobjs sp = 0")
    case True
    then have "n = 0" by (simp add: n_def)
    then show ?thesis using run wf room True
      by (auto simp: sp_ok_def sp_in_use_def sp_reserved_def x_def)
  next
    case False
    obtain obj sp' where loop: "sp_retrieve_loop (2 * n) sp = Inr (obj, sp')" and post: "sp_loop_post (2 * n) sp obj sp'"
      using sp_retrieve_loop_post [OF wf False, of "2 * n"] room by (auto simp: x_def)
    have "sp_ok b sp'" using post room by (auto simp: sp_loop_post_def sp_ok_def n_def x_def)
    moreover have "m_numobjs sp' = m_numobjs sp" using post by (simp add: sp_loop_post_def)
    moreover have "case obj of
        Slot i \<Rightarrow> i < n \<and> i \<notin> sp_in_use sp \<and> sp_in_use sp' = insert i (sp_in_use sp)
      | Heap \<Rightarrow> sp_in_use sp = {..<n} \<and> sp_in_use sp' = sp_in_use sp"
    proof (cases obj)
      case Heap
      have twice: "\<forall>t2 < 2 * n. \<forall>t1 < t2. (x + t1) mod n = (x + t2) mod n \<longrightarrow> (x + t1) mod n \<in> sp_in_use sp"
        and same: "sp_in_use sp' = sp_in_use sp"
        using post unfolding Heap sp_loop_post_def n_def x_def by simp_all
      have "f \<in> sp_in_use sp" if f: "f < n" for f
      proof -
        define t where "t = (f + (n - x mod n)) mod n"
        have t: "t < n" using f by (simp add: t_def)
        have "(x + t) mod n = (x mod n + (f + (n - x mod n))) mod n"
          unfolding t_def by (simp add: mod_add_left_eq mod_add_right_eq)
        also have "x mod n + (f + (n - x mod n)) = f + n" using f mod_less_divisor [of n x] by linarith
        finally have xt: "(x + t) mod n = f" using f by simp
        have "(x + t) mod n = (x + (t + n)) mod n" by (simp add: add.assoc [symmetric])
        then have "(x + t) mod n \<in> sp_in_use sp" using twice t by (intro twice [rule_format, of "t + n" t]) auto
        then show ?thesis by (simp add: xt)
      qed
      moreover have "sp_in_use sp \<subseteq> {..<n}" by (auto simp: sp_in_use_def sp_reserved_def n_def)
      ultimately show ?thesis using same Heap by auto
    next
      case (Slot i)
      then show ?thesis using post by (simp add: sp_loop_post_def n_def)
    qed
    ultimately show ?thesis using run loop unfolding n_def by auto
  qed
qed

lemma sp_Recycle_correct:
  assumes "sp_ok b sp"
  shows "sp_Recycle (Slot i) sp =
    (if i \<in> sp_in_use sp
     then Inr (sp\<lparr>m_objs_recycled := (m_objs_recycled sp)[i div 32 := 2 ^ (i mod 32) OR m_objs_recycled sp ! (i div 32)]\<rparr>)
     else Inl AssertFailed)"
    and "sp_Recycle Heap sp = Inr sp"
proof -
  have wf: "sp_wf sp" using assms by (simp add: sp_ok_def)
  then show "sp_Recycle Heap sp = Inr sp" by (simp add: sp_Recycle_def sp_wf_def)
  show "sp_Recycle (Slot i) sp = (if i \<in> sp_in_use sp
     then Inr (sp\<lparr>m_objs_recycled := (m_objs_recycled sp)[i div 32 := 2 ^ (i mod 32) OR m_objs_recycled sp ! (i div 32)]\<rparr>)
     else Inl AssertFailed)"
  proof (cases "i < unat (m_numobjs sp)")
    case True
    then have i: "i < 4294967296" "i div 32 < length (m_objs_reserved sp)" "i div 32 < length (m_objs_recycled sp)"
      using wf div_le_mono [of i "unat (m_numobjs sp)" 32] by (auto simp: sp_wf_def)
    show ?thesis using wf True i
      by (simp add: sp_Recycle_def sp_wf_def unat_index_parts sp_bit_val_eq sp_test_eq sp_SetBit_eq Let_def
          sp_in_use_def sp_reserved_def sp_recycled_def gpos_assert_def)
  next
    case False
    then show ?thesis using wf by (simp add: sp_Recycle_def sp_wf_def sp_in_use_def sp_reserved_def)
  qed
qed

lemma sp_recycled_state:
  assumes "sp_ok b sp" and "i \<in> sp_in_use sp" and "sp_Recycle (Slot i) sp = Inr sp'"
  shows "sp_ok b sp' \<and> m_numobjs sp' = m_numobjs sp \<and> sp_in_use sp' = sp_in_use sp - {i}"
proof -
  have i: "i < unat (m_numobjs sp)" "i div 32 < length (m_objs_recycled sp)"
    using assms(1,2) div_le_mono [of i "unat (m_numobjs sp)" 32]
    by (auto simp: sp_ok_def sp_wf_def sp_in_use_def sp_reserved_def)
  have sp': "sp' = sp\<lparr>m_objs_recycled := (m_objs_recycled sp)[i div 32 := 2 ^ (i mod 32) OR m_objs_recycled sp ! (i div 32)]\<rparr>"
    using assms by (simp add: sp_Recycle_correct)
  have r: "sp_reserved sp' = sp_reserved sp" "sp_recycled sp' = insert i (sp_recycled sp)"
    using i by (auto simp: sp_reserved_def sp_recycled_def sp' bm_bit_set)
  then have "sp_in_use sp' = sp_in_use sp - {i}" by (auto simp: sp_in_use_def)
  moreover have "sp_ok b sp'"
    using assms(1,2) r by (auto simp: sp_ok_def sp_wf_def sp_in_use_def) (simp_all add: sp')
  ultimately show ?thesis by (simp add: sp')
qed

lemma sp_dtor_correct:
  assumes "sp_ok b sp"
  shows "sp_dtor sp = (if sp_in_use sp = {} then Inr () else Inl AssertFailed)"
proof -
  define n where "n = unat (m_numobjs sp)"
  let ?body = "\<lambda>i. gpos_assert (i \<notin> sp_in_use sp) (Inr ()) :: unit result"
  have rm: "rmap ?body xs = (if set xs \<inter> sp_in_use sp = {} then Inr (map (\<lambda>_. ()) xs) else Inl AssertFailed)" for xs
    by (induction xs) (auto simp: gpos_assert_def)
  have "rmap (\<lambda>i. rbind (sp_test (m_objs_reserved sp) (sp_elem_offset (of_nat i)) (sp_bit_val (of_nat i))) (\<lambda>reserved.
        rbind (sp_test (m_objs_recycled sp) (sp_elem_offset (of_nat i)) (sp_bit_val (of_nat i))) (\<lambda>recycled.
          gpos_assert (\<not> reserved \<or> recycled) (Inr ())))) [0..<n] = rmap ?body [0..<n]"
  proof (rule rmap_cong)
    fix i assume "i \<in> set [0..<n]"
    then have "i < n" by simp
    moreover from this have "i < 4294967296" "i div 32 < length (m_objs_reserved sp)" "i div 32 < length (m_objs_recycled sp)"
      using assms div_le_mono [of i n 32] by (auto simp: sp_ok_def sp_wf_def n_def)
    ultimately show "rbind (sp_test (m_objs_reserved sp) (sp_elem_offset (of_nat i)) (sp_bit_val (of_nat i))) (\<lambda>reserved.
        rbind (sp_test (m_objs_recycled sp) (sp_elem_offset (of_nat i)) (sp_bit_val (of_nat i))) (\<lambda>recycled.
          gpos_assert (\<not> reserved \<or> recycled) (Inr ()))) = ?body i"
      by (simp add: unat_index_parts sp_bit_val_eq sp_test_eq sp_in_use_def sp_reserved_def sp_recycled_def n_def)
  qed
  moreover have "sp_in_use sp \<subseteq> set [0..<n]" by (auto simp: sp_in_use_def sp_reserved_def n_def)
  ultimately show ?thesis
    using assms rm [of "[0..<n]"] by (auto simp: sp_dtor_def sp_ok_def sp_wf_def n_def)
qed

lemma sp_new_ok:
  assumes "unat sz < 2147483648" and "b * (2 * unat sz) < 18446744073709551616"
  shows "sp_ok b (sp_Init (CSyncPool_ctor sz)) \<and> sp_in_use (sp_Init (CSyncPool_ctor sz)) = {}"
proof -
  have "unat (sz div 32 + 1) = unat sz div 32 + 1"
    using assms(1) by (subst unat_add_lem [THEN iffD1]) (simp_all add: unat_div)
  then show ?thesis using assms div_le_mono [of _ "unat sz" 32]
    by (auto simp: sp_ok_def sp_wf_def sp_Init_def CSyncPool_ctor_def sp_in_use_def sp_reserved_def sp_recycled_def
        bm_bit_def nth_replicate less_Suc_eq_le)
qed

text \<open>
  C36: Two rounds over a pool find a free object whenever there is one: retrieving never fails, the index
  it hands out is below the size of the pool and was not in use, and an object is allocated outside
  the pool only if all objects of the pool are in use.
\<close>

theorem PtRetrieve_in_bounds:
  assumes "sp_ok (Suc b) sp"
  shows "\<exists>obj sp'. sp_PtRetrieve sp = Inr (obj, sp') \<and> sp_ok b sp' \<and>
    (case obj of
       Slot i \<Rightarrow> i < unat (m_numobjs sp) \<and> i \<notin> sp_in_use sp \<and> sp_in_use sp' = insert i (sp_in_use sp)
     | Heap \<Rightarrow> sp_in_use sp = {..<unat (m_numobjs sp)} \<and> sp_in_use sp' = sp_in_use sp)"
  using sp_PtRetrieve_correct [OF assms] by blast

theorem PtRetrieve_in_bounds_witness:
  "\<exists>obj sp'. sp_PtRetrieve (sp_Init (CSyncPool_ctor 5)) = Inr (obj, sp') \<and> (case obj of Slot i \<Rightarrow> i < 5 | Heap \<Rightarrow> False)"
proof -
  have "sp_ok 1 (sp_Init (CSyncPool_ctor 5)) \<and> sp_in_use (sp_Init (CSyncPool_ctor 5)) = {}"
    by (rule sp_new_ok) simp_all
  then show ?thesis
    using PtRetrieve_in_bounds [of 0 "sp_Init (CSyncPool_ctor 5)"]
    by (auto simp: sp_Init_def CSyncPool_ctor_def split: pool_object.splits) fastforce
qed

section \<open>The contract of a pool\<close>

text \<open>
  A client gets objects and puts them back; the number in \<open>Put\<close> is the position of the object in the
  list of those it holds. Objects come in kinds.
\<close>

datatype 'k pool_request = Get 'k | Put nat

fun pool_client ::
  "('k \<Rightarrow> 'p \<Rightarrow> (pool_object \<times> 'p) result) \<Rightarrow> ('k \<Rightarrow> pool_object \<Rightarrow> 'p \<Rightarrow> 'p result) \<Rightarrow>
   'k pool_request list \<Rightarrow> ('k \<times> pool_object) list \<Rightarrow> 'p \<Rightarrow> (('k \<times> pool_object) list \<times> 'p) result" where
  "pool_client retrieve recycle [] held p = Inr (held, p)"
| "pool_client retrieve recycle (Get k # rs) held p =
     rbind (retrieve k p) (\<lambda>(obj, p'). pool_client retrieve recycle rs (held @ [(k, obj)]) p')"
| "pool_client retrieve recycle (Put n # rs) held p =
     (if n < length held
      then rbind (recycle (fst (held ! n)) (snd (held ! n)) p) (\<lambda>p'.
        pool_client retrieve recycle rs (take n held @ drop (Suc n) held) p')
      else pool_client retrieve recycle rs held p)"

fun held_slots :: "('k \<times> pool_object) list \<Rightarrow> ('k \<times> nat) list" where
  "held_slots [] = []"
| "held_slots ((k, Slot i) # hs) = (k, i) # held_slots hs"
| "held_slots ((k, Heap) # hs) = held_slots hs"

lemma held_slots_append: "held_slots (xs @ ys) = held_slots xs @ held_slots ys"
  by (induction xs rule: held_slots.induct) auto

fun request_kinds :: "'k pool_request list \<Rightarrow> 'k list" where
  "request_kinds [] = []"
| "request_kinds (Get k # rs) = k # request_kinds rs"
| "request_kinds (Put n # rs) = request_kinds rs"

locale object_pool =
  fixes ok :: "nat \<Rightarrow> 'p \<Rightarrow> bool" and valid :: "'k \<Rightarrow> bool" and has :: "'k \<Rightarrow> 'p \<Rightarrow> bool"
    and in_use :: "'p \<Rightarrow> ('k \<times> nat) set"
    and retrieve :: "'k \<Rightarrow> 'p \<Rightarrow> (pool_object \<times> 'p) result"
    and recycle :: "'k \<Rightarrow> pool_object \<Rightarrow> 'p \<Rightarrow> 'p result"
  assumes retrieve_ok: "ok (Suc b) p \<Longrightarrow> valid k \<Longrightarrow>
      \<exists>obj p'. retrieve k p = Inr (obj, p') \<and> ok b p' \<and> has k p' \<and> (\<forall>k'. has k' p \<longrightarrow> has k' p') \<and>
        (case obj of Slot i \<Rightarrow> (k, i) \<notin> in_use p \<and> in_use p' = insert (k, i) (in_use p)
         | Heap \<Rightarrow> in_use p' = in_use p)"
    and recycle_slot: "ok b p \<Longrightarrow> (k, i) \<in> in_use p \<Longrightarrow>
      \<exists>p'. recycle k (Slot i) p = Inr p' \<and> ok b p' \<and> (\<forall>k'. has k' p \<longrightarrow> has k' p') \<and>
        in_use p' = in_use p - {(k, i)}"
    and recycle_heap: "ok b p \<Longrightarrow> valid k \<Longrightarrow> has k p \<Longrightarrow> recycle k Heap p = Inr p"
begin

text \<open>A client that puts back only what it holds sees no failure, and no object is handed out twice.\<close>

lemma client_run:
  assumes "ok (length (request_kinds rs)) p" and "list_all valid (request_kinds rs)"
    and "distinct (held_slots held)" and "set (held_slots held) = in_use p"
    and "list_all (\<lambda>(k, obj). valid k \<and> has k p) held"
  shows "\<exists>held' p'. pool_client retrieve recycle rs held p = Inr (held', p') \<and> ok 0 p' \<and>
    distinct (held_slots held') \<and> set (held_slots held') = in_use p'"
  using assms
proof (induction rs arbitrary: held p rule: request_kinds.induct)
  case 1
  then show ?case by simp
next
  case (2 k rs)
  then obtain obj p' where r: "retrieve k p = Inr (obj, p')" "ok (length (request_kinds rs)) p'" "has k p'"
      "\<forall>k'. has k' p \<longrightarrow> has k' p'"
      "case obj of Slot i \<Rightarrow> (k, i) \<notin> in_use p \<and> in_use p' = insert (k, i) (in_use p) | Heap \<Rightarrow> in_use p' = in_use p"
    using retrieve_ok [of "length (request_kinds rs)" p k] by auto
  have "list_all (\<lambda>(k, obj). valid k \<and> has k p') (held @ [(k, obj)])"
    using "2.prems"(2,5) r(3,4) by (auto simp: list_all_iff)
  moreover have "distinct (held_slots (held @ [(k, obj)]))" "set (held_slots (held @ [(k, obj)])) = in_use p'"
    using "2.prems"(3,4) r(5) by (cases obj; auto simp: held_slots_append)+
  ultimately show ?case using "2.IH" [of p' "held @ [(k, obj)]"] r "2.prems"(2) by simp
next
  case (3 n rs)
  show ?case
  proof (cases "n < length held")
    case True
    obtain k obj where h: "held ! n = (k, obj)" by fastforce
    have split: "held = take n held @ (k, obj) # drop (Suc n) held"
      using True h by (simp add: id_take_nth_drop [symmetric] flip: h)
    let ?held = "take n held @ drop (Suc n) held"
    have "(k, obj) \<in> set held" using True h by (metis nth_mem)
    then have v: "valid k" "has k p" using "3.prems"(5) by (auto simp: list_all_iff)
    have slots: "held_slots held = held_slots (take n held) @ held_slots [(k, obj)] @ held_slots (drop (Suc n) held)"
      by (subst split) (cases obj; simp add: held_slots_append)
    obtain p' where p': "recycle k obj p = Inr p'" "ok (length (request_kinds rs)) p'" "\<forall>k'. has k' p \<longrightarrow> has k' p'"
        "distinct (held_slots ?held)" "set (held_slots ?held) = in_use p'"
    proof (cases obj)
      case (Slot i)
      then have "(k, i) \<in> in_use p" using slots "3.prems"(4) by auto
      then obtain p' where "recycle k (Slot i) p = Inr p'" "ok (length (request_kinds rs)) p'"
          "\<forall>k'. has k' p \<longrightarrow> has k' p'" "in_use p' = in_use p - {(k, i)}"
        using recycle_slot [of "length (request_kinds rs)" p k i] "3.prems"(1) by auto
      then show ?thesis using that slots Slot "3.prems"(3,4) by (auto simp: held_slots_append)
    next
      case Heap
      then show ?thesis using that [of p] recycle_heap [of "length (request_kinds rs)" p k] v slots "3.prems"
        by (auto simp: held_slots_append)
    qed
    have "list_all (\<lambda>(k, obj). valid k \<and> has k p') ?held"
      using "3.prems"(5) p'(3) by (subst (asm) split) (auto simp: list_all_iff)
    then show ?thesis
      using "3.IH" [of p' ?held] p' "3.prems"(2) True h by simp
  qed (use 3 in simp)
qed

end

text \<open>The pool itself keeps the contract, with objects of one kind.\<close>

interpretation sp: object_pool sp_ok "\<lambda>k :: unit. True" "\<lambda>k sp. True" "\<lambda>sp. Pair () ` sp_in_use sp"
    "\<lambda>k. sp_PtRetrieve" "\<lambda>k. sp_Recycle"
proof unfold_locales
  fix b p and k :: unit
  assume "sp_ok (Suc b) p"
  then obtain obj sp' where "sp_PtRetrieve p = Inr (obj, sp')" "sp_ok b sp'"
      "case obj of Slot i \<Rightarrow> i < unat (m_numobjs p) \<and> i \<notin> sp_in_use p \<and> sp_in_use sp' = insert i (sp_in_use p)
       | Heap \<Rightarrow> sp_in_use p = {..<unat (m_numobjs p)} \<and> sp_in_use sp' = sp_in_use p"
    using sp_PtRetrieve_correct by blast
  then show "\<exists>obj p'. sp_PtRetrieve p = Inr (obj, p') \<and> sp_ok b p' \<and> True \<and> (\<forall>k' :: unit. True \<longrightarrow> True) \<and>
      (case obj of Slot i \<Rightarrow> (k, i) \<notin> Pair () ` sp_in_use p \<and> Pair () ` sp_in_use p' = insert (k, i) (Pair () ` sp_in_use p)
       | Heap \<Rightarrow> Pair () ` sp_in_use p' = Pair () ` sp_in_use p)"
    by (cases obj) auto
next
  fix b p i and k :: unit
  assume ok: "sp_ok b p" and "(k, i) \<in> Pair () ` sp_in_use p"
  then have i: "i \<in> sp_in_use p" by auto
  then obtain p' where "sp_Recycle (Slot i) p = Inr p'" using sp_Recycle_correct(1) [OF ok, of i] by simp
  then show "\<exists>p'. sp_Recycle (Slot i) p = Inr p' \<and> sp_ok b p' \<and> (\<forall>k' :: unit. True \<longrightarrow> True) \<and>
      Pair () ` sp_in_use p' = Pair () ` sp_in_use p - {(k, i)}"
    using sp_recycled_state [OF ok i] by auto
next
  fix b p and k :: unit
  assume "sp_ok b p"
  then show "sp_Recycle Heap p = Inr p" by (rule sp_Recycle_correct(2))
qed

end
