(* ===== verification/JobFactory.thy ===== *)
theory JobFactory
  imports SyncPool
begin

text \<open>
  \<^verbatim>\<open>CJobFactory\<close>: a pool for each type of search job, made when the first job of the type is asked for. A job
  is the pair of its type and its object in the pool of that type. The eight members \<^verbatim>\<open>m_pspj...\<close> are one
  function from types. The factory is a client of pools and offers the contract of a pool itself.
\<close>

section \<open>The factory\<close>

datatype EJobType =
    EjtTest
  | EjtGroupOptimization
  | EjtGroupImplementation
  | EjtGroupExploration
  | EjtGroupExpressionOptimization
  | EjtGroupExpressionImplementation
  | EjtGroupExpressionExploration
  | EjtTransformation
  | EjtInvalid

record CJobFactory =
  m_ulJobs :: ULONG
  m_pspj :: "EJobType \<Rightarrow> CSyncPool option"

definition jf_PtRetrieve :: "EJobType \<Rightarrow> CJobFactory \<Rightarrow> (pool_object \<times> CJobFactory) result" where
  "jf_PtRetrieve ejt jf =
     (let pspt = (case m_pspj jf ejt of None \<Rightarrow> sp_Init (CSyncPool_ctor (m_ulJobs jf)) | Some sp \<Rightarrow> sp)
      in rbind (sp_PtRetrieve pspt) (\<lambda>(pt, pspt'). Inr (pt, jf\<lparr>m_pspj := (m_pspj jf)(ejt := Some pspt')\<rparr>)))"

definition jf_PjCreate :: "EJobType \<Rightarrow> CJobFactory \<Rightarrow> (pool_object \<times> CJobFactory) result" where
  "jf_PjCreate ejt jf = gpos_assert (ejt \<noteq> EjtInvalid) (jf_PtRetrieve ejt jf)"

definition jf_Release :: "EJobType \<Rightarrow> pool_object \<Rightarrow> CJobFactory \<Rightarrow> CJobFactory result" where
  "jf_Release ejt pj jf =
     gpos_assert (ejt \<noteq> EjtInvalid)
       (case m_pspj jf ejt of
          None \<Rightarrow> Inl AssertFailed
        | Some pspt \<Rightarrow> rbind (sp_Recycle pj pspt) (\<lambda>pspt'. Inr (jf\<lparr>m_pspj := (m_pspj jf)(ejt := Some pspt')\<rparr>)))"

text \<open>Deleting a pool runs its destructor; deleting NULL does nothing.\<close>

definition jf_TruncatePool :: "EJobType \<Rightarrow> CJobFactory \<Rightarrow> CJobFactory result" where
  "jf_TruncatePool ejt jf =
     (case m_pspj jf ejt of
        None \<Rightarrow> Inr (jf\<lparr>m_pspj := (m_pspj jf)(ejt := None)\<rparr>)
      | Some pspt \<Rightarrow> rbind (sp_dtor pspt) (\<lambda>_. Inr (jf\<lparr>m_pspj := (m_pspj jf)(ejt := None)\<rparr>)))"

definition jf_Truncate :: "EJobType \<Rightarrow> CJobFactory \<Rightarrow> CJobFactory result" where
  "jf_Truncate ejt jf = gpos_assert (ejt \<noteq> EjtInvalid) (jf_TruncatePool ejt jf)"

definition jf_create_release :: "EJobType \<Rightarrow> CJobFactory \<Rightarrow> CJobFactory result" where
  "jf_create_release ejt jf = rbind (jf_PjCreate ejt jf) (\<lambda>(pj, jf'). jf_Release ejt pj jf')"

definition CJobFactory_ctor :: "ULONG \<Rightarrow> CJobFactory result" where
  "CJobFactory_ctor ulJobs =
     rbind (jf_create_release EjtGroupExploration \<lparr>m_ulJobs = ulJobs, m_pspj = (\<lambda>_. None)\<rparr>) (\<lambda>jf.
     rbind (jf_create_release EjtGroupExpressionExploration jf) (\<lambda>jf.
       jf_create_release EjtTransformation jf))"

text \<open>The destructor of the debug build, with the types in the order of the code.\<close>

definition jf_dtor :: "CJobFactory \<Rightarrow> CJobFactory result" where
  "jf_dtor jf =
     rbind (jf_Truncate EjtTest jf) (\<lambda>jf.
     rbind (jf_Truncate EjtGroupExploration jf) (\<lambda>jf.
     rbind (jf_Truncate EjtGroupImplementation jf) (\<lambda>jf.
     rbind (jf_Truncate EjtGroupOptimization jf) (\<lambda>jf.
     rbind (jf_Truncate EjtGroupExpressionExploration jf) (\<lambda>jf.
     rbind (jf_Truncate EjtGroupExpressionExploration jf) (\<lambda>jf.
     rbind (jf_Truncate EjtGroupExpressionOptimization jf) (\<lambda>jf.
       jf_Truncate EjtTransformation jf)))))))"

section \<open>The factory as a pool\<close>

definition jf_in_use :: "CJobFactory \<Rightarrow> (EJobType \<times> nat) set" where
  "jf_in_use jf = {(ejt, i). \<exists>sp. m_pspj jf ejt = Some sp \<and> i \<in> sp_in_use sp}"

definition jf_has :: "EJobType \<Rightarrow> CJobFactory \<Rightarrow> bool" where
  "jf_has ejt jf \<longleftrightarrow> m_pspj jf ejt \<noteq> None"

definition jf_ok :: "nat \<Rightarrow> CJobFactory \<Rightarrow> bool" where
  "jf_ok b jf \<longleftrightarrow> unat (m_ulJobs jf) < 2147483648 \<and> b * (2 * unat (m_ulJobs jf)) < 18446744073709551616 \<and>
     m_pspj jf EjtInvalid = None \<and> (\<forall>ejt sp. m_pspj jf ejt = Some sp \<longrightarrow> sp_ok b sp)"

lemma sp_ok_less: "sp_ok b sp \<Longrightarrow> c \<le> b \<Longrightarrow> sp_ok c sp"
proof -
  assume ok: "sp_ok b sp" and "c \<le> b"
  then have "c * (2 * unat (m_numobjs sp)) \<le> b * (2 * unat (m_numobjs sp))" by (simp add: mult_le_mono1)
  then show ?thesis using ok unfolding sp_ok_def by linarith
qed

lemma jf_in_use_update:
  "jf_in_use (jf\<lparr>m_pspj := (m_pspj jf)(ejt := Some sp)\<rparr>) =
     {(e, i) \<in> jf_in_use jf. e \<noteq> ejt} \<union> Pair ejt ` sp_in_use sp"
  by (auto simp: jf_in_use_def split: if_splits)

lemma jf_pool_ok:
  assumes "jf_ok b jf"
  shows "sp_ok b (case m_pspj jf ejt of None \<Rightarrow> sp_Init (CSyncPool_ctor (m_ulJobs jf)) | Some sp \<Rightarrow> sp)"
  using assms sp_new_ok [of "m_ulJobs jf" b] by (auto simp: jf_ok_def split: option.splits)

interpretation jf: object_pool jf_ok "\<lambda>ejt. ejt \<noteq> EjtInvalid" jf_has jf_in_use jf_PjCreate jf_Release
proof unfold_locales
  fix b jf ejt
  assume ok: "jf_ok (Suc b) jf" and v: "ejt \<noteq> EjtInvalid"
  define sp where "sp = (case m_pspj jf ejt of None \<Rightarrow> sp_Init (CSyncPool_ctor (m_ulJobs jf)) | Some sp \<Rightarrow> sp)"
  have "sp_ok (Suc b) sp" using jf_pool_ok [OF ok] by (simp add: sp_def)
  then obtain obj sp' where r: "sp_PtRetrieve sp = Inr (obj, sp')" "sp_ok b sp'"
      "case obj of Slot i \<Rightarrow> i < unat (m_numobjs sp) \<and> i \<notin> sp_in_use sp \<and> sp_in_use sp' = insert i (sp_in_use sp)
       | Heap \<Rightarrow> sp_in_use sp = {..<unat (m_numobjs sp)} \<and> sp_in_use sp' = sp_in_use sp"
    using sp_PtRetrieve_correct by blast
  let ?jf = "jf\<lparr>m_pspj := (m_pspj jf)(ejt := Some sp')\<rparr>"
  have u: "(ejt, i) \<in> jf_in_use jf \<longleftrightarrow> i \<in> sp_in_use sp" for i
    using sp_new_ok [of "m_ulJobs jf" "Suc b"] ok
    by (auto simp: jf_in_use_def sp_def jf_ok_def split: option.splits)
  have case_post: "case obj of Slot i \<Rightarrow> (ejt, i) \<notin> jf_in_use jf \<and> jf_in_use ?jf = insert (ejt, i) (jf_in_use jf)
      | Heap \<Rightarrow> jf_in_use ?jf = jf_in_use jf"
    using r(3) u unfolding jf_in_use_update by (cases obj) auto
  have "jf_ok b ?jf"
    using ok r(2) v by (auto simp: jf_ok_def intro: sp_ok_less [of "Suc b"])
  moreover have "jf_PjCreate ejt jf = Inr (obj, ?jf)"
    using v r(1) by (simp add: jf_PjCreate_def jf_PtRetrieve_def sp_def [symmetric])
  ultimately show "\<exists>obj p'. jf_PjCreate ejt jf = Inr (obj, p') \<and> jf_ok b p' \<and> jf_has ejt p' \<and>
      (\<forall>k'. jf_has k' jf \<longrightarrow> jf_has k' p') \<and>
      (case obj of Slot i \<Rightarrow> (ejt, i) \<notin> jf_in_use jf \<and> jf_in_use p' = insert (ejt, i) (jf_in_use jf)
       | Heap \<Rightarrow> jf_in_use p' = jf_in_use jf)"
    using case_post by (auto simp: jf_has_def)
next
  fix b jf ejt i
  assume ok: "jf_ok b jf" and u: "(ejt, i) \<in> jf_in_use jf"
  then obtain sp where sp: "m_pspj jf ejt = Some sp" "i \<in> sp_in_use sp" "sp_ok b sp"
    by (auto simp: jf_in_use_def jf_ok_def)
  then have v: "ejt \<noteq> EjtInvalid" using ok by (auto simp: jf_ok_def)
  obtain sp' where r: "sp_Recycle (Slot i) sp = Inr sp'" using sp_Recycle_correct(1) [OF sp(3), of i] sp(2) by simp
  note st = sp_recycled_state [OF sp(3,2) r]
  let ?jf = "jf\<lparr>m_pspj := (m_pspj jf)(ejt := Some sp')\<rparr>"
  have "jf_Release ejt (Slot i) jf = Inr ?jf" using v sp(1) r by (simp add: jf_Release_def)
  moreover have "jf_ok b ?jf" using ok st v by (auto simp: jf_ok_def)
  moreover have "jf_in_use ?jf = jf_in_use jf - {(ejt, i)}"
    unfolding jf_in_use_update using st sp by (auto simp: jf_in_use_def)
  ultimately show "\<exists>p'. jf_Release ejt (Slot i) jf = Inr p' \<and> jf_ok b p' \<and> (\<forall>k'. jf_has k' jf \<longrightarrow> jf_has k' p') \<and>
      jf_in_use p' = jf_in_use jf - {(ejt, i)}"
    by (auto simp: jf_has_def)
next
  fix b jf ejt
  assume "jf_ok b jf" "ejt \<noteq> EjtInvalid" "jf_has ejt jf"
  then obtain sp where "m_pspj jf ejt = Some sp" "sp_ok b sp" by (auto simp: jf_ok_def jf_has_def)
  then show "jf_Release ejt Heap jf = Inr jf"
    using sp_Recycle_correct(2) [of b sp] \<open>ejt \<noteq> EjtInvalid\<close> by (simp add: jf_Release_def fun_upd_idem)
qed

section \<open>Construction, use and destruction\<close>

lemma jf_create_release_ok:
  assumes "jf_ok (Suc b) jf" and "ejt \<noteq> EjtInvalid" and "jf_in_use jf = {}"
  shows "\<exists>jf'. jf_create_release ejt jf = Inr jf' \<and> jf_ok b jf' \<and> jf_in_use jf' = {}"
proof -
  obtain obj jf1 where r: "jf_PjCreate ejt jf = Inr (obj, jf1)" "jf_ok b jf1" "jf_has ejt jf1"
      "case obj of Slot i \<Rightarrow> (ejt, i) \<notin> jf_in_use jf \<and> jf_in_use jf1 = insert (ejt, i) (jf_in_use jf)
       | Heap \<Rightarrow> jf_in_use jf1 = jf_in_use jf"
    using jf.retrieve_ok [OF assms(1,2)] by blast
  show ?thesis
  proof (cases obj)
    case (Slot i)
    then show ?thesis
      using r jf.recycle_slot [OF r(2), of ejt i] assms(3) by (auto simp: jf_create_release_def)
  next
    case Heap
    then show ?thesis
      using r jf.recycle_heap [OF r(2) assms(2) r(3)] assms(3) by (auto simp: jf_create_release_def)
  qed
qed

lemma CJobFactory_ctor_ok:
  assumes "unat ulJobs < 2147483648" and "(b + 3) * (2 * unat ulJobs) < 18446744073709551616"
  shows "\<exists>jf. CJobFactory_ctor ulJobs = Inr jf \<and> jf_ok b jf \<and> jf_in_use jf = {}"
proof -
  let ?jf = "\<lparr>m_ulJobs = ulJobs, m_pspj = (\<lambda>_. None)\<rparr>"
  have "jf_ok (Suc (Suc (Suc b))) ?jf" "jf_in_use ?jf = {}"
    using assms by (auto simp: jf_ok_def jf_in_use_def algebra_simps)
  then obtain jf1 where 1: "jf_create_release EjtGroupExploration ?jf = Inr jf1" "jf_ok (Suc (Suc b)) jf1" "jf_in_use jf1 = {}"
    using jf_create_release_ok by blast
  then obtain jf2 where 2: "jf_create_release EjtGroupExpressionExploration jf1 = Inr jf2" "jf_ok (Suc b) jf2" "jf_in_use jf2 = {}"
    using jf_create_release_ok by blast
  then obtain jf3 where "jf_create_release EjtTransformation jf2 = Inr jf3" "jf_ok b jf3" "jf_in_use jf3 = {}"
    using jf_create_release_ok by blast
  then show ?thesis using 1 2 by (simp add: CJobFactory_ctor_def)
qed

text \<open>
  C37: Whatever jobs a client creates and releases in whatever order, if it releases only jobs it
  holds, no assertion of the factory or its pools fails and no access leaves a bitmap; the objects in
  use are those it holds and no object is handed out twice.
\<close>

theorem JobFactory_client:
  assumes "unat ulJobs < 2147483648" and "(length (request_kinds rs) + 3) * (2 * unat ulJobs) < 18446744073709551616"
    and "EjtInvalid \<notin> set (request_kinds rs)"
  shows "\<exists>jf held jf'. CJobFactory_ctor ulJobs = Inr jf \<and> pool_client jf_PjCreate jf_Release rs [] jf = Inr (held, jf') \<and>
    distinct (held_slots held) \<and> set (held_slots held) = jf_in_use jf'"
proof -
  obtain jf where jf: "CJobFactory_ctor ulJobs = Inr jf" "jf_ok (length (request_kinds rs)) jf" "jf_in_use jf = {}"
    using CJobFactory_ctor_ok [OF assms(1,2)] by blast
  have "list_all (\<lambda>ejt. ejt \<noteq> EjtInvalid) (request_kinds rs)" using assms(3) by (auto simp: list_all_iff)
  then show ?thesis using jf.client_run [OF jf(2), of "[]"] jf by auto
qed

theorem JobFactory_client_witness:
  "\<exists>jf held jf'. CJobFactory_ctor 1 = Inr jf \<and>
     pool_client jf_PjCreate jf_Release [Get EjtTransformation, Get EjtTransformation, Put 0, Get EjtTransformation] [] jf =
       Inr (held, jf') \<and> distinct (held_slots held) \<and> set (held_slots held) = jf_in_use jf'"
  by (rule JobFactory_client) simp_all

lemma jf_Truncate_ok:
  assumes "jf_ok 0 jf" and "ejt \<noteq> EjtInvalid" and "jf_in_use jf = {}"
  shows "jf_Truncate ejt jf = Inr (jf\<lparr>m_pspj := (m_pspj jf)(ejt := None)\<rparr>)"
proof (cases "m_pspj jf ejt")
  case (Some sp)
  then have "sp_ok 0 sp" "sp_in_use sp = {}" using assms by (auto simp: jf_ok_def jf_in_use_def)
  then show ?thesis using Some assms(2) sp_dtor_correct [of 0 sp] by (simp add: jf_Truncate_def jf_TruncatePool_def)
qed (use assms(2) in \<open>simp add: jf_Truncate_def jf_TruncatePool_def\<close>)

lemma jf_truncated_ok:
  assumes "\<forall>ejt. pools ejt = None \<or> pools ejt = m_pspj jf ejt"
  shows "jf_ok b jf \<Longrightarrow> jf_ok b (jf\<lparr>m_pspj := pools\<rparr>)"
    and "jf_in_use jf = {} \<Longrightarrow> jf_in_use (jf\<lparr>m_pspj := pools\<rparr>) = {}"
proof -
  assume ok: "jf_ok b jf"
  then have "pools EjtInvalid = None" using assms by (metis jf_ok_def)
  moreover have "sp_ok b sp" if "pools ejt = Some sp" for ejt sp
    using assms ok that by (metis jf_ok_def option.distinct(1))
  ultimately show "jf_ok b (jf\<lparr>m_pspj := pools\<rparr>)" using ok by (simp add: jf_ok_def)
next
  assume u: "jf_in_use jf = {}"
  have "sp_in_use sp = {}" if "pools ejt = Some sp" for ejt sp
  proof -
    have "m_pspj jf ejt = Some sp" using assms that by (metis option.distinct(1))
    then show ?thesis using u by (auto simp: jf_in_use_def)
  qed
  then show "jf_in_use (jf\<lparr>m_pspj := pools\<rparr>) = {}" by (auto simp: jf_in_use_def)
qed

text \<open>
  C38: The destructor of a factory with no job in use passes its assertions, but it truncates one pool
  twice and never that of the jobs that implement group expressions, which it leaves allocated.
\<close>

theorem JobFactory_dtor_leaks:
  assumes "jf_ok b jf" and "jf_in_use jf = {}"
  shows "\<exists>jf'. jf_dtor jf = Inr jf' \<and>
    m_pspj jf' = (\<lambda>ejt. if ejt = EjtGroupExpressionImplementation then m_pspj jf ejt else None)"
proof -
  have ok: "jf_ok 0 jf" "m_pspj jf EjtInvalid = None"
    using assms(1) by (auto simp: jf_ok_def intro: sp_ok_less)
  have "jf_dtor jf = Inr (jf\<lparr>m_pspj := (m_pspj jf)(EjtTest := None, EjtGroupExploration := None,
      EjtGroupImplementation := None, EjtGroupOptimization := None, EjtGroupExpressionExploration := None,
      EjtGroupExpressionExploration := None, EjtGroupExpressionOptimization := None, EjtTransformation := None)\<rparr>)"
    using ok(1) assms(2) by (simp add: jf_dtor_def jf_Truncate_ok jf_truncated_ok)
  moreover have "((m_pspj jf)(EjtTest := None, EjtGroupExploration := None,
      EjtGroupImplementation := None, EjtGroupOptimization := None, EjtGroupExpressionExploration := None,
      EjtGroupExpressionExploration := None, EjtGroupExpressionOptimization := None, EjtTransformation := None)) ejt =
      (if ejt = EjtGroupExpressionImplementation then m_pspj jf ejt else None)" for ejt
    using ok(2) by (cases ejt) simp_all
  ultimately show ?thesis by auto
qed

theorem JobFactory_dtor_leaks_witness:
  "\<exists>jf0 jf jf'. CJobFactory_ctor 1 = Inr jf0 \<and> jf_create_release EjtGroupExpressionImplementation jf0 = Inr jf \<and>
     jf_dtor jf = Inr jf' \<and> m_pspj jf' EjtGroupExpressionImplementation \<noteq> None"
proof -
  obtain jf0 where 0: "CJobFactory_ctor 1 = Inr jf0" "jf_ok 1 jf0" "jf_in_use jf0 = {}"
    using CJobFactory_ctor_ok [of 1 1] by auto
  then obtain jf where jf: "jf_create_release EjtGroupExpressionImplementation jf0 = Inr jf" "jf_ok 0 jf" "jf_in_use jf = {}"
    using jf_create_release_ok [of 0 jf0 EjtGroupExpressionImplementation] by auto
  then have "m_pspj jf EjtGroupExpressionImplementation \<noteq> None"
    by (auto simp: jf_create_release_def jf_Release_def result_simps split: option.splits)
  then show ?thesis using JobFactory_dtor_leaks [OF jf(2,3)] 0(1) jf(1) by auto
qed

end
