(* ===== verification/Operators.thy ===== *)
theory Operators
  imports Prelude
begin

text \<open>
  The hash functions of \<^verbatim>\<open>gpos/utils.h\<close> and the part of the interface of \<^verbatim>\<open>COperator\<close> the memo calls.
  The virtual functions are a record of functions over a type of operators, so that the memo is
  modelled for every set of operators; what it relies on is the locale \<open>operator_laws\<close>. The
  interpretation is on operators whose functions are translated from their classes.
\<close>

section \<open>Hash functions\<close>

text \<open>The bytes of a value in memory on a little-endian machine.\<close>

definition bytes_of_ULONG :: "ULONG \<Rightarrow> 8 word list" where
  "bytes_of_ULONG w = map (\<lambda>i. ucast (drop_bit (8 * i) w)) [0..<4]"

definition bytes_of_pointer :: "ULLONG \<Rightarrow> 8 word list" where
  "bytes_of_pointer w = map (\<lambda>i. ucast (drop_bit (8 * i) w)) [0..<8]"

definition HashByteArray :: "8 word list \<Rightarrow> ULONG" where
  "HashByteArray byte_array =
     fold (\<lambda>b hash. ((push_bit 5 hash XOR drop_bit 27 hash) XOR ucast b)) byte_array (of_nat (length byte_array))"

definition HashValue_ULONG :: "ULONG \<Rightarrow> ULONG" where
  "HashValue_ULONG w = HashByteArray (bytes_of_ULONG w)"

definition HashPtr :: "ULLONG \<Rightarrow> ULONG" where
  "HashPtr p = HashByteArray (bytes_of_pointer p)"

definition CombineHashes :: "ULONG \<Rightarrow> ULONG \<Rightarrow> ULONG" where
  "CombineHashes hash1 hash2 = HashByteArray (bytes_of_ULONG hash1 @ bytes_of_ULONG hash2)"

section \<open>The interface of operators\<close>

text \<open>
  The questions the memo asks of an operator: its kind, \<^verbatim>\<open>Matches\<close>, \<^verbatim>\<open>HashValue\<close> and \<^verbatim>\<open>FInputOrderSensitive\<close>,
  the id of a CTE producer, whether it is a CTE consumer, what decides its optimization level
  (\<^verbatim>\<open>EopPhysicalSequence\<close>, \<^verbatim>\<open>CUtils::FHashJoin\<close>, \<^verbatim>\<open>CUtils::FPhysicalAgg\<close>, \<^verbatim>\<open>EopPhysicalHashAgg\<close>, \<^verbatim>\<open>FMultiStage\<close>, and
  the trace flag \<^verbatim>\<open>EopttraceForceMultiStageAgg\<close>), and the constant that stands for a
  subquery in the scalar expression of a group. \<open>Address\<close> is where the allocator put the n-th
  object, which decides the order of sorted arrays of pointers.
\<close>

record 'op COperator_class =
  op_FLogical :: "'op \<Rightarrow> bool"
  op_FScalar :: "'op \<Rightarrow> bool"
  op_FPhysical :: "'op \<Rightarrow> bool"
  op_FPatternLeaf :: "'op \<Rightarrow> bool"
  op_Matches :: "'op \<Rightarrow> 'op \<Rightarrow> bool"
  op_HashValue :: "'op \<Rightarrow> ULONG"
  op_FInputOrderSensitive :: "'op \<Rightarrow> bool"
  op_FCTEConsumer :: "'op \<Rightarrow> bool"
  op_UlCTEProducerId :: "'op \<Rightarrow> ULONG option"
  op_FPhysicalSequence :: "'op \<Rightarrow> bool"
  op_FHashJoin :: "'op \<Rightarrow> bool"
  op_FPhysicalAgg :: "'op \<Rightarrow> bool"
  op_FPhysicalHashAgg :: "'op \<Rightarrow> bool"
  op_FMultiStage :: "'op \<Rightarrow> bool"
  op_SubqueryDummy :: "'op \<Rightarrow> 'op option"
  ForceMultiStageAgg :: bool
  Address :: "nat \<Rightarrow> nat"

locale operator_laws =
  fixes C :: "'op COperator_class"
  assumes Matches_refl: "op_Matches C a a"
    and Matches_sym: "op_Matches C a b \<Longrightarrow> op_Matches C b a"
    and Matches_trans: "op_Matches C a b \<Longrightarrow> op_Matches C b c \<Longrightarrow> op_Matches C a c"
    and Matches_hash: "op_Matches C a b \<Longrightarrow> op_HashValue C a = op_HashValue C b"
    and Matches_sensitive: "op_Matches C a b \<Longrightarrow> op_FInputOrderSensitive C a = op_FInputOrderSensitive C b"
    and Matches_scalar: "op_Matches C a b \<Longrightarrow> op_FScalar C a = op_FScalar C b"
    and Matches_producer: "op_Matches C a b \<Longrightarrow> op_UlCTEProducerId C a = op_UlCTEProducerId C b"
    and Address_inj: "Address C m = Address C n \<Longrightarrow> m = n"

section \<open>Operators of queries\<close>

text \<open>
  A metadata id of \<^verbatim>\<open>CMDIdGPDB\<close> is its oid and two version numbers, a column reference the address of
  its object. \<open>commutes\<close> is the answer of the metadata whether a comparison operator is commutative.
\<close>

type_synonym mdid = "ULONG \<times> ULONG \<times> ULONG"
type_synonym CColRef_ptr = ULLONG

definition mdid_HashValue :: "mdid \<Rightarrow> ULONG" where
  "mdid_HashValue m = (case m of (m_oid, m_major_version, m_minor_version) \<Rightarrow>
     CombineHashes 0 (CombineHashes (HashValue_ULONG m_oid)
       (CombineHashes (HashValue_ULONG m_major_version) (HashValue_ULONG m_minor_version))))"

definition UlHashColArray :: "CColRef_ptr list \<Rightarrow> ULONG" where
  "UlHashColArray colref_array = fold (\<lambda>colref ulHash. CombineHashes ulHash (HashPtr colref)) colref_array 0"

datatype EBoolOperator = EboolopAnd | EboolopOr | EboolopNot

fun EBoolOperator_ix :: "EBoolOperator \<Rightarrow> ULONG" where
  "EBoolOperator_ix EboolopAnd = 0"
| "EBoolOperator_ix EboolopOr = 1"
| "EBoolOperator_ix EboolopNot = 2"

fun FCommutative :: "EBoolOperator \<Rightarrow> bool" where
  "FCommutative EboolopAnd = True"
| "FCommutative EboolopOr = True"
| "FCommutative EboolopNot = False"

datatype query_op =
    CLogicalGet mdid "CColRef_ptr list"
  | CLogicalSelect
  | CLogicalInnerJoin
  | CLogicalProject
  | CLogicalCTEProducer ULONG "CColRef_ptr list"
  | CLogicalCTEConsumer ULONG "CColRef_ptr list"
  | CScalarCmp mdid
  | CScalarIdent CColRef_ptr
  | CScalarProjectElement CColRef_ptr
  | CScalarProjectList
  | CScalarBoolOp EBoolOperator

text \<open>The position in \<^verbatim>\<open>EOperatorId\<close>.\<close>

fun Eopid :: "query_op \<Rightarrow> ULONG" where
  "Eopid (CLogicalGet _ _) = 0"
| "Eopid CLogicalSelect = 4"
| "Eopid CLogicalInnerJoin = 11"
| "Eopid CLogicalProject = 21"
| "Eopid (CLogicalCTEProducer _ _) = 42"
| "Eopid (CLogicalCTEConsumer _ _) = 43"
| "Eopid (CScalarCmp _) = 54"
| "Eopid (CScalarIdent _) = 56"
| "Eopid (CScalarProjectElement _) = 57"
| "Eopid CScalarProjectList = 58"
| "Eopid (CScalarBoolOp _) = 61"

definition COperator_HashValue :: "query_op \<Rightarrow> ULONG" where
  "COperator_HashValue pop = HashValue_ULONG (Eopid pop)"

fun query_op_HashValue :: "query_op \<Rightarrow> ULONG" where
  "query_op_HashValue (CLogicalGet mdid cols) =
     CombineHashes (CombineHashes (COperator_HashValue (CLogicalGet mdid cols)) (mdid_HashValue mdid)) (UlHashColArray cols)"
| "query_op_HashValue (CLogicalCTEProducer cte_id cols) =
     CombineHashes (CombineHashes (COperator_HashValue (CLogicalCTEProducer cte_id cols)) cte_id) (UlHashColArray cols)"
| "query_op_HashValue (CLogicalCTEConsumer cte_id cols) =
     CombineHashes (CombineHashes (COperator_HashValue (CLogicalCTEConsumer cte_id cols)) cte_id) (UlHashColArray cols)"
| "query_op_HashValue (CScalarCmp mdid_op) =
     CombineHashes (COperator_HashValue (CScalarCmp mdid_op)) (mdid_HashValue mdid_op)"
| "query_op_HashValue (CScalarIdent pcr) = CombineHashes (COperator_HashValue (CScalarIdent pcr)) (HashPtr pcr)"
| "query_op_HashValue (CScalarProjectElement pcr) =
     CombineHashes (COperator_HashValue (CScalarProjectElement pcr)) (HashPtr pcr)"
| "query_op_HashValue (CScalarBoolOp eboolop) =
     CombineHashes (COperator_HashValue (CScalarBoolOp eboolop)) (HashValue_ULONG (EBoolOperator_ix eboolop))"
| "query_op_HashValue CLogicalSelect = COperator_HashValue CLogicalSelect"
| "query_op_HashValue CLogicalInnerJoin = COperator_HashValue CLogicalInnerJoin"
| "query_op_HashValue CLogicalProject = COperator_HashValue CLogicalProject"
| "query_op_HashValue CScalarProjectList = COperator_HashValue CScalarProjectList"

text \<open>Every class compares the operator ids first, and then its own members.\<close>

definition query_op_Matches :: "query_op \<Rightarrow> query_op \<Rightarrow> bool" where
  "query_op_Matches this pop \<longleftrightarrow> Eopid pop = Eopid this \<and>
     (case (this, pop) of
        (CLogicalGet m c, CLogicalGet m' c') \<Rightarrow> m = m' \<and> c = c'
      | (CLogicalCTEProducer i c, CLogicalCTEProducer i' c') \<Rightarrow> i = i' \<and> c = c'
      | (CLogicalCTEConsumer i c, CLogicalCTEConsumer i' c') \<Rightarrow> i = i' \<and> c = c'
      | (CScalarCmp m, CScalarCmp m') \<Rightarrow> m = m'
      | (CScalarIdent p, CScalarIdent p') \<Rightarrow> p = p'
      | (CScalarProjectElement p, CScalarProjectElement p') \<Rightarrow> p = p'
      | (CScalarBoolOp b, CScalarBoolOp b') \<Rightarrow> b = b'
      | _ \<Rightarrow> True)"

text \<open>The classes without children answer false after a failing assertion; they are never asked.\<close>

fun query_op_FInputOrderSensitive :: "(mdid \<Rightarrow> bool) \<Rightarrow> query_op \<Rightarrow> bool" where
  "query_op_FInputOrderSensitive commutes CLogicalSelect = True"
| "query_op_FInputOrderSensitive commutes CLogicalInnerJoin = True"
| "query_op_FInputOrderSensitive commutes CLogicalProject = True"
| "query_op_FInputOrderSensitive commutes (CScalarCmp mdid_op) = (\<not> commutes mdid_op)"
| "query_op_FInputOrderSensitive commutes (CScalarBoolOp eboolop) = (\<not> FCommutative eboolop)"
| "query_op_FInputOrderSensitive commutes _ = False"

fun query_op_FScalar :: "query_op \<Rightarrow> bool" where
  "query_op_FScalar (CScalarCmp _) = True"
| "query_op_FScalar (CScalarIdent _) = True"
| "query_op_FScalar (CScalarProjectElement _) = True"
| "query_op_FScalar CScalarProjectList = True"
| "query_op_FScalar (CScalarBoolOp _) = True"
| "query_op_FScalar _ = False"

definition query_op_class :: "(mdid \<Rightarrow> bool) \<Rightarrow> query_op COperator_class" where
  "query_op_class commutes =
     \<lparr>op_FLogical = (\<lambda>pop. \<not> query_op_FScalar pop), op_FScalar = query_op_FScalar, op_FPhysical = (\<lambda>_. False),
      op_FPatternLeaf = (\<lambda>_. False), op_Matches = query_op_Matches, op_HashValue = query_op_HashValue,
      op_FInputOrderSensitive = query_op_FInputOrderSensitive commutes,
      op_FCTEConsumer = (\<lambda>pop. case pop of CLogicalCTEConsumer _ _ \<Rightarrow> True | _ \<Rightarrow> False),
      op_UlCTEProducerId = (\<lambda>pop. case pop of CLogicalCTEProducer i _ \<Rightarrow> Some i | _ \<Rightarrow> None),
      op_FPhysicalSequence = (\<lambda>_. False), op_FHashJoin = (\<lambda>_. False), op_FPhysicalAgg = (\<lambda>_. False),
      op_FPhysicalHashAgg = (\<lambda>_. False), op_FMultiStage = (\<lambda>_. False), op_SubqueryDummy = (\<lambda>_. None),
      ForceMultiStageAgg = False, Address = (\<lambda>n. n)\<rparr>"

lemma query_op_Matches_iff: "query_op_Matches a b \<longleftrightarrow> a = b"
  by (cases a; cases b) (auto simp: query_op_Matches_def)

interpretation query_ops: operator_laws "query_op_class commutes"
  by unfold_locales (auto simp: query_op_class_def query_op_Matches_iff)

end
