(* ===== verification/Memo.thy ===== *)
theory Memo
  imports Operators
begin

text \<open>
  The memo: \<^verbatim>\<open>CGroupExpression\<close>, \<^verbatim>\<open>CGroup\<close>, \<^verbatim>\<open>CGroupProxy\<close>, \<^verbatim>\<open>CMemo\<close> and the insertion of expressions by
  \<^verbatim>\<open>CEngine\<close>. Groups and group expressions are objects in two stores of the memo, and pointers to them
  are addresses; an object that is released is never looked at again. The memory before an allocation
  holds anything (an argument of the constructor). The intrusive lists are lists of addresses, the
  hash table is a chain for each bucket. Ids and counts are natural numbers: the objects they
  count are far bigger than the bytes that 32 bits can address. Loops that follow links may run for
  ever, so their results are optional. Statistics, optimization contexts and job queues of a group
  are not part of this theory.
\<close>

section \<open>Objects\<close>

datatype group_state =
    estUnexplored | estExploring | estExplored | estImplementing | estImplemented | estOptimizing | estOptimized

fun group_state_ix :: "group_state \<Rightarrow> nat" where
  "group_state_ix estUnexplored = 0"
| "group_state_ix estExploring = 1"
| "group_state_ix estExplored = 2"
| "group_state_ix estImplementing = 3"
| "group_state_ix estImplemented = 4"
| "group_state_ix estOptimizing = 5"
| "group_state_ix estOptimized = 6"

text \<open>The states of a group expression are the first five.\<close>

datatype EOptimizationLevel = EolLow | EolHigh

datatype ECircularDependency = ecdDefault | ecdCircularDependency

datatype 'op CExpression = CExpression (Pop: 'op) (Pgexpr: "nat option") (PdrgPexpr: "'op CExpression list")

definition GPOPT_INVALID_GROUP_ID :: nat where
  "GPOPT_INVALID_GROUP_ID = 4294967295"

definition GPOPT_INVALID_GEXPR_ID :: nat where
  "GPOPT_INVALID_GEXPR_ID = 4294967295"

definition gpos_ulong_max :: ULONG where
  "gpos_ulong_max = 4294967295"

record 'op CGroupExpression =
  ge_id :: nat
  m_pgexprDuplicate :: "nat option"
  m_pop :: 'op
  m_pdrgpgroup :: "nat list"
  m_pdrgpgroupSorted :: "nat list option"
  m_pgroup :: "nat option"
  m_exfidOrigin :: "nat option"
  m_pgexprOrigin :: "nat option"
  m_fIntermediate :: bool
  ge_estate :: group_state
  m_eol :: EOptimizationLevel
  m_ecirculardependency :: ECircularDependency

record ('op, 'p) CGroup =
  g_id :: nat
  m_fScalar :: bool
  m_listGExprs :: "nat list"
  m_listDupGExprs :: "nat list"
  m_pdp :: "'p option"
  m_pexprScalarRep :: "'op CExpression option"
  m_pexprScalarRepIsExact :: bool
  m_pccDummy :: bool
  m_pgroupDuplicate :: "nat option"
  m_ulGExprs :: nat
  g_estate :: group_state
  m_eolMax :: EOptimizationLevel
  m_fHasNewLogicalOperators :: bool
  m_ulCTEProducerId :: ULONG
  m_fCTEConsumer :: bool

record ('op, 'p) CMemo =
  m_group :: "nat \<Rightarrow> ('op, 'p) CGroup"
  m_ngroups :: nat
  m_gexpr :: "nat \<Rightarrow> 'op CGroupExpression"
  m_ngexprs :: nat
  m_aul :: nat
  m_pgroupRoot :: "nat option"
  m_ulpGrps :: nat
  m_listGroups :: "nat list"
  m_chain :: "nat \<Rightarrow> nat list"
  m_nbuckets :: nat
  m_size :: nat

definition GPOPT_MEMO_HT_BUCKETS :: nat where
  "GPOPT_MEMO_HT_BUCKETS = 50000"

definition CMemo_Init :: "nat \<Rightarrow> (nat \<Rightarrow> ('op, 'p) CGroup) \<Rightarrow> (nat \<Rightarrow> 'op CGroupExpression) \<Rightarrow> ('op, 'p) CMemo" where
  "CMemo_Init nbuckets mem_group mem_gexpr =
     \<lparr>m_group = mem_group, m_ngroups = 0, m_gexpr = mem_gexpr, m_ngexprs = 0, m_aul = 0, m_pgroupRoot = None,
      m_ulpGrps = 0, m_listGroups = [], m_chain = (\<lambda>_. []), m_nbuckets = nbuckets, m_size = 0\<rparr>"

definition CMemo_ctor :: "(nat \<Rightarrow> ('op, 'p) CGroup) \<Rightarrow> (nat \<Rightarrow> 'op CGroupExpression) \<Rightarrow> ('op, 'p) CMemo" where
  "CMemo_ctor = CMemo_Init GPOPT_MEMO_HT_BUCKETS"

definition upd_group ::
  "nat \<Rightarrow> (('op, 'p) CGroup \<Rightarrow> ('op, 'p) CGroup) \<Rightarrow> ('op, 'p) CMemo \<Rightarrow> ('op, 'p) CMemo" where
  "upd_group p f M = M\<lparr>m_group := (m_group M)(p := f (m_group M p))\<rparr>"

definition upd_gexpr ::
  "nat \<Rightarrow> ('op CGroupExpression \<Rightarrow> 'op CGroupExpression) \<Rightarrow> ('op, 'p) CMemo \<Rightarrow> ('op, 'p) CMemo" where
  "upd_gexpr e f M = M\<lparr>m_gexpr := (m_gexpr M)(e := f (m_gexpr M e))\<rparr>"

definition CGroup_ctor :: "bool \<Rightarrow> ('op, 'p) CGroup" where
  "CGroup_ctor fScalar =
     \<lparr>g_id = GPOPT_INVALID_GROUP_ID, m_fScalar = fScalar, m_listGExprs = [], m_listDupGExprs = [], m_pdp = None,
      m_pexprScalarRep = None, m_pexprScalarRepIsExact = False, m_pccDummy = False, m_pgroupDuplicate = None,
      m_ulGExprs = 0, g_estate = estUnexplored, m_eolMax = EolLow, m_fHasNewLogicalOperators = False,
      m_ulCTEProducerId = gpos_ulong_max, m_fCTEConsumer = False\<rparr>"

text \<open>The order-insensitive operators keep their children sorted by address too.\<close>

definition CGroupExpression_ctor ::
  "'op COperator_class \<Rightarrow> 'op \<Rightarrow> nat list \<Rightarrow> nat option \<Rightarrow> nat option \<Rightarrow> bool \<Rightarrow> 'op CGroupExpression result" where
  "CGroupExpression_ctor C pop pdrgpgroup exfid pgexprOrigin fIntermediate =
     gpos_assert (exfid \<noteq> None \<longrightarrow> pgexprOrigin \<noteq> None)
       (Inr \<lparr>ge_id = GPOPT_INVALID_GEXPR_ID, m_pgexprDuplicate = None, m_pop = pop, m_pdrgpgroup = pdrgpgroup,
             m_pdrgpgroupSorted =
               (if 1 < length pdrgpgroup \<and> \<not> op_FInputOrderSensitive C pop
                then Some (sort_key (Address C) pdrgpgroup) else None),
             m_pgroup = None, m_exfidOrigin = exfid, m_pgexprOrigin = pgexprOrigin, m_fIntermediate = fIntermediate,
             ge_estate = estUnexplored, m_eol = EolLow, m_ecirculardependency = ecdDefault\<rparr>)"

section \<open>Groups\<close>

definition g_FDuplicateGroup :: "('op, 'p) CMemo \<Rightarrow> nat \<Rightarrow> bool" where
  "g_FDuplicateGroup M p \<longleftrightarrow> m_pgroupDuplicate (m_group M p) \<noteq> None"

definition g_FExplored :: "('op, 'p) CMemo \<Rightarrow> nat \<Rightarrow> bool" where
  "g_FExplored M p \<longleftrightarrow> group_state_ix estExplored \<le> group_state_ix (g_estate (m_group M p))"

definition g_FImplemented :: "('op, 'p) CMemo \<Rightarrow> nat \<Rightarrow> bool" where
  "g_FImplemented M p \<longleftrightarrow> group_state_ix estImplemented \<le> group_state_ix (g_estate (m_group M p))"

definition g_FOptimized :: "('op, 'p) CMemo \<Rightarrow> nat \<Rightarrow> bool" where
  "g_FOptimized M p \<longleftrightarrow> group_state_ix estOptimized \<le> group_state_ix (g_estate (m_group M p))"

definition g_FHasCTEProducer :: "('op, 'p) CMemo \<Rightarrow> nat \<Rightarrow> bool" where
  "g_FHasCTEProducer M p \<longleftrightarrow> gpos_ulong_max \<noteq> m_ulCTEProducerId (m_group M p)"

definition g_SetState :: "nat \<Rightarrow> group_state \<Rightarrow> ('op, 'p) CMemo \<Rightarrow> ('op, 'p) CMemo result" where
  "g_SetState p estNewState M =
     gpos_assert (group_state_ix estNewState = group_state_ix (g_estate (m_group M p)) + 1)
       (Inr (upd_group p (\<lambda>g. g\<lparr>g_estate := estNewState\<rparr>) M))"

definition g_SetId :: "nat \<Rightarrow> nat \<Rightarrow> ('op, 'p) CMemo \<Rightarrow> ('op, 'p) CMemo result" where
  "g_SetId p uid M =
     gpos_assert (g_id (m_group M p) = GPOPT_INVALID_GROUP_ID) (Inr (upd_group p (\<lambda>g. g\<lparr>g_id := uid\<rparr>) M))"

text \<open>The kind of the properties is that of the operator they were derived for.\<close>

definition g_InitProperties :: "nat \<Rightarrow> bool \<Rightarrow> 'p \<Rightarrow> ('op, 'p) CMemo \<Rightarrow> ('op, 'p) CMemo result" where
  "g_InitProperties p fScalarProps pdp M =
     gpos_assert (m_pdp (m_group M p) = None \<and> (m_fScalar (m_group M p) \<longleftrightarrow> fScalarProps))
       (Inr (upd_group p (\<lambda>g. g\<lparr>m_pdp := Some pdp\<rparr>) M))"

definition g_HashValue :: "('op, 'p) CMemo \<Rightarrow> nat \<Rightarrow> ULONG" where
  "g_HashValue M p =
     (let uid = (if m_ulGExprs (m_group M p) = 0
                then case m_pgroupDuplicate (m_group M p) of None \<Rightarrow> g_id (m_group M p) | Some q \<Rightarrow> g_id (m_group M q)
                else g_id (m_group M p))
      in HashValue_ULONG (of_nat uid))"

definition g_Insert :: "'op COperator_class \<Rightarrow> nat \<Rightarrow> nat \<Rightarrow> ('op, 'p) CMemo \<Rightarrow> ('op, 'p) CMemo result" where
  "g_Insert C p pgexpr M =
     (let pop = m_pop (m_gexpr M pgexpr);
          eol = m_eol (m_gexpr M pgexpr);
          M1 = upd_group p (\<lambda>g. g\<lparr>m_listGExprs := m_listGExprs g @ [pgexpr]\<rparr>) M
      in rbind
          (if op_FLogical C pop
           then let M2 = upd_group p (\<lambda>g. g\<lparr>m_fHasNewLogicalOperators := True,
                                      m_fCTEConsumer := (m_fCTEConsumer g \<or> op_FCTEConsumer C pop)\<rparr>) M1
                in case op_UlCTEProducerId C pop of
                     None \<Rightarrow> Inr M2
                   | Some cte_id \<Rightarrow>
                       gpos_assert (gpos_ulong_max = m_ulCTEProducerId (m_group M2 p))
                         (Inr (upd_group p (\<lambda>g. g\<lparr>m_ulCTEProducerId := cte_id\<rparr>) M2))
           else Inr M1)
          (\<lambda>M3. Inr (if eol = EolHigh then upd_group p (\<lambda>g. g\<lparr>m_eolMax := EolHigh\<rparr>) M3 else M3)))"

text \<open>
  The counter \<^verbatim>\<open>m_ulGExprs\<close> of a group is decremented only when an expression leaves the list of the group.
  Where it is 0 the 32 bit counter of the code would wrap and the subtraction here is cut off at 0; the
  invariant \<open>lists_ok\<close> of merging, by which the counter is the length of the list, rules that out.
\<close>

definition g_MoveDuplicateGExpr :: "nat \<Rightarrow> nat \<Rightarrow> ('op, 'p) CMemo \<Rightarrow> ('op, 'p) CMemo" where
  "g_MoveDuplicateGExpr p pgexpr M =
     upd_group p (\<lambda>g. g\<lparr>m_listGExprs := remove1 pgexpr (m_listGExprs g), m_ulGExprs := m_ulGExprs g - 1,
                       m_listDupGExprs := m_listDupGExprs g @ [pgexpr]\<rparr>) M"

definition g_FDuplicateGroups :: "('op, 'p) CMemo \<Rightarrow> nat \<Rightarrow> nat \<Rightarrow> bool" where
  "g_FDuplicateGroups M pgroupFst pgroupSnd =
     (let pgroupFstDup = m_pgroupDuplicate (m_group M pgroupFst);
          pgroupSndDup = m_pgroupDuplicate (m_group M pgroupSnd)
      in pgroupFst = pgroupSnd \<or> Some pgroupFst = pgroupSndDup \<or> Some pgroupSnd = pgroupFstDup \<or>
         (pgroupFstDup \<noteq> None \<and> pgroupSndDup \<noteq> None \<and> pgroupFstDup = pgroupSndDup))"

fun FMatchGroups_loop :: "('op, 'p) CMemo \<Rightarrow> nat list \<Rightarrow> nat list \<Rightarrow> bool" where
  "FMatchGroups_loop M (pgroupFst # ps) (pgroupSnd # qs) =
     (if pgroupFst \<noteq> pgroupSnd \<and> \<not> g_FDuplicateGroups M pgroupFst pgroupSnd then False else FMatchGroups_loop M ps qs)"
| "FMatchGroups_loop M _ _ = True"

definition FMatchGroups :: "('op, 'p) CMemo \<Rightarrow> nat list \<Rightarrow> nat list \<Rightarrow> bool result" where
  "FMatchGroups M pdrgpgroupFst pdrgpgroupSnd =
     gpos_assert (length pdrgpgroupSnd = length pdrgpgroupFst)
       (Inr (FMatchGroups_loop M pdrgpgroupFst pdrgpgroupSnd))"

fun FMatchNonScalarGroups_loop :: "('op, 'p) CMemo \<Rightarrow> nat list \<Rightarrow> nat list \<Rightarrow> bool" where
  "FMatchNonScalarGroups_loop M (pgroupFst # ps) (pgroupSnd # qs) =
     (if m_fScalar (m_group M pgroupFst) then FMatchNonScalarGroups_loop M ps qs
      else if pgroupFst \<noteq> pgroupSnd \<and> \<not> g_FDuplicateGroups M pgroupFst pgroupSnd then False
      else FMatchNonScalarGroups_loop M ps qs)"
| "FMatchNonScalarGroups_loop M _ _ = True"

definition FMatchNonScalarGroups :: "('op, 'p) CMemo \<Rightarrow> nat list \<Rightarrow> nat list \<Rightarrow> bool" where
  "FMatchNonScalarGroups M pdrgpgroupFst pdrgpgroupSnd =
     (if length pdrgpgroupFst \<noteq> length pdrgpgroupSnd then False
      else FMatchNonScalarGroups_loop M pdrgpgroupFst pdrgpgroupSnd)"

section \<open>Group expressions\<close>

text \<open>\<^verbatim>\<open>operator[]\<close> goes on to the group that took over the expressions of an empty one.\<close>

definition ge_child :: "('op, 'p) CMemo \<Rightarrow> nat \<Rightarrow> nat \<Rightarrow> nat result" where
  "ge_child M e ulPos =
     (if ulPos < length (m_pdrgpgroup (m_gexpr M e))
      then let pgroup = m_pdrgpgroup (m_gexpr M e) ! ulPos
           in if m_ulGExprs (m_group M pgroup) = 0
              then case m_pgroupDuplicate (m_group M pgroup) of None \<Rightarrow> Inl AssertFailed | Some q \<Rightarrow> Inr q
              else Inr pgroup
      else Inl OutOfBounds)"

definition ge_SetId :: "nat \<Rightarrow> nat \<Rightarrow> ('op, 'p) CMemo \<Rightarrow> ('op, 'p) CMemo result" where
  "ge_SetId e uid M =
     gpos_assert (ge_id (m_gexpr M e) = GPOPT_INVALID_GEXPR_ID) (Inr (upd_gexpr e (\<lambda>x. x\<lparr>ge_id := uid\<rparr>) M))"

definition ge_SetGroup :: "nat \<Rightarrow> nat \<Rightarrow> ('op, 'p) CMemo \<Rightarrow> ('op, 'p) CMemo result" where
  "ge_SetGroup e pgroup M =
     gpos_assert (m_pgroup (m_gexpr M e) = None) (Inr (upd_gexpr e (\<lambda>x. x\<lparr>m_pgroup := Some pgroup\<rparr>) M))"

definition ge_SetOptimizationLevel ::
  "'op COperator_class \<Rightarrow> nat \<Rightarrow> ('op, 'p) CMemo \<Rightarrow> ('op, 'p) CMemo result" where
  "ge_SetOptimizationLevel C e M =
     (let pop = m_pop (m_gexpr M e);
          high = upd_gexpr e (\<lambda>x. x\<lparr>m_eol := EolHigh\<rparr>) M
      in if op_FPhysicalSequence C pop
         then rbind (ge_child M e 0) (\<lambda>pgroupFirst. Inr (if g_FHasCTEProducer M pgroupFirst then high else M))
         else if op_FHashJoin C pop then Inr high
         else if op_FPhysicalAgg C pop
         then let fPreferMultiStageAgg = ForceMultiStageAgg C
              in if \<not> fPreferMultiStageAgg \<and> op_FPhysicalHashAgg C pop then Inr high
                 else Inr (if fPreferMultiStageAgg \<and> op_FMultiStage C pop then high else M)
         else Inr M)"

definition ge_Init :: "'op COperator_class \<Rightarrow> nat \<Rightarrow> nat \<Rightarrow> nat \<Rightarrow> ('op, 'p) CMemo \<Rightarrow> ('op, 'p) CMemo result" where
  "ge_Init C e pgroup uid M =
     rbind (ge_SetGroup e pgroup M) (\<lambda>M. rbind (ge_SetId e uid M) (\<lambda>M. ge_SetOptimizationLevel C e M))"

definition ge_Reset :: "nat \<Rightarrow> nat \<Rightarrow> nat \<Rightarrow> ('op, 'p) CMemo \<Rightarrow> ('op, 'p) CMemo" where
  "ge_Reset e pgroup uid M = upd_gexpr e (\<lambda>x. x\<lparr>m_pgroup := Some pgroup, ge_id := uid\<rparr>) M"

definition ge_SetState :: "nat \<Rightarrow> group_state \<Rightarrow> ('op, 'p) CMemo \<Rightarrow> ('op, 'p) CMemo result" where
  "ge_SetState e estNewState M =
     gpos_assert (group_state_ix estNewState = group_state_ix (ge_estate (m_gexpr M e)) + 1)
       (Inr (upd_gexpr e (\<lambda>x. x\<lparr>ge_estate := estNewState\<rparr>) M))"

definition ge_ResetState :: "nat \<Rightarrow> ('op, 'p) CMemo \<Rightarrow> ('op, 'p) CMemo" where
  "ge_ResetState e M = upd_gexpr e (\<lambda>x. x\<lparr>ge_estate := estUnexplored\<rparr>) M"

definition ge_FExplored :: "('op, 'p) CMemo \<Rightarrow> nat \<Rightarrow> bool" where
  "ge_FExplored M e \<longleftrightarrow> group_state_ix estExplored \<le> group_state_ix (ge_estate (m_gexpr M e))"

definition ge_FImplemented :: "('op, 'p) CMemo \<Rightarrow> nat \<Rightarrow> bool" where
  "ge_FImplemented M e \<longleftrightarrow> ge_estate (m_gexpr M e) = estImplemented"

definition ge_FTransitioned :: "'op COperator_class \<Rightarrow> ('op, 'p) CMemo \<Rightarrow> nat \<Rightarrow> group_state \<Rightarrow> bool result" where
  "ge_FTransitioned C M e estate =
     gpos_assert (estate = estExplored \<or> estate = estImplemented)
       (Inr (\<not> op_FLogical C (m_pop (m_gexpr M e)) \<or> (estate = estExplored \<and> ge_FExplored M e) \<or>
             (estate = estImplemented \<and> ge_FImplemented M e)))"

definition ge_FMatchNonScalarChildren :: "('op, 'p) CMemo \<Rightarrow> nat \<Rightarrow> nat \<Rightarrow> bool" where
  "ge_FMatchNonScalarChildren M this pgexpr =
     (if length (m_pdrgpgroup (m_gexpr M this)) = 0 then length (m_pdrgpgroup (m_gexpr M pgexpr)) = 0
      else FMatchNonScalarGroups M (m_pdrgpgroup (m_gexpr M this)) (m_pdrgpgroup (m_gexpr M pgexpr)))"

definition ge_Matches :: "'op COperator_class \<Rightarrow> ('op, 'p) CMemo \<Rightarrow> nat \<Rightarrow> nat \<Rightarrow> bool result" where
  "ge_Matches C M this pgexpr =
     (let x = m_gexpr M this; y = m_gexpr M pgexpr
      in if length (m_pdrgpgroup x) \<noteq> length (m_pdrgpgroup y) then Inr False
         else if \<not> op_Matches C (m_pop x) (m_pop y) then Inr False
         else if length (m_pdrgpgroup x) = 0 then Inr True
         else if length (m_pdrgpgroup x) = 1 \<or> op_FInputOrderSensitive C (m_pop x)
         then FMatchGroups M (m_pdrgpgroup x) (m_pdrgpgroup y)
         else (case (m_pdrgpgroupSorted x, m_pdrgpgroupSorted y) of
                 (Some xs, Some ys) \<Rightarrow> FMatchGroups M xs ys
               | _ \<Rightarrow> Inl AssertFailed))"

definition ge_HashValue :: "'op COperator_class \<Rightarrow> ('op, 'p) CMemo \<Rightarrow> nat \<Rightarrow> ULONG" where
  "ge_HashValue C M e =
     fold (\<lambda>pgroup ulHash. CombineHashes ulHash (g_HashValue M pgroup)) (m_pdrgpgroup (m_gexpr M e))
       (op_HashValue C (m_pop (m_gexpr M e)))"

definition ge_ContainsCircularDependencies :: "nat \<Rightarrow> ('op, 'p) CMemo \<Rightarrow> (bool \<times> ('op, 'p) CMemo) result" where
  "ge_ContainsCircularDependencies e M =
     (if m_ecirculardependency (m_gexpr M e) = ecdCircularDependency then Inr (True, M)
      else case m_pgroup (m_gexpr M e) of
        None \<Rightarrow> Inl NullDeref
      | Some pgroup \<Rightarrow>
          if g_FExplored M pgroup then Inr (False, M)
          else if \<exists>child_group \<in> set (m_pdrgpgroup (m_gexpr M e)). \<not> m_fScalar (m_group M child_group) \<and>
              (case m_pgroupDuplicate (m_group M child_group) of None \<Rightarrow> False
               | Some d \<Rightarrow> g_id (m_group M d) = g_id (m_group M pgroup))
          then gpos_assert (1 < m_ulGExprs (m_group M pgroup))
                 (Inr (True, upd_gexpr e (\<lambda>x. x\<lparr>m_ecirculardependency := ecdCircularDependency\<rparr>) M))
          else Inr (False, M))"

section \<open>Walking a group\<close>

text \<open>The element after a given one; the code follows the link of an element of the list.\<close>

fun next_in :: "'a list \<Rightarrow> 'a \<Rightarrow> 'a option" where
  "next_in [] e = None"
| "next_in (x # xs) e = (if x = e then (case xs of [] \<Rightarrow> None | y # ys \<Rightarrow> Some y) else next_in xs e)"

definition gp_PgexprFirst :: "('op, 'p) CMemo \<Rightarrow> nat \<Rightarrow> nat option" where
  "gp_PgexprFirst M p = (case m_listGExprs (m_group M p) of [] \<Rightarrow> None | e # es \<Rightarrow> Some e)"

definition gp_PgexprNext :: "('op, 'p) CMemo \<Rightarrow> nat \<Rightarrow> nat \<Rightarrow> nat option" where
  "gp_PgexprNext M p e = next_in (m_listGExprs (m_group M p)) e"

partial_function (option) gp_PgexprSkip ::
  "'op COperator_class \<Rightarrow> ('op, 'p) CMemo \<Rightarrow> nat \<Rightarrow> nat option \<Rightarrow> bool \<Rightarrow> nat option option" where
  "gp_PgexprSkip C M p pgexpr fSkipLogical =
     (case pgexpr of
        None \<Rightarrow> Some None
      | Some e \<Rightarrow> if fSkipLogical = op_FLogical C (m_pop (m_gexpr M e))
                  then gp_PgexprSkip C M p (gp_PgexprNext M p e) fSkipLogical
                  else Some (Some e))"

definition gp_PgexprSkipLogical :: "'op COperator_class \<Rightarrow> ('op, 'p) CMemo \<Rightarrow> nat \<Rightarrow> nat option \<Rightarrow> nat option option" where
  "gp_PgexprSkipLogical C M p pgexpr =
     (case pgexpr of
        None \<Rightarrow> gp_PgexprSkip C M p (gp_PgexprFirst M p) True
      | Some e \<Rightarrow> gp_PgexprSkip C M p (gp_PgexprNext M p e) True)"

definition gp_PgexprNextLogical ::
  "'op COperator_class \<Rightarrow> ('op, 'p) CMemo \<Rightarrow> nat \<Rightarrow> nat option \<Rightarrow> nat option result option" where
  "gp_PgexprNextLogical C M p pgexpr =
     (if m_fScalar (m_group M p) then Some (Inl AssertFailed)
      else map_option Inr
        (case pgexpr of
           None \<Rightarrow> gp_PgexprSkip C M p (gp_PgexprFirst M p) False
         | Some e \<Rightarrow> gp_PgexprSkip C M p (gp_PgexprNext M p e) False))"

definition gp_Insert :: "'op COperator_class \<Rightarrow> nat \<Rightarrow> nat \<Rightarrow> ('op, 'p) CMemo \<Rightarrow> ('op, 'p) CMemo result" where
  "gp_Insert C p pgexpr M =
     (let uid = m_ulGExprs (m_group M p);
          M1 = upd_group p (\<lambda>g. g\<lparr>m_ulGExprs := uid + 1\<rparr>) M
      in rbind (ge_Init C pgexpr p uid M1) (\<lambda>M2.
           gpos_assert (m_pgroup (m_gexpr M2 pgexpr) = Some p) (g_Insert C p pgexpr M2)))"

definition gp_MoveDuplicateGExpr :: "nat \<Rightarrow> nat \<Rightarrow> ('op, 'p) CMemo \<Rightarrow> ('op, 'p) CMemo result" where
  "gp_MoveDuplicateGExpr p pgexpr M =
     gpos_assert (m_pgroup (m_gexpr M pgexpr) = Some p)
       (let M1 = g_MoveDuplicateGExpr p pgexpr M
        in gpos_assert (length (m_listGExprs (m_group M p)) + length (m_listDupGExprs (m_group M p)) =
                        length (m_listGExprs (m_group M1 p)) + length (m_listDupGExprs (m_group M1 p)))
             (Inr M1))"

end
