(* ===== verification/MemoOps.thy ===== *)
theory MemoOps
  imports Memo
begin

text \<open>
  The operations of \<^verbatim>\<open>CMemo\<close>: the hash table of group expressions (\<^verbatim>\<open>CSyncHashtable\<close> with its accessor
  and iterator), the insertion of group expressions, marking and merging of duplicate groups, and
  the insertion of expression trees and of the results of rules by \<^verbatim>\<open>CEngine\<close>.
\<close>

section \<open>The hash table\<close>

definition sht_GetBucketIndex :: "'op COperator_class \<Rightarrow> ('op, 'p) CMemo \<Rightarrow> nat \<Rightarrow> nat" where
  "sht_GetBucketIndex C M pgexpr = unat (ge_HashValue C M pgexpr) mod m_nbuckets M"

text \<open>\<^verbatim>\<open>Equals(entry, key)\<close> asks the key whether it matches the entry.\<close>

fun sht_NextMatch :: "'op COperator_class \<Rightarrow> ('op, 'p) CMemo \<Rightarrow> nat \<Rightarrow> nat list \<Rightarrow> nat option result" where
  "sht_NextMatch C M key [] = Inr None"
| "sht_NextMatch C M key (pt # rest) =
     rbind (ge_Matches C M key pt) (\<lambda>b. if b then Inr (Some pt) else sht_NextMatch C M key rest)"

definition sht_Find :: "'op COperator_class \<Rightarrow> ('op, 'p) CMemo \<Rightarrow> nat \<Rightarrow> nat option result" where
  "sht_Find C M key = sht_NextMatch C M key (m_chain M (sht_GetBucketIndex C M key))"

definition sht_Insert :: "'op COperator_class \<Rightarrow> nat \<Rightarrow> ('op, 'p) CMemo \<Rightarrow> ('op, 'p) CMemo" where
  "sht_Insert C pgexpr M =
     (let b = sht_GetBucketIndex C M pgexpr
      in M\<lparr>m_chain := (m_chain M)(b := pgexpr # m_chain M b), m_size := m_size M + 1\<rparr>)"

text \<open>
  The loop of \<^verbatim>\<open>FRehash\<close> over the iterator takes the elements of the buckets in order, each chain from
  its head, and removes them.
\<close>

definition sht_entries :: "('op, 'p) CMemo \<Rightarrow> nat list" where
  "sht_entries M = concat (map (m_chain M) [0..<m_nbuckets M])"

definition sht_drain :: "('op, 'p) CMemo \<Rightarrow> nat list \<times> ('op, 'p) CMemo" where
  "sht_drain M =
     (sht_entries M,
      M\<lparr>m_chain := (\<lambda>b. if b < m_nbuckets M then [] else m_chain M b), m_size := m_size M - length (sht_entries M)\<rparr>)"

section \<open>Inserting group expressions\<close>

definition SetRoot :: "nat \<Rightarrow> ('op, 'p) CMemo \<Rightarrow> ('op, 'p) CMemo result" where
  "SetRoot pgroup M = gpos_assert (m_pgroupRoot M = None) (Inr (M\<lparr>m_pgroupRoot := Some pgroup\<rparr>))"

definition memo_Add ::
  "'op COperator_class \<Rightarrow> ('op CExpression \<Rightarrow> 'p) \<Rightarrow> nat \<Rightarrow> 'op CExpression \<Rightarrow> ('op, 'p) CMemo \<Rightarrow> ('op, 'p) CMemo result" where
  "memo_Add C PdpDerive pgroup pexprOrigin M =
     gpos_assert (\<not> op_FPhysical C (Pop pexprOrigin))
       (let uid = m_aul M
        in rbind (g_SetId pgroup uid (M\<lparr>m_aul := uid + 1\<rparr>)) (\<lambda>M.
           rbind (g_InitProperties pgroup (op_FScalar C (Pop pexprOrigin)) (PdpDerive pexprOrigin) M) (\<lambda>M.
             gpos_assert (gp_PgexprFirst M pgroup \<noteq> None \<and> pgroup \<notin> set (take 1 (m_listGroups M)))
               (Inr (M\<lparr>m_listGroups := pgroup # m_listGroups M, m_ulpGrps := m_ulpGrps M + 1\<rparr>)))))"

definition memo_PgroupInsert_helper ::
  "'op COperator_class \<Rightarrow> ('op CExpression \<Rightarrow> 'p) \<Rightarrow> nat \<Rightarrow> nat \<Rightarrow> 'op CExpression \<Rightarrow> bool \<Rightarrow> ('op, 'p) CMemo \<Rightarrow>
   (nat \<times> ('op, 'p) CMemo) result" where
  "memo_PgroupInsert_helper C PdpDerive pgroupTarget pgexpr pexprOrigin fNewGroup M =
     rbind (sht_Find C M pgexpr) (\<lambda>pgexprFound.
       case pgexprFound of
         None \<Rightarrow>
           rbind (gp_Insert C pgroupTarget pgexpr (sht_Insert C pgexpr M)) (\<lambda>M1.
           rbind (if fNewGroup then memo_Add C PdpDerive pgroupTarget pexprOrigin M1 else Inr M1) (\<lambda>M2.
             case m_pgroup (m_gexpr M2 pgexpr) of None \<Rightarrow> Inl NullDeref | Some p \<Rightarrow> Inr (p, M2)))
       | Some f \<Rightarrow> (case m_pgroup (m_gexpr M f) of None \<Rightarrow> Inl NullDeref | Some p \<Rightarrow> Inr (p, M)))"

text \<open>A new group object if neither a target nor an equal group expression is there.\<close>

definition memo_FNewGroup ::
  "nat option \<Rightarrow> nat option \<Rightarrow> bool \<Rightarrow> ('op, 'p) CMemo \<Rightarrow> bool \<times> nat option \<times> ('op, 'p) CMemo" where
  "memo_FNewGroup pgroupTarget pgexpr fScalar M =
     (if pgroupTarget = None \<and> pgexpr = None
      then (True, Some (m_ngroups M),
            M\<lparr>m_group := (m_group M)(m_ngroups M := CGroup_ctor fScalar), m_ngroups := m_ngroups M + 1\<rparr>)
      else (False, pgroupTarget, M))"

text \<open>
  The scalar expression of a group is that of its first group expression over those of the child
  groups, where a subquery is replaced by a constant.
\<close>

definition g_CreateScalarExpression ::
  "'op COperator_class \<Rightarrow> nat \<Rightarrow> ('op, 'p) CMemo \<Rightarrow> ('op, 'p) CMemo result" where
  "g_CreateScalarExpression C p M =
     gpos_assert (m_fScalar (m_group M p) \<and> m_pexprScalarRep (m_group M p) = None)
       (case gp_PgexprFirst M p of
          None \<Rightarrow> Inl AssertFailed
        | Some pgexprFirst \<Rightarrow>
            (case op_SubqueryDummy C (m_pop (m_gexpr M pgexprFirst)) of
               Some dummy \<Rightarrow>
                 Inr (upd_group p (\<lambda>g. g\<lparr>m_pexprScalarRep := Some (CExpression dummy None []),
                                         m_pexprScalarRepIsExact := False\<rparr>) M)
             | None \<Rightarrow>
                 rbind (rmap (\<lambda>ul. rbind (ge_child M pgexprFirst ul) (\<lambda>pgroupChild.
                          gpos_assert (m_fScalar (m_group M pgroupChild))
                            (case m_pexprScalarRep (m_group M pgroupChild) of
                               None \<Rightarrow> Inl NullDeref
                             | Some pexprChild \<Rightarrow> Inr (pexprChild, m_pexprScalarRepIsExact (m_group M pgroupChild)))))
                        [0..<length (m_pdrgpgroup (m_gexpr M pgexprFirst))])
                   (\<lambda>pdrgpexpr.
                     Inr (upd_group p (\<lambda>g. g\<lparr>m_pexprScalarRepIsExact := list_all snd pdrgpexpr,
                            m_pexprScalarRep :=
                              Some (CExpression (m_pop (m_gexpr M pgexprFirst)) None (map fst pdrgpexpr))\<rparr>) M))))"

definition g_CreateDummyCostContext :: "nat \<Rightarrow> ('op, 'p) CMemo \<Rightarrow> ('op, 'p) CMemo result" where
  "g_CreateDummyCostContext p M =
     gpos_assert (m_fScalar (m_group M p) \<and> \<not> m_pccDummy (m_group M p))
       (case gp_PgexprFirst M p of
          None \<Rightarrow> Inl AssertFailed
        | Some pgexprFirst \<Rightarrow>
            gpos_assert (gp_PgexprNext M p pgexprFirst = None)
              (Inr (upd_group p (\<lambda>g. g\<lparr>m_pccDummy := True\<rparr>) M)))"

text \<open>
  The first test of the code that follows the insertion, whether a new group was not used, is for
  concurrent insertions: the helper searches again, so a new group is used.
\<close>

definition memo_PgroupInsert ::
  "'op COperator_class \<Rightarrow> ('op CExpression \<Rightarrow> 'p) \<Rightarrow> nat option \<Rightarrow> 'op CExpression \<Rightarrow> nat \<Rightarrow> ('op, 'p) CMemo \<Rightarrow>
   (nat \<times> ('op, 'p) CMemo) result" where
  "memo_PgroupInsert C PdpDerive pgroupTarget pexprOrigin pgexpr M =
     gpos_assert (length (m_pdrgpgroup (m_gexpr M pgexpr)) = length (PdrgPexpr pexprOrigin))
       (rbind (sht_Find C M pgexpr) (\<lambda>pgexprFound.
          let (fNewGroup, pgroupTarget, M1) =
                memo_FNewGroup pgroupTarget pgexprFound (op_FScalar C (m_pop (m_gexpr M pgexpr))) M
          in rbind (case pgexprFound of
                      Some f \<Rightarrow> (case m_pgroup (m_gexpr M1 f) of None \<Rightarrow> Inl NullDeref | Some p \<Rightarrow> Inr (p, M1))
                    | None \<Rightarrow> (case pgroupTarget of
                        None \<Rightarrow> Inl AssertFailed
                      | Some t \<Rightarrow> memo_PgroupInsert_helper C PdpDerive t pgexpr pexprOrigin fNewGroup M1))
               (\<lambda>(pgroupContainer, M2).
                  let fNewGroup = (fNewGroup \<and> m_pgroup (m_gexpr M2 pgexpr) \<noteq> None)
                  in case pgroupTarget of
                       Some t \<Rightarrow>
                         if fNewGroup \<and> m_fScalar (m_group M2 t)
                         then rbind (g_CreateScalarExpression C t M2) (\<lambda>M3.
                              rbind (g_CreateDummyCostContext t M3) (\<lambda>M4. Inr (pgroupContainer, M4)))
                         else Inr (pgroupContainer, M2)
                     | None \<Rightarrow> Inr (pgroupContainer, M2))))"

section \<open>Inserting expressions\<close>

definition gexpr_alloc :: "'op CGroupExpression \<Rightarrow> ('op, 'p) CMemo \<Rightarrow> nat \<times> ('op, 'p) CMemo" where
  "gexpr_alloc x M =
     (m_ngexprs M, M\<lparr>m_gexpr := (m_gexpr M)(m_ngexprs M := x), m_ngexprs := m_ngexprs M + 1\<rparr>)"

fun eng_PgroupInsert ::
  "'op COperator_class \<Rightarrow> ('op CExpression \<Rightarrow> 'p) \<Rightarrow> nat option \<Rightarrow> 'op CExpression \<Rightarrow> nat option \<Rightarrow> nat option \<Rightarrow>
   bool \<Rightarrow> ('op, 'p) CMemo \<Rightarrow> (nat \<times> ('op, 'p) CMemo) result"
  and eng_InsertExpressionChildren ::
  "'op COperator_class \<Rightarrow> ('op CExpression \<Rightarrow> 'p) \<Rightarrow> 'op CExpression list \<Rightarrow> nat option \<Rightarrow> nat option \<Rightarrow>
   ('op, 'p) CMemo \<Rightarrow> (nat list \<times> ('op, 'p) CMemo) result" where
  "eng_PgroupInsert C PdpDerive pgroupTarget (CExpression pop pgexpr pdrgpexpr) exfidOrigin pgexprOrigin fIntermediate M =
     gpos_assert (exfidOrigin \<noteq> None \<longrightarrow> pgexprOrigin \<noteq> None)
       (case pgexpr of
          Some e \<Rightarrow>
            (case m_pgroup (m_gexpr M e) of
               None \<Rightarrow> Inl AssertFailed
             | Some pgroupOrigin \<Rightarrow> gpos_assert (pgroupTarget = None) (Inr (pgroupOrigin, M)))
        | None \<Rightarrow>
            rbind (eng_InsertExpressionChildren C PdpDerive pdrgpexpr exfidOrigin pgexprOrigin M)
              (\<lambda>(pdrgpgroupChildren, M1).
            rbind (CGroupExpression_ctor C pop pdrgpgroupChildren exfidOrigin pgexprOrigin fIntermediate) (\<lambda>x.
              let (e, M2) = gexpr_alloc x M1
              in memo_PgroupInsert C PdpDerive pgroupTarget (CExpression pop pgexpr pdrgpexpr) e M2)))"
| "eng_InsertExpressionChildren C PdpDerive [] exfidOrigin pgexprOrigin M = Inr ([], M)"
| "eng_InsertExpressionChildren C PdpDerive (pexpr # pexprs) exfidOrigin pgexprOrigin M =
     rbind (if op_FPatternLeaf C (Pop pexpr)
            then (case Pgexpr pexpr of
                    None \<Rightarrow> Inl NullDeref
                  | Some e \<Rightarrow> (case m_pgroup (m_gexpr M e) of None \<Rightarrow> Inl AssertFailed | Some p \<Rightarrow> Inr (p, M)))
            else eng_PgroupInsert C PdpDerive None pexpr exfidOrigin pgexprOrigin True M)
       (\<lambda>(pgroupChild, M1).
     rbind (eng_InsertExpressionChildren C PdpDerive pexprs exfidOrigin pgexprOrigin M1)
       (\<lambda>(pgroupChildren, M2). Inr (pgroupChild # pgroupChildren, M2)))"

definition eng_InitLogicalExpression ::
  "'op COperator_class \<Rightarrow> ('op CExpression \<Rightarrow> 'p) \<Rightarrow> 'op CExpression \<Rightarrow> ('op, 'p) CMemo \<Rightarrow> ('op, 'p) CMemo result" where
  "eng_InitLogicalExpression C PdpDerive pexpr M =
     gpos_assert (m_pgroupRoot M = None \<and> op_FLogical C (Pop pexpr))
       (rbind (eng_PgroupInsert C PdpDerive None pexpr None None False M) (\<lambda>(pgroupRoot, M1). SetRoot pgroupRoot M1))"

definition eng_AddEnforcers ::
  "'op COperator_class \<Rightarrow> ('op CExpression \<Rightarrow> 'p) \<Rightarrow> nat \<Rightarrow> 'op CExpression list \<Rightarrow> ('op, 'p) CMemo \<Rightarrow>
   ('op, 'p) CMemo result" where
  "eng_AddEnforcers C PdpDerive pgexpr pdrgpexprEnforcers M =
     fold (\<lambda>pexprEnforcer r. rbind r (\<lambda>M.
        rbind (eng_PgroupInsert C PdpDerive (m_pgroup (m_gexpr M pgexpr)) pexprEnforcer None None False M)
          (\<lambda>(pgroup, M1). gpos_assert (m_pgroup (m_gexpr M1 pgexpr) = Some pgroup) (Inr M1))))
       pdrgpexprEnforcers (Inr M)"

section \<open>Duplicate groups\<close>

text \<open>The loop of \<^verbatim>\<open>AddDuplicateGrp\<close>; each round has the group with the smaller id first.\<close>

partial_function (option) AddDuplicateGrp_loop ::
  "nat \<Rightarrow> nat \<Rightarrow> ('op, 'p) CMemo \<Rightarrow> ('op, 'p) CMemo option" where
  "AddDuplicateGrp_loop pgroupSrc pgroupDest M =
     (if m_pgroupDuplicate (m_group M pgroupSrc) = Some pgroupDest then Some M
      else case m_pgroupDuplicate (m_group M pgroupSrc) of
             None \<Rightarrow> AddDuplicateGrp_loop pgroupSrc pgroupDest
                       (upd_group pgroupSrc (\<lambda>g. g\<lparr>m_pgroupDuplicate := Some pgroupDest\<rparr>) M)
           | Some pgroupSrc' \<Rightarrow>
               (if g_id (m_group M pgroupDest) < g_id (m_group M pgroupSrc')
                then AddDuplicateGrp_loop pgroupDest pgroupSrc' M
                else AddDuplicateGrp_loop pgroupSrc' pgroupDest M))"

definition g_AddDuplicateGrp :: "nat \<Rightarrow> nat \<Rightarrow> ('op, 'p) CMemo \<Rightarrow> ('op, 'p) CMemo option" where
  "g_AddDuplicateGrp this pgroup M =
     (if g_id (m_group M pgroup) < g_id (m_group M this) then AddDuplicateGrp_loop pgroup this M
      else AddDuplicateGrp_loop this pgroup M)"

partial_function (option) ResolveDuplicateMaster_loop ::
  "('op, 'p) CMemo \<Rightarrow> nat \<Rightarrow> nat result option" where
  "ResolveDuplicateMaster_loop M pgroupTarget =
     (case m_pgroupDuplicate (m_group M pgroupTarget) of
        None \<Rightarrow> Some (Inr pgroupTarget)
      | Some q \<Rightarrow>
          if g_id (m_group M pgroupTarget) < g_id (m_group M q) then ResolveDuplicateMaster_loop M q
          else Some (Inl AssertFailed))"

definition g_ResolveDuplicateMaster :: "nat \<Rightarrow> ('op, 'p) CMemo \<Rightarrow> ('op, 'p) CMemo result option" where
  "g_ResolveDuplicateMaster this M =
     (case m_pgroupDuplicate (m_group M this) of
        None \<Rightarrow> Some (Inr M)
      | Some q \<Rightarrow>
          obind (ResolveDuplicateMaster_loop M q) (\<lambda>pgroupTarget.
            Some (Inr (upd_group this (\<lambda>g. g\<lparr>m_pgroupDuplicate := Some pgroupTarget\<rparr>) M))))"

definition memo_MarkDuplicates :: "nat \<Rightarrow> nat \<Rightarrow> ('op, 'p) CMemo \<Rightarrow> ('op, 'p) CMemo result option" where
  "memo_MarkDuplicates pgroupFst pgroupSnd M =
     obind (map_option Inr (g_AddDuplicateGrp pgroupFst pgroupSnd M)) (\<lambda>M.
     obind (g_ResolveDuplicateMaster pgroupFst M) (\<lambda>M. g_ResolveDuplicateMaster pgroupSnd M))"

text \<open>
  One round of the loop of \<^verbatim>\<open>CGroup::MergeGroup\<close>. It runs with an expression in the list, so that the counter,
  the length of the list by \<open>lists_ok\<close>, is not 0 when it is decremented.
\<close>

definition g_merge_step :: "'op COperator_class \<Rightarrow> nat \<Rightarrow> nat \<Rightarrow> nat \<Rightarrow> nat list \<Rightarrow> ('op, 'p) CMemo \<Rightarrow> ('op, 'p) CMemo result" where
  "g_merge_step C this pgroupTarget pgexpr rest M =
     (let M1 = upd_group this (\<lambda>g. g\<lparr>m_listGExprs := rest, m_ulGExprs := m_ulGExprs g - 1\<rparr>) M;
          uid = m_ulGExprs (m_group M1 pgroupTarget);
          M2 = upd_group pgroupTarget (\<lambda>g. g\<lparr>m_ulGExprs := uid + 1\<rparr>) M1
      in g_Insert C pgroupTarget pgexpr (ge_Reset pgexpr pgroupTarget uid M2))"

partial_function (option) MergeGroup_loop ::
  "'op COperator_class \<Rightarrow> nat \<Rightarrow> nat \<Rightarrow> ('op, 'p) CMemo \<Rightarrow> ('op, 'p) CMemo result option" where
  "MergeGroup_loop C this pgroupTarget M =
     (case m_listGExprs (m_group M this) of
        [] \<Rightarrow> Some (gpos_assert (m_ulGExprs (m_group M this) = 0) (Inr M))
      | pgexpr # rest \<Rightarrow>
          (case g_merge_step C this pgroupTarget pgexpr rest M of
             Inl e \<Rightarrow> Some (Inl e)
           | Inr M1 \<Rightarrow> MergeGroup_loop C this pgroupTarget M1))"

definition g_MergeGroup :: "'op COperator_class \<Rightarrow> nat \<Rightarrow> ('op, 'p) CMemo \<Rightarrow> ('op, 'p) CMemo result option" where
  "g_MergeGroup C this M =
     (if \<not> g_FDuplicateGroup M this then Some (Inr M)
      else if \<not> (g_FExplored M this \<and> \<not> g_FImplemented M this) then Some (Inl AssertFailed)
      else obind (g_ResolveDuplicateMaster this M) (\<lambda>M.
             case m_pgroupDuplicate (m_group M this) of
               None \<Rightarrow> Some (Inl NullDeref)
             | Some pgroupTarget \<Rightarrow> MergeGroup_loop C this pgroupTarget M))"

text \<open>The second loop of \<^verbatim>\<open>FRehash\<close>, over the expressions taken out of the table.\<close>

definition FRehash_dup :: "nat \<Rightarrow> nat \<Rightarrow> bool \<Rightarrow> ('op, 'p) CMemo \<Rightarrow> (bool \<times> ('op, 'p) CMemo) result option" where
  "FRehash_dup pgexpr pgexprFound fNewDupGroups M =
     (if pgexprFound = pgexpr then Some (Inl AssertFailed)
      else let M1 = upd_gexpr pgexpr (\<lambda>x. x\<lparr>m_pgexprDuplicate := Some pgexprFound\<rparr>) M
           in case (m_pgroup (m_gexpr M1 pgexpr), m_pgroup (m_gexpr M1 pgexprFound)) of
                (Some pgroup, Some pgroupFound) \<Rightarrow>
                  obind (Some (gp_MoveDuplicateGExpr pgroup pgexpr M1)) (\<lambda>M2.
                    if pgroupFound \<noteq> pgroup
                    then let pgroupDup = m_pgroupDuplicate (m_group M2 pgroup);
                             pgroupFoundDup = m_pgroupDuplicate (m_group M2 pgroupFound)
                         in if (pgroupDup = None \<and> pgroupFoundDup = None) \<or> pgroupDup \<noteq> pgroupFoundDup
                            then obind (memo_MarkDuplicates pgroup pgroupFound M2) (\<lambda>M3. Some (Inr (True, M3)))
                            else Some (Inr (fNewDupGroups, M2))
                    else Some (Inr (fNewDupGroups, M2)))
              | _ \<Rightarrow> Some (Inl NullDeref))"

fun FRehash_loop ::
  "'op COperator_class \<Rightarrow> nat list \<Rightarrow> bool \<Rightarrow> ('op, 'p) CMemo \<Rightarrow> (bool \<times> ('op, 'p) CMemo) result option" where
  "FRehash_loop C [] fNewDupGroups M = Some (Inr (fNewDupGroups, M))"
| "FRehash_loop C (pgexpr # listGExprs) fNewDupGroups M =
     obind (Some (sht_Find C M pgexpr)) (\<lambda>pgexprFound.
       case pgexprFound of
         None \<Rightarrow> FRehash_loop C listGExprs fNewDupGroups (sht_Insert C pgexpr M)
       | Some f \<Rightarrow>
           obind (FRehash_dup pgexpr f fNewDupGroups M) (\<lambda>(fNewDupGroups, M1).
             FRehash_loop C listGExprs fNewDupGroups M1))"

definition root_between :: "('op, 'p) CMemo \<Rightarrow> bool" where
  "root_between M = (case m_pgroupRoot M of None \<Rightarrow> False | Some r \<Rightarrow> g_FExplored M r \<and> \<not> g_FImplemented M r)"

definition memo_FRehash :: "'op COperator_class \<Rightarrow> ('op, 'p) CMemo \<Rightarrow> (bool \<times> ('op, 'p) CMemo) result option" where
  "memo_FRehash C M =
     (if \<not> root_between M then Some (Inl AssertFailed)
      else let (listGExprs, M1) = sht_drain M in FRehash_loop C listGExprs False M1)"

fun MergeGroups :: "'op COperator_class \<Rightarrow> nat list \<Rightarrow> ('op, 'p) CMemo \<Rightarrow> ('op, 'p) CMemo result option" where
  "MergeGroups C [] M = Some (Inr M)"
| "MergeGroups C (pgroup # ps) M = obind (g_MergeGroup C pgroup M) (\<lambda>M. MergeGroups C ps M)"

definition root_update :: "('op, 'p) CMemo \<Rightarrow> ('op, 'p) CMemo" where
  "root_update M =
     (case m_pgroupRoot M of
        None \<Rightarrow> M
      | Some r \<Rightarrow> (case m_pgroupDuplicate (m_group M r) of None \<Rightarrow> M | Some q \<Rightarrow> M\<lparr>m_pgroupRoot := Some q\<rparr>))"

text \<open>One round of the loop of \<^verbatim>\<open>GroupMerge\<close>.\<close>

definition GroupMerge_round :: "'op COperator_class \<Rightarrow> ('op, 'p) CMemo \<Rightarrow> (bool \<times> ('op, 'p) CMemo) result option" where
  "GroupMerge_round C M = obind (MergeGroups C (m_listGroups M) M) (\<lambda>M. memo_FRehash C (root_update M))"

partial_function (option) GroupMerge_loop ::
  "'op COperator_class \<Rightarrow> ('op, 'p) CMemo \<Rightarrow> ('op, 'p) CMemo result option" where
  "GroupMerge_loop C M =
     (case GroupMerge_round C M of
        None \<Rightarrow> None
      | Some r \<Rightarrow> (case r of
          Inl e \<Rightarrow> Some (Inl e)
        | Inr x \<Rightarrow> (case x of (fNewDupGroups, M1) \<Rightarrow>
            if fNewDupGroups then GroupMerge_loop C M1 else Some (Inr M1))))"

definition memo_GroupMerge :: "'op COperator_class \<Rightarrow> ('op, 'p) CMemo \<Rightarrow> ('op, 'p) CMemo result option" where
  "memo_GroupMerge C M = (if root_between M then GroupMerge_loop C M else Some (Inl AssertFailed))"

section \<open>Results of rules\<close>

definition eng_FPossibleDuplicateGroups ::
  "('p \<Rightarrow> 'p \<Rightarrow> bool) \<Rightarrow> ('op, 'p) CMemo \<Rightarrow> nat \<Rightarrow> nat \<Rightarrow> bool result" where
  "eng_FPossibleDuplicateGroups SameOutputColumns M pgroupFst pgroupSnd =
     (case (m_pdp (m_group M pgroupFst), m_pdp (m_group M pgroupSnd)) of
        (Some pdprelFst, Some pdprelSnd) \<Rightarrow> Inr (SameOutputColumns pdprelFst pdprelSnd)
      | _ \<Rightarrow> Inl NullDeref)"

fun eng_InsertXformResult ::
  "'op COperator_class \<Rightarrow> ('op CExpression \<Rightarrow> 'p) \<Rightarrow> ('p \<Rightarrow> 'p \<Rightarrow> bool) \<Rightarrow> nat \<Rightarrow> 'op CExpression list \<Rightarrow> nat \<Rightarrow> nat \<Rightarrow>
   ('op, 'p) CMemo \<Rightarrow> ('op, 'p) CMemo result option" where
  "eng_InsertXformResult C PdpDerive SameOutputColumns pgroupOrigin [] exfidOrigin pgexprOrigin M = Some (Inr M)"
| "eng_InsertXformResult C PdpDerive SameOutputColumns pgroupOrigin (pexpr # pxfres) exfidOrigin pgexprOrigin M =
     obind (Some (eng_PgroupInsert C PdpDerive (Some pgroupOrigin) pexpr (Some exfidOrigin) (Some pgexprOrigin) False M))
       (\<lambda>(pgroupContainer, M1).
     obind (if pgroupContainer \<noteq> pgroupOrigin
            then obind (Some (eng_FPossibleDuplicateGroups SameOutputColumns M1 pgroupContainer pgroupOrigin)) (\<lambda>b.
                   if b then memo_MarkDuplicates pgroupOrigin pgroupContainer M1 else Some (Inr M1))
            else Some (Inr M1))
       (\<lambda>M2. eng_InsertXformResult C PdpDerive SameOutputColumns pgroupOrigin pxfres exfidOrigin pgexprOrigin M2))"

section \<open>Walks over the memo\<close>

definition memo_Pgroup :: "('op, 'p) CMemo \<Rightarrow> nat \<Rightarrow> nat option" where
  "memo_Pgroup M uid = List.find (\<lambda>p. uid = g_id (m_group M p)) (m_listGroups M)"

definition memo_UlDuplicateGroups :: "('op, 'p) CMemo \<Rightarrow> nat" where
  "memo_UlDuplicateGroups M = length (filter (g_FDuplicateGroup M) (m_listGroups M))"

definition memo_UlGrpExprs :: "('op, 'p) CMemo \<Rightarrow> nat" where
  "memo_UlGrpExprs M = sum_list (map (\<lambda>p. m_ulGExprs (m_group M p)) (m_listGroups M))"

definition g_ResetGroupState :: "nat \<Rightarrow> ('op, 'p) CMemo \<Rightarrow> ('op, 'p) CMemo" where
  "g_ResetGroupState p M =
     upd_group p (\<lambda>g. g\<lparr>g_estate := estUnexplored\<rparr>) (fold ge_ResetState (m_listGExprs (m_group M p)) M)"

definition memo_ResetGroupStates :: "('op, 'p) CMemo \<Rightarrow> ('op, 'p) CMemo" where
  "memo_ResetGroupStates M =
     fold (\<lambda>p M. upd_group p (\<lambda>g. g\<lparr>m_fHasNewLogicalOperators := False\<rparr>) (g_ResetGroupState p M)) (m_listGroups M) M"

end
