(* ===== verification/MemoLinks.thy ===== *)
theory MemoLinks
  imports MemoOps
begin

text \<open>
  The links to duplicate groups. They always go from a smaller group id to a larger one, so that
  following them ends in the master of a group. What marking two groups does is described on the
  equivalence of groups that the links generate: the loop of \<^verbatim>\<open>AddDuplicateGrp\<close> joins two classes.
\<close>

section \<open>Equivalences\<close>

definition eqc :: "('a \<times> 'a) set \<Rightarrow> ('a \<times> 'a) set" where
  "eqc R = (R \<union> R\<inverse>)\<^sup>*"

lemma eqc_refl [simp, intro]: "(a, a) \<in> eqc R"
  by (simp add: eqc_def)

lemma eqc_base [intro]: "(a, b) \<in> R \<Longrightarrow> (a, b) \<in> eqc R"
  by (auto simp: eqc_def)

lemma eqc_sym: "(a, b) \<in> eqc R \<Longrightarrow> (b, a) \<in> eqc R"
  unfolding eqc_def by (metis converse_Un converse_converse rtrancl_converseD sup_commute)

lemma eqc_trans [trans]: "(a, b) \<in> eqc R \<Longrightarrow> (b, c) \<in> eqc R \<Longrightarrow> (a, c) \<in> eqc R"
  by (simp add: eqc_def)

lemma eqc_least:
  assumes "R \<subseteq> S" and "sym S" and "trans S" and "(a, b) \<in> eqc R"
  shows "a = b \<or> (a, b) \<in> S"
  using assms(4) unfolding eqc_def
proof (induction rule: rtrancl_induct)
  case (step y z)
  then have "(y, z) \<in> S" using assms(1,2) by (auto dest: symD)
  with step.IH show ?case using assms(3) by (auto dest: transD)
qed simp

lemma eqc_subset_eqc: "R \<subseteq> eqc S \<Longrightarrow> eqc R \<subseteq> eqc S"
proof
  fix x assume R: "R \<subseteq> eqc S" and x: "x \<in> eqc R"
  have "sym (eqc S)" by (auto intro: symI eqc_sym)
  moreover have "trans (eqc S)" by (auto intro: transI eqc_trans)
  ultimately show "x \<in> eqc S" using eqc_least [OF R] x by (cases x) auto
qed

lemma eqc_mono: "R \<subseteq> S \<Longrightarrow> eqc R \<subseteq> eqc S"
  by (rule eqc_subset_eqc) auto

lemma eqc_insert_le:
  assumes "(a, b) \<in> eqc (insert (c, d) R)"
  shows "eqc (insert (a, b) R) \<subseteq> eqc (insert (c, d) R)"
proof (rule eqc_subset_eqc, rule insert_subsetI [OF assms])
  show "R \<subseteq> eqc (insert (c, d) R)" using eqc_base [of _ _ "insert (c, d) R"] by fast
qed

lemma eqc_insert_swap: "eqc (insert (a, b) R) = eqc (insert (b, a) R)"
proof (rule antisym)
  show "eqc (insert (a, b) R) \<subseteq> eqc (insert (b, a) R)"
    by (rule eqc_insert_le, rule eqc_sym, rule eqc_base) simp
  show "eqc (insert (b, a) R) \<subseteq> eqc (insert (a, b) R)"
    by (rule eqc_insert_le, rule eqc_sym, rule eqc_base) simp
qed

lemma eqc_insert_along:
  assumes "(a, a') \<in> R"
  shows "eqc (insert (a', b) R) = eqc (insert (a, b) R)"
proof (rule antisym; rule eqc_insert_le)
  have "(a', a) \<in> eqc (insert (a, b) R)" using assms by (intro eqc_sym [OF eqc_base]) simp
  moreover have "(a, b) \<in> eqc (insert (a, b) R)" by (intro eqc_base) simp
  ultimately show "(a', b) \<in> eqc (insert (a, b) R)" by (rule eqc_trans)
  have "(a, a') \<in> eqc (insert (a', b) R)" using assms by (intro eqc_base) simp
  moreover have "(a', b) \<in> eqc (insert (a', b) R)" by (intro eqc_base) simp
  ultimately show "(a, b) \<in> eqc (insert (a', b) R)" by (rule eqc_trans)
qed

lemma eqc_insert_old: "(a, b) \<in> R \<Longrightarrow> eqc (insert (a, b) R) = eqc R"
  by (simp add: insert_absorb)

section \<open>The links of a memo\<close>

abbreviation grps :: "('op, 'p) CMemo \<Rightarrow> nat set" where
  "grps M \<equiv> set (m_listGroups M)"

abbreviation dup_of :: "('op, 'p) CMemo \<Rightarrow> nat \<Rightarrow> nat option" where
  "dup_of M p \<equiv> m_pgroupDuplicate (m_group M p)"

abbreviation id_of :: "('op, 'p) CMemo \<Rightarrow> nat \<Rightarrow> nat" where
  "id_of M p \<equiv> g_id (m_group M p)"

definition links :: "('op, 'p) CMemo \<Rightarrow> (nat \<times> nat) set" where
  "links M = {(p, q). p \<in> grps M \<and> dup_of M p = Some q}"

definition links_ok :: "('op, 'p) CMemo \<Rightarrow> bool" where
  "links_ok M \<longleftrightarrow> (\<forall>p \<in> grps M. id_of M p < m_aul M) \<and> inj_on (id_of M) (grps M) \<and>
     (\<forall>p \<in> grps M. \<forall>q. dup_of M p = Some q \<longrightarrow> q \<in> grps M \<and> id_of M p < id_of M q)"

definition dup_step :: "('op, 'p) CMemo \<Rightarrow> nat \<Rightarrow> nat" where
  "dup_step M p = (case dup_of M p of None \<Rightarrow> p | Some q \<Rightarrow> q)"

definition master :: "('op, 'p) CMemo \<Rightarrow> nat \<Rightarrow> nat" where
  "master M p = (dup_step M ^^ m_aul M) p"

lemma links_okD:
  assumes "links_ok M" and "p \<in> grps M"
  shows "id_of M p < m_aul M" and "dup_of M p = Some q \<Longrightarrow> q \<in> grps M \<and> id_of M p < id_of M q"
  using assms by (auto simp: links_ok_def)

lemma links_ok_inj: "links_ok M \<Longrightarrow> p \<in> grps M \<Longrightarrow> q \<in> grps M \<Longrightarrow> id_of M p = id_of M q \<Longrightarrow> p = q"
  by (auto simp: links_ok_def inj_on_def)

lemma dup_step_grps: "links_ok M \<Longrightarrow> p \<in> grps M \<Longrightarrow> dup_step M p \<in> grps M"
  by (auto simp: dup_step_def dest: links_okD split: option.splits)

lemma dup_steps_grps: "links_ok M \<Longrightarrow> p \<in> grps M \<Longrightarrow> (dup_step M ^^ n) p \<in> grps M"
  by (induction n) (auto intro: dup_step_grps)

lemma master_grps [simp]: "links_ok M \<Longrightarrow> p \<in> grps M \<Longrightarrow> master M p \<in> grps M"
  unfolding master_def by (rule dup_steps_grps)

lemma dup_steps_progress:
  assumes "links_ok M" and "p \<in> grps M"
  shows "dup_of M ((dup_step M ^^ n) p) = None \<or> n + id_of M p \<le> id_of M ((dup_step M ^^ n) p)"
proof (induction n)
  case (Suc n)
  let ?q = "(dup_step M ^^ n) p"
  have q: "?q \<in> grps M" using assms by (rule dup_steps_grps)
  show ?case
  proof (cases "dup_of M ?q")
    case None
    then have "dup_step M ?q = ?q" by (simp add: dup_step_def)
    then show ?thesis using None by simp
  next
    case (Some r)
    then have "id_of M ?q < id_of M r" using links_okD(2) [OF assms(1) q] by blast
    moreover have "dup_step M ?q = r" using Some by (simp add: dup_step_def)
    ultimately show ?thesis using Suc Some by auto
  qed
qed simp

lemma master_end:
  assumes "links_ok M" and "p \<in> grps M"
  shows "dup_of M (master M p) = None"
proof -
  have "id_of M (master M p) < m_aul M" using assms by (intro links_okD) auto
  then show ?thesis using dup_steps_progress [OF assms, of "m_aul M"] by (auto simp: master_def)
qed

lemma dup_steps_link:
  assumes "links_ok M" and "p \<in> grps M"
  shows "(p, (dup_step M ^^ n) p) \<in> (links M)\<^sup>*"
proof (induction n)
  case (Suc n)
  let ?q = "(dup_step M ^^ n) p"
  have q: "?q \<in> grps M" using assms by (rule dup_steps_grps)
  have "(?q, dup_step M ?q) \<in> (links M)\<^sup>*"
    using q by (auto simp: dup_step_def links_def split: option.splits)
  with Suc show ?case by simp
qed simp

lemma links_star_eqc: "(p, q) \<in> (links M)\<^sup>* \<Longrightarrow> (p, q) \<in> eqc (links M)"
  unfolding eqc_def by (rule rtrancl_mono [THEN subsetD, rotated]) auto

lemma master_eqc: "links_ok M \<Longrightarrow> p \<in> grps M \<Longrightarrow> (p, master M p) \<in> eqc (links M)"
  unfolding master_def by (intro links_star_eqc dup_steps_link)

lemma dup_steps_fix: "dup_of M p = None \<Longrightarrow> (dup_step M ^^ n) p = p"
  by (induction n) (auto simp: dup_step_def)

lemma master_self: "dup_of M p = None \<Longrightarrow> master M p = p"
  by (simp add: master_def dup_steps_fix)

lemma master_step:
  assumes "links_ok M" and "p \<in> grps M" and "dup_of M p = Some q"
  shows "master M q = master M p"
proof -
  have "(dup_step M ^^ Suc (m_aul M)) p = dup_step M (master M p)" by (simp add: master_def)
  also have "\<dots> = master M p" using master_end [OF assms(1,2)] by (simp add: dup_step_def)
  finally have "(dup_step M ^^ m_aul M) (dup_step M p) = master M p" by (simp add: funpow_swap1)
  then show ?thesis using assms(3) by (simp add: master_def dup_step_def)
qed

lemma master_eq_iff:
  assumes "links_ok M" and "p \<in> grps M" and "q \<in> grps M"
  shows "master M p = master M q \<longleftrightarrow> (p, q) \<in> eqc (links M)"
proof
  assume "master M p = master M q"
  then have "(p, master M q) \<in> eqc (links M)" using master_eqc assms by metis
  moreover have "(master M q, q) \<in> eqc (links M)" using master_eqc assms by (blast intro: eqc_sym)
  ultimately show "(p, q) \<in> eqc (links M)" by (rule eqc_trans)
next
  assume "(p, q) \<in> eqc (links M)"
  moreover have "links M \<subseteq> {(a, b). a \<in> grps M \<and> b \<in> grps M \<and> master M a = master M b}"
    using assms(1) by (auto simp: links_def master_step dest: links_okD)
  ultimately show "master M p = master M q"
    using eqc_least [of "links M" "{(a, b). a \<in> grps M \<and> b \<in> grps M \<and> master M a = master M b}" p q]
    by (auto simp: sym_def trans_def)
qed

lemma master_max:
  assumes "links_ok M" and "p \<in> grps M"
  shows "id_of M p \<le> id_of M (master M p)"
proof -
  have "(p, q) \<in> (links M)\<^sup>* \<Longrightarrow> id_of M p \<le> id_of M q" for q
  proof (induction rule: rtrancl_induct)
    case (step y z)
    then show ?case using assms(1) by (auto simp: links_def dest: links_okD)
  qed simp
  then show ?thesis using dup_steps_link [OF assms] by (simp add: master_def)
qed

lemma links_eqc_master:
  assumes "links_ok M" and "links_ok M'" and "m_listGroups M' = m_listGroups M"
    and "\<And>p. p \<in> grps M \<Longrightarrow> id_of M' p = id_of M p" and "eqc (links M') = eqc (links M)" and "p \<in> grps M"
  shows "master M' p = master M p"
proof -
  have p': "p \<in> grps M'" using assms by simp
  have "(master M' p, master M p) \<in> eqc (links M)"
    using master_eqc [OF assms(1,6)] master_eqc [OF assms(2) p'] assms(5) by (metis eqc_sym eqc_trans)
  then have "master M (master M' p) = master M (master M p)" "master M' (master M' p) = master M' (master M p)"
    using master_eq_iff [OF assms(1)] master_eq_iff [OF assms(2)] assms(3,5,6) master_grps [OF assms(1,6)]
      master_grps [OF assms(2) p'] by auto
  moreover have "master M (master M p) = master M p" "master M' (master M' p) = master M' p"
    using assms(1,2,6) p' by (auto intro!: master_self master_end)
  ultimately have eq: "master M (master M' p) = master M p" "master M' (master M p) = master M' p" by auto
  have mg: "master M' p \<in> grps M" "master M p \<in> grps M'" "master M p \<in> grps M"
    using assms p' master_grps [OF assms(2) p'] by auto
  have "id_of M (master M' p) \<le> id_of M (master M p)" using master_max [OF assms(1) mg(1)] eq by simp
  moreover have "id_of M' (master M p) \<le> id_of M' (master M' p)" using master_max [OF assms(2) mg(2)] eq by simp
  ultimately have "id_of M (master M' p) = id_of M (master M p)" using assms(4) mg by simp
  then show ?thesis using links_ok_inj [OF assms(1) mg(1,3)] by simp
qed

section \<open>Changing one link\<close>

definition set_dup :: "nat \<Rightarrow> nat \<Rightarrow> ('op, 'p) CMemo \<Rightarrow> ('op, 'p) CMemo" where
  "set_dup p q = upd_group p (\<lambda>g. g\<lparr>m_pgroupDuplicate := Some q\<rparr>)"

lemma set_dup_sel [simp]:
  "m_listGroups (set_dup p q M) = m_listGroups M" "m_aul (set_dup p q M) = m_aul M"
  "m_gexpr (set_dup p q M) = m_gexpr M" "m_chain (set_dup p q M) = m_chain M"
  "m_nbuckets (set_dup p q M) = m_nbuckets M" "m_pgroupRoot (set_dup p q M) = m_pgroupRoot M"
  "m_size (set_dup p q M) = m_size M" "m_ngroups (set_dup p q M) = m_ngroups M"
  "m_ngexprs (set_dup p q M) = m_ngexprs M" "m_ulpGrps (set_dup p q M) = m_ulpGrps M"
  "g_id (m_group (set_dup p q M) r) = g_id (m_group M r)"
  "m_listGExprs (m_group (set_dup p q M) r) = m_listGExprs (m_group M r)"
  "m_listDupGExprs (m_group (set_dup p q M) r) = m_listDupGExprs (m_group M r)"
  "m_ulGExprs (m_group (set_dup p q M) r) = m_ulGExprs (m_group M r)"
  "g_estate (m_group (set_dup p q M) r) = g_estate (m_group M r)"
  "m_fScalar (m_group (set_dup p q M) r) = m_fScalar (m_group M r)"
  "m_ulCTEProducerId (m_group (set_dup p q M) r) = m_ulCTEProducerId (m_group M r)"
  "m_pdp (m_group (set_dup p q M) r) = m_pdp (m_group M r)"
  "m_pgroupDuplicate (m_group (set_dup p q M) r) = (if r = p then Some q else m_pgroupDuplicate (m_group M r))"
  by (simp_all add: set_dup_def upd_group_def)

lemma set_dup_links_ok:
  assumes "links_ok M" and "p \<in> grps M" and "q \<in> grps M" and "id_of M p < id_of M q"
  shows "links_ok (set_dup p q M)"
  using assms by (auto simp: links_ok_def)

lemma set_dup_new_links:
  assumes "p \<in> grps M" and "dup_of M p = None"
  shows "links (set_dup p q M) = insert (p, q) (links M)"
  using assms by (auto simp: links_def split: if_splits)

lemma set_dup_shortcut:
  assumes ok: "links_ok M" and p: "p \<in> grps M" and d: "dup_of M p = Some q" and qr: "(q, r) \<in> (links M)\<^sup>*"
  shows "links_ok (set_dup p r M) \<and> eqc (links (set_dup p r M)) = eqc (links M)"
proof -
  have star: "(a, b) \<in> (links M)\<^sup>* \<Longrightarrow> a \<in> grps M \<Longrightarrow> b \<in> grps M \<and> id_of M a \<le> id_of M b" for a b
  proof (induction rule: rtrancl_induct)
    case (step y z)
    then show ?case using ok by (auto simp: links_def dest: links_okD)
  qed simp
  have q: "q \<in> grps M" "id_of M p < id_of M q" using links_okD(2) [OF ok p d] by auto
  have r: "r \<in> grps M" "id_of M q \<le> id_of M r" using star [OF qr q(1)] by auto
  have ok': "links_ok (set_dup p r M)" using ok p q r by (intro set_dup_links_ok) auto
  let ?M = "set_dup p r M"
  have "(a, b) \<in> (links M)\<^sup>* \<Longrightarrow> id_of M p < id_of M a \<Longrightarrow> a \<in> grps M \<Longrightarrow> (a, b) \<in> (links ?M)\<^sup>*" for a b
  proof (induction rule: rtrancl_induct)
    case (step y z)
    then have "id_of M p < id_of M y" using star [OF step.hyps(1) step.prems(2)] by auto
    then have "(y, z) \<in> links ?M" using step.hyps(2) by (auto simp: links_def)
    then show ?case using step by auto
  qed simp
  then have qr': "(q, r) \<in> eqc (links ?M)" using qr q by (intro links_star_eqc) blast
  have "(p, r) \<in> links ?M" using p by (simp add: links_def)
  then have pq: "(p, q) \<in> eqc (links ?M)" using qr' by (blast intro: eqc_sym eqc_trans)
  have "links M \<subseteq> eqc (links ?M)"
  proof
    fix x assume x: "x \<in> links M"
    show "x \<in> eqc (links ?M)"
    proof (cases "fst x = p")
      case True
      then have "x = (p, q)" using x d by (auto simp: links_def)
      then show ?thesis using pq by simp
    next
      case False
      then have "x \<in> links ?M" using x by (auto simp: links_def)
      then show ?thesis by (cases x) auto
    qed
  qed
  moreover have "links ?M \<subseteq> eqc (links M)"
  proof
    fix x assume x: "x \<in> links ?M"
    have "(p, q) \<in> links M" using p d by (simp add: links_def)
    then have pr: "(p, r) \<in> eqc (links M)" using links_star_eqc [OF qr] by (blast intro: eqc_trans)
    show "x \<in> eqc (links M)"
    proof (cases "fst x = p")
      case True
      then have "x = (p, r)" using x by (auto simp: links_def)
      then show ?thesis using pr by simp
    next
      case False
      then have "x \<in> links M" using x by (auto simp: links_def)
      then show ?thesis by (cases x) auto
    qed
  qed
  ultimately show ?thesis using ok' eqc_subset_eqc by blast
qed

section \<open>Marking duplicates\<close>

text \<open>The state differs in links only: \<open>M'\<close> is \<open>M\<close> with other duplicate fields.\<close>

definition relinked :: "('op, 'p) CMemo \<Rightarrow> ('op, 'p) CMemo \<Rightarrow> bool" where
  "relinked M M' \<longleftrightarrow> (\<exists>d. M' = M\<lparr>m_group := (\<lambda>p. (m_group M p)\<lparr>m_pgroupDuplicate := d p\<rparr>)\<rparr>)"

lemma relinked_refl [simp, intro]: "relinked M M"
  unfolding relinked_def by (rule exI [of _ "dup_of M"]) simp

lemma relinked_set_dup [simp, intro]: "relinked M (set_dup p q M)"
  unfolding relinked_def
  by (rule exI [of _ "(dup_of M)(p := Some q)"]) (auto simp: set_dup_def upd_group_def fun_eq_iff)

lemma relinked_trans: "relinked M M1 \<Longrightarrow> relinked M1 M2 \<Longrightarrow> relinked M M2"
  by (force simp: relinked_def)

lemma relinked_sel:
  assumes "relinked M M'"
  shows "m_listGroups M' = m_listGroups M" "m_aul M' = m_aul M" "m_gexpr M' = m_gexpr M" "m_chain M' = m_chain M"
    "m_nbuckets M' = m_nbuckets M" "m_pgroupRoot M' = m_pgroupRoot M" "m_size M' = m_size M"
    "m_ngroups M' = m_ngroups M" "m_ngexprs M' = m_ngexprs M" "m_ulpGrps M' = m_ulpGrps M"
    "g_id (m_group M' r) = g_id (m_group M r)"
    "m_listGExprs (m_group M' r) = m_listGExprs (m_group M r)"
    "m_listDupGExprs (m_group M' r) = m_listDupGExprs (m_group M r)"
    "m_ulGExprs (m_group M' r) = m_ulGExprs (m_group M r)"
    "g_estate (m_group M' r) = g_estate (m_group M r)"
    "m_fScalar (m_group M' r) = m_fScalar (m_group M r)"
    "m_pdp (m_group M' r) = m_pdp (m_group M r)"
    "m_ulCTEProducerId (m_group M' r) = m_ulCTEProducerId (m_group M r)"
  using assms by (auto simp: relinked_def)

lemma AddDuplicateGrp_loop_correct:
  assumes "links_ok M" and "s \<in> grps M" and "d \<in> grps M" and "id_of M s < id_of M d"
  shows "\<exists>M'. AddDuplicateGrp_loop s d M = Some M' \<and> relinked M M' \<and> links_ok M' \<and>
    eqc (links M') = eqc (insert (s, d) (links M))"
  using assms
proof (induction "2 * m_aul M - id_of M s - id_of M d" arbitrary: s d rule: less_induct)
  case less
  note ok = less.prems(1)
  consider (stop) "dup_of M s = Some d" | (new) "dup_of M s = None" | (go) s' where "dup_of M s = Some s'" "s' \<noteq> d"
    by (cases "dup_of M s") auto
  then show ?case
  proof cases
    case stop
    then have "(s, d) \<in> links M" using less.prems by (simp add: links_def)
    then have "eqc (links M) = eqc (insert (s, d) (links M))" by (simp add: insert_absorb)
    moreover have "AddDuplicateGrp_loop s d M = Some M" using stop by (subst AddDuplicateGrp_loop.simps) simp
    ultimately show ?thesis using ok by auto
  next
    case new
    have "AddDuplicateGrp_loop s d M = AddDuplicateGrp_loop s d (set_dup s d M)"
      using new by (subst AddDuplicateGrp_loop.simps) (simp add: set_dup_def)
    also have "\<dots> = Some (set_dup s d M)" by (subst AddDuplicateGrp_loop.simps) simp
    finally show ?thesis
      using set_dup_links_ok [OF less.prems] set_dup_new_links [OF less.prems(2) new] by auto
  next
    case (go s')
    have s': "s' \<in> grps M" "id_of M s < id_of M s'" using links_okD(2) [OF ok less.prems(2) go(1)] by auto
    have lk: "(s, s') \<in> links M" using go(1) less.prems by (simp add: links_def)
    have bd: "id_of M s' < m_aul M" "id_of M d < m_aul M" using links_okD(1) [OF ok] s' less.prems by auto
    have ne: "id_of M s' \<noteq> id_of M d" using links_ok_inj [OF ok s'(1) less.prems(3)] go(2) by auto
    show ?thesis
    proof (cases "id_of M d < id_of M s'")
      case True
      have "AddDuplicateGrp_loop s d M = AddDuplicateGrp_loop d s' M"
        using go True by (subst AddDuplicateGrp_loop.simps) simp
      moreover have "eqc (insert (d, s') (links M)) = eqc (insert (s, d) (links M))"
        using eqc_insert_swap [of d s' "links M"] eqc_insert_along [OF lk, of d] by simp
      moreover have "2 * m_aul M - id_of M d - id_of M s' < 2 * m_aul M - id_of M s - id_of M d"
        using bd s'(2) by linarith
      ultimately show ?thesis using less.hyps [of d s'] ok less.prems(3) s'(1) True by simp
    next
      case False
      have "AddDuplicateGrp_loop s d M = AddDuplicateGrp_loop s' d M"
        using go False by (subst AddDuplicateGrp_loop.simps) simp
      moreover have "2 * m_aul M - id_of M s' - id_of M d < 2 * m_aul M - id_of M s - id_of M d"
        using bd s'(2) by linarith
      ultimately show ?thesis
        using less.hyps [of s' d] ok less.prems(3) s'(1) False ne eqc_insert_along [OF lk, of d] by simp
    qed
  qed
qed

lemma AddDuplicateGrp_correct:
  assumes "links_ok M" and "p \<in> grps M" and "q \<in> grps M" and "p \<noteq> q"
  shows "\<exists>M'. g_AddDuplicateGrp p q M = Some M' \<and> relinked M M' \<and> links_ok M' \<and>
    eqc (links M') = eqc (insert (p, q) (links M))"
proof -
  have ne: "id_of M p \<noteq> id_of M q" using links_ok_inj assms by blast
  show ?thesis
  proof (cases "id_of M q < id_of M p")
    case True
    then show ?thesis
      using AddDuplicateGrp_loop_correct [OF assms(1,3,2)] eqc_insert_swap [of p q "links M"]
      by (simp add: g_AddDuplicateGrp_def)
  next
    case False
    then show ?thesis
      using AddDuplicateGrp_loop_correct [OF assms(1,2,3)] ne by (simp add: g_AddDuplicateGrp_def)
  qed
qed

lemma ResolveDuplicateMaster_loop_correct:
  assumes "links_ok M" and "p \<in> grps M"
  shows "ResolveDuplicateMaster_loop M p = Some (Inr (master M p))"
  using assms
proof (induction "m_aul M - id_of M p" arbitrary: p rule: less_induct)
  case less
  show ?case
  proof (cases "dup_of M p")
    case None
    then show ?thesis by (subst ResolveDuplicateMaster_loop.simps) (simp add: master_self)
  next
    case (Some q)
    have q: "q \<in> grps M" "id_of M p < id_of M q" using links_okD(2) [OF less.prems Some] by auto
    have "id_of M q < m_aul M" by (rule links_okD(1) [OF less.prems(1) q(1)])
    then have "ResolveDuplicateMaster_loop M q = Some (Inr (master M q))" using q less by auto
    then show ?thesis
      using Some q master_step [OF less.prems Some] by (subst ResolveDuplicateMaster_loop.simps) simp
  qed
qed

lemma ResolveDuplicateMaster_correct:
  assumes "links_ok M" and "p \<in> grps M"
  shows "\<exists>M'. g_ResolveDuplicateMaster p M = Some (Inr M') \<and> relinked M M' \<and> links_ok M' \<and>
    eqc (links M') = eqc (links M) \<and>
    M' = (if dup_of M p = None then M else set_dup p (master M p) M)"
proof (cases "dup_of M p")
  case None
  then show ?thesis using assms by (auto simp: g_ResolveDuplicateMaster_def)
next
  case (Some q)
  have q: "q \<in> grps M" using links_okD(2) [OF assms Some] by auto
  have "g_ResolveDuplicateMaster p M = Some (Inr (set_dup p (master M p) M))"
    using Some ResolveDuplicateMaster_loop_correct [OF assms(1) q] master_step [OF assms Some]
    by (simp add: g_ResolveDuplicateMaster_def set_dup_def)
  moreover have "(q, master M p) \<in> (links M)\<^sup>*"
    using dup_steps_link [OF assms(1) q, of "m_aul M"] master_step [OF assms Some] by (simp add: master_def)
  ultimately show ?thesis using set_dup_shortcut [OF assms Some] Some by auto
qed

lemma MarkDuplicates_correct:
  assumes "links_ok M" and "p \<in> grps M" and "q \<in> grps M" and "p \<noteq> q"
  shows "\<exists>M'. memo_MarkDuplicates p q M = Some (Inr M') \<and> relinked M M' \<and> links_ok M' \<and>
    eqc (links M') = eqc (insert (p, q) (links M))"
proof -
  obtain M1 where M1: "g_AddDuplicateGrp p q M = Some M1" "relinked M M1" "links_ok M1"
    "eqc (links M1) = eqc (insert (p, q) (links M))"
    using AddDuplicateGrp_correct [OF assms] by blast
  obtain M2 where M2: "g_ResolveDuplicateMaster p M1 = Some (Inr M2)" "relinked M1 M2" "links_ok M2"
    "eqc (links M2) = eqc (links M1)"
    using ResolveDuplicateMaster_correct [of M1 p] M1 assms by (auto simp: relinked_sel)
  obtain M3 where M3: "g_ResolveDuplicateMaster q M2 = Some (Inr M3)" "relinked M2 M3" "links_ok M3"
    "eqc (links M3) = eqc (links M2)"
    using ResolveDuplicateMaster_correct [of M2 q] M2 M1 assms by (auto simp: relinked_sel)
  show ?thesis
    using M1 M2 M3 by (auto simp: memo_MarkDuplicates_def intro: relinked_trans)
qed

text \<open>What marking does to the masters: exactly the two classes are joined.\<close>

lemma eqc_insert_iff:
  "(a, b) \<in> eqc (insert (p, q) R) \<longleftrightarrow>
     (a, b) \<in> eqc R \<or> (a, p) \<in> eqc R \<and> (q, b) \<in> eqc R \<or> (a, q) \<in> eqc R \<and> (p, b) \<in> eqc R"
  (is "?L \<longleftrightarrow> ?R a b")
proof
  assume L: ?L
  let ?S = "{(a, b). ?R a b}"
  have "insert (p, q) R \<subseteq> ?S" by auto
  moreover have "sym ?S" by (auto simp: sym_def intro: eqc_sym)
  moreover have "trans ?S"
    unfolding trans_def by (simp, blast intro: eqc_trans eqc_sym)
  ultimately show "?R a b" using eqc_least [of "insert (p, q) R" ?S a b] L by auto
next
  have sub: "eqc R \<subseteq> eqc (insert (p, q) R)" by (rule eqc_mono) auto
  have pq: "(p, q) \<in> eqc (insert (p, q) R)" "(q, p) \<in> eqc (insert (p, q) R)" by (auto intro: eqc_sym)
  assume "?R a b"
  then show ?L using sub pq by (blast intro: eqc_trans)
qed

lemma eqc_insert_subset:
  assumes "eqc R \<subseteq> S" and "(p, q) \<in> S" and "sym S" and "trans S"
  shows "eqc (insert (p, q) R) \<subseteq> S"
proof
  fix x assume x: "x \<in> eqc (insert (p, q) R)"
  obtain a b where ab: "x = (a, b)" by (cases x)
  have "(q, p) \<in> S" using assms(2,3) by (rule symD [rotated])
  then show "x \<in> S" using x assms unfolding ab eqc_insert_iff by (blast dest: transD)
qed

end
