(* ===== verification/MemoMerge.thy ===== *)
theory MemoMerge
  imports MemoLinks "HOL-Library.Multiset"
begin

text \<open>
  What \<^verbatim>\<open>GroupMerge\<close> computes. The congruence closure of a memo is the least equivalence of groups that
  contains the links between duplicates and puts group expressions with equal operators and equal
  children into equal groups; \<open>cong False\<close> compares children in order, \<open>cong True\<close> also up to a
  permutation where the order of the children does not matter. The invariant \<open>merge_inv\<close> of the merge
  says that the masters of groups lie between the two.
\<close>

section \<open>Matching\<close>

abbreviation pop_of :: "('op, 'p) CMemo \<Rightarrow> nat \<Rightarrow> 'op" where
  "pop_of M e \<equiv> m_pop (m_gexpr M e)"

abbreviation children :: "('op, 'p) CMemo \<Rightarrow> nat \<Rightarrow> nat list" where
  "children M e \<equiv> m_pdrgpgroup (m_gexpr M e)"

abbreviation group_of :: "('op, 'p) CMemo \<Rightarrow> nat \<Rightarrow> nat option" where
  "group_of M e \<equiv> m_pgroup (m_gexpr M e)"

abbreviation gexprs_of :: "('op, 'p) CMemo \<Rightarrow> nat \<Rightarrow> nat list" where
  "gexprs_of M p \<equiv> m_listGExprs (m_group M p)"

definition in_order :: "'op COperator_class \<Rightarrow> ('op, 'p) CMemo \<Rightarrow> nat \<Rightarrow> bool" where
  "in_order C M e \<longleftrightarrow> length (children M e) \<le> 1 \<or> op_FInputOrderSensitive C (pop_of M e)"

definition sorted_ok :: "'op COperator_class \<Rightarrow> ('op, 'p) CMemo \<Rightarrow> nat \<Rightarrow> bool" where
  "sorted_ok C M e \<longleftrightarrow> m_pdrgpgroupSorted (m_gexpr M e) =
     (if in_order C M e then None else Some (sort_key (Address C) (children M e)))"

definition matches :: "'op COperator_class \<Rightarrow> ('op, 'p) CMemo \<Rightarrow> nat \<Rightarrow> nat \<Rightarrow> bool" where
  "matches C M e f \<longleftrightarrow> op_Matches C (pop_of M e) (pop_of M f) \<and> length (children M e) = length (children M f) \<and>
     (if in_order C M e then list_all2 (g_FDuplicateGroups M) (children M e) (children M f)
      else list_all2 (g_FDuplicateGroups M) (sort_key (Address C) (children M e)) (sort_key (Address C) (children M f)))"

lemma FMatchGroups_loop_iff:
  "length ps = length qs \<Longrightarrow> FMatchGroups_loop M ps qs \<longleftrightarrow> list_all2 (g_FDuplicateGroups M) ps qs"
  by (induction ps qs rule: list_induct2) (auto simp: g_FDuplicateGroups_def Let_def)

lemma FDuplicateGroups_refl [simp]: "g_FDuplicateGroups M p p"
  by (simp add: g_FDuplicateGroups_def)

lemma FDuplicateGroups_sym: "g_FDuplicateGroups M p q \<longleftrightarrow> g_FDuplicateGroups M q p"
  by (auto simp: g_FDuplicateGroups_def Let_def)

context operator_laws
begin

lemma in_order_Matches:
  "op_Matches C (pop_of M e) (pop_of M f) \<Longrightarrow> length (children M e) = length (children M f) \<Longrightarrow>
   in_order C M e = in_order C M f"
  using Matches_sensitive by (auto simp: in_order_def)

lemma ge_Matches_eval:
  assumes "sorted_ok C M e" and "sorted_ok C M f"
  shows "ge_Matches C M e f = Inr (matches C M e f)"
proof (cases "op_Matches C (pop_of M e) (pop_of M f) \<and> length (children M e) = length (children M f)")
  case True
  then have io: "in_order C M e = in_order C M f" by (intro in_order_Matches) auto
  show ?thesis
  proof (cases "in_order C M e")
    case o: True
    then have "length (children M e) = 0 \<or> length (children M e) = 1 \<or> op_FInputOrderSensitive C (pop_of M e)"
      by (auto simp: in_order_def le_Suc_eq)
    then show ?thesis
      using True o by (auto simp: ge_Matches_def Let_def matches_def FMatchGroups_def FMatchGroups_loop_iff)
  next
    case n: False
    then have "length (children M e) \<noteq> 0" "length (children M e) \<noteq> 1" "\<not> op_FInputOrderSensitive C (pop_of M e)"
      by (auto simp: in_order_def)
    moreover have "length (sort_key (Address C) (children M f)) = length (sort_key (Address C) (children M e))"
      using True by simp
    ultimately show ?thesis
      using True n io assms
      by (simp add: ge_Matches_def Let_def matches_def FMatchGroups_def FMatchGroups_loop_iff sorted_ok_def)
  qed
next
  case False
  then show ?thesis by (auto simp: ge_Matches_def Let_def matches_def)
qed

lemma matches_refl: "matches C M e e"
  by (auto simp: matches_def Matches_refl list.rel_refl)

lemma matches_sym: "matches C M e f \<Longrightarrow> matches C M f e"
proof -
  assume m: "matches C M e f"
  have "list_all2 (g_FDuplicateGroups M) xs ys \<Longrightarrow> list_all2 (g_FDuplicateGroups M) ys xs" for xs ys
    using FDuplicateGroups_sym [of M] by (auto simp: list_all2_conv_all_nth)
  then show ?thesis
    using m in_order_Matches [of M e f] Matches_sym by (auto simp: matches_def split: if_splits)
qed

lemma NextMatch_eval:
  assumes "sorted_ok C M e" and "\<forall>f \<in> set chain. sorted_ok C M f"
  shows "sht_NextMatch C M e chain = Inr (List.find (matches C M e) chain)"
  using assms(2) by (induction chain) (auto simp: ge_Matches_eval assms(1))

end

section \<open>The congruence of a memo\<close>

definition live :: "('op, 'p) CMemo \<Rightarrow> nat set" where
  "live M = set (sht_entries M)"

inductive cong :: "bool \<Rightarrow> 'op COperator_class \<Rightarrow> ('op, 'p) CMemo \<Rightarrow> nat \<Rightarrow> nat \<Rightarrow> bool"
  for perm C M where
  cong_refl: "p \<in> grps M \<Longrightarrow> cong perm C M p p"
| cong_sym: "cong perm C M p q \<Longrightarrow> cong perm C M q p"
| cong_trans: "cong perm C M p q \<Longrightarrow> cong perm C M q r \<Longrightarrow> cong perm C M p r"
| cong_link: "(p, q) \<in> links M \<Longrightarrow> cong perm C M p q"
| cong_gexpr: "e \<in> live M \<Longrightarrow> f \<in> live M \<Longrightarrow> group_of M e = Some p \<Longrightarrow> group_of M f = Some q \<Longrightarrow>
    op_Matches C (pop_of M e) (pop_of M f) \<Longrightarrow>
    in_order C M e \<and> ys = children M f \<or> perm \<and> \<not> in_order C M e \<and> mset ys = mset (children M f) \<Longrightarrow>
    list_all2 (cong perm C M) (children M e) ys \<Longrightarrow> cong perm C M p q"

section \<open>The state between two steps of the merge\<close>

definition same_core :: "('op, 'p) CMemo \<Rightarrow> ('op, 'p) CMemo \<Rightarrow> bool" where
  "same_core M0 M \<longleftrightarrow> m_listGroups M = m_listGroups M0 \<and> m_aul M = m_aul M0 \<and> m_nbuckets M = m_nbuckets M0 \<and>
     m_ngroups M = m_ngroups M0 \<and> m_ngexprs M = m_ngexprs M0 \<and> m_ulpGrps M = m_ulpGrps M0 \<and>
     (\<forall>p. id_of M p = id_of M0 p \<and> g_estate (m_group M p) = g_estate (m_group M0 p)) \<and>
     (\<forall>e. pop_of M e = pop_of M0 e \<and> children M e = children M0 e \<and>
          m_pdrgpgroupSorted (m_gexpr M e) = m_pdrgpgroupSorted (m_gexpr M0 e))"

text \<open>Group expressions are in the list, or in the list of duplicates, of the group they point to.\<close>

definition lists_ok :: "('op, 'p) CMemo \<Rightarrow> bool" where
  "lists_ok M \<longleftrightarrow> (\<forall>p \<in> grps M. m_ulGExprs (m_group M p) = length (gexprs_of M p) \<and>
     distinct (gexprs_of M p @ m_listDupGExprs (m_group M p)) \<and>
     (\<forall>e \<in> set (gexprs_of M p) \<union> set (m_listDupGExprs (m_group M p)). group_of M e = Some p))"

definition registered :: "('op, 'p) CMemo \<Rightarrow> nat set" where
  "registered M = (\<Union>p \<in> grps M. set (gexprs_of M p) \<union> set (m_listDupGExprs (m_group M p)))"

definition listed :: "('op, 'p) CMemo \<Rightarrow> nat set" where
  "listed M = (\<Union>p \<in> grps M. set (gexprs_of M p))"

text \<open>\<open>L\<close> are the expressions taken out of the table and not yet put back.\<close>

definition table_agrees :: "nat list \<Rightarrow> ('op, 'p) CMemo \<Rightarrow> bool" where
  "table_agrees L M \<longleftrightarrow> distinct (L @ sht_entries M) \<and> listed M = set L \<union> live M \<and> m_size M = length (sht_entries M) \<and>
     0 < m_nbuckets M"

definition same_group :: "('op, 'p) CMemo \<Rightarrow> nat \<Rightarrow> nat \<Rightarrow> bool" where
  "same_group M p q \<longleftrightarrow> p \<in> grps M \<and> q \<in> grps M \<and> master M p = master M q"

definition sound :: "'op COperator_class \<Rightarrow> ('op, 'p) CMemo \<Rightarrow> ('op, 'p) CMemo \<Rightarrow> bool" where
  "sound C M0 M \<longleftrightarrow> (\<forall>p q. same_group M p q \<longrightarrow> cong True C M0 p q) \<and>
     (\<forall>e \<in> registered M0. \<exists>p0 p. group_of M0 e = Some p0 \<and> group_of M e = Some p \<and> cong True C M0 p0 p)"

definition represents ::
  "'op COperator_class \<Rightarrow> ('op, 'p) CMemo \<Rightarrow> ('op, 'p) CMemo \<Rightarrow> nat \<Rightarrow> nat \<Rightarrow> bool" where
  "represents C M0 M e f \<longleftrightarrow> op_Matches C (pop_of M e) (pop_of M f) \<and> length (children M e) = length (children M f) \<and>
     (in_order C M e \<longrightarrow> list_all2 (same_group M) (children M e) (children M f)) \<and>
     (\<exists>p0 p. group_of M0 e = Some p0 \<and> group_of M f = Some p \<and> same_group M p0 p)"

definition complete :: "'op COperator_class \<Rightarrow> ('op, 'p) CMemo \<Rightarrow> nat set \<Rightarrow> ('op, 'p) CMemo \<Rightarrow> bool" where
  "complete C M0 E M \<longleftrightarrow> eqc (links M0) \<subseteq> eqc (links M) \<and> (\<forall>e \<in> live M0. \<exists>f \<in> E. represents C M0 M e f)"

definition producer :: "'op COperator_class \<Rightarrow> ('op, 'p) CMemo \<Rightarrow> nat \<Rightarrow> bool" where
  "producer C M e \<longleftrightarrow> op_FLogical C (pop_of M e) \<and> op_UlCTEProducerId C (pop_of M e) \<noteq> None"

definition producers_ok :: "'op COperator_class \<Rightarrow> ('op, 'p) CMemo \<Rightarrow> ('op, 'p) CMemo \<Rightarrow> bool" where
  "producers_ok C M0 M \<longleftrightarrow> (\<forall>p \<in> grps M. m_ulCTEProducerId (m_group M p) \<noteq> gpos_ulong_max \<longrightarrow>
     (\<exists>e \<in> registered M0. producer C M0 e \<and>
       (\<exists>p0 p1. group_of M0 e = Some p0 \<and> cong True C M0 p0 p \<and> group_of M e = Some p1 \<and> id_of M p \<le> id_of M p1)))"

text \<open>No two CTE producers end up in one class.\<close>

definition one_producer :: "'op COperator_class \<Rightarrow> ('op, 'p) CMemo \<Rightarrow> bool" where
  "one_producer C M \<longleftrightarrow> (\<forall>e \<in> registered M. \<forall>f \<in> registered M. \<forall>p q. producer C M e \<longrightarrow> producer C M f \<longrightarrow>
     group_of M e = Some p \<longrightarrow> group_of M f = Some q \<longrightarrow> cong True C M p q \<longrightarrow> e = f)"

definition children_ok :: "'op COperator_class \<Rightarrow> ('op, 'p) CMemo \<Rightarrow> bool" where
  "children_ok C M \<longleftrightarrow> (\<forall>e \<in> registered M. set (children M e) \<subseteq> grps M \<and> sorted_ok C M e)"

definition merge_inv :: "'op COperator_class \<Rightarrow> ('op, 'p) CMemo \<Rightarrow> nat list \<Rightarrow> ('op, 'p) CMemo \<Rightarrow> bool" where
  "merge_inv C M0 L M \<longleftrightarrow> same_core M0 M \<and> links_ok M \<and> lists_ok M \<and> registered M = registered M0 \<and>
     table_agrees L M \<and> set L \<union> live M \<subseteq> live M0 \<and> sound C M0 M \<and> complete C M0 (set L \<union> live M) M \<and> producers_ok C M0 M"

text \<open>What does not look at the links sees no difference between memos with the same links.\<close>

definition same_links :: "('op, 'p) CMemo \<Rightarrow> ('op, 'p) CMemo \<Rightarrow> bool" where
  "same_links M M' \<longleftrightarrow> m_listGroups M' = m_listGroups M \<and> m_aul M' = m_aul M \<and>
     (\<forall>p. dup_of M' p = dup_of M p \<and> id_of M' p = id_of M p)"

lemma same_links_D:
  assumes "same_links M M'"
  shows "links M' = links M" and "links_ok M' = links_ok M" and "same_group M' p q = same_group M p q"
    and "master M' p = master M p" and "g_FDuplicateGroups M' p q = g_FDuplicateGroups M p q"
proof -
  have "dup_step M' = dup_step M" using assms by (auto simp: same_links_def dup_step_def fun_eq_iff)
  then show m: "master M' p = master M p" for p using assms by (simp add: same_links_def master_def)
  show "links M' = links M" using assms by (simp add: same_links_def links_def)
  show "links_ok M' = links_ok M" using assms by (simp add: same_links_def links_ok_def inj_on_def)
  show "same_group M' p q = same_group M p q" using assms m by (simp add: same_links_def same_group_def)
  show "g_FDuplicateGroups M' p q = g_FDuplicateGroups M p q"
    using assms by (simp add: same_links_def g_FDuplicateGroups_def)
qed

lemma same_core_sel:
  assumes "same_core M0 M"
  shows "m_listGroups M = m_listGroups M0" "m_aul M = m_aul M0" "m_nbuckets M = m_nbuckets M0"
    "id_of M p = id_of M0 p" "g_estate (m_group M p) = g_estate (m_group M0 p)" "pop_of M e = pop_of M0 e"
    "children M e = children M0 e" "in_order C M e = in_order C M0 e" "sorted_ok C M e = sorted_ok C M0 e"
    "producer C M e = producer C M0 e"
  using assms by (simp_all add: same_core_def in_order_def sorted_ok_def producer_def)

lemma same_core_trans: "same_core M0 M \<Longrightarrow> same_core M M' \<Longrightarrow> same_core M0 M'"
  by (simp add: same_core_def)

lemma same_core_refl [simp]: "same_core M M"
  by (simp add: same_core_def)

lemma same_group_iff: "links_ok M \<Longrightarrow> same_group M p q \<longleftrightarrow> p \<in> grps M \<and> q \<in> grps M \<and> (p, q) \<in> eqc (links M)"
  using master_eq_iff by (auto simp: same_group_def)

lemma same_group_equiv:
  "p \<in> grps M \<Longrightarrow> same_group M p p"
  "same_group M p q \<Longrightarrow> same_group M q p"
  "same_group M p q \<Longrightarrow> same_group M q r \<Longrightarrow> same_group M p r"
  by (auto simp: same_group_def)

lemma FDuplicateGroups_same_group:
  assumes "links_ok M" and "p \<in> grps M" and "q \<in> grps M" and "g_FDuplicateGroups M p q"
  shows "same_group M p q"
proof -
  consider "p = q" | "dup_of M q = Some p" | "dup_of M p = Some q" | r where "dup_of M p = Some r" "dup_of M q = Some r"
    using assms(4) by (cases "dup_of M p"; cases "dup_of M q") (auto simp: g_FDuplicateGroups_def Let_def)
  then have "master M p = master M q"
  proof cases
    case 2
    then show ?thesis using master_step [OF assms(1,3)] by simp
  next
    case 3
    then show ?thesis using master_step [OF assms(1,2)] by simp
  next
    case (4 r)
    then show ?thesis using master_step [OF assms(1,2)] master_step [OF assms(1,3)] by metis
  qed simp
  then show ?thesis using assms(2,3) by (simp add: same_group_def)
qed

lemma list_all2_FDuplicateGroups:
  assumes "links_ok M" and "set xs \<subseteq> grps M" and "set ys \<subseteq> grps M" and "list_all2 (g_FDuplicateGroups M) xs ys"
  shows "list_all2 (same_group M) xs ys"
  using assms(4,2,3) by (induction rule: list_all2_induct) (auto intro: FDuplicateGroups_same_group [OF assms(1)])

text \<open>Matching expressions are congruent.\<close>

context operator_laws
begin

lemma matches_cong:
  assumes core: "same_core M0 M" and lk: "links_ok M" and m: "matches C M e f"
    and ef: "e \<in> live M0" "f \<in> live M0" "group_of M0 e = Some p" "group_of M0 f = Some q"
    and ch: "set (children M0 e) \<subseteq> grps M0" "set (children M0 f) \<subseteq> grps M0"
    and sound: "\<And>p q. same_group M p q \<Longrightarrow> cong True C M0 p q"
  shows "cong True C M0 p q"
proof -
  note sel = same_core_sel [OF core]
  have op: "op_Matches C (pop_of M0 e) (pop_of M0 f)" using m by (simp add: matches_def sel)
  show ?thesis
  proof (cases "in_order C M0 e")
    case True
    then have "list_all2 (g_FDuplicateGroups M) (children M0 e) (children M0 f)"
      using m by (simp add: matches_def sel)
    then have "list_all2 (same_group M) (children M0 e) (children M0 f)"
      using ch lk by (intro list_all2_FDuplicateGroups) (auto simp: sel)
    then have "list_all2 (cong True C M0) (children M0 e) (children M0 f)"
      by (rule list_all2_mono) (rule sound)
    then show ?thesis using ef op True by (intro cong_gexpr [where e = e and f = f and ys = "children M0 f"]) auto
  next
    case False
    let ?s = "sort_key (Address C)"
    have "list_all2 (g_FDuplicateGroups M) (?s (children M0 e)) (?s (children M0 f))"
      using m False by (simp add: matches_def sel)
    then have "list_all2 (same_group M) (?s (children M0 e)) (?s (children M0 f))"
      using ch lk by (intro list_all2_FDuplicateGroups) (auto simp: sel)
    then have "list_all2 (cong True C M0) (?s (children M0 e)) (?s (children M0 f))"
      by (rule list_all2_mono) (rule sound)
    then obtain ys where "list_all2 (cong True C M0) (children M0 e) ys" "mset ys = mset (?s (children M0 f))"
      using list_all2_reorder_left_invariance [of "cong True C M0" "?s (children M0 e)" "?s (children M0 f)" "children M0 e"]
      by auto
    then show ?thesis using ef op False by (intro cong_gexpr [where e = e and f = f and ys = ys]) auto
  qed
qed

end

section \<open>Taking entries out and putting them back\<close>

lemma ge_HashValue_bucket: "0 < m_nbuckets M \<Longrightarrow> sht_GetBucketIndex C M e < m_nbuckets M"
  by (simp add: sht_GetBucketIndex_def)

lemma mset_entries_upd:
  assumes "b < n"
  shows "mset (concat (map (ch(b := e # ch b)) [0..<n])) = add_mset e (mset (concat (map ch [0..<n])))"
proof -
  have split: "[0..<n] = [0..<b] @ b # [Suc b..<n]" using assms upt_add_eq_append [of 0 b "n - b"] upt_conv_Cons [of b n]
    by (simp add: less_imp_le)
  have "map (ch(b := e # ch b)) [0..<b] = map ch [0..<b]" "map (ch(b := e # ch b)) [Suc b..<n] = map ch [Suc b..<n]"
    by auto
  then show ?thesis unfolding split by simp
qed

lemma sht_Insert_entries:
  assumes "0 < m_nbuckets M"
  shows "mset (sht_entries (sht_Insert C e M)) = add_mset e (mset (sht_entries M))"
  using mset_entries_upd [OF ge_HashValue_bucket [OF assms]] by (simp add: sht_entries_def sht_Insert_def Let_def)

lemma sht_Insert_sel [simp]:
  "m_group (sht_Insert C e M) = m_group M" "m_gexpr (sht_Insert C e M) = m_gexpr M"
  "m_listGroups (sht_Insert C e M) = m_listGroups M" "m_aul (sht_Insert C e M) = m_aul M"
  "m_nbuckets (sht_Insert C e M) = m_nbuckets M" "m_pgroupRoot (sht_Insert C e M) = m_pgroupRoot M"
  "m_ngroups (sht_Insert C e M) = m_ngroups M" "m_ngexprs (sht_Insert C e M) = m_ngexprs M"
  "m_ulpGrps (sht_Insert C e M) = m_ulpGrps M" "m_size (sht_Insert C e M) = m_size M + 1"
  by (simp_all add: sht_Insert_def Let_def)

lemma sht_drain_sel [simp]:
  "m_group (snd (sht_drain M)) = m_group M" "m_gexpr (snd (sht_drain M)) = m_gexpr M"
  "m_listGroups (snd (sht_drain M)) = m_listGroups M" "m_aul (snd (sht_drain M)) = m_aul M"
  "m_nbuckets (snd (sht_drain M)) = m_nbuckets M" "m_pgroupRoot (snd (sht_drain M)) = m_pgroupRoot M"
  "m_ngroups (snd (sht_drain M)) = m_ngroups M" "m_ngexprs (snd (sht_drain M)) = m_ngexprs M"
  "m_ulpGrps (snd (sht_drain M)) = m_ulpGrps M" "fst (sht_drain M) = sht_entries M"
  "sht_entries (snd (sht_drain M)) = []" "m_size (snd (sht_drain M)) = m_size M - length (sht_entries M)"
  by (simp_all add: sht_drain_def sht_entries_def)

text \<open>An invariant that does not mention the table carries over when only the table changes.\<close>

lemma table_change_inv:
  assumes inv: "merge_inv C M0 L M"
    and eq: "m_group M' = m_group M" "m_gexpr M' = m_gexpr M" "m_listGroups M' = m_listGroups M" "m_aul M' = m_aul M"
      "m_nbuckets M' = m_nbuckets M" "m_ngroups M' = m_ngroups M" "m_ngexprs M' = m_ngexprs M" "m_ulpGrps M' = m_ulpGrps M"
    and ms: "mset L' + mset (sht_entries M') = mset L + mset (sht_entries M)" and sz: "m_size M' = length (sht_entries M')"
  shows "merge_inv C M0 L' M'"
proof -
  have sl: "same_links M M'" using eq by (simp add: same_links_def)
  note sd = same_links_D [OF sl]
  have "mset (L' @ sht_entries M') = mset (L @ sht_entries M)" using ms by simp
  then have d: "distinct (L' @ sht_entries M') = distinct (L @ sht_entries M)" by (rule mset_eq_imp_distinct_iff)
  have "set_mset (mset L' + mset (sht_entries M')) = set_mset (mset L + mset (sht_entries M))" by (simp only: ms)
  then have s: "set L' \<union> live M' = set L \<union> live M" by (simp add: live_def)
  have "listed M' = listed M" "registered M' = registered M" "lists_ok M' = lists_ok M"
    using eq by (simp_all add: listed_def registered_def lists_ok_def)
  moreover have "same_core M0 M' = same_core M0 M" using eq by (simp add: same_core_def)
  moreover have "sound C M0 M' = sound C M0 M" using eq sd by (simp add: sound_def)
  moreover have "represents C M0 M' e f = represents C M0 M e f" for e f
    using eq sd by (simp add: represents_def in_order_def list_all2_iff)
  then have "complete C M0 E M' = complete C M0 E M" for E using sd by (simp add: complete_def)
  moreover have "producers_ok C M0 M' = producers_ok C M0 M" using eq by (simp add: producers_ok_def)
  ultimately show ?thesis using inv eq sd s d sz by (simp add: merge_inv_def table_agrees_def)
qed

lemma drain_inv:
  assumes "merge_inv C M0 [] M"
  shows "merge_inv C M0 (sht_entries M) (snd (sht_drain M))"
  by (rule table_change_inv [OF assms]) (use assms in \<open>auto simp: merge_inv_def table_agrees_def\<close>)

lemma sht_Insert_inv:
  assumes "merge_inv C M0 (e # L) M"
  shows "merge_inv C M0 L (sht_Insert C e M)"
proof (rule table_change_inv [OF assms])
  have n: "0 < m_nbuckets M" and sz: "m_size M = length (sht_entries M)"
    using assms by (simp_all add: merge_inv_def table_agrees_def)
  note ms = sht_Insert_entries [OF n, of C e]
  show "mset L + mset (sht_entries (sht_Insert C e M)) = mset (e # L) + mset (sht_entries M)" by (simp add: ms)
  have "size (mset (sht_entries (sht_Insert C e M))) = Suc (length (sht_entries M))" by (simp add: ms)
  then show "m_size (sht_Insert C e M) = length (sht_entries (sht_Insert C e M))" using sz by simp
qed simp_all

section \<open>Dropping a duplicate\<close>

definition dropped :: "nat \<Rightarrow> nat \<Rightarrow> nat \<Rightarrow> ('op, 'p) CMemo \<Rightarrow> ('op, 'p) CMemo" where
  "dropped e f p M = g_MoveDuplicateGExpr p e (upd_gexpr e (\<lambda>x. x\<lparr>m_pgexprDuplicate := Some f\<rparr>) M)"

lemma dropped_sel [simp]:
  "m_listGroups (dropped e f p M) = m_listGroups M" "m_aul (dropped e f p M) = m_aul M"
  "m_nbuckets (dropped e f p M) = m_nbuckets M" "m_chain (dropped e f p M) = m_chain M"
  "m_size (dropped e f p M) = m_size M" "m_ngroups (dropped e f p M) = m_ngroups M"
  "m_ngexprs (dropped e f p M) = m_ngexprs M" "m_ulpGrps (dropped e f p M) = m_ulpGrps M"
  "m_pgroupRoot (dropped e f p M) = m_pgroupRoot M"
  "id_of (dropped e f p M) r = id_of M r" "dup_of (dropped e f p M) r = dup_of M r"
  "g_estate (m_group (dropped e f p M) r) = g_estate (m_group M r)"
  "m_ulCTEProducerId (m_group (dropped e f p M) r) = m_ulCTEProducerId (m_group M r)"
  "gexprs_of (dropped e f p M) r = (if r = p then remove1 e (gexprs_of M p) else gexprs_of M r)"
  "m_listDupGExprs (m_group (dropped e f p M) r) =
     (if r = p then m_listDupGExprs (m_group M p) @ [e] else m_listDupGExprs (m_group M r))"
  "m_ulGExprs (m_group (dropped e f p M) r) = (if r = p then m_ulGExprs (m_group M p) - 1 else m_ulGExprs (m_group M r))"
  "pop_of (dropped e f p M) x = pop_of M x" "children (dropped e f p M) x = children M x"
  "group_of (dropped e f p M) x = group_of M x"
  "m_pdrgpgroupSorted (m_gexpr (dropped e f p M) x) = m_pdrgpgroupSorted (m_gexpr M x)"
  by (simp_all add: dropped_def g_MoveDuplicateGExpr_def upd_group_def upd_gexpr_def)

lemma lists_okD:
  assumes "lists_ok M" and "e \<in> listed M"
  obtains p where "p \<in> grps M" "e \<in> set (gexprs_of M p)" "group_of M e = Some p"
  using assms by (auto simp: lists_ok_def listed_def)

lemma lists_ok_listed:
  assumes "lists_ok M" and "e \<in> listed M" and "group_of M e = Some p"
  shows "p \<in> grps M" and "e \<in> set (gexprs_of M p)"
  using lists_okD [OF assms(1,2)] assms(3) by auto

lemma listed_registered: "listed M \<subseteq> registered M"
  by (auto simp: listed_def registered_def)

lemma represents_mono:
  assumes "represents C M0 M e f" and "\<And>p q. same_group M p q \<Longrightarrow> same_group M' p q"
    and "same_core M M'" and "group_of M' f = group_of M f"
  shows "represents C M0 M' e f"
proof -
  note sel = same_core_sel [OF assms(3)]
  have "list_all2 (same_group M') xs ys" if "list_all2 (same_group M) xs ys" for xs ys
    using that assms(2) by (rule list_all2_mono)
  then show ?thesis using assms(1,2,4) by (auto simp: represents_def sel)
qed

lemma soundD:
  assumes "sound C M0 M"
  shows "same_group M p q \<Longrightarrow> cong True C M0 p q"
    and "e \<in> registered M0 \<Longrightarrow> group_of M e = Some p \<Longrightarrow> \<exists>p0. group_of M0 e = Some p0 \<and> cong True C M0 p0 p"
proof -
  show "same_group M p q \<Longrightarrow> cong True C M0 p q" using assms by (simp add: sound_def)
  assume e: "e \<in> registered M0" and p: "group_of M e = Some p"
  obtain p0 p' where "group_of M0 e = Some p0" "group_of M e = Some p'" "cong True C M0 p0 p'"
    using assms e unfolding sound_def by blast
  then show "\<exists>p0. group_of M0 e = Some p0 \<and> cong True C M0 p0 p" using p by auto
qed

lemma same_group_joined:
  assumes lk: "links_ok M" and lk': "links_ok M'" and g: "m_listGroups M' = m_listGroups M"
    and eq: "eqc (links M') = eqc (insert (p, q) (links M))" and pq: "p \<in> grps M" "q \<in> grps M"
  shows "same_group M' a b \<longleftrightarrow>
    same_group M a b \<or> same_group M a p \<and> same_group M q b \<or> same_group M a q \<and> same_group M p b"
  unfolding same_group_iff [OF lk] same_group_iff [OF lk'] eq eqc_insert_iff g using pq by simp argo

text \<open>The lists after a drop. \<open>M'\<close> is the memo after the drop and possibly a marking.\<close>

lemma dropped_lists:
  assumes lists: "lists_ok M" and p: "p \<in> grps M" "e \<in> set (gexprs_of M p)" and pe: "group_of M e = Some p"
    and rel: "relinked (dropped e f p M) M'"
  shows "lists_ok M'" and "registered M' = registered M" and "listed M' = listed M - {e}"
proof -
  note sel = relinked_sel [OF rel, simplified]
  have owner: "r = p" if "r \<in> grps M" "e \<in> set (gexprs_of M r)" for r
    using that lists pe by (auto simp: lists_ok_def)
  have dp: "distinct (gexprs_of M p)" using lists p(1) by (auto simp: lists_ok_def)
  have rm: "set (remove1 e (gexprs_of M p)) = set (gexprs_of M p) - {e}" using dp by simp
  show "lists_ok M'"
    unfolding lists_ok_def
  proof (intro ballI)
    fix r assume "r \<in> grps M'"
    then have r: "r \<in> grps M" by (simp add: sel)
    then have ok: "m_ulGExprs (m_group M r) = length (gexprs_of M r)"
      "distinct (gexprs_of M r)" "distinct (m_listDupGExprs (m_group M r))"
      "set (gexprs_of M r) \<inter> set (m_listDupGExprs (m_group M r)) = {}"
      "\<forall>x \<in> set (gexprs_of M r) \<union> set (m_listDupGExprs (m_group M r)). group_of M x = Some r"
      using lists by (simp_all add: lists_ok_def)
    show "m_ulGExprs (m_group M' r) = length (gexprs_of M' r) \<and>
       distinct (gexprs_of M' r @ m_listDupGExprs (m_group M' r)) \<and>
       (\<forall>x \<in> set (gexprs_of M' r) \<union> set (m_listDupGExprs (m_group M' r)). group_of M' x = Some r)"
    proof (cases "r = p")
      case True
      have "e \<notin> set (m_listDupGExprs (m_group M p))" using ok(4) p(2) True by auto
      moreover have "length (remove1 e (gexprs_of M p)) = length (gexprs_of M p) - 1"
        using p(2) by (simp add: length_remove1)
      ultimately show ?thesis using ok pe True rm by (auto simp: sel)
    next
      case False
      then show ?thesis using ok by (simp add: sel)
    qed
  qed
  have "set (gexprs_of M' r) \<union> set (m_listDupGExprs (m_group M' r)) =
      set (gexprs_of M r) \<union> set (m_listDupGExprs (m_group M r))" for r
    using p(2) rm by (auto simp: sel)
  then show "registered M' = registered M" by (simp add: registered_def sel)
  have "set (gexprs_of M' r) = set (gexprs_of M r) - {e}" if "r \<in> grps M" for r
    using owner [OF that] rm by (auto simp: sel)
  then show "listed M' = listed M - {e}" by (auto simp: listed_def sel)
qed

context operator_laws
begin

lemma represents_matches:
  assumes r: "represents C M0 M x e" and m: "matches C M e f" and core: "same_core M M'"
    and up: "\<And>p q. same_group M p q \<Longrightarrow> same_group M' p q" and lk: "links_ok M"
    and ch: "set (children M e) \<subseteq> grps M" "set (children M f) \<subseteq> grps M"
    and g: "group_of M e = Some p" "group_of M' f = Some q" "same_group M' p q"
  shows "represents C M0 M' x f"
proof -
  note sel = same_core_sel [OF core]
  have op: "op_Matches C (pop_of M x) (pop_of M e)" "length (children M x) = length (children M e)"
    using r by (simp_all add: represents_def)
  have mf: "op_Matches C (pop_of M e) (pop_of M f)" "length (children M e) = length (children M f)"
    using m by (simp_all add: matches_def)
  have "list_all2 (same_group M') (children M x) (children M f)" if io: "in_order C M x"
  proof -
    have io': "in_order C M e" using in_order_Matches [of M x e] op io by simp
    have "list_all2 (same_group M) (children M x) (children M e)" using r io by (simp add: represents_def)
    then have 1: "list_all2 (same_group M') (children M x) (children M e)" by (rule list_all2_mono) (rule up)
    have "list_all2 (g_FDuplicateGroups M) (children M e) (children M f)" using m io' by (simp add: matches_def)
    then have "list_all2 (same_group M) (children M e) (children M f)"
      using ch by (intro list_all2_FDuplicateGroups [OF lk]) auto
    then have 2: "list_all2 (same_group M') (children M e) (children M f)" by (rule list_all2_mono) (rule up)
    show ?thesis using list_all2_trans [OF _ 1 2] same_group_equiv(3) by blast
  qed
  moreover have "\<exists>p0 p. group_of M0 x = Some p0 \<and> group_of M' f = Some p \<and> same_group M' p0 p"
  proof -
    obtain p0 where p0: "group_of M0 x = Some p0" "same_group M p0 p" using r g(1) by (auto simp: represents_def)
    then have "same_group M' p0 q" using up g(3) same_group_equiv(3) by blast
    then show ?thesis using p0(1) g(2) by blast
  qed
  moreover have "op_Matches C (pop_of M x) (pop_of M f)" using op(1) mf(1) by (rule Matches_trans)
  ultimately show ?thesis using op(2) mf(2) by (simp add: represents_def sel)
qed

lemma drop_inv:
  assumes ch0: "children_ok C M0" and inv: "merge_inv C M0 (e # L) M" and m: "matches C M e f" and f: "f \<in> live M"
    and pe: "group_of M e = Some p" and qf: "group_of M f = Some q"
    and rel: "relinked (dropped e f p M) M'" and lk': "links_ok M'"
    and eq: "eqc (links M') = eqc (insert (p, q) (links M))"
  shows "merge_inv C M0 L M'"
proof -
  have core: "same_core M0 M" and lk: "links_ok M" and lists: "lists_ok M" and reg: "registered M = registered M0"
    and tab: "table_agrees (e # L) M" and sub: "set (e # L) \<union> live M \<subseteq> live M0" and snd: "sound C M0 M"
    and cpl: "complete C M0 (set (e # L) \<union> live M) M" and prod: "producers_ok C M0 M"
    using inv by (simp_all add: merge_inv_def)
  note sel = relinked_sel [OF rel, simplified]
  have ent: "sht_entries M' = sht_entries M" by (simp add: sht_entries_def sel)
  have coreM: "same_core M M'" by (simp add: same_core_def sel)
  have core': "same_core M0 M'" using core coreM by (rule same_core_trans)
  have inl: "e \<in> listed M" "f \<in> listed M" using tab f by (auto simp: table_agrees_def)
  have p: "p \<in> grps M" "e \<in> set (gexprs_of M p)" and q: "q \<in> grps M" "f \<in> set (gexprs_of M q)"
    using lists_ok_listed [OF lists inl(1) pe] lists_ok_listed [OF lists inl(2) qf] by auto
  note lists' = dropped_lists [OF lists p pe rel]
  have rege: "e \<in> registered M0" "f \<in> registered M0" using inl listed_registered reg by blast+
  have che: "set (children M0 e) \<subseteq> grps M0" "set (children M0 f) \<subseteq> grps M0"
    using ch0 rege by (simp_all add: children_ok_def)
  have tab': "table_agrees L M'" using tab lists'(3) by (auto simp: table_agrees_def ent sel live_def)
  have sub': "set L \<union> live M' \<subseteq> live M0" using sub by (simp add: live_def ent)
  have sg': "same_group M' a b \<longleftrightarrow> same_group M a b \<or> same_group M a p \<and> same_group M q b \<or> same_group M a q \<and> same_group M p b"
    for a b by (rule same_group_joined [OF lk lk' _ eq p(1) q(1)]) (simp add: sel)
  have up: "same_group M a b \<Longrightarrow> same_group M' a b" for a b by (simp add: sg')
  note snd1 = soundD(1) [OF snd]
  obtain p0 where p0: "group_of M0 e = Some p0" "cong True C M0 p0 p" using soundD(2) [OF snd rege(1) pe] by blast
  obtain q0 where q0: "group_of M0 f = Some q0" "cong True C M0 q0 q" using soundD(2) [OF snd rege(2) qf] by blast
  have "cong True C M0 p0 q0"
    using sub f che by (intro matches_cong [OF core lk m _ _ p0(1) q0(1) _ _ snd1]) auto
  then have pq: "cong True C M0 p q" using p0(2) q0(2) by (blast intro: cong_sym cong_trans)
  have "cong True C M0 a b" if sg: "same_group M' a b" for a b
  proof -
    consider "same_group M a b" | "same_group M a p" "same_group M q b" | "same_group M a q" "same_group M p b"
      using sg unfolding sg' by blast
    then show ?thesis
    proof cases
      case 2
      then show ?thesis using cong_trans [OF snd1 cong_trans [OF pq snd1]] by simp
    next
      case 3
      then show ?thesis using cong_trans [OF snd1 cong_trans [OF cong_sym [OF pq] snd1]] by simp
    qed (rule snd1)
  qed
  then have snd': "sound C M0 M'" using snd by (simp add: sound_def sel)
  have rep: "\<exists>g \<in> set L \<union> live M'. represents C M0 M' x g" if x: "x \<in> live M0" for x
  proof -
    obtain g where g: "g \<in> set (e # L) \<union> live M" "represents C M0 M x g"
      using cpl x by (auto simp: complete_def)
    show ?thesis
    proof (cases "g = e")
      case False
      then have "g \<in> set L \<union> live M'" using g(1) by (auto simp: live_def ent)
      moreover have "represents C M0 M' x g"
        by (rule represents_mono [OF g(2) up coreM]) (simp_all add: sel)
      ultimately show ?thesis by blast
    next
      case True
      have "same_group M p p" "same_group M q q" using p(1) q(1) by (simp_all add: same_group_equiv(1))
      then have "same_group M' p q" by (simp add: sg')
      then have "represents C M0 M' x f"
        using g(2) True che qf
        by (intro represents_matches [OF _ m coreM up lk _ _ pe, where q = q])
          (simp_all add: same_core_sel [OF core] sel)
      moreover have "f \<in> live M'" using f by (simp add: live_def ent)
      ultimately show ?thesis by blast
    qed
  qed
  have "eqc (links M) \<subseteq> eqc (links M')" unfolding eq by (rule eqc_mono) auto
  then have cpl': "complete C M0 (set L \<union> live M') M'" using cpl rep by (auto simp: complete_def)
  have prod': "producers_ok C M0 M'" using prod by (simp add: producers_ok_def sel)
  show ?thesis using core' lk' lists' reg tab' sub' snd' cpl' prod' by (simp add: merge_inv_def)
qed

end

section \<open>Rehashing\<close>

text \<open>Between the merge of the groups and the next marking the links go directly to the masters of emptied groups.\<close>

definition settled :: "('op, 'p) CMemo \<Rightarrow> bool" where
  "settled M \<longleftrightarrow> (\<forall>p \<in> grps M. dup_of M p \<noteq> None \<longrightarrow> gexprs_of M p = [] \<and> dup_of M p = Some (master M p))"

text \<open>The table holds every expression in its bucket, and no two that match.\<close>

definition uniq :: "'op COperator_class \<Rightarrow> ('op, 'p) CMemo \<Rightarrow> bool" where
  "uniq C M \<longleftrightarrow> (\<forall>b < m_nbuckets M. \<forall>e \<in> set (m_chain M b). sht_GetBucketIndex C M e = b) \<and>
     (\<forall>e \<in> live M. \<forall>f \<in> live M. sht_GetBucketIndex C M e = sht_GetBucketIndex C M f \<longrightarrow> matches C M e f \<longrightarrow> e = f)"

definition master_hash :: "'op COperator_class \<Rightarrow> ('op, 'p) CMemo \<Rightarrow> nat \<Rightarrow> ULONG" where
  "master_hash C M e =
     fold (\<lambda>p h. CombineHashes h (HashValue_ULONG (of_nat (id_of M (master M p))))) (children M e) (op_HashValue C (pop_of M e))"

lemma settled_hash:
  assumes "settled M" and "links_ok M" and "lists_ok M" and "p \<in> grps M"
  shows "g_HashValue M p = HashValue_ULONG (of_nat (id_of M (master M p)))"
proof (cases "dup_of M p")
  case None
  then show ?thesis using master_self [of M p] by (simp add: g_HashValue_def Let_def)
next
  case (Some q)
  then have "gexprs_of M p = []" "dup_of M p = Some (master M p)" using assms(1,4) by (auto simp: settled_def)
  moreover from this have "m_ulGExprs (m_group M p) = 0" using assms(3,4) by (auto simp: lists_ok_def)
  ultimately show ?thesis by (simp add: g_HashValue_def Let_def)
qed

lemma settled_gexpr_hash:
  assumes "settled M" and "links_ok M" and "lists_ok M" and "set (children M e) \<subseteq> grps M"
  shows "ge_HashValue C M e = master_hash C M e"
  unfolding ge_HashValue_def master_hash_def
  by (rule fold_cong) (use assms settled_hash [OF assms(1-3)] in auto)

lemma settled_duplicates:
  assumes "settled M" and "links_ok M" and "p \<in> grps M" and "q \<in> grps M"
  shows "g_FDuplicateGroups M p q \<longleftrightarrow> same_group M p q"
proof
  assume sg: "same_group M p q"
  have direct: "dup_of M r = None \<and> master M r = r \<or> dup_of M r = Some (master M r)" if "r \<in> grps M" for r
    using assms(1) that master_self [of M r] by (auto simp: settled_def)
  show "g_FDuplicateGroups M p q"
    using sg direct [OF assms(3)] direct [OF assms(4)] by (auto simp: g_FDuplicateGroups_def Let_def same_group_def)
qed (rule FDuplicateGroups_same_group [OF assms(2-4)])

text \<open>In a settled memo, hashes and matches do not change when expressions move to the duplicates.\<close>

lemma matches_same_links:
  assumes "same_links M M'" and "same_core M M'"
  shows "matches C M' e f = matches C M e f"
  using same_links_D(5) [OF assms(1)] same_core_sel [OF assms(2)] by (simp add: matches_def list_all2_iff)

lemma master_hash_same:
  assumes "same_links M M'" and "same_core M M'"
  shows "master_hash C M' e = master_hash C M e"
  using same_links_D(4) [OF assms(1)] same_core_sel [OF assms(2)] by (simp add: master_hash_def)

context operator_laws
begin

lemma sht_Find_eval:
  assumes ch0: "children_ok C M0" and inv: "merge_inv C M0 (e # L) M"
  shows "\<exists>b < m_nbuckets M. b = sht_GetBucketIndex C M e \<and>
    sht_Find C M e = Inr (List.find (matches C M e) (m_chain M b)) \<and> set (m_chain M b) \<subseteq> live M"
proof -
  let ?b = "sht_GetBucketIndex C M e"
  have b: "?b < m_nbuckets M" using inv by (simp add: merge_inv_def table_agrees_def ge_HashValue_bucket)
  then have sub: "set (m_chain M ?b) \<subseteq> live M" by (auto simp: live_def sht_entries_def)
  have "e \<in> registered M0 \<and> live M \<subseteq> registered M0"
    using inv listed_registered [of M] by (auto simp: merge_inv_def table_agrees_def)
  moreover have "sorted_ok C M x = sorted_ok C M0 x" for x
    using inv by (intro same_core_sel) (simp add: merge_inv_def)
  ultimately have "sorted_ok C M e" "\<forall>f \<in> set (m_chain M ?b). sorted_ok C M f"
    using ch0 sub by (auto simp: children_ok_def)
  then have "sht_Find C M e = Inr (List.find (matches C M e) (m_chain M ?b))"
    by (simp add: sht_Find_def NextMatch_eval)
  then show ?thesis using b sub by blast
qed

lemma FRehash_dup_correct:
  assumes ch0: "children_ok C M0" and inv: "merge_inv C M0 (e # L) M" and m: "matches C M e f" and f: "f \<in> live M"
  shows "\<exists>fl' M'. FRehash_dup e f fl M = Some (Inr (fl', M')) \<and> merge_inv C M0 L M' \<and> m_chain M' = m_chain M \<and>
    m_pgroupRoot M' = m_pgroupRoot M \<and> (fl \<longrightarrow> fl') \<and> eqc (links M) \<subseteq> eqc (links M') \<and>
    (\<not> fl' \<longrightarrow> (\<exists>p. M' = dropped e f p M))"
proof -
  have lk: "links_ok M" and lists: "lists_ok M" and tab: "table_agrees (e # L) M"
    using inv by (simp_all add: merge_inv_def)
  have inl: "e \<in> listed M" "f \<in> listed M" using tab f by (auto simp: table_agrees_def)
  obtain p where p: "p \<in> grps M" "e \<in> set (gexprs_of M p)" "group_of M e = Some p" using lists_okD [OF lists inl(1)] by blast
  obtain q where q: "q \<in> grps M" "f \<in> set (gexprs_of M q)" "group_of M f = Some q" using lists_okD [OF lists inl(2)] by blast
  have ne: "f \<noteq> e" using tab f by (auto simp: table_agrees_def live_def)
  let ?M1 = "upd_gexpr e (\<lambda>x. x\<lparr>m_pgexprDuplicate := Some f\<rparr>) M"
  let ?M2 = "dropped e f p M"
  have g1: "group_of ?M1 e = Some p" "group_of ?M1 f = Some q" using p q ne by (simp_all add: upd_gexpr_def)
  have "length (gexprs_of M p) + length (m_listDupGExprs (m_group M p)) =
      length (gexprs_of ?M2 p) + length (m_listDupGExprs (m_group ?M2 p))"
    using p(2) length_pos_if_in_set [OF p(2)] by (auto simp: length_remove1)
  then have mv: "gp_MoveDuplicateGExpr p e ?M1 = Inr ?M2"
    using g1(1) by (simp add: gp_MoveDuplicateGExpr_def Let_def dropped_def [symmetric]) (simp add: upd_gexpr_def)
  have lk2: "links_ok ?M2" "links ?M2 = links M" using lk same_links_D [of M ?M2] by (simp_all add: same_links_def)
  show ?thesis
  proof (cases "q \<noteq> p \<and> (dup_of M p = None \<and> dup_of M q = None \<or> dup_of M p \<noteq> dup_of M q)")
    case True
    obtain M3 where M3: "memo_MarkDuplicates p q ?M2 = Some (Inr M3)" "relinked ?M2 M3" "links_ok M3"
      "eqc (links M3) = eqc (insert (p, q) (links M))"
      using MarkDuplicates_correct [OF lk2(1), of p q] p q True lk2(2) by auto
    have "FRehash_dup e f fl M = Some (Inr (True, M3))"
      using ne g1 mv True M3(1) by (simp add: FRehash_dup_def Let_def)
    moreover have "merge_inv C M0 L M3" by (rule drop_inv [OF ch0 inv m f p(3) q(3) M3(2-4)])
    moreover have "eqc (links M) \<subseteq> eqc (links M3)" unfolding M3(4) by (rule eqc_mono) auto
    ultimately show ?thesis using relinked_sel [OF M3(2)] by auto
  next
    case False
    then have "FRehash_dup e f fl M = Some (Inr (fl, ?M2))"
      using ne g1 mv by (auto simp: FRehash_dup_def Let_def)
    moreover have "(p, q) \<in> eqc (links M)"
    proof (cases "q = p")
      case ne: False
      then obtain r where r: "dup_of M p = Some r" "dup_of M q = Some r" using False by (cases "dup_of M p") auto
      have "same_group M p q"
        using r p q by (intro FDuplicateGroups_same_group [OF lk]) (auto simp: g_FDuplicateGroups_def)
      then show ?thesis by (simp add: same_group_iff [OF lk])
    qed simp
    then have "eqc (insert (p, q) (links M)) = eqc (links M)"
      by (intro antisym eqc_subset_eqc eqc_mono) auto
    then have "merge_inv C M0 L ?M2"
      using lk2 by (intro drop_inv [OF ch0 inv m f p(3) q(3), where M' = "?M2"]) simp_all
    ultimately show ?thesis using lk2(2) by auto
  qed
qed

end

lemma bucket_same_memory:
  assumes "m_group M' = m_group M" and "m_gexpr M' = m_gexpr M" and "m_nbuckets M' = m_nbuckets M"
  shows "sht_GetBucketIndex C M' e = sht_GetBucketIndex C M e" and "matches C M' e f = matches C M e f"
proof -
  have "g_HashValue M' p = g_HashValue M p" for p unfolding g_HashValue_def assms ..
  then show "sht_GetBucketIndex C M' e = sht_GetBucketIndex C M e"
    using assms by (simp add: sht_GetBucketIndex_def ge_HashValue_def)
  show "matches C M' e f = matches C M e f"
    unfolding matches_def in_order_def g_FDuplicateGroups_def list_all2_iff assms ..
qed

lemma live_iff: "e \<in> live M \<longleftrightarrow> (\<exists>b < m_nbuckets M. e \<in> set (m_chain M b))"
  by (auto simp: live_def sht_entries_def)

lemma merge_inv_children:
  assumes "children_ok C M0" and "merge_inv C M0 L M" and "e \<in> set L \<union> live M"
  shows "set (children M e) \<subseteq> grps M"
proof -
  have "e \<in> registered M0" using assms(2,3) listed_registered [of M] by (auto simp: merge_inv_def table_agrees_def)
  then show ?thesis using assms(1,2) same_core_sel [of M0 M] by (simp add: children_ok_def merge_inv_def)
qed

lemma settled_dropped: "settled M \<Longrightarrow> settled (dropped e f p M)"
  using same_links_D(4) [of M "dropped e f p M"] by (auto simp: settled_def same_links_def)

lemma uniq_dropped:
  assumes ch0: "children_ok C M0" and inv: "merge_inv C M0 (e # L) M" and inv': "merge_inv C M0 L (dropped e f p M)"
    and "settled M" and u: "uniq C M"
  shows "uniq C (dropped e f p M)"
proof -
  let ?M = "dropped e f p M"
  have sl: "same_links M ?M" by (simp add: same_links_def)
  have sc: "same_core M ?M" by (simp add: same_core_def)
  have live: "live ?M = live M" by (simp add: live_def sht_entries_def)
  have lk: "links_ok M" "links_ok ?M" "lists_ok M" "lists_ok ?M" using inv inv' by (simp_all add: merge_inv_def)
  have bucket: "sht_GetBucketIndex C ?M x = sht_GetBucketIndex C M x" if x: "x \<in> live M" for x
  proof -
    have "set (children M x) \<subseteq> grps M" using merge_inv_children [OF ch0 inv] x by simp
    then have "ge_HashValue C M x = master_hash C M x" "ge_HashValue C ?M x = master_hash C ?M x"
      using assms(4) settled_dropped [OF assms(4)] lk by (auto intro!: settled_gexpr_hash)
    then show ?thesis using master_hash_same [OF sl sc] by (simp add: sht_GetBucketIndex_def)
  qed
  have "\<forall>b < m_nbuckets M. \<forall>x \<in> set (m_chain M b). x \<in> live M" by (auto simp: live_iff)
  then show ?thesis
    using u bucket matches_same_links [OF sl sc] by (simp add: uniq_def live)
qed

context operator_laws
begin

lemma uniq_Insert:
  assumes u: "uniq C M" and b: "b < m_nbuckets M" "b = sht_GetBucketIndex C M e"
    and none: "List.find (matches C M e) (m_chain M b) = None"
  shows "uniq C (sht_Insert C e M)"
proof -
  let ?M = "sht_Insert C e M"
  note same = bucket_same_memory [of ?M M, simplified]
  have chain: "m_chain ?M = (m_chain M)(b := e # m_chain M b)" by (simp add: sht_Insert_def b(2) Let_def)
  have live: "live ?M = insert e (live M)" using b(1) by (auto simp: live_iff chain split: if_splits)
  have nomatch: "\<not> matches C M e f" if f: "f \<in> live M" "sht_GetBucketIndex C M f = b" for f
  proof -
    obtain b' where "b' < m_nbuckets M" "f \<in> set (m_chain M b')" using f(1) by (auto simp: live_iff)
    then have "f \<in> set (m_chain M b)" using u f(2) by (auto simp: uniq_def)
    then show ?thesis using none by (simp add: find_None_iff)
  qed
  have "\<forall>x \<in> insert e (live M). \<forall>y \<in> insert e (live M).
      sht_GetBucketIndex C M x = sht_GetBucketIndex C M y \<longrightarrow> matches C M x y \<longrightarrow> x = y"
  proof (intro ballI impI)
    fix x y
    assume x: "x \<in> insert e (live M)" and y: "y \<in> insert e (live M)"
      and h: "sht_GetBucketIndex C M x = sht_GetBucketIndex C M y" and m: "matches C M x y"
    consider "x = e" "y = e" | "x = e" "y \<in> live M" | "y = e" "x \<in> live M" | "x \<in> live M" "y \<in> live M"
      using x y by blast
    then show "x = y"
    proof cases
      case 2
      then show ?thesis using nomatch [of y] h m b(2) by simp
    next
      case 3
      then show ?thesis using nomatch [of x] h matches_sym [OF m] b(2) by simp
    next
      case 4
      then show ?thesis using u h m unfolding uniq_def by blast
    qed simp
  qed
  moreover have "\<forall>b' < m_nbuckets M. \<forall>x \<in> set (m_chain ?M b'). sht_GetBucketIndex C M x = b'"
    using u b by (auto simp: uniq_def chain)
  ultimately show ?thesis by (simp add: uniq_def live same)
qed

lemma FRehash_loop_correct:
  assumes ch0: "children_ok C M0" and inv: "merge_inv C M0 L M"
  shows "\<exists>fl' M'. FRehash_loop C L fl M = Some (Inr (fl', M')) \<and> merge_inv C M0 [] M' \<and>
    m_pgroupRoot M' = m_pgroupRoot M \<and> (fl \<longrightarrow> fl') \<and> eqc (links M) \<subseteq> eqc (links M') \<and> (\<not> fl' \<longrightarrow> same_links M M') \<and>
    length (sht_entries M') \<le> length L + length (sht_entries M) \<and>
    (fl' \<and> \<not> fl \<longrightarrow> length (sht_entries M') < length L + length (sht_entries M)) \<and>
    (\<not> fl' \<and> settled M \<and> uniq C M \<longrightarrow> settled M' \<and> uniq C M')"
  using inv
proof (induction L arbitrary: fl M)
  case Nil
  then show ?case by (auto simp: same_links_def)
next
  case (Cons e L)
  obtain b where b: "b < m_nbuckets M" "b = sht_GetBucketIndex C M e"
    "sht_Find C M e = Inr (List.find (matches C M e) (m_chain M b))" "set (m_chain M b) \<subseteq> live M"
    using sht_Find_eval [OF ch0 Cons.prems] by blast
  show ?case
  proof (cases "List.find (matches C M e) (m_chain M b)")
    case None
    let ?M = "sht_Insert C e M"
    have ent: "length (sht_entries ?M) = Suc (length (sht_entries M))"
    proof -
      have "size (mset (sht_entries ?M)) = size (add_mset e (mset (sht_entries M)))"
        using b(1) by (subst sht_Insert_entries) auto
      then show ?thesis by simp
    qed
    have "settled M \<Longrightarrow> settled ?M" using same_links_D(4) [of M ?M] by (simp add: settled_def same_links_def)
    moreover have "uniq C M \<Longrightarrow> uniq C ?M" by (rule uniq_Insert [OF _ b(1,2) None])
    moreover have sl: "same_links M ?M" by (simp add: same_links_def)
    have lks: "links ?M = links M" by (rule same_links_D(1) [OF sl])
    obtain fl' M' where M': "FRehash_loop C L fl ?M = Some (Inr (fl', M'))" "merge_inv C M0 [] M'"
      "m_pgroupRoot M' = m_pgroupRoot ?M" "fl \<longrightarrow> fl'" "eqc (links ?M) \<subseteq> eqc (links M')" "\<not> fl' \<longrightarrow> same_links ?M M'"
      "length (sht_entries M') \<le> length L + length (sht_entries ?M)"
      "fl' \<and> \<not> fl \<longrightarrow> length (sht_entries M') < length L + length (sht_entries ?M)"
      "\<not> fl' \<and> settled ?M \<and> uniq C ?M \<longrightarrow> settled M' \<and> uniq C M'"
      using Cons.IH [OF sht_Insert_inv [OF Cons.prems], of fl] by blast
    have "FRehash_loop C (e # L) fl M = Some (Inr (fl', M'))" using b(3) None M'(1) by simp
    moreover have "\<not> fl' \<longrightarrow> same_links M M'" using M'(6) sl by (simp add: same_links_def)
    ultimately show ?thesis
      using M'(2-5,7-9) unfolding lks ent by (intro exI [of _ fl'] exI [of _ M']) simp
  next
    case (Some f)
    then have m: "matches C M e f" and f: "f \<in> live M" using b(4) by (auto simp: find_Some_iff)
    obtain fl1 M1 where d: "FRehash_dup e f fl M = Some (Inr (fl1, M1))" "merge_inv C M0 L M1"
      "m_chain M1 = m_chain M" "m_pgroupRoot M1 = m_pgroupRoot M" "fl \<longrightarrow> fl1" "eqc (links M) \<subseteq> eqc (links M1)"
      "\<not> fl1 \<longrightarrow> (\<exists>p. M1 = dropped e f p M)"
      using FRehash_dup_correct [OF ch0 Cons.prems m f, of fl] by blast
    have "m_nbuckets M1 = m_nbuckets M" using d(2) Cons.prems by (simp add: merge_inv_def same_core_def)
    then have ent: "sht_entries M1 = sht_entries M" using d(3) by (simp add: sht_entries_def)
    obtain fl2 M2 where r: "FRehash_loop C L fl1 M1 = Some (Inr (fl2, M2))" "merge_inv C M0 [] M2"
      "m_pgroupRoot M2 = m_pgroupRoot M1" "fl1 \<longrightarrow> fl2" "length (sht_entries M2) \<le> length L + length (sht_entries M1)"
      "eqc (links M1) \<subseteq> eqc (links M2)" "\<not> fl2 \<longrightarrow> same_links M1 M2"
      "\<not> fl2 \<and> settled M1 \<and> uniq C M1 \<longrightarrow> settled M2 \<and> uniq C M2"
      using Cons.IH [OF d(2), of fl1] by blast
    have "settled M1 \<and> uniq C M1" if s: "\<not> fl2" "settled M" "uniq C M"
    proof -
      obtain p where p: "M1 = dropped e f p M" using d(7) r(4) s(1) by blast
      have "settled (dropped e f p M)" using s(2) by (rule settled_dropped)
      moreover have "uniq C (dropped e f p M)" using d(2) unfolding p by (rule uniq_dropped [OF ch0 Cons.prems _ s(2,3)])
      ultimately show ?thesis by (simp add: p)
    qed
    moreover have "same_links M M2" if s: "\<not> fl2"
    proof -
      obtain p where p: "M1 = dropped e f p M" using d(7) r(4) s by blast
      then show ?thesis using r(7) s by (simp add: same_links_def)
    qed
    moreover have "eqc (links M) \<subseteq> eqc (links M2)" using d(6) r(6) by (rule subset_trans)
    moreover have "FRehash_loop C (e # L) fl M = Some (Inr (fl2, M2))" using b(3) Some d(1) r(1) by simp
    moreover have "length (sht_entries M2) < length (e # L) + length (sht_entries M)" using r(5) by (simp add: ent)
    ultimately show ?thesis using d(4,5) r(2,3,4,8) by (intro exI [of _ fl2] exI [of _ M2]) simp
  qed
qed

lemma FRehash_correct:
  assumes ch0: "children_ok C M0" and inv: "merge_inv C M0 [] M" and root: "root_between M" and set: "settled M"
  shows "\<exists>fl' M'. memo_FRehash C M = Some (Inr (fl', M')) \<and> merge_inv C M0 [] M' \<and> m_pgroupRoot M' = m_pgroupRoot M \<and>
    eqc (links M) \<subseteq> eqc (links M') \<and> (\<not> fl' \<longrightarrow> same_links M M') \<and>
    (fl' \<longrightarrow> length (sht_entries M') < length (sht_entries M)) \<and> (\<not> fl' \<longrightarrow> settled M' \<and> uniq C M')"
proof -
  obtain L M1 where d: "sht_drain M = (L, M1)" by fastforce
  then have L: "L = sht_entries M" "M1 = snd (sht_drain M)" using sht_drain_sel(10) [of M] by auto
  have inv1: "merge_inv C M0 L M1" using drain_inv [OF inv] L by simp
  have ent: "sht_entries M1 = []" by (simp add: L)
  have "settled M1" using set same_links_D(4) [of M M1] by (simp add: settled_def same_links_def L)
  moreover have "uniq C M1"
  proof -
    have "live M1 = {}" by (simp add: live_def ent)
    moreover have "m_chain M1 b = []" if "b < m_nbuckets M1" for b
      using that unfolding L by (simp add: sht_drain_def)
    ultimately show ?thesis by (simp add: uniq_def)
  qed
  moreover have "memo_FRehash C M = FRehash_loop C L False M1" using root d by (simp add: memo_FRehash_def)
  moreover have "m_pgroupRoot M1 = m_pgroupRoot M" "length L = length (sht_entries M)" by (simp_all add: L)
  moreover have sl: "same_links M M1" by (simp add: same_links_def L)
  moreover have "links M1 = links M" by (rule same_links_D(1) [OF sl])
  moreover have "same_links M1 M' \<Longrightarrow> same_links M M'" for M' using sl by (simp add: same_links_def)
  ultimately show ?thesis
    using FRehash_loop_correct [OF ch0 inv1, of False] ent by auto
qed

end

section \<open>Merging one group into its master\<close>

text \<open>What moving the first expression \<open>e\<close> of \<open>p\<close> to \<open>t\<close> changes.\<close>

definition moved :: "'op COperator_class \<Rightarrow> nat \<Rightarrow> nat \<Rightarrow> nat \<Rightarrow> nat list \<Rightarrow> ('op, 'p) CMemo \<Rightarrow> ('op, 'p) CMemo \<Rightarrow> bool" where
  "moved C e p t rest M M' \<longleftrightarrow>
     m_listGroups M' = m_listGroups M \<and> m_aul M' = m_aul M \<and> m_nbuckets M' = m_nbuckets M \<and> m_chain M' = m_chain M \<and>
     m_size M' = m_size M \<and> m_ngroups M' = m_ngroups M \<and> m_ngexprs M' = m_ngexprs M \<and> m_ulpGrps M' = m_ulpGrps M \<and>
     m_pgroupRoot M' = m_pgroupRoot M \<and>
     (\<forall>r. id_of M' r = id_of M r \<and> dup_of M' r = dup_of M r \<and> g_estate (m_group M' r) = g_estate (m_group M r) \<and>
          m_listDupGExprs (m_group M' r) = m_listDupGExprs (m_group M r)) \<and>
     (\<forall>r. gexprs_of M' r = (if r = p then rest else if r = t then gexprs_of M t @ [e] else gexprs_of M r)) \<and>
     (\<forall>r. m_ulGExprs (m_group M' r) = (if r = p then m_ulGExprs (m_group M p) - 1
                                       else if r = t then m_ulGExprs (m_group M t) + 1 else m_ulGExprs (m_group M r))) \<and>
     (\<forall>r. m_ulCTEProducerId (m_group M' r) =
        (if r = t \<and> producer C M e then the (op_UlCTEProducerId C (pop_of M e)) else m_ulCTEProducerId (m_group M r))) \<and>
     (\<forall>x. pop_of M' x = pop_of M x \<and> children M' x = children M x \<and>
          m_pdrgpgroupSorted (m_gexpr M' x) = m_pdrgpgroupSorted (m_gexpr M x) \<and>
          group_of M' x = (if x = e then Some t else group_of M x))"

lemma merge_step_moved:
  assumes "p \<noteq> t" and "gexprs_of M p = e # rest"
    and "producer C M e \<longrightarrow> m_ulCTEProducerId (m_group M t) = gpos_ulong_max"
  shows "\<exists>M'. g_merge_step C p t e rest M = Inr M' \<and> moved C e p t rest M M'"
proof (cases "producer C M e")
  case True
  then obtain i where i: "op_UlCTEProducerId C (pop_of M e) = Some i" by (auto simp: producer_def)
  show ?thesis using assms True i
    by (auto simp: g_merge_step_def g_Insert_def upd_group_def ge_Reset_def upd_gexpr_def Let_def moved_def producer_def)
next
  case False
  then show ?thesis using assms
    by (cases "op_FLogical C (pop_of M e)")
      (auto simp: g_merge_step_def g_Insert_def upd_group_def ge_Reset_def upd_gexpr_def Let_def moved_def producer_def)
qed

lemma moved_same_links: "moved C e p t rest M M' \<Longrightarrow> same_links M M' \<and> same_core M M'"
  by (simp add: moved_def same_links_def same_core_def)

lemma moved_lists:
  assumes mv: "moved C e p t rest M M'" and lists: "lists_ok M" and p: "p \<in> grps M" and t: "t \<in> grps M" and "p \<noteq> t"
    and l: "gexprs_of M p = e # rest"
  shows "lists_ok M'" and "registered M' = registered M" and "listed M' = listed M"
proof -
  have ok: "m_ulGExprs (m_group M r) = length (gexprs_of M r)"
    "distinct (gexprs_of M r)" "distinct (m_listDupGExprs (m_group M r))"
    "set (gexprs_of M r) \<inter> set (m_listDupGExprs (m_group M r)) = {}"
    "\<forall>x \<in> set (gexprs_of M r) \<union> set (m_listDupGExprs (m_group M r)). group_of M x = Some r" if "r \<in> grps M" for r
    using lists that by (simp_all add: lists_ok_def)
  have ge: "group_of M e = Some p" using ok(5) [OF p] l by simp
  have out: "e \<notin> set (gexprs_of M r) \<union> set (m_listDupGExprs (m_group M r))" if "r \<in> grps M" "r \<noteq> p" for r
    using ok(5) [OF that(1)] ge that(2) by auto
  have outp: "e \<notin> set rest \<union> set (m_listDupGExprs (m_group M p))" using ok(2,4) [OF p] l by auto
  have sel: "m_listGroups M' = m_listGroups M" using mv by (simp add: moved_def)
  show "lists_ok M'"
    unfolding lists_ok_def
  proof (intro ballI)
    fix r assume "r \<in> grps M'"
    then have r: "r \<in> grps M" by (simp add: sel)
    show "m_ulGExprs (m_group M' r) = length (gexprs_of M' r) \<and>
       distinct (gexprs_of M' r @ m_listDupGExprs (m_group M' r)) \<and>
       (\<forall>x \<in> set (gexprs_of M' r) \<union> set (m_listDupGExprs (m_group M' r)). group_of M' x = Some r)"
    proof (cases "r = p")
      case True
      then show ?thesis using ok [OF p] outp l mv by (auto simp: moved_def)
    next
      case False
      then show ?thesis using ok [OF r] out [OF r False] mv assms(5) by (cases "r = t") (auto simp: moved_def)
    qed
  qed
  have other: "gexprs_of M' r = gexprs_of M r" if "r \<noteq> p" "r \<noteq> t" for r using mv that by (simp add: moved_def)
  have pt: "gexprs_of M' p = rest" "gexprs_of M' t = gexprs_of M t @ [e]" using mv assms(5) by (simp_all add: moved_def)
  have split: "grps M = insert p (insert t (grps M - {p, t}))" using p t by auto
  have rest: "(\<Union>r \<in> grps M - {p, t}. set (gexprs_of M' r)) = (\<Union>r \<in> grps M - {p, t}. set (gexprs_of M r))"
    using other by auto
  have "(\<Union>r \<in> grps M. set (gexprs_of M' r)) = (\<Union>r \<in> grps M. set (gexprs_of M r))"
    by (subst (1 2) split) (simp only: UN_insert rest pt l, auto)
  then show li: "listed M' = listed M" by (simp add: listed_def sel)
  have "registered M' = listed M' \<union> (\<Union>r \<in> grps M. set (m_listDupGExprs (m_group M r)))"
    using mv by (auto simp: registered_def listed_def moved_def)
  also have "\<dots> = registered M" using li by (auto simp: registered_def listed_def)
  finally show "registered M' = registered M" .
qed

lemma moved_inv:
  assumes mv: "moved C e p t rest M M'" and inv: "merge_inv C M0 L M" and sg: "same_group M p t" and lt: "id_of M p < id_of M t"
    and l: "gexprs_of M p = e # rest"
  shows "merge_inv C M0 L M'"
proof -
  have core: "same_core M0 M" and lk: "links_ok M" and lists: "lists_ok M" and reg: "registered M = registered M0"
    and tab: "table_agrees L M" and sub: "set L \<union> live M \<subseteq> live M0" and snd: "sound C M0 M"
    and cpl: "complete C M0 (set L \<union> live M) M" and prod: "producers_ok C M0 M"
    using inv by (simp_all add: merge_inv_def)
  have p: "p \<in> grps M" "t \<in> grps M" "p \<noteq> t" using sg lt by (auto simp: same_group_def)
  note lists' = moved_lists [OF mv lists p l]
  have sl: "same_links M M'" and sc: "same_core M M'" using moved_same_links [OF mv] by auto
  note sd = same_links_D [OF sl]
  have core': "same_core M0 M'" using core sc by (rule same_core_trans)
  have ent: "sht_entries M' = sht_entries M" using mv by (simp add: moved_def sht_entries_def)
  have ge: "group_of M e = Some p" using lists p l by (auto simp: lists_ok_def)
  have gr: "group_of M' x = (if x = e then Some t else group_of M x)" for x using mv by (simp add: moved_def)
  have tab': "table_agrees L M'"
    using tab lists'(3) mv by (simp add: table_agrees_def ent live_def moved_def)
  have sub': "set L \<union> live M' \<subseteq> live M0" using sub by (simp add: live_def ent)
  have ct: "cong True C M0 p t" using soundD(1) [OF snd sg] .
  have rege: "e \<in> registered M0" using l p reg by (force simp: registered_def)
  have snd': "sound C M0 M'"
    unfolding sound_def
  proof (intro conjI allI impI ballI)
    show "cong True C M0 a b" if "same_group M' a b" for a b using that soundD(1) [OF snd] by (simp add: sd)
    fix x assume x: "x \<in> registered M0"
    obtain p0 p1 where p0: "group_of M0 x = Some p0" "group_of M x = Some p1" "cong True C M0 p0 p1"
      using snd x unfolding sound_def by blast
    show "\<exists>p0 p. group_of M0 x = Some p0 \<and> group_of M' x = Some p \<and> cong True C M0 p0 p"
      using p0 ge ct by (cases "x = e") (auto simp: gr intro: cong_trans)
  qed
  have "represents C M0 M' x g" if r: "represents C M0 M x g" for x g
  proof -
    obtain p0 p1 where p0: "group_of M0 x = Some p0" "group_of M g = Some p1" "same_group M p0 p1"
      using r by (auto simp: represents_def)
    have "\<exists>p2. group_of M' g = Some p2 \<and> same_group M' p0 p2"
      using p0 ge sg by (cases "g = e") (auto simp: gr sd intro: same_group_equiv(3))
    then show ?thesis
      using r p0(1) same_core_sel [OF sc] sd by (auto simp: represents_def list_all2_iff)
  qed
  then have cpl': "complete C M0 (set L \<union> live M') M'"
    using cpl unfolding complete_def sd live_def ent by blast
  have prod': "producers_ok C M0 M'"
    unfolding producers_ok_def
  proof (intro ballI impI)
    fix r assume "r \<in> grps M'" and f: "m_ulCTEProducerId (m_group M' r) \<noteq> gpos_ulong_max"
    then have r: "r \<in> grps M" using mv by (simp add: moved_def)
    have ids: "id_of M' x = id_of M x" for x using mv by (simp add: moved_def)
    show "\<exists>x \<in> registered M0. producer C M0 x \<and>
       (\<exists>p0 p1. group_of M0 x = Some p0 \<and> cong True C M0 p0 r \<and> group_of M' x = Some p1 \<and> id_of M' r \<le> id_of M' p1)"
    proof (cases "r = t \<and> producer C M e")
      case True
      have "producer C M0 e" using True same_core_sel(10) [OF core] by simp
      moreover obtain p0 where "group_of M0 e = Some p0" "cong True C M0 p0 p" using soundD(2) [OF snd rege ge] by blast
      ultimately show ?thesis using rege True ct by (auto simp: gr intro!: bexI [of _ e] intro: cong_trans)
    next
      case False
      then have "m_ulCTEProducerId (m_group M r) \<noteq> gpos_ulong_max" using f mv by (auto simp: moved_def)
      then obtain x p0 p1 where x: "x \<in> registered M0" "producer C M0 x" "group_of M0 x = Some p0" "cong True C M0 p0 r"
        "group_of M x = Some p1" "id_of M r \<le> id_of M p1"
        using prod r unfolding producers_ok_def by blast
      have "\<exists>p2. group_of M' x = Some p2 \<and> id_of M r \<le> id_of M p2"
        using x ge lt by (cases "x = e") (auto simp: gr)
      then show ?thesis using x ids by auto
    qed
  qed
  show ?thesis
    using core' sd(2) lk lists' reg tab' sub' snd' cpl' prod' by (simp add: merge_inv_def)
qed

lemma no_producer_clash:
  assumes one: "one_producer C M0" and inv: "merge_inv C M0 L M" and sg: "same_group M p t" and lt: "id_of M p < id_of M t"
    and e: "e \<in> set (gexprs_of M p)" and pe: "producer C M e"
  shows "m_ulCTEProducerId (m_group M t) = gpos_ulong_max"
proof (rule ccontr)
  assume f: "m_ulCTEProducerId (m_group M t) \<noteq> gpos_ulong_max"
  have core: "same_core M0 M" and lists: "lists_ok M" and reg: "registered M = registered M0" and snd: "sound C M0 M"
    and prod: "producers_ok C M0 M" using inv by (simp_all add: merge_inv_def)
  have p: "p \<in> grps M" "t \<in> grps M" using sg by (auto simp: same_group_def)
  have ge: "group_of M e = Some p" using lists p e by (auto simp: lists_ok_def)
  have rege: "e \<in> registered M0" using e p reg by (force simp: registered_def)
  obtain p0 where p0: "group_of M0 e = Some p0" "cong True C M0 p0 p" using soundD(2) [OF snd rege ge] by blast
  obtain x q0 q1 where x: "x \<in> registered M0" "producer C M0 x" "group_of M0 x = Some q0" "cong True C M0 q0 t"
    "group_of M x = Some q1" "id_of M t \<le> id_of M q1"
    using prod p f unfolding producers_ok_def by blast
  have "producer C M0 e" using pe same_core_sel(10) [OF core] by simp
  moreover have "cong True C M0 p0 q0"
    using p0(2) x(4) soundD(1) [OF snd sg] by (blast intro: cong_trans cong_sym)
  ultimately have "e = x" using one rege x p0(1) unfolding one_producer_def by blast
  then show False using x ge lt by auto
qed

lemma MergeGroup_loop_correct:
  assumes one: "one_producer C M0" and inv: "merge_inv C M0 L M" and sg: "same_group M p t" and lt: "id_of M p < id_of M t"
  shows "\<exists>M'. MergeGroup_loop C p t M = Some (Inr M') \<and> merge_inv C M0 L M' \<and> same_links M M' \<and> m_chain M' = m_chain M \<and>
    m_pgroupRoot M' = m_pgroupRoot M \<and> gexprs_of M' p = [] \<and> (\<forall>r. r \<noteq> p \<longrightarrow> r \<noteq> t \<longrightarrow> gexprs_of M' r = gexprs_of M r)"
  using inv sg lt
proof (induction "gexprs_of M p" arbitrary: M)
  case Nil
  have "p \<in> grps M" using Nil.prems(2) by (simp add: same_group_def)
  then have "m_ulGExprs (m_group M p) = 0" using Nil by (auto simp: merge_inv_def lists_ok_def)
  then show ?case using Nil by (subst MergeGroup_loop.simps) (simp add: same_links_def)
next
  case (Cons e rest)
  have l: "gexprs_of M p = e # rest" using Cons.hyps(2) by simp
  have ne: "p \<noteq> t" using Cons.prems(3) by auto
  have "producer C M e \<longrightarrow> m_ulCTEProducerId (m_group M t) = gpos_ulong_max"
    using no_producer_clash [OF one Cons.prems, of e] l by simp
  then obtain M1 where M1: "g_merge_step C p t e rest M = Inr M1" "moved C e p t rest M M1"
    using merge_step_moved [of p t M e rest C] ne l by blast
  have inv1: "merge_inv C M0 L M1" by (rule moved_inv [OF M1(2) Cons.prems l])
  have sl: "same_links M M1" using moved_same_links [OF M1(2)] by simp
  have "rest = gexprs_of M1 p" using M1(2) by (simp add: moved_def)
  moreover have "same_group M1 p t" "id_of M1 p < id_of M1 t"
    using Cons.prems same_links_D(3) [OF sl] sl by (simp_all add: same_links_def)
  ultimately obtain M' where M': "MergeGroup_loop C p t M1 = Some (Inr M')" "merge_inv C M0 L M'" "same_links M1 M'"
    "m_chain M' = m_chain M1" "m_pgroupRoot M' = m_pgroupRoot M1" "gexprs_of M' p = []"
    "\<forall>r. r \<noteq> p \<longrightarrow> r \<noteq> t \<longrightarrow> gexprs_of M' r = gexprs_of M1 r"
    using Cons.hyps(1) [of M1] inv1 by blast
  have "MergeGroup_loop C p t M = Some (Inr M')"
    using M'(1) M1(1) l by (subst MergeGroup_loop.simps) simp
  moreover have "same_links M M'" using sl M'(3) by (simp add: same_links_def)
  moreover have "m_chain M' = m_chain M" "m_pgroupRoot M' = m_pgroupRoot M"
    "\<forall>r. r \<noteq> p \<longrightarrow> r \<noteq> t \<longrightarrow> gexprs_of M' r = gexprs_of M r"
    using M' M1(2) by (simp_all add: moved_def)
  ultimately show ?case using M'(2,6) by blast
qed

section \<open>Merging all groups\<close>

lemma relink_inv:
  assumes inv: "merge_inv C M0 L M" and rel: "relinked M M'" and lk': "links_ok M'"
    and eq: "eqc (links M') = eqc (links M)"
  shows "merge_inv C M0 L M'"
proof -
  note sel = relinked_sel [OF rel]
  have lk: "links_ok M" using inv by (simp add: merge_inv_def)
  have sg: "same_group M' a b = same_group M a b" for a b
    unfolding same_group_iff [OF lk] same_group_iff [OF lk'] eq sel ..
  have ent: "sht_entries M' = sht_entries M" by (simp add: sht_entries_def sel)
  have "same_core M0 M' = same_core M0 M" by (simp add: same_core_def sel)
  moreover have "lists_ok M' = lists_ok M" by (simp add: lists_ok_def sel)
  moreover have "registered M' = registered M" by (simp add: registered_def sel)
  moreover have "table_agrees L M' = table_agrees L M" by (simp add: table_agrees_def listed_def live_def ent sel)
  moreover have "sound C M0 M' = sound C M0 M" by (simp add: sound_def sg sel)
  moreover have "represents C M0 M' e f = represents C M0 M e f" for e f
    by (simp add: represents_def sg sel in_order_def list_all2_iff)
  then have "complete C M0 E M' = complete C M0 E M" for E by (simp add: complete_def eq)
  moreover have "producers_ok C M0 M' = producers_ok C M0 M" by (simp add: producers_ok_def sel)
  ultimately show ?thesis using inv lk' by (simp add: merge_inv_def live_def ent)
qed

definition between :: "('op, 'p) CMemo \<Rightarrow> nat \<Rightarrow> bool" where
  "between M p \<longleftrightarrow> g_FExplored M p \<and> \<not> g_FImplemented M p"

definition settled_on :: "nat set \<Rightarrow> ('op, 'p) CMemo \<Rightarrow> bool" where
  "settled_on S M \<longleftrightarrow> (\<forall>p \<in> S. dup_of M p \<noteq> None \<longrightarrow> gexprs_of M p = [] \<and> dup_of M p = Some (master M p))"

lemma between_core: "same_core M0 M \<Longrightarrow> between M p = between M0 p"
  by (simp add: between_def g_FExplored_def g_FImplemented_def same_core_def)

lemma MergeGroup_correct:
  assumes one: "one_producer C M0" and btw: "\<forall>p \<in> grps M0. between M0 p"
    and inv: "merge_inv C M0 [] M" and p: "p \<in> grps M" and S: "settled_on S M" "S \<subseteq> grps M"
  shows "\<exists>M'. g_MergeGroup C p M = Some (Inr M') \<and> merge_inv C M0 [] M' \<and> m_chain M' = m_chain M \<and>
    m_pgroupRoot M' = m_pgroupRoot M \<and> settled_on (insert p S) M'"
proof (cases "dup_of M p")
  case None
  then show ?thesis using inv S by (auto simp: g_MergeGroup_def g_FDuplicateGroup_def settled_on_def)
next
  case (Some q)
  have core: "same_core M0 M" and lk: "links_ok M" using inv by (simp_all add: merge_inv_def)
  let ?t = "master M p"
  have "between M p" using btw p between_core [OF core] same_core_sel(1) [OF core] by simp
  then have start: "g_MergeGroup C p M = obind (g_ResolveDuplicateMaster p M) (\<lambda>M.
      case dup_of M p of None \<Rightarrow> Some (Inl NullDeref) | Some t \<Rightarrow> MergeGroup_loop C p t M)"
    using Some by (simp add: g_MergeGroup_def g_FDuplicateGroup_def between_def)
  obtain M1 where M1: "g_ResolveDuplicateMaster p M = Some (Inr M1)" "relinked M M1" "links_ok M1"
    "eqc (links M1) = eqc (links M)" "M1 = set_dup p ?t M"
    using ResolveDuplicateMaster_correct [OF lk p] Some by auto
  have inv1: "merge_inv C M0 [] M1" by (rule relink_inv [OF inv M1(2-4)])
  have ms: "master M1 r = master M r" if "r \<in> grps M" for r
    using M1(2-4) that by (intro links_eqc_master [OF lk]) (simp_all add: relinked_sel)
  have t: "?t \<in> grps M" using master_grps [OF lk p] .
  have idt: "id_of M p < id_of M ?t"
    using links_okD(2) [OF lk p Some] master_max [OF lk, of q] master_step [OF lk p Some] by simp
  have sg: "same_group M1 p ?t"
    using p t ms master_self [OF master_end [OF lk p]] by (simp add: same_group_def relinked_sel [OF M1(2)])
  obtain M2 where M2: "MergeGroup_loop C p ?t M1 = Some (Inr M2)" "merge_inv C M0 [] M2" "same_links M1 M2"
    "m_chain M2 = m_chain M1" "m_pgroupRoot M2 = m_pgroupRoot M1" "gexprs_of M2 p = []"
    "\<forall>r. r \<noteq> p \<longrightarrow> r \<noteq> ?t \<longrightarrow> gexprs_of M2 r = gexprs_of M1 r"
    using MergeGroup_loop_correct [OF one inv1 sg] idt by (auto simp: relinked_sel [OF M1(2)])
  have "settled_on (insert p S) M2"
    unfolding settled_on_def
  proof (intro ballI impI)
    fix r assume r: "r \<in> insert p S" and d: "dup_of M2 r \<noteq> None"
    have rg: "r \<in> grps M" using r p S(2) by auto
    have dup: "dup_of M2 r = (if r = p then Some ?t else dup_of M r)" using M2(3) by (simp add: same_links_def M1(5))
    have mr: "master M2 r = master M r" using same_links_D(4) [OF M2(3)] ms [OF rg] by simp
    show "gexprs_of M2 r = [] \<and> dup_of M2 r = Some (master M2 r)"
    proof (cases "r = p")
      case True
      then show ?thesis using M2(6) dup mr by simp
    next
      case False
      then have "dup_of M r \<noteq> None" using d dup by simp
      then have rt: "r \<noteq> ?t" using master_end [OF lk p] by auto
      have "gexprs_of M r = []" "dup_of M r = Some (master M r)" using S(1) r False \<open>dup_of M r \<noteq> None\<close> by (auto simp: settled_on_def)
      then show ?thesis using M2(7) False rt dup mr by (simp add: relinked_sel [OF M1(2)])
    qed
  qed
  moreover have "g_MergeGroup C p M = Some (Inr M2)"
  proof -
    have "dup_of M1 p = Some ?t" by (simp add: M1(5))
    then show ?thesis using start M1(1) M2(1) by simp
  qed
  ultimately show ?thesis using M2 by (auto simp: relinked_sel [OF M1(2)])
qed

lemma MergeGroups_correct:
  assumes one: "one_producer C M0" and btw: "\<forall>p \<in> grps M0. between M0 p"
    and inv: "merge_inv C M0 [] M" and ps: "set ps \<subseteq> grps M" and S: "settled_on S M" "S \<subseteq> grps M"
  shows "\<exists>M'. MergeGroups C ps M = Some (Inr M') \<and> merge_inv C M0 [] M' \<and> m_chain M' = m_chain M \<and>
    m_pgroupRoot M' = m_pgroupRoot M \<and> settled_on (set ps \<union> S) M'"
  using inv ps S
proof (induction ps arbitrary: M S)
  case Nil
  then show ?case by auto
next
  case (Cons p ps)
  obtain M1 where M1: "g_MergeGroup C p M = Some (Inr M1)" "merge_inv C M0 [] M1" "m_chain M1 = m_chain M"
    "m_pgroupRoot M1 = m_pgroupRoot M" "settled_on (insert p S) M1"
    using MergeGroup_correct [OF one btw Cons.prems(1) _ Cons.prems(3,4), of p] Cons.prems(2) by auto
  have g: "m_listGroups M1 = m_listGroups M" using M1(2) Cons.prems(1) by (simp add: merge_inv_def same_core_def)
  show ?case
    using Cons.IH [OF M1(2) _ M1(5)] M1 Cons.prems(2,4) by (auto simp: g)
qed

lemma root_update_inv:
  assumes inv: "merge_inv C M0 [] M" and r: "m_pgroupRoot M = Some r" "r \<in> grps M" and set: "settled M"
    and btw: "\<forall>p \<in> grps M0. between M0 p"
  shows "merge_inv C M0 [] (root_update M)" and "m_pgroupRoot (root_update M) = Some (master M r)"
    and "root_between (root_update M)" and "settled (root_update M)"
    and "sht_entries (root_update M) = sht_entries M"
proof -
  have lk: "links_ok M" and core: "same_core M0 M" using inv by (simp_all add: merge_inv_def)
  have ru: "root_update M = M\<lparr>m_pgroupRoot := Some (master M r)\<rparr>"
  proof (cases "dup_of M r")
    case None
    then show ?thesis using r master_self [of M r] by (simp add: root_update_def)
  next
    case (Some q)
    then show ?thesis using r set by (simp add: root_update_def settled_def)
  qed
  show ent: "sht_entries (root_update M) = sht_entries M" by (simp add: ru sht_entries_def)
  show "merge_inv C M0 [] (root_update M)"
    by (rule table_change_inv [OF inv])
      (use inv in \<open>simp_all add: ru merge_inv_def table_agrees_def sht_entries_def\<close>)
  show root: "m_pgroupRoot (root_update M) = Some (master M r)" by (simp add: ru)
  have "master M r \<in> grps M0" using master_grps [OF lk r(2)] same_core_sel(1) [OF core] by simp
  then have "between M0 (master M r)" using btw by blast
  then have "between M (master M r)" using between_core [OF core] by simp
  then show "root_between (root_update M)"
    by (simp add: root_between_def between_def g_FExplored_def g_FImplemented_def ru)
  have "same_links M (root_update M)" by (simp add: same_links_def ru)
  then have "master (root_update M) p = master M p" for p by (rule same_links_D)
  then show "settled (root_update M)" using set unfolding settled_def ru by simp
qed

context operator_laws
begin

lemma GroupMerge_round_correct:
  assumes ch0: "children_ok C M0" and one: "one_producer C M0" and btw: "\<forall>p \<in> grps M0. between M0 p"
    and inv: "merge_inv C M0 [] M" and r: "m_pgroupRoot M = Some r" "r \<in> grps M"
  shows "\<exists>fl M' r'. GroupMerge_round C M = Some (Inr (fl, M')) \<and> merge_inv C M0 [] M' \<and>
    m_pgroupRoot M' = Some r' \<and> r' \<in> grps M' \<and> same_group M' r r' \<and>
    (fl \<longrightarrow> length (sht_entries M') < length (sht_entries M)) \<and>
    (\<not> fl \<longrightarrow> settled M' \<and> uniq C M' \<and> dup_of M' r' = None)"
proof -
  obtain M1 where M1: "MergeGroups C (m_listGroups M) M = Some (Inr M1)" "merge_inv C M0 [] M1" "m_chain M1 = m_chain M"
    "m_pgroupRoot M1 = m_pgroupRoot M" "settled_on (grps M) M1"
    using MergeGroups_correct [OF one btw inv, of "m_listGroups M" "{}"] by (auto simp: settled_on_def)
  have core: "m_listGroups M1 = m_listGroups M" "m_nbuckets M1 = m_nbuckets M"
    using M1(2) inv by (simp_all add: merge_inv_def same_core_def)
  have set: "settled M1" using M1(5) by (simp add: settled_on_def settled_def core)
  have ent: "sht_entries M1 = sht_entries M" by (simp add: sht_entries_def M1(3) core)
  have r1: "m_pgroupRoot M1 = Some r" "r \<in> grps M1" using r M1(4) core by simp_all
  note ru = root_update_inv [OF M1(2) r1 set btw]
  have lk1: "links_ok M1" using M1(2) by (simp add: merge_inv_def)
  obtain fl M' where M': "memo_FRehash C (root_update M1) = Some (Inr (fl, M'))" "merge_inv C M0 [] M'"
    "m_pgroupRoot M' = m_pgroupRoot (root_update M1)" "eqc (links (root_update M1)) \<subseteq> eqc (links M')"
    "\<not> fl \<longrightarrow> same_links (root_update M1) M'"
    "fl \<longrightarrow> length (sht_entries M') < length (sht_entries (root_update M1))" "\<not> fl \<longrightarrow> settled M' \<and> uniq C M'"
    using FRehash_correct [OF ch0 ru(1,3,4)] by blast
  have slr: "same_links M1 (root_update M1)"
    by (auto simp: root_update_def same_links_def split: option.splits)
  have core': "m_listGroups M' = m_listGroups M1" using M'(2) M1(2) by (simp add: merge_inv_def same_core_def)
  have lk': "links_ok M'" using M'(2) by (simp add: merge_inv_def)
  have mg: "master M1 r \<in> grps M1" by (rule master_grps [OF lk1 r1(2)])
  have "(r, master M1 r) \<in> eqc (links M')"
    using master_eqc [OF lk1 r1(2)] M'(4) same_links_D(1) [OF slr] by auto
  then have sg: "same_group M' r (master M1 r)" using mg r1(2) by (simp add: same_group_iff [OF lk'] core')
  have "dup_of M' (master M1 r) = None" if "\<not> fl"
    using M'(5) that slr master_end [OF lk1 r1(2)] by (simp add: same_links_def)
  moreover have "GroupMerge_round C M = Some (Inr (fl, M'))" using M1(1) M'(1) by (simp add: GroupMerge_round_def)
  moreover have "m_pgroupRoot M' = Some (master M1 r)" using M'(3) ru(2) by simp
  moreover have "master M1 r \<in> grps M'" using mg core' by simp
  moreover have "fl \<longrightarrow> length (sht_entries M') < length (sht_entries M)" using M'(6) ru(5) ent by simp
  ultimately show ?thesis using M'(2,7) sg by blast
qed

text \<open>
  The merge ends: each round but the last takes an expression out of the table. What it computes
  lies between the two congruences.
\<close>

lemma GroupMerge_loop_correct:
  assumes ch0: "children_ok C M0" and one: "one_producer C M0" and btw: "\<forall>p \<in> grps M0. between M0 p"
    and inv: "merge_inv C M0 [] M" and r: "m_pgroupRoot M = Some r" "r \<in> grps M" "cong True C M0 r0 r"
  shows "\<exists>M' r'. GroupMerge_loop C M = Some (Inr M') \<and> merge_inv C M0 [] M' \<and> settled M' \<and> uniq C M' \<and>
    m_pgroupRoot M' = Some r' \<and> r' \<in> grps M' \<and> dup_of M' r' = None \<and> cong True C M0 r0 r'"
  using inv r
proof (induction "length (sht_entries M)" arbitrary: M r rule: less_induct)
  case less
  obtain fl M1 r1 where M1: "GroupMerge_round C M = Some (Inr (fl, M1))" "merge_inv C M0 [] M1"
    "m_pgroupRoot M1 = Some r1" "r1 \<in> grps M1" "same_group M1 r r1"
    "fl \<longrightarrow> length (sht_entries M1) < length (sht_entries M)"
    "\<not> fl \<longrightarrow> settled M1 \<and> uniq C M1 \<and> dup_of M1 r1 = None"
    using GroupMerge_round_correct [OF ch0 one btw less.prems(1-3)] by blast
  have "sound C M0 M1" using M1(2) by (simp add: merge_inv_def)
  then have c: "cong True C M0 r0 r1" using soundD(1) M1(5) less.prems(4) by (blast intro: cong_trans)
  show ?case
  proof (cases fl)
    case True
    have "GroupMerge_loop C M = GroupMerge_loop C M1"
      using M1(1) True by (subst GroupMerge_loop.simps) simp
    then show ?thesis using less.hyps [OF _ M1(2-4) c] M1(6) True by simp
  next
    case False
    have "GroupMerge_loop C M = Some (Inr M1)"
      using M1(1) False by (subst GroupMerge_loop.simps) simp
    then show ?thesis using M1 False c by blast
  qed
qed

lemma list_all2_same_hash:
  "list_all2 (same_group M) xs ys \<Longrightarrow>
   fold (\<lambda>p h. CombineHashes h (HashValue_ULONG (of_nat (id_of M (master M p))))) xs h =
   fold (\<lambda>p h. CombineHashes h (HashValue_ULONG (of_nat (id_of M (master M p))))) ys h"
  by (induction xs ys arbitrary: h rule: list_all2_induct) (auto simp: same_group_def)

lemma uniq_complete:
  assumes ch0: "children_ok C M0" and lk0: "links_ok M0" and inv: "merge_inv C M0 [] M" and set: "settled M"
    and u: "uniq C M" and pq: "cong False C M0 p q"
  shows "same_group M p q"
  using pq
proof (induction rule: cong.induct)
  case (cong_refl p)
  then show ?case using inv by (simp add: merge_inv_def same_core_def same_group_def)
next
  case (cong_sym p q)
  then show ?case by (blast intro: same_group_equiv)
next
  case (cong_trans p q r)
  then show ?case by (blast intro: same_group_equiv)
next
  case (cong_link p q)
  have lk: "links_ok M" and sub: "eqc (links M0) \<subseteq> eqc (links M)" using inv by (simp_all add: merge_inv_def complete_def)
  have pq: "(p, q) \<in> eqc (links M)" using eqc_base [OF cong_link] sub by blast
  have p: "p \<in> grps M0" "dup_of M0 p = Some q" using cong_link by (simp_all add: links_def)
  moreover have "q \<in> grps M0" using links_okD(2) [OF lk0 p] by simp
  moreover have "m_listGroups M = m_listGroups M0" using inv by (simp add: merge_inv_def same_core_def)
  ultimately show ?case using pq by (simp add: same_group_iff [OF lk])
next
  case (cong_gexpr e f p q ys)
  have core: "same_core M0 M" and lk: "links_ok M" and lists: "lists_ok M" and cpl: "complete C M0 (live M) M"
    using inv by (simp_all add: merge_inv_def)
  note sel = same_core_sel [OF core]
  have io: "in_order C M0 e" "ys = children M0 f" using cong_gexpr by auto
  have ch: "list_all2 (same_group M) (children M0 e) (children M0 f)"
    using cong_gexpr.IH unfolding io(2) by (rule list_all2_mono) simp
  then have len: "length (children M0 e) = length (children M0 f)" by (rule list_all2_lengthD)
  have iof: "in_order C M0 f" using in_order_Matches [OF cong_gexpr.hyps(5) len] io(1) by simp
  obtain e' where e': "e' \<in> live M" "represents C M0 M e e'" using cpl cong_gexpr.hyps(1) by (auto simp: complete_def)
  obtain f' where f': "f' \<in> live M" "represents C M0 M f f'" using cpl cong_gexpr.hyps(2) by (auto simp: complete_def)
  have sy: "list_all2 (same_group M) ys xs" if "list_all2 (same_group M) xs ys" for xs ys
    using that by (induction rule: list_all2_induct) (auto simp: same_group_def)
  have "list_all2 (same_group M) (children M0 e) (children M e')"
    using e'(2) io(1) by (simp add: represents_def sel)
  then have ce: "list_all2 (same_group M) (children M e') (children M0 e)" by (rule sy)
  have cf: "list_all2 (same_group M) (children M0 f) (children M f')"
    using f'(2) iof by (simp add: represents_def sel)
  have tr: "list_all2 (same_group M) xs zs" if "list_all2 (same_group M) xs ys" "list_all2 (same_group M) ys zs" for xs ys zs
    using list_all2_trans [OF _ that] same_group_equiv(3) by blast
  have cef: "list_all2 (same_group M) (children M e') (children M f')" by (rule tr [OF ce tr [OF ch cf]])
  have op: "op_Matches C (pop_of M0 e) (pop_of M e')" "op_Matches C (pop_of M0 f) (pop_of M f')"
    using e'(2) f'(2) by (simp_all add: represents_def sel)
  have opef: "op_Matches C (pop_of M e') (pop_of M f')"
    using op cong_gexpr.hyps(5) by (blast intro: Matches_sym Matches_trans)
  have che: "set (children M e') \<subseteq> grps M" "set (children M f') \<subseteq> grps M"
    using merge_inv_children [OF ch0 inv] e'(1) f'(1) by simp_all
  have "in_order C M e'"
    using in_order_Matches [of M e e'] op(1) e'(2) io(1) by (simp add: represents_def sel)
  moreover have "list_all2 (g_FDuplicateGroups M) (children M e') (children M f')"
    using cef
  proof (rule list.rel_mono_strong)
    fix a b assume "a \<in> set (children M e')" "b \<in> set (children M f')" "same_group M a b"
    then show "g_FDuplicateGroups M a b" using settled_duplicates [OF set lk, of a b] che by blast
  qed
  ultimately have m: "matches C M e' f'" using opef list_all2_lengthD [OF cef] by (simp add: matches_def)
  have "ge_HashValue C M e' = ge_HashValue C M f'"
    using settled_gexpr_hash [OF set lk lists che(1)] settled_gexpr_hash [OF set lk lists che(2)]
      list_all2_same_hash [OF cef] Matches_hash [OF opef] by (simp add: master_hash_def)
  then have "e' = f'" using u m e'(1) f'(1) by (simp add: uniq_def sht_GetBucketIndex_def)
  obtain pe where pe: "group_of M e' = Some pe" "same_group M p pe" using e'(2) cong_gexpr.hyps(3) by (auto simp: represents_def)
  obtain qf where qf: "group_of M f' = Some qf" "same_group M q qf" using f'(2) cong_gexpr.hyps(4) by (auto simp: represents_def)
  show ?case using pe qf \<open>e' = f'\<close> by (auto simp: same_group_def)
qed

end

section \<open>The whole merge\<close>

definition merge_ready :: "'op COperator_class \<Rightarrow> ('op, 'p) CMemo \<Rightarrow> bool" where
  "merge_ready C M \<longleftrightarrow> links_ok M \<and> lists_ok M \<and> table_agrees [] M \<and> children_ok C M \<and> one_producer C M \<and>
     (\<forall>p \<in> grps M. between M p) \<and> (\<exists>r \<in> grps M. m_pgroupRoot M = Some r) \<and>
     (\<forall>p \<in> grps M. m_ulCTEProducerId (m_group M p) \<noteq> gpos_ulong_max \<longrightarrow>
        (\<exists>e \<in> set (gexprs_of M p) \<union> set (m_listDupGExprs (m_group M p)). producer C M e))"

lemma links_cong: "links_ok M \<Longrightarrow> same_group M p q \<Longrightarrow> cong perm C M p q"
proof -
  assume lk: "links_ok M" and sg: "same_group M p q"
  have "links M \<subseteq> {(a, b). cong perm C M a b}" by (auto intro: cong_link)
  moreover have "sym {(a, b). cong perm C M a b}" "trans {(a, b). cong perm C M a b}"
    by (auto simp: sym_def trans_def intro: cong_sym cong_trans)
  moreover have "(p, q) \<in> eqc (links M)" using sg lk by (simp add: same_group_iff)
  ultimately have "p = q \<or> cong perm C M p q" using eqc_least [of "links M" "{(a, b). cong perm C M a b}" p q] by auto
  then show ?thesis using sg by (auto simp: same_group_def intro: cong_refl)
qed

context operator_laws
begin

lemma merge_ready_inv:
  assumes "merge_ready C M"
  shows "merge_inv C M [] M"
proof -
  have lk: "links_ok M" and lists: "lists_ok M" and tab: "table_agrees [] M"
    and pr: "\<forall>p \<in> grps M. m_ulCTEProducerId (m_group M p) \<noteq> gpos_ulong_max \<longrightarrow>
        (\<exists>e \<in> set (gexprs_of M p) \<union> set (m_listDupGExprs (m_group M p)). producer C M e)"
    using assms by (simp_all add: merge_ready_def)
  have owner: "\<exists>p \<in> grps M. group_of M e = Some p" if "e \<in> registered M" for e
    using that lists by (auto simp: registered_def lists_ok_def)
  have "sound C M M"
    unfolding sound_def using links_cong [OF lk] owner by (fastforce intro: cong_refl)
  moreover have "complete C M (live M) M"
  proof -
    have "represents C M M e e" if e: "e \<in> live M" for e
    proof -
      have reg: "e \<in> registered M" using e tab listed_registered by (auto simp: table_agrees_def)
      have "set (children M e) \<subseteq> grps M" using assms reg by (simp add: merge_ready_def children_ok_def)
      then have "list_all2 (same_group M) (children M e) (children M e)"
        by (auto simp: list_all2_same intro: same_group_equiv)
      then show ?thesis using owner [OF reg] Matches_refl by (auto simp: represents_def intro: same_group_equiv)
    qed
    then show ?thesis by (auto simp: complete_def)
  qed
  moreover have "producers_ok C M M"
    unfolding producers_ok_def
  proof (intro ballI impI)
    fix p assume p: "p \<in> grps M" and f: "m_ulCTEProducerId (m_group M p) \<noteq> gpos_ulong_max"
    then obtain e where e: "e \<in> set (gexprs_of M p) \<union> set (m_listDupGExprs (m_group M p))" "producer C M e"
      using pr by blast
    then have "e \<in> registered M" "group_of M e = Some p" using p lists by (auto simp: registered_def lists_ok_def)
    then show "\<exists>e \<in> registered M. producer C M e \<and>
       (\<exists>p0 p1. group_of M e = Some p0 \<and> cong True C M p0 p \<and> group_of M e = Some p1 \<and> id_of M p \<le> id_of M p1)"
      using e(2) p by (intro bexI [of _ e]) (auto intro: cong_refl)
  qed
  ultimately show ?thesis using lk lists tab by (simp add: merge_inv_def)
qed

lemma GroupMerge_correct:
  assumes "merge_ready C M"
  shows "\<exists>M' r r'. memo_GroupMerge C M = Some (Inr M') \<and> merge_inv C M [] M' \<and> settled M' \<and> uniq C M' \<and>
    m_pgroupRoot M = Some r \<and> m_pgroupRoot M' = Some r' \<and> dup_of M' r' = None \<and> cong True C M r r' \<and>
    (\<forall>p q. cong False C M p q \<longrightarrow> same_group M' p q) \<and> (\<forall>p q. same_group M' p q \<longrightarrow> cong True C M p q)"
proof -
  have ch: "children_ok C M" and one: "one_producer C M" and btw: "\<forall>p \<in> grps M. between M p" and lk: "links_ok M"
    using assms by (simp_all add: merge_ready_def)
  obtain r where r: "m_pgroupRoot M = Some r" "r \<in> grps M" using assms by (auto simp: merge_ready_def)
  note inv = merge_ready_inv [OF assms]
  obtain M' r' where M': "GroupMerge_loop C M = Some (Inr M')" "merge_inv C M [] M'" "settled M'" "uniq C M'"
    "m_pgroupRoot M' = Some r'" "r' \<in> grps M'" "dup_of M' r' = None" "cong True C M r r'"
    using GroupMerge_loop_correct [OF ch one btw inv r cong_refl [OF r(2)]] by blast
  have "root_between M" using btw r by (auto simp: root_between_def between_def)
  then have "memo_GroupMerge C M = Some (Inr M')" using M'(1) by (simp add: memo_GroupMerge_def)
  moreover have "cong False C M p q \<longrightarrow> same_group M' p q" for p q
    using uniq_complete [OF ch lk M'(2-4)] by blast
  moreover have "same_group M' p q \<longrightarrow> cong True C M p q" for p q
    using M'(2) soundD(1) by (auto simp: merge_inv_def)
  ultimately show ?thesis using M' r by blast
qed

end

text \<open>Where the order of all children matters, the two congruences are one.\<close>

lemma cong_in_order:
  assumes "\<forall>e \<in> live M. in_order C M e"
  shows "cong True C M p q \<longleftrightarrow> cong False C M p q"
proof
  show "cong True C M p q \<Longrightarrow> cong False C M p q"
  proof (induction rule: cong.induct)
    case (cong_gexpr e f p q ys)
    have "list_all2 (cong False C M) (children M e) ys"
      using cong_gexpr.IH by (rule list_all2_mono) simp
    then show ?case using cong_gexpr assms by (intro cong.cong_gexpr [where e = e and f = f and ys = ys]) auto
  qed (auto intro: cong_refl cong_link dest: cong_sym cong_trans)
  show "cong False C M p q \<Longrightarrow> cong True C M p q"
  proof (induction rule: cong.induct)
    case (cong_gexpr e f p q ys)
    have "list_all2 (cong True C M) (children M e) ys"
      using cong_gexpr.IH by (rule list_all2_mono) simp
    then show ?case using cong_gexpr by (intro cong.cong_gexpr [where e = e and f = f and ys = ys]) auto
  qed (auto intro: cong_refl cong_link dest: cong_sym cong_trans)
qed

text \<open>
  C2: In a memo whose operators are all sensitive to the order of their children (or have at most one
  child) group merging computes the congruence closure exactly.
\<close>

theorem GroupMerge_exact:
  assumes "operator_laws C" and "merge_ready C M" and "\<forall>e \<in> live M. in_order C M e"
  shows "\<exists>M'. memo_GroupMerge C M = Some (Inr M') \<and> (\<forall>p q. same_group M' p q \<longleftrightarrow> cong False C M p q)"
  using operator_laws.GroupMerge_correct [OF assms(1,2)] cong_in_order [OF assms(3)] by blast

end
