(* ===== verification/MemoInsert.thy ===== *)
theory MemoInsert
  imports MemoMerge
begin

text \<open>
  Insertion into the memo while it is explored. The invariant \<open>memo_ok\<close> says that groups are numbered in the
  order of creation, that every group has an expression, that the lists of groups and the hash table hold the
  same expressions, each in the bucket of its hash value, and that a scalar group has one expression and
  its scalar representation. Inserting a well-formed expression succeeds, keeps the invariant and
  everything that was in the memo, and an expression that is already there is found again.
\<close>

section \<open>The invariant of exploration\<close>

abbreviation rep_of :: "('op, 'p) CMemo \<Rightarrow> nat \<Rightarrow> 'op CExpression option" where
  "rep_of M p \<equiv> m_pexprScalarRep (m_group M p)"

definition buckets_ok :: "'op COperator_class \<Rightarrow> ('op, 'p) CMemo \<Rightarrow> bool" where
  "buckets_ok C M \<longleftrightarrow> (\<forall>b < m_nbuckets M. \<forall>e \<in> set (m_chain M b). sht_GetBucketIndex C M e = b)"

definition numbered :: "('op, 'p) CMemo \<Rightarrow> bool" where
  "numbered M \<longleftrightarrow> map (id_of M) (m_listGroups M) = rev [0..<m_aul M] \<and> m_ulpGrps M = m_aul M"

definition groups_ok :: "'op COperator_class \<Rightarrow> ('op, 'p) CMemo \<Rightarrow> bool" where
  "groups_ok C M \<longleftrightarrow> (\<forall>p \<in> grps M. p < m_ngroups M \<and> gexprs_of M p \<noteq> [] \<and> m_listDupGExprs (m_group M p) = [] \<and>
     m_pdp (m_group M p) \<noteq> None \<and>
     (\<forall>e \<in> set (gexprs_of M p). e < m_ngexprs M \<and> op_FScalar C (pop_of M e) = m_fScalar (m_group M p)))"

definition scalar_rep_ok :: "'op COperator_class \<Rightarrow> ('op, 'p) CMemo \<Rightarrow> nat \<Rightarrow> bool" where
  "scalar_rep_ok C M p \<longleftrightarrow> m_pccDummy (m_group M p) \<and> (\<exists>e. gexprs_of M p = [e] \<and>
     (case op_SubqueryDummy C (pop_of M e) of
        Some d \<Rightarrow> rep_of M p = Some (CExpression d None []) \<and> \<not> m_pexprScalarRepIsExact (m_group M p)
      | None \<Rightarrow> (\<forall>c \<in> set (children M e). m_fScalar (m_group M c) \<and> rep_of M c \<noteq> None) \<and>
          rep_of M p = Some (CExpression (pop_of M e) None (map (\<lambda>c. the (rep_of M c)) (children M e))) \<and>
          m_pexprScalarRepIsExact (m_group M p) = (\<forall>c \<in> set (children M e). m_pexprScalarRepIsExact (m_group M c))))"

definition producers_listed :: "'op COperator_class \<Rightarrow> ('op, 'p) CMemo \<Rightarrow> bool" where
  "producers_listed C M \<longleftrightarrow> (\<forall>p \<in> grps M. m_ulCTEProducerId (m_group M p) \<noteq> gpos_ulong_max \<longrightarrow>
     (\<exists>e \<in> set (gexprs_of M p). producer C M e))"

text \<open>As long as no groups are duplicates, no two expressions in one bucket match.\<close>

definition keys_ok :: "'op COperator_class \<Rightarrow> ('op, 'p) CMemo \<Rightarrow> bool" where
  "keys_ok C M \<longleftrightarrow> (\<forall>p \<in> grps M. dup_of M p = None) \<longrightarrow> (\<forall>e \<in> live M. \<forall>f \<in> live M.
     sht_GetBucketIndex C M e = sht_GetBucketIndex C M f \<longrightarrow> matches C M e f \<longrightarrow> e = f)"

definition memo_ok :: "'op COperator_class \<Rightarrow> ('op, 'p) CMemo \<Rightarrow> bool" where
  "memo_ok C M \<longleftrightarrow> links_ok M \<and> lists_ok M \<and> table_agrees [] M \<and> children_ok C M \<and> numbered M \<and> groups_ok C M \<and>
     buckets_ok C M \<and> producers_listed C M \<and> keys_ok C M \<and> (\<forall>p \<in> grps M. m_fScalar (m_group M p) \<longrightarrow> scalar_rep_ok C M p)"

lemma memo_okD:
  assumes "memo_ok C M"
  shows "links_ok M" "lists_ok M" "table_agrees [] M" "children_ok C M" "numbered M" "groups_ok C M" "buckets_ok C M"
    "producers_listed C M" "keys_ok C M" "p \<in> grps M \<Longrightarrow> m_fScalar (m_group M p) \<Longrightarrow> scalar_rep_ok C M p"
  using assms by (simp_all add: memo_ok_def)

lemma memo_ok_live: "memo_ok C M \<Longrightarrow> live M = registered M"
  by (auto simp: memo_ok_def table_agrees_def groups_ok_def listed_def registered_def)

lemma memo_ok_registered:
  assumes "memo_ok C M" and "e \<in> registered M"
  shows "\<exists>p \<in> grps M. group_of M e = Some p \<and> e \<in> set (gexprs_of M p)" and "e < m_ngexprs M"
    and "set (children M e) \<subseteq> grps M" and "sorted_ok C M e"
proof -
  obtain p where p: "p \<in> grps M" "e \<in> set (gexprs_of M p) \<union> set (m_listDupGExprs (m_group M p))"
    using assms(2) by (auto simp: registered_def)
  then have l: "e \<in> set (gexprs_of M p)" using memo_okD(6) [OF assms(1)] by (auto simp: groups_ok_def)
  then have "group_of M e = Some p" using p memo_okD(2) [OF assms(1)] by (simp add: lists_ok_def)
  then show "\<exists>p \<in> grps M. group_of M e = Some p \<and> e \<in> set (gexprs_of M p)" using p l by blast
  show "e < m_ngexprs M" using p l memo_okD(6) [OF assms(1)] by (auto simp: groups_ok_def)
  show "set (children M e) \<subseteq> grps M" "sorted_ok C M e"
    using assms(2) memo_okD(4) [OF assms(1)] by (simp_all add: children_ok_def)
qed

lemma memo_ok_count:
  assumes "memo_ok C M" and "p \<in> grps M"
  shows "m_ulGExprs (m_group M p) \<noteq> 0" and "p < m_ngroups M" and "gexprs_of M p \<noteq> []"
  using memo_okD(2,6) [OF assms(1)] assms(2) by (auto simp: lists_ok_def groups_ok_def)

text \<open>A group with expressions hashes to its id.\<close>

definition id_hash :: "'op COperator_class \<Rightarrow> ('op, 'p) CMemo \<Rightarrow> 'op \<Rightarrow> nat list \<Rightarrow> ULONG" where
  "id_hash C M pop cs =
     fold (\<lambda>p h. CombineHashes h (HashValue_ULONG (of_nat (id_of M p)))) cs (op_HashValue C pop)"

lemma fold_hash_cong:
  "(\<And>p. p \<in> set ps \<Longrightarrow> f p = g p) \<Longrightarrow> fold (\<lambda>p h. CombineHashes h (f p)) ps h = fold (\<lambda>p h. CombineHashes h (g p)) ps h"
  by (induction ps arbitrary: h) auto

lemma ge_HashValue_ids:
  assumes "\<And>p. p \<in> set (children M e) \<Longrightarrow> m_ulGExprs (m_group M p) \<noteq> 0"
  shows "ge_HashValue C M e = id_hash C M (pop_of M e) (children M e)"
  unfolding ge_HashValue_def id_hash_def
  by (rule fold_hash_cong) (simp add: g_HashValue_def assms Let_def)

lemma id_hash_cong: "(\<And>p. p \<in> set cs \<Longrightarrow> id_of M' p = id_of M p) \<Longrightarrow> id_hash C M' pop cs = id_hash C M pop cs"
  unfolding id_hash_def by (rule fold_hash_cong) simp

lemma bucket_eq:
  assumes "set (children M e) \<subseteq> grps M" and "m_nbuckets M' = m_nbuckets M" and "pop_of M' e = pop_of M e"
    and "children M' e = children M e" and "\<And>p. p \<in> grps M \<Longrightarrow> id_of M' p = id_of M p"
    and "\<And>p. p \<in> grps M \<Longrightarrow> m_ulGExprs (m_group M p) \<noteq> 0 \<and> m_ulGExprs (m_group M' p) \<noteq> 0"
  shows "sht_GetBucketIndex C M' e = sht_GetBucketIndex C M e"
proof -
  have "ge_HashValue C M e = id_hash C M (pop_of M e) (children M e)"
    using assms(1,6) by (intro ge_HashValue_ids) auto
  moreover have "ge_HashValue C M' e = id_hash C M' (pop_of M' e) (children M' e)"
    using assms(1,4,6) by (intro ge_HashValue_ids) auto
  moreover have "id_hash C M' (pop_of M e) (children M e) = id_hash C M (pop_of M e) (children M e)"
    using assms(1,5) by (intro id_hash_cong) auto
  ultimately show ?thesis using assms(2-4) by (simp add: sht_GetBucketIndex_def)
qed

lemma matches_eq:
  assumes "set (children M e) \<subseteq> grps M" and "set (children M f) \<subseteq> grps M" and "\<And>p. p \<in> grps M \<Longrightarrow> dup_of M' p = dup_of M p"
    and "pop_of M' e = pop_of M e" and "pop_of M' f = pop_of M f"
    and "children M' e = children M e" and "children M' f = children M f"
  shows "matches C M' e f = matches C M e f"
proof -
  have g: "g_FDuplicateGroups M' a b = g_FDuplicateGroups M a b" if "a \<in> grps M" "b \<in> grps M" for a b
    using assms(3) that by (simp add: g_FDuplicateGroups_def)
  have l: "list_all2 (g_FDuplicateGroups M') xs ys = list_all2 (g_FDuplicateGroups M) xs ys"
    if "set xs \<subseteq> grps M" "set ys \<subseteq> grps M" for xs ys
    using that g by (intro list.rel_cong) auto
  show ?thesis using assms(1,2) l by (simp add: matches_def in_order_def assms(4-7))
qed

section \<open>What insertion keeps\<close>

text \<open>\<open>M'\<close> has everything of \<open>M\<close>; groups may have gained expressions.\<close>

definition keeps :: "('op, 'p) CMemo \<Rightarrow> ('op, 'p) CMemo \<Rightarrow> bool" where
  "keeps M M' \<longleftrightarrow> m_nbuckets M' = m_nbuckets M \<and> m_pgroupRoot M' = m_pgroupRoot M \<and>
     m_ngroups M \<le> m_ngroups M' \<and> m_ngexprs M \<le> m_ngexprs M' \<and>
     (\<exists>ps. m_listGroups M' = ps @ m_listGroups M \<and> (\<forall>p \<in> set ps. m_ngroups M \<le> p \<and> p < m_ngroups M' \<and> dup_of M' p = None \<and>
        g_estate (m_group M' p) = estUnexplored)) \<and>
     (\<forall>b. \<exists>es. m_chain M' b = es @ m_chain M b \<and> (\<forall>e \<in> set es. m_ngexprs M \<le> e)) \<and>
     (\<forall>e < m_ngexprs M. m_gexpr M' e = m_gexpr M e) \<and>
     (\<forall>p < m_ngroups M. id_of M' p = id_of M p \<and> dup_of M' p = dup_of M p \<and> rep_of M' p = rep_of M p \<and>
        m_fScalar (m_group M' p) = m_fScalar (m_group M p) \<and> m_pdp (m_group M' p) = m_pdp (m_group M p) \<and>
        m_pexprScalarRepIsExact (m_group M' p) = m_pexprScalarRepIsExact (m_group M p) \<and>
        g_estate (m_group M' p) = g_estate (m_group M p) \<and>
        (\<exists>es. gexprs_of M' p = gexprs_of M p @ es \<and> (\<forall>e \<in> set es. m_ngexprs M \<le> e)))"

lemma keeps_refl [simp]: "keeps M M"
  by (simp add: keeps_def)

lemma keepsD:
  assumes "keeps M M'"
  shows "m_nbuckets M' = m_nbuckets M" "m_pgroupRoot M' = m_pgroupRoot M" "m_ngroups M \<le> m_ngroups M'"
    "m_ngexprs M \<le> m_ngexprs M'" "e < m_ngexprs M \<Longrightarrow> m_gexpr M' e = m_gexpr M e"
    "p < m_ngroups M \<Longrightarrow> id_of M' p = id_of M p" "p < m_ngroups M \<Longrightarrow> dup_of M' p = dup_of M p"
    "p < m_ngroups M \<Longrightarrow> rep_of M' p = rep_of M p" "p < m_ngroups M \<Longrightarrow> m_fScalar (m_group M' p) = m_fScalar (m_group M p)"
    "p < m_ngroups M \<Longrightarrow> m_pexprScalarRepIsExact (m_group M' p) = m_pexprScalarRepIsExact (m_group M p)"
    "p < m_ngroups M \<Longrightarrow> g_estate (m_group M' p) = g_estate (m_group M p)"
    "p < m_ngroups M \<Longrightarrow> m_pdp (m_group M' p) = m_pdp (m_group M p)"
    "p < m_ngroups M \<Longrightarrow> \<exists>es. gexprs_of M' p = gexprs_of M p @ es \<and> (\<forall>e \<in> set es. m_ngexprs M \<le> e)"
    "\<exists>es. m_chain M' b = es @ m_chain M b \<and> (\<forall>e \<in> set es. m_ngexprs M \<le> e)"
    "\<exists>ps. m_listGroups M' = ps @ m_listGroups M \<and> (\<forall>p \<in> set ps. m_ngroups M \<le> p \<and> p < m_ngroups M' \<and> dup_of M' p = None \<and>
        g_estate (m_group M' p) = estUnexplored)"
  using assms by (simp_all add: keeps_def)

lemma keeps_trans:
  assumes k1: "keeps M1 M2" and k2: "keeps M2 M3"
  shows "keeps M1 M3"
proof -
  note d1 = keepsD [OF k1] and d2 = keepsD [OF k2]
  obtain ps where ps: "m_listGroups M2 = ps @ m_listGroups M1"
    "\<forall>p \<in> set ps. m_ngroups M1 \<le> p \<and> p < m_ngroups M2 \<and> dup_of M2 p = None \<and> g_estate (m_group M2 p) = estUnexplored"
    using d1(15) by blast
  obtain qs where qs: "m_listGroups M3 = qs @ m_listGroups M2"
    "\<forall>p \<in> set qs. m_ngroups M2 \<le> p \<and> p < m_ngroups M3 \<and> dup_of M3 p = None \<and> g_estate (m_group M3 p) = estUnexplored"
    using d2(15) by blast
  have "m_listGroups M3 = (qs @ ps) @ m_listGroups M1" using ps qs by simp
  moreover have "\<forall>p \<in> set (qs @ ps). m_ngroups M1 \<le> p \<and> p < m_ngroups M3 \<and> dup_of M3 p = None \<and>
      g_estate (m_group M3 p) = estUnexplored"
    using ps(2) qs(2) d1(3) d2(3,7,11) by fastforce
  ultimately have lists: "\<exists>rs. m_listGroups M3 = rs @ m_listGroups M1 \<and> (\<forall>p \<in> set rs. m_ngroups M1 \<le> p \<and>
      p < m_ngroups M3 \<and> dup_of M3 p = None \<and> g_estate (m_group M3 p) = estUnexplored)" by blast
  have chains: "\<exists>es. m_chain M3 b = es @ m_chain M1 b \<and> (\<forall>e \<in> set es. m_ngexprs M1 \<le> e)" for b
  proof -
    obtain es where es: "m_chain M2 b = es @ m_chain M1 b" "\<forall>e \<in> set es. m_ngexprs M1 \<le> e" using d1(14) [of b] by blast
    obtain fs where fs: "m_chain M3 b = fs @ m_chain M2 b" "\<forall>e \<in> set fs. m_ngexprs M2 \<le> e" using d2(14) [of b] by blast
    show ?thesis using es fs d1(4) by (intro exI [of _ "fs @ es"]) auto
  qed
  have gexprs: "\<exists>es. gexprs_of M3 p = gexprs_of M1 p @ es \<and> (\<forall>e \<in> set es. m_ngexprs M1 \<le> e)" if p: "p < m_ngroups M1" for p
  proof -
    obtain es where es: "gexprs_of M2 p = gexprs_of M1 p @ es" "\<forall>e \<in> set es. m_ngexprs M1 \<le> e" using d1(13) [OF p] by blast
    obtain fs where fs: "gexprs_of M3 p = gexprs_of M2 p @ fs" "\<forall>e \<in> set fs. m_ngexprs M2 \<le> e"
      using d2(13) [of p] p d1(3) by auto
    show ?thesis using es fs d1(4) by (intro exI [of _ "es @ fs"]) auto
  qed
  show ?thesis
    unfolding keeps_def using lists chains gexprs d1(1-12) d2(1-12) by auto
qed

section \<open>Entering an expression into the table and a group\<close>

definition entered :: "'op COperator_class \<Rightarrow> nat \<Rightarrow> nat \<Rightarrow> ('op, 'p) CMemo \<Rightarrow> ('op, 'p) CMemo \<Rightarrow> bool" where
  "entered C e p M M' \<longleftrightarrow> (\<exists>X G. M' = M\<lparr>m_gexpr := (m_gexpr M)(e := X), m_group := (m_group M)(p := G),
       m_chain := (m_chain M)(sht_GetBucketIndex C M e := e # m_chain M (sht_GetBucketIndex C M e)), m_size := m_size M + 1\<rparr> \<and>
     m_pop X = pop_of M e \<and> m_pdrgpgroup X = children M e \<and> m_pdrgpgroupSorted X = m_pdrgpgroupSorted (m_gexpr M e) \<and>
     m_pgroup X = Some p \<and> g_id G = id_of M p \<and> m_fScalar G = m_fScalar (m_group M p) \<and> m_pdp G = m_pdp (m_group M p) \<and>
     m_pexprScalarRep G = rep_of M p \<and> m_pexprScalarRepIsExact G = m_pexprScalarRepIsExact (m_group M p) \<and>
     m_pccDummy G = m_pccDummy (m_group M p) \<and> m_pgroupDuplicate G = dup_of M p \<and> g_estate G = g_estate (m_group M p) \<and>
     m_listGExprs G = gexprs_of M p @ [e] \<and> m_listDupGExprs G = m_listDupGExprs (m_group M p) \<and>
     m_ulGExprs G = m_ulGExprs (m_group M p) + 1 \<and>
     m_ulCTEProducerId G =
       (if producer C M e then the (op_UlCTEProducerId C (pop_of M e)) else m_ulCTEProducerId (m_group M p)))"

lemma SetOptimizationLevel_effect:
  assumes "op_FPhysicalSequence C (pop_of M e) \<Longrightarrow> children M e \<noteq> []"
    and "\<And>c. c \<in> set (children M e) \<Longrightarrow> m_ulGExprs (m_group M c) \<noteq> 0"
  shows "\<exists>eol. ge_SetOptimizationLevel C e M = Inr (M\<lparr>m_gexpr := (m_gexpr M)(e := (m_gexpr M e)\<lparr>m_eol := eol\<rparr>)\<rparr>)"
proof -
  have same: "M = M\<lparr>m_gexpr := (m_gexpr M)(e := (m_gexpr M e)\<lparr>m_eol := m_eol (m_gexpr M e)\<rparr>)\<rparr>" by simp
  have "ge_SetOptimizationLevel C e M = Inr M \<or>
    ge_SetOptimizationLevel C e M = Inr (upd_gexpr e (\<lambda>x. x\<lparr>m_eol := EolHigh\<rparr>) M)"
  proof (cases "op_FPhysicalSequence C (pop_of M e)")
    case True
    then obtain c cs where "children M e = c # cs" using assms(1) by (cases "children M e") auto
    then have "ge_child M e 0 = Inr c" using assms(2) [of c] by (simp add: ge_child_def Let_def)
    then show ?thesis using True by (simp add: ge_SetOptimizationLevel_def Let_def)
  next
    case False
    then show ?thesis by (simp add: ge_SetOptimizationLevel_def Let_def)
  qed
  then show ?thesis using same unfolding upd_gexpr_def by metis
qed

lemma g_Insert_effect:
  assumes "producer C M e \<Longrightarrow> m_ulCTEProducerId (m_group M p) = gpos_ulong_max"
  shows "\<exists>G. g_Insert C p e M = Inr (M\<lparr>m_group := (m_group M)(p := G)\<rparr>) \<and>
     g_id G = id_of M p \<and> m_fScalar G = m_fScalar (m_group M p) \<and> m_pdp G = m_pdp (m_group M p) \<and>
     m_pexprScalarRep G = rep_of M p \<and> m_pexprScalarRepIsExact G = m_pexprScalarRepIsExact (m_group M p) \<and>
     m_pccDummy G = m_pccDummy (m_group M p) \<and> m_pgroupDuplicate G = dup_of M p \<and> g_estate G = g_estate (m_group M p) \<and>
     m_listGExprs G = gexprs_of M p @ [e] \<and> m_listDupGExprs G = m_listDupGExprs (m_group M p) \<and>
     m_ulGExprs G = m_ulGExprs (m_group M p) \<and>
     m_ulCTEProducerId G =
       (if producer C M e then the (op_UlCTEProducerId C (pop_of M e)) else m_ulCTEProducerId (m_group M p))"
proof (cases "producer C M e")
  case True
  then obtain i where i: "op_UlCTEProducerId C (pop_of M e) = Some i" by (auto simp: producer_def)
  show ?thesis using assms True i
    by (auto simp: g_Insert_def upd_group_def Let_def producer_def)
next
  case False
  then show ?thesis
    by (cases "op_FLogical C (pop_of M e)") (auto simp: g_Insert_def upd_group_def Let_def producer_def)
qed

lemma gp_Insert_entered:
  assumes "group_of M e = None" and "ge_id (m_gexpr M e) = GPOPT_INVALID_GEXPR_ID"
    and "producer C M e \<Longrightarrow> m_ulCTEProducerId (m_group M p) = gpos_ulong_max"
    and "op_FPhysicalSequence C (pop_of M e) \<Longrightarrow> children M e \<noteq> []"
    and "\<And>c. c \<in> set (children M e) \<Longrightarrow> m_ulGExprs (m_group M c) \<noteq> 0"
  shows "\<exists>M'. gp_Insert C p e (sht_Insert C e M) = Inr M' \<and> entered C e p M M'"
proof -
  let ?b = "sht_GetBucketIndex C M e" and ?u = "m_ulGExprs (m_group M p)"
  let ?N = "sht_Insert C e M"
  define M1 where "M1 = upd_group p (\<lambda>g. g\<lparr>m_ulGExprs := ?u + 1\<rparr>) ?N"
  define M2 where "M2 = upd_gexpr e (\<lambda>x. x\<lparr>m_pgroup := Some p, ge_id := ?u\<rparr>) M1"
  have init: "ge_Init C e p ?u M1 = ge_SetOptimizationLevel C e M2"
    using assms(1,2) by (simp add: ge_Init_def ge_SetGroup_def ge_SetId_def M2_def M1_def upd_group_def upd_gexpr_def)
  have lvl: "children M2 e \<noteq> []" if "op_FPhysicalSequence C (pop_of M2 e)"
    using that assms(4) by (simp add: M2_def M1_def upd_group_def upd_gexpr_def)
  have "m_ulGExprs (m_group M2 c) \<noteq> 0" if "c \<in> set (children M2 e)" for c
    using that assms(5) [of c] by (simp add: M2_def M1_def upd_group_def upd_gexpr_def)
  note lvl = lvl this
  obtain eol where eol: "ge_SetOptimizationLevel C e M2 = Inr (M2\<lparr>m_gexpr := (m_gexpr M2)(e := (m_gexpr M2 e)\<lparr>m_eol := eol\<rparr>)\<rparr>)"
    using SetOptimizationLevel_effect [OF lvl] by blast
  define M3 where "M3 = M2\<lparr>m_gexpr := (m_gexpr M2)(e := (m_gexpr M2 e)\<lparr>m_eol := eol\<rparr>)\<rparr>"
  have sel: "m_group M3 = m_group M1" "pop_of M3 e = pop_of M e" "group_of M3 e = Some p"
    by (simp_all add: M3_def M2_def M1_def upd_group_def upd_gexpr_def)
  have prod: "producer C M3 e = producer C M e" by (simp add: producer_def sel)
  have run: "gp_Insert C p e ?N = g_Insert C p e M3"
  proof -
    have "gp_Insert C p e ?N = rbind (ge_Init C e p ?u M1) (\<lambda>M2. gpos_assert (m_pgroup (m_gexpr M2 e) = Some p) (g_Insert C p e M2))"
      unfolding gp_Insert_def Let_def M1_def by simp
    then show ?thesis using init eol by (simp add: M3_def [symmetric] sel)
  qed
  obtain G where G: "g_Insert C p e M3 = Inr (M3\<lparr>m_group := (m_group M3)(p := G)\<rparr>)"
     "g_id G = id_of M3 p" "m_fScalar G = m_fScalar (m_group M3 p)" "m_pdp G = m_pdp (m_group M3 p)"
     "m_pexprScalarRep G = rep_of M3 p" "m_pexprScalarRepIsExact G = m_pexprScalarRepIsExact (m_group M3 p)"
     "m_pccDummy G = m_pccDummy (m_group M3 p)" "m_pgroupDuplicate G = dup_of M3 p" "g_estate G = g_estate (m_group M3 p)"
     "m_listGExprs G = gexprs_of M3 p @ [e]" "m_listDupGExprs G = m_listDupGExprs (m_group M3 p)"
     "m_ulGExprs G = m_ulGExprs (m_group M3 p)"
     "m_ulCTEProducerId G =
       (if producer C M3 e then the (op_UlCTEProducerId C (pop_of M3 e)) else m_ulCTEProducerId (m_group M3 p))"
    using g_Insert_effect [of C M3 e p] assms(3) prod by (auto simp: sel M1_def upd_group_def)
  have "M3\<lparr>m_group := (m_group M3)(p := G)\<rparr> = M\<lparr>m_gexpr := (m_gexpr M)(e := m_gexpr M3 e), m_group := (m_group M)(p := G),
       m_chain := (m_chain M)(?b := e # m_chain M ?b), m_size := m_size M + 1\<rparr>"
    by (simp add: M3_def M2_def M1_def upd_group_def upd_gexpr_def sht_Insert_def Let_def fun_upd_twist)
  moreover have "children M3 e = children M e" "m_pdrgpgroupSorted (m_gexpr M3 e) = m_pdrgpgroupSorted (m_gexpr M e)"
    by (simp_all add: M3_def M2_def M1_def upd_group_def upd_gexpr_def)
  moreover have "m_group M1 p = (m_group M p)\<lparr>m_ulGExprs := ?u + 1\<rparr>" by (simp add: M1_def upd_group_def)
  ultimately show ?thesis
    unfolding run entered_def using G prod sel
    by (intro exI [of _ "M3\<lparr>m_group := (m_group M3)(p := G)\<rparr>"] conjI, simp)
      (rule exI [of _ "m_gexpr M3 e"], rule exI [of _ G], simp)
qed

section \<open>Allocation keeps the invariant\<close>

lemma gexpr_alloc_sel [simp]:
  "fst (gexpr_alloc x M) = m_ngexprs M" "m_group (snd (gexpr_alloc x M)) = m_group M"
  "m_gexpr (snd (gexpr_alloc x M)) = (m_gexpr M)(m_ngexprs M := x)" "m_ngexprs (snd (gexpr_alloc x M)) = m_ngexprs M + 1"
  "m_listGroups (snd (gexpr_alloc x M)) = m_listGroups M" "m_aul (snd (gexpr_alloc x M)) = m_aul M"
  "m_nbuckets (snd (gexpr_alloc x M)) = m_nbuckets M" "m_pgroupRoot (snd (gexpr_alloc x M)) = m_pgroupRoot M"
  "m_ngroups (snd (gexpr_alloc x M)) = m_ngroups M" "m_ulpGrps (snd (gexpr_alloc x M)) = m_ulpGrps M"
  "m_chain (snd (gexpr_alloc x M)) = m_chain M" "m_size (snd (gexpr_alloc x M)) = m_size M"
  by (simp_all add: gexpr_alloc_def)

lemma alloc_keeps: "keeps M (snd (gexpr_alloc x M))"
  by (simp add: keeps_def)

lemma alloc_ok:
  assumes "memo_ok C M"
  shows "memo_ok C (snd (gexpr_alloc x M))"
proof -
  let ?M = "snd (gexpr_alloc x M)"
  have reg: "registered ?M = registered M" "live ?M = live M" "listed ?M = listed M"
    by (simp_all add: registered_def live_def listed_def sht_entries_def)
  have old: "m_gexpr ?M e = m_gexpr M e" if "e \<in> registered M" for e
    using memo_ok_registered(2) [OF assms that] by simp
  have mem: "e \<in> registered M" if "p \<in> grps M" "e \<in> set (gexprs_of M p)" for p e
    using that by (auto simp: registered_def)
  have "links_ok ?M" using memo_okD(1) [OF assms] by (simp add: links_ok_def)
  moreover have "lists_ok ?M"
  proof -
    have "group_of ?M e = Some p" if p: "p \<in> grps M" and e: "e \<in> set (gexprs_of M p) \<union> set (m_listDupGExprs (m_group M p))" for p e
    proof -
      have "e \<in> registered M" using p e by (auto simp: registered_def)
      then show ?thesis using old memo_okD(2) [OF assms] p e by (simp add: lists_ok_def)
    qed
    then show ?thesis using memo_okD(2) [OF assms] by (simp add: lists_ok_def)
  qed
  moreover have "table_agrees [] ?M"
    using memo_okD(3) [OF assms] reg by (simp add: table_agrees_def sht_entries_def)
  moreover have "children_ok C ?M"
    using memo_okD(4) [OF assms] old by (simp add: children_ok_def reg sorted_ok_def in_order_def)
  moreover have "numbered ?M" using memo_okD(5) [OF assms] by (simp add: numbered_def)
  moreover have "groups_ok C ?M"
  proof -
    have "e < m_ngexprs ?M \<and> op_FScalar C (pop_of ?M e) = m_fScalar (m_group ?M p)"
      if p: "p \<in> grps M" "e \<in> set (gexprs_of M p)" for p e
      using old [OF mem [OF p]] memo_okD(6) [OF assms] p by (simp add: groups_ok_def less_SucI)
    then show ?thesis using memo_okD(6) [OF assms] by (simp add: groups_ok_def)
  qed
  moreover have "buckets_ok C ?M"
    unfolding buckets_ok_def
  proof (intro allI impI ballI)
    fix b e assume b: "b < m_nbuckets ?M" and e: "e \<in> set (m_chain ?M b)"
    then have "e \<in> live M" unfolding live_iff by auto
    then have r: "e \<in> registered M" using memo_ok_live [OF assms] by simp
    have "sht_GetBucketIndex C ?M e = sht_GetBucketIndex C M e"
      using memo_ok_registered(3) [OF assms r] old [OF r] memo_ok_count [OF assms] by (intro bucket_eq) auto
    then show "sht_GetBucketIndex C ?M e = b" using memo_okD(7) [OF assms] b e by (simp add: buckets_ok_def)
  qed
  moreover have "producers_listed C ?M"
    unfolding producers_listed_def
  proof (intro ballI impI)
    fix p assume "p \<in> grps ?M" "m_ulCTEProducerId (m_group ?M p) \<noteq> gpos_ulong_max"
    then obtain e where e: "p \<in> grps M" "e \<in> set (gexprs_of M p)" "producer C M e"
      using memo_okD(8) [OF assms] by (auto simp: producers_listed_def)
    then have "producer C ?M e" using old [OF mem] by (simp add: producer_def)
    then show "\<exists>e \<in> set (gexprs_of ?M p). producer C ?M e" using e by auto
  qed
  moreover have "keys_ok C ?M"
  proof -
    have "sht_GetBucketIndex C ?M e = sht_GetBucketIndex C M e" if e: "e \<in> registered M" for e
      using memo_ok_registered(3) [OF assms e] old [OF e] memo_ok_count [OF assms] by (intro bucket_eq) auto
    moreover have "matches C ?M e f = matches C M e f" if e: "e \<in> registered M" "f \<in> registered M" for e f
      using memo_ok_registered(3) [OF assms] e old by (intro matches_eq) auto
    ultimately show ?thesis
      using memo_okD(9) [OF assms] memo_ok_live [OF assms] unfolding keys_ok_def reg(2) by simp
  qed
  moreover have "scalar_rep_ok C ?M p" if p: "p \<in> grps M" "m_fScalar (m_group M p)" for p
  proof -
    obtain e where e: "gexprs_of M p = [e]" using memo_okD(10) [OF assms p] by (auto simp: scalar_rep_ok_def)
    then have "m_gexpr ?M e = m_gexpr M e" using old mem [OF p(1)] by simp
    then show ?thesis using memo_okD(10) [OF assms p] e
      by (cases "op_SubqueryDummy C (pop_of M e)") (simp_all add: scalar_rep_ok_def del: gexpr_alloc_sel(3))
  qed
  ultimately show ?thesis by (simp add: memo_ok_def)
qed

section \<open>Adding an expression keeps the invariant\<close>

definition fresh :: "'op COperator_class \<Rightarrow> ('op, 'p) CMemo \<Rightarrow> nat \<Rightarrow> bool" where
  "fresh C M e \<longleftrightarrow> e < m_ngexprs M \<and> e \<notin> registered M \<and> set (children M e) \<subseteq> grps M \<and> sorted_ok C M e"

text \<open>What both ways to add an expression have in common.\<close>

definition adds :: "'op COperator_class \<Rightarrow> nat \<Rightarrow> nat \<Rightarrow> ('op, 'p) CMemo \<Rightarrow> ('op, 'p) CMemo \<Rightarrow> bool" where
  "adds C e p M M' \<longleftrightarrow>
     m_chain M' = (m_chain M)(sht_GetBucketIndex C M e := e # m_chain M (sht_GetBucketIndex C M e)) \<and>
     m_size M' = m_size M + 1 \<and> m_nbuckets M' = m_nbuckets M \<and> m_ngexprs M' = m_ngexprs M \<and>
     m_pgroupRoot M' = m_pgroupRoot M \<and> m_ngroups M \<le> m_ngroups M' \<and> p < m_ngroups M' \<and>
     (\<forall>x. x \<noteq> e \<longrightarrow> m_gexpr M' x = m_gexpr M x) \<and> pop_of M' e = pop_of M e \<and> children M' e = children M e \<and>
     m_pdrgpgroupSorted (m_gexpr M' e) = m_pdrgpgroupSorted (m_gexpr M e) \<and> group_of M' e = Some p \<and>
     (\<forall>q. q \<noteq> p \<longrightarrow> m_group M' q = m_group M q) \<and> grps M' = insert p (grps M) \<and>
     gexprs_of M' p = (if p \<in> grps M then gexprs_of M p else []) @ [e] \<and> m_listDupGExprs (m_group M' p) = [] \<and>
     m_ulGExprs (m_group M' p) = length (gexprs_of M' p) \<and> m_pdp (m_group M' p) \<noteq> None \<and>
     op_FScalar C (pop_of M e) = m_fScalar (m_group M' p) \<and>
     (p \<in> grps M \<longrightarrow> id_of M' p = id_of M p \<and> dup_of M' p = dup_of M p \<and> m_fScalar (m_group M' p) = m_fScalar (m_group M p) \<and>
        m_fScalar (m_group M p) = False) \<and>
     (m_ulCTEProducerId (m_group M' p) \<noteq> gpos_ulong_max \<longrightarrow>
        producer C M e \<or> p \<in> grps M \<and> m_ulCTEProducerId (m_group M p) \<noteq> gpos_ulong_max)"

lemma adds_ok:
  assumes ok: "memo_ok C M" and fr: "fresh C M e" and ad: "adds C e p M M'"
    and nm: "\<And>f. f \<in> registered M \<Longrightarrow> sht_GetBucketIndex C M f = sht_GetBucketIndex C M e \<Longrightarrow> \<not> matches C M e f \<and> \<not> matches C M f e"
    and lk: "links_ok M'" and num: "numbered M'" and sc: "m_fScalar (m_group M' p) \<Longrightarrow> scalar_rep_ok C M' p"
  shows "memo_ok C M'"
proof -
  let ?b = "sht_GetBucketIndex C M e"
  have e: "e < m_ngexprs M" "e \<notin> registered M" "set (children M e) \<subseteq> grps M" "sorted_ok C M e"
    using fr by (simp_all add: fresh_def)
  have A: "m_chain M' = (m_chain M)(?b := e # m_chain M ?b)" "m_size M' = m_size M + 1" "m_nbuckets M' = m_nbuckets M"
    "m_ngexprs M' = m_ngexprs M" "m_ngroups M \<le> m_ngroups M'" "p < m_ngroups M'"
    "\<And>x. x \<noteq> e \<Longrightarrow> m_gexpr M' x = m_gexpr M x" "pop_of M' e = pop_of M e" "children M' e = children M e"
    "m_pdrgpgroupSorted (m_gexpr M' e) = m_pdrgpgroupSorted (m_gexpr M e)" "group_of M' e = Some p"
    "\<And>q. q \<noteq> p \<Longrightarrow> m_group M' q = m_group M q" "grps M' = insert p (grps M)"
    "gexprs_of M' p = (if p \<in> grps M then gexprs_of M p else []) @ [e]" "m_listDupGExprs (m_group M' p) = []"
    "m_ulGExprs (m_group M' p) = length (gexprs_of M' p)" "m_pdp (m_group M' p) \<noteq> None"
    "op_FScalar C (pop_of M e) = m_fScalar (m_group M' p)"
    "p \<in> grps M \<Longrightarrow> id_of M' p = id_of M p" "p \<in> grps M \<Longrightarrow> \<not> m_fScalar (m_group M p)"
    "p \<in> grps M \<Longrightarrow> \<not> m_fScalar (m_group M' p)"
    using ad unfolding adds_def by auto
  have gq: "gexprs_of M' q = (if q = p then (if p \<in> grps M then gexprs_of M p else []) @ [e] else gexprs_of M q)" for q
    using A(12,14) by simp
  have dq: "m_listDupGExprs (m_group M' q) = []" if "q \<in> grps M'" for q
    using that A(12,13,15) memo_okD(6) [OF ok] by (cases "q = p") (auto simp: groups_ok_def)
  have ids: "id_of M' q = id_of M q" if "q \<in> grps M" for q using that A(12,19) by (cases "q = p") auto
  have nb: "0 < m_nbuckets M" using memo_okD(3) [OF ok] by (simp add: table_agrees_def)
  then have b: "?b < m_nbuckets M" by (rule ge_HashValue_bucket)
  have reg: "registered M' = insert e (registered M)"
  proof -
    have "registered M = (\<Union>q \<in> grps M. set (gexprs_of M q))"
      using memo_okD(6) [OF ok] by (auto simp: registered_def groups_ok_def)
    moreover have "registered M' = (\<Union>q \<in> grps M'. set (gexprs_of M' q))" using dq by (auto simp: registered_def)
    ultimately show ?thesis by (auto simp: A(13) gq split: if_splits)
  qed
  have listed: "listed M' = registered M'" "listed M = registered M"
    using dq memo_okD(6) [OF ok] by (auto simp: listed_def registered_def groups_ok_def)
  have live: "live M = registered M" by (rule memo_ok_live [OF ok])
  have ne: "x \<noteq> e" if "x \<in> registered M" for x using that e(2) by blast
  have inreg: "x \<in> registered M" if "q \<in> grps M" "x \<in> set (gexprs_of M q)" for q x
    using that by (auto simp: registered_def)
  have pos: "m_ulGExprs (m_group M q) \<noteq> 0 \<and> m_ulGExprs (m_group M' q) \<noteq> 0" if "q \<in> grps M" for q
    using memo_ok_count(1) [OF ok that] A(12,14,16) by (cases "q = p") auto
  have key: "pop_of M' y = pop_of M y" "children M' y = children M y" "set (children M y) \<subseteq> grps M"
    if y: "y = e \<or> y \<in> registered M" for y
    using A(7) [of y] A(8,9) y e(3) memo_ok_registered(3) [OF ok, of y] by (cases "y = e"; simp)+
  have same: "sht_GetBucketIndex C M' y = sht_GetBucketIndex C M y" if y: "y = e \<or> y \<in> registered M" for y
    using A(3) ids pos key [OF y] by (intro bucket_eq) auto
  have "lists_ok M'"
    unfolding lists_ok_def
  proof (intro ballI)
    fix q assume q: "q \<in> grps M'"
    show "m_ulGExprs (m_group M' q) = length (gexprs_of M' q) \<and> distinct (gexprs_of M' q @ m_listDupGExprs (m_group M' q)) \<and>
        (\<forall>x \<in> set (gexprs_of M' q) \<union> set (m_listDupGExprs (m_group M' q)). group_of M' x = Some q)"
    proof (cases "q \<in> grps M")
      case old: True
      then have "m_ulGExprs (m_group M q) = length (gexprs_of M q)" "distinct (gexprs_of M q)"
        "\<forall>x \<in> set (gexprs_of M q). group_of M x = Some q"
        using memo_okD(2) [OF ok] by (auto simp: lists_ok_def)
      moreover have "\<forall>x \<in> set (gexprs_of M q). x \<noteq> e" using inreg [OF old] ne by blast
      ultimately show ?thesis using old A(7,11,12,16) gq [of q] dq [OF q] by (cases "q = p") auto
    next
      case False
      then show ?thesis using q A(11,13,16) gq [of q] dq [OF q] by auto
    qed
  qed
  moreover have tab: "table_agrees [] M'"
  proof -
    have ms: "mset (sht_entries M') = add_mset e (mset (sht_entries M))"
      using mset_entries_upd [OF b] by (simp add: sht_entries_def A(1,3))
    have "distinct (sht_entries M)" "m_size M = length (sht_entries M)" using memo_okD(3) [OF ok] by (simp_all add: table_agrees_def)
    moreover have "e \<notin> set (sht_entries M)" using e(2) live by (simp add: live_def)
    moreover have "mset (sht_entries M') = mset (e # sht_entries M)" using ms by simp
    ultimately have "distinct (sht_entries M')" "m_size M' = length (sht_entries M')" "live M' = insert e (live M)"
      using mset_eq_imp_distinct_iff [of "sht_entries M'" "e # sht_entries M"] mset_eq_length [of "sht_entries M'" "e # sht_entries M"]
        mset_eq_setD [of "sht_entries M'" "e # sht_entries M"] A(2) by (auto simp: live_def)
    then show ?thesis using nb A(3) live listed reg by (simp add: table_agrees_def)
  qed
  moreover have ch: "children_ok C M'"
    unfolding children_ok_def
  proof (intro ballI)
    fix x assume x: "x \<in> registered M'"
    show "set (children M' x) \<subseteq> grps M' \<and> sorted_ok C M' x"
    proof (cases "x = e")
      case True
      then show ?thesis using e A(8-10,13) by (auto simp: sorted_ok_def in_order_def)
    next
      case False
      then have "x \<in> registered M" using x reg by simp
      then show ?thesis using memo_ok_registered(3,4) [OF ok] A(7) [OF False] A(13) by (auto simp: sorted_ok_def in_order_def)
    qed
  qed
  moreover have "groups_ok C M'"
    unfolding groups_ok_def
  proof (intro ballI)
    fix q assume q: "q \<in> grps M'"
    show "q < m_ngroups M' \<and> gexprs_of M' q \<noteq> [] \<and> m_listDupGExprs (m_group M' q) = [] \<and> m_pdp (m_group M' q) \<noteq> None \<and>
       (\<forall>x \<in> set (gexprs_of M' q). x < m_ngexprs M' \<and> op_FScalar C (pop_of M' x) = m_fScalar (m_group M' q))"
    proof (cases "q \<in> grps M")
      case old: True
      then have "q < m_ngroups M" "gexprs_of M q \<noteq> []" "m_pdp (m_group M q) \<noteq> None"
        "\<forall>x \<in> set (gexprs_of M q). x < m_ngexprs M \<and> op_FScalar C (pop_of M x) = m_fScalar (m_group M q)"
        using memo_okD(6) [OF ok] by (auto simp: groups_ok_def)
      moreover have "\<forall>x \<in> set (gexprs_of M q). x \<noteq> e" using inreg [OF old] ne by blast
      ultimately show ?thesis
        using old A(4-8,12,17,18,20,21) e(1) gq [of q] dq [OF q] by (cases "q = p") auto
    next
      case False
      then show ?thesis using q A(4,6,8,13,17,18) e(1) gq [of q] dq [OF q] by auto
    qed
  qed
  moreover have "buckets_ok C M'"
    unfolding buckets_ok_def
  proof (intro allI impI ballI)
    fix b x assume bx: "b < m_nbuckets M'" "x \<in> set (m_chain M' b)"
    consider "x = e" "b = ?b" | "x \<in> set (m_chain M b)" using bx(2) A(1) by (auto split: if_splits)
    then show "sht_GetBucketIndex C M' x = b"
    proof cases
      case 1
      then show ?thesis using same [of e] by simp
    next
      case 2
      then have "x \<in> live M" using bx(1) A(3) by (auto simp: live_iff)
      then have "sht_GetBucketIndex C M' x = sht_GetBucketIndex C M x" using live by (intro same) simp
      then show ?thesis using 2 bx(1) A(3) memo_okD(7) [OF ok] by (simp add: buckets_ok_def)
    qed
  qed
  moreover have live': "live M' = insert e (registered M)"
    using tab listed reg by (simp add: table_agrees_def)
  moreover have "keys_ok C M'"
    unfolding keys_ok_def
  proof (intro impI ballI)
    fix x y
    assume nd: "\<forall>q \<in> grps M'. dup_of M' q = None" and x: "x \<in> live M'" and y: "y \<in> live M'"
      and bb: "sht_GetBucketIndex C M' x = sht_GetBucketIndex C M' y" and m: "matches C M' x y"
    have xy: "x = e \<or> x \<in> registered M" "y = e \<or> y \<in> registered M" using x y live' by auto
    have dup: "dup_of M' q = dup_of M q" if "q \<in> grps M" for q using that A(12) ad by (cases "q = p") (simp_all add: adds_def)
    then have "\<forall>q \<in> grps M. dup_of M q = None" using nd A(13) by auto
    then have u: "x = y" if "x \<in> registered M" "y \<in> registered M" "sht_GetBucketIndex C M x = sht_GetBucketIndex C M y" "matches C M x y"
      using that memo_okD(9) [OF ok] live unfolding keys_ok_def by blast
    have m': "matches C M x y"
    proof -
      have "matches C M' x y = matches C M x y"
      proof (rule matches_eq)
        show "set (children M x) \<subseteq> grps M" using key(3) [OF xy(1)] .
        show "set (children M y) \<subseteq> grps M" using key(3) [OF xy(2)] .
      qed (use dup key(1,2) [OF xy(1)] key(1,2) [OF xy(2)] in simp_all)
      then show ?thesis using m by simp
    qed
    have b': "sht_GetBucketIndex C M x = sht_GetBucketIndex C M y" using bb same [OF xy(1)] same [OF xy(2)] by simp
    consider "x = e" "y = e" | "x = e" "y \<in> registered M" | "y = e" "x \<in> registered M" | "x \<in> registered M" "y \<in> registered M"
      using xy by blast
    then show "x = y"
    proof cases
      case 2
      then show ?thesis using nm [of y] m' b' by simp
    next
      case 3
      then show ?thesis using nm [of x] m' b' by simp
    next
      case 4
      then show ?thesis using u m' b' by blast
    qed simp
  qed
  moreover have "producers_listed C M'"
    unfolding producers_listed_def
  proof (intro ballI impI)
    fix q assume q: "q \<in> grps M'" and i: "m_ulCTEProducerId (m_group M' q) \<noteq> gpos_ulong_max"
    have pe: "producer C M' e = producer C M e" using A(8) by (simp add: producer_def)
    have px: "producer C M' x = producer C M x" if "x \<noteq> e" for x using A(7) [OF that] by (simp add: producer_def)
    have old: "\<exists>x \<in> set (gexprs_of M' q). producer C M' x"
      if o: "q \<in> grps M" "m_ulCTEProducerId (m_group M q) \<noteq> gpos_ulong_max"
    proof -
      obtain x where x: "x \<in> set (gexprs_of M q)" "producer C M x"
        using memo_okD(8) [OF ok] o by (auto simp: producers_listed_def)
      moreover have "x \<noteq> e" using inreg [OF o(1) x(1)] ne by blast
      ultimately show ?thesis using px gq [of q] o(1) by auto
    qed
    show "\<exists>x \<in> set (gexprs_of M' q). producer C M' x"
    proof (cases "q = p")
      case True
      then show ?thesis using i ad old pe gq [of q] by (auto simp: adds_def)
    next
      case False
      then show ?thesis using q i old A(12,13) by auto
    qed
  qed
  moreover have "scalar_rep_ok C M' q" if q: "q \<in> grps M'" "m_fScalar (m_group M' q)" for q
  proof (cases "q = p")
    case True
    then show ?thesis using sc q by simp
  next
    case False
    then have qM: "q \<in> grps M" "m_fScalar (m_group M q)" "m_group M' q = m_group M q" using q A(12,13) by auto
    note s = memo_okD(10) [OF ok qM(1,2)]
    obtain x where x: "gexprs_of M q = [x]" using s by (auto simp: scalar_rep_ok_def)
    then have xr: "x \<in> registered M" using inreg [OF qM(1)] by simp
    then have gx: "m_gexpr M' x = m_gexpr M x" using A(7) ne by simp
    show ?thesis
    proof (cases "op_SubqueryDummy C (pop_of M x)")
      case None
      have "m_group M' c = m_group M c" if "c \<in> set (children M x)" for c
      proof -
        have "c \<in> grps M" using that memo_ok_registered(3) [OF ok xr] by blast
        moreover have "m_fScalar (m_group M c)" using s x None that by (simp add: scalar_rep_ok_def)
        ultimately have "c \<noteq> p" using A(20) by blast
        then show ?thesis by (rule A(12))
      qed
      then show ?thesis using s x gx qM(3) None by (simp add: scalar_rep_ok_def cong: map_cong)
    next
      case (Some d)
      then show ?thesis using s x gx qM(3) by (simp add: scalar_rep_ok_def)
    qed
  qed
  ultimately show ?thesis using lk num by (simp add: memo_ok_def)
qed

section \<open>Looking up an expression\<close>

context operator_laws
begin

lemma Find_ok:
  assumes ok: "memo_ok C M" and fr: "fresh C M e"
  shows "sht_Find C M e = Inr (List.find (matches C M e) (m_chain M (sht_GetBucketIndex C M e)))"
    and "set (m_chain M (sht_GetBucketIndex C M e)) \<subseteq> registered M"
proof -
  have "sht_GetBucketIndex C M e < m_nbuckets M"
    using memo_okD(3) [OF ok] by (simp add: table_agrees_def ge_HashValue_bucket)
  then have "set (m_chain M (sht_GetBucketIndex C M e)) \<subseteq> live M" by (auto simp: live_iff)
  then show sub: "set (m_chain M (sht_GetBucketIndex C M e)) \<subseteq> registered M" using memo_ok_live [OF ok] by simp
  then have "\<forall>f \<in> set (m_chain M (sht_GetBucketIndex C M e)). sorted_ok C M f"
    using memo_ok_registered(4) [OF ok] by blast
  then show "sht_Find C M e = Inr (List.find (matches C M e) (m_chain M (sht_GetBucketIndex C M e)))"
    using fr by (simp add: sht_Find_def NextMatch_eval fresh_def)
qed

end

text \<open>A new group object changes nothing for what is in the memo.\<close>

definition with_group :: "bool \<Rightarrow> ('op, 'p) CMemo \<Rightarrow> ('op, 'p) CMemo" where
  "with_group s M = M\<lparr>m_group := (m_group M)(m_ngroups M := CGroup_ctor s), m_ngroups := m_ngroups M + 1\<rparr>"

lemma with_group_sel [simp]:
  "m_gexpr (with_group s M) = m_gexpr M" "m_chain (with_group s M) = m_chain M" "m_nbuckets (with_group s M) = m_nbuckets M"
  "m_listGroups (with_group s M) = m_listGroups M" "m_aul (with_group s M) = m_aul M" "m_size (with_group s M) = m_size M"
  "m_ulpGrps (with_group s M) = m_ulpGrps M" "m_ngexprs (with_group s M) = m_ngexprs M"
  "m_pgroupRoot (with_group s M) = m_pgroupRoot M" "m_ngroups (with_group s M) = m_ngroups M + 1"
  "m_group (with_group s M) = (m_group M)(m_ngroups M := CGroup_ctor s)"
  by (simp_all add: with_group_def)

lemma with_group_old: "memo_ok C M \<Longrightarrow> p \<in> grps M \<Longrightarrow> m_group (with_group s M) p = m_group M p"
  using memo_ok_count(2) [of C M p] by auto

lemma with_group_bucket:
  assumes "memo_ok C M" and "set (children M e) \<subseteq> grps M"
  shows "sht_GetBucketIndex C (with_group s M) e = sht_GetBucketIndex C M e"
  using assms(2) memo_ok_count [OF assms(1)] with_group_old [OF assms(1), of _ s]
  by (intro bucket_eq) (auto simp del: with_group_sel(11))

context operator_laws
begin

lemma with_group_Find:
  assumes ok: "memo_ok C M" and fr: "fresh C M e"
  shows "sht_Find C (with_group s M) e = sht_Find C M e"
proof -
  let ?M = "with_group s M" and ?b = "sht_GetBucketIndex C M e"
  have ch: "set (children M e) \<subseteq> grps M" and srt: "sorted_ok C M e" using fr by (simp_all add: fresh_def)
  have b: "sht_GetBucketIndex C ?M e = ?b" using with_group_bucket [OF ok ch] .
  have so: "sorted_ok C ?M f = sorted_ok C M f" for f by (simp add: sorted_ok_def in_order_def)
  have sub: "set (m_chain M ?b) \<subseteq> registered M" by (rule Find_ok [OF ok fr])
  have m: "matches C ?M e f = matches C M e f" if "f \<in> set (m_chain M ?b)" for f
  proof (rule matches_eq [OF ch])
    show "set (children M f) \<subseteq> grps M" using that sub memo_ok_registered(3) [OF ok] by blast
    show "dup_of ?M p = dup_of M p" if "p \<in> grps M" for p using with_group_old [OF ok that, of s] by simp
  qed simp_all
  have "sht_Find C ?M e = Inr (List.find (matches C ?M e) (m_chain M ?b))"
    using sub so srt memo_ok_registered(4) [OF ok] by (simp add: sht_Find_def b NextMatch_eval subset_eq)
  also have "List.find (matches C ?M e) (m_chain M ?b) = List.find (matches C M e) (m_chain M ?b)"
    using m by (intro find_cong) auto
  also have "Inr (List.find (matches C M e) (m_chain M ?b)) = sht_Find C M e" by (rule Find_ok(1) [OF ok fr, symmetric])
  finally show ?thesis .
qed

end

section \<open>Adding to a group\<close>

lemma entered_adds_target:
  assumes ok: "memo_ok C M" and fr: "fresh C M e" and en: "entered C e p M M'" and p: "p \<in> grps M"
    and sc: "\<not> m_fScalar (m_group M p)" "\<not> op_FScalar C (pop_of M e)"
    and nm: "\<And>f. f \<in> registered M \<Longrightarrow> sht_GetBucketIndex C M f = sht_GetBucketIndex C M e \<Longrightarrow> \<not> matches C M e f \<and> \<not> matches C M f e"
  shows "memo_ok C M'" and "group_of M' e = Some p"
    and "M = snd (gexpr_alloc x M0) \<Longrightarrow> e = m_ngexprs M0 \<Longrightarrow> keeps M0 M'"
proof -
  obtain X G where M': "M' = M\<lparr>m_gexpr := (m_gexpr M)(e := X), m_group := (m_group M)(p := G),
       m_chain := (m_chain M)(sht_GetBucketIndex C M e := e # m_chain M (sht_GetBucketIndex C M e)), m_size := m_size M + 1\<rparr>"
    and X: "m_pop X = pop_of M e" "m_pdrgpgroup X = children M e" "m_pdrgpgroupSorted X = m_pdrgpgroupSorted (m_gexpr M e)"
     "m_pgroup X = Some p"
    and G: "g_id G = id_of M p" "m_fScalar G = m_fScalar (m_group M p)" "m_pdp G = m_pdp (m_group M p)"
     "m_pexprScalarRep G = rep_of M p" "m_pexprScalarRepIsExact G = m_pexprScalarRepIsExact (m_group M p)"
     "g_estate G = g_estate (m_group M p)"
     "m_pgroupDuplicate G = dup_of M p" "m_listGExprs G = gexprs_of M p @ [e]" "m_listDupGExprs G = m_listDupGExprs (m_group M p)"
     "m_ulGExprs G = m_ulGExprs (m_group M p) + 1"
     "m_ulCTEProducerId G =
       (if producer C M e then the (op_UlCTEProducerId C (pop_of M e)) else m_ulCTEProducerId (m_group M p))"
    using en by (auto simp: entered_def)
  have g: "p < m_ngroups M" "m_listDupGExprs (m_group M p) = []" "m_pdp (m_group M p) \<noteq> None"
    "m_ulGExprs (m_group M p) = length (gexprs_of M p)"
    using memo_okD(2,6) [OF ok] p by (auto simp: groups_ok_def lists_ok_def)
  show "group_of M' e = Some p" by (simp add: M' X)
  show "keeps M0 M'" if "M = snd (gexpr_alloc x M0)" "e = m_ngexprs M0"
    using that by (simp add: keeps_def M' G)
  have "adds C e p M M'"
    using p g sc by (simp add: adds_def M' X G insert_absorb)
  moreover have "same_links M M'" by (simp add: same_links_def M' G)
  then have "links_ok M'" using memo_okD(1) [OF ok] same_links_D(2) by blast
  moreover have ids: "id_of M' = id_of M" by (rule ext) (simp add: M' G)
  have rest: "m_listGroups M' = m_listGroups M" "m_aul M' = m_aul M" "m_ulpGrps M' = m_ulpGrps M" by (simp_all add: M')
  have "numbered M'" using memo_okD(5) [OF ok] unfolding numbered_def ids rest .
  moreover have "\<not> m_fScalar (m_group M' p)" using sc by (simp add: M' G)
  ultimately show "memo_ok C M'" using adds_ok [OF ok fr _ nm] by blast
qed

section \<open>A new group\<close>

text \<open>What \<^verbatim>\<open>CMemo::Add\<close> leaves behind.\<close>

definition listed_as :: "nat \<Rightarrow> 'p \<Rightarrow> ('op, 'p) CMemo \<Rightarrow> ('op, 'p) CMemo" where
  "listed_as p pdp M = M\<lparr>m_group := (m_group M)(p := (m_group M p)\<lparr>g_id := m_aul M, m_pdp := Some pdp\<rparr>),
     m_aul := m_aul M + 1, m_listGroups := p # m_listGroups M, m_ulpGrps := m_ulpGrps M + 1\<rparr>"

lemma memo_Add_effect:
  assumes "\<not> op_FPhysical C (Pop pexpr)" and "id_of M p = GPOPT_INVALID_GROUP_ID" and "m_pdp (m_group M p) = None"
    and "m_fScalar (m_group M p) = op_FScalar C (Pop pexpr)" and "gexprs_of M p \<noteq> []" and "p \<notin> grps M"
  shows "memo_Add C D p pexpr M = Inr (listed_as p (D pexpr) M)"
proof -
  have "p \<notin> set (take 1 (m_listGroups M))" using assms(6) by (meson in_set_takeD)
  moreover obtain e es where "gexprs_of M p = e # es" using assms(5) by (cases "gexprs_of M p") auto
  ultimately show ?thesis
    using assms(1-4)
    by (simp add: gp_PgexprFirst_def memo_Add_def Let_def g_SetId_def g_InitProperties_def upd_group_def listed_as_def gpos_assert_def)
qed

text \<open>The scalar representation of the one expression of a scalar group.\<close>

definition with_rep :: "nat \<Rightarrow> 'op CExpression \<Rightarrow> bool \<Rightarrow> ('op, 'p) CMemo \<Rightarrow> ('op, 'p) CMemo" where
  "with_rep p r exact M = M\<lparr>m_group := (m_group M)(p := (m_group M p)\<lparr>m_pexprScalarRep := Some r,
     m_pexprScalarRepIsExact := exact, m_pccDummy := True\<rparr>)\<rparr>"

definition rep_for :: "'op COperator_class \<Rightarrow> ('op, 'p) CMemo \<Rightarrow> nat \<Rightarrow> 'op CExpression \<times> bool" where
  "rep_for C M e = (case op_SubqueryDummy C (pop_of M e) of
     Some d \<Rightarrow> (CExpression d None [], False)
   | None \<Rightarrow> (CExpression (pop_of M e) None (map (\<lambda>c. the (rep_of M c)) (children M e)),
       \<forall>c \<in> set (children M e). m_pexprScalarRepIsExact (m_group M c)))"

lemma ge_child_eval:
  assumes "i < length (children M e)" and "m_ulGExprs (m_group M (children M e ! i)) \<noteq> 0"
  shows "ge_child M e i = Inr (children M e ! i)"
  using assms by (simp add: ge_child_def Let_def)

lemma rep_upd_comm:
  "g\<lparr>m_pexprScalarRepIsExact := x, m_pexprScalarRep := r\<rparr> = (g :: ('op, 'p) CGroup)\<lparr>m_pexprScalarRep := r, m_pexprScalarRepIsExact := x\<rparr>"
  by (cases g) simp

lemma scalar_effect:
  assumes "gexprs_of M p = [e]" and "m_fScalar (m_group M p)" and "rep_of M p = None" and "\<not> m_pccDummy (m_group M p)"
    and "op_SubqueryDummy C (pop_of M e) = None \<Longrightarrow> \<forall>c \<in> set (children M e). m_ulGExprs (m_group M c) \<noteq> 0 \<and>
      m_fScalar (m_group M c) \<and> rep_of M c \<noteq> None"
  shows "rbind (g_CreateScalarExpression C p M) (g_CreateDummyCostContext p) =
    Inr (with_rep p (fst (rep_for C M e)) (snd (rep_for C M e)) M)"
proof -
  have first: "gp_PgexprFirst M p = Some e" using assms(1) by (simp add: gp_PgexprFirst_def)
  define upd where "upd r x = upd_group p (\<lambda>g. g\<lparr>m_pexprScalarRep := Some r, m_pexprScalarRepIsExact := x\<rparr>) M" for r x
  have create: "g_CreateScalarExpression C p M = Inr (upd (fst (rep_for C M e)) (snd (rep_for C M e)))"
  proof (cases "op_SubqueryDummy C (pop_of M e)")
    case (Some d)
    then show ?thesis using assms(2,3) first by (simp add: g_CreateScalarExpression_def rep_for_def upd_def)
  next
    case None
    let ?cs = "children M e"
    have "rmap (\<lambda>ul. rbind (ge_child M e ul) (\<lambda>c. gpos_assert (m_fScalar (m_group M c))
        (case rep_of M c of None \<Rightarrow> Inl NullDeref | Some r \<Rightarrow> Inr (r, m_pexprScalarRepIsExact (m_group M c))))) [0..<length ?cs] =
      Inr (map (\<lambda>ul. (the (rep_of M (?cs ! ul)), m_pexprScalarRepIsExact (m_group M (?cs ! ul)))) [0..<length ?cs])"
    proof (rule rmap_Inr)
      fix i assume "i \<in> set [0..<length ?cs]"
      then have i: "i < length ?cs" by simp
      then have "m_ulGExprs (m_group M (?cs ! i)) \<noteq> 0" "m_fScalar (m_group M (?cs ! i))" "rep_of M (?cs ! i) \<noteq> None"
        using assms(5) [OF None] nth_mem [OF i] by blast+
      then show "rbind (ge_child M e i) (\<lambda>c. gpos_assert (m_fScalar (m_group M c))
        (case rep_of M c of None \<Rightarrow> Inl NullDeref | Some r \<Rightarrow> Inr (r, m_pexprScalarRepIsExact (m_group M c)))) =
        Inr (the (rep_of M (?cs ! i)), m_pexprScalarRepIsExact (m_group M (?cs ! i)))"
        using ge_child_eval [OF i] by auto
    qed
    moreover have "map (\<lambda>ul. f (?cs ! ul)) [0..<length ?cs] = map f ?cs" for f :: "nat \<Rightarrow> 'op CExpression \<times> bool"
      by (rule nth_equalityI) auto
    ultimately have "rmap (\<lambda>ul. rbind (ge_child M e ul) (\<lambda>c. gpos_assert (m_fScalar (m_group M c))
        (case rep_of M c of None \<Rightarrow> Inl NullDeref | Some r \<Rightarrow> Inr (r, m_pexprScalarRepIsExact (m_group M c))))) [0..<length ?cs] =
      Inr (map (\<lambda>c. (the (rep_of M c), m_pexprScalarRepIsExact (m_group M c))) ?cs)" by simp
    then show ?thesis using assms(2,3) first None
      by (simp add: g_CreateScalarExpression_def rep_for_def upd_def upd_group_def list_all_iff comp_def rep_upd_comm)
  qed
  have "g_CreateDummyCostContext p (upd r x) = Inr (with_rep p r x M)" for r x
    using assms(1,2,4)
    by (simp add: upd_def g_CreateDummyCostContext_def upd_group_def gp_PgexprFirst_def gp_PgexprNext_def with_rep_def)
  then show ?thesis by (simp add: create)
qed

definition kids_scalar :: "'op COperator_class \<Rightarrow> ('op, 'p) CMemo \<Rightarrow> nat \<Rightarrow> bool" where
  "kids_scalar C M e \<longleftrightarrow> (op_FScalar C (pop_of M e) \<longrightarrow> op_SubqueryDummy C (pop_of M e) = None \<longrightarrow>
     (\<forall>c \<in> set (children M e). m_fScalar (m_group M c)))"

lemma scalar_groups_rep: "memo_ok C M \<Longrightarrow> p \<in> grps M \<Longrightarrow> m_fScalar (m_group M p) \<Longrightarrow> rep_of M p \<noteq> None"
  using memo_okD(10) [of C M p] by (auto simp: scalar_rep_ok_def split: option.splits)

lemma entered_new_group:
  assumes ok: "memo_ok C M" and fr: "fresh C M e" and ks: "kids_scalar C M e" and p: "p = m_ngroups M"
    and nm: "\<And>f. f \<in> registered M \<Longrightarrow> sht_GetBucketIndex C M f = sht_GetBucketIndex C M e \<Longrightarrow> \<not> matches C M e f \<and> \<not> matches C M f e"
    and en: "entered C e p (with_group (op_FScalar C (pop_of M e)) M) M2"
    and M4: "M4 = (if op_FScalar C (pop_of M e) then with_rep p (fst (rep_for C M e)) (snd (rep_for C M e)) (listed_as p pdp M2)
                   else listed_as p pdp M2)"
  shows "memo_ok C M4" and "group_of M4 e = Some p" and "M = snd (gexpr_alloc x M0) \<Longrightarrow> e = m_ngexprs M0 \<Longrightarrow> keeps M0 M4"
    and "m_listGroups M4 = p # m_listGroups M" and "m_fScalar (m_group M4 p) = op_FScalar C (pop_of M e)"
proof -
  let ?s = "op_FScalar C (pop_of M e)" and ?b = "sht_GetBucketIndex C M e"
  have ch: "set (children M e) \<subseteq> grps M" using fr by (simp add: fresh_def)
  have pn: "p \<notin> grps M" using memo_ok_count(2) [OF ok] p by blast
  have b: "sht_GetBucketIndex C (with_group ?s M) e = ?b" by (rule with_group_bucket [OF ok ch])
  have prod: "producer C (with_group s M) e = producer C M e" for s by (simp add: producer_def)
  obtain X G where M2: "M2 = (with_group ?s M)\<lparr>m_gexpr := (m_gexpr M)(e := X), m_group := (m_group M)(p := G),
       m_chain := (m_chain M)(?b := e # m_chain M ?b), m_size := m_size M + 1\<rparr>"
    and X: "m_pop X = pop_of M e" "m_pdrgpgroup X = children M e" "m_pdrgpgroupSorted X = m_pdrgpgroupSorted (m_gexpr M e)"
     "m_pgroup X = Some p"
    and G: "m_fScalar G = ?s" "m_pgroupDuplicate G = None" "m_listGExprs G = [e]" "m_listDupGExprs G = []" "m_ulGExprs G = 1"
     "g_estate G = estUnexplored" "m_pccDummy G = False"
     "m_ulCTEProducerId G = (if producer C M e then the (op_UlCTEProducerId C (pop_of M e)) else gpos_ulong_max)"
    using en by (auto simp: entered_def b prod p CGroup_ctor_def)
  define H where "H = m_group M4 p"
  have H: "m_fScalar H = ?s" "m_pgroupDuplicate H = None" "m_listGExprs H = [e]" "m_listDupGExprs H = []" "m_ulGExprs H = 1"
     "g_estate H = estUnexplored" "g_id H = m_aul M" "m_pdp H = Some pdp" "m_ulCTEProducerId H = m_ulCTEProducerId G"
    unfolding H_def using G by (simp_all add: M4 M2 listed_as_def with_rep_def)
  have eq: "M4 = (with_group ?s M)\<lparr>m_gexpr := (m_gexpr M)(e := X), m_group := (m_group M)(p := H),
       m_chain := (m_chain M)(?b := e # m_chain M ?b), m_size := m_size M + 1, m_aul := m_aul M + 1,
       m_listGroups := p # m_listGroups M, m_ulpGrps := m_ulpGrps M + 1\<rparr>"
    unfolding H_def by (simp add: M4 M2 listed_as_def with_rep_def)
  show grp: "group_of M4 e = Some p" by (simp add: eq X)
  show list: "m_listGroups M4 = p # m_listGroups M" by (simp add: eq)
  show "m_fScalar (m_group M4 p) = ?s" using H by (simp add: H_def)
  have ad: "adds C e p M M4"
    unfolding adds_def using pn H(1-5,8,9) G(8) by (simp add: eq X p)
  have old: "m_group M4 q = m_group M q" if "q \<in> grps M" for q using that pn by (auto simp: eq)
  have lk: "links_ok M4"
  proof -
    have lM: "links_ok M" by (rule memo_okD(1) [OF ok])
    have lt: "id_of M4 q < m_aul M" if "q \<in> grps M" for q using links_okD(1) [OF lM that] old [OF that] by simp
    have idp: "id_of M4 p = m_aul M" using H(7) by (simp add: eq)
    have "id_of M4 p \<notin> id_of M4 ` grps M" unfolding idp using lt by fastforce
    moreover have "id_of M4 p = m_aul M" "dup_of M4 p = None" "m_aul M4 = m_aul M + 1" using H by (simp_all add: eq)
    moreover have "inj_on (id_of M4) (grps M)" using lM old by (simp add: links_ok_def inj_on_def)
    moreover have "r \<in> grps M \<and> id_of M4 q < id_of M4 r" if "q \<in> grps M" "dup_of M4 q = Some r" for q r
      using links_okD(2) [OF lM that(1)] that old by auto
    ultimately show ?thesis unfolding links_ok_def list using lt by (auto simp: less_SucI)
  qed
  have num: "numbered M4"
  proof -
    have "map (id_of M4) (m_listGroups M) = map (id_of M) (m_listGroups M)" using old by simp
    moreover have "id_of M4 p = m_aul M" "m_aul M4 = m_aul M + 1" "m_ulpGrps M4 = m_ulpGrps M + 1" using H(7) by (simp_all add: eq)
    ultimately show ?thesis using memo_okD(5) [OF ok] by (simp only: numbered_def list) simp
  qed
  have sc: "scalar_rep_ok C M4 p" if s: "m_fScalar (m_group M4 p)"
  proof -
    have s: ?s using s H(1) by (simp add: H_def)
    have new: "rep_of M4 p = Some (fst (rep_for C M e))" "m_pexprScalarRepIsExact (m_group M4 p) = snd (rep_for C M e)"
      "m_pccDummy (m_group M4 p)" "gexprs_of M4 p = [e]" "m_gexpr M4 e = X"
      using s H(3) by (simp_all add: M4 with_rep_def listed_as_def H_def) (simp add: M2)
    have sub: "op_SubqueryDummy C (pop_of M4 e) = op_SubqueryDummy C (pop_of M e)" "children M4 e = children M e"
      "pop_of M4 e = pop_of M e" using new(5) X by simp_all
    show ?thesis
    proof (cases "op_SubqueryDummy C (pop_of M e)")
      case (Some d)
      then show ?thesis using new sub by (simp add: scalar_rep_ok_def rep_for_def)
    next
      case None
      have c: "m_group M4 c = m_group M c \<and> m_fScalar (m_group M c) \<and> rep_of M c \<noteq> None" if "c \<in> set (children M e)" for c
        using that ks s None ch old scalar_groups_rep [OF ok] by (auto simp: kids_scalar_def)
      then have "map (\<lambda>c. the (rep_of M4 c)) (children M e) = map (\<lambda>c. the (rep_of M c)) (children M e)"
        "(\<forall>c \<in> set (children M e). m_pexprScalarRepIsExact (m_group M4 c)) =
         (\<forall>c \<in> set (children M e). m_pexprScalarRepIsExact (m_group M c))"
        "\<forall>c \<in> set (children M e). m_fScalar (m_group M4 c) \<and> rep_of M4 c \<noteq> None" by simp_all
      then show ?thesis using new(1-4) sub None unfolding scalar_rep_ok_def rep_for_def by simp
    qed
  qed
  show "memo_ok C M4" by (rule adds_ok [OF ok fr ad nm lk num sc])
  show "keeps M0 M4" if k: "M = snd (gexpr_alloc x M0)" "e = m_ngexprs M0"
    using H(2,6) p k by (simp add: keeps_def eq)
qed

section \<open>What is in the memo\<close>

definition key_matches :: "'op COperator_class \<Rightarrow> ('op, 'p) CMemo \<Rightarrow> 'op \<Rightarrow> nat list \<Rightarrow> nat \<Rightarrow> bool" where
  "key_matches C M pop cs f \<longleftrightarrow> op_Matches C pop (pop_of M f) \<and> length cs = length (children M f) \<and>
     (if length cs \<le> 1 \<or> op_FInputOrderSensitive C pop then list_all2 (g_FDuplicateGroups M) cs (children M f)
      else list_all2 (g_FDuplicateGroups M) (sort_key (Address C) cs) (sort_key (Address C) (children M f)))"

definition key_bucket :: "'op COperator_class \<Rightarrow> ('op, 'p) CMemo \<Rightarrow> 'op \<Rightarrow> nat list \<Rightarrow> nat" where
  "key_bucket C M pop cs = unat (id_hash C M pop cs) mod m_nbuckets M"

text \<open>
  The expression \<open>t\<close> is in the memo with the root in group \<open>p\<close>: the table has an expression that matches its
  operator over the groups its children are in, in the bucket for that key.
\<close>

inductive stored :: "'op COperator_class \<Rightarrow> ('op, 'p) CMemo \<Rightarrow> 'op CExpression \<Rightarrow> nat \<Rightarrow> bool" for C M where
  stored_leaf: "e \<in> registered M \<Longrightarrow> group_of M e = Some p \<Longrightarrow> stored C M (CExpression pop (Some e) ts) p"
| stored_node: "list_all2 (stored C M) ts cs \<Longrightarrow> f \<in> live M \<Longrightarrow> group_of M f = Some p \<Longrightarrow> key_matches C M pop cs f \<Longrightarrow>
    sht_GetBucketIndex C M f = key_bucket C M pop cs \<Longrightarrow> stored C M (CExpression pop None ts) p"

inductive_cases stored_leafE: "stored C M (CExpression pop (Some e) ts) p"
inductive_cases stored_nodeE: "stored C M (CExpression pop None ts) p"

lemma matches_key: "matches C M e f \<longleftrightarrow> key_matches C M (pop_of M e) (children M e) f"
  by (simp add: matches_def key_matches_def in_order_def)

lemma bucket_key: "memo_ok C M \<Longrightarrow> set (children M e) \<subseteq> grps M \<Longrightarrow> sht_GetBucketIndex C M e = key_bucket C M (pop_of M e) (children M e)"
  unfolding sht_GetBucketIndex_def key_bucket_def
  by (subst ge_HashValue_ids) (auto dest: memo_ok_count(1))

lemma keeps_grps: "keeps M M' \<Longrightarrow> grps M \<subseteq> grps M'"
  using keepsD(15) [of M M'] by auto

lemma keeps_chain: "keeps M M' \<Longrightarrow> f \<in> set (m_chain M b) \<Longrightarrow> f \<in> set (m_chain M' b)"
  using keepsD(14) [of M M' b] by auto

lemma keeps_live: "keeps M M' \<Longrightarrow> live M \<subseteq> live M'"
  unfolding live_def sht_entries_def using keepsD(1) [of M M'] by (auto dest: keeps_chain)

lemma key_keeps:
  assumes "memo_ok C M" and "keeps M M'" and "set cs \<subseteq> grps M" and "f \<in> live M"
  shows "key_matches C M' pop cs f = key_matches C M pop cs f" and "key_bucket C M' pop cs = key_bucket C M pop cs"
    and "m_gexpr M' f = m_gexpr M f" and "set (children M f) \<subseteq> grps M"
proof -
  have f: "f \<in> registered M" using assms(4) memo_ok_live [OF assms(1)] by simp
  show ge: "m_gexpr M' f = m_gexpr M f" using memo_ok_registered(2) [OF assms(1) f] keepsD(5) [OF assms(2)] by blast
  show ch: "set (children M f) \<subseteq> grps M" by (rule memo_ok_registered(3) [OF assms(1) f])
  have old: "id_of M' p = id_of M p" "dup_of M' p = dup_of M p" if "p \<in> grps M" for p
    using memo_ok_count(2) [OF assms(1) that] keepsD(6,7) [OF assms(2)] by auto
  have g: "g_FDuplicateGroups M' a b = g_FDuplicateGroups M a b" if "a \<in> grps M" "b \<in> grps M" for a b
    using old that by (simp add: g_FDuplicateGroups_def)
  have l: "list_all2 (g_FDuplicateGroups M') xs ys = list_all2 (g_FDuplicateGroups M) xs ys"
    if "set xs \<subseteq> grps M" "set ys \<subseteq> grps M" for xs ys
    using that g by (intro list.rel_cong) auto
  show "key_matches C M' pop cs f = key_matches C M pop cs f"
    using assms(3) ch l by (simp add: key_matches_def ge)
  show "key_bucket C M' pop cs = key_bucket C M pop cs"
  proof -
    have "id_hash C M' pop cs = id_hash C M pop cs" using assms(3) old(1) by (intro id_hash_cong) auto
    then show ?thesis using keepsD(1) [OF assms(2)] by (simp add: key_bucket_def)
  qed
qed

lemma stored_grps:
  assumes "memo_ok C M" and "stored C M t p"
  shows "p \<in> grps M"
proof -
  obtain f where "f \<in> registered M" "group_of M f = Some p"
    using assms(2) memo_ok_live [OF assms(1)] by (cases rule: stored.cases) auto
  then show ?thesis using memo_ok_registered(1) [OF assms(1)] by fastforce
qed

lemma stored_list_grps: "memo_ok C M \<Longrightarrow> list_all2 (stored C M) ts cs \<Longrightarrow> set cs \<subseteq> grps M"
  by (auto simp: list_all2_conv_all_nth in_set_conv_nth) (metis in_set_conv_nth stored_grps)

lemma stored_keeps:
  assumes ok: "memo_ok C M" and ok': "memo_ok C M'" and k: "keeps M M'" and st: "stored C M t p"
  shows "stored C M' t p"
  using st
proof (induction rule: stored.induct)
  case (stored_leaf e p pop ts)
  then have "e \<in> live M" using memo_ok_live [OF ok] by simp
  then show ?case
    using key_keeps(3) [OF ok k, of "[]" e] keeps_live [OF k] memo_ok_live [OF ok'] stored_leaf
    by (intro stored.stored_leaf) auto
next
  case (stored_node ts cs f p pop)
  have cs: "set cs \<subseteq> grps M"
    by (rule stored_list_grps [OF ok, of ts], rule list_all2_mono [OF stored_node.IH]) simp
  note kk = key_keeps [OF ok k cs stored_node.hyps(1)]
  have fl: "f \<in> live M'" using stored_node.hyps(1) keeps_live [OF k] by blast
  have "sht_GetBucketIndex C M' f = sht_GetBucketIndex C M f"
    using kk(3,4) bucket_key [OF ok kk(4)] bucket_key [OF ok', of f] keeps_grps [OF k]
      key_keeps(2) [OF ok k kk(4) stored_node.hyps(1)] by auto
  moreover have "list_all2 (stored C M') ts cs" using stored_node.IH by (rule list_all2_mono) simp
  ultimately show ?case using kk fl stored_node.hyps by (intro stored.stored_node [of _ _ ts cs f]) auto
qed

section \<open>Inserting one expression\<close>

text \<open>What an expression over given child groups needs to be inserted, with or without a target group.\<close>

definition node_ok :: "'op COperator_class \<Rightarrow> ('op, 'p) CMemo \<Rightarrow> nat option \<Rightarrow> 'op \<Rightarrow> nat list \<Rightarrow> bool" where
  "node_ok C M tgt pop cs \<longleftrightarrow> (op_FPhysicalSequence C pop \<longrightarrow> cs \<noteq> []) \<and>
     (case tgt of
        None \<Rightarrow> \<not> op_FPhysical C pop \<and>
          (op_FScalar C pop \<longrightarrow> op_SubqueryDummy C pop = None \<longrightarrow> (\<forall>c \<in> set cs. m_fScalar (m_group M c)))
      | Some p \<Rightarrow> p \<in> grps M \<and> \<not> m_fScalar (m_group M p) \<and> \<not> op_FScalar C pop \<and>
          \<not> (op_FLogical C pop \<and> op_UlCTEProducerId C pop \<noteq> None))"

context operator_laws
begin

lemma no_match:
  assumes ok: "memo_ok C M" and fr: "fresh C M e"
    and none: "List.find (matches C M e) (m_chain M (sht_GetBucketIndex C M e)) = None"
    and f: "f \<in> registered M" "sht_GetBucketIndex C M f = sht_GetBucketIndex C M e"
  shows "\<not> matches C M e f \<and> \<not> matches C M f e"
proof -
  obtain b where "b < m_nbuckets M" "f \<in> set (m_chain M b)"
    using f(1) memo_ok_live [OF ok] unfolding live_iff [symmetric] by (metis live_iff)
  moreover from this have "b = sht_GetBucketIndex C M e" using memo_okD(7) [OF ok] f(2) by (auto simp: buckets_ok_def)
  ultimately have "\<not> matches C M e f" using none by (auto simp: find_None_iff)
  then show ?thesis using matches_sym by blast
qed

lemma memo_PgroupInsert_found:
  assumes ok: "memo_ok C M" and fr: "fresh C M e" and len: "length (children M e) = length (PdrgPexpr pexpr)"
    and found: "List.find (matches C M e) (m_chain M (sht_GetBucketIndex C M e)) = Some f"
  shows "\<exists>p. memo_PgroupInsert C D tgt pexpr e M = Inr (p, M) \<and> p \<in> grps M \<and> f \<in> live M \<and> group_of M f = Some p \<and>
    m_fScalar (m_group M p) = op_FScalar C (pop_of M e) \<and> key_matches C M (pop_of M e) (children M e) f \<and>
    sht_GetBucketIndex C M f = key_bucket C M (pop_of M e) (children M e)"
proof -
  let ?b = "sht_GetBucketIndex C M e"
  have f: "f \<in> set (m_chain M ?b)" "matches C M e f" using found by (auto simp: find_Some_iff)
  then have fr: "f \<in> registered M" using Find_ok(2) [OF ok fr] by blast
  obtain p where p: "p \<in> grps M" "group_of M f = Some p" "f \<in> set (gexprs_of M p)"
    using memo_ok_registered(1) [OF ok fr] by blast
  have b: "?b < m_nbuckets M" using memo_okD(3) [OF ok] by (simp add: table_agrees_def ge_HashValue_bucket)
  have "m_fScalar (m_group M p) = op_FScalar C (pop_of M f)" using memo_okD(6) [OF ok] p by (simp add: groups_ok_def)
  then have s: "m_fScalar (m_group M p) = op_FScalar C (pop_of M e)"
    using f(2) Matches_scalar [of "pop_of M e" "pop_of M f"] by (simp add: matches_def)
  have "sht_GetBucketIndex C M f = ?b" using memo_okD(7) [OF ok] f(1) b by (simp add: buckets_ok_def)
  moreover have "?b = key_bucket C M (pop_of M e) (children M e)"
    using assms(2) by (intro bucket_key [OF ok]) (simp add: fresh_def)
  moreover have "memo_PgroupInsert C D tgt pexpr e M = Inr (p, M)"
    using len Find_ok(1) [OF ok assms(2)] found p(2)
    by (cases tgt) (simp_all add: memo_PgroupInsert_def memo_FNewGroup_def Let_def)
  moreover have "f \<in> live M" using fr memo_ok_live [OF ok] by simp
  ultimately show ?thesis using p f(2) s by (auto simp: matches_key)
qed

end

lemma entered_live:
  assumes en: "entered C e p M M'" and b: "sht_GetBucketIndex C M e < m_nbuckets M"
  shows "e \<in> live M'"
  using assms by (auto simp: entered_def live_iff)

context operator_laws
begin

lemma memo_PgroupInsert_target:
  assumes ok: "memo_ok C M" and fr: "fresh C M e" and len: "length (children M e) = length (PdrgPexpr pexpr)"
    and new: "group_of M e = None" "ge_id (m_gexpr M e) = GPOPT_INVALID_GEXPR_ID"
    and none: "List.find (matches C M e) (m_chain M (sht_GetBucketIndex C M e)) = None"
    and node: "node_ok C M (Some p) (pop_of M e) (children M e)"
  shows "\<exists>M'. memo_PgroupInsert C D (Some p) pexpr e M = Inr (p, M') \<and> entered C e p M M' \<and> memo_ok C M' \<and>
    (\<forall>x M0. M = snd (gexpr_alloc x M0) \<longrightarrow> e = m_ngexprs M0 \<longrightarrow> keeps M0 M')"
proof -
  have p: "p \<in> grps M" "\<not> m_fScalar (m_group M p)" "\<not> op_FScalar C (pop_of M e)" "\<not> producer C M e"
    "op_FPhysicalSequence C (pop_of M e) \<Longrightarrow> children M e \<noteq> []"
    using node by (auto simp: node_ok_def producer_def)
  have pos: "m_ulGExprs (m_group M c) \<noteq> 0" if "c \<in> set (children M e)" for c
    using that fr memo_ok_count(1) [OF ok] by (auto simp: fresh_def)
  obtain M' where M': "gp_Insert C p e (sht_Insert C e M) = Inr M'" "entered C e p M M'"
    using gp_Insert_entered [of M e C p] new p(4,5) pos by blast
  note t = entered_adds_target [OF ok fr M'(2) p(1-3) no_match [OF ok fr none]]
  have "m_fScalar (m_group M' p) = m_fScalar (m_group M p)" using M'(2) by (auto simp: entered_def)
  then have "memo_PgroupInsert C D (Some p) pexpr e M = Inr (p, M')"
    using len Find_ok(1) [OF ok fr] none M'(1) t(2)
    by (simp add: memo_PgroupInsert_def memo_FNewGroup_def memo_PgroupInsert_helper_def Let_def)
  then show ?thesis using M'(2) t by blast
qed

lemma memo_PgroupInsert_new:
  assumes ok: "memo_ok C M" and fr: "fresh C M e" and len: "length (children M e) = length (PdrgPexpr pexpr)"
    and new: "group_of M e = None" "ge_id (m_gexpr M e) = GPOPT_INVALID_GEXPR_ID"
    and none: "List.find (matches C M e) (m_chain M (sht_GetBucketIndex C M e)) = None"
    and node: "node_ok C M None (pop_of M e) (children M e)" and pop: "Pop pexpr = pop_of M e"
  shows "\<exists>M'. memo_PgroupInsert C D None pexpr e M = Inr (m_ngroups M, M') \<and> memo_ok C M' \<and> group_of M' e = Some (m_ngroups M) \<and>
    e \<in> live M' \<and> m_listGroups M' = m_ngroups M # m_listGroups M \<and> pop_of M' e = pop_of M e \<and> children M' e = children M e \<and>
    m_fScalar (m_group M' (m_ngroups M)) = op_FScalar C (pop_of M e) \<and>
    (\<forall>x M0. M = snd (gexpr_alloc x M0) \<longrightarrow> e = m_ngexprs M0 \<longrightarrow> keeps M0 M')"
proof -
  let ?s = "op_FScalar C (pop_of M e)" and ?p = "m_ngroups M"
  let ?G = "with_group ?s M"
  have nd: "op_FPhysicalSequence C (pop_of M e) \<Longrightarrow> children M e \<noteq> []" "\<not> op_FPhysical C (Pop pexpr)" and ks: "kids_scalar C M e"
    using node pop by (simp_all add: node_ok_def kids_scalar_def)
  have ch: "set (children M e) \<subseteq> grps M" using fr by (simp add: fresh_def)
  have pn: "?p \<notin> grps M" using memo_ok_count(2) [OF ok] by blast
  have pos: "m_ulGExprs (m_group ?G c) \<noteq> 0" if "c \<in> set (children ?G e)" for c
    using that ch memo_ok_count(1) [OF ok] with_group_old [OF ok, of c ?s] by auto
  have find: "sht_Find C M e = Inr None" "sht_Find C ?G e = Inr None"
    using Find_ok(1) [OF ok fr] with_group_Find [OF ok fr] none by simp_all
  obtain M2 where M2: "gp_Insert C ?p e (sht_Insert C e ?G) = Inr M2" "entered C e ?p ?G M2"
    using gp_Insert_entered [of ?G e C ?p] new nd(1) pos by (auto simp: CGroup_ctor_def)
  let ?M3 = "listed_as ?p (D pexpr) M2"
  have sel2: "id_of M2 ?p = GPOPT_INVALID_GROUP_ID" "m_pdp (m_group M2 ?p) = None" "m_fScalar (m_group M2 ?p) = ?s"
    "gexprs_of M2 ?p = [e]" "m_listGroups M2 = m_listGroups M" "group_of M2 e = Some ?p" "pop_of M2 e = pop_of M e"
    "children M2 e = children M e" "rep_of M2 ?p = None" "\<not> m_pccDummy (m_group M2 ?p)"
    using M2(2) by (auto simp: entered_def CGroup_ctor_def)
  have old2: "m_group M2 q = m_group M q" if "q \<in> grps M" for q
    using M2(2) that pn by (auto simp: entered_def)
  have add: "memo_Add C D ?p pexpr M2 = Inr ?M3"
    using nd(2) pop pn sel2(1-5) by (intro memo_Add_effect) auto
  have sel3: "m_fScalar (m_group ?M3 ?p) = ?s" "group_of ?M3 e = Some ?p" "gexprs_of ?M3 ?p = [e]" "pop_of ?M3 e = pop_of M e"
    "children ?M3 e = children M e" "rep_of ?M3 ?p = None" "\<not> m_pccDummy (m_group ?M3 ?p)" "m_gexpr ?M3 = m_gexpr M2"
    using sel2 by (simp_all add: listed_as_def)
  have old3: "m_group ?M3 q = m_group M q" if "q \<in> grps M" for q
    using old2 [OF that] that pn by (auto simp: listed_as_def)
  have rep: "rep_for C ?M3 e = rep_for C M e"
  proof -
    have c: "m_group ?M3 c = m_group M c" if "c \<in> set (children M e)" for c using that old3 ch by blast
    then have "map (\<lambda>c. the (rep_of ?M3 c)) (children M e) = map (\<lambda>c. the (rep_of M c)) (children M e)" by simp
    moreover have "(\<forall>c \<in> set (children M e). m_pexprScalarRepIsExact (m_group ?M3 c)) =
      (\<forall>c \<in> set (children M e). m_pexprScalarRepIsExact (m_group M c))" using c by simp
    ultimately show ?thesis
      unfolding rep_for_def sel3(4,5) by (cases "op_SubqueryDummy C (pop_of M e)") (simp_all only: option.case)
  qed
  have scalar: "rbind (g_CreateScalarExpression C ?p ?M3) (g_CreateDummyCostContext ?p) =
      Inr (with_rep ?p (fst (rep_for C M e)) (snd (rep_for C M e)) ?M3)" if s: ?s
  proof -
    have "\<forall>c \<in> set (children ?M3 e). m_ulGExprs (m_group ?M3 c) \<noteq> 0 \<and> m_fScalar (m_group ?M3 c) \<and> rep_of ?M3 c \<noteq> None"
      if sub: "op_SubqueryDummy C (pop_of ?M3 e) = None"
      using ks s sub sel3(4,5) old3 ch memo_ok_count(1) [OF ok] scalar_groups_rep [OF ok] unfolding kids_scalar_def
      by (metis subsetD)
    then show ?thesis using scalar_effect [of ?M3 ?p e C] sel3 s rep by simp
  qed
  define M4 where "M4 = (if ?s then with_rep ?p (fst (rep_for C M e)) (snd (rep_for C M e)) ?M3 else ?M3)"
  have en: "group_of M4 e = Some ?p" "pop_of M4 e = pop_of M e" "children M4 e = children M e" "m_chain M4 = m_chain M2" "m_nbuckets M4 = m_nbuckets M2"
    using sel3 by (simp_all add: M4_def with_rep_def listed_as_def)
  have "sht_GetBucketIndex C ?G e < m_nbuckets ?G"
    using memo_okD(3) [OF ok] by (intro ge_HashValue_bucket) (simp add: table_agrees_def)
  then have "e \<in> live M4" using entered_live [OF M2(2)] by (simp add: live_def sht_entries_def en)
  moreover have "memo_PgroupInsert C D None pexpr e M = Inr (?p, M4)"
  proof -
    have ng: "memo_FNewGroup None None ?s M = (True, Some ?p, ?G)" by (simp add: memo_FNewGroup_def with_group_def)
    have hl: "memo_PgroupInsert_helper C D ?p e pexpr True ?G = Inr (?p, ?M3)"
      using find(2) M2(1) add sel3(2) by (simp add: memo_PgroupInsert_helper_def)
    show ?thesis
    proof (cases ?s)
      case True
      have "rbind (g_CreateScalarExpression C ?p ?M3) (\<lambda>M3. rbind (g_CreateDummyCostContext ?p M3) (\<lambda>M4. Inr (?p, M4))) =
         rbind (rbind (g_CreateScalarExpression C ?p ?M3) (g_CreateDummyCostContext ?p)) (\<lambda>M4. Inr (?p, M4))"
        by (simp add: rbind_assoc)
      then show ?thesis using True scalar len find(1) ng hl sel3(1,2) by (simp add: memo_PgroupInsert_def Let_def M4_def)
    next
      case False
      then show ?thesis using len find(1) ng hl sel3(1,2) by (simp add: memo_PgroupInsert_def Let_def M4_def)
    qed
  qed
  moreover note entered_new_group [OF ok fr ks refl no_match [OF ok fr none] M2(2) M4_def]
  ultimately show ?thesis using en by blast
qed

text \<open>The three cases together, with the allocation of the group expression.\<close>

lemma insert_node:
  assumes ok: "memo_ok C M0" and x: "CGroupExpression_ctor C pop cs ex orig im = Inr x"
    and al: "gexpr_alloc x M0 = (e, M)" and cs: "set cs \<subseteq> grps M0" and len: "length cs = length ts"
    and node: "node_ok C M0 tgt pop cs"
  shows "\<exists>p M' f. memo_PgroupInsert C D tgt (CExpression pop pg ts) e M = Inr (p, M') \<and> memo_ok C M' \<and> keeps M0 M' \<and> p \<in> grps M' \<and>
    m_fScalar (m_group M' p) = op_FScalar C pop \<and> f \<in> live M' \<and> group_of M' f = Some p \<and> key_matches C M' pop cs f \<and>
    sht_GetBucketIndex C M' f = key_bucket C M' pop cs"
proof -
  have M: "M = snd (gexpr_alloc x M0)" and e: "e = m_ngexprs M0" using al by (auto simp: gexpr_alloc_def)
  have okM: "memo_ok C M" and kM: "keeps M0 M" unfolding M by (rule alloc_ok [OF ok], rule alloc_keeps)
  have ge: "m_gexpr M e = x" by (simp add: M e)
  have xs: "m_pop x = pop" "m_pdrgpgroup x = cs" "m_pgroup x = None" "ge_id x = GPOPT_INVALID_GEXPR_ID"
    "m_pdrgpgroupSorted x = (if 1 < length cs \<and> \<not> op_FInputOrderSensitive C pop then Some (sort_key (Address C) cs) else None)"
    using x by (auto simp: CGroupExpression_ctor_def gpos_assert_eq_Inr_iff)
  have "e \<notin> registered M0" using memo_ok_registered(2) [OF ok, of e] e by blast
  moreover have "registered M = registered M0" by (simp add: M registered_def)
  moreover have "sorted_ok C M e" by (auto simp: sorted_ok_def in_order_def ge xs)
  moreover have "set cs \<subseteq> grps M" "e < m_ngexprs M" using cs by (simp_all add: M e)
  ultimately have fr: "fresh C M e" by (simp add: fresh_def ge xs)
  have grpM: "grps M = grps M0" "m_group M = m_group M0" by (simp_all add: M)
  have nodeM: "node_ok C M tgt (pop_of M e) (children M e)"
    using node by (simp add: node_ok_def ge xs grpM split: option.splits)
  let ?t = "CExpression pop pg ts" and ?b = "sht_GetBucketIndex C M e"
  have lenM: "length (children M e) = length (PdrgPexpr ?t)" using len by (simp add: ge xs)
  have newM: "group_of M e = None" "ge_id (m_gexpr M e) = GPOPT_INVALID_GEXPR_ID" by (simp_all add: ge xs)
  show ?thesis
  proof (cases "List.find (matches C M e) (m_chain M ?b)")
    case (Some f)
    from memo_PgroupInsert_found [OF okM fr lenM Some, of D tgt] show ?thesis
      using okM kM by (auto simp: ge xs)
  next
    case None
    show ?thesis
    proof (cases tgt)
      case t: None
      note r = memo_PgroupInsert_new [OF okM fr lenM newM None nodeM [unfolded t], of D]
      then obtain M' where M': "memo_PgroupInsert C D None ?t e M = Inr (m_ngroups M, M')" "memo_ok C M'"
        "group_of M' e = Some (m_ngroups M)" "e \<in> live M'" "m_listGroups M' = m_ngroups M # m_listGroups M"
        "pop_of M' e = pop" "children M' e = cs" "m_fScalar (m_group M' (m_ngroups M)) = op_FScalar C pop" "keeps M0 M'"
        using M e by (auto simp: ge xs)
      have "key_matches C M' pop cs e" using matches_refl [of M' e] M'(6,7) by (simp add: matches_key)
      moreover have "sht_GetBucketIndex C M' e = key_bucket C M' pop cs"
        using bucket_key [OF M'(2), of e] M'(5-7) cs grpM by auto
      ultimately show ?thesis using M' t by auto
    next
      case t: (Some p)
      obtain M' where M': "memo_PgroupInsert C D (Some p) ?t e M = Inr (p, M')" "entered C e p M M'" "memo_ok C M'" "keeps M0 M'"
        using memo_PgroupInsert_target [OF okM fr lenM newM None nodeM [unfolded t], of D] M e by blast
      have g: "pop_of M' e = pop" "children M' e = cs" "group_of M' e = Some p" "m_fScalar (m_group M' p) = m_fScalar (m_group M p)"
        "grps M' = grps M" using M'(2) by (auto simp: entered_def ge xs)
      have "?b < m_nbuckets M" using memo_okD(3) [OF okM] by (simp add: table_agrees_def ge_HashValue_bucket)
      then have live: "e \<in> live M'" by (rule entered_live [OF M'(2)])
      have "key_matches C M' pop cs e" using matches_refl [of M' e] g by (simp add: matches_key)
      moreover have "sht_GetBucketIndex C M' e = key_bucket C M' pop cs"
        using bucket_key [OF M'(3), of e] g cs grpM by auto
      moreover have "p \<in> grps M" "m_fScalar (m_group M p) = op_FScalar C pop"
        using nodeM t by (simp_all add: node_ok_def ge xs)
      ultimately show ?thesis using M'(1,3,4) g live t by auto
    qed
  qed
qed

end

section \<open>Inserting trees\<close>

text \<open>
  Well-formed trees: a leaf that stands for a group names an expression of the memo; the other operators are
  not physical, and a scalar operator that is not a subquery has scalar children.
\<close>

definition tree_scalar :: "'op COperator_class \<Rightarrow> ('op, 'p) CMemo \<Rightarrow> 'op CExpression \<Rightarrow> bool" where
  "tree_scalar C M t = (case Pgexpr t of None \<Rightarrow> op_FScalar C (Pop t) | Some e \<Rightarrow> m_fScalar (m_group M (the (group_of M e))))"

fun tree_ok :: "'op COperator_class \<Rightarrow> ('op, 'p) CMemo \<Rightarrow> 'op CExpression \<Rightarrow> bool" where
  "tree_ok C M (CExpression pop (Some e) ts) = (e \<in> registered M)"
| "tree_ok C M (CExpression pop None ts) =
     (\<not> op_FPatternLeaf C pop \<and> \<not> op_FPhysical C pop \<and> (op_FPhysicalSequence C pop \<longrightarrow> ts \<noteq> []) \<and>
      (op_FScalar C pop \<longrightarrow> op_SubqueryDummy C pop = None \<longrightarrow> list_all (tree_scalar C M) ts) \<and> list_all (tree_ok C M) ts)"

text \<open>A tree for a group that exists: the root is neither scalar nor a CTE producer, and may be physical.\<close>

definition alternative_ok :: "'op COperator_class \<Rightarrow> ('op, 'p) CMemo \<Rightarrow> nat \<Rightarrow> 'op CExpression \<Rightarrow> bool" where
  "alternative_ok C M p t \<longleftrightarrow> Pgexpr t = None \<and> p \<in> grps M \<and> \<not> m_fScalar (m_group M p) \<and> \<not> op_FScalar C (Pop t) \<and>
     \<not> (op_FLogical C (Pop t) \<and> op_UlCTEProducerId C (Pop t) \<noteq> None) \<and>
     (op_FPhysicalSequence C (Pop t) \<longrightarrow> PdrgPexpr t \<noteq> []) \<and> list_all (tree_ok C M) (PdrgPexpr t)"

lemma tree_scalar_keeps:
  assumes "memo_ok C M" and "keeps M M'" and "tree_ok C M t"
  shows "tree_scalar C M' t = tree_scalar C M t"
proof (cases "Pgexpr t")
  case None
  then show ?thesis by (simp add: tree_scalar_def)
next
  case (Some e)
  then have e: "e \<in> registered M" using assms(3) by (cases t) auto
  obtain p where p: "p \<in> grps M" "group_of M e = Some p" using memo_ok_registered(1) [OF assms(1) e] by blast
  moreover have "m_gexpr M' e = m_gexpr M e" using memo_ok_registered(2) [OF assms(1) e] keepsD(5) [OF assms(2)] by blast
  moreover have "m_fScalar (m_group M' p) = m_fScalar (m_group M p)"
    using memo_ok_count(2) [OF assms(1) p(1)] keepsD(9) [OF assms(2)] by blast
  ultimately show ?thesis using Some by (simp add: tree_scalar_def)
qed

lemma registered_keeps: "memo_ok C M \<Longrightarrow> memo_ok C M' \<Longrightarrow> keeps M M' \<Longrightarrow> registered M \<subseteq> registered M'"
  using keeps_live [of M M'] memo_ok_live [of C M] memo_ok_live [of C M'] by simp

lemma tree_ok_keeps:
  assumes "memo_ok C M" and "memo_ok C M'" and "keeps M M'"
  shows "tree_ok C M t \<Longrightarrow> tree_ok C M' t"
proof (induction t)
  case (CExpression pop pg ts)
  show ?case
  proof (cases pg)
    case None
    then have "\<forall>t \<in> set ts. tree_scalar C M' t = tree_scalar C M t"
      using CExpression.prems tree_scalar_keeps [OF assms(1,3)] by (auto simp: list_all_iff)
    then show ?thesis using CExpression None by (auto simp: list_all_iff)
  next
    case (Some e)
    then show ?thesis using CExpression.prems registered_keeps [OF assms] by auto
  qed
qed

context operator_laws
begin

text \<open>What inserting a tree without a target promises.\<close>

definition inserts :: "('op CExpression \<Rightarrow> 'p) \<Rightarrow> nat option \<Rightarrow> nat option \<Rightarrow> bool \<Rightarrow> ('op, 'p) CMemo \<Rightarrow> 'op CExpression \<Rightarrow> bool" where
  "inserts D ex orig im M t \<longleftrightarrow> (\<exists>p M'. eng_PgroupInsert C D None t ex orig im M = Inr (p, M') \<and> memo_ok C M' \<and> keeps M M' \<and>
     stored C M' t p \<and> m_fScalar (m_group M' p) = tree_scalar C M t)"

lemma insert_leaf:
  assumes ok: "memo_ok C M" and e: "e \<in> registered M" and ex: "ex \<noteq> None \<longrightarrow> orig \<noteq> None"
  shows "\<exists>p. eng_PgroupInsert C D None (CExpression pop (Some e) ts) ex orig im M = Inr (p, M) \<and> group_of M e = Some p \<and>
    stored C M (CExpression pop (Some e) ts) p \<and> m_fScalar (m_group M p) = tree_scalar C M (CExpression pop (Some e) ts)"
proof -
  obtain p where "p \<in> grps M" "group_of M e = Some p" using memo_ok_registered(1) [OF ok e] by blast
  then show ?thesis using ex e by (simp add: tree_scalar_def stored_leaf gpos_assert_def)
qed

lemma insert_children:
  assumes "\<forall>t \<in> set ts. \<forall>M :: ('op, 'p) CMemo. memo_ok C M \<longrightarrow> tree_ok C M t \<longrightarrow> inserts D ex orig True M t"
    and "memo_ok C M" and "list_all (tree_ok C M) ts" and ex: "ex \<noteq> None \<longrightarrow> orig \<noteq> None"
  shows "\<exists>cs M'. eng_InsertExpressionChildren C D ts ex orig M = Inr (cs, M') \<and> memo_ok C M' \<and> keeps M M' \<and>
    list_all2 (stored C M') ts cs \<and> list_all2 (\<lambda>t c. m_fScalar (m_group M' c) = tree_scalar C M t) ts cs"
  using assms(1-3)
proof (induction ts arbitrary: M)
  case Nil
  then show ?case by simp
next
  case (Cons t ts)
  have ins: "inserts D ex orig True M t" using Cons.prems by simp
  have "\<exists>p M1. (if op_FPatternLeaf C (Pop t)
            then (case Pgexpr t of
                    None \<Rightarrow> Inl NullDeref
                  | Some e \<Rightarrow> (case m_pgroup (m_gexpr M e) of None \<Rightarrow> Inl AssertFailed | Some p \<Rightarrow> Inr (p, M)))
            else eng_PgroupInsert C D None t ex orig True M) = Inr (p, M1) \<and> memo_ok C M1 \<and> keeps M M1 \<and>
     stored C M1 t p \<and> m_fScalar (m_group M1 p) = tree_scalar C M t"
  proof (cases "op_FPatternLeaf C (Pop t)")
    case False
    then show ?thesis using ins by (simp add: inserts_def)
  next
    case True
    obtain pop pg us where t: "t = CExpression pop pg us" by (cases t)
    then obtain e where pg: "pg = Some e" using True Cons.prems(3) by (cases pg) auto
    then have "e \<in> registered M" using Cons.prems(3) t by simp
    then show ?thesis using insert_leaf [OF Cons.prems(2) _ ex, of e D pop us True] True t pg Cons.prems(2) by auto
  qed
  then obtain p M1 where h: "(if op_FPatternLeaf C (Pop t)
            then (case Pgexpr t of
                    None \<Rightarrow> Inl NullDeref
                  | Some e \<Rightarrow> (case m_pgroup (m_gexpr M e) of None \<Rightarrow> Inl AssertFailed | Some p \<Rightarrow> Inr (p, M)))
            else eng_PgroupInsert C D None t ex orig True M) = Inr (p, M1)"
    and M1: "memo_ok C M1" "keeps M M1" "stored C M1 t p" "m_fScalar (m_group M1 p) = tree_scalar C M t" by blast
  have "list_all (tree_ok C M1) ts"
    using Cons.prems(3) tree_ok_keeps [OF Cons.prems(2) M1(1,2)] by (auto simp: list_all_iff)
  then obtain cs M2 where M2: "eng_InsertExpressionChildren C D ts ex orig M1 = Inr (cs, M2)" "memo_ok C M2" "keeps M1 M2"
    "list_all2 (stored C M2) ts cs" "list_all2 (\<lambda>t c. m_fScalar (m_group M2 c) = tree_scalar C M1 t) ts cs"
    using Cons.IH [OF _ M1(1)] Cons.prems(1) by auto
  have "eng_InsertExpressionChildren C D (t # ts) ex orig M = Inr (p # cs, M2)" using h M2(1) by simp
  moreover have "stored C M2 t p" by (rule stored_keeps [OF M1(1) M2(2,3) M1(3)])
  moreover have "m_fScalar (m_group M2 p) = tree_scalar C M t"
    using M1(4) memo_ok_count(2) [OF M1(1) stored_grps [OF M1(1,3)]] keepsD(9) [OF M2(3)] by simp
  moreover have "list_all2 (\<lambda>t c. m_fScalar (m_group M2 c) = tree_scalar C M t) ts cs"
    using M2(5) tree_scalar_keeps [OF Cons.prems(2) M1(2)] Cons.prems(3)
    by (auto simp: list_all2_conv_all_nth list_all_length)
  ultimately show ?case using M2 keeps_trans [OF M1(2) M2(3)] by auto
qed

lemma ctor_ok: "ex \<noteq> None \<longrightarrow> orig \<noteq> None \<Longrightarrow> \<exists>x. CGroupExpression_ctor C pop cs ex orig im = Inr x"
  by (simp add: CGroupExpression_ctor_def)

lemma insert_tree:
  fixes M :: "('op, 'p) CMemo"
  assumes ex: "ex \<noteq> None \<longrightarrow> orig \<noteq> None"
  shows "memo_ok C M \<Longrightarrow> tree_ok C M t \<Longrightarrow> inserts D ex orig im M t"
proof (induction t arbitrary: M im)
  case (CExpression pop pg ts)
  show ?case
  proof (cases pg)
    case (Some e)
    then show ?thesis using insert_leaf [OF CExpression.prems(1) _ ex, of e D pop ts im] CExpression.prems
      unfolding inserts_def by force
  next
    case None
    have tok: "list_all (tree_ok C M) ts" using CExpression.prems(2) None by simp
    obtain cs M1 where M1: "eng_InsertExpressionChildren C D ts ex orig M = Inr (cs, M1)" "memo_ok C M1" "keeps M M1"
      "list_all2 (stored C M1) ts cs" "list_all2 (\<lambda>t c. m_fScalar (m_group M1 c) = tree_scalar C M t) ts cs"
      using insert_children [OF _ CExpression.prems(1) tok ex, of D] CExpression.IH by blast
    obtain x where x: "CGroupExpression_ctor C pop cs ex orig im = Inr x" using ctor_ok [OF ex] by blast
    obtain e M2 where al: "gexpr_alloc x M1 = (e, M2)" by fastforce
    have len: "length cs = length ts" using M1(4) by (simp add: list_all2_lengthD)
    have cs: "set cs \<subseteq> grps M1" by (rule stored_list_grps [OF M1(2,4)])
    have "\<forall>c \<in> set cs. m_fScalar (m_group M1 c)" if "list_all (tree_scalar C M) ts"
      using that M1(5) by (fastforce simp: list_all2_conv_all_nth list_all_length in_set_conv_nth)
    then have node: "node_ok C M1 None pop cs"
      using CExpression.prems(2) None len by (auto simp: node_ok_def)
    obtain p M' f where M': "memo_PgroupInsert C D None (CExpression pop None ts) e M2 = Inr (p, M')" "memo_ok C M'" "keeps M1 M'"
      "m_fScalar (m_group M' p) = op_FScalar C pop" "f \<in> live M'" "group_of M' f = Some p" "key_matches C M' pop cs f"
      "sht_GetBucketIndex C M' f = key_bucket C M' pop cs"
      using insert_node [OF M1(2) x al cs len node] by metis
    have "eng_PgroupInsert C D None (CExpression pop pg ts) ex orig im M = Inr (p, M')"
      using M1(1) x al M'(1) None ex by (simp add: gpos_assert_def)
    moreover have "list_all2 (stored C M') ts cs"
      using M1(4) stored_keeps [OF M1(2) M'(2,3)] by (rule list_all2_mono)
    then have "stored C M' (CExpression pop None ts) p" using M'(5-8) by (rule stored_node)
    ultimately show ?thesis
      unfolding inserts_def using M' None keeps_trans [OF M1(3) M'(3)] by (auto simp: tree_scalar_def)
  qed
qed

lemma insert_alternative:
  fixes M :: "('op, 'p) CMemo"
  assumes ex: "ex \<noteq> None \<longrightarrow> orig \<noteq> None" and ok: "memo_ok C M" and alt: "alternative_ok C M tgt t"
  shows "\<exists>p M'. eng_PgroupInsert C D (Some tgt) t ex orig im M = Inr (p, M') \<and> memo_ok C M' \<and> keeps M M' \<and> stored C M' t p \<and>
     \<not> m_fScalar (m_group M' p)"
proof -
  obtain pop ts where t: "t = CExpression pop None ts" using alt by (cases t) (auto simp: alternative_ok_def)
  have tok: "list_all (tree_ok C M) ts" using alt t by (simp add: alternative_ok_def)
  obtain cs M1 where M1: "eng_InsertExpressionChildren C D ts ex orig M = Inr (cs, M1)" "memo_ok C M1" "keeps M M1"
    "list_all2 (stored C M1) ts cs"
    using insert_children [OF _ ok tok ex, of D] insert_tree [OF ex] by blast
  obtain x where x: "CGroupExpression_ctor C pop cs ex orig im = Inr x" using ctor_ok [OF ex] by blast
  obtain e M2 where al: "gexpr_alloc x M1 = (e, M2)" by fastforce
  have len: "length cs = length ts" using M1(4) by (simp add: list_all2_lengthD)
  have cs: "set cs \<subseteq> grps M1" by (rule stored_list_grps [OF M1(2,4)])
  have "tgt \<in> grps M1" "\<not> m_fScalar (m_group M1 tgt)"
    using alt keeps_grps [OF M1(3)] memo_ok_count(2) [OF ok, of tgt] keepsD(9) [OF M1(3)] by (auto simp: alternative_ok_def)
  then have node: "node_ok C M1 (Some tgt) pop cs"
    using alt t len by (auto simp: node_ok_def alternative_ok_def)
  obtain p M' f where M': "memo_PgroupInsert C D (Some tgt) (CExpression pop None ts) e M2 = Inr (p, M')" "memo_ok C M'" "keeps M1 M'"
    "m_fScalar (m_group M' p) = op_FScalar C pop" "f \<in> live M'" "group_of M' f = Some p" "key_matches C M' pop cs f"
    "sht_GetBucketIndex C M' f = key_bucket C M' pop cs"
    using insert_node [OF M1(2) x al cs len node] by metis
  have "eng_PgroupInsert C D (Some tgt) t ex orig im M = Inr (p, M')"
    using M1(1) x al M'(1) t ex by (simp add: gpos_assert_def)
  moreover have "list_all2 (stored C M') ts cs"
    using M1(4) stored_keeps [OF M1(2) M'(2,3)] by (rule list_all2_mono)
  then have "stored C M' t p" unfolding t using M'(5-8) by (rule stored_node)
  moreover have "\<not> op_FScalar C pop" using alt t by (simp add: alternative_ok_def)
  ultimately show ?thesis using M' keeps_trans [OF M1(3) M'(3)] by auto
qed

end

end
