(* ===== verification/MemoBuild.thy ===== *)
theory MemoBuild
  imports MemoInsert
begin

text \<open>
  The life of a memo up to the merge: it is made empty, the query is inserted, rules insert their
  results and mark duplicate groups, and groups change their state. The invariant \<open>memo_ok\<close> holds all
  the time; an expression that was inserted is found again; and once every group is explored the memo is
  ready to be merged.
\<close>

section \<open>Finding an expression again\<close>

definition no_dups :: "('op, 'p) CMemo \<Rightarrow> bool" where
  "no_dups M \<longleftrightarrow> (\<forall>p \<in> grps M. dup_of M p = None)"

text \<open>\<open>M'\<close> differs from \<open>M\<close> in objects that nothing refers to.\<close>

definition only_allocates :: "('op, 'p) CMemo \<Rightarrow> ('op, 'p) CMemo \<Rightarrow> bool" where
  "only_allocates M M' \<longleftrightarrow> M' = M\<lparr>m_gexpr := m_gexpr M', m_ngexprs := m_ngexprs M'\<rparr> \<and> m_ngexprs M \<le> m_ngexprs M' \<and>
     (\<forall>e < m_ngexprs M. m_gexpr M' e = m_gexpr M e)"

lemma only_allocates_refl [simp]: "only_allocates M M"
  by (simp add: only_allocates_def)

lemma only_allocates_sel:
  assumes "only_allocates M M'"
  shows "m_group M' = m_group M" "m_listGroups M' = m_listGroups M" "m_chain M' = m_chain M" "m_nbuckets M' = m_nbuckets M"
    "m_ngroups M' = m_ngroups M" "m_size M' = m_size M" "m_aul M' = m_aul M" "m_pgroupRoot M' = m_pgroupRoot M"
    "m_ulpGrps M' = m_ulpGrps M"
proof -
  have "M' = M\<lparr>m_gexpr := m_gexpr M', m_ngexprs := m_ngexprs M'\<rparr>" using assms by (simp add: only_allocates_def)
  then obtain f n where M': "M' = M\<lparr>m_gexpr := f, m_ngexprs := n\<rparr>" by blast
  show "m_group M' = m_group M" "m_listGroups M' = m_listGroups M" "m_chain M' = m_chain M" "m_nbuckets M' = m_nbuckets M"
    "m_ngroups M' = m_ngroups M" "m_size M' = m_size M" "m_aul M' = m_aul M" "m_pgroupRoot M' = m_pgroupRoot M"
    "m_ulpGrps M' = m_ulpGrps M"
    unfolding M' by simp_all
qed

lemma only_allocates_trans:
  assumes "only_allocates M1 M2" and "only_allocates M2 M3"
  shows "only_allocates M1 M3"
proof -
  have "M3 = M1\<lparr>m_gexpr := m_gexpr M3, m_ngexprs := m_ngexprs M3\<rparr>"
    using only_allocates_sel [OF assms(1)] only_allocates_sel [OF assms(2)] by (intro CMemo.equality) simp_all
  then show ?thesis using assms by (simp add: only_allocates_def)
qed

lemma alloc_only_allocates: "only_allocates M (snd (gexpr_alloc x M))"
  by (simp add: only_allocates_def gexpr_alloc_def)

lemma only_allocates_no_dups: "only_allocates M M' \<Longrightarrow> no_dups M' = no_dups M"
  using only_allocates_sel [of M M'] by (simp add: no_dups_def)

context operator_laws
begin

text \<open>Without duplicate groups matching is an equivalence.\<close>

lemma no_dups_matches:
  assumes nd: "no_dups M" and "set (children M e) \<subseteq> grps M" and "set (children M f) \<subseteq> grps M"
  shows "matches C M e f \<longleftrightarrow> op_Matches C (pop_of M e) (pop_of M f) \<and>
    (if in_order C M e then children M e = children M f else mset (children M e) = mset (children M f))"
proof -
  have g: "g_FDuplicateGroups M a b \<longleftrightarrow> a = b" if "a \<in> grps M" "b \<in> grps M" for a b
    using nd that by (auto simp: no_dups_def g_FDuplicateGroups_def)
  have l: "list_all2 (g_FDuplicateGroups M) xs ys \<longleftrightarrow> xs = ys" if "set xs \<subseteq> grps M" "set ys \<subseteq> grps M" for xs ys
  proof -
    have "list_all2 (g_FDuplicateGroups M) xs ys = list_all2 (=) xs ys" using that g by (intro list.rel_cong) auto
    then show ?thesis by (simp add: list.rel_eq)
  qed
  have inj: "inj_on (Address C) A" for A using Address_inj by (auto intro: inj_onI)
  have s: "sort_key (Address C) xs = sort_key (Address C) ys \<longleftrightarrow> mset xs = mset ys" for xs ys
  proof
    assume "sort_key (Address C) xs = sort_key (Address C) ys"
    then have "mset (sort_key (Address C) xs) = mset (sort_key (Address C) ys)" by simp
    then show "mset xs = mset ys" by simp
  next
    assume m: "mset xs = mset ys"
    have sm: "sort (map (Address C) zs) = map (Address C) (sort_key (Address C) zs)" for zs
      by (rule properties_for_sort) simp_all
    have "sort (map (Address C) xs) = sort (map (Address C) ys)"
      using m by (intro properties_for_sort) simp_all
    then show "sort_key (Address C) xs = sort_key (Address C) ys"
      using inj by (simp add: sm inj_on_map_eq_map)
  qed
  show ?thesis
  proof (cases "in_order C M e")
    case True
    then show ?thesis using l [OF assms(2,3)] by (auto simp: matches_def)
  next
    case False
    have "length (children M e) = length (children M f)" if "mset (children M e) = mset (children M f)"
      using that by (rule mset_eq_length)
    moreover have "list_all2 (g_FDuplicateGroups M) (sort_key (Address C) (children M e)) (sort_key (Address C) (children M f)) \<longleftrightarrow>
        mset (children M e) = mset (children M f)"
      using assms(2,3) s by (subst l) simp_all
    ultimately show ?thesis using False by (auto simp: matches_def)
  qed
qed

lemma refind_node:
  assumes ok: "memo_ok C M0" and nd: "no_dups M0" and cs: "set cs \<subseteq> grps M0" and len: "length cs = length ts"
    and x: "CGroupExpression_ctor C pop cs ex orig im = Inr x" and al: "gexpr_alloc x M0 = (e, M)"
    and f: "f \<in> live M0" "group_of M0 f = Some p" "key_matches C M0 pop cs f" "sht_GetBucketIndex C M0 f = key_bucket C M0 pop cs"
  shows "memo_PgroupInsert C D tgt (CExpression pop pg ts) e M = Inr (p, M)"
proof -
  have M: "M = snd (gexpr_alloc x M0)" and e: "e = m_ngexprs M0" using al by (auto simp: gexpr_alloc_def)
  have okM: "memo_ok C M" and kM: "keeps M0 M" unfolding M by (rule alloc_ok [OF ok], rule alloc_keeps)
  have xs: "m_pop x = pop" "m_pdrgpgroup x = cs"
    "m_pdrgpgroupSorted x = (if 1 < length cs \<and> \<not> op_FInputOrderSensitive C pop then Some (sort_key (Address C) cs) else None)"
    using x by (auto simp: CGroupExpression_ctor_def gpos_assert_eq_Inr_iff)
  have ge: "m_gexpr M e = x" by (simp add: M e)
  have grpM: "grps M = grps M0" by (simp add: M)
  have "e \<notin> registered M0" using memo_ok_registered(2) [OF ok, of e] e by blast
  moreover have "registered M = registered M0" by (simp add: M registered_def)
  moreover have "sorted_ok C M e" by (auto simp: sorted_ok_def in_order_def ge xs)
  moreover have "set cs \<subseteq> grps M" "e < m_ngexprs M" using cs by (simp_all add: M e)
  ultimately have fr: "fresh C M e" by (simp add: fresh_def ge xs)
  have ndM: "no_dups M" using nd by (simp add: no_dups_def M)
  note kk = key_keeps [OF ok kM cs f(1)]
  have fM: "f \<in> live M" "group_of M f = Some p" "matches C M e f" "sht_GetBucketIndex C M f = key_bucket C M pop cs"
  proof -
    show "f \<in> live M" using f(1) by (simp add: M live_def sht_entries_def)
    show "group_of M f = Some p" using f(2) kk(3) by simp
    show "matches C M e f" using f(3) kk(1) by (simp add: matches_key ge xs)
    have "sht_GetBucketIndex C M f = sht_GetBucketIndex C M0 f"
      using kk(3,4) bucket_key [OF ok kk(4)] bucket_key [OF okM, of f] grpM key_keeps(2) [OF ok kM kk(4) f(1)] by simp
    then show "sht_GetBucketIndex C M f = key_bucket C M pop cs" using f(4) kk(2) by simp
  qed
  let ?b = "sht_GetBucketIndex C M e"
  have b: "?b = key_bucket C M pop cs" using bucket_key [OF okM, of e] cs grpM by (simp add: ge xs)
  have chM: "set (children M y) \<subseteq> grps M" if "y = e \<or> y \<in> live M" for y
    using that fr memo_ok_registered(3) [OF okM] memo_ok_live [OF okM] by (auto simp: fresh_def)
  have only: "g = f" if g: "g \<in> live M" "sht_GetBucketIndex C M g = ?b" "matches C M e g" for g
  proof -
    have ops: "op_Matches C (pop_of M e) (pop_of M g)" "op_Matches C (pop_of M e) (pop_of M f)"
      using g(3) fM(3) by (simp_all add: matches_def)
    have "in_order C M g = in_order C M e"
      using in_order_Matches [OF ops(1)] g(3) by (simp add: matches_def)
    moreover have "op_Matches C (pop_of M g) (pop_of M f)" using ops Matches_sym Matches_trans by blast
    ultimately have "matches C M g f"
      using g(3) fM(3) unfolding no_dups_matches [OF ndM chM [OF disjI1 [OF refl]] chM [OF disjI2 [OF g(1)]]]
        no_dups_matches [OF ndM chM [OF disjI1 [OF refl]] chM [OF disjI2 [OF fM(1)]]]
        no_dups_matches [OF ndM chM [OF disjI2 [OF g(1)]] chM [OF disjI2 [OF fM(1)]]] by (auto split: if_splits)
    then show ?thesis using memo_okD(9) [OF okM] ndM g fM(1,4) b by (simp add: keys_ok_def no_dups_def)
  qed
  have bn: "?b < m_nbuckets M" using memo_okD(3) [OF okM] by (simp add: table_agrees_def ge_HashValue_bucket)
  have "List.find (matches C M e) (m_chain M ?b) = Some f"
  proof (cases "List.find (matches C M e) (m_chain M ?b)")
    case None
    obtain b' where b': "b' < m_nbuckets M" "f \<in> set (m_chain M b')" using fM(1) unfolding live_iff by blast
    then have "b' = ?b" using memo_okD(7) [OF okM] fM(4) b by (auto simp: buckets_ok_def)
    then show ?thesis using None b' fM(3) by (auto simp: find_None_iff)
  next
    case (Some g)
    then have g: "g \<in> set (m_chain M ?b)" "matches C M e g" by (auto simp: find_Some_iff)
    then have "g \<in> live M" "sht_GetBucketIndex C M g = ?b"
      using bn memo_okD(7) [OF okM] by (auto simp: live_iff buckets_ok_def)
    then show ?thesis using only g Some by simp
  qed
  then obtain q where "memo_PgroupInsert C D tgt (CExpression pop pg ts) e M = Inr (q, M)" "group_of M f = Some q"
    using memo_PgroupInsert_found [OF okM fr _ , of "CExpression pop pg ts" f D tgt] len by (auto simp: ge xs)
  then show ?thesis using fM(2) by simp
qed

definition refinds :: "('op CExpression \<Rightarrow> 'p) \<Rightarrow> nat option \<Rightarrow> nat option \<Rightarrow> bool \<Rightarrow> ('op, 'p) CMemo \<Rightarrow> 'op CExpression \<Rightarrow> nat \<Rightarrow> bool" where
  "refinds D ex orig im M t p \<longleftrightarrow> (\<exists>M'. eng_PgroupInsert C D None t ex orig im M = Inr (p, M') \<and> only_allocates M M' \<and>
     memo_ok C M' \<and> keeps M M')"

lemma refinds_leaf:
  assumes ok: "memo_ok C M" and e: "e \<in> registered M" and ex: "ex \<noteq> None \<longrightarrow> orig \<noteq> None"
    and st: "stored C M (CExpression pop (Some e) ts) p"
  shows "refinds D ex orig im M (CExpression pop (Some e) ts) p" and "group_of M e = Some p"
proof -
  show g: "group_of M e = Some p" using st by (auto elim: stored_leafE)
  then show "refinds D ex orig im M (CExpression pop (Some e) ts) p"
    using insert_leaf [OF ok e ex, of D pop ts im] ok by (auto simp: refinds_def)
qed

lemma refind_children:
  fixes M :: "('op, 'p) CMemo"
  assumes "\<forall>t \<in> set ts. \<forall>(M :: ('op, 'p) CMemo) p. memo_ok C M \<longrightarrow> no_dups M \<longrightarrow> tree_ok C M t \<longrightarrow> stored C M t p \<longrightarrow>
      refinds D ex orig True M t p"
    and "memo_ok C M" and "no_dups M" and "list_all (tree_ok C M) ts" and "list_all2 (stored C M) ts cs"
    and ex: "ex \<noteq> None \<longrightarrow> orig \<noteq> None"
  shows "\<exists>M'. eng_InsertExpressionChildren C D ts ex orig M = Inr (cs, M') \<and> only_allocates M M' \<and> memo_ok C M' \<and> keeps M M'"
  using assms(1-5)
proof (induction ts arbitrary: M cs)
  case Nil
  then show ?case by simp
next
  case (Cons t ts)
  obtain c ds where cs: "cs = c # ds" "stored C M t c" "list_all2 (stored C M) ts ds"
    using Cons.prems(5) by (auto simp: list_all2_Cons1)
  have ref: "refinds D ex orig True M t c" using Cons.prems cs by simp
  have "\<exists>M1. (if op_FPatternLeaf C (Pop t)
            then (case Pgexpr t of
                    None \<Rightarrow> Inl NullDeref
                  | Some e \<Rightarrow> (case m_pgroup (m_gexpr M e) of None \<Rightarrow> Inl AssertFailed | Some p \<Rightarrow> Inr (p, M)))
            else eng_PgroupInsert C D None t ex orig True M) = Inr (c, M1) \<and> only_allocates M M1 \<and> memo_ok C M1 \<and> keeps M M1"
  proof (cases "op_FPatternLeaf C (Pop t)")
    case False
    then show ?thesis using ref by (simp add: refinds_def)
  next
    case True
    obtain pop pg us where t: "t = CExpression pop pg us" by (cases t)
    then obtain e where pg: "pg = Some e" using True Cons.prems(4) by (cases pg) auto
    then have "e \<in> registered M" using Cons.prems(4) t by simp
    then have "group_of M e = Some c" using refinds_leaf(2) [OF Cons.prems(2) _ ex] cs(2) t pg by blast
    then show ?thesis using True t pg Cons.prems(2) by simp
  qed
  then obtain M1 where h: "(if op_FPatternLeaf C (Pop t)
            then (case Pgexpr t of
                    None \<Rightarrow> Inl NullDeref
                  | Some e \<Rightarrow> (case m_pgroup (m_gexpr M e) of None \<Rightarrow> Inl AssertFailed | Some p \<Rightarrow> Inr (p, M)))
            else eng_PgroupInsert C D None t ex orig True M) = Inr (c, M1)"
    and M1: "only_allocates M M1" "memo_ok C M1" "keeps M M1" by blast
  have ih: "\<forall>t \<in> set ts. \<forall>(M :: ('op, 'p) CMemo) p. memo_ok C M \<longrightarrow> no_dups M \<longrightarrow> tree_ok C M t \<longrightarrow> stored C M t p \<longrightarrow>
      refinds D ex orig True M t p" using Cons.prems(1) by simp
  have nd: "no_dups M1" using only_allocates_no_dups [OF M1(1)] Cons.prems(3) by simp
  have tk: "list_all (tree_ok C M1) ts"
    using Cons.prems(4) tree_ok_keeps [OF Cons.prems(2) M1(2,3)] by (auto simp: list_all_iff)
  have st: "list_all2 (stored C M1) ts ds"
    using cs(3) stored_keeps [OF Cons.prems(2) M1(2,3)] by (rule list_all2_mono)
  obtain M2 where "eng_InsertExpressionChildren C D ts ex orig M1 = Inr (ds, M2)" "only_allocates M1 M2"
    "memo_ok C M2" "keeps M1 M2"
    using Cons.IH [OF ih M1(2) nd tk st] by blast
  then show ?case
    using h cs(1) only_allocates_trans [OF M1(1)] keeps_trans [OF M1(3)] by auto
qed

lemma refind_tree:
  fixes M :: "('op, 'p) CMemo"
  assumes ex: "ex \<noteq> None \<longrightarrow> orig \<noteq> None"
  shows "memo_ok C M \<Longrightarrow> no_dups M \<Longrightarrow> tree_ok C M t \<Longrightarrow> stored C M t p \<Longrightarrow> refinds D ex orig im M t p"
proof (induction t arbitrary: M im p)
  case (CExpression pop pg ts)
  show ?case
  proof (cases pg)
    case (Some e)
    then show ?thesis using refinds_leaf(1) [OF CExpression.prems(1) _ ex] CExpression.prems(3,4) by auto
  next
    case None
    obtain cs f where st: "list_all2 (stored C M) ts cs" "f \<in> live M" "group_of M f = Some p" "key_matches C M pop cs f"
      "sht_GetBucketIndex C M f = key_bucket C M pop cs"
      using CExpression.prems(4) None by (auto elim: stored_nodeE)
    have tok: "list_all (tree_ok C M) ts" using CExpression.prems(3) None by simp
    obtain M1 where M1: "eng_InsertExpressionChildren C D ts ex orig M = Inr (cs, M1)" "only_allocates M M1" "memo_ok C M1" "keeps M M1"
      using refind_children [OF _ CExpression.prems(1,2) tok st(1) ex] CExpression.IH by blast
    obtain x where x: "CGroupExpression_ctor C pop cs ex orig im = Inr x" using ctor_ok [OF ex] by blast
    obtain e M2 where al: "gexpr_alloc x M1 = (e, M2)" by fastforce
    have M2: "M2 = snd (gexpr_alloc x M1)" using al by simp
    have cs: "set cs \<subseteq> grps M" by (rule stored_list_grps [OF CExpression.prems(1) st(1)])
    have cs1: "set cs \<subseteq> grps M1" using cs keeps_grps [OF M1(4)] by blast
    have len: "length cs = length ts" using st(1) by (simp add: list_all2_lengthD)
    have nd1: "no_dups M1" using only_allocates_no_dups [OF M1(2)] CExpression.prems(2) by simp
    note kk = key_keeps [OF CExpression.prems(1) M1(4) cs st(2)]
    have f1: "f \<in> live M1" using keeps_live [OF M1(4)] st(2) by blast
    have "sht_GetBucketIndex C M1 f = sht_GetBucketIndex C M f"
      using kk(3,4) bucket_key [OF CExpression.prems(1) kk(4)] bucket_key [OF M1(3), of f] keeps_grps [OF M1(4)]
        key_keeps(2) [OF CExpression.prems(1) M1(4) kk(4) st(2)] by auto
    then have "memo_PgroupInsert C D None (CExpression pop None ts) e M2 = Inr (p, M2)"
      using refind_node [OF M1(3) nd1 cs1 len x al f1] kk st(3-5) by auto
    then have "eng_PgroupInsert C D None (CExpression pop pg ts) ex orig im M = Inr (p, M2)"
      using M1(1) x al None ex by (simp add: gpos_assert_def)
    then show ?thesis
      unfolding refinds_def M2 using only_allocates_trans [OF M1(2) alloc_only_allocates] alloc_ok [OF M1(3)]
        keeps_trans [OF M1(4) alloc_keeps] by blast
  qed
qed

end

section \<open>Insertion and its inverse lookup\<close>

text \<open>
  C7: Inserting a well-formed expression into a memo that satisfies the invariant of exploration succeeds
  with all assertions of the engine, the memo and the groups. It keeps the invariant and everything in the
  memo, and afterwards the memo has the expression, with its root in the group that is returned.
\<close>

theorem PgroupInsert_correct:
  assumes "operator_laws C" and "memo_ok C M" and "tree_ok C M t"
  shows "\<exists>p M'. eng_PgroupInsert C D None t None None im M = Inr (p, M') \<and> memo_ok C M' \<and> keeps M M' \<and> stored C M' t p"
  using operator_laws.insert_tree [OF assms(1) _ assms(2,3), of None None D im]
  unfolding operator_laws.inserts_def [OF assms(1)] by blast

text \<open>
  C3: While no groups have been found to be duplicates, an expression is put into one group only: inserting
  it again, after any other insertions, returns the same group and leaves groups, lists and table as they are.
\<close>

theorem PgroupInsert_again:
  assumes "operator_laws C" and "memo_ok C M" and "tree_ok C M t"
    and "eng_PgroupInsert C D None t None None im M = Inr (p, M1)"
    and "keeps M1 M2" and "memo_ok C M2" and "no_dups M2"
  shows "\<exists>M3. eng_PgroupInsert C D None t None None im' M2 = Inr (p, M3) \<and> only_allocates M2 M3"
proof -
  have "memo_ok C M1 \<and> keeps M M1 \<and> stored C M1 t p"
    using operator_laws.insert_tree [OF assms(1) _ assms(2,3), of None None D im] assms(4)
    unfolding operator_laws.inserts_def [OF assms(1)] by auto
  then have "stored C M2 t p" "tree_ok C M2 t"
    using stored_keeps [OF _ assms(6,5)] tree_ok_keeps [OF assms(2) assms(6)] keeps_trans [OF _ assms(5)] assms(3) by blast+
  then show ?thesis
    using operator_laws.refind_tree [OF assms(1) _ assms(6,7), of None None t p D im']
    unfolding operator_laws.refinds_def [OF assms(1)] by blast
qed

end
