(* ===== verification/MemoExplore.thy ===== *)
theory MemoExplore
  imports MemoBuild
begin

text \<open>
  The life of a memo up to the merge: it is made empty, the query is inserted, rules insert their
  results and mark duplicate groups, and groups and expressions change their state. The invariant \<open>memo_ok\<close>
  holds all the time; once every group is explored the memo is ready to be merged.
\<close>

section \<open>Steps that do not insert\<close>

definition same_shape :: "('op, 'p) CMemo \<Rightarrow> ('op, 'p) CMemo \<Rightarrow> bool" where
  "same_shape M M' \<longleftrightarrow> m_listGroups M' = m_listGroups M \<and> m_aul M' = m_aul M \<and> m_ulpGrps M' = m_ulpGrps M \<and>
     m_nbuckets M' = m_nbuckets M \<and> m_chain M' = m_chain M \<and> m_size M' = m_size M \<and> m_ngroups M' = m_ngroups M \<and>
     m_ngexprs M' = m_ngexprs M \<and>
     (\<forall>e. pop_of M' e = pop_of M e \<and> children M' e = children M e \<and> group_of M' e = group_of M e \<and>
          m_pdrgpgroupSorted (m_gexpr M' e) = m_pdrgpgroupSorted (m_gexpr M e)) \<and>
     (\<forall>p. id_of M' p = id_of M p \<and> m_fScalar (m_group M' p) = m_fScalar (m_group M p) \<and> m_pdp (m_group M' p) = m_pdp (m_group M p) \<and>
          rep_of M' p = rep_of M p \<and> m_pexprScalarRepIsExact (m_group M' p) = m_pexprScalarRepIsExact (m_group M p) \<and>
          m_pccDummy (m_group M' p) = m_pccDummy (m_group M p) \<and> gexprs_of M' p = gexprs_of M p \<and>
          m_listDupGExprs (m_group M' p) = m_listDupGExprs (m_group M p) \<and> m_ulGExprs (m_group M' p) = m_ulGExprs (m_group M p) \<and>
          m_ulCTEProducerId (m_group M' p) = m_ulCTEProducerId (m_group M p))"

lemma shape_sets:
  assumes "same_shape M M'"
  shows "registered M' = registered M" "live M' = live M" "listed M' = listed M"
  using assms by (simp_all add: same_shape_def registered_def listed_def live_def sht_entries_def)

lemma shape_bucket:
  assumes ok: "memo_ok C M" and sh: "same_shape M M'" and e: "e \<in> registered M"
  shows "sht_GetBucketIndex C M' e = sht_GetBucketIndex C M e"
  using sh memo_ok_registered(3) [OF ok e] memo_ok_count(1) [OF ok] by (intro bucket_eq) (auto simp: same_shape_def)

lemma shape_ok:
  assumes ok: "memo_ok C M" and sh: "same_shape M M'" and lk: "links_ok M'" and keys: "keys_ok C M'"
  shows "memo_ok C M'"
proof -
  note s = sh [unfolded same_shape_def] and st = shape_sets [OF sh]
  have "lists_ok M'" using memo_okD(2) [OF ok] s by (simp add: lists_ok_def)
  moreover have "table_agrees [] M'" using memo_okD(3) [OF ok] s st by (simp add: table_agrees_def sht_entries_def)
  moreover have "children_ok C M'" using memo_okD(4) [OF ok] s st by (simp add: children_ok_def sorted_ok_def in_order_def)
  moreover have "numbered M'" using memo_okD(5) [OF ok] s by (simp add: numbered_def)
  moreover have "groups_ok C M'" using memo_okD(6) [OF ok] s by (simp add: groups_ok_def)
  moreover have "buckets_ok C M'"
  proof -
    have "sht_GetBucketIndex C M' e = b" if b: "b < m_nbuckets M" "e \<in> set (m_chain M b)" for b e
    proof -
      have "e \<in> live M" using b unfolding live_iff by blast
      then have "e \<in> registered M" using memo_ok_live [OF ok] by simp
      then show ?thesis using shape_bucket [OF ok sh] memo_okD(7) [OF ok] b by (simp add: buckets_ok_def)
    qed
    then show ?thesis using s by (simp add: buckets_ok_def)
  qed
  moreover have "producers_listed C M'" using memo_okD(8) [OF ok] s by (simp add: producers_listed_def producer_def)
  moreover have "scalar_rep_ok C M' p" if p: "p \<in> grps M" "m_fScalar (m_group M p)" for p
  proof -
    obtain e where e: "gexprs_of M p = [e]" using memo_okD(10) [OF ok p] by (auto simp: scalar_rep_ok_def)
    show ?thesis using memo_okD(10) [OF ok p] e s
      by (cases "op_SubqueryDummy C (pop_of M e)") (simp_all add: scalar_rep_ok_def)
  qed
  ultimately show ?thesis using lk keys s by (simp add: memo_ok_def)
qed

text \<open>When the links are the same too, nothing is left to show.\<close>

lemma shape_links_ok:
  assumes ok: "memo_ok C M" and sh: "same_shape M M'" and dup: "\<And>p. dup_of M' p = dup_of M p"
  shows "memo_ok C M'"
proof (rule shape_ok [OF ok sh])
  have sl: "same_links M M'" using sh dup by (simp add: same_links_def same_shape_def)
  show "links_ok M'" using memo_okD(1) [OF ok] same_links_D(2) [OF sl] by simp
  have "matches C M' e f = matches C M e f" for e f
    using sh same_links_D(5) [OF sl] by (simp add: matches_def in_order_def same_shape_def list_all2_iff)
  moreover have "sht_GetBucketIndex C M' e = sht_GetBucketIndex C M e" if "e \<in> live M" for e
    using shape_bucket [OF ok sh] that memo_ok_live [OF ok] by simp
  ultimately show "keys_ok C M'"
    using memo_okD(9) [OF ok] dup sh shape_sets(2) [OF sh] by (simp add: keys_ok_def same_shape_def)
qed

lemma relinked_shape: "relinked M M' \<Longrightarrow> same_shape M M'"
  by (auto simp: relinked_def same_shape_def)

lemma links_unlinked: "(\<forall>p \<in> grps M. dup_of M p = None) \<Longrightarrow> links M = {}"
  by (auto simp: links_def)

lemma MarkDuplicates_ok:
  assumes ok: "memo_ok C M" and pq: "p \<in> grps M" "q \<in> grps M" "p \<noteq> q"
  shows "\<exists>M'. memo_MarkDuplicates p q M = Some (Inr M') \<and> memo_ok C M' \<and> relinked M M' \<and>
    eqc (links M') = eqc (insert (p, q) (links M))"
proof -
  obtain M' where M': "memo_MarkDuplicates p q M = Some (Inr M')" "relinked M M'" "links_ok M'"
    "eqc (links M') = eqc (insert (p, q) (links M))"
    using MarkDuplicates_correct [OF memo_okD(1) [OF ok] pq] by blast
  have "(p, q) \<in> eqc (links M')" unfolding M'(4) by (rule eqc_base) simp
  then have "links M' \<noteq> {}" using pq(3) by (auto simp: eqc_def)
  then have "keys_ok C M'" using links_unlinked [of M'] by (auto simp: keys_ok_def)
  then show ?thesis using M' shape_ok [OF ok relinked_shape [OF M'(2)] M'(3)] by blast
qed

lemma CMemo_Init_ok:
  assumes "0 < n"
  shows "memo_ok C (CMemo_Init n mg me)"
proof -
  have "sht_entries (CMemo_Init n mg me) = []" by (simp add: sht_entries_def CMemo_Init_def)
  then show ?thesis
    using assms by (simp add: memo_ok_def links_ok_def lists_ok_def table_agrees_def children_ok_def numbered_def groups_ok_def
        buckets_ok_def producers_listed_def keys_ok_def listed_def live_def registered_def) (simp add: CMemo_Init_def)
qed

section \<open>Inserting the results of a rule\<close>

definition grows :: "('op, 'p) CMemo \<Rightarrow> ('op, 'p) CMemo \<Rightarrow> bool" where
  "grows M M' \<longleftrightarrow> grps M \<subseteq> grps M' \<and> live M \<subseteq> live M' \<and> eqc (links M) \<subseteq> eqc (links M') \<and> m_pgroupRoot M' = m_pgroupRoot M \<and>
     (\<forall>e \<in> live M. m_gexpr M' e = m_gexpr M e) \<and>
     (\<forall>p \<in> grps M. m_pdp (m_group M' p) = m_pdp (m_group M p) \<and> m_fScalar (m_group M' p) = m_fScalar (m_group M p) \<and>
        g_estate (m_group M' p) = g_estate (m_group M p))"

lemma grows_refl [simp]: "grows M M"
  by (simp add: grows_def)

lemma grows_trans: "grows M1 M2 \<Longrightarrow> grows M2 M3 \<Longrightarrow> grows M1 M3"
proof -
  assume g: "grows M1 M2" "grows M2 M3"
  then have s: "grps M1 \<subseteq> grps M2" "grps M2 \<subseteq> grps M3" "live M1 \<subseteq> live M2" "live M2 \<subseteq> live M3"
    "eqc (links M1) \<subseteq> eqc (links M2)" "eqc (links M2) \<subseteq> eqc (links M3)" by (simp_all add: grows_def)
  have "grps M1 \<subseteq> grps M3" "live M1 \<subseteq> live M3" "eqc (links M1) \<subseteq> eqc (links M3)"
    using s by (blast intro: subset_trans)+
  then show ?thesis using g s(1,3) by (auto simp: grows_def)
qed

lemma keeps_grows:
  assumes ok: "memo_ok C M" and k: "keeps M M'"
  shows "grows M M'"
proof -
  have g: "p < m_ngroups M" if "p \<in> grps M" for p using memo_ok_count(2) [OF ok that] .
  have "links M \<subseteq> links M'" using keeps_grps [OF k] keepsD(7) [OF k] g by (auto simp: links_def)
  then have "eqc (links M) \<subseteq> eqc (links M')" by (rule eqc_mono)
  moreover have "m_gexpr M' e = m_gexpr M e" if "e \<in> live M" for e
  proof -
    have "e < m_ngexprs M" using that memo_ok_registered(2) [OF ok] memo_ok_live [OF ok] by simp
    then show ?thesis by (rule keepsD(5) [OF k])
  qed
  ultimately show ?thesis
    using keeps_grps [OF k] keeps_live [OF k] keepsD(2,9,11,12) [OF k] g by (simp add: grows_def)
qed

lemma relinked_grows:
  assumes "relinked M M'" and "eqc (links M) \<subseteq> eqc (links M')"
  shows "grows M M'"
  using assms relinked_sel [OF assms(1)] by (simp add: grows_def live_def sht_entries_def)

lemma tree_ok_cong:
  assumes "registered M \<subseteq> registered M'" and "\<And>t. tree_ok C M t \<Longrightarrow> tree_scalar C M' t = tree_scalar C M t"
  shows "tree_ok C M t \<Longrightarrow> tree_ok C M' t"
proof (induction t)
  case (CExpression pop pg ts)
  show ?case
  proof (cases pg)
    case None
    then have "\<forall>t \<in> set ts. tree_scalar C M' t = tree_scalar C M t"
      using CExpression.prems assms(2) by (auto simp: list_all_iff)
    then show ?thesis using CExpression None by (auto simp: list_all_iff)
  next
    case (Some e)
    then show ?thesis using CExpression.prems assms(1) by auto
  qed
qed

lemma tree_ok_grows:
  assumes ok: "memo_ok C M" and ok': "memo_ok C M'" and g: "grows M M'" and t: "tree_ok C M t"
  shows "tree_ok C M' t"
proof (rule tree_ok_cong [OF _ _ t])
  show "registered M \<subseteq> registered M'" using g memo_ok_live [OF ok] memo_ok_live [OF ok'] by (simp add: grows_def)
  show "tree_scalar C M' t = tree_scalar C M t" if t: "tree_ok C M t" for t
  proof (cases "Pgexpr t")
    case None
    then show ?thesis by (simp add: tree_scalar_def)
  next
    case (Some e)
    then have e: "e \<in> registered M" using t by (cases t) auto
    obtain p where p: "p \<in> grps M" "group_of M e = Some p" using memo_ok_registered(1) [OF ok e] by blast
    moreover have "m_gexpr M' e = m_gexpr M e" "m_fScalar (m_group M' p) = m_fScalar (m_group M p)"
      using g e p memo_ok_live [OF ok] by (simp_all add: grows_def)
    ultimately show ?thesis using Some by (simp add: tree_scalar_def)
  qed
qed

lemma alternative_ok_grows:
  assumes "memo_ok C M" and "memo_ok C M'" and "grows M M'" and "alternative_ok C M p t"
  shows "alternative_ok C M' p t"
  using assms(3,4) tree_ok_grows [OF assms(1-3)] by (auto simp: alternative_ok_def grows_def list_all_iff)

text \<open>Where a result of a rule for group \<open>p\<close> ends up.\<close>

definition result_in :: "'op COperator_class \<Rightarrow> ('p \<Rightarrow> 'p \<Rightarrow> bool) \<Rightarrow> ('op, 'p) CMemo \<Rightarrow> nat \<Rightarrow> 'op CExpression \<Rightarrow> bool" where
  "result_in C S M p t \<longleftrightarrow> (\<exists>f \<in> live M. \<exists>q \<in> grps M. group_of M f = Some q \<and> op_Matches C (Pop t) (pop_of M f) \<and>
     length (PdrgPexpr t) = length (children M f) \<and>
     ((p, q) \<in> eqc (links M) \<or> \<not> S (the (m_pdp (m_group M q))) (the (m_pdp (m_group M p)))))"

lemma result_in_grows: "p \<in> grps M \<Longrightarrow> grows M M' \<Longrightarrow> result_in C S M p t \<Longrightarrow> result_in C S M' p t"
proof -
  assume p: "p \<in> grps M" and g: "grows M M'" and r: "result_in C S M p t"
  obtain f q where f: "f \<in> live M" "q \<in> grps M" "group_of M f = Some q" "op_Matches C (Pop t) (pop_of M f)"
    "length (PdrgPexpr t) = length (children M f)"
    "(p, q) \<in> eqc (links M) \<or> \<not> S (the (m_pdp (m_group M q))) (the (m_pdp (m_group M p)))"
    using r by (auto simp: result_in_def)
  have "m_gexpr M' f = m_gexpr M f" using g f(1) by (simp add: grows_def)
  moreover have "f \<in> live M'" "q \<in> grps M'" "eqc (links M) \<subseteq> eqc (links M')"
    "m_pdp (m_group M' q) = m_pdp (m_group M q)" "m_pdp (m_group M' p) = m_pdp (m_group M p)"
    using g f(1,2) p by (auto simp: grows_def)
  ultimately show ?thesis using f unfolding result_in_def by (intro bexI [of _ f] bexI [of _ q]) auto
qed

context operator_laws
begin

lemma xform_results:
  fixes M :: "('op, 'p) CMemo"
  assumes "memo_ok C M" and "p \<in> grps M" and "list_all (alternative_ok C M p) ts"
  shows "\<exists>M'. eng_InsertXformResult C D S p ts x e M = Some (Inr M') \<and> memo_ok C M' \<and> grows M M' \<and>
    (\<forall>t \<in> set ts. result_in C S M' p t)"
  using assms
proof (induction ts arbitrary: M)
  case Nil
  then show ?case by simp
next
  case (Cons t ts)
  obtain q M1 where M1: "eng_PgroupInsert C D (Some p) t (Some x) (Some e) False M = Inr (q, M1)" "memo_ok C M1" "keeps M M1"
    "stored C M1 t q"
    using insert_alternative [of "Some x" "Some e" M p t D False] Cons.prems by auto
  have g1: "grows M M1" by (rule keeps_grows [OF Cons.prems(1) M1(3)])
  have q: "q \<in> grps M1" by (rule stored_grps [OF M1(2,4)])
  have p: "p \<in> grps M1" using Cons.prems(2) g1 by (auto simp: grows_def)
  have pdp: "m_pdp (m_group M1 q) \<noteq> None" "m_pdp (m_group M1 p) \<noteq> None"
    using memo_okD(6) [OF M1(2)] p q by (simp_all add: groups_ok_def)
  then obtain a b where ab: "m_pdp (m_group M1 q) = Some a" "m_pdp (m_group M1 p) = Some b" by blast
  have "Pgexpr t = None" using Cons.prems(3) by (simp add: alternative_ok_def)
  then obtain cs f where f: "f \<in> live M1" "group_of M1 f = Some q" "key_matches C M1 (Pop t) cs f"
    "list_all2 (stored C M1) (PdrgPexpr t) cs"
    using M1(4) by (cases t) (auto elim: stored_nodeE)
  then have fm: "op_Matches C (Pop t) (pop_of M1 f)" "length (PdrgPexpr t) = length (children M1 f)"
    by (auto simp: key_matches_def dest: list_all2_lengthD)
  define mark where "mark = (if q \<noteq> p
            then obind (Some (eng_FPossibleDuplicateGroups S M1 q p)) (\<lambda>b.
                   if b then memo_MarkDuplicates p q M1 else Some (Inr M1))
            else Some (Inr M1))"
  have "\<exists>M2. mark = Some (Inr M2) \<and> memo_ok C M2 \<and> grows M1 M2 \<and> ((p, q) \<in> eqc (links M2) \<or> \<not> S a b)"
  proof (cases "q \<noteq> p \<and> S a b")
    case True
    obtain M2 where M2: "memo_MarkDuplicates p q M1 = Some (Inr M2)" "memo_ok C M2" "relinked M1 M2"
      "eqc (links M2) = eqc (insert (p, q) (links M1))"
      using MarkDuplicates_ok [OF M1(2) p q] True by blast
    have "eqc (links M1) \<subseteq> eqc (links M2)" unfolding M2(4) by (rule eqc_mono) auto
    moreover have "(p, q) \<in> eqc (links M2)" unfolding M2(4) by (rule eqc_base) simp
    ultimately show ?thesis
      using M2 True ab relinked_grows [OF M2(3)] by (simp add: mark_def eng_FPossibleDuplicateGroups_def)
  next
    case False
    then show ?thesis using ab M1(2) by (cases "q = p") (simp_all add: mark_def eng_FPossibleDuplicateGroups_def)
  qed
  then obtain M2 where M2: "mark = Some (Inr M2)" "memo_ok C M2" "grows M1 M2" "(p, q) \<in> eqc (links M2) \<or> \<not> S a b" by blast
  have g2: "grows M M2" by (rule grows_trans [OF g1 M2(3)])
  have p2: "p \<in> grps M2" using p M2(3) by (auto simp: grows_def)
  have "list_all (alternative_ok C M2 p) ts"
    using Cons.prems(3) alternative_ok_grows [OF Cons.prems(1) M2(2) g2] by (simp add: list_all_iff)
  then obtain M3 where M3: "eng_InsertXformResult C D S p ts x e M2 = Some (Inr M3)" "memo_ok C M3" "grows M2 M3"
    "\<forall>t \<in> set ts. result_in C S M3 p t"
    using Cons.IH [OF M2(2) p2] by blast
  have "eng_InsertXformResult C D S p (t # ts) x e M = Some (Inr M3)"
    using M1(1) M2(1) M3(1) by (simp add: mark_def)
  moreover have "result_in C S M2 p t"
  proof -
    have "m_gexpr M2 f = m_gexpr M1 f" "f \<in> live M2" "q \<in> grps M2" "m_pdp (m_group M2 q) = Some a" "m_pdp (m_group M2 p) = Some b"
      using M2(3) f(1) p q ab by (auto simp: grows_def)
    then show ?thesis using f(2) fm M2(4) unfolding result_in_def by (intro bexI [of _ f] bexI [of _ q]) auto
  qed
  then have "result_in C S M3 p t" by (rule result_in_grows [OF p2 M3(3)])
  ultimately show ?case using M3 grows_trans [OF g2 M3(3)] by auto
qed

end

section \<open>Exploration\<close>

text \<open>
  The memos that exploration goes through: the query is inserted into an empty memo, rules insert what they
  make of an expression \<open>e\<close> into its group, and the states of groups and expressions advance.
\<close>

inductive exploration ::
  "'op COperator_class \<Rightarrow> ('op CExpression \<Rightarrow> 'p) \<Rightarrow> ('p \<Rightarrow> 'p \<Rightarrow> bool) \<Rightarrow> ('op, 'p) CMemo \<Rightarrow> bool" for C D S where
  query: "0 < n \<Longrightarrow> tree_ok C (CMemo_Init n mg me) t \<Longrightarrow>
    eng_InitLogicalExpression C D t (CMemo_Init n mg me) = Inr M \<Longrightarrow> exploration C D S M"
| rule_results: "exploration C D S M \<Longrightarrow> e \<in> live M \<Longrightarrow> group_of M e = Some p \<Longrightarrow> list_all (alternative_ok C M p) ts \<Longrightarrow>
    eng_InsertXformResult C D S p ts x e M = Some (Inr M') \<Longrightarrow> exploration C D S M'"
| group_state: "exploration C D S M \<Longrightarrow> g_SetState p s M = Inr M' \<Longrightarrow> exploration C D S M'"
| gexpr_state: "exploration C D S M \<Longrightarrow> ge_SetState e s M = Inr M' \<Longrightarrow> exploration C D S M'"

lemma g_SetState_shape:
  assumes "g_SetState p s M = Inr M'"
  shows "same_shape M M'" and "dup_of M' q = dup_of M q" and "m_pgroupRoot M' = m_pgroupRoot M"
proof -
  have M': "M' = upd_group p (\<lambda>g. g\<lparr>g_estate := s\<rparr>) M" using assms by (simp add: g_SetState_def gpos_assert_eq_Inr_iff)
  show "same_shape M M'" "dup_of M' q = dup_of M q" "m_pgroupRoot M' = m_pgroupRoot M"
    by (simp_all add: M' upd_group_def same_shape_def)
qed

lemma ge_SetState_shape:
  assumes "ge_SetState e s M = Inr M'"
  shows "same_shape M M'" and "dup_of M' q = dup_of M q" and "m_pgroupRoot M' = m_pgroupRoot M"
  using assms by (auto simp: ge_SetState_def gpos_assert_eq_Inr_iff upd_gexpr_def same_shape_def)

lemma stored_cong:
  assumes "stored C M t p" and "registered M' = registered M" and "live M' = live M" and "m_gexpr M' = m_gexpr M"
    and "key_matches C M' = key_matches C M" and "key_bucket C M' = key_bucket C M"
    and "sht_GetBucketIndex C M' = sht_GetBucketIndex C M"
  shows "stored C M' t p"
  using assms(1)
proof (induction rule: stored.induct)
  case (stored_leaf e p pop ts)
  then show ?case using assms(2,4) by (intro stored.stored_leaf) simp_all
next
  case (stored_node ts cs f p pop)
  have "list_all2 (stored C M') ts cs" using stored_node.IH by (rule list_all2_mono) simp
  then show ?case using stored_node.hyps assms(3-7) by (intro stored.stored_node [of _ _ ts cs f]) simp_all
qed

context operator_laws
begin

lemma InitLogicalExpression_ok:
  fixes M :: "('op, 'p) CMemo"
  assumes ok: "memo_ok C M" and root: "m_pgroupRoot M = None" and t: "tree_ok C M t" and l: "op_FLogical C (Pop t)"
  shows "\<exists>p M'. eng_InitLogicalExpression C D t M = Inr M' \<and> memo_ok C M' \<and> p \<in> grps M' \<and> m_pgroupRoot M' = Some p \<and> stored C M' t p"
proof -
  obtain p M1 where M1: "eng_PgroupInsert C D None t None None False M = Inr (p, M1)" "memo_ok C M1" "keeps M M1" "stored C M1 t p"
    using insert_tree [OF _ ok t, of None None D False] unfolding inserts_def by blast
  let ?M = "M1\<lparr>m_pgroupRoot := Some p\<rparr>"
  have "eng_InitLogicalExpression C D t M = Inr ?M"
    using M1(1) root l keepsD(2) [OF M1(3)] by (simp add: eng_InitLogicalExpression_def SetRoot_def)
  moreover have ok': "memo_ok C ?M"
    by (rule shape_links_ok [OF M1(2)]) (simp_all add: same_shape_def)
  moreover have "p \<in> grps ?M" using stored_grps [OF M1(2,4)] by simp
  moreover have "stored C ?M t p"
  proof -
    have g: "g_FDuplicateGroups ?M = g_FDuplicateGroups M1" by (simp add: g_FDuplicateGroups_def fun_eq_iff)
    have "registered ?M = registered M1" "live ?M = live M1" by (simp_all add: registered_def live_def sht_entries_def)
    moreover have "key_matches C ?M = key_matches C M1" by (simp add: key_matches_def fun_eq_iff g)
    moreover have "id_hash C ?M = id_hash C M1" by (simp add: id_hash_def fun_eq_iff)
    then have "key_bucket C ?M = key_bucket C M1" by (simp add: key_bucket_def fun_eq_iff)
    moreover have "sht_GetBucketIndex C ?M = sht_GetBucketIndex C M1"
      using bucket_same_memory(1) [of ?M M1 C] by (simp add: fun_eq_iff)
    ultimately show ?thesis using stored_cong [OF M1(4), of ?M] by simp
  qed
  ultimately show ?thesis by auto
qed

lemma exploration_ok:
  fixes M :: "('op, 'p) CMemo"
  assumes "exploration C D S M"
  shows "memo_ok C M \<and> (\<exists>r \<in> grps M. m_pgroupRoot M = Some r)"
  using assms
proof (induction rule: exploration.induct)
  case (query n mg me t M)
  have "op_FLogical C (Pop t)"
    using query(3) by (auto simp: eng_InitLogicalExpression_def gpos_assert_eq_Inr_iff)
  then show ?case
    using InitLogicalExpression_ok [OF CMemo_Init_ok [OF query(1), of C mg me] _ query(2), of D] query(3)
    by (auto simp: CMemo_Init_def)
next
  case (rule_results M e p ts x M')
  then have ok: "memo_ok C M" by simp
  have "p \<in> grps M" using rule_results.hyps(2,3) memo_ok_live [OF ok] memo_ok_registered(1) [OF ok] by fastforce
  then have "memo_ok C M' \<and> grows M M'"
    using xform_results [OF ok _ rule_results.hyps(4), of D S x e] rule_results.hyps(5) by auto
  then show ?case using rule_results.IH by (auto simp: grows_def)
next
  case (group_state M p s M')
  note sh = g_SetState_shape [OF group_state.hyps(2)]
  have "grps M' = grps M" using sh(1) by (simp add: same_shape_def)
  then show ?case using group_state.IH sh(3) shape_links_ok [OF _ sh(1,2)] by auto
next
  case (gexpr_state M e s M')
  note sh = ge_SetState_shape [OF gexpr_state.hyps(2)]
  have "grps M' = grps M" using sh(1) by (simp add: same_shape_def)
  then show ?case using gexpr_state.IH sh(3) shape_links_ok [OF _ sh(1,2)] by auto
qed

end

lemma exploration_merge_ready:
  assumes "operator_laws C" and "exploration C D S M" and "\<forall>p \<in> grps M. between M p" and "one_producer C M"
  shows "merge_ready C M"
proof -
  have ok: "memo_ok C M" and "\<exists>r \<in> grps M. m_pgroupRoot M = Some r"
    using operator_laws.exploration_ok [OF assms(1,2)] by blast+
  moreover have "producers_listed C M" by (rule memo_okD(8) [OF ok])
  ultimately show ?thesis
    using assms(3,4) memo_okD(1-4) [OF ok] by (auto simp: merge_ready_def producers_listed_def)
qed

lemma no_producers: "(\<And>e. e \<in> registered M \<Longrightarrow> \<not> producer C M e) \<Longrightarrow> one_producer C M"
  by (simp add: one_producer_def)

end
