(* ===== verification/MemoProps.thy ===== *)
theory MemoProps
  imports MemoExplore
begin

text \<open>
  The properties of the memo: insertion, rule results, exploration, duplicate marking and merging, with
  witnesses on memos of the operators of queries.
\<close>

section \<open>A small memo\<close>

abbreviation qc :: "query_op COperator_class" where
  "qc \<equiv> query_op_class (\<lambda>_. False)"

definition a_table :: "query_op CExpression" where
  "a_table = CExpression (CLogicalGet (1, 1, 0) []) None []"

definition a_select :: "query_op CExpression" where
  "a_select = CExpression CLogicalSelect None [a_table]"

definition sample_gexpr :: "nat \<Rightarrow> query_op \<Rightarrow> nat list \<Rightarrow> nat \<Rightarrow> query_op CGroupExpression" where
  "sample_gexpr n pop cs p =
     \<lparr>ge_id = n, m_pgexprDuplicate = None, m_pop = pop, m_pdrgpgroup = cs, m_pdrgpgroupSorted = None, m_pgroup = Some p,
      m_exfidOrigin = None, m_pgexprOrigin = None, m_fIntermediate = False, ge_estate = estExplored, m_eol = EolLow,
      m_ecirculardependency = ecdDefault\<rparr>"

definition sample_group :: "nat \<Rightarrow> nat \<Rightarrow> nat option \<Rightarrow> (query_op, unit) CGroup" where
  "sample_group n e dup = (CGroup_ctor False)\<lparr>g_id := n, m_listGExprs := [e], m_pdp := Some (), m_pgroupDuplicate := dup,
     m_ulGExprs := 1, g_estate := estExplored, m_fHasNewLogicalOperators := True\<rparr>"

text \<open>A join of two selections over two tables that have been found to be duplicates, explored.\<close>

definition sample_memo :: "(query_op, unit) CMemo" where
  "sample_memo =
     \<lparr>m_group = (\<lambda>p. [sample_group 0 0 (Some 1), sample_group 1 1 None, sample_group 2 2 None, sample_group 3 3 None,
                      sample_group 4 4 None] ! p), m_ngroups = 5,
      m_gexpr = (\<lambda>e. [sample_gexpr 0 (CLogicalGet (1, 1, 0) []) [] 0, sample_gexpr 0 (CLogicalGet (2, 1, 0) []) [] 1,
                      sample_gexpr 0 CLogicalSelect [0] 2, sample_gexpr 0 CLogicalSelect [1] 3,
                      sample_gexpr 0 CLogicalInnerJoin [2, 3] 4] ! e), m_ngexprs = 5,
      m_aul = 5, m_pgroupRoot = Some 4, m_ulpGrps = 5, m_listGroups = [4, 3, 2, 1, 0],
      m_chain = (\<lambda>b. if b = 0 then [4, 3, 2, 1, 0] else []), m_nbuckets = 1, m_size = 5\<rparr>"

lemma sample_groups: "m_listGroups sample_memo = [4, 3, 2, 1, 0]"
  by (simp add: sample_memo_def)

lemma sample_sel:
  "m_group sample_memo 0 = sample_group 0 0 (Some 1)" "m_group sample_memo 1 = sample_group 1 1 None"
  "m_group sample_memo 2 = sample_group 2 2 None" "m_group sample_memo 3 = sample_group 3 3 None"
  "m_group sample_memo 4 = sample_group 4 4 None" "m_group sample_memo (Suc 0) = sample_group 1 1 None"
  "m_gexpr sample_memo 0 = sample_gexpr 0 (CLogicalGet (1, 1, 0) []) [] 0"
  "m_gexpr sample_memo 1 = sample_gexpr 0 (CLogicalGet (2, 1, 0) []) [] 1"
  "m_gexpr sample_memo (Suc 0) = sample_gexpr 0 (CLogicalGet (2, 1, 0) []) [] 1"
  "m_gexpr sample_memo 2 = sample_gexpr 0 CLogicalSelect [0] 2" "m_gexpr sample_memo 3 = sample_gexpr 0 CLogicalSelect [1] 3"
  "m_gexpr sample_memo 4 = sample_gexpr 0 CLogicalInnerJoin [2, 3] 4"
  "m_aul sample_memo = 5" "m_pgroupRoot sample_memo = Some 4" "m_nbuckets sample_memo = 1" "m_size sample_memo = 5"
  "sht_entries sample_memo = [4, 3, 2, 1, 0]"
  by (simp_all add: sample_memo_def sht_entries_def)

lemma sample_links_ok: "links_ok sample_memo"
  by (auto simp: links_ok_def sample_groups sample_sel sample_group_def CGroup_ctor_def inj_on_def)

lemma sample_sets: "registered sample_memo = {0, 1, 2, 3, 4}" "listed sample_memo = {0, 1, 2, 3, 4}" "live sample_memo = {0, 1, 2, 3, 4}"
  by (auto simp: registered_def listed_def live_def sample_groups sample_sel sample_group_def CGroup_ctor_def)

lemma sample_ready: "merge_ready qc sample_memo"
proof -
  have "lists_ok sample_memo"
    by (simp add: lists_ok_def sample_groups sample_sel sample_group_def CGroup_ctor_def sample_gexpr_def)
  moreover have "table_agrees [] sample_memo" by (simp add: table_agrees_def sample_sets sample_sel)
  moreover have "children_ok qc sample_memo"
    by (simp add: children_ok_def sample_sets sample_groups sample_sel sample_gexpr_def sorted_ok_def in_order_def query_op_class_def)
  moreover have "one_producer qc sample_memo"
    by (simp add: one_producer_def sample_sets sample_sel sample_gexpr_def producer_def query_op_class_def)
  moreover have "\<forall>p \<in> grps sample_memo. between sample_memo p"
    by (simp add: between_def sample_groups sample_sel sample_group_def g_FExplored_def g_FImplemented_def)
  moreover have "\<exists>r \<in> grps sample_memo. m_pgroupRoot sample_memo = Some r" by (simp add: sample_groups sample_sel)
  moreover have "\<forall>p \<in> grps sample_memo. m_ulCTEProducerId (m_group sample_memo p) = gpos_ulong_max"
    by (simp add: sample_groups sample_sel sample_group_def CGroup_ctor_def)
  ultimately show ?thesis using sample_links_ok by (simp add: merge_ready_def)
qed

lemma sample_in_order: "\<forall>e \<in> live sample_memo. in_order qc sample_memo e"
  by (simp add: sample_sets sample_sel sample_gexpr_def in_order_def query_op_class_def)

lemma sample_tables_congruent: "cong False qc sample_memo 0 1"
  by (rule cong_link) (simp add: links_def sample_groups sample_sel sample_group_def)

lemma sample_selects_congruent: "cong False qc sample_memo 2 3"
proof (rule cong_gexpr [where e = 2 and f = 3 and ys = "[1]"])
  show "list_all2 (cong False qc sample_memo) (children sample_memo 2) [1]"
    using sample_tables_congruent by (simp add: sample_sel sample_gexpr_def)
qed (simp_all add: sample_sets sample_sel sample_gexpr_def in_order_def query_op_class_def query_op_Matches_def)

text \<open>The two selections end up in one group, the two tables too, and the join stays apart.\<close>

theorem GroupMerge_exact_witness:
  "\<exists>M'. memo_GroupMerge qc sample_memo = Some (Inr M') \<and> same_group M' 3 2 \<and> same_group M' 0 1"
  using GroupMerge_exact [OF query_ops.operator_laws_axioms sample_ready sample_in_order]
    cong_sym [OF sample_selects_congruent] sample_tables_congruent by blast

section \<open>Marking duplicates\<close>

text \<open>
  C10: Marking two different groups as duplicates ends without a failing assertion, keeps the links going to larger
  ids, and joins exactly the classes of the two groups: two groups have one master afterwards if they had
  one before or were in the two classes.
\<close>

theorem MarkDuplicates_joins_classes:
  assumes "links_ok M" and "p \<in> grps M" and "q \<in> grps M" and "p \<noteq> q"
  shows "\<exists>M'. memo_MarkDuplicates p q M = Some (Inr M') \<and> relinked M M' \<and> links_ok M' \<and>
    (\<forall>a \<in> grps M. \<forall>b \<in> grps M. master M' a = master M' b \<longleftrightarrow>
       master M a = master M b \<or> master M a = master M p \<and> master M q = master M b \<or>
       master M a = master M q \<and> master M p = master M b)"
proof -
  obtain M' where M': "memo_MarkDuplicates p q M = Some (Inr M')" "relinked M M'" "links_ok M'"
    "eqc (links M') = eqc (insert (p, q) (links M))"
    using MarkDuplicates_correct [OF assms] by blast
  then show ?thesis
    using master_eq_iff [OF assms(1)] master_eq_iff [OF M'(3)] relinked_sel(1) [OF M'(2)] assms(2,3)
    by (intro exI [of _ M']) (simp add: eqc_insert_iff)
qed

theorem MarkDuplicates_joins_classes_witness:
  "\<exists>M'. memo_MarkDuplicates 2 3 sample_memo = Some (Inr M') \<and> master M' 2 = master M' 3"
proof -
  have pq: "2 \<in> grps sample_memo" "3 \<in> grps sample_memo" "(2 :: nat) \<noteq> 3" by (simp_all add: sample_groups)
  show ?thesis using MarkDuplicates_joins_classes [OF sample_links_ok pq] pq(1,2) by blast
qed

section \<open>Insertion\<close>

definition empty_memo :: "nat \<Rightarrow> (query_op, unit) CMemo" where
  "empty_memo n = CMemo_Init n (\<lambda>_. CGroup_ctor False) (\<lambda>_. sample_gexpr 0 CLogicalSelect [] 0)"

lemma a_table_ok: "tree_ok qc M a_table" "tree_ok qc M a_select"
  by (simp_all add: a_table_def a_select_def query_op_class_def)

lemma empty_memo_ok: "memo_ok C (empty_memo 7)"
  unfolding empty_memo_def by (rule CMemo_Init_ok) simp

theorem PgroupInsert_correct_witness:
  "\<exists>p M'. eng_PgroupInsert qc (\<lambda>_. ()) None a_select None None False (empty_memo 7) = Inr (p, M') \<and> memo_ok qc M' \<and>
     keeps (empty_memo 7) M' \<and> stored qc M' a_select p"
  by (rule PgroupInsert_correct [OF query_ops.operator_laws_axioms empty_memo_ok a_table_ok(2)])

lemma keeps_no_dups: "memo_ok C M \<Longrightarrow> keeps M M' \<Longrightarrow> no_dups M \<Longrightarrow> no_dups M'"
  unfolding no_dups_def using keepsD(15) [of M M'] keepsD(7) [of M M'] memo_ok_count(2) [of C M] by fastforce

text \<open>A table, then a selection over it, then the table again.\<close>

theorem PgroupInsert_again_witness:
  "\<exists>p q M1 M2 M3. eng_PgroupInsert qc (\<lambda>_. ()) None a_table None None False (empty_memo 7) = Inr (p, M1) \<and>
     eng_PgroupInsert qc (\<lambda>_. ()) None a_select None None False M1 = Inr (q, M2) \<and>
     eng_PgroupInsert qc (\<lambda>_. ()) None a_table None None True M2 = Inr (p, M3) \<and> only_allocates M2 M3"
proof -
  obtain p M1 where M1: "eng_PgroupInsert qc (\<lambda>_. ()) None a_table None None False (empty_memo 7) = Inr (p, M1)" "memo_ok qc M1"
    "keeps (empty_memo 7) M1"
    using query_ops.insert_tree [OF _ empty_memo_ok a_table_ok(1), of None None "\<lambda>_. ()" False] unfolding query_ops.inserts_def by blast
  obtain q M2 where M2: "eng_PgroupInsert qc (\<lambda>_. ()) None a_select None None False M1 = Inr (q, M2)" "memo_ok qc M2" "keeps M1 M2"
    using query_ops.insert_tree [OF _ M1(2) a_table_ok(2), of None None "\<lambda>_. ()" False] unfolding query_ops.inserts_def by blast
  have "no_dups (empty_memo 7)" by (simp add: no_dups_def empty_memo_def CMemo_Init_def)
  then have "no_dups M2" using keeps_no_dups [OF empty_memo_ok] keeps_trans [OF M1(3) M2(3)] by blast
  then show ?thesis
    using PgroupInsert_again [OF query_ops.operator_laws_axioms empty_memo_ok a_table_ok(1) M1(1) M2(3,2)] M1(1) M2(1) by blast
qed

section \<open>Rule results\<close>

text \<open>
  C8: Inserting the results of a rule into the group of the expression it was applied to succeeds with all
  assertions and keeps the invariant and everything in the memo. The root of every result is then in the table, in
  a group that is linked to that group as a duplicate unless their output columns differ.
\<close>

theorem InsertXformResult_correct:
  assumes "operator_laws C" and "memo_ok C M" and "p \<in> grps M" and "list_all (alternative_ok C M p) ts"
  shows "\<exists>M'. eng_InsertXformResult C D S p ts x e M = Some (Inr M') \<and> memo_ok C M' \<and> grows M M' \<and>
    (\<forall>t \<in> set ts. result_in C S M' p t)"
  by (rule operator_laws.xform_results [OF assms])

text \<open>A selection whose group gets the table itself as an alternative.\<close>

theorem InsertXformResult_correct_witness:
  "\<exists>p M M'. eng_PgroupInsert qc (\<lambda>_. ()) None a_select None None False (empty_memo 7) = Inr (p, M) \<and>
     eng_InsertXformResult qc (\<lambda>_. ()) (\<lambda>_ _. True) p [a_table] 3 0 M = Some (Inr M') \<and> result_in qc (\<lambda>_ _. True) M' p a_table"
proof -
  obtain p M where M: "eng_PgroupInsert qc (\<lambda>_. ()) None a_select None None False (empty_memo 7) = Inr (p, M)" "memo_ok qc M"
    "stored qc M a_select p" "m_fScalar (m_group M p) = tree_scalar qc (empty_memo 7) a_select"
    using query_ops.insert_tree [OF _ empty_memo_ok a_table_ok(2), of None None "\<lambda>_. ()" False] unfolding query_ops.inserts_def by blast
  have p: "p \<in> grps M" by (rule stored_grps [OF M(2,3)])
  have "\<not> m_fScalar (m_group M p)" using M(4) by (simp add: tree_scalar_def a_select_def query_op_class_def)
  then have "list_all (alternative_ok qc M p) [a_table]"
    using p by (simp add: alternative_ok_def a_table_def query_op_class_def)
  then show ?thesis
    using InsertXformResult_correct [OF query_ops.operator_laws_axioms M(2) p, of "[a_table]" "\<lambda>_. ()" "\<lambda>_ _. True" 3 0] M(1) by auto
qed

section \<open>Exploration\<close>

text \<open>
  C9: In every memo that exploration goes through groups are numbered in the order of creation, links go to
  larger numbers, no group is empty, the lists of the groups and the hash table have the same expressions, each in
  the bucket of its hash value, scalar groups have one expression and its scalar representation, and the root is a group.
\<close>

theorem exploration_invariant:
  assumes "operator_laws C" and "exploration C D S M"
  shows "memo_ok C M \<and> (\<exists>r \<in> grps M. m_pgroupRoot M = Some r)"
  using operator_laws.exploration_ok [OF assms] .

definition query_memo :: "(query_op, unit) CMemo" where
  "query_memo = (case eng_InitLogicalExpression qc (\<lambda>_. ()) a_select (empty_memo 1) of Inr M \<Rightarrow> M | Inl _ \<Rightarrow> empty_memo 1)"

lemma query_memo_run: "eng_InitLogicalExpression qc (\<lambda>_. ()) a_select (empty_memo 1) = Inr query_memo"
proof -
  have "memo_ok qc (empty_memo 1)" unfolding empty_memo_def by (rule CMemo_Init_ok) simp
  then obtain M where "eng_InitLogicalExpression qc (\<lambda>_. ()) a_select (empty_memo 1) = Inr M"
    using query_ops.InitLogicalExpression_ok [of _ "empty_memo 1" a_select "\<lambda>_. ()"] a_table_ok(2)
    by (auto simp: empty_memo_def CMemo_Init_def a_select_def query_op_class_def)
  then show ?thesis by (simp add: query_memo_def)
qed

lemma query_memo_explored: "exploration qc (\<lambda>_. ()) S query_memo"
  using query_memo_run a_table_ok(2) unfolding empty_memo_def by (intro exploration.query [of 1]) auto

theorem exploration_invariant_witness:
  "exploration qc (\<lambda>_. ()) (\<lambda>_ _. True) query_memo \<and> memo_ok qc query_memo \<and> (\<exists>r \<in> grps query_memo. m_pgroupRoot query_memo = Some r)"
  using exploration_invariant [OF query_ops.operator_laws_axioms query_memo_explored] query_memo_explored by blast

text \<open>
  C5: Exploration followed by the merge: when every group of an explored memo is explored and no CTE producer
  can meet another one in its class, group merging ends with all assertions, and two groups have one master
  exactly as the congruence closure of the explored memo demands (up to permuted children where their order does
  not matter). Every duplicate group is then empty and points to its master, no two remaining expressions in
  one bucket match, and the root is a master again.
\<close>

theorem exploration_then_merge:
  assumes "operator_laws C" and "exploration C D S M" and "\<forall>p \<in> grps M. between M p" and "one_producer C M"
  shows "\<exists>M' r r'. memo_GroupMerge C M = Some (Inr M') \<and>
    (\<forall>p q. cong False C M p q \<longrightarrow> same_group M' p q) \<and> (\<forall>p q. same_group M' p q \<longrightarrow> cong True C M p q) \<and>
    (\<forall>p \<in> grps M'. dup_of M' p \<noteq> None \<longrightarrow> gexprs_of M' p = [] \<and> dup_of M' p = Some (master M' p)) \<and>
    (\<forall>e \<in> live M'. \<forall>f \<in> live M'. sht_GetBucketIndex C M' e = sht_GetBucketIndex C M' f \<longrightarrow> matches C M' e f \<longrightarrow> e = f) \<and>
    m_pgroupRoot M = Some r \<and> m_pgroupRoot M' = Some r' \<and> dup_of M' r' = None \<and> cong True C M r r'"
  using operator_laws.GroupMerge_correct [OF assms(1) exploration_merge_ready [OF assms]]
  unfolding settled_def uniq_def by blast

lemmas insert_eval =
  eng_InitLogicalExpression_def CMemo_Init_def CGroupExpression_ctor_def gexpr_alloc_def memo_PgroupInsert_def sht_Find_def
  sht_GetBucketIndex_def memo_FNewGroup_def CGroup_ctor_def memo_PgroupInsert_helper_def sht_Insert_def gp_Insert_def ge_Init_def
  upd_group_def upd_gexpr_def ge_SetGroup_def ge_SetId_def ge_SetOptimizationLevel_def Let_def g_Insert_def memo_Add_def g_SetId_def
  g_InitProperties_def gp_PgexprFirst_def SetRoot_def query_op_class_def ge_Matches_def query_op_Matches_def

lemma query_memo_facts:
  "m_listGroups query_memo = [1, 0] \<and> g_estate (m_group query_memo 0) = estUnexplored \<and>
   g_estate (m_group query_memo 1) = estUnexplored \<and> live query_memo = {0, 1} \<and>
   pop_of query_memo 0 = CLogicalGet (1, 1, 0) [] \<and> pop_of query_memo 1 = CLogicalSelect"
  unfolding query_memo_def
  by (simp add: insert_eval empty_memo_def a_select_def a_table_def sample_gexpr_def live_def sht_entries_def insert_commute cong: if_cong)

definition mark_explored :: "nat \<Rightarrow> ('op, 'p) CMemo \<Rightarrow> ('op, 'p) CMemo" where
  "mark_explored p M = upd_group p (\<lambda>g. g\<lparr>g_estate := estExplored\<rparr>) M"

lemma exploration_mark:
  assumes "exploration C D S M" and "g_estate (m_group M p) = estUnexplored"
  shows "exploration C D S (mark_explored p M)"
proof -
  let ?M1 = "upd_group p (\<lambda>g. g\<lparr>g_estate := estExploring\<rparr>) M"
  have "g_SetState p estExploring M = Inr ?M1" using assms(2) by (simp add: g_SetState_def)
  then have "exploration C D S ?M1" by (rule exploration.group_state [OF assms(1)])
  moreover have "g_SetState p estExplored ?M1 = Inr (mark_explored p M)"
    by (simp add: g_SetState_def upd_group_def mark_explored_def)
  ultimately show ?thesis by (rule exploration.group_state)
qed

text \<open>The memo of the query with both groups explored is merged; its groups stay apart.\<close>

theorem exploration_then_merge_witness:
  "\<exists>M'. memo_GroupMerge qc (mark_explored 1 (mark_explored 0 query_memo)) = Some (Inr M') \<and> same_group M' 0 0"
proof -
  let ?M = "mark_explored 1 (mark_explored 0 query_memo)"
  have M: "exploration qc (\<lambda>_. ()) (\<lambda>_ _. True) ?M"
    using query_memo_facts by (intro exploration_mark query_memo_explored) (simp_all add: mark_explored_def upd_group_def)
  have g: "grps ?M = {0, 1}" using query_memo_facts by (auto simp: mark_explored_def upd_group_def)
  have b: "\<forall>p \<in> grps ?M. between ?M p"
    unfolding g by (simp add: mark_explored_def upd_group_def between_def g_FExplored_def g_FImplemented_def)
  have "live ?M = {0, 1}" using query_memo_facts by (simp add: mark_explored_def upd_group_def live_def sht_entries_def)
  moreover have "live ?M = registered ?M" by (rule memo_ok_live, rule conjunct1, rule query_ops.exploration_ok [OF M])
  ultimately have reg: "registered ?M = {0, 1}" by (simp only:)
  have "pop_of ?M = pop_of query_memo" by (simp add: mark_explored_def upd_group_def)
  then have "\<not> producer qc ?M e" if "e \<in> {0, 1}" for e
    using that query_memo_facts unfolding producer_def by (auto simp: query_op_class_def fun_eq_iff)
  then have "one_producer qc ?M" unfolding one_producer_def reg by blast
  moreover have "cong False qc ?M 0 0" by (rule cong_refl, unfold g, simp)
  ultimately show ?thesis using exploration_then_merge [OF query_ops.operator_laws_axioms M b] by blast
qed

section \<open>Hash values and matches\<close>

definition cmp_class :: "query_op COperator_class" where
  "cmp_class = query_op_class (\<lambda>_. True)"

definition cmp_memo :: "(query_op, unit) CMemo" where
  "cmp_memo =
     \<lparr>m_group = (\<lambda>p. sample_group p p None), m_ngroups = 3,
      m_gexpr = (\<lambda>e. [sample_gexpr 0 (CScalarIdent 10) [] 0, sample_gexpr 0 (CScalarIdent 20) [] 1,
                      (sample_gexpr 0 (CScalarCmp (96, 1, 0)) [0, 1] 2)\<lparr>m_pdrgpgroupSorted := Some [0, 1]\<rparr>,
                      (sample_gexpr 0 (CScalarCmp (96, 1, 0)) [1, 0] 2)\<lparr>m_pdrgpgroupSorted := Some [0, 1]\<rparr>] ! e),
      m_ngexprs = 4, m_aul = 3, m_pgroupRoot = None, m_ulpGrps = 3, m_listGroups = [2, 1, 0],
      m_chain = (\<lambda>_. []), m_nbuckets = GPOPT_MEMO_HT_BUCKETS, m_size = 0\<rparr>"

lemma cmp_hashes:
  "HashValue_ULONG 96 = 7340032"
  "HashValue_ULONG 1 = 4227072"
  "HashValue_ULONG 0 = 4194304"
  "CombineHashes 4227072 4194304 = 2147483680"
  "CombineHashes 7340032 2147483680 = 3759147136"
  "CombineHashes 0 3759147136 = 4205280"
  "HashValue_ULONG 54 = 5963776"
  "CombineHashes 5963776 4205280 = 3060836352"
  "CombineHashes 3060836352 4194304 = 3948937258"
  "CombineHashes 3948937258 4227072 = 3467772240"
  "CombineHashes 3060836352 4227072 = 3949068330"
  "CombineHashes 3949068330 4194304 = 3400532304"
  by code_simp+

lemma cmp_buckets:
  "sht_GetBucketIndex cmp_class cmp_memo 2 = 22240" "sht_GetBucketIndex cmp_class cmp_memo 3 = 32304"
  by (simp_all add: sht_GetBucketIndex_def ge_HashValue_def g_HashValue_def Let_def cmp_memo_def cmp_class_def query_op_class_def
      sample_gexpr_def sample_group_def COperator_HashValue_def mdid_HashValue_def cmp_hashes GPOPT_MEMO_HT_BUCKETS_def)

text \<open>
  An example. Matching ignores the order of the children of an operator that is insensitive to it, but the hash
  value depends on that order: with a certain comparison of two columns in the table, the comparison with the
  columns swapped matches it, and the search for it in another bucket does not find it.
\<close>

lemma commuted_comparison_missed:
  "ge_Matches cmp_class cmp_memo 3 2 = Inr True \<and> sht_Find cmp_class (sht_Insert cmp_class 2 cmp_memo) 3 = Inr None"
proof
  show "ge_Matches cmp_class cmp_memo 3 2 = Inr True"
    by (simp add: ge_Matches_def Let_def cmp_memo_def cmp_class_def query_op_class_def sample_gexpr_def query_op_Matches_def
        FMatchGroups_def gpos_assert_def)
  have "sht_GetBucketIndex cmp_class (sht_Insert cmp_class 2 cmp_memo) 3 = sht_GetBucketIndex cmp_class cmp_memo 3"
    by (rule bucket_same_memory) simp_all
  moreover have "m_chain (sht_Insert cmp_class 2 cmp_memo) (sht_GetBucketIndex cmp_class cmp_memo 3) = []"
    unfolding sht_Insert_def Let_def cmp_buckets by (simp add: cmp_memo_def)
  ultimately show "sht_Find cmp_class (sht_Insert cmp_class 2 cmp_memo) 3 = Inr None" by (simp add: sht_Find_def)
qed

end
