(* ===== verification/Scheduler.thy ===== *)
theory Scheduler
  imports Prelude "HOL-Library.Multiset_Order"
begin

text \<open>
  \<^verbatim>\<open>CScheduler\<close>, \<^verbatim>\<open>CJobQueue\<close> and the scheduling part of \<^verbatim>\<open>CJob\<close>. A job counts the children it waits for and the queue
  it waits in; the scheduler runs jobs from a stack until none is left. Jobs are numbered in the
  order of their creation and live in a store, from which they are released on completion, so that a
  released job that is used again is the error \<open>NullDeref\<close>. The virtual \<^verbatim>\<open>FExecute\<close> of a job is the argument
  \<open>exec\<close>: from the members of the derived class (\<open>m_body\<close>) and the rest of the optimizer (\<open>m_world\<close>) it
  computes whether the job is completed, its new members, the children it adds with their queues and
  the new world. Job links are allocated on demand and hold nothing but the job, so the list of waiting
  jobs is a list of jobs. A count of references is a number: it counts objects in memory.
\<close>

section \<open>Jobs, queues and the scheduler\<close>

datatype EJobState = EjsInit | EjsWaiting | EjsRunning | EjsSuspended | EjsCompleted

record 'b CJob =
  m_pjParent :: "nat option"
  m_pjq :: "nat option"
  m_ulpRefs :: nat
  m_ejs :: EJobState
  m_body :: 'b

record CJobQueue =
  m_pj :: "nat option"
  m_fCompleted :: bool
  m_listjQueued :: "nat list"

datatype EJobQueueResult = EjqrMain | EjqrQueued | EjqrCompleted

datatype EJobResult = EjrRunnable | EjrSuspended | EjrCompleted

record CScheduler =
  m_listjlWaiting :: "nat list"
  m_ulpTotal :: ULLONG
  m_ulpRunning :: ULLONG
  m_ulpQueued :: ULLONG
  m_ulpStatsQueued :: ULLONG
  m_ulpStatsDequeued :: ULLONG
  m_ulpStatsSuspended :: ULLONG
  m_ulpStatsCompleted :: ULLONG
  m_ulpStatsCompletedQueued :: ULLONG
  m_ulpStatsResumed :: ULLONG
  m_listjRunning :: "nat list"
  m_listjSuspended :: "nat list"
  m_fTrackingJobs :: bool

text \<open>The scheduler with the jobs, the job queues and the state the jobs work on.\<close>

record ('b, 'w) job_search =
  m_sched :: CScheduler
  m_job :: "nat \<Rightarrow> 'b CJob option"
  m_njobs :: nat
  m_queue :: "nat \<Rightarrow> CJobQueue"
  m_world :: 'w

type_synonym ('b, 'w) FExecute = "'b \<Rightarrow> 'w \<Rightarrow> (bool \<times> 'b \<times> ('b \<times> nat option) list \<times> 'w) result"

definition CScheduler_ctor :: "bool \<Rightarrow> CScheduler" where
  "CScheduler_ctor fTrackingJobs =
     \<lparr>m_listjlWaiting = [], m_ulpTotal = 0, m_ulpRunning = 0, m_ulpQueued = 0, m_ulpStatsQueued = 0,
      m_ulpStatsDequeued = 0, m_ulpStatsSuspended = 0, m_ulpStatsCompleted = 0, m_ulpStatsCompletedQueued = 0,
      m_ulpStatsResumed = 0, m_listjRunning = [], m_listjSuspended = [], m_fTrackingJobs = fTrackingJobs\<rparr>"

definition sch_dtor :: "CScheduler \<Rightarrow> unit result" where
  "sch_dtor sched = gpos_assert (m_ulpTotal sched = 0) (Inr ())"

definition CJobQueue_ctor :: CJobQueue where
  "CJobQueue_ctor = \<lparr>m_pj = None, m_fCompleted = False, m_listjQueued = []\<rparr>"

definition jq_Reset :: "CJobQueue \<Rightarrow> CJobQueue result" where
  "jq_Reset jq = gpos_assert (m_listjQueued jq = []) (Inr (jq\<lparr>m_pj := None, m_fCompleted := False\<rparr>))"

section \<open>Access to the store\<close>

definition with_job :: "nat \<Rightarrow> ('b, 'w) job_search \<Rightarrow> ('b CJob \<Rightarrow> 'r result) \<Rightarrow> 'r result" where
  "with_job pj S k = (case m_job S pj of None \<Rightarrow> Inl NullDeref | Some j \<Rightarrow> k j)"

definition put_job :: "nat \<Rightarrow> 'b CJob \<Rightarrow> ('b, 'w) job_search \<Rightarrow> ('b, 'w) job_search" where
  "put_job pj j S = S\<lparr>m_job := (m_job S)(pj := Some j)\<rparr>"

definition upd_sched :: "(CScheduler \<Rightarrow> CScheduler) \<Rightarrow> ('b, 'w) job_search \<Rightarrow> ('b, 'w) job_search" where
  "upd_sched f S = S\<lparr>m_sched := f (m_sched S)\<rparr>"

definition upd_queue :: "nat \<Rightarrow> (CJobQueue \<Rightarrow> CJobQueue) \<Rightarrow> ('b, 'w) job_search \<Rightarrow> ('b, 'w) job_search" where
  "upd_queue q f S = S\<lparr>m_queue := (m_queue S)(q := f (m_queue S q))\<rparr>"

abbreviation tracking :: "('b, 'w) job_search \<Rightarrow> bool" where
  "tracking S \<equiv> m_fTrackingJobs (m_sched S)"

definition pj_IncRefs :: "nat \<Rightarrow> ('b, 'w) job_search \<Rightarrow> ('b, 'w) job_search result" where
  "pj_IncRefs pj S = with_job pj S (\<lambda>j. Inr (put_job pj (j\<lparr>m_ulpRefs := m_ulpRefs j + 1\<rparr>) S))"

definition pj_UlpDecrRefs :: "nat \<Rightarrow> ('b, 'w) job_search \<Rightarrow> (nat \<times> ('b, 'w) job_search) result" where
  "pj_UlpDecrRefs pj S = with_job pj S (\<lambda>j.
     gpos_assert (0 < m_ulpRefs j) (Inr (m_ulpRefs j, put_job pj (j\<lparr>m_ulpRefs := m_ulpRefs j - 1\<rparr>) S)))"

definition pj_SetParent :: "nat \<Rightarrow> nat option \<Rightarrow> ('b, 'w) job_search \<Rightarrow> ('b, 'w) job_search result" where
  "pj_SetParent pj pjParent S =
     gpos_assert (pjParent \<noteq> Some pj) (with_job pj S (\<lambda>j. Inr (put_job pj (j\<lparr>m_pjParent := pjParent\<rparr>) S)))"

definition no_refs :: "nat \<Rightarrow> ('b, 'w) job_search \<Rightarrow> ('b, 'w) job_search result" where
  "no_refs pj S = with_job pj S (\<lambda>j. gpos_assert (m_ulpRefs j = 0) (Inr S))"

text \<open>With tracking, the state of a job is asserted to be one of some states and set.\<close>

definition track_state :: "EJobState set \<Rightarrow> EJobState \<Rightarrow> nat \<Rightarrow> ('b, 'w) job_search \<Rightarrow> ('b, 'w) job_search result" where
  "track_state from ejs pj S =
     (if tracking S then with_job pj S (\<lambda>j. gpos_assert (m_ejs j \<in> from) (Inr (put_job pj (j\<lparr>m_ejs := ejs\<rparr>) S)))
      else Inr S)"

text \<open>\<^verbatim>\<open>CList::Remove\<close> of an element that is in no list fails an assertion or corrupts the list.\<close>

definition list_Remove :: "'a \<Rightarrow> 'a list \<Rightarrow> 'a list result" where
  "list_Remove x xs = gpos_assert (x \<in> set xs) (Inr (remove1 x xs))"

definition untrack_running :: "nat \<Rightarrow> ('b, 'w) job_search \<Rightarrow> ('b, 'w) job_search result" where
  "untrack_running pj S =
     (if tracking S then rbind (list_Remove pj (m_listjRunning (m_sched S))) (\<lambda>xs.
        Inr (upd_sched (\<lambda>s. s\<lparr>m_listjRunning := xs\<rparr>) S))
      else Inr S)"

definition untrack_suspended :: "nat \<Rightarrow> ('b, 'w) job_search \<Rightarrow> ('b, 'w) job_search result" where
  "untrack_suspended pj S =
     (if tracking S then rbind (list_Remove pj (m_listjSuspended (m_sched S))) (\<lambda>xs.
        Inr (upd_sched (\<lambda>s. s\<lparr>m_listjSuspended := xs\<rparr>) S))
      else Inr S)"

text \<open>The factory makes a job and takes it back (\<open>JobFactory\<close>): a job is new when it is made.\<close>

definition new_job :: "'b \<Rightarrow> nat option \<Rightarrow> ('b, 'w) job_search \<Rightarrow> nat \<times> ('b, 'w) job_search" where
  "new_job b pjq S =
     (m_njobs S, (put_job (m_njobs S) \<lparr>m_pjParent = None, m_pjq = pjq, m_ulpRefs = 0, m_ejs = EjsInit, m_body = b\<rparr> S)
        \<lparr>m_njobs := m_njobs S + 1\<rparr>)"

definition release_job :: "nat \<Rightarrow> ('b, 'w) job_search \<Rightarrow> ('b, 'w) job_search result" where
  "release_job pj S = with_job pj S (\<lambda>j. Inr (S\<lparr>m_job := (m_job S)(pj := None)\<rparr>))"

section \<open>Scheduling\<close>

definition sch_Schedule :: "nat \<Rightarrow> ('b, 'w) job_search \<Rightarrow> ('b, 'w) job_search result" where
  "sch_Schedule pj S =
     rbind (track_state {EjsInit, EjsRunning, EjsSuspended} EjsWaiting pj S) (\<lambda>S.
       Inr (upd_sched (\<lambda>s. s\<lparr>m_listjlWaiting := pj # m_listjlWaiting s, m_ulpQueued := m_ulpQueued s + 1,
                            m_ulpStatsQueued := m_ulpStatsQueued s + 1\<rparr>) S))"

definition sch_Add :: "nat \<Rightarrow> nat option \<Rightarrow> ('b, 'w) job_search \<Rightarrow> ('b, 'w) job_search result" where
  "sch_Add pj pjParent S =
     rbind (no_refs pj S) (\<lambda>S.
     rbind (case pjParent of None \<Rightarrow> Inr S | Some par \<Rightarrow> pj_IncRefs par S) (\<lambda>S.
     rbind (pj_SetParent pj pjParent S) (\<lambda>S.
       sch_Schedule pj (upd_sched (\<lambda>s. s\<lparr>m_ulpTotal := m_ulpTotal s + 1\<rparr>) S))))"

definition sch_Resume :: "nat \<Rightarrow> ('b, 'w) job_search \<Rightarrow> ('b, 'w) job_search result" where
  "sch_Resume pj S = rbind (no_refs pj S) (sch_Schedule pj)"

definition sch_PjRetrieve :: "('b, 'w) job_search \<Rightarrow> (nat option \<times> ('b, 'w) job_search) result" where
  "sch_PjRetrieve S =
     (case m_listjlWaiting (m_sched S) of
        [] \<Rightarrow> Inr (None, S)
      | pj # rest \<Rightarrow>
          rbind (no_refs pj (upd_sched (\<lambda>s. s\<lparr>m_listjlWaiting := rest\<rparr>) S)) (\<lambda>S.
          rbind (track_state {EjsWaiting} EjsRunning pj
                   (upd_sched (\<lambda>s. s\<lparr>m_ulpQueued := m_ulpQueued s - 1, m_ulpStatsDequeued := m_ulpStatsDequeued s + 1\<rparr>) S)) (\<lambda>S.
            Inr (Some pj, if tracking S then upd_sched (\<lambda>s. s\<lparr>m_listjRunning := m_listjRunning s @ [pj]\<rparr>) S else S))))"

definition sch_PreExecute :: "nat \<Rightarrow> ('b, 'w) job_search \<Rightarrow> ('b, 'w) job_search result" where
  "sch_PreExecute pj S =
     rbind (no_refs pj S) (\<lambda>S. pj_IncRefs pj (upd_sched (\<lambda>s. s\<lparr>m_ulpRunning := m_ulpRunning s + 1\<rparr>) S))"

definition sch_Suspend :: "nat \<Rightarrow> ('b, 'w) job_search \<Rightarrow> ('b, 'w) job_search result" where
  "sch_Suspend pj S =
     rbind (track_state {EjsRunning} EjsSuspended pj S) (\<lambda>S.
       Inr (upd_sched (\<lambda>s. s\<lparr>m_listjSuspended := (if m_fTrackingJobs s then m_listjSuspended s @ [pj] else m_listjSuspended s),
                            m_ulpStatsSuspended := m_ulpStatsSuspended s + 1\<rparr>) S))"

definition pj_FResumeParent :: "nat \<Rightarrow> ('b, 'w) job_search \<Rightarrow> (bool \<times> ('b, 'w) job_search) result" where
  "pj_FResumeParent pj S =
     rbind (no_refs pj S) (\<lambda>S.
     with_job pj S (\<lambda>j.
       case m_pjParent j of
         None \<Rightarrow> Inl AssertFailed
       | Some par \<Rightarrow> rbind (pj_UlpDecrRefs par S) (\<lambda>(ulpRefs, S). Inr (ulpRefs = 1, S))))"

definition sch_ResumeParent :: "nat \<Rightarrow> ('b, 'w) job_search \<Rightarrow> ('b, 'w) job_search result" where
  "sch_ResumeParent pj S =
     rbind (no_refs pj S) (\<lambda>S.
     with_job pj S (\<lambda>j.
       case m_pjParent j of
         None \<Rightarrow> Inr S
       | Some par \<Rightarrow>
           rbind (pj_FResumeParent pj S) (\<lambda>(fResume, S).
             if fResume
             then rbind (untrack_suspended par S) (\<lambda>S.
                  rbind (sch_Resume par S) (\<lambda>S.
                    Inr (upd_sched (\<lambda>s. s\<lparr>m_ulpStatsResumed := m_ulpStatsResumed s + 1\<rparr>) S)))
             else Inr S)))"

definition sch_Complete :: "nat \<Rightarrow> ('b, 'w) job_search \<Rightarrow> ('b, 'w) job_search result" where
  "sch_Complete pj S =
     rbind (no_refs pj S) (\<lambda>S.
     rbind (track_state {EjsRunning} EjsCompleted pj S) (\<lambda>S.
     rbind (sch_ResumeParent pj S) (\<lambda>S.
       Inr (upd_sched (\<lambda>s. s\<lparr>m_ulpTotal := m_ulpTotal s - 1, m_ulpStatsCompleted := m_ulpStatsCompleted s + 1\<rparr>) S))))"

definition sch_CompleteQueued :: "nat \<Rightarrow> ('b, 'w) job_search \<Rightarrow> ('b, 'w) job_search result" where
  "sch_CompleteQueued pj S =
     rbind (no_refs pj S) (\<lambda>S.
     rbind (if tracking S
            then with_job pj S (\<lambda>j. gpos_assert (m_ejs j = EjsSuspended)
                   (rbind (untrack_suspended pj S) (track_state UNIV EjsCompleted pj)))
            else Inr S) (\<lambda>S.
     rbind (sch_ResumeParent pj S) (\<lambda>S.
       Inr (upd_sched (\<lambda>s. s\<lparr>m_ulpTotal := m_ulpTotal s - 1, m_ulpStatsCompleted := m_ulpStatsCompleted s + 1,
                            m_ulpStatsCompletedQueued := m_ulpStatsCompletedQueued s + 1\<rparr>) S))))"

section \<open>Job queues\<close>

definition jq_EjqrAdd :: "nat \<Rightarrow> nat \<Rightarrow> ('b, 'w) job_search \<Rightarrow> (EJobQueueResult \<times> ('b, 'w) job_search) result" where
  "jq_EjqrAdd q pj S =
     (let jq = m_queue S q
      in if m_fCompleted jq then Inr (EjqrCompleted, S)
         else if m_pj jq = Some pj then rbind (pj_IncRefs pj S) (\<lambda>S. Inr (EjqrMain, S))
         else let xs = m_listjQueued jq @ [pj]
              in if hd xs = pj
                 then gpos_assert (m_pj jq = None)
                        (rbind (pj_IncRefs pj (upd_queue q (\<lambda>jq. jq\<lparr>m_listjQueued := xs, m_pj := Some pj\<rparr>) S)) (\<lambda>S.
                          Inr (EjqrMain, S)))
                 else rbind (pj_IncRefs pj (upd_queue q (\<lambda>jq. jq\<lparr>m_listjQueued := xs\<rparr>) S)) (\<lambda>S. Inr (EjqrQueued, S)))"

text \<open>The loop that empties the list of a queue.\<close>

fun jq_notify :: "nat \<Rightarrow> nat list \<Rightarrow> ('b, 'w) job_search \<Rightarrow> ('b, 'w) job_search result" where
  "jq_notify q [] S = Inr S"
| "jq_notify q (pj # rest) S =
     rbind (pj_UlpDecrRefs pj (upd_queue q (\<lambda>jq. jq\<lparr>m_listjQueued := rest\<rparr>) S)) (\<lambda>(ulpRefs, S).
     rbind (if ulpRefs = 1 then rbind (sch_CompleteQueued pj S) (release_job pj) else Inr S) (jq_notify q rest))"

definition jq_NotifyCompleted :: "nat \<Rightarrow> ('b, 'w) job_search \<Rightarrow> ('b, 'w) job_search result" where
  "jq_NotifyCompleted q S =
     gpos_assert (\<not> m_fCompleted (m_queue S q))
       (let S' = upd_queue q (\<lambda>jq. jq\<lparr>m_fCompleted := True\<rparr>) S
        in gpos_assert (m_listjQueued (m_queue S' q) \<noteq> []) (jq_notify q (m_listjQueued (m_queue S' q)) S'))"

section \<open>Execution\<close>

text \<open>A job that adds children makes, initialises and adds one after the other.\<close>

fun add_children :: "nat \<Rightarrow> ('b \<times> nat option) list \<Rightarrow> ('b, 'w) job_search \<Rightarrow> ('b, 'w) job_search result" where
  "add_children pj [] S = Inr S"
| "add_children pj (c # cs) S =
     (case new_job (fst c) (snd c) S of (pjChild, S) \<Rightarrow> rbind (sch_Add pjChild (Some pj) S) (add_children pj cs))"

definition pj_FExecute :: "('b, 'w) FExecute \<Rightarrow> nat \<Rightarrow> ('b, 'w) job_search \<Rightarrow> (bool \<times> ('b, 'w) job_search) result" where
  "pj_FExecute exec pj S =
     with_job pj S (\<lambda>j.
     rbind (exec (m_body j) (m_world S)) (\<lambda>(fCompleted, b, cs, w).
     rbind (add_children pj cs (put_job pj (j\<lparr>m_body := b\<rparr>) (S\<lparr>m_world := w\<rparr>))) (\<lambda>S. Inr (fCompleted, S))))"

definition sch_FExecute :: "('b, 'w) FExecute \<Rightarrow> nat \<Rightarrow> ('b, 'w) job_search \<Rightarrow> (bool \<times> ('b, 'w) job_search) result" where
  "sch_FExecute exec pj S =
     with_job pj S (\<lambda>j.
       case m_pjq j of
         None \<Rightarrow> pj_FExecute exec pj S
       | Some q \<Rightarrow>
           rbind (jq_EjqrAdd q pj S) (\<lambda>(ejqr, S).
             case ejqr of
               EjqrMain \<Rightarrow>
                 rbind (pj_FExecute exec pj S) (\<lambda>(fCompleted, S).
                   rbind (if fCompleted then jq_NotifyCompleted q S
                          else rbind (pj_UlpDecrRefs pj S) (\<lambda>(ulpRefs, S). Inr S)) (\<lambda>S. Inr (fCompleted, S)))
             | EjqrQueued \<Rightarrow> Inr (False, S)
             | EjqrCompleted \<Rightarrow> Inr (True, S)))"

definition sch_EjrPostExecute :: "nat \<Rightarrow> bool \<Rightarrow> ('b, 'w) job_search \<Rightarrow> (EJobResult \<times> ('b, 'w) job_search) result" where
  "sch_EjrPostExecute pj fCompleted S =
     rbind (pj_UlpDecrRefs pj S) (\<lambda>(ulRefs, S).
     let S = upd_sched (\<lambda>s. s\<lparr>m_ulpRunning := m_ulpRunning s - 1\<rparr>) S
     in if fCompleted then gpos_assert (ulRefs = 1) (Inr (EjrCompleted, S))
        else if ulRefs = 1 then Inr (EjrRunnable, S) else Inr (EjrSuspended, S))"

text \<open>The body of the loop of \<^verbatim>\<open>ExecuteJobs\<close> after a job has been retrieved, and the loop.\<close>

definition sch_execute_job :: "('b, 'w) FExecute \<Rightarrow> nat \<Rightarrow> ('b, 'w) job_search \<Rightarrow> ('b, 'w) job_search result" where
  "sch_execute_job exec pj S =
     rbind (sch_PreExecute pj S) (\<lambda>S.
     rbind (sch_FExecute exec pj S) (\<lambda>(fCompleted, S).
     rbind (untrack_running pj S) (\<lambda>S.
     rbind (sch_EjrPostExecute pj fCompleted S) (\<lambda>(ejr, S).
       case ejr of
         EjrCompleted \<Rightarrow> rbind (sch_Complete pj S) (release_job pj)
       | EjrRunnable \<Rightarrow> sch_Resume pj S
       | EjrSuspended \<Rightarrow> sch_Suspend pj S))))"

partial_function (option) sch_ExecuteJobs :: "('b, 'w) FExecute \<Rightarrow> ('b, 'w) job_search \<Rightarrow> ('b, 'w) job_search result option" where
  "sch_ExecuteJobs exec S =
     (case sch_PjRetrieve S of
        Inl e \<Rightarrow> Some (Inl e)
      | Inr (None, S) \<Rightarrow> Some (Inr S)
      | Inr (Some pj, S) \<Rightarrow>
          (case sch_execute_job exec pj S of
             Inl e \<Rightarrow> Some (Inl e)
           | Inr S \<Rightarrow> sch_ExecuteJobs exec S))"

text \<open>A search starts with one job, as \<^verbatim>\<open>CEngine::Optimize\<close> does.\<close>

definition search_start :: "bool \<Rightarrow> 'b \<Rightarrow> nat option \<Rightarrow> 'w \<Rightarrow> ('b, 'w) job_search result" where
  "search_start fTrackingJobs b pjq w =
     (case new_job b pjq \<lparr>m_sched = CScheduler_ctor fTrackingJobs, m_job = (\<lambda>_. None), m_njobs = 0,
                          m_queue = (\<lambda>_. CJobQueue_ctor), m_world = w\<rparr> of
        (pj, S) \<Rightarrow> sch_Add pj None S)"

end
