(* ===== verification/SchedulerInv.thy ===== *)
theory SchedulerInv
  imports Scheduler
begin

text \<open>
  What the scheduler keeps true. A job is waiting (on the stack), suspended, or in flight, when it is the job that
  runs or one that is just being completed. A count of references is the number of children that are
  not yet released, and one more for a job that waits in a queue behind another one.
\<close>

section \<open>Access\<close>

lemma put_job_sel [simp]:
  "m_sched (put_job p j S) = m_sched S" "m_job (put_job p j S) = (m_job S)(p := Some j)" "m_njobs (put_job p j S) = m_njobs S"
  "m_queue (put_job p j S) = m_queue S" "m_world (put_job p j S) = m_world S"
  by (simp_all add: put_job_def)

lemma upd_sched_sel [simp]:
  "m_sched (upd_sched f S) = f (m_sched S)" "m_job (upd_sched f S) = m_job S" "m_njobs (upd_sched f S) = m_njobs S"
  "m_queue (upd_sched f S) = m_queue S" "m_world (upd_sched f S) = m_world S"
  by (simp_all add: upd_sched_def)

lemma upd_queue_sel [simp]:
  "m_sched (upd_queue q g S) = m_sched S" "m_job (upd_queue q g S) = m_job S" "m_njobs (upd_queue q g S) = m_njobs S"
  "m_queue (upd_queue q g S) = (m_queue S)(q := g (m_queue S q))" "m_world (upd_queue q g S) = m_world S"
  by (simp_all add: upd_queue_def)

lemma with_job_Some [simp]: "m_job S p = Some j \<Longrightarrow> with_job p S k = k j"
  by (simp add: with_job_def)

lemma pj_IncRefs_eq [simp]:
  "m_job S p = Some j \<Longrightarrow> pj_IncRefs p S = Inr (put_job p (j\<lparr>m_ulpRefs := Suc (m_ulpRefs j)\<rparr>) S)"
  by (simp add: pj_IncRefs_def)

lemma pj_UlpDecrRefs_eq [simp]:
  "m_job S p = Some j \<Longrightarrow> 0 < m_ulpRefs j \<Longrightarrow>
   pj_UlpDecrRefs p S = Inr (m_ulpRefs j, put_job p (j\<lparr>m_ulpRefs := m_ulpRefs j - 1\<rparr>) S)"
  by (simp add: pj_UlpDecrRefs_def)

lemma no_refs_eq [simp]: "m_job S p = Some j \<Longrightarrow> m_ulpRefs j = 0 \<Longrightarrow> no_refs p S = Inr S"
  by (simp add: no_refs_def)

lemma release_job_eq [simp]: "m_job S p = Some j \<Longrightarrow> release_job p S = Inr (S\<lparr>m_job := (m_job S)(p := None)\<rparr>)"
  by (simp add: release_job_def)

section \<open>The invariant\<close>

definition alive :: "('b, 'w) job_search \<Rightarrow> nat set" where
  "alive S = dom (m_job S)"

definition children :: "('b, 'w) job_search \<Rightarrow> nat \<Rightarrow> nat set" where
  "children S p = {c. \<exists>j. m_job S c = Some j \<and> m_pjParent j = Some p}"

definition waiter :: "('b, 'w) job_search \<Rightarrow> nat \<Rightarrow> bool" where
  "waiter S c \<longleftrightarrow> (\<exists>q. c \<in> set (m_listjQueued (m_queue S q)) \<and> m_pj (m_queue S q) \<noteq> Some c)"

abbreviation waiting :: "('b, 'w) job_search \<Rightarrow> nat list" where
  "waiting S \<equiv> m_listjlWaiting (m_sched S)"

abbreviation suspended :: "('b, 'w) job_search \<Rightarrow> nat list" where
  "suspended S \<equiv> m_listjSuspended (m_sched S)"

definition fresh_ok :: "('b, 'w) job_search \<Rightarrow> bool" where
  "fresh_ok S \<longleftrightarrow> (\<forall>p. m_njobs S \<le> p \<longrightarrow> m_job S p = None)"

definition parents_ok :: "('b, 'w) job_search \<Rightarrow> bool" where
  "parents_ok S \<longleftrightarrow> (\<forall>c j p. m_job S c = Some j \<longrightarrow> m_pjParent j = Some p \<longrightarrow> p < c \<and> m_job S p \<noteq> None)"

definition refs_ok :: "nat set \<Rightarrow> ('b, 'w) job_search \<Rightarrow> bool" where
  "refs_ok X S \<longleftrightarrow> (\<forall>c j. m_job S c = Some j \<longrightarrow> c \<notin> X \<longrightarrow> m_ulpRefs j = card (children S c) + of_bool (waiter S c))"

definition waiting_ok :: "nat set \<Rightarrow> ('b, 'w) job_search \<Rightarrow> bool" where
  "waiting_ok X S \<longleftrightarrow> distinct (waiting S) \<and> (\<forall>p \<in> set (waiting S). m_job S p \<noteq> None \<and> p \<notin> X) \<and>
     (\<forall>p j. m_job S p = Some j \<longrightarrow> p \<notin> X \<longrightarrow> (p \<in> set (waiting S) \<longleftrightarrow> m_ulpRefs j = 0))"

definition tracked_ok :: "nat set \<Rightarrow> ('b, 'w) job_search \<Rightarrow> bool" where
  "tracked_ok X S \<longleftrightarrow> (tracking S \<longrightarrow> distinct (suspended S) \<and>
     (\<forall>p. p \<in> set (suspended S) \<longleftrightarrow> m_job S p \<noteq> None \<and> p \<notin> X \<and> p \<notin> set (waiting S)) \<and>
     (\<forall>p j. m_job S p = Some j \<longrightarrow> p \<notin> X \<longrightarrow> m_ejs j = (if p \<in> set (waiting S) then EjsWaiting else EjsSuspended)))"

definition queue_ok :: "('b, 'w) job_search \<Rightarrow> bool \<Rightarrow> nat \<Rightarrow> CJobQueue \<Rightarrow> bool" where
  "queue_ok S notifying q jq \<longleftrightarrow> distinct (m_listjQueued jq) \<and>
     (\<forall>p \<in> set (m_listjQueued jq). \<exists>j. m_job S p = Some j \<and> m_pjq j = Some q) \<and>
     (if notifying then m_fCompleted jq
      else if m_fCompleted jq then m_listjQueued jq = []
      else m_pj jq = (if m_listjQueued jq = [] then None else Some (hd (m_listjQueued jq))))"

lemma queue_ok_cong:
  assumes "\<And>p. p \<in> set (m_listjQueued jq) \<Longrightarrow>
    (\<exists>j. m_job S' p = Some j \<and> m_pjq j = Some q) = (\<exists>j. m_job S p = Some j \<and> m_pjq j = Some q)"
  shows "queue_ok S' notifying q jq = queue_ok S notifying q jq"
proof -
  have "(\<forall>p \<in> set (m_listjQueued jq). \<exists>j. m_job S' p = Some j \<and> m_pjq j = Some q) \<longleftrightarrow>
    (\<forall>p \<in> set (m_listjQueued jq). \<exists>j. m_job S p = Some j \<and> m_pjq j = Some q)"
    using assms by (rule ball_cong [OF refl])
  then show ?thesis by (simp only: queue_ok_def)
qed

definition queues_ok :: "nat set \<Rightarrow> ('b, 'w) job_search \<Rightarrow> bool" where
  "queues_ok N S \<longleftrightarrow> (\<forall>q. queue_ok S (q \<in> N) q (m_queue S q))"

definition waiters_ok :: "('b, 'w) job_search \<Rightarrow> bool" where
  "waiters_ok S \<longleftrightarrow> (\<forall>c. waiter S c \<longrightarrow> children S c = {})"

definition counters_ok :: "('b, 'w) job_search \<Rightarrow> bool" where
  "counters_ok S \<longleftrightarrow> m_ulpTotal (m_sched S) = of_nat (card (alive S)) \<and>
     m_ulpQueued (m_sched S) = of_nat (length (waiting S)) \<and>
     m_ulpStatsQueued (m_sched S) = m_ulpStatsDequeued (m_sched S) + of_nat (length (waiting S)) \<and>
     m_ulpStatsCompleted (m_sched S) + of_nat (card (alive S)) = of_nat (m_njobs S)"

definition sched_inv :: "nat set \<Rightarrow> nat set \<Rightarrow> ('b, 'w) job_search \<Rightarrow> bool" where
  "sched_inv X N S \<longleftrightarrow> fresh_ok S \<and> parents_ok S \<and> refs_ok X S \<and> waiting_ok X S \<and> tracked_ok X S \<and> queues_ok N S \<and>
     waiters_ok S \<and> counters_ok S \<and> X \<subseteq> alive S"

lemma sched_invD:
  assumes "sched_inv X N S"
  shows "fresh_ok S" "parents_ok S" "refs_ok X S" "waiting_ok X S" "tracked_ok X S" "queues_ok N S" "waiters_ok S" "counters_ok S"
    "X \<subseteq> alive S"
  using assms by (simp_all add: sched_inv_def)

lemma finite_alive:
  assumes "sched_inv X N S"
  shows "finite (alive S)"
proof (rule finite_subset)
  show "alive S \<subseteq> {..<m_njobs S}"
  proof
    fix p assume "p \<in> alive S"
    then have "\<not> m_njobs S \<le> p" using sched_invD(1) [OF assms] by (auto simp: fresh_ok_def alive_def)
    then show "p \<in> {..<m_njobs S}" by simp
  qed
qed simp

lemma finite_children: "sched_inv X N S \<Longrightarrow> finite (children S p)"
  by (rule finite_subset [OF _ finite_alive]) (auto simp: children_def alive_def)

text \<open>What a job is, besides its counter and its state, and what else a step may keep.\<close>

definition skeleton :: "('b, 'w) job_search \<Rightarrow> nat \<Rightarrow> (nat option \<times> nat option \<times> 'b) option" where
  "skeleton S p = map_option (\<lambda>j. (m_pjParent j, m_pjq j, m_body j)) (m_job S p)"

definition frame :: "nat set \<Rightarrow> ('b, 'w) job_search \<Rightarrow> ('b, 'w) job_search \<Rightarrow> bool" where
  "frame P S S' \<longleftrightarrow> m_world S' = m_world S \<and> m_listjRunning (m_sched S') = m_listjRunning (m_sched S) \<and>
     m_ulpRunning (m_sched S') = m_ulpRunning (m_sched S) \<and> tracking S' = tracking S \<and> (\<forall>p \<in> P. m_job S' p = m_job S p)"

lemma alive_skeleton: "alive S = dom (skeleton S)"
  by (auto simp: alive_def skeleton_def dom_def)

lemma children_skeleton: "children S p = {c. \<exists>r. skeleton S c = Some (Some p, r)}"
  by (auto simp: children_def skeleton_def)

lemma skeleton_eqD: "skeleton S' = skeleton S \<Longrightarrow> alive S' = alive S" "skeleton S' = skeleton S \<Longrightarrow> children S' p = children S p"
  by (simp_all add: alive_skeleton children_skeleton)

lemma skeleton_put: "skeleton (put_job p j S) = (skeleton S)(p := Some (m_pjParent j, m_pjq j, m_body j))"
  by (simp add: skeleton_def fun_eq_iff)

lemma skeleton_sel [simp]:
  "skeleton (upd_sched f S) = skeleton S" "skeleton (upd_queue q g S) = skeleton S" "skeleton (S\<lparr>m_world := w\<rparr>) = skeleton S"
  by (simp_all add: skeleton_def fun_eq_iff)

lemma skeleton_put_same:
  assumes "m_job S p = Some j" "m_pjParent j' = m_pjParent j" "m_pjq j' = m_pjq j" "m_body j' = m_body j"
  shows "skeleton (put_job p j' S) = skeleton S"
  using assms by (simp add: skeleton_def fun_eq_iff)

text \<open>The part of the invariant that counters of jobs, their states and the lists of the scheduler do not matter for.\<close>

definition graph_ok :: "nat set \<Rightarrow> ('b, 'w) job_search \<Rightarrow> bool" where
  "graph_ok N S \<longleftrightarrow> fresh_ok S \<and> parents_ok S \<and> queues_ok N S \<and> waiters_ok S"

definition refs_of :: "('b, 'w) job_search \<Rightarrow> nat \<Rightarrow> nat" where
  "refs_of S p = m_ulpRefs (the (m_job S p))"

lemma sched_inv_graph:
  "sched_inv X N S \<longleftrightarrow> graph_ok N S \<and> refs_ok X S \<and> waiting_ok X S \<and> tracked_ok X S \<and> counters_ok S \<and> X \<subseteq> alive S"
  by (auto simp: sched_inv_def graph_ok_def)

lemma fresh_ok_skeleton: "fresh_ok S \<longleftrightarrow> (\<forall>p. m_njobs S \<le> p \<longrightarrow> skeleton S p = None)"
  by (simp add: fresh_ok_def skeleton_def)

lemma parents_ok_skeleton:
  "parents_ok S \<longleftrightarrow> (\<forall>c p r. skeleton S c = Some (Some p, r) \<longrightarrow> p < c \<and> skeleton S p \<noteq> None)"
  by (auto simp: parents_ok_def skeleton_def)

lemma queue_ok_skeleton:
  "queue_ok S notifying q jq \<longleftrightarrow> distinct (m_listjQueued jq) \<and>
     (\<forall>p \<in> set (m_listjQueued jq). \<exists>a b. skeleton S p = Some (a, Some q, b)) \<and>
     (if notifying then m_fCompleted jq
      else if m_fCompleted jq then m_listjQueued jq = []
      else m_pj jq = (if m_listjQueued jq = [] then None else Some (hd (m_listjQueued jq))))"
proof -
  have "(\<exists>j. m_job S p = Some j \<and> m_pjq j = Some q) \<longleftrightarrow> (\<exists>a b. skeleton S p = Some (a, Some q, b))" for p
    by (auto simp: skeleton_def)
  then show ?thesis by (simp only: queue_ok_def)
qed

lemma queued_skeleton:
  assumes "queue_ok S notifying q jq" and "p \<in> set (m_listjQueued jq)"
  obtains a b where "skeleton S p = Some (a, Some q, b)"
proof -
  have "\<forall>p \<in> set (m_listjQueued jq). \<exists>a b. skeleton S p = Some (a, Some q, b)"
    using assms(1) unfolding queue_ok_skeleton by (elim conjE)
  then show thesis using assms(2) that by auto
qed

lemma waiter_cong: "m_queue S' = m_queue S \<Longrightarrow> waiter S' c = waiter S c"
  by (simp add: waiter_def)

lemma graph_ok_cong:
  assumes sk: "skeleton S' = skeleton S" and q: "m_queue S' = m_queue S" and n: "m_njobs S' = m_njobs S"
  shows "graph_ok N S' \<longleftrightarrow> graph_ok N S"
  using waiter_cong [OF q]
  by (simp only: graph_ok_def fresh_ok_skeleton parents_ok_skeleton queue_ok_skeleton queues_ok_def waiters_ok_def
      sk q n skeleton_eqD(2) [OF sk])

lemma waiting_not_in_flight: "sched_inv X N S \<Longrightarrow> p \<in> X \<Longrightarrow> p \<notin> set (waiting S)"
  by (auto simp: sched_inv_def waiting_ok_def)

section \<open>A job enters and leaves the stack\<close>

lemma Schedule_inv:
  assumes inv: "sched_inv (insert p X) N S" and p: "p \<notin> X" and j: "m_job S p = Some j" and refs: "m_ulpRefs j = 0"
    and ch: "children S p = {}" and nw: "\<not> waiter S p"
    and ejs: "tracking S \<Longrightarrow> m_ejs j \<in> {EjsInit, EjsRunning, EjsSuspended}"
  obtains S' where "sch_Schedule p S = Inr S'" "sched_inv X N S'" "skeleton S' = skeleton S" "m_queue S' = m_queue S"
    "m_njobs S' = m_njobs S" "frame (- {p}) S S'"
proof -
  define j' where "j' = (if tracking S then j\<lparr>m_ejs := EjsWaiting\<rparr> else j)"
  define f :: "CScheduler \<Rightarrow> CScheduler" where "f = (\<lambda>s. s\<lparr>m_listjlWaiting := p # m_listjlWaiting s, m_ulpQueued := m_ulpQueued s + 1,
                            m_ulpStatsQueued := m_ulpStatsQueued s + 1\<rparr>)"
  define S' where "S' = upd_sched f (put_job p j' S)"
  have job: "m_job S' = (m_job S)(p \<mapsto> j')" by (simp add: S'_def)
  have w: "waiting S' = p # waiting S" "suspended S' = suspended S" "tracking S' = tracking S"
    by (simp_all add: S'_def f_def)
  have "put_job p j S = S" using j by (simp add: put_job_def fun_upd_idem)
  then have run: "sch_Schedule p S = Inr S'"
    using j ejs by (auto simp: sch_Schedule_def track_state_def S'_def j'_def f_def)
  have sk: "skeleton S' = skeleton S" using skeleton_put_same [OF j, of j'] by (simp add: S'_def j'_def)
  have q: "m_queue S' = m_queue S" "m_njobs S' = m_njobs S" by (simp_all add: S'_def)
  have r: "m_ulpRefs j' = 0" using refs by (simp add: j'_def)
  have pw: "p \<notin> set (waiting S)" using waiting_not_in_flight [OF inv] by simp
  have "graph_ok N S'" using inv graph_ok_cong [OF sk q] by (simp add: sched_inv_graph)
  moreover have "refs_ok X S'"
    unfolding refs_ok_def job waiter_cong [OF q(1)] skeleton_eqD(2) [OF sk]
    using sched_invD(3) [OF inv] r ch nw by (auto simp: refs_ok_def)
  moreover have "waiting_ok X S'"
    using sched_invD(4) [OF inv] r p pw by (auto simp: waiting_ok_def job w)
  moreover have "tracked_ok X S'"
    using sched_invD(5) [OF inv] p pw by (auto simp: tracked_ok_def job w j'_def)
  moreover have "counters_ok S'"
    using sched_invD(8) [OF inv] skeleton_eqD(1) [OF sk] by (simp add: counters_ok_def w q) (simp add: S'_def f_def)
  moreover have "X \<subseteq> alive S'" using sched_invD(9) [OF inv] skeleton_eqD(1) [OF sk] by simp
  ultimately have "sched_inv X N S'" by (simp add: sched_inv_graph)
  moreover have "frame (- {p}) S S'" by (simp add: frame_def S'_def f_def)
  ultimately show thesis using that run sk q by blast
qed

lemma PjRetrieve_inv:
  assumes inv: "sched_inv {} {} S" and w: "waiting S = p # rest" and run: "m_listjRunning (m_sched S) = []"
  obtains S' where "sch_PjRetrieve S = Inr (Some p, S')" "sched_inv {p} {} S'" "skeleton S' = skeleton S" "m_queue S' = m_queue S"
    "m_njobs S' = m_njobs S" "m_world S' = m_world S" "tracking S' = tracking S" "waiting S' = rest"
    "m_ulpRunning (m_sched S') = m_ulpRunning (m_sched S)" "refs_of S' p = 0" "\<not> waiter S' p" "children S' p = {}"
    "tracking S \<longrightarrow> m_ejs (the (m_job S' p)) = EjsRunning" "m_listjRunning (m_sched S') = (if tracking S then [p] else [])"
proof -
  have "m_job S p \<noteq> None" using sched_invD(4) [OF inv] w by (simp add: waiting_ok_def)
  then obtain j where j: "m_job S p = Some j" by auto
  have "p \<in> set (waiting S)" using w by simp
  then have refs: "m_ulpRefs j = 0" using sched_invD(4) [OF inv] j unfolding waiting_ok_def by blast
  have "card (children S p) = 0 \<and> \<not> waiter S p" using sched_invD(3) [OF inv] j refs by (auto simp: refs_ok_def)
  then have nc: "children S p = {}" "\<not> waiter S p" using finite_children [OF inv] by auto
  have ejs: "tracking S \<Longrightarrow> m_ejs j = EjsWaiting" using sched_invD(5) [OF inv] j w by (auto simp: tracked_ok_def)
  define j' where "j' = (if tracking S then j\<lparr>m_ejs := EjsRunning\<rparr> else j)"
  define f :: "CScheduler \<Rightarrow> CScheduler" where "f = (\<lambda>s. s\<lparr>m_listjlWaiting := rest, m_ulpQueued := m_ulpQueued s - 1,
    m_ulpStatsDequeued := m_ulpStatsDequeued s + 1,
    m_listjRunning := (if m_fTrackingJobs s then m_listjRunning s @ [p] else m_listjRunning s)\<rparr>)"
  define S' where "S' = upd_sched f (put_job p j' S)"
  have job: "m_job S' = (m_job S)(p \<mapsto> j')" by (simp add: S'_def)
  have w': "waiting S' = rest" "suspended S' = suspended S" "tracking S' = tracking S"
    by (simp_all add: S'_def f_def)
  have "put_job p j S = S" using j by (simp add: put_job_def fun_upd_idem)
  then have "sch_PjRetrieve S = Inr (Some p, S')"
    using w j refs ejs
    by (simp add: sch_PjRetrieve_def track_state_def S'_def j'_def f_def upd_sched_def put_job_def)
  moreover have sk: "skeleton S' = skeleton S" using skeleton_put_same [OF j, of j'] by (simp add: S'_def j'_def)
  moreover have q: "m_queue S' = m_queue S" "m_njobs S' = m_njobs S" by (simp_all add: S'_def)
  moreover have "sched_inv {p} {} S'"
  proof -
    have "graph_ok {} S'" using inv graph_ok_cong [OF sk q] by (simp add: sched_inv_graph)
    moreover have "refs_ok {p} S'"
      unfolding refs_ok_def job waiter_cong [OF q(1)] skeleton_eqD(2) [OF sk]
      using sched_invD(3) [OF inv] by (auto simp: refs_ok_def)
    moreover have "waiting_ok {p} S'"
      using sched_invD(4) [OF inv] w by (auto simp: waiting_ok_def job w')
    moreover have "tracked_ok {p} S'"
    proof -
      have "p \<notin> set rest" using sched_invD(4) [OF inv] w by (simp add: waiting_ok_def)
      then show ?thesis using sched_invD(5) [OF inv] w by (auto simp: tracked_ok_def job w')
    qed
    moreover have "counters_ok S'"
      using sched_invD(8) [OF inv] skeleton_eqD(1) [OF sk] w by (simp add: counters_ok_def w' q) (simp add: S'_def f_def)
    moreover have "{p} \<subseteq> alive S'" using j skeleton_eqD(1) [OF sk] by (auto simp: alive_def)
    ultimately show ?thesis by (simp add: sched_inv_graph)
  qed
  ultimately show thesis
    using that [of S'] w' nc waiter_cong [OF q(1)] skeleton_eqD(2) [OF sk] refs run
    by (simp add: refs_of_def job j'_def S'_def f_def)
qed

section \<open>Jobs in flight\<close>

text \<open>The counter, the state and the members of the derived class are free while a job is in flight.\<close>

lemma put_flight_inv:
  assumes inv: "sched_inv X N S" and p: "p \<in> X" and j: "m_job S p = Some j"
    and same: "m_pjParent j' = m_pjParent j" "m_pjq j' = m_pjq j"
  shows "sched_inv X N (put_job p j' S)"
proof -
  let ?S = "put_job p j' S"
  have al: "alive ?S = alive S" using j by (auto simp: alive_def)
  have ch: "children ?S c = children S c" for c using j same by (auto simp: children_def)
  have w: "waiter ?S c = waiter S c" for c by (rule waiter_cong) simp
  have "fresh_ok ?S" using sched_invD(1) [OF inv] j by (auto simp: fresh_ok_def)
  moreover have "parents_ok ?S" using sched_invD(2) [OF inv] j same by (auto simp: parents_ok_def)
  moreover have "queues_ok N ?S"
  proof -
    have "queue_ok ?S b q jq = queue_ok S b q jq" for b q jq
      using j same by (intro queue_ok_cong) auto
    then show ?thesis using sched_invD(6) [OF inv] by (simp add: queues_ok_def)
  qed
  moreover have "waiters_ok ?S" using sched_invD(7) [OF inv] by (simp only: waiters_ok_def ch w)
  moreover have "refs_ok X ?S" using sched_invD(3) [OF inv] p unfolding refs_ok_def ch w by simp
  moreover have "waiting_ok X ?S" using sched_invD(4) [OF inv] p by (auto simp: waiting_ok_def)
  moreover have "tracked_ok X ?S" using sched_invD(5) [OF inv] p j by (auto simp: tracked_ok_def)
  moreover have "counters_ok ?S" using sched_invD(8) [OF inv] al by (simp add: counters_ok_def)
  ultimately show ?thesis using sched_invD(9) [OF inv] al by (simp add: sched_inv_def)
qed

text \<open>The scheduler's counter of running jobs and its list of them are not part of the invariant.\<close>

lemma upd_running_inv:
  assumes "sched_inv X N S" and "\<And>s. m_listjlWaiting (f s) = m_listjlWaiting s \<and> m_listjSuspended (f s) = m_listjSuspended s \<and>
     m_fTrackingJobs (f s) = m_fTrackingJobs s \<and> m_ulpTotal (f s) = m_ulpTotal s \<and> m_ulpQueued (f s) = m_ulpQueued s \<and>
     m_ulpStatsQueued (f s) = m_ulpStatsQueued s \<and> m_ulpStatsDequeued (f s) = m_ulpStatsDequeued s \<and>
     m_ulpStatsCompleted (f s) = m_ulpStatsCompleted s"
  shows "sched_inv X N (upd_sched f S)"
proof -
  have al: "alive (upd_sched f S) = alive S" by (simp add: alive_def)
  have ch: "children (upd_sched f S) c = children S c" for c by (simp add: children_def)
  have w: "waiter (upd_sched f S) c = waiter S c" for c by (rule waiter_cong) simp
  have g: "graph_ok N (upd_sched f S) = graph_ok N S" by (rule graph_ok_cong) simp_all
  have r: "refs_ok X (upd_sched f S) = refs_ok X S" by (simp add: refs_ok_def ch w)
  note e = assms(2) [of "m_sched S"]
  have "waiting_ok X (upd_sched f S) = waiting_ok X S" "tracked_ok X (upd_sched f S) = tracked_ok X S"
    "counters_ok (upd_sched f S) = counters_ok S"
    using e by (simp_all add: waiting_ok_def tracked_ok_def counters_ok_def al)
  then show ?thesis using assms(1) by (simp only: sched_inv_graph g r al)
qed

section \<open>A job ends\<close>

text \<open>
  What \<^verbatim>\<open>Complete\<close>, \<^verbatim>\<open>CompleteQueued\<close> and the release have in common, from the moment when the job is marked as completed.
\<close>

definition finish :: "bool \<Rightarrow> nat \<Rightarrow> ('b, 'w) job_search \<Rightarrow> ('b, 'w) job_search result" where
  "finish queued p S =
     rbind (sch_ResumeParent p S) (\<lambda>S.
     release_job p (upd_sched (\<lambda>s. s\<lparr>m_ulpTotal := m_ulpTotal s - 1, m_ulpStatsCompleted := m_ulpStatsCompleted s + 1,
       m_ulpStatsCompletedQueued := (if queued then m_ulpStatsCompletedQueued s + 1 else m_ulpStatsCompletedQueued s)\<rparr>) S))"

text \<open>Before the job disappears, its parent has already one reference less than it has children.\<close>

definition ending_inv :: "nat \<Rightarrow> nat set \<Rightarrow> nat set \<Rightarrow> ('b, 'w) job_search \<Rightarrow> bool" where
  "ending_inv c X N S \<longleftrightarrow> graph_ok N S \<and> waiting_ok X S \<and> tracked_ok X S \<and> counters_ok S \<and> X \<subseteq> alive S \<and> c \<in> X \<and>
     (\<forall>r k. m_job S r = Some k \<longrightarrow> r \<notin> X \<longrightarrow> m_ulpRefs k = card (children S r - {c}) + of_bool (waiter S r))"

lemma drop_job_inv:
  assumes inv: "ending_inv c X N S" and nw: "\<And>q. c \<notin> set (m_listjQueued (m_queue S q))" and ch: "children S c = {}"
  shows "sched_inv (X - {c}) N (upd_sched (\<lambda>s. s\<lparr>m_ulpTotal := m_ulpTotal s - 1, m_ulpStatsCompleted := m_ulpStatsCompleted s + 1,
       m_ulpStatsCompletedQueued := g s\<rparr>) S\<lparr>m_job := (m_job S)(c := None)\<rparr>)" (is "sched_inv _ N ?S")
proof -
  have g: "fresh_ok S" "parents_ok S" "queues_ok N S" "waiters_ok S" using inv by (simp_all add: ending_inv_def graph_ok_def)
  have c: "c \<in> X" and X: "X \<subseteq> alive S" and wt: "waiting_ok X S" and tr: "tracked_ok X S" and co: "counters_ok S"
    using inv by (simp_all add: ending_inv_def)
  have rf: "m_ulpRefs k = card (children S r - {c}) + of_bool (waiter S r)" if "m_job S r = Some k" "r \<notin> X" for r k
    using inv that by (simp add: ending_inv_def)
  have al: "alive ?S = alive S - {c}" by (auto simp: alive_def)
  have job: "m_job ?S = (m_job S)(c := None)" by simp
  have q: "m_queue ?S = m_queue S" by simp
  have chi: "children ?S p = children S p - {c}" for p by (auto simp: children_def)
  have w: "waiter ?S r = waiter S r" for r by (rule waiter_cong) simp
  have "finite (alive S)"
  proof (rule finite_subset)
    show "alive S \<subseteq> {..<m_njobs S}"
    proof
      fix p assume "p \<in> alive S"
      then have "\<not> m_njobs S \<le> p" using g(1) by (auto simp: fresh_ok_def alive_def)
      then show "p \<in> {..<m_njobs S}" by simp
    qed
  qed simp
  then have card: "card (alive S) = Suc (card (alive ?S))"
    unfolding al using c X by (intro card.remove) auto
  have "fresh_ok ?S" using g(1) by (auto simp: fresh_ok_def)
  moreover have "parents_ok ?S"
  proof -
    have "p \<noteq> c" if "m_job S r = Some k" "m_pjParent k = Some p" for r k p
      using ch that by (auto simp: children_def)
    then show ?thesis using g(2) by (auto simp: parents_ok_def)
  qed
  moreover have "queues_ok N ?S"
    unfolding queues_ok_def
  proof
    fix r
    have "queue_ok ?S (r \<in> N) r (m_queue S r) \<longleftrightarrow> queue_ok S (r \<in> N) r (m_queue S r)"
      using nw by (intro queue_ok_cong) auto
    then show "queue_ok ?S (r \<in> N) r (m_queue ?S r)"
      using g(3) by (simp only: queues_ok_def q)
  qed
  moreover have "waiters_ok ?S" using g(4) by (simp add: waiters_ok_def chi w)
  moreover have "refs_ok (X - {c}) ?S"
    unfolding refs_ok_def chi w job using rf by auto
  moreover have "c \<notin> set (waiting S)" using wt c by (auto simp: waiting_ok_def)
  then have "waiting_ok (X - {c}) ?S" using wt by (auto simp: waiting_ok_def)
  moreover have "tracked_ok (X - {c}) ?S" using tr c by (auto simp: tracked_ok_def)
  moreover have "counters_ok ?S" using co unfolding counters_ok_def card by (simp add: add.assoc)
  ultimately show ?thesis using X al by (auto simp: sched_inv_def)
qed

lemma ResumeParent_inv:
  assumes inv: "sched_inv X N S" and c: "c \<in> X" and j: "m_job S c = Some j" and refs: "m_ulpRefs j = 0"
    and par: "\<And>p. m_pjParent j = Some p \<Longrightarrow> p \<notin> X"
  obtains S' where "sch_ResumeParent c S = Inr S'" "ending_inv c X N S'" "skeleton S' = skeleton S" "m_queue S' = m_queue S"
    "m_njobs S' = m_njobs S" "frame X S S'"
proof (cases "m_pjParent j")
  case None
  have "children S r - {c} = children S r" for r using None j by (auto simp: children_def)
  then have "ending_inv c X N S" using inv c by (simp add: ending_inv_def sched_inv_graph refs_ok_def)
  then show thesis using that [of S] j refs None by (simp add: sch_ResumeParent_def frame_def)
next
  case (Some p)
  have pX: "p \<notin> X" using par Some by simp
  have "m_job S p \<noteq> None" "p < c" using sched_invD(2) [OF inv] j Some by (auto simp: parents_ok_def)
  then obtain k where k: "m_job S p = Some k" and pc: "p \<noteq> c" by auto
  have cp: "c \<in> children S p" using j Some by (auto simp: children_def)
  then have nwp: "\<not> waiter S p" using sched_invD(7) [OF inv] by (auto simp: waiters_ok_def)
  have rk: "m_ulpRefs k = card (children S p)" using sched_invD(3) [OF inv] k pX nwp by (simp add: refs_ok_def)
  then have rc: "m_ulpRefs k = Suc (card (children S p - {c}))" using card.remove [OF finite_children [OF inv] cp] by simp
  have pw: "p \<notin> set (waiting S)" using sched_invD(4) [OF inv] k pX rc by (auto simp: waiting_ok_def)
  define k1 where "k1 = k\<lparr>m_ulpRefs := card (children S p - {c})\<rparr>"
  define S1 where "S1 = put_job p k1 S"
  have sk1: "skeleton S1 = skeleton S" unfolding S1_def by (rule skeleton_put_same [OF k]) (simp_all add: k1_def)
  have dec: "pj_FResumeParent c S = Inr (m_ulpRefs k = 1, S1)"
    using j refs Some k rc by (simp add: pj_FResumeParent_def S1_def k1_def)
  have w1: "waiter S1 r = waiter S r" for r by (rule waiter_cong) (simp add: S1_def)
  have ref1: "m_ulpRefs l = card (children S1 r - {c}) + of_bool (waiter S1 r)"
    if "m_job S1 r = Some l" "r \<notin> X" for r l
  proof (cases "r = p")
    case True
    then have "l = k1" using that by (simp add: S1_def)
    then show ?thesis using nwp w1 True skeleton_eqD(2) [OF sk1] by (simp add: k1_def)
  next
    case False
    then have "children S1 r - {c} = children S r" using skeleton_eqD(2) [OF sk1] j Some by (auto simp: children_def)
    then show ?thesis using sched_invD(3) [OF inv] that False w1 by (simp add: refs_ok_def S1_def)
  qed
  have g1: "graph_ok N S1" using inv graph_ok_cong [OF sk1, of N] by (simp add: sched_inv_graph S1_def)
  have c1: "counters_ok S1" using sched_invD(8) [OF inv] skeleton_eqD(1) [OF sk1] by (simp add: counters_ok_def S1_def)
  have X1: "X \<subseteq> alive S1" using sched_invD(9) [OF inv] skeleton_eqD(1) [OF sk1] by simp
  show thesis
  proof (cases "m_ulpRefs k = 1")
    case False
    then have "waiting_ok X S1" using sched_invD(4) [OF inv] pw rc by (auto simp: waiting_ok_def S1_def k1_def)
    moreover have "tracked_ok X S1" using sched_invD(5) [OF inv] k by (auto simp: tracked_ok_def S1_def k1_def)
    ultimately have "ending_inv c X N S1" using g1 c1 X1 c ref1 by (simp add: ending_inv_def)
    moreover have "frame X S S1" using pX by (auto simp: frame_def S1_def)
    moreover have "sch_ResumeParent c S = Inr S1"
      using False dec j refs Some by (simp add: sch_ResumeParent_def)
    ultimately show thesis using that [of S1] sk1 by (simp add: S1_def)
  next
    case True
    define k2 where "k2 = (if tracking S then k1\<lparr>m_ejs := EjsWaiting\<rparr> else k1)"
    define f :: "CScheduler \<Rightarrow> CScheduler" where "f = (\<lambda>s. s\<lparr>m_listjSuspended := (if m_fTrackingJobs s then remove1 p (m_listjSuspended s) else m_listjSuspended s),
      m_listjlWaiting := p # m_listjlWaiting s, m_ulpQueued := m_ulpQueued s + 1, m_ulpStatsQueued := m_ulpStatsQueued s + 1,
      m_ulpStatsResumed := m_ulpStatsResumed s + 1\<rparr>)"
    define S2 where "S2 = upd_sched f (put_job p k2 S)"
    have r0: "m_ulpRefs k1 = 0" "m_ulpRefs k2 = 0" using True rc by (simp_all add: k1_def k2_def)
    have tr: "tracking S \<Longrightarrow> p \<in> set (suspended S) \<and> m_ejs k = EjsSuspended"
      using sched_invD(5) [OF inv] k pX pw by (auto simp: tracked_ok_def)
    have run: "sch_ResumeParent c S = Inr S2"
      using True dec j refs Some r0 tr
      by (auto simp: sch_ResumeParent_def untrack_suspended_def list_Remove_def sch_Resume_def sch_Schedule_def track_state_def
          S1_def S2_def k2_def f_def k1_def upd_sched_def put_job_def)
    have sk: "skeleton S2 = skeleton S" using skeleton_put_same [OF k, of k2] by (simp add: S2_def k2_def k1_def)
    have ch: "children S2 r = children S1 r" for r using skeleton_eqD(2) [OF sk] skeleton_eqD(2) [OF sk1] by simp
    have w2: "waiter S2 r = waiter S1 r" for r by (rule waiter_cong) (simp add: S1_def S2_def)
    have s2: "waiting S2 = p # waiting S" "tracking S2 = tracking S"
      "tracking S \<Longrightarrow> suspended S2 = remove1 p (suspended S)" "m_job S2 = (m_job S)(p \<mapsto> k2)"
      by (simp_all add: S2_def f_def)
    have job21: "\<exists>l'. m_job S1 r = Some l' \<and> m_ulpRefs l' = m_ulpRefs l" if "m_job S2 r = Some l" for r l
      using that r0 by (cases "r = p") (auto simp: s2 S1_def)
    have "graph_ok N S2" using inv graph_ok_cong [OF sk, of N] by (simp add: sched_inv_graph S2_def)
    moreover have "waiting_ok X S2" using sched_invD(4) [OF inv] pw pX r0 by (auto simp: waiting_ok_def s2)
    moreover have "tracked_ok X S2"
      using sched_invD(5) [OF inv] k pX by (auto simp: tracked_ok_def s2 k2_def)
    moreover have "counters_ok S2"
      using sched_invD(8) [OF inv] skeleton_eqD(1) [OF sk] by (simp add: counters_ok_def s2) (simp add: S2_def f_def)
    moreover have "X \<subseteq> alive S2" using sched_invD(9) [OF inv] skeleton_eqD(1) [OF sk] by simp
    moreover have "m_ulpRefs l = card (children S2 r - {c}) + of_bool (waiter S2 r)" if h: "m_job S2 r = Some l" "r \<notin> X" for r l
    proof -
      obtain l' where "m_job S1 r = Some l'" "m_ulpRefs l' = m_ulpRefs l" using job21 [OF h(1)] by blast
      then show ?thesis using ref1 [of r l'] h(2) ch w2 by simp
    qed
    ultimately have "ending_inv c X N S2" using c by (simp add: ending_inv_def)
    moreover have "frame X S S2" using pX by (auto simp: frame_def S2_def f_def)
    ultimately show thesis using that [of S2] run sk by (simp add: S2_def)
  qed
qed

lemma finish_inv:
  assumes inv: "sched_inv X N S" and c: "c \<in> X" and j: "m_job S c = Some j" and refs: "m_ulpRefs j = 0"
    and par: "\<And>p. m_pjParent j = Some p \<Longrightarrow> p \<notin> X" and nw: "\<And>q. c \<notin> set (m_listjQueued (m_queue S q))"
    and ch: "children S c = {}"
  obtains S' where "finish queued c S = Inr S'" "sched_inv (X - {c}) N S'" "skeleton S' = (skeleton S)(c := None)"
    "m_queue S' = m_queue S" "m_njobs S' = m_njobs S" "frame (X - {c}) S S'"
proof -
  obtain S1 where S1: "sch_ResumeParent c S = Inr S1" "ending_inv c X N S1" "skeleton S1 = skeleton S" "m_queue S1 = m_queue S"
      "m_njobs S1 = m_njobs S" "frame X S S1"
    using ResumeParent_inv [OF inv c j refs par] by blast
  define f :: "CScheduler \<Rightarrow> CScheduler" where "f = (\<lambda>s. s\<lparr>m_ulpTotal := m_ulpTotal s - 1, m_ulpStatsCompleted := m_ulpStatsCompleted s + 1,
       m_ulpStatsCompletedQueued := (if queued then m_ulpStatsCompletedQueued s + 1 else m_ulpStatsCompletedQueued s)\<rparr>)"
  have "m_job S1 c = Some j" using S1(6) c j by (simp add: frame_def)
  then have "finish queued c S = Inr (upd_sched f S1\<lparr>m_job := (m_job S1)(c := None)\<rparr>)"
    using S1(1) by (simp add: finish_def f_def)
  moreover have "sched_inv (X - {c}) N (upd_sched f S1\<lparr>m_job := (m_job S1)(c := None)\<rparr>)"
    unfolding f_def using S1(2,4) nw ch skeleton_eqD(2) [OF S1(3)] by (intro drop_job_inv) simp_all
  moreover have "skeleton (upd_sched f S1\<lparr>m_job := (m_job S1)(c := None)\<rparr>) = (skeleton S)(c := None)"
    using S1(3) by (auto simp: skeleton_def fun_eq_iff)
  moreover have "frame (X - {c}) S (upd_sched f S1\<lparr>m_job := (m_job S1)(c := None)\<rparr>)"
    using S1(6) by (simp add: frame_def f_def)
  ultimately show thesis using that S1(4,5) by simp
qed

section \<open>Children\<close>

lemma sch_Add_child_inv:
  assumes inv: "sched_inv X N S" and p: "p \<in> X" and k: "m_job S p = Some k" and nw: "\<not> waiter S p"
  obtains S' where "case new_job b pjq S of (c, S) \<Rightarrow> sch_Add c (Some p) S = Inr S'" "sched_inv X N S'"
    "skeleton S' = (skeleton S)(m_njobs S := Some (Some p, pjq, b))" "m_queue S' = m_queue S" "m_njobs S' = Suc (m_njobs S)"
    "m_job S' p = Some (k\<lparr>m_ulpRefs := Suc (m_ulpRefs k)\<rparr>)" "frame (X - {p}) S S'"
proof -
  let ?c = "m_njobs S"
  define jc where "jc = \<lparr>m_pjParent = Some p, m_pjq = pjq, m_ulpRefs = 0, m_ejs = EjsInit, m_body = b\<rparr>"
  define k' where "k' = k\<lparr>m_ulpRefs := Suc (m_ulpRefs k)\<rparr>"
  define S1 where "S1 = upd_sched (\<lambda>s. s\<lparr>m_ulpTotal := m_ulpTotal s + 1\<rparr>) (S\<lparr>m_job := (m_job S)(p \<mapsto> k', ?c \<mapsto> jc), m_njobs := Suc ?c\<rparr>)"
  have freshS: "m_job S r = None" if "?c \<le> r" for r using sched_invD(1) [OF inv] that by (simp add: fresh_ok_def)
  have pc: "p < ?c" using freshS [of p] k by (cases "p < ?c") auto
  have cX: "?c \<notin> X" using sched_invD(9) [OF inv] freshS [of ?c] by (auto simp: alive_def)
  have notpar: "m_pjParent j \<noteq> Some ?c" if "m_job S r = Some j" for r j
    using sched_invD(2) [OF inv] that freshS [of ?c] by (fastforce simp: parents_ok_def)
  have inqueue: "r \<noteq> ?c" if "r \<in> set (m_listjQueued (m_queue S q))" for r q
    using sched_invD(6) [OF inv] that freshS [of ?c] by (force simp: queues_ok_def queue_ok_def)
  have job: "m_job S1 = (m_job S)(p \<mapsto> k', ?c \<mapsto> jc)" by (simp add: S1_def)
  have al: "alive S1 = insert ?c (alive S)" using k by (auto simp: alive_def job)
  have cna: "?c \<notin> alive S" using freshS [of ?c] by (simp add: alive_def domIff)
  have card: "card (alive S1) = Suc (card (alive S))" using cna finite_alive [OF inv] by (simp add: al)
  have chp: "children S1 p = insert ?c (children S p)" using k freshS [of ?c] pc by (auto simp: children_def job jc_def k'_def)
  have ch: "children S1 r = children S r" if "r \<noteq> p" for r
    using k freshS [of ?c] pc that by (auto simp: children_def job jc_def k'_def)
  have chc: "children S1 ?c = {}" using notpar pc ch [of ?c] by (auto simp: children_def)
  have w: "waiter S1 r = waiter S r" for r by (rule waiter_cong) (simp add: S1_def)
  have q: "m_queue S1 = m_queue S" by (simp add: S1_def)
  have s1: "waiting S1 = waiting S" "suspended S1 = suspended S" "tracking S1 = tracking S" "m_njobs S1 = Suc ?c"
    by (simp_all add: S1_def)
  have wc: "\<not> waiter S1 ?c" using inqueue [of ?c] unfolding w unfolding waiter_def by blast
  have cw: "?c \<notin> set (waiting S)" using sched_invD(4) [OF inv] freshS [of ?c] by (auto simp: waiting_ok_def)
  have "fresh_ok S1" using sched_invD(1) [OF inv] pc by (auto simp: fresh_ok_def job s1)
  moreover have "parents_ok S1"
    using sched_invD(2) [OF inv] k pc by (auto simp: parents_ok_def job jc_def k'_def)
  moreover have "queues_ok N S1"
  proof -
    have "queue_ok S1 b q (m_queue S q) = queue_ok S b q (m_queue S q)" for b q
      using k inqueue by (intro queue_ok_cong) (auto simp: job k'_def)
    then show ?thesis using sched_invD(6) [OF inv] by (simp add: queues_ok_def q)
  qed
  moreover have "waiters_ok S1"
    using sched_invD(7) [OF inv] nw ch unfolding waiters_ok_def w by metis
  moreover have "refs_ok (insert ?c X) S1"
    using sched_invD(3) [OF inv] p unfolding refs_ok_def w by (auto simp: job ch)
  moreover have "waiting_ok (insert ?c X) S1"
    using sched_invD(4) [OF inv] p cw by (auto simp: waiting_ok_def job s1)
  moreover have "tracked_ok (insert ?c X) S1"
    using sched_invD(5) [OF inv] p freshS [of ?c] by (auto simp: tracked_ok_def job s1)
  moreover have "counters_ok S1"
    using sched_invD(8) [OF inv] by (simp add: counters_ok_def card s1) (simp add: S1_def)
  ultimately have inv1: "sched_inv (insert ?c X) N S1" using sched_invD(9) [OF inv] al by (auto simp: sched_inv_def)
  obtain S' where S': "sch_Schedule ?c S1 = Inr S'" "sched_inv X N S'" "skeleton S' = skeleton S1" "m_queue S' = m_queue S1"
      "m_njobs S' = m_njobs S1" "frame (- {?c}) S1 S'"
    using Schedule_inv [OF inv1 cX _ _ chc wc, of jc] by (auto simp: job jc_def)
  have "case new_job b pjq S of (c, S) \<Rightarrow> sch_Add c (Some p) S = Inr S'"
  proof -
    have "upd_sched (\<lambda>s. s\<lparr>m_ulpTotal := m_ulpTotal s + 1\<rparr>)
        (put_job ?c jc (put_job p k' ((put_job ?c (jc\<lparr>m_pjParent := None\<rparr>) S)\<lparr>m_njobs := Suc ?c\<rparr>))) = S1"
      using pc by (simp add: S1_def upd_sched_def put_job_def fun_upd_twist)
    then show ?thesis
      using S'(1) k pc
      by (simp add: new_job_def sch_Add_def pj_SetParent_def k'_def jc_def)
  qed
  moreover have "skeleton S' = (skeleton S)(?c := Some (Some p, pjq, b))"
    using S'(3) k pc by (auto simp: skeleton_def fun_eq_iff job jc_def k'_def)
  moreover have "m_job S' p = Some k'" using S'(6) pc by (simp add: frame_def job)
  moreover have "frame (X - {p}) S S'"
  proof -
    have "m_job S' r = m_job S r" if "r \<in> X - {p}" for r
      using S'(6) that cX by (cases "r = ?c") (simp_all add: frame_def job)
    then show ?thesis using S'(6) by (simp add: frame_def) (simp add: S1_def)
  qed
  ultimately show thesis using that S' by (simp add: s1 q k'_def)
qed

lemma add_children_inv:
  assumes "sched_inv X N S" and "p \<in> X" and "m_job S p = Some k" and "\<not> waiter S p"
  shows "\<exists>S'. add_children p cs S = Inr S' \<and> sched_inv X N S' \<and> m_queue S' = m_queue S \<and>
    m_njobs S' = m_njobs S + length cs \<and> m_job S' p = Some (k\<lparr>m_ulpRefs := m_ulpRefs k + length cs\<rparr>) \<and> frame (X - {p}) S S' \<and>
    (\<forall>r. skeleton S' r = (if m_njobs S \<le> r \<and> r < m_njobs S + length cs
       then Some (Some p, snd (cs ! (r - m_njobs S)), fst (cs ! (r - m_njobs S))) else skeleton S r))"
  using assms
proof (induction cs arbitrary: S k)
  case Nil
  then show ?case by (auto simp: frame_def)
next
  case (Cons c cs)
  obtain S1 where S1: "case new_job (fst c) (snd c) S of (n, S) \<Rightarrow> sch_Add n (Some p) S = Inr S1" "sched_inv X N S1"
    "skeleton S1 = (skeleton S)(m_njobs S := Some (Some p, snd c, fst c))" "m_queue S1 = m_queue S" "m_njobs S1 = Suc (m_njobs S)"
    "m_job S1 p = Some (k\<lparr>m_ulpRefs := Suc (m_ulpRefs k)\<rparr>)" "frame (X - {p}) S S1"
    using sch_Add_child_inv [OF Cons.prems] by metis
  have "\<not> waiter S1 p" using Cons.prems(4) waiter_cong [OF S1(4)] by simp
  from Cons.IH [OF S1(2) Cons.prems(2) S1(6) this]
  obtain S' where S': "add_children p cs S1 = Inr S'" "sched_inv X N S'" "m_queue S' = m_queue S1"
    "m_njobs S' = m_njobs S1 + length cs" "m_job S' p = Some (k\<lparr>m_ulpRefs := Suc (m_ulpRefs k) + length cs\<rparr>)"
    "frame (X - {p}) S1 S'" and sk: "\<And>r. skeleton S' r = (if m_njobs S1 \<le> r \<and> r < m_njobs S1 + length cs
       then Some (Some p, snd (cs ! (r - m_njobs S1)), fst (cs ! (r - m_njobs S1))) else skeleton S1 r)"
    by auto
  have "add_children p (c # cs) S = Inr S'" using S1(1) S'(1) by (auto split: prod.splits)
  moreover have "skeleton S' r = (if m_njobs S \<le> r \<and> r < m_njobs S + length (c # cs)
       then Some (Some p, snd ((c # cs) ! (r - m_njobs S)), fst ((c # cs) ! (r - m_njobs S))) else skeleton S r)" for r
  proof (cases "r = m_njobs S")
    case True
    then show ?thesis using sk [of r] S1(3,5) by simp
  next
    case False
    then show ?thesis using sk [of r] S1(3,5) by (auto simp: nth_Cons' Suc_le_eq)
  qed
  moreover have "frame (X - {p}) S S'" using S1(7) S'(6) by (simp add: frame_def)
  ultimately show ?case using S' S1(4,5) by auto
qed

section \<open>Queues\<close>

text \<open>A queue has not been used, has a main job, or is over.\<close>

datatype queue_phase = Idle | Led nat | Over

definition phase :: "('b, 'w) job_search \<Rightarrow> nat \<Rightarrow> queue_phase" where
  "phase S q = (if m_fCompleted (m_queue S q) then Over else case m_pj (m_queue S q) of None \<Rightarrow> Idle | Some p \<Rightarrow> Led p)"

lemma phase_Over_iff: "phase S q = Over \<longleftrightarrow> m_fCompleted (m_queue S q)"
  by (simp add: phase_def split: option.split)

lemma phase_Led_iff: "phase S q = Led p \<longleftrightarrow> \<not> m_fCompleted (m_queue S q) \<and> m_pj (m_queue S q) = Some p"
  by (simp add: phase_def split: option.split)

lemma phase_cong: "m_queue S' = m_queue S \<Longrightarrow> phase S' = phase S"
  by (simp add: phase_def fun_eq_iff)

text \<open>The running job joins the queue it is assigned to, as its main job or behind it.\<close>

lemma EjqrAdd_inv:
  assumes inv: "sched_inv {p} {} S" and k: "m_job S p = Some k" and pjq: "m_pjq k = Some q" and nw: "\<not> waiter S p"
    and ch: "children S p = {}"
  obtains (completed) "jq_EjqrAdd q p S = Inr (EjqrCompleted, S)" "phase S q = Over"
  | (main) S' where "jq_EjqrAdd q p S = Inr (EjqrMain, S')" "sched_inv {p} {} S'" "\<not> waiter S' p"
      "m_job S' = (m_job S)(p \<mapsto> k\<lparr>m_ulpRefs := Suc (m_ulpRefs k)\<rparr>)" "m_njobs S' = m_njobs S" "m_world S' = m_world S"
      "m_sched S' = m_sched S" "m_pj (m_queue S' q) = Some p" "m_listjQueued (m_queue S' q) \<noteq> []"
      "hd (m_listjQueued (m_queue S' q)) = p" "\<not> m_fCompleted (m_queue S' q)"
      "phase S q \<in> {Idle, Led p}" "phase S' = (phase S)(q := Led p)"
  | (queued) S' where "jq_EjqrAdd q p S = Inr (EjqrQueued, S')" "sched_inv {p} {} S'" "waiter S' p"
      "m_job S' = (m_job S)(p \<mapsto> k\<lparr>m_ulpRefs := Suc (m_ulpRefs k)\<rparr>)" "m_njobs S' = m_njobs S" "m_world S' = m_world S"
      "m_sched S' = m_sched S" "phase S q \<notin> {Idle, Led p}" "phase S' = phase S"
proof -
  let ?jq = "m_queue S q" and ?k = "k\<lparr>m_ulpRefs := Suc (m_ulpRefs k)\<rparr>"
  have qok: "queue_ok S False r (m_queue S r)" for r using sched_invD(6) [OF inv] by (simp add: queues_ok_def)
  have add: "sched_inv {p} {} (put_job p ?k (upd_queue q f S))"
    if f: "f ?jq = ?jq\<lparr>m_listjQueued := m_listjQueued ?jq @ [p], m_pj := Some (hd (m_listjQueued ?jq @ [p]))\<rparr>"
      and pl: "p \<notin> set (m_listjQueued ?jq)" and nc: "\<not> m_fCompleted ?jq" for f
  proof -
    let ?S = "upd_queue q f S"
    have sk: "skeleton ?S = skeleton S" by simp
    have w: "waiter ?S r = waiter S r" if "r \<noteq> p" for r
    proof -
      have "(r \<in> set (m_listjQueued (m_queue ?S x)) \<and> m_pj (m_queue ?S x) \<noteq> Some r) \<longleftrightarrow>
          (r \<in> set (m_listjQueued (m_queue S x)) \<and> m_pj (m_queue S x) \<noteq> Some r)" for x
      proof (cases "x = q")
        case True
        have "m_pj ?jq = (if m_listjQueued ?jq = [] then None else Some (hd (m_listjQueued ?jq)))"
          using qok [of q] nc by (simp add: queue_ok_def)
        then show ?thesis using that f True by (cases "m_listjQueued ?jq") simp_all
      qed simp
      then show ?thesis by (simp only: waiter_def)
    qed
    have c: "children ?S r = children S r" for r by (rule skeleton_eqD(2) [OF sk])
    have "queues_ok {} ?S"
      unfolding queues_ok_def
    proof
      fix r
      have "queue_ok ?S b r jq = queue_ok S b r jq" for b jq by (simp add: queue_ok_def)
      moreover have "queue_ok S False q (f ?jq)"
        using qok [of q] pl nc k pjq by (simp add: queue_ok_def f hd_append)
      ultimately show "queue_ok ?S (r \<in> {}) r (m_queue ?S r)" using qok [of r] by (cases "r = q") simp_all
    qed
    moreover have "fresh_ok ?S" "parents_ok ?S" using sched_invD(1,2) [OF inv] by (simp_all add: fresh_ok_def parents_ok_def)
    moreover have "waiters_ok ?S"
      unfolding waiters_ok_def
    proof (intro allI impI)
      fix r assume "waiter ?S r"
      then show "children ?S r = {}"
        using sched_invD(7) [OF inv] ch w [of r] c [of r] by (cases "r = p") (simp_all add: waiters_ok_def)
    qed
    moreover have "refs_ok {p} ?S"
      unfolding refs_ok_def c
    proof (intro allI impI)
      fix r j assume h: "m_job ?S r = Some j" "r \<notin> {p}"
      have "m_job S r = Some j" using h(1) by simp
      then have "m_ulpRefs j = card (children S r) + of_bool (waiter S r)"
        using sched_invD(3) [OF inv] h(2) unfolding refs_ok_def by blast
      moreover have "waiter ?S r = waiter S r" using h by (intro w) simp
      ultimately show "m_ulpRefs j = card (children S r) + of_bool (waiter ?S r)" by (simp only:)
    qed
    moreover have "waiting_ok {p} ?S"
    proof -
      have "waiting_ok {p} ?S = waiting_ok {p} S" by (simp add: waiting_ok_def)
      then show ?thesis using sched_invD(4) [OF inv] by (simp only:)
    qed
    moreover have "tracked_ok {p} ?S"
    proof -
      have "tracked_ok {p} ?S = tracked_ok {p} S" by (simp add: tracked_ok_def)
      then show ?thesis using sched_invD(5) [OF inv] by (simp only:)
    qed
    moreover have "counters_ok ?S" "{p} \<subseteq> alive ?S"
      using sched_invD(8,9) [OF inv] skeleton_eqD(1) [OF sk] by (simp_all add: counters_ok_def)
    ultimately have "sched_inv {p} {} ?S" by (simp add: sched_inv_def)
    then show ?thesis by (rule put_flight_inv) (use k in auto)
  qed
  show thesis
  proof (cases "m_fCompleted ?jq")
    case True
    then show thesis using completed by (simp add: jq_EjqrAdd_def phase_def)
  next
    case nc: False
    have shape: "m_pj ?jq = (if m_listjQueued ?jq = [] then None else Some (hd (m_listjQueued ?jq)))"
      using qok [of q] nc by (simp add: queue_ok_def)
    have pl: "p \<notin> set (m_listjQueued ?jq)" if "m_pj ?jq \<noteq> Some p" using nw that by (auto simp: waiter_def)
    consider (again) "m_pj ?jq = Some p" | (first) "m_listjQueued ?jq = []" | (behind) "m_pj ?jq \<noteq> Some p" "m_listjQueued ?jq \<noteq> []"
      by blast
    then show thesis
    proof cases
      case again
      have "jq_EjqrAdd q p S = Inr (EjqrMain, put_job p ?k S)" using nc again k by (simp add: jq_EjqrAdd_def)
      moreover have "sched_inv {p} {} (put_job p ?k S)" by (rule put_flight_inv [OF inv _ k]) simp_all
      moreover have "\<not> waiter (put_job p ?k S) p" using nw waiter_cong [of "put_job p ?k S" S] by simp
      moreover have "m_listjQueued ?jq \<noteq> []" "hd (m_listjQueued ?jq) = p" using shape again by (auto split: if_splits)
      moreover have "phase (put_job p ?k S) = (phase S)(q := Led p)" using again nc by (simp add: phase_def fun_eq_iff)
      ultimately show thesis using main [of "put_job p ?k S"] again nc by (simp add: phase_def)
    next
      case first
      define f :: "CJobQueue \<Rightarrow> CJobQueue" where "f = (\<lambda>jq. jq\<lparr>m_listjQueued := m_listjQueued ?jq @ [p], m_pj := Some p\<rparr>)"
      let ?S = "put_job p ?k (upd_queue q f S)"
      have none: "m_pj ?jq = None" using shape first by simp
      have "jq_EjqrAdd q p S = Inr (EjqrMain, ?S)" using nc none first k by (simp add: jq_EjqrAdd_def Let_def f_def)
      moreover have "sched_inv {p} {} ?S" using none by (intro add) (simp_all add: f_def first pl nc)
      moreover have "\<not> waiter ?S p" using nw by (auto simp: waiter_def f_def)
      moreover have "phase ?S = (phase S)(q := Led p)" using nc by (simp add: phase_def fun_eq_iff f_def)
      moreover have "phase S q = Idle" using nc none by (simp add: phase_def)
      ultimately show thesis using main [of ?S] nc by (simp add: f_def first)
    next
      case behind
      define f :: "CJobQueue \<Rightarrow> CJobQueue" where "f = (\<lambda>jq. jq\<lparr>m_listjQueued := m_listjQueued ?jq @ [p]\<rparr>)"
      let ?S = "put_job p ?k (upd_queue q f S)"
      have hd: "hd (m_listjQueued ?jq @ [p]) \<noteq> p" using behind shape by simp
      have "jq_EjqrAdd q p S = Inr (EjqrQueued, ?S)" using nc hd behind k by (simp add: jq_EjqrAdd_def Let_def f_def)
      moreover have "sched_inv {p} {} ?S" using behind shape by (intro add) (simp_all add: f_def pl nc)
      moreover have "waiter ?S p" using behind by (auto simp: waiter_def f_def intro!: exI [of _ q])
      moreover have "phase ?S = phase S" by (simp add: phase_def fun_eq_iff f_def)
      moreover have "phase S q \<notin> {Idle, Led p}" using behind shape nc by (simp add: phase_def)
      ultimately show thesis using queued [of ?S] by simp
    qed
  qed
qed

text \<open>The jobs behind a main job end with it.\<close>

lemma notify_inv:
  assumes "sched_inv {p} {q} S" and "m_listjQueued (m_queue S q) = rest" and "m_pj (m_queue S q) = Some p" and "p \<notin> set rest"
    and "children S p = {}" and "\<not> waiter S p"
  shows "\<exists>S'. jq_notify q rest S = Inr S' \<and> sched_inv {p} {q} S' \<and> m_job S' p = m_job S p \<and> m_njobs S' = m_njobs S \<and>
    m_queue S' = (m_queue S)(q := (m_queue S q)\<lparr>m_listjQueued := []\<rparr>) \<and> frame {p} S S' \<and>
    (\<forall>r. skeleton S' r = (if r \<in> set rest then None else skeleton S r))"
  using assms
proof (induction rest arbitrary: S)
  case Nil
  then show ?case by (auto simp: frame_def fun_upd_idem_iff)
next
  case (Cons c rest)
  note inv = Cons.prems(1)
  have cp: "c \<noteq> p" using Cons.prems(4) by auto
  have qok: "queue_ok S (r \<in> {q}) r (m_queue S r)" for r using sched_invD(6) [OF inv] by (simp add: queues_ok_def)
  obtain k where k: "m_job S c = Some k" "m_pjq k = Some q" using qok [of q] Cons.prems(2) by (auto simp: queue_ok_def)
  have wc: "waiter S c" using Cons.prems(2,3) cp by (auto simp: waiter_def intro!: exI [of _ q])
  have chc: "children S c = {}" using sched_invD(7) [OF inv] wc by (simp add: waiters_ok_def)
  have rk: "m_ulpRefs k = 1" using sched_invD(3) [OF inv] k(1) cp chc wc by (simp add: refs_ok_def)
  have cw: "c \<notin> set (waiting S)" using sched_invD(4) [OF inv] k(1) rk cp by (auto simp: waiting_ok_def)
  have tr: "tracking S \<Longrightarrow> c \<in> set (suspended S) \<and> m_ejs k = EjsSuspended"
    using sched_invD(5) [OF inv] k cp cw by (auto simp: tracked_ok_def)
  have dist: "distinct (c # rest)" using qok [of q] Cons.prems(2) by (simp add: queue_ok_def)
  have one: "c \<notin> set (m_listjQueued (m_queue S r))" if "r \<noteq> q" for r
    using qok [of r] k that by (auto simp: queue_ok_def)
  define k1 where "k1 = (if tracking S then k\<lparr>m_ulpRefs := 0, m_ejs := EjsCompleted\<rparr> else k\<lparr>m_ulpRefs := 0\<rparr>)"
  define f :: "CScheduler \<Rightarrow> CScheduler" where "f = (\<lambda>s. s\<lparr>m_listjSuspended := (if m_fTrackingJobs s then remove1 c (m_listjSuspended s) else m_listjSuspended s)\<rparr>)"
  define S1 where "S1 = upd_sched f (put_job c k1 (upd_queue q (\<lambda>jq. jq\<lparr>m_listjQueued := rest\<rparr>) S))"
  have run: "(case pj_UlpDecrRefs c (upd_queue q (\<lambda>jq. jq\<lparr>m_listjQueued := rest\<rparr>) S) of Inr (ulpRefs, S) \<Rightarrow>
      if ulpRefs = 1 then rbind (sch_CompleteQueued c S) (release_job c) else Inr S) = finish True c S1"
  proof -
    define S0 where "S0 = put_job c (k\<lparr>m_ulpRefs := 0\<rparr>) (upd_queue q (\<lambda>jq. jq\<lparr>m_listjQueued := rest\<rparr>) S)"
    have "rbind (if tracking S0
            then with_job c S0 (\<lambda>j. gpos_assert (m_ejs j = EjsSuspended)
                   (rbind (untrack_suspended c S0) (track_state UNIV EjsCompleted c)))
            else Inr S0) g = g S1" for g :: "('a, 'b) job_search \<Rightarrow> ('a, 'b) job_search result"
      using tr
      by (auto simp: untrack_suspended_def list_Remove_def track_state_def S0_def S1_def k1_def f_def upd_sched_def put_job_def upd_queue_def
          intro!: arg_cong [of _ _ g] job_search.equality)
    moreover have "no_refs c S0 = Inr S0" by (simp add: S0_def)
    ultimately have "rbind (sch_CompleteQueued c S0) (release_job c) = finish True c S1"
      by (simp only: sch_CompleteQueued_def finish_def rbind_assoc rbind.simps if_True)
    then show ?thesis using k rk by (simp add: S0_def)
  qed
  have job: "m_job S1 = (m_job S)(c \<mapsto> k1)" by (simp add: S1_def)
  have sk: "skeleton S1 = skeleton S" using k by (simp add: skeleton_def fun_eq_iff job k1_def)
  have ch: "children S1 r = children S r" for r by (rule skeleton_eqD(2) [OF sk])
  have q1: "m_queue S1 = (m_queue S)(q := (m_queue S q)\<lparr>m_listjQueued := rest\<rparr>)" by (simp add: S1_def)
  have w: "waiter S1 r = waiter S r" if "r \<noteq> c" for r
  proof -
    have "(r \<in> set (m_listjQueued (m_queue S1 x)) \<and> m_pj (m_queue S1 x) \<noteq> Some r) \<longleftrightarrow>
        (r \<in> set (m_listjQueued (m_queue S x)) \<and> m_pj (m_queue S x) \<noteq> Some r)" for x
      using that Cons.prems(2) by (cases "x = q") (simp_all add: q1)
    then show ?thesis by (simp only: waiter_def)
  qed
  have nwc: "\<not> waiter S1 c" using one dist by (auto simp: waiter_def q1)
  have s1: "waiting S1 = waiting S" "tracking S1 = tracking S" "tracking S \<Longrightarrow> suspended S1 = remove1 c (suspended S)"
    by (simp_all add: S1_def f_def)
  have "fresh_ok S1" using sched_invD(1) [OF inv] sk by (simp add: fresh_ok_skeleton S1_def)
  moreover have "parents_ok S1" using sched_invD(2) [OF inv] by (simp only: parents_ok_skeleton sk)
  moreover have "queues_ok {q} S1"
    unfolding queues_ok_def
  proof
    fix r
    have e: "queue_ok S1 b r jq = queue_ok S b r jq" for b jq by (simp only: queue_ok_skeleton sk)
    have "queue_ok S True q ((m_queue S q)\<lparr>m_listjQueued := rest\<rparr>)"
      using qok [of q] Cons.prems(2) by (simp add: queue_ok_def)
    then show "queue_ok S1 (r \<in> {q}) r (m_queue S1 r)" unfolding e using qok [of r] by (cases "r = q") (simp_all add: q1)
  qed
  moreover have "waiters_ok S1" using sched_invD(7) [OF inv] nwc w ch unfolding waiters_ok_def by metis
  moreover have "refs_ok {c, p} S1"
    using sched_invD(3) [OF inv] w unfolding refs_ok_def ch job by auto
  moreover have "waiting_ok {c, p} S1"
    using sched_invD(4) [OF inv] cw by (auto simp: waiting_ok_def job s1)
  moreover have "tracked_ok {c, p} S1"
    using sched_invD(5) [OF inv] by (auto simp: tracked_ok_def job s1)
  moreover have "counters_ok S1"
    using sched_invD(8) [OF inv] skeleton_eqD(1) [OF sk] by (simp add: counters_ok_def s1) (simp add: S1_def f_def)
  moreover have "{c, p} \<subseteq> alive S1" using sched_invD(9) [OF inv] k by (auto simp: alive_def job)
  ultimately have inv1: "sched_inv {c, p} {q} S1" by (simp add: sched_inv_def)
  have par: "r \<notin> {c, p}" if "m_pjParent k1 = Some r" for r
  proof -
    have kr: "m_pjParent k = Some r" using that by (simp add: k1_def split: if_splits)
    then have "r < c" using sched_invD(2) [OF inv] k by (auto simp: parents_ok_def)
    moreover have "r \<noteq> p" using Cons.prems(5) k kr by (auto simp: children_def)
    ultimately show ?thesis by auto
  qed
  have k1': "m_job S1 c = Some k1" "m_ulpRefs k1 = 0" by (simp_all add: job k1_def)
  have nq: "c \<notin> set (m_listjQueued (m_queue S1 r))" for r using one dist by (simp add: q1)
  have chc1: "children S1 c = {}" using chc ch by simp
  obtain S2 where S2: "finish True c S1 = Inr S2" "sched_inv ({c, p} - {c}) {q} S2" "skeleton S2 = (skeleton S1)(c := None)"
      "m_queue S2 = m_queue S1" "m_njobs S2 = m_njobs S1" "frame ({c, p} - {c}) S1 S2"
    by (rule finish_inv [OF inv1 insertI1 k1' par nq chc1, where queued = True])
  have X: "{c, p} - {c} = {p}" using cp by auto
  have prems: "sched_inv {p} {q} S2" "m_listjQueued (m_queue S2 q) = rest" "m_pj (m_queue S2 q) = Some p" "p \<notin> set rest"
    using S2 X Cons.prems by (simp_all add: q1)
  have "children S2 p = {}" "\<not> waiter S2 p"
    using Cons.prems(5,6) S2(3) sk w [of p] cp waiter_cong [OF S2(4)] by (simp_all add: children_skeleton)
  from Cons.IH [OF prems this]
  obtain S' where S': "jq_notify q rest S2 = Inr S'" "sched_inv {p} {q} S'" "m_job S' p = m_job S2 p" "m_njobs S' = m_njobs S2"
    "m_queue S' = (m_queue S2)(q := (m_queue S2 q)\<lparr>m_listjQueued := []\<rparr>)" "frame {p} S2 S'"
    "\<And>r. skeleton S' r = (if r \<in> set rest then None else skeleton S2 r)"
    by blast
  have "jq_notify q (c # rest) S = Inr S'"
    using run k rk S2(1) S'(1) by (simp split: sum.splits prod.splits)
  moreover have "frame {p} S S'" using S2(6) S'(6) X cp by (simp add: frame_def job) (simp add: S1_def f_def)
  ultimately show ?case
    using S' S2 sk cp X by (auto simp: q1 S1_def frame_def)
qed

end
