(* ===== verification/SchedulerRun.thy ===== *)
theory SchedulerRun
  imports SchedulerInv
begin

text \<open>
  Running the scheduler. The locale \<open>job_system\<close> says what jobs promise: they never fail in states they accept, a job that
  completes has added no children, every execution decreases a rank of the jobs that are left, and jobs
  that queue for something are above the jobs they wait for. Under this contract the loop
  of \<^verbatim>\<open>ExecuteJobs\<close> never fails an assertion, ends, and leaves no job behind.
\<close>

section \<open>The jobs as a bag\<close>

definition bag :: "(nat \<Rightarrow> (nat option \<times> nat option \<times> 'b) option) \<Rightarrow> 'b multiset" where
  "bag sk = image_mset (\<lambda>p. snd (snd (the (sk p)))) (mset_set (dom sk))"

lemma bag_upd:
  assumes "finite (dom sk)"
  shows "bag (sk(p := Some x)) = add_mset (snd (snd x)) (bag (sk(p := None)))"
proof -
  have "finite (dom sk - {p})" using assms by simp
  moreover have "image_mset (\<lambda>r. snd (snd (the ((sk(p := Some x)) r)))) (mset_set (dom sk - {p})) =
      image_mset (\<lambda>r. snd (snd (the ((sk(p := None)) r)))) (mset_set (dom sk - {p}))"
    using assms by (intro image_mset_cong) auto
  ultimately show ?thesis by (simp add: bag_def mset_set.insert_remove)
qed

lemma bag_split: "finite (dom sk) \<Longrightarrow> sk p = Some x \<Longrightarrow> bag sk = add_mset (snd (snd x)) (bag (sk(p := None)))"
  using bag_upd [of sk p x] by (simp add: fun_upd_idem)

lemma bag_remove:
  assumes "finite (dom sk)" and "\<And>r. sk' r = (if r \<in> R then None else sk r)"
  shows "\<exists>A. bag sk = A + bag sk' \<and> (\<forall>x \<in># A. \<exists>r \<in> R. \<exists>a q. sk r = Some (a, q, x))"
proof -
  let ?f = "\<lambda>p. snd (snd (the (sk p)))"
  have d: "dom sk' = dom sk - R" using assms(2) by (auto simp: dom_def)
  have b': "bag sk' = image_mset ?f (mset_set (dom sk - R))"
    unfolding bag_def d using assms by (intro image_mset_cong) auto
  have "mset_set (dom sk) = mset_set (dom sk \<inter> R) + mset_set (dom sk - R)"
    using mset_set_Union [of "dom sk \<inter> R" "dom sk - R"] assms(1) by (simp add: Int_Diff_Un Int_Diff_disjoint)
  then have "bag sk = image_mset ?f (mset_set (dom sk \<inter> R)) + bag sk'" by (simp add: bag_def [of sk] b')
  moreover have "\<forall>x \<in># image_mset ?f (mset_set (dom sk \<inter> R)). \<exists>r \<in> R. \<exists>a q. sk r = Some (a, q, x)"
    using assms(1) by (auto, blast)
  ultimately show ?thesis by blast
qed

lemma between_none [simp]: "(n \<le> r \<and> r < n) = False" for n :: nat
  by auto

lemma bag_children:
  assumes "finite (dom sk)" and "\<And>r. n \<le> r \<Longrightarrow> sk r = None"
    and "\<And>r. sk' r = (if n \<le> r \<and> r < n + length cs then Some (Some p, snd (cs ! (r - n)), fst (cs ! (r - n))) else sk r)"
  shows "bag sk' = mset (map fst cs) + bag sk"
  using assms
proof (induction cs arbitrary: n sk)
  case Nil
  have "sk' = sk" by (rule ext) (simp add: Nil.prems(3))
  then show ?case by simp
next
  case (Cons c cs)
  let ?sk = "sk(n := Some (Some p, snd c, fst c))"
  have "bag sk' = mset (map fst cs) + bag ?sk"
  proof (rule Cons.IH)
    show "sk' r = (if Suc n \<le> r \<and> r < Suc n + length cs then Some (Some p, snd (cs ! (r - Suc n)), fst (cs ! (r - Suc n)))
        else ?sk r)" for r
      using Cons.prems(3) [of r] by (cases "r = n") (auto simp: nth_Cons' Suc_le_eq)
    show "finite (dom ?sk)" using Cons.prems(1) by (simp add: dom_fun_upd)
  qed (use Cons.prems(2) in auto)
  also have "bag ?sk = add_mset (fst c) (bag sk)"
    using bag_upd [OF Cons.prems(1), of n] Cons.prems(2) [of n] by (simp add: fun_upd_idem)
  finally show ?case by simp
qed

section \<open>One execution\<close>

lemma world_inv: "sched_inv X N S \<Longrightarrow> sched_inv X N (S\<lparr>m_world := w\<rparr>)"
proof -
  let ?S = "S\<lparr>m_world := w\<rparr>"
  have "alive ?S = alive S" "\<And>c. children ?S c = children S c" "\<And>c. waiter ?S c = waiter S c"
    by (simp_all add: alive_def children_def waiter_def)
  then have "sched_inv X N ?S = sched_inv X N S"
    by (simp add: sched_inv_def fresh_ok_def parents_ok_def refs_ok_def waiting_ok_def tracked_ok_def queues_ok_def queue_ok_def
        waiters_ok_def counters_ok_def)
  then show "sched_inv X N S \<Longrightarrow> sched_inv X N ?S" by simp
qed

lemma pj_FExecute_inv:
  assumes inv: "sched_inv {p} {} S" and k: "m_job S p = Some k" and nw: "\<not> waiter S p"
    and ex: "exec (m_body k) (m_world S) = Inr (fCompleted, b, cs, w)"
  obtains S' where "pj_FExecute exec p S = Inr (fCompleted, S')" "sched_inv {p} {} S'" "m_queue S' = m_queue S"
    "m_njobs S' = m_njobs S + length cs" "m_job S' p = Some (k\<lparr>m_body := b, m_ulpRefs := m_ulpRefs k + length cs\<rparr>)"
    "m_world S' = w" "m_listjRunning (m_sched S') = m_listjRunning (m_sched S)" "tracking S' = tracking S"
    "m_ulpRunning (m_sched S') = m_ulpRunning (m_sched S)"
    "\<forall>r. skeleton S' r = (if m_njobs S \<le> r \<and> r < m_njobs S + length cs
       then Some (Some p, snd (cs ! (r - m_njobs S)), fst (cs ! (r - m_njobs S)))
       else ((skeleton S)(p := Some (m_pjParent k, m_pjq k, b))) r)"
proof -
  let ?S = "put_job p (k\<lparr>m_body := b\<rparr>) (S\<lparr>m_world := w\<rparr>)"
  have inv1: "sched_inv {p} {} ?S" by (rule put_flight_inv [OF world_inv [OF inv]]) (use k in simp_all)
  have nw1: "\<not> waiter ?S p" using nw waiter_cong [of ?S S] by simp
  have sk: "skeleton ?S = (skeleton S)(p := Some (m_pjParent k, m_pjq k, b))" by (simp add: skeleton_put)
  obtain S' where S': "add_children p cs ?S = Inr S'" "sched_inv {p} {} S'" "m_queue S' = m_queue ?S"
    "m_njobs S' = m_njobs ?S + length cs" "m_job S' p = Some (k\<lparr>m_body := b, m_ulpRefs := m_ulpRefs k + length cs\<rparr>)"
    "frame ({p} - {p}) ?S S'" and sk': "\<forall>r. skeleton S' r = (if m_njobs ?S \<le> r \<and> r < m_njobs ?S + length cs
       then Some (Some p, snd (cs ! (r - m_njobs ?S)), fst (cs ! (r - m_njobs ?S))) else skeleton ?S r)"
    using add_children_inv [OF inv1 _ _ nw1, of "k\<lparr>m_body := b\<rparr>" cs] by auto
  have "pj_FExecute exec p S = Inr (fCompleted, S')" using k ex S'(1) by (simp add: pj_FExecute_def)
  then show thesis using S' sk' sk by (intro that [of S']) (simp_all add: frame_def)
qed

lemma main_not_listed:
  assumes "sched_inv X N S" and "skeleton S p = Some (a, pjq, b)" and "\<And>q. pjq = Some q \<Longrightarrow> p \<notin> set (m_listjQueued (m_queue S q))"
  shows "p \<notin> set (m_listjQueued (m_queue S q))"
proof
  assume h: "p \<in> set (m_listjQueued (m_queue S q))"
  then obtain c d where "skeleton S p = Some (c, Some q, d)"
    using sched_invD(6) [OF assms(1)] unfolding queues_ok_def queue_ok_skeleton by blast
  then show False using h assms(2,3) by simp
qed

text \<open>A job is executed unless its queue has another main job; then it is the main job.\<close>

definition may_run :: "('b, 'w) job_search \<Rightarrow> nat \<Rightarrow> nat option \<Rightarrow> bool" where
  "may_run S p pjq \<longleftrightarrow> (\<forall>q. pjq = Some q \<longrightarrow> phase S q \<in> {Idle, Led p})"

definition phase_after :: "('b, 'w) job_search \<Rightarrow> nat option \<Rightarrow> queue_phase \<Rightarrow> nat \<Rightarrow> queue_phase" where
  "phase_after S pjq x = (case pjq of None \<Rightarrow> phase S | Some q \<Rightarrow> (phase S)(q := x))"

text \<open>The scheduler's \<^verbatim>\<open>FExecute\<close>: the job ends unexecuted, waits behind another one, ends, or goes on.\<close>

lemma sch_FExecute_inv:
  assumes inv: "sched_inv {p} {} S" and k: "m_job S p = Some k" and refs: "m_ulpRefs k = 1" and nw: "\<not> waiter S p"
    and ch: "children S p = {}" and runs: "may_run S p (m_pjq k) \<longrightarrow> exec (m_body k) (m_world S) = Inr (fCompleted, b, cs, w)"
    and none: "fCompleted \<longrightarrow> cs = []"
  obtains (unexecuted) q where "sch_FExecute exec p S = Inr (True, S)" "\<forall>q. p \<notin> set (m_listjQueued (m_queue S q))"
      "m_pjq k = Some q" "phase S q = Over" "\<not> may_run S p (m_pjq k)"
  | (behind) S' k' q where "sch_FExecute exec p S = Inr (False, S')" "sched_inv {p} {} S'" "waiter S' p" "skeleton S' = skeleton S"
      "m_sched S' = m_sched S" "m_world S' = m_world S" "m_njobs S' = m_njobs S" "m_job S' p = Some k'" "m_ulpRefs k' = 2"
      "m_ejs k' = m_ejs k" "m_pjq k = Some q" "phase S' = phase S" "\<not> may_run S p (m_pjq k)"
  | (ended) S' k' R where "sch_FExecute exec p S = Inr (True, S')" "sched_inv {p} {} S'" "fCompleted" "m_world S' = w"
      "m_listjRunning (m_sched S') = m_listjRunning (m_sched S)" "tracking S' = tracking S"
      "m_ulpRunning (m_sched S') = m_ulpRunning (m_sched S)" "m_njobs S' = m_njobs S"
      "m_job S' p = Some k'" "m_ulpRefs k' = 1" "m_ejs k' = m_ejs k" "m_pjParent k' = m_pjParent k" "children S' p = {}"
      "\<forall>q. p \<notin> set (m_listjQueued (m_queue S' q))" "p \<notin> R"
      "\<forall>r \<in> R. children S r = {} \<and> (\<exists>x d q. m_pjq k = Some q \<and> skeleton S r = Some (x, Some q, d))" "may_run S p (m_pjq k)" "phase S' = phase_after S (m_pjq k) Over"
      "\<forall>r. skeleton S' r = (if r \<in> R then None else ((skeleton S)(p := Some (m_pjParent k, m_pjq k, b))) r)"
  | (goes_on) S' k' where "sch_FExecute exec p S = Inr (False, S')" "sched_inv {p} {} S'" "\<not> fCompleted" "m_world S' = w"
      "m_listjRunning (m_sched S') = m_listjRunning (m_sched S)" "tracking S' = tracking S"
      "m_ulpRunning (m_sched S') = m_ulpRunning (m_sched S)" "m_njobs S' = m_njobs S + length cs"
      "m_job S' p = Some k'" "m_ulpRefs k' = Suc (length cs)" "m_ejs k' = m_ejs k" "\<not> waiter S' p"
      "may_run S p (m_pjq k)" "phase S' = phase_after S (m_pjq k) (Led p)"
      "\<forall>r. skeleton S' r = (if m_njobs S \<le> r \<and> r < m_njobs S + length cs
         then Some (Some p, snd (cs ! (r - m_njobs S)), fst (cs ! (r - m_njobs S)))
         else ((skeleton S)(p := Some (m_pjParent k, m_pjq k, b))) r)"
proof -
  have cs: "fCompleted \<Longrightarrow> cs = []" using none by simp
  have skp: "skeleton S p = Some (m_pjParent k, m_pjq k, m_body k)" using k by (simp add: skeleton_def)
  have pp: "m_pjParent k \<noteq> Some p" using ch k by (auto simp: children_def)
  show thesis
  proof (cases "m_pjq k")
    case None
    have may: "may_run S p (m_pjq k)" using None by (simp add: may_run_def)
    then have ex: "exec (m_body k) (m_world S) = Inr (fCompleted, b, cs, w)" using runs by simp
    obtain S' where S': "pj_FExecute exec p S = Inr (fCompleted, S')" "sched_inv {p} {} S'" "m_queue S' = m_queue S"
      "m_njobs S' = m_njobs S + length cs" "m_job S' p = Some (k\<lparr>m_body := b, m_ulpRefs := m_ulpRefs k + length cs\<rparr>)"
      "m_world S' = w" "m_listjRunning (m_sched S') = m_listjRunning (m_sched S)" "tracking S' = tracking S"
      "m_ulpRunning (m_sched S') = m_ulpRunning (m_sched S)"
      "\<forall>r. skeleton S' r = (if m_njobs S \<le> r \<and> r < m_njobs S + length cs
         then Some (Some p, snd (cs ! (r - m_njobs S)), fst (cs ! (r - m_njobs S)))
         else ((skeleton S)(p := Some (m_pjParent k, m_pjq k, b))) r)"
      by (rule pj_FExecute_inv [of p S k exec fCompleted b cs w, OF inv k nw ex])
    have run: "sch_FExecute exec p S = Inr (fCompleted, S')" using k None S'(1) by (simp add: sch_FExecute_def)
    have ph: "phase S' = phase_after S (m_pjq k) x" for x using phase_cong [OF S'(3)] None by (simp add: phase_after_def)
    show thesis
    proof (cases fCompleted)
      case True
      have sk': "skeleton S' = (skeleton S)(p := Some (m_pjParent k, m_pjq k, b))" using S'(10) cs [OF True] by (simp add: fun_eq_iff)
      have "children S' p = {}" using ch pp by (auto simp: children_skeleton sk')
      moreover have "p \<notin> set (m_listjQueued (m_queue S' q))" for q
        by (rule main_not_listed [OF S'(2), where pjq = None and a = "m_pjParent k" and b = b]) (simp_all add: sk' None)
      ultimately show thesis
        using ended [of S' "k\<lparr>m_body := b\<rparr>" "{}"] run True S' cs [OF True] refs sk' may ph by simp
    next
      case False
      moreover have "\<not> waiter S' p" using nw waiter_cong [OF S'(3)] by simp
      ultimately show thesis using goes_on [OF _ S'(2), of "k\<lparr>m_body := b, m_ulpRefs := m_ulpRefs k + length cs\<rparr>"] run S' refs may ph by simp
    qed
  next
    case (Some q)
    show thesis
    proof (cases rule: EjqrAdd_inv [OF inv k Some nw ch])
      case 1
      have "p \<notin> set (m_listjQueued (m_queue S r))" for r
      proof (rule main_not_listed [OF inv skp])
        show "p \<notin> set (m_listjQueued (m_queue S r))" if "m_pjq k = Some r" for r
          using sched_invD(6) [OF inv] that Some 1(2) by (simp add: queues_ok_def queue_ok_def phase_Over_iff)
      qed
      then show thesis using unexecuted k Some 1 by (simp add: sch_FExecute_def may_run_def)
    next
      case (3 S')
      have "skeleton S' = skeleton S" using 3(4) k by (simp add: skeleton_def fun_eq_iff)
      moreover have "sch_FExecute exec p S = Inr (False, S')" using k Some 3(1) by (simp add: sch_FExecute_def)
      ultimately show thesis using behind [of S'] 3 refs Some by (simp add: may_run_def)
    next
      case (2 S1)
      let ?k1 = "k\<lparr>m_ulpRefs := Suc (m_ulpRefs k)\<rparr>"
      have k1: "m_job S1 p = Some ?k1" using 2(4) by simp
      have sk1: "skeleton S1 = skeleton S" using 2(4) k by (simp add: skeleton_def fun_eq_iff)
      have may: "may_run S p (m_pjq k)" using 2(12) Some by (simp add: may_run_def)
      then have ex: "exec (m_body k) (m_world S) = Inr (fCompleted, b, cs, w)" using runs by simp
      have ph1: "phase S1 = phase_after S (m_pjq k) (Led p)" using 2(13) Some by (simp add: phase_after_def)
      have ex1: "exec (m_body ?k1) (m_world S1) = Inr (fCompleted, b, cs, w)" using ex 2(6) by simp
      obtain S2 where S2: "pj_FExecute exec p S1 = Inr (fCompleted, S2)" "sched_inv {p} {} S2" "m_queue S2 = m_queue S1"
        "m_njobs S2 = m_njobs S1 + length cs" "m_job S2 p = Some (?k1\<lparr>m_body := b, m_ulpRefs := m_ulpRefs ?k1 + length cs\<rparr>)"
        "m_world S2 = w" "m_listjRunning (m_sched S2) = m_listjRunning (m_sched S1)" "tracking S2 = tracking S1"
        "m_ulpRunning (m_sched S2) = m_ulpRunning (m_sched S1)"
        "\<forall>r. skeleton S2 r = (if m_njobs S1 \<le> r \<and> r < m_njobs S1 + length cs
           then Some (Some p, snd (cs ! (r - m_njobs S1)), fst (cs ! (r - m_njobs S1)))
           else ((skeleton S1)(p := Some (m_pjParent ?k1, m_pjq ?k1, b))) r)"
        by (rule pj_FExecute_inv [of p S1 ?k1 exec fCompleted b cs w, OF 2(2) k1 2(3) ex1])
      have ph2: "phase S2 = phase_after S (m_pjq k) (Led p)" using phase_cong [OF S2(3)] ph1 by simp
      have nw2: "\<not> waiter S2 p" using 2(3) waiter_cong [OF S2(3)] by simp
      show thesis
      proof (cases fCompleted)
        case False
        let ?k2 = "k\<lparr>m_body := b, m_ulpRefs := Suc (length cs)\<rparr>"
        let ?S' = "put_job p ?k2 S2"
        have run: "sch_FExecute exec p S = Inr (False, ?S')"
          using k Some 2(1) S2(1,5) False refs by (simp add: sch_FExecute_def)
        have "sched_inv {p} {} ?S'" by (rule put_flight_inv [OF S2(2) _ S2(5)]) simp_all
        moreover have "skeleton ?S' = skeleton S2" by (rule skeleton_put_same [OF S2(5)]) simp_all
        moreover have "\<not> waiter ?S' p" using nw2 waiter_cong [of ?S' S2] by simp
        ultimately show thesis
          using goes_on [OF run, where k' = ?k2] False S2 sk1 2 may ph2 phase_cong [of ?S' S2] by simp
      next
        case True
        define S3 where "S3 = upd_queue q (\<lambda>jq. jq\<lparr>m_fCompleted := True, m_listjQueued := tl (m_listjQueued jq)\<rparr>) S2"
        define rest where "rest = tl (m_listjQueued (m_queue S2 q))"
        let ?k3 = "k\<lparr>m_body := b, m_ulpRefs := Suc 0\<rparr>"
        have qok: "queue_ok S2 False r (m_queue S2 r)" for r using sched_invD(6) [OF S2(2)] by (simp add: queues_ok_def)
        have lq: "m_listjQueued (m_queue S2 q) = p # rest" using 2(9,10) S2(3) by (cases "m_listjQueued (m_queue S2 q)") (simp_all add: rest_def)
        have dist: "distinct (p # rest)" using qok [of q] lq by (simp add: queue_ok_def)
        have sk2: "skeleton S2 = (skeleton S)(p := Some (m_pjParent k, m_pjq k, b))"
          using S2(10) cs [OF True] sk1 by (simp add: fun_eq_iff)
        have ch2: "children S2 p = {}" using ch pp by (auto simp: children_skeleton sk2)
        have w3: "waiter S3 r = waiter S2 r" for r
        proof -
          have "(r \<in> set (m_listjQueued (m_queue S3 x)) \<and> m_pj (m_queue S3 x) \<noteq> Some r) \<longleftrightarrow>
              (r \<in> set (m_listjQueued (m_queue S2 x)) \<and> m_pj (m_queue S2 x) \<noteq> Some r)" for x
            using lq 2(8) S2(3) by (cases "x = q") (auto simp: S3_def)
          then show ?thesis by (simp only: waiter_def)
        qed
        have sk3: "skeleton S3 = skeleton S2" by (simp add: S3_def)
        have ch3: "children S3 r = children S2 r" for r by (rule skeleton_eqD(2) [OF sk3])
        have inv3: "sched_inv {p} {q} S3"
        proof -
          have "queues_ok {q} S3"
            unfolding queues_ok_def
          proof
            fix r
            have e: "queue_ok S3 b r jq = queue_ok S2 b r jq" for b jq by (simp only: queue_ok_skeleton sk3)
            have "queue_ok S2 True q (m_queue S3 q)" using qok [of q] lq 2(8) S2(3) by (simp add: queue_ok_def S3_def)
            then show "queue_ok S3 (r \<in> {q}) r (m_queue S3 r)" unfolding e using qok [of r] by (cases "r = q") (simp_all add: S3_def)
          qed
          moreover have "alive S3 = alive S2" by (rule skeleton_eqD(1) [OF sk3])
          moreover have "refs_ok {p} S3 = refs_ok {p} S2" by (simp add: refs_ok_def w3 ch3) (simp add: S3_def)
          moreover have "waiting_ok {p} S3 = waiting_ok {p} S2" "tracked_ok {p} S3 = tracked_ok {p} S2" "fresh_ok S3 = fresh_ok S2"
            "parents_ok S3 = parents_ok S2"
            by (simp_all add: S3_def waiting_ok_def tracked_ok_def fresh_ok_def parents_ok_def)
          moreover have "waiters_ok S3 = waiters_ok S2" by (simp only: waiters_ok_def w3 ch3)
          moreover have "counters_ok S3 = counters_ok S2" by (simp add: counters_ok_def \<open>alive S3 = alive S2\<close>) (simp add: S3_def)
          ultimately show ?thesis using S2(2) by (simp only: sched_inv_def)
        qed
        have k3: "m_job S3 p = Some (k\<lparr>m_body := b, m_ulpRefs := 2\<rparr>)" using S2(5) refs cs [OF True] by (simp add: S3_def)
        define S4 where "S4 = put_job p ?k3 S3"
        have sk4: "skeleton S4 = skeleton S3" unfolding S4_def by (rule skeleton_put_same [OF k3]) simp_all
        have inv4: "sched_inv {p} {q} S4" unfolding S4_def by (rule put_flight_inv [OF inv3 _ k3]) simp_all
        have "m_listjQueued (m_queue S4 q) = rest" "m_pj (m_queue S4 q) = Some p" "p \<notin> set rest"
          using 2(8) S2(3) dist by (simp_all add: S4_def S3_def rest_def)
        moreover have "children S4 p = {}" using ch2 skeleton_eqD(2) [OF sk4] ch3 by simp
        moreover have "\<not> waiter S4 p" using nw2 w3 waiter_cong [of S4 S3] by (simp add: S4_def)
        ultimately obtain S' where S': "jq_notify q rest S4 = Inr S'" "sched_inv {p} {q} S'" "m_job S' p = m_job S4 p"
            "m_njobs S' = m_njobs S4" "m_queue S' = (m_queue S4)(q := (m_queue S4 q)\<lparr>m_listjQueued := []\<rparr>)" "frame {p} S4 S'"
            "\<forall>r. skeleton S' r = (if r \<in> set rest then None else skeleton S4 r)"
          using notify_inv [OF inv4] by metis
        have "sched_inv {p} {} S'"
        proof -
          have "queues_ok {} S'"
            unfolding queues_ok_def
          proof
            fix r
            have "queue_ok S' (r \<in> {q}) r (m_queue S' r)" using sched_invD(6) [OF S'(2)] by (simp add: queues_ok_def)
            then show "queue_ok S' (r \<in> {}) r (m_queue S' r)" using S'(5) by (cases "r = q") (simp_all add: queue_ok_def)
          qed
          then show ?thesis using S'(2) by (simp add: sched_inv_def)
        qed
        moreover have "sch_FExecute exec p S = Inr (True, S')"
        proof -
          have "upd_queue q (\<lambda>jq. jq\<lparr>m_listjQueued := rest\<rparr>) (upd_queue q (\<lambda>jq. jq\<lparr>m_fCompleted := True\<rparr>) S2) = S3"
            by (simp add: S3_def upd_queue_def rest_def)
          then have "jq_NotifyCompleted q S2 = Inr S'"
            using 2(11) S2(3) lq S'(1) k3 by (simp add: jq_NotifyCompleted_def Let_def S4_def)
          then show ?thesis using k Some 2(1) S2(1) True by (simp add: sch_FExecute_def)
        qed
        moreover have "p \<notin> set (m_listjQueued (m_queue S' r))" for r
        proof (rule main_not_listed [OF S'(2)])
          show "skeleton S' p = Some (m_pjParent k, m_pjq k, b)" using S'(7) dist sk4 sk3 sk2 by simp
        qed (use S'(5) Some in auto)
        moreover have "children S' p = {}" using S'(7) ch2 sk4 sk3 by (auto simp: children_skeleton)
        moreover have "skeleton S4 = (skeleton S)(p := Some (m_pjParent k, m_pjq k, b))" using sk4 sk3 sk2 by simp
        then have "\<forall>r. skeleton S' r = (if r \<in> set rest then None else ((skeleton S)(p := Some (m_pjParent k, m_pjq k, b))) r)"
          using S'(7) by simp
        moreover have "m_world S' = w" "m_listjRunning (m_sched S') = m_listjRunning (m_sched S)" "tracking S' = tracking S"
            "m_ulpRunning (m_sched S') = m_ulpRunning (m_sched S)" "m_njobs S' = m_njobs S"
          using S'(4,6) S2(4,6,7,8,9) 2(5,7) cs [OF True] by (simp_all add: frame_def S4_def S3_def)
        moreover have "phase S' = (phase S2)(q := Over)"
          by (simp add: phase_def fun_eq_iff S'(5) S4_def S3_def)
        then have "phase S' = phase_after S (m_pjq k) Over" using ph2 Some by (simp add: phase_after_def)
        moreover have "m_job S' p = Some ?k3" using S'(3) by (simp add: S4_def)
        moreover have "p \<notin> set rest" using dist by simp
        moreover have "children S r = {} \<and> (\<exists>x d q. m_pjq k = Some q \<and> skeleton S r = Some (x, Some q, d))" if h: "r \<in> set rest" for r
        proof -
          have "r \<in> set (m_listjQueued (m_queue S2 q))" "r \<noteq> p" using h lq dist by auto
          then obtain x d where "skeleton S2 r = Some (x, Some q, d)" using queued_skeleton [OF qok] by blast
          moreover have "waiter S2 r"
            using h lq dist 2(8) S2(3) unfolding waiter_def by (intro exI [of _ q]) auto
          moreover from this have "children S2 r = {}" using sched_invD(7) [OF S2(2)] by (simp add: waiters_ok_def)
          moreover have "children S2 r = children S r" using skp by (auto simp: children_skeleton sk2)
          ultimately show ?thesis using sk2 Some \<open>r \<noteq> p\<close> by simp
        qed
        ultimately show thesis using ended [where S' = S' and k' = ?k3 and R = "set rest"] True may by simp
      qed
    qed
  qed
qed

section \<open>One round of the loop\<close>

lemma Suspend_inv:
  assumes inv: "sched_inv {p} {} S" and k: "m_job S p = Some k" and refs: "m_ulpRefs k = card (children S p) + of_bool (waiter S p)"
    and pos: "0 < m_ulpRefs k" and ejs: "tracking S \<Longrightarrow> m_ejs k = EjsRunning"
  obtains S' where "sch_Suspend p S = Inr S'" "sched_inv {} {} S'" "skeleton S' = skeleton S" "m_queue S' = m_queue S"
    "m_njobs S' = m_njobs S" "frame {} S S'" "waiting S' = waiting S"
proof -
  define k' where "k' = (if tracking S then k\<lparr>m_ejs := EjsSuspended\<rparr> else k)"
  define f :: "CScheduler \<Rightarrow> CScheduler" where "f = (\<lambda>s. s\<lparr>m_listjSuspended := (if m_fTrackingJobs s then m_listjSuspended s @ [p] else m_listjSuspended s),
    m_ulpStatsSuspended := m_ulpStatsSuspended s + 1\<rparr>)"
  define S' where "S' = upd_sched f (put_job p k' S)"
  have job: "m_job S' = (m_job S)(p \<mapsto> k')" by (simp add: S'_def)
  have s: "waiting S' = waiting S" "tracking S' = tracking S" "tracking S \<Longrightarrow> suspended S' = suspended S @ [p]"
    by (simp_all add: S'_def f_def)
  have "put_job p k S = S" using k by (simp add: put_job_def fun_upd_idem)
  then have run: "sch_Suspend p S = Inr S'" using k ejs by (auto simp: sch_Suspend_def track_state_def S'_def k'_def f_def)
  have sk: "skeleton S' = skeleton S" using skeleton_put_same [OF k, of k'] by (simp add: S'_def k'_def)
  have q: "m_queue S' = m_queue S" "m_njobs S' = m_njobs S" by (simp_all add: S'_def)
  have pw: "p \<notin> set (waiting S)" using waiting_not_in_flight [OF inv] by simp
  have "graph_ok {} S'" using inv graph_ok_cong [OF sk q] by (simp add: sched_inv_graph)
  moreover have "refs_ok {} S'"
    unfolding refs_ok_def job waiter_cong [OF q(1)] skeleton_eqD(2) [OF sk]
  proof (intro allI impI)
    fix r j assume h: "((m_job S)(p \<mapsto> k')) r = Some j"
    show "m_ulpRefs j = card (children S r) + of_bool (waiter S r)"
    proof (cases "r = p")
      case True
      then have "m_ulpRefs j = m_ulpRefs k" using h by (auto simp: k'_def)
      then show ?thesis using refs True by simp
    next
      case False
      then show ?thesis using sched_invD(3) [OF inv] h unfolding refs_ok_def by simp
    qed
  qed
  moreover have "waiting_ok {} S'"
    using sched_invD(4) [OF inv] pw pos by (auto simp: waiting_ok_def job s k'_def)
  moreover have "tracked_ok {} S'"
    using sched_invD(5) [OF inv] pw k by (auto simp: tracked_ok_def job s k'_def)
  moreover have "counters_ok S'"
    using sched_invD(8) [OF inv] skeleton_eqD(1) [OF sk] by (simp add: counters_ok_def s q) (simp add: S'_def f_def)
  ultimately have "sched_inv {} {} S'" by (simp add: sched_inv_graph)
  moreover have "frame {} S S'" by (simp add: frame_def S'_def f_def)
  ultimately show thesis using that [of S'] run sk q s(1) by simp
qed

text \<open>A job that has ended is completed and released.\<close>

lemma complete_inv:
  assumes inv: "sched_inv {p} {} S" and k: "m_job S p = Some k" and refs: "m_ulpRefs k = 0" and ch: "children S p = {}"
    and nq: "\<forall>q. p \<notin> set (m_listjQueued (m_queue S q))" and ejs: "tracking S \<Longrightarrow> m_ejs k = EjsRunning"
  obtains S' where "rbind (sch_Complete p S) (release_job p) = Inr S'" "sched_inv {} {} S'" "skeleton S' = (skeleton S)(p := None)"
    "m_queue S' = m_queue S" "m_njobs S' = m_njobs S" "frame {} S S'"
proof -
  define k' where "k' = (if tracking S then k\<lparr>m_ejs := EjsCompleted\<rparr> else k)"
  define S1 where "S1 = put_job p k' S"
  have "put_job p k S = S" using k by (simp add: put_job_def fun_upd_idem)
  then have "track_state {EjsRunning} EjsCompleted p S = Inr S1"
    using k ejs by (auto simp: track_state_def S1_def k'_def)
  then have run: "rbind (sch_Complete p S) (release_job p) = finish False p S1"
    using k refs by (simp add: sch_Complete_def finish_def rbind_assoc)
  have inv1: "sched_inv {p} {} S1" unfolding S1_def by (rule put_flight_inv [OF inv _ k]) (simp_all add: k'_def)
  have k1: "m_job S1 p = Some k'" "m_ulpRefs k' = 0" using refs by (simp_all add: S1_def k'_def)
  have sk: "skeleton S1 = skeleton S" unfolding S1_def by (rule skeleton_put_same [OF k]) (simp_all add: k'_def)
  have par: "r \<notin> {p}" if "m_pjParent k' = Some r" for r
    using sched_invD(2) [OF inv1] k1 that by (auto simp: parents_ok_def)
  have nq1: "p \<notin> set (m_listjQueued (m_queue S1 q))" for q using nq by (simp add: S1_def)
  have ch1: "children S1 p = {}" using ch skeleton_eqD(2) [OF sk] by simp
  obtain S' where S': "finish False p S1 = Inr S'" "sched_inv ({p} - {p}) {} S'" "skeleton S' = (skeleton S1)(p := None)"
    "m_queue S' = m_queue S1" "m_njobs S' = m_njobs S1" "frame ({p} - {p}) S1 S'"
    by (rule finish_inv [OF inv1 insertI1 k1 par nq1 ch1, where queued = False])
  show thesis using S' run sk by (intro that [of S']) (simp_all add: S1_def frame_def)
qed

lemma UlpDecrRefs_flight:
  assumes "sched_inv X N S" and "p \<in> X" and "m_job S p = Some k" and "0 < m_ulpRefs k"
  shows "sched_inv X N (put_job p (k\<lparr>m_ulpRefs := m_ulpRefs k - 1\<rparr>) S)"
    "skeleton (put_job p (k\<lparr>m_ulpRefs := m_ulpRefs k - 1\<rparr>) S) = skeleton S"
  using put_flight_inv [OF assms(1-3), of "k\<lparr>m_ulpRefs := m_ulpRefs k - 1\<rparr>"] skeleton_put_same [OF assms(3)] by simp_all

text \<open>What follows on the execution, as long as the job is in flight.\<close>

definition after_execution :: "nat \<Rightarrow> bool \<Rightarrow> ('b, 'w) job_search \<Rightarrow> ('b, 'w) job_search result" where
  "after_execution pj fCompleted S =
     rbind (untrack_running pj S) (\<lambda>S.
     rbind (sch_EjrPostExecute pj fCompleted S) (\<lambda>(ejr, S).
       case ejr of
         EjrCompleted \<Rightarrow> rbind (sch_Complete pj S) (release_job pj)
       | EjrRunnable \<Rightarrow> sch_Resume pj S
       | EjrSuspended \<Rightarrow> sch_Suspend pj S))"

lemma sch_execute_job_eq:
  "sch_execute_job exec pj S = rbind (sch_PreExecute pj S) (\<lambda>S. rbind (sch_FExecute exec pj S) (\<lambda>(fCompleted, S). after_execution pj fCompleted S))"
  by (simp add: sch_execute_job_def after_execution_def)

lemma after_execution_inv:
  assumes inv: "sched_inv {p} {} S" and k: "m_job S p = Some k"
    and run: "m_listjRunning (m_sched S) = (if tracking S then [p] else [])" and ejs: "tracking S \<Longrightarrow> m_ejs k = EjsRunning"
    and don: "fCompleted \<Longrightarrow> m_ulpRefs k = 1 \<and> children S p = {} \<and> (\<forall>q. p \<notin> set (m_listjQueued (m_queue S q)))"
    and cont: "\<not> fCompleted \<Longrightarrow> m_ulpRefs k = Suc (card (children S p) + of_bool (waiter S p))"
  shows "\<exists>S'. after_execution p fCompleted S = Inr S' \<and> sched_inv {} {} S' \<and> m_world S' = m_world S \<and> m_njobs S' = m_njobs S \<and>
     tracking S' = tracking S \<and> m_listjRunning (m_sched S') = [] \<and> m_ulpRunning (m_sched S') = m_ulpRunning (m_sched S) - 1 \<and>
     m_queue S' = m_queue S \<and> skeleton S' = (if fCompleted then (skeleton S)(p := None) else skeleton S) \<and>
     (\<not> fCompleted \<and> waiter S p \<longrightarrow> waiting S' = waiting S)"
proof -
  define g :: "CScheduler \<Rightarrow> CScheduler" where "g = (\<lambda>s. s\<lparr>m_listjRunning := [], m_ulpRunning := m_ulpRunning s - 1\<rparr>)"
  define k1 where "k1 = k\<lparr>m_ulpRefs := m_ulpRefs k - 1\<rparr>"
  define S1 where "S1 = upd_sched g (put_job p k1 S)"
  have pos: "0 < m_ulpRefs k" using don cont by (cases fCompleted) simp_all
  have inv1: "sched_inv {p} {} S1" and sk1: "skeleton S1 = skeleton S"
    using UlpDecrRefs_flight [OF inv _ k pos] unfolding S1_def k1_def by (auto intro!: upd_running_inv simp: g_def)
  have k1': "m_job S1 p = Some k1" by (simp add: S1_def)
  have post: "after_execution p fCompleted S =
      (if fCompleted then gpos_assert (m_ulpRefs k = 1) (rbind (sch_Complete p S1) (release_job p))
       else if m_ulpRefs k = 1 then sch_Resume p S1 else sch_Suspend p S1)"
  proof -
    obtain g0 where "untrack_running p S = Inr (upd_sched g0 S)" "\<And>s. s = m_sched S \<Longrightarrow> g0 s = s\<lparr>m_listjRunning := []\<rparr>"
    proof (cases "tracking S")
      case True
      then show thesis using run that [of "\<lambda>s. s\<lparr>m_listjRunning := []\<rparr>"] by (simp add: untrack_running_def list_Remove_def)
    next
      case False
      then show thesis using run that [of "\<lambda>s. s"] by (simp add: untrack_running_def upd_sched_def)
    qed
    moreover have "upd_sched (\<lambda>s. s\<lparr>m_ulpRunning := m_ulpRunning s - 1\<rparr>) (put_job p k1 (upd_sched g0 S)) = S1"
      using calculation(2) by (simp add: S1_def upd_sched_def put_job_def g_def)
    moreover have "pj_UlpDecrRefs p (upd_sched g0 S) = Inr (m_ulpRefs k, put_job p k1 (upd_sched g0 S))"
      unfolding k1_def by (rule pj_UlpDecrRefs_eq) (use k pos in simp_all)
    ultimately show ?thesis
      by (simp add: after_execution_def sch_EjrPostExecute_def Let_def gpos_assert_def del: One_nat_def)
  qed
  have s1: "m_world S1 = m_world S" "m_njobs S1 = m_njobs S" "tracking S1 = tracking S" "m_listjRunning (m_sched S1) = []"
    "m_ulpRunning (m_sched S1) = m_ulpRunning (m_sched S) - 1" "m_queue S1 = m_queue S" "waiting S1 = waiting S"
    by (simp_all add: S1_def g_def)
  have ch1: "children S1 r = children S r" for r by (rule skeleton_eqD(2) [OF sk1])
  have w1: "waiter S1 r = waiter S r" for r by (rule waiter_cong [OF s1(6)])
  have ejs1: "tracking S1 \<Longrightarrow> m_ejs k1 = EjsRunning" using ejs s1(3) by (simp add: k1_def)
  show ?thesis
  proof (cases fCompleted)
    case True
    have "m_ulpRefs k1 = 0" "children S1 p = {}" "\<forall>q. p \<notin> set (m_listjQueued (m_queue S1 q))"
      using don [OF True] ch1 s1(6) by (simp_all add: k1_def)
    then obtain S' where S': "rbind (sch_Complete p S1) (release_job p) = Inr S'" "sched_inv {} {} S'" "skeleton S' = (skeleton S1)(p := None)"
      "m_queue S' = m_queue S1" "m_njobs S' = m_njobs S1" "frame {} S1 S'"
      using complete_inv [OF inv1 k1' _ _ _ ejs1] by blast
    then show ?thesis using True post don [OF True] s1 sk1 by (intro exI [of _ S']) (simp add: frame_def)
  next
    case False
    note c = cont [OF False]
    show ?thesis
    proof (cases "m_ulpRefs k = 1")
      case True
      then have z: "m_ulpRefs k1 = 0" "children S1 p = {}" "\<not> waiter S1 p"
        using c ch1 w1 finite_children [OF inv] by (auto simp: k1_def)
      obtain S' where S': "sch_Schedule p S1 = Inr S'" "sched_inv {} {} S'" "skeleton S' = skeleton S1" "m_queue S' = m_queue S1"
          "m_njobs S' = m_njobs S1" "frame (- {p}) S1 S'"
        using Schedule_inv [OF inv1 _ k1' z] ejs1 by auto
      then show ?thesis using True False post s1 sk1 k1' z w1 by (intro exI [of _ S']) (simp add: frame_def sch_Resume_def)
    next
      case refs: False
      have "m_ulpRefs k1 = card (children S1 p) + of_bool (waiter S1 p)" "0 < m_ulpRefs k1"
        using c refs ch1 w1 by (simp_all add: k1_def)
      then obtain S' where S': "sch_Suspend p S1 = Inr S'" "sched_inv {} {} S'" "skeleton S' = skeleton S1" "m_queue S' = m_queue S1"
          "m_njobs S' = m_njobs S1" "frame {} S1 S'" "waiting S' = waiting S1"
        using Suspend_inv [OF inv1 k1' _ _ ejs1] by blast
      then show ?thesis using refs False post s1 sk1 by (intro exI [of _ S']) (simp add: frame_def)
    qed
  qed
qed

definition idle :: "('b, 'w) job_search \<Rightarrow> bool" where
  "idle S \<longleftrightarrow> m_listjRunning (m_sched S) = [] \<and> m_ulpRunning (m_sched S) = 0"

definition one_round :: "('b, 'w) FExecute \<Rightarrow> ('b, 'w) job_search \<Rightarrow> ('b, 'w) job_search result" where
  "one_round exec S = rbind (sch_PjRetrieve S) (\<lambda>(pj, S). case pj of None \<Rightarrow> Inr S | Some p \<Rightarrow> sch_execute_job exec p S)"

lemma one_round_inv:
  assumes inv: "sched_inv {} {} S" and idle: "idle S" and wt: "waiting S = p # rest" and sk: "skeleton S p = Some (par, pjq, b0)"
    and runs: "may_run S p pjq \<longrightarrow> exec b0 (m_world S) = Inr (fCompleted, b, cs, w)" and cs: "fCompleted \<longrightarrow> cs = []"
  obtains S' where "one_round exec S = Inr S'" "sched_inv {} {} S'" "idle S'" "tracking S' = tracking S"
    "(\<not> may_run S p pjq \<and> phase S' = phase S \<and> (\<exists>q. pjq = Some q \<and> phase S q = Over) \<and>
        m_world S' = m_world S \<and> m_njobs S' = m_njobs S \<and> skeleton S' = (skeleton S)(p := None)) \<or>
     (\<not> may_run S p pjq \<and> phase S' = phase S \<and> m_world S' = m_world S \<and> m_njobs S' = m_njobs S \<and> skeleton S' = skeleton S \<and> waiting S' = rest) \<or>
     (\<exists>R. may_run S p pjq \<and> phase S' = phase_after S pjq Over \<and>
        (\<forall>r \<in> R - {p}. children S r = {} \<and> (\<exists>x d q. pjq = Some q \<and> skeleton S r = Some (x, Some q, d))) \<and> fCompleted \<and> m_world S' = w \<and> m_njobs S' = m_njobs S \<and> p \<in> R \<and>
        (\<forall>r. skeleton S' r = (if r \<in> R then None else skeleton S r))) \<or>
     (may_run S p pjq \<and> phase S' = phase_after S pjq (Led p) \<and> \<not> fCompleted \<and> m_world S' = w \<and> m_njobs S' = m_njobs S + length cs \<and>
        (\<forall>r. skeleton S' r = (if m_njobs S \<le> r \<and> r < m_njobs S + length cs
           then Some (Some p, snd (cs ! (r - m_njobs S)), fst (cs ! (r - m_njobs S)))
           else ((skeleton S)(p := Some (par, pjq, b))) r)))"
proof -
  have run0: "m_listjRunning (m_sched S) = []" using idle by (simp add: idle_def)
  obtain S1 where S1: "sch_PjRetrieve S = Inr (Some p, S1)" "sched_inv {p} {} S1" "skeleton S1 = skeleton S" "m_queue S1 = m_queue S"
      "m_njobs S1 = m_njobs S" "m_world S1 = m_world S" "tracking S1 = tracking S" "waiting S1 = rest"
      "m_ulpRunning (m_sched S1) = m_ulpRunning (m_sched S)" "refs_of S1 p = 0" "\<not> waiter S1 p" "children S1 p = {}"
      "tracking S \<longrightarrow> m_ejs (the (m_job S1 p)) = EjsRunning" "m_listjRunning (m_sched S1) = (if tracking S then [p] else [])"
    by (rule PjRetrieve_inv [OF inv wt run0])
  have "skeleton S1 p = Some (par, pjq, b0)" using sk S1(3) by simp
  then obtain k where k: "m_job S1 p = Some k" and kk: "m_pjParent k = par" "m_pjq k = pjq" "m_body k = b0"
    by (auto simp: skeleton_def)
  have r0: "m_ulpRefs k = 0" using S1(10) k by (simp add: refs_of_def)
  define k2 where "k2 = k\<lparr>m_ulpRefs := 1\<rparr>"
  define S2 where "S2 = put_job p k2 (upd_sched (\<lambda>s. s\<lparr>m_ulpRunning := m_ulpRunning s + 1\<rparr>) S1)"
  have pre: "sch_PreExecute p S1 = Inr S2" using k r0 by (simp add: sch_PreExecute_def S2_def k2_def)
  have inv2: "sched_inv {p} {} S2"
    unfolding S2_def by (rule put_flight_inv [where j = k]) (use k in \<open>auto simp: k2_def intro!: upd_running_inv S1(2)\<close>)
  have "skeleton S2 = skeleton S1" using k by (simp add: skeleton_def fun_eq_iff S2_def k2_def)
  then have sk2: "skeleton S2 = skeleton S" using S1(3) by simp
  have k2': "m_job S2 p = Some k2" "m_ulpRefs k2 = 1" by (simp_all add: S2_def k2_def)
  have nw2: "\<not> waiter S2 p" using S1(11) waiter_cong [of S2 S1] by (simp add: S2_def)
  have ch2: "children S2 p = {}" using S1(12) skeleton_eqD(2) [of S2 S1] sk2 S1(3) by simp
  have q2: "m_queue S2 = m_queue S" using S1(4) by (simp add: S2_def)
  have mr: "may_run S2 p (m_pjq k2) = may_run S p pjq" using kk q2 by (simp add: may_run_def phase_def k2_def)
  have ma: "phase S2 = phase S" "phase_after S2 (m_pjq k2) x = phase_after S pjq x" for x
    using phase_cong [OF q2] kk by (simp_all add: phase_after_def k2_def split: option.split)
  have ex2: "may_run S2 p (m_pjq k2) \<longrightarrow> exec (m_body k2) (m_world S2) = Inr (fCompleted, b, cs, w)"
    using runs kk S1(6) unfolding mr by (simp add: k2_def S2_def)
  have s2: "m_world S2 = m_world S" "m_njobs S2 = m_njobs S" "tracking S2 = tracking S" "waiting S2 = rest"
    "m_ulpRunning (m_sched S2) = m_ulpRunning (m_sched S) + 1" "m_listjRunning (m_sched S2) = (if tracking S2 then [p] else [])"
    using S1 by (simp_all add: S2_def)
  have ejs2: "tracking S2 \<Longrightarrow> m_ejs k2 = EjsRunning" using S1(13) k s2(3) by (simp add: k2_def)
  have round: "one_round exec S = rbind (sch_FExecute exec p S2) (\<lambda>(fCompleted, S). after_execution p fCompleted S)"
    using S1(1) pre by (simp add: one_round_def sch_execute_job_eq)
  have idle': "idle S'" if "m_listjRunning (m_sched S') = []" "m_ulpRunning (m_sched S') = m_ulpRunning (m_sched S2) - 1" for S' :: "('a, 'b) job_search"
    using that idle s2(5) by (simp add: idle_def)
  show thesis
  proof (cases rule: sch_FExecute_inv [of p S2 k2 exec fCompleted b cs w, OF inv2 k2' nw2 ch2 ex2 cs])
    case (1 q)
    obtain S' where S': "m_queue S' = m_queue S2" "after_execution p True S2 = Inr S'" "sched_inv {} {} S'" "m_world S' = m_world S2" "m_njobs S' = m_njobs S2"
        "tracking S' = tracking S2" "m_listjRunning (m_sched S') = []" "m_ulpRunning (m_sched S') = m_ulpRunning (m_sched S2) - 1"
        "skeleton S' = (skeleton S2)(p := None)"
      using after_execution_inv [OF inv2 k2'(1) s2(6) ejs2, of True] k2'(2) ch2 1(2) by auto
    show thesis
      using that [of S'] S' round 1 idle' s2 sk2 mr ma phase_cong [OF S'(1)] kk by (simp add: k2_def)
  next
    case (2 S3 k3 q)
    have "m_listjRunning (m_sched S3) = (if tracking S3 then [p] else [])" "tracking S3 \<Longrightarrow> m_ejs k3 = EjsRunning"
      using 2(5,10) s2(6) ejs2 by simp_all
    moreover have "children S3 p = {}" using ch2 skeleton_eqD(2) [OF 2(4)] by simp
    ultimately obtain S' where S': "m_queue S' = m_queue S3" "after_execution p False S3 = Inr S'" "sched_inv {} {} S'" "m_world S' = m_world S3" "m_njobs S' = m_njobs S3"
        "tracking S' = tracking S3" "m_listjRunning (m_sched S') = []" "m_ulpRunning (m_sched S') = m_ulpRunning (m_sched S3) - 1"
        "skeleton S' = skeleton S3" "waiting S' = waiting S3"
      using after_execution_inv [OF 2(2,8), of False] 2(3,9) by auto
    show thesis using that [of S'] S' round 2 idle' s2 sk2 mr ma phase_cong [OF S'(1)] by simp
  next
    case (3 S3 k3 R)
    have "m_listjRunning (m_sched S3) = (if tracking S3 then [p] else [])" "tracking S3 \<Longrightarrow> m_ejs k3 = EjsRunning"
      using 3(5,6,11) s2(6) ejs2 by simp_all
    then obtain S' where q': "m_queue S' = m_queue S3" and S': "after_execution p True S3 = Inr S'" "sched_inv {} {} S'" "m_world S' = m_world S3" "m_njobs S' = m_njobs S3"
        "tracking S' = tracking S3" "m_listjRunning (m_sched S') = []" "m_ulpRunning (m_sched S') = m_ulpRunning (m_sched S3) - 1"
        "skeleton S' = (skeleton S3)(p := None)"
      using after_execution_inv [OF 3(2,9), of True] 3(10,13,14) by auto
    have "\<forall>r. skeleton S' r = (if r \<in> insert p R then None else skeleton S r)" using S'(8) 3(19) sk2 by simp
    moreover have "\<forall>r \<in> insert p R - {p}. children S r = {} \<and> (\<exists>x d q. pjq = Some q \<and> skeleton S r = Some (x, Some q, d))"
      using 3(16) sk2 kk skeleton_eqD(2) [OF sk2] by (auto simp: k2_def)
    ultimately have "\<exists>R. (\<forall>r \<in> R - {p}. children S r = {} \<and> (\<exists>x d q. pjq = Some q \<and> skeleton S r = Some (x, Some q, d))) \<and> p \<in> R \<and>
        (\<forall>r. skeleton S' r = (if r \<in> R then None else skeleton S r))"
      by blast
    moreover have "m_world S' = w" "m_njobs S' = m_njobs S" "idle S'" "tracking S' = tracking S"
      using S' 3 s2 idle' by simp_all
    moreover have "may_run S p pjq" "phase S' = phase_after S pjq Over" using 3(17,18) mr ma phase_cong [OF q'] by simp_all
    moreover have "one_round exec S = Inr S'" using round 3(1) S'(1) by simp
    ultimately show thesis using S'(2) 3(3) by (intro that [of S']) (simp_all only:, blast)
  next
    case (4 S3 k3)
    let ?n = "m_njobs S2"
    have "m_listjRunning (m_sched S3) = (if tracking S3 then [p] else [])" "tracking S3 \<Longrightarrow> m_ejs k3 = EjsRunning"
      using 4(5,6,11) s2(6) ejs2 by simp_all
    moreover have "children S3 p = {?n..<?n + length cs}"
    proof -
      have pp: "skeleton S2 p = Some (par, pjq, b0)" using sk sk2 by simp
      have no: "\<nexists>r x. skeleton S2 r = Some (Some p, x)" using ch2 by (auto simp: children_skeleton)
      have par: "m_pjParent k2 \<noteq> Some p" using no pp kk by (auto simp: k2_def)
      have sk3: "skeleton S3 r = (if ?n \<le> r \<and> r < ?n + length cs then Some (Some p, snd (cs ! (r - ?n)), fst (cs ! (r - ?n)))
          else ((skeleton S2)(p := Some (m_pjParent k2, m_pjq k2, b))) r)" for r
        using 4(15) by blast
      have "(\<exists>x. skeleton S3 r = Some (Some p, x)) \<longleftrightarrow> r \<in> {?n..<?n + length cs}" for r
        unfolding sk3 using no par by (cases "r = p") auto
      then show ?thesis by (simp add: children_skeleton set_eq_iff)
    qed
    ultimately obtain S' where q': "m_queue S' = m_queue S3" and S': "after_execution p False S3 = Inr S'" "sched_inv {} {} S'" "m_world S' = m_world S3" "m_njobs S' = m_njobs S3"
        "tracking S' = tracking S3" "m_listjRunning (m_sched S') = []" "m_ulpRunning (m_sched S') = m_ulpRunning (m_sched S3) - 1"
        "skeleton S' = skeleton S3"
      using after_execution_inv [OF 4(2,9), of False] 4(10,12) by auto
    have "m_world S' = w" "m_njobs S' = m_njobs S + length cs" "idle S'" "tracking S' = tracking S"
      using S' 4 s2 idle' by simp_all
    then show thesis using that [of S'] S'(1,2,8) round 4(1,3,13,14,15) s2(2) sk2 kk mr ma phase_cong [OF q'] by (simp add: k2_def)
  qed
qed

end
