(* ===== verification/SchedulerLive.thy ===== *)
theory SchedulerLive
  imports SchedulerRun
begin

text \<open>
  The contract of jobs, and what the scheduler makes of it: the loop ends, and it ends only when every job
  that was ever added has been completed and released.
\<close>

section \<open>The contract\<close>

text \<open>
  A job is not above the job that waits for it, and below it when it may wait in a queue, where all jobs are on one level.
\<close>

definition bounds_ok :: "('b \<Rightarrow> nat) \<Rightarrow> (nat \<Rightarrow> nat) \<Rightarrow> (nat \<Rightarrow> (nat option \<times> nat option \<times> 'b) option) \<Rightarrow> bool" where
  "bounds_ok bound level sk \<longleftrightarrow> (\<forall>c a pjq b. sk c = Some (a, pjq, b) \<longrightarrow> (\<forall>q. pjq = Some q \<longrightarrow> bound b = level q) \<and>
     (\<forall>p x y d. a = Some p \<longrightarrow> sk p = Some (x, y, d) \<longrightarrow> bound b \<le> bound d \<and> (pjq \<noteq> None \<longrightarrow> bound b < bound d)))"

lemma bounds_okD:
  assumes "bounds_ok bound level sk" and "sk c = Some (a, pjq, b)"
  shows "pjq = Some q \<Longrightarrow> bound b = level q"
    "a = Some p \<Longrightarrow> sk p = Some (x, y, d) \<Longrightarrow> bound b \<le> bound d"
    "a = Some p \<Longrightarrow> sk p = Some (x, y, d) \<Longrightarrow> pjq \<noteq> None \<Longrightarrow> bound b < bound d"
  using assms unfolding bounds_ok_def by blast+

lemma bounds_ok_remove:
  assumes "bounds_ok bound level sk" and "\<And>r. sk' r = (if r \<in> R then None else sk r)"
  shows "bounds_ok bound level sk'"
  unfolding bounds_ok_def
proof (intro allI impI)
  fix c a pjq b assume "sk' c = Some (a, pjq, b)"
  then have c: "sk c = Some (a, pjq, b)" using assms(2) by (simp split: if_splits)
  have s: "sk' p = Some z \<Longrightarrow> sk p = Some z" for p z using assms(2) by (simp split: if_splits)
  show "(\<forall>q. pjq = Some q \<longrightarrow> bound b = level q) \<and>
     (\<forall>p x y d. a = Some p \<longrightarrow> sk' p = Some (x, y, d) \<longrightarrow> bound b \<le> bound d \<and> (pjq \<noteq> None \<longrightarrow> bound b < bound d))"
    using bounds_okD [OF assms(1) c] s by blast
qed

lemma bounds_ok_grow:
  assumes ok: "bounds_ok bound level sk" and p: "sk p = Some (par, pjq, b0)" and b: "bound b = bound b0"
    and fresh: "\<And>r x. n \<le> r \<Longrightarrow> sk r = None" and par: "\<And>c q z. sk c = Some (Some q, z) \<Longrightarrow> q < n" and pn: "p < n"
    and new: "\<And>c q. (c, q) \<in> set cs \<Longrightarrow> bound c \<le> bound b0 \<and> (\<forall>r. q = Some r \<longrightarrow> bound c = level r \<and> bound c < bound b0)"
    and sk': "\<And>r. sk' r = (if n \<le> r \<and> r < n + length cs then Some (Some p, snd (cs ! (r - n)), fst (cs ! (r - n)))
           else (sk(p := Some (par, pjq, b))) r)"
  shows "bounds_ok bound level sk'"
  unfolding bounds_ok_def
proof (intro allI impI)
  fix c a q' d assume c: "sk' c = Some (a, q', d)"
  have old: "\<exists>z'. sk r = Some (fst z, fst (snd z), z') \<and> bound z' = bound (snd (snd z))" if "sk' r = Some z" "r < n" for r z
    using that sk' [of r] p b by (cases z) (auto split: if_splits)
  show "(\<forall>q. q' = Some q \<longrightarrow> bound d = level q) \<and>
     (\<forall>r x y e. a = Some r \<longrightarrow> sk' r = Some (x, y, e) \<longrightarrow> bound d \<le> bound e \<and> (q' \<noteq> None \<longrightarrow> bound d < bound e))"
  proof (cases "c < n")
    case True
    then obtain d' where d': "sk c = Some (a, q', d')" "bound d' = bound d" using old [OF c] by auto
    have "\<exists>e'. sk r = Some (x, y, e') \<and> bound e' = bound e" if "a = Some r" "sk' r = Some (x, y, e)" for r x y e
      using old [OF that(2)] par d'(1) that(1) by auto
    then show ?thesis using bounds_okD [OF ok d'(1)] d'(2) by fastforce
  next
    case False
    then have cn: "c < n + length cs" "a = Some p" "q' = snd (cs ! (c - n))" "d = fst (cs ! (c - n))"
      using c sk' [of c] fresh [of c] pn by (auto split: if_splits)
    then have "(d, q') \<in> set cs" using False by (metis add_diff_inverse_nat nat_add_left_cancel_less nth_mem prod.collapse)
    note n = new [OF this]
    have "sk' p = Some (par, pjq, b)" using sk' [of p] pn by simp
    then show ?thesis using n cn(2) b by auto
  qed
qed

text \<open>
  What a system of jobs sees of the scheduler: the phase of each queue, and for each job its parent, its queue and the
  members of the derived class. A job is ready when it has no children and no other job is the main job of its
  queue. \<open>grown\<close> is the state after \<open>p\<close> has gone on and added children.
\<close>

type_synonym 'b job_forest = "nat \<Rightarrow> (nat option \<times> nat option \<times> 'b) option"

definition leaf :: "'b job_forest \<Rightarrow> nat \<Rightarrow> bool" where
  "leaf sk p \<longleftrightarrow> (\<forall>c r. sk c \<noteq> Some (Some p, r))"

definition ready :: "(nat \<Rightarrow> queue_phase) \<Rightarrow> 'b job_forest \<Rightarrow> nat \<Rightarrow> nat option \<Rightarrow> bool" where
  "ready ph sk p pjq \<longleftrightarrow> leaf sk p \<and> (\<forall>q. pjq = Some q \<longrightarrow> ph q \<in> {Idle, Led p})"

definition set_phase :: "(nat \<Rightarrow> queue_phase) \<Rightarrow> nat option \<Rightarrow> queue_phase \<Rightarrow> nat \<Rightarrow> queue_phase" where
  "set_phase ph pjq x = (case pjq of None \<Rightarrow> ph | Some q \<Rightarrow> ph(q := x))"

definition grown :: "'b job_forest \<Rightarrow> nat \<Rightarrow> nat \<Rightarrow> nat option \<Rightarrow> nat option \<Rightarrow> 'b \<Rightarrow> ('b \<times> nat option) list \<Rightarrow> 'b job_forest" where
  "grown sk n p par pjq b cs = (\<lambda>r. if n \<le> r \<and> r < n + length cs then Some (Some p, snd (cs ! (r - n)), fst (cs ! (r - n)))
     else (sk(p := Some (par, pjq, b))) r)"

definition unused :: "(nat \<Rightarrow> queue_phase) \<Rightarrow> 'b job_forest \<Rightarrow> nat \<Rightarrow> bool" where
  "unused ph sk n \<longleftrightarrow> (\<forall>r. n \<le> r \<longrightarrow> sk r = None \<and> (\<forall>q. ph q \<noteq> Led r))"

lemma leaf_children: "leaf (skeleton S) p \<longleftrightarrow> children S p = {}"
  by (auto simp: leaf_def children_skeleton)

lemma leaf_remove: "leaf sk p \<Longrightarrow> leaf (\<lambda>r. if r \<in> R then None else sk r) p"
  by (simp add: leaf_def)

lemma bag_grown:
  assumes "finite (dom sk)" and "unused ph sk n" and "sk p = Some x"
  shows "bag (grown sk n p par pjq b cs) = add_mset b (mset (map fst cs) + bag (sk(p := None)))"
proof -
  have pn: "p < n" using assms(2,3) by (cases "p < n") (auto simp: unused_def)
  have "bag (grown sk n p par pjq b cs) = mset (map fst cs) + bag (sk(p := Some (par, pjq, b)))"
  proof (rule bag_children)
    show "finite (dom (sk(p := Some (par, pjq, b))))" using assms(1) by (simp add: dom_fun_upd)
    show "(sk(p := Some (par, pjq, b))) r = None" if "n \<le> r" for r using assms(2) that pn by (simp add: unused_def)
  qed (simp add: grown_def)
  then show ?thesis using bag_upd [OF assms(1), of p "(par, pjq, b)"] by simp
qed

locale job_system =
  fixes exec :: "('b, 'w) FExecute"
    and W :: "'w \<Rightarrow> (nat \<Rightarrow> queue_phase) \<Rightarrow> 'b job_forest \<Rightarrow> bool"
    and rank :: "'w \<Rightarrow> 'b multiset \<Rightarrow> 'r::wellorder"
    and bound :: "'b \<Rightarrow> nat"
    and level :: "nat \<Rightarrow> nat"
  assumes exec_returns: "W w ph sk \<Longrightarrow> sk p = Some (par, pjq, b) \<Longrightarrow> ready ph sk p pjq \<Longrightarrow> \<exists>r. exec b w = Inr r"
    and exec_completes: "W w ph sk \<Longrightarrow> sk p = Some (par, pjq, b) \<Longrightarrow> ready ph sk p pjq \<Longrightarrow> finite (dom sk) \<Longrightarrow>
      exec b w = Inr (True, b', cs, w') \<Longrightarrow>
      cs = [] \<and> W w' (set_phase ph pjq Over) (sk(p := None)) \<and> rank w' (bag (sk(p := None))) < rank w (bag sk)"
    and exec_continues: "W w ph sk \<Longrightarrow> sk p = Some (par, pjq, b) \<Longrightarrow> ready ph sk p pjq \<Longrightarrow> finite (dom sk) \<Longrightarrow>
      exec b w = Inr (False, b', cs, w') \<Longrightarrow> unused ph sk n \<Longrightarrow>
      W w' (set_phase ph pjq (Led p)) (grown sk n p par pjq b' cs) \<and> rank w' (bag (grown sk n p par pjq b' cs)) < rank w (bag sk)"
    and exec_bounds: "W w ph sk \<Longrightarrow> sk p = Some (par, pjq, b) \<Longrightarrow> ready ph sk p pjq \<Longrightarrow> exec b w = Inr (False, b', cs, w') \<Longrightarrow>
      bound b' = bound b \<and>
      (\<forall>(c, pjq) \<in> set cs. bound c \<le> bound b \<and> (\<forall>q. pjq = Some q \<longrightarrow> bound c = level q \<and> bound c < bound b))"
    and drop_one: "W w ph sk \<Longrightarrow> sk p = Some (par, Some q, b) \<Longrightarrow> leaf sk p \<Longrightarrow> ph q = Over \<Longrightarrow> finite (dom sk) \<Longrightarrow>
      W w ph (sk(p := None)) \<and> rank w (bag (sk(p := None))) < rank w (bag sk)"
begin

definition job_inv :: "('b, 'w) job_search \<Rightarrow> bool" where
  "job_inv S \<longleftrightarrow> sched_inv {} {} S \<and> idle S \<and> W (m_world S) (phase S) (skeleton S) \<and> bounds_ok bound level (skeleton S)"

definition run_measure :: "('b, 'w) job_search \<Rightarrow> 'r \<times> nat" where
  "run_measure S = (rank (m_world S) (bag (skeleton S)), length (waiting S))"

lemma drop_many:
  assumes "finite R" and "W w ph sk" and "finite (dom sk)"
    and "\<And>r x. r \<in> R \<Longrightarrow> sk r = Some x \<Longrightarrow> leaf sk r \<and> (\<exists>q. fst (snd x) = Some q \<and> ph q = Over)"
  shows "W w ph (\<lambda>r. if r \<in> R then None else sk r) \<and> rank w (bag (\<lambda>r. if r \<in> R then None else sk r)) \<le> rank w (bag sk)"
  using assms(1,4)
proof (induction R)
  case (insert p R)
  define sk1 where "sk1 = (\<lambda>r. if r \<in> R then None else sk r)"
  have "leaf sk r \<and> (\<exists>q. fst (snd x) = Some q \<and> ph q = Over)" if "r \<in> R" "sk r = Some x" for r x
    using insert.prems that by blast
  from insert.IH [OF this] have ih: "W w ph sk1" "rank w (bag sk1) \<le> rank w (bag sk)" by (simp_all add: sk1_def)
  have e: "(\<lambda>r. if r \<in> insert p R then None else sk r) = sk1(p := None)" by (auto simp: sk1_def)
  have fin: "finite (dom sk1)" using assms(3) by (rule finite_subset [rotated]) (auto simp: sk1_def split: if_splits)
  show ?case
  proof (cases "sk p")
    case None
    then have "sk1(p := None) = sk1" by (auto simp: sk1_def)
    then show ?thesis unfolding e using ih by simp
  next
    case (Some x)
    then obtain q where q: "leaf sk p" "fst (snd x) = Some q" "ph q = Over" using insert.prems [of p x] by auto
    have "sk1 p = Some (fst x, Some q, snd (snd x))" using Some insert.hyps q(2) by (cases x) (simp add: sk1_def)
    moreover have "leaf sk1 p" unfolding sk1_def using q(1) by (rule leaf_remove)
    ultimately show ?thesis unfolding e using drop_one [OF ih(1)] q(3) fin ih(2) by fastforce
  qed
qed (use assms(2) in simp)

lemma round_ok:
  assumes inv: "job_inv S" and wt: "waiting S = p # rest"
  shows "\<exists>S'. one_round exec S = Inr S' \<and> job_inv S' \<and> tracking S' = tracking S \<and>
    (run_measure S', run_measure S) \<in> {(x, y). x < y} <*lex*> less_than"
proof -
  note si = inv [unfolded job_inv_def]
  have pw: "p \<in> set (waiting S)" using wt by simp
  then obtain j where j: "m_job S p = Some j" using si sched_invD(4) unfolding waiting_ok_def by blast
  then obtain par pjq b0 where p: "skeleton S p = Some (par, pjq, b0)" by (auto simp: skeleton_def)
  have idle: "idle S" and i: "sched_inv {} {} S" and bo: "bounds_ok bound level (skeleton S)" and w0: "W (m_world S) (phase S) (skeleton S)"
    using si by simp_all
  have fin: "finite (dom (skeleton S))" using finite_alive [OF i] by (simp add: alive_skeleton)
  have "m_ulpRefs j = 0" using sched_invD(4) [OF i] j pw unfolding waiting_ok_def by blast
  then have "card (children S p) = 0" using sched_invD(3) [OF i] j unfolding refs_ok_def by fastforce
  then have leaf: "leaf (skeleton S) p" using finite_children [OF i] by (simp add: leaf_children)
  then have rdy: "may_run S p pjq \<Longrightarrow> ready (phase S) (skeleton S) p pjq" by (simp add: ready_def may_run_def)
  have "\<exists>fCompleted b cs w. (may_run S p pjq \<longrightarrow> exec b0 (m_world S) = Inr (fCompleted, b, cs, w)) \<and> (fCompleted \<longrightarrow> cs = [])"
  proof (cases "may_run S p pjq")
    case True
    obtain fCompleted b cs w where ex: "exec b0 (m_world S) = Inr (fCompleted, b, cs, w)"
      using exec_returns [OF w0 p rdy [OF True]] by (metis prod_cases4)
    moreover have "fCompleted \<longrightarrow> cs = []" using exec_completes [OF w0 p rdy [OF True] fin] ex by (cases fCompleted) auto
    ultimately show ?thesis by blast
  qed auto
  then obtain fCompleted b cs w where ex: "may_run S p pjq \<longrightarrow> exec b0 (m_world S) = Inr (fCompleted, b, cs, w)"
    and done_cs: "fCompleted \<longrightarrow> cs = []" by blast
  obtain S' where S': "one_round exec S = Inr S'" "sched_inv {} {} S'" "idle S'" "tracking S' = tracking S"
    and cases: "(\<not> may_run S p pjq \<and> phase S' = phase S \<and> (\<exists>q. pjq = Some q \<and> phase S q = Over) \<and>
        m_world S' = m_world S \<and> m_njobs S' = m_njobs S \<and> skeleton S' = (skeleton S)(p := None)) \<or>
     (\<not> may_run S p pjq \<and> phase S' = phase S \<and> m_world S' = m_world S \<and> m_njobs S' = m_njobs S \<and> skeleton S' = skeleton S \<and> waiting S' = rest) \<or>
     (\<exists>R. may_run S p pjq \<and> phase S' = phase_after S pjq Over \<and>
        (\<forall>r \<in> R - {p}. children S r = {} \<and> (\<exists>x d q. pjq = Some q \<and> skeleton S r = Some (x, Some q, d))) \<and> fCompleted \<and> m_world S' = w \<and>
        m_njobs S' = m_njobs S \<and> p \<in> R \<and> (\<forall>r. skeleton S' r = (if r \<in> R then None else skeleton S r))) \<or>
     (may_run S p pjq \<and> phase S' = phase_after S pjq (Led p) \<and> \<not> fCompleted \<and> m_world S' = w \<and> m_njobs S' = m_njobs S + length cs \<and>
        (\<forall>r. skeleton S' r = (if m_njobs S \<le> r \<and> r < m_njobs S + length cs
           then Some (Some p, snd (cs ! (r - m_njobs S)), fst (cs ! (r - m_njobs S)))
           else ((skeleton S)(p := Some (par, pjq, b))) r)))" (is "?unexecuted \<or> ?behind \<or> ?ended \<or> ?goes_on")
    by (rule one_round_inv [of S p rest par pjq b0 exec fCompleted b cs w, OF i idle wt p ex done_cs])
  have pha: "phase_after S pjq x = set_phase (phase S) pjq x" for x by (simp add: phase_after_def set_phase_def)
  have "W (m_world S') (phase S') (skeleton S') \<and> bounds_ok bound level (skeleton S') \<and>
      (run_measure S', run_measure S) \<in> {(x, y). x < y} <*lex*> less_than"
    using cases
  proof (elim disjE)
    assume h: ?unexecuted
    then obtain q where q: "pjq = Some q" "phase S q = Over" by auto
    have "bounds_ok bound level (skeleton S')"
      using h by (intro bounds_ok_remove [OF bo, of _ "{p}"]) simp
    then show ?thesis using drop_one [OF w0 p [unfolded q(1)] leaf q(2) fin] h by (simp add: run_measure_def)
  next
    assume h: ?behind
    then show ?thesis using si wt by (simp add: run_measure_def)
  next
    assume ?ended
    then obtain R where h: "may_run S p pjq" "phase S' = phase_after S pjq Over"
        "\<forall>r \<in> R - {p}. children S r = {} \<and> (\<exists>x d q. pjq = Some q \<and> skeleton S r = Some (x, Some q, d))" fCompleted "m_world S' = w"
        "m_njobs S' = m_njobs S" "p \<in> R" and sk': "\<forall>r. skeleton S' r = (if r \<in> R then None else skeleton S r)"
      by (elim exE conjE) (rule that)
    have sk': "skeleton S' r = (if r \<in> R then None else skeleton S r)" for r using sk' by (rule spec)
    define sk0 where "sk0 = (skeleton S)(p := None)"
    have fin0: "finite (dom sk0)" using fin by (simp add: sk0_def)
    have e: "exec b0 (m_world S) = Inr (True, b, cs, w)" using ex h(1,4) by simp
    have W1: "W w (phase S') sk0" "rank w (bag sk0) < rank (m_world S) (bag (skeleton S))"
      using exec_completes [OF w0 p rdy [OF h(1)] fin e] by (simp_all add: h(2) pha sk0_def)
    have "finite (R - {p})"
    proof (rule finite_subset [OF _ fin])
      show "R - {p} \<subseteq> dom (skeleton S)" using h(3) by (meson domI subsetI)
    qed
    then have "W w (phase S') (\<lambda>r. if r \<in> R - {p} then None else sk0 r) \<and>
        rank w (bag (\<lambda>r. if r \<in> R - {p} then None else sk0 r)) \<le> rank w (bag sk0)"
    proof (rule drop_many [OF _ W1(1) fin0])
      fix r x assume r: "r \<in> R - {p}" "sk0 r = Some x"
      obtain y d q where q: "children S r = {}" "pjq = Some q" "skeleton S r = Some (y, Some q, d)" using bspec [OF h(3) r(1)] by blast
      have "leaf sk0 r" using q(1) by (auto simp: leaf_children [symmetric] leaf_def sk0_def)
      moreover have "x = (y, Some q, d)" using r q(3) by (simp add: sk0_def)
      moreover have "phase S' q = Over" using h(2) q(2) by (simp add: phase_after_def)
      ultimately show "leaf sk0 r \<and> (\<exists>q. fst (snd x) = Some q \<and> phase S' q = Over)" by simp
    qed
    moreover have "(\<lambda>r. if r \<in> R - {p} then None else sk0 r) = skeleton S'" using sk' h(7) by (auto simp: sk0_def)
    moreover have "bounds_ok bound level (skeleton S')" by (rule bounds_ok_remove [OF bo sk'])
    ultimately show ?thesis using h(5) W1(2) by (auto simp: run_measure_def)
  next
    assume h: ?goes_on
    let ?n = "m_njobs S"
    have fr: "skeleton S r = None" if "?n \<le> r" for r using sched_invD(1) [OF i] that by (simp add: fresh_ok_skeleton)
    have pn: "p < ?n" using fr [of p] p by (cases "p < ?n") auto
    have may: "may_run S p pjq" and ph: "phase S' = set_phase (phase S) pjq (Led p)" using h pha by simp_all
    have sk': "skeleton S' r = (if ?n \<le> r \<and> r < ?n + length cs then Some (Some p, snd (cs ! (r - ?n)), fst (cs ! (r - ?n)))
        else ((skeleton S)(p := Some (par, pjq, b))) r)" for r
      using h by blast
    have gr: "skeleton S' = grown (skeleton S) ?n p par pjq b cs" using sk' by (simp add: grown_def fun_eq_iff)
    have un: "unused (phase S) (skeleton S) ?n"
    proof -
      have "phase S q \<noteq> Led r" if "?n \<le> r" for q r
      proof
        assume l: "phase S q = Led r"
        have qok: "queue_ok S False q (m_queue S q)" using sched_invD(6) [OF i] by (simp add: queues_ok_def)
        then have "r \<in> set (m_listjQueued (m_queue S q))"
          using l by (auto simp: queue_ok_def phase_Led_iff split: if_splits)
        then show False using queued_skeleton [OF qok] fr [OF that] by (metis option.distinct(1))
      qed
      then show ?thesis using fr by (simp add: unused_def)
    qed
    have ex': "exec b0 (m_world S) = Inr (False, b, cs, w)" using ex h by simp
    note laws = exec_bounds [OF w0 p rdy [OF may] ex'] exec_continues [OF w0 p rdy [OF may] fin ex' un]
    have "bounds_ok bound level (skeleton S')"
    proof (rule bounds_ok_grow [OF bo p _ fr _ pn _ sk'])
      show "bound b = bound b0" using laws(1) by simp
      show "bound c \<le> bound b0 \<and> (\<forall>r. q = Some r \<longrightarrow> bound c = level r \<and> bound c < bound b0)" if "(c, q) \<in> set cs" for c q
        using laws(1) that by blast
      show "q < ?n" if "skeleton S c = Some (Some q, z)" for c q z
      proof -
        have "skeleton S q \<noteq> None" using sched_invD(2) [OF i] that unfolding parents_ok_skeleton by blast
        then show ?thesis using fr [of q] by (cases "q < ?n") auto
      qed
    qed
    moreover have "m_world S' = w" using h by simp
    ultimately show ?thesis using laws(2) by (simp add: run_measure_def ph gr)
  qed
  then show ?thesis using S' by (auto simp: job_inv_def)
qed

lemma no_deadlock:
  assumes inv: "job_inv S" and wt: "waiting S = []"
  shows "alive S = {}"
proof (rule ccontr)
  assume ne: "alive S \<noteq> {}"
  have i: "sched_inv {} {} S" and bo: "bounds_ok bound level (skeleton S)" using inv by (simp_all add: job_inv_def)
  have fin: "finite (alive S)" by (rule finite_alive [OF i])
  define f where "f c = bound (snd (snd (the (skeleton S c))))" for c
  define m where "m = Min (f ` alive S)"
  define G where "G = {c \<in> alive S. f c = m \<and> \<not> waiter S c}"
  have m: "m \<le> f c" if "c \<in> alive S" for c using fin that by (simp add: m_def)
  have "queues_ok {} S" by (rule sched_invD(6) [OF i])
  then have qok: "queue_ok S False q (m_queue S q)" for q unfolding queues_ok_def by simp
  have lev: "f c = level q \<and> c \<in> alive S" if h: "c \<in> set (m_listjQueued (m_queue S q))" for c q
  proof -
    obtain a b where s: "skeleton S c = Some (a, Some q, b)" by (rule queued_skeleton [OF qok h])
    show ?thesis using bounds_okD(1) [OF bo s refl] s by (auto simp: f_def alive_skeleton)
  qed
  have "G \<noteq> {}"
  proof -
    have "m \<in> f ` alive S" unfolding m_def using fin ne by (intro Min_in) auto
    then obtain c where c: "c \<in> alive S" "f c = m" by auto
    show ?thesis
    proof (cases "waiter S c")
      case False
      then show ?thesis using c by (auto simp: G_def)
    next
      case True
      then obtain q where q: "c \<in> set (m_listjQueued (m_queue S q))" by (auto simp: waiter_def)
      then have hd: "m_pj (m_queue S q) = Some (hd (m_listjQueued (m_queue S q)))" "hd (m_listjQueued (m_queue S q)) \<in> set (m_listjQueued (m_queue S q))"
        using qok [of q] by (auto simp: queue_ok_def split: if_splits)
      let ?h = "hd (m_listjQueued (m_queue S q))"
      have "\<not> waiter S ?h"
      proof
        assume "waiter S ?h"
        then obtain r where r: "?h \<in> set (m_listjQueued (m_queue S r))" "m_pj (m_queue S r) \<noteq> Some ?h" by (auto simp: waiter_def)
        have "q = r" by (rule queued_skeleton [OF qok hd(2)], rule queued_skeleton [OF qok r(1)]) simp
        then show False using r(2) hd(1) by simp
      qed
      then show ?thesis using lev [OF hd(2)] lev [OF q] c(2) by (auto simp: G_def)
    qed
  qed
  moreover have "finite G" using fin by (simp add: G_def)
  ultimately have top: "Max G \<in> G" "\<And>c. c \<in> G \<Longrightarrow> c \<le> Max G" by simp_all
  then obtain j where j: "m_job S (Max G) = Some j" and nw: "\<not> waiter S (Max G)" and fm: "f (Max G) = m" by (auto simp: G_def alive_def)
  have "m_ulpRefs j \<noteq> 0" using sched_invD(4) [OF i] j wt by (auto simp: waiting_ok_def)
  then have "card (children S (Max G)) \<noteq> 0" using sched_invD(3) [OF i] j nw by (simp add: refs_ok_def)
  then obtain c where "c \<in> children S (Max G)" by fastforce
  then obtain pjq b where c: "skeleton S c = Some (Some (Max G), pjq, b)" by (auto simp: children_skeleton)
  have less: "Max G < c" using sched_invD(2) [OF i] c unfolding parents_ok_skeleton by blast
  obtain x y d where d: "skeleton S (Max G) = Some (x, y, d)" using j by (simp add: skeleton_def)
  have ca: "c \<in> alive S" using c by (auto simp: alive_skeleton)
  have "f c \<le> f (Max G)" using bounds_okD(2) [OF bo c refl d] c d by (simp add: f_def)
  then have fc: "f c = m" using m [OF ca] fm by simp
  have "pjq = None" using bounds_okD(3) [OF bo c refl d] fc fm c d by (cases pjq) (auto simp: f_def)
  then have "\<not> waiter S c" using queued_skeleton [OF qok] c by (force simp: waiter_def)
  then have "c \<in> G" using ca fc by (simp add: G_def)
  then show False using top(2) less by fastforce
qed

lemma ExecuteJobs_step:
  "waiting S = [] \<Longrightarrow> sch_ExecuteJobs exec S = Some (Inr S)"
  "waiting S = p # rest \<Longrightarrow> one_round exec S = Inr S' \<Longrightarrow> sch_ExecuteJobs exec S = sch_ExecuteJobs exec S'"
proof -
  show "waiting S = [] \<Longrightarrow> sch_ExecuteJobs exec S = Some (Inr S)"
    by (subst sch_ExecuteJobs.simps) (simp add: sch_PjRetrieve_def)
  assume w: "waiting S = p # rest" and r: "one_round exec S = Inr S'"
  then obtain S1 where "sch_PjRetrieve S = Inr (Some p, S1)" "sch_execute_job exec p S1 = Inr S'"
    by (auto simp: one_round_def sch_PjRetrieve_def result_simps)
  then show "sch_ExecuteJobs exec S = sch_ExecuteJobs exec S'" by (subst sch_ExecuteJobs.simps) simp
qed

text \<open>The loop ends, without a failed assertion, when no job is left.\<close>

lemma ExecuteJobs_ends:
  assumes "job_inv S"
  shows "\<exists>S'. sch_ExecuteJobs exec S = Some (Inr S') \<and> job_inv S' \<and> alive S' = {} \<and> tracking S' = tracking S"
proof -
  have "wf ({(x :: 'r, y). x < y} <*lex*> less_than)" by (intro wf_lex_prod wf wf_less_than)
  then have "wf (inv_image ({(x :: 'r, y). x < y} <*lex*> less_than) run_measure)" by (rule wf_inv_image)
  then show ?thesis using assms
  proof (induction S rule: wf_induct_rule)
    case (less S)
    show ?case
    proof (cases "waiting S")
      case Nil
      then show ?thesis using ExecuteJobs_step(1) no_deadlock less.prems by blast
    next
      case (Cons p rest)
      then obtain S1 where "one_round exec S = Inr S1" "job_inv S1" "tracking S1 = tracking S"
          "(S1, S) \<in> inv_image ({(x, y). x < y} <*lex*> less_than) run_measure"
        using round_ok [OF less.prems] by auto
      then show ?thesis using less.IH [of S1] ExecuteJobs_step(2) [OF Cons] by simp
    qed
  qed
qed

lemma start_ok:
  assumes W: "W w (\<lambda>_. Idle) [0 \<mapsto> (None, pjq, b)]" and level: "\<And>q. pjq = Some q \<Longrightarrow> bound b = level q"
  shows "\<exists>S. search_start tr b pjq w = Inr S \<and> job_inv S \<and> tracking S = tr"
proof -
  define j where "j = \<lparr>m_pjParent = None, m_pjq = pjq, m_ulpRefs = 0, m_ejs = (if tr then EjsWaiting else EjsInit), m_body = b\<rparr>"
  define S where "S = \<lparr>m_sched = (CScheduler_ctor tr)\<lparr>m_listjlWaiting := [0], m_ulpTotal := 1, m_ulpQueued := 1, m_ulpStatsQueued := 1\<rparr>,
    m_job = [0 \<mapsto> j], m_njobs = 1, m_queue = (\<lambda>_. CJobQueue_ctor), m_world = w\<rparr>"
  have "search_start tr b pjq w = Inr S"
    by (simp add: search_start_def new_job_def sch_Add_def pj_SetParent_def sch_Schedule_def track_state_def S_def j_def CScheduler_ctor_def
        put_job_def upd_sched_def with_job_def no_refs_def)
  moreover have al: "alive S = {0}" by (auto simp: alive_def S_def split: if_splits)
  have "sched_inv {} {} S"
    by (simp add: sched_inv_def counters_ok_def al)
       (simp add: S_def j_def CScheduler_ctor_def CJobQueue_ctor_def fresh_ok_def parents_ok_def refs_ok_def children_def waiter_def
        waiting_ok_def tracked_ok_def queues_ok_def queue_ok_def waiters_ok_def)
  moreover have sk: "skeleton S = [0 \<mapsto> (None, pjq, b)]" by (simp add: skeleton_def S_def j_def fun_eq_iff)
  have "phase S = (\<lambda>_. Idle)" by (simp add: phase_def S_def CJobQueue_ctor_def fun_eq_iff)
  then have "W (m_world S) (phase S) (skeleton S)" using W sk by (simp add: S_def)
  moreover have "bounds_ok bound level (skeleton S)" using level by (simp add: sk bounds_ok_def)
  moreover have "idle S" "tracking S = tr" by (simp_all add: idle_def S_def CScheduler_ctor_def)
  ultimately show ?thesis unfolding job_inv_def by blast
qed

text \<open>From the first job to the end of the scheduler.\<close>

lemma search_completes:
  assumes "W w (\<lambda>_. Idle) [0 \<mapsto> (None, pjq, b)]" and "\<And>q. pjq = Some q \<Longrightarrow> bound b = level q"
  shows "\<exists>S S'. search_start tr b pjq w = Inr S \<and> sch_ExecuteJobs exec S = Some (Inr S') \<and> m_job S' = (\<lambda>_. None) \<and>
    sch_dtor (m_sched S') = Inr () \<and> m_ulpStatsCompleted (m_sched S') = of_nat (m_njobs S') \<and>
    m_ulpStatsDequeued (m_sched S') = m_ulpStatsQueued (m_sched S') \<and> m_listjSuspended (m_sched S') = (if tr then [] else m_listjSuspended (m_sched S')) \<and>
    (\<forall>q. m_listjQueued (m_queue S' q) = []) \<and> (\<exists>ph. W (m_world S') ph Map.empty)"
proof -
  obtain S where S: "search_start tr b pjq w = Inr S" "job_inv S" "tracking S = tr" using start_ok [OF assms] by blast
  obtain S' where S': "sch_ExecuteJobs exec S = Some (Inr S')" "job_inv S'" "alive S' = {}" "tracking S' = tr"
    using ExecuteJobs_ends [OF S(2)] S(3) by auto
  have i: "sched_inv {} {} S'" using S'(2) by (simp add: job_inv_def)
  have job: "m_job S' = (\<lambda>_. None)" using S'(3) by (simp add: alive_def)
  have "waiting S' = []" using sched_invD(4) [OF i] job by (auto simp: waiting_ok_def)
  then have "sch_dtor (m_sched S') = Inr ()" "m_ulpStatsCompleted (m_sched S') = of_nat (m_njobs S')"
      "m_ulpStatsDequeued (m_sched S') = m_ulpStatsQueued (m_sched S')"
    using sched_invD(8) [OF i] S'(3) by (simp_all add: counters_ok_def sch_dtor_def)
  moreover have "tr \<Longrightarrow> suspended S' = []" using sched_invD(5) [OF i] job S'(4) by (auto simp: tracked_ok_def)
  moreover have "m_listjQueued (m_queue S' q) = []" for q
  proof -
    have "\<forall>p \<in> set (m_listjQueued (m_queue S' q)). m_job S' p \<noteq> None"
      using sched_invD(6) [OF i] unfolding queues_ok_def queue_ok_def by blast
    then show ?thesis using job by (cases "m_listjQueued (m_queue S' q)") auto
  qed
  moreover have "skeleton S' = Map.empty" using job by (simp add: skeleton_def fun_eq_iff)
  then have "W (m_world S') (phase S') Map.empty" using S'(2) by (simp add: job_inv_def)
  ultimately show ?thesis using S(1) S'(1) job by auto
qed

end

end
