(* ===== verification/JobTest.thy ===== *)
theory JobTest
  imports SchedulerLive
begin

text \<open>
  \<^verbatim>\<open>CJobTest\<close>, the job of the optimizer's own test of the scheduler, in the mode \<^verbatim>\<open>EttSpawn\<close> only: all jobs share a
  counter of executions, and a job that runs while the counter is below the number of rounds adds as many
  copies of itself as the fanout says. \<open>FSpawn\<close> stands for \<^verbatim>\<open>FExecute\<close> in that mode; the modes that wait behind
  a queue, with the members \<^verbatim>\<open>m_ett\<close>, \<^verbatim>\<open>m_ulIters\<close> and \<^verbatim>\<open>m_pjq\<close>, the busy \<^verbatim>\<open>Loop\<close> and the trace of the active jobs at the tenth
  execution are left out. The jobs are a system in the sense of \<open>job_system\<close>, so that their searches end.
\<close>

record CJobTest =
  m_ulRounds :: ULONG
  m_ulFanout :: ULONG

text \<open>The state the jobs share is the static member \<^verbatim>\<open>m_ulpCnt\<close>.\<close>

definition FSpawn :: "(CJobTest, ULLONG) FExecute" where
  "FSpawn pjt m_ulpCnt =
     (let ulpOffset = m_ulpCnt; m_ulpCnt' = m_ulpCnt + 1
      in if ulpOffset < ucast (m_ulRounds pjt)
         then Inr (False, pjt, replicate (unat (m_ulFanout pjt)) (pjt, None), m_ulpCnt')
         else Inr (True, pjt, [], m_ulpCnt'))"

text \<open>The number of executions that are left; the counter does not wrap around.\<close>

definition spawn_rank :: "CJobTest \<Rightarrow> ULLONG \<Rightarrow> CJobTest multiset \<Rightarrow> nat" where
  "spawn_rank pjt c B = size B + (unat (m_ulRounds pjt) - unat c) * (unat (m_ulFanout pjt) + 1)"

definition spawn_ok :: "CJobTest \<Rightarrow> ULLONG \<Rightarrow> (nat \<Rightarrow> queue_phase) \<Rightarrow> CJobTest job_forest \<Rightarrow> bool" where
  "spawn_ok pjt c ph sk \<longleftrightarrow> (\<forall>p a q b. sk p = Some (a, q, b) \<longrightarrow> q = None \<and> b = pjt) \<and> unat c + spawn_rank pjt c (bag sk) < 2 ^ 64"

lemma spawn_start: "spawn_ok pjt 0 (\<lambda>_. Idle) [0 \<mapsto> (None, None, pjt)]"
proof -
  have r: "unat (m_ulRounds pjt) \<le> 4294967295" and f: "unat (m_ulFanout pjt) \<le> 4294967295"
    using unat_ULONG_less [of "m_ulRounds pjt"] unat_ULONG_less [of "m_ulFanout pjt"] by simp_all
  have "unat (m_ulRounds pjt) * (unat (m_ulFanout pjt) + 1) \<le> 4294967295 * 4294967296"
    using r f by (intro mult_le_mono) simp_all
  moreover have "bag [0 \<mapsto> (None, None, pjt)] = {#pjt#}" using bag_upd [of Map.empty 0 "(None, None, pjt)"] by (simp add: bag_def)
  ultimately show ?thesis by (simp add: spawn_ok_def spawn_rank_def)
qed

lemma spawn_less: "c < ucast (r :: ULONG) \<longleftrightarrow> unat (c :: ULLONG) < unat r"
proof -
  have "unat r < 2 ^ 64" using unat_ULONG_less [of r] by simp
  then have "unat (ucast r :: ULLONG) = unat r" by (simp add: unsigned_ucast_eq take_bit_nat_eq_self)
  then show ?thesis by (simp add: word_less_nat_alt)
qed

lemma spawn_count:
  assumes "unat c + spawn_rank pjt c (add_mset b B) < 2 ^ 64"
  shows "unat (c + 1) = unat c + 1"
proof -
  have "unat c + 1 < 2 ^ 64" using assms by (simp add: spawn_rank_def)
  then have "unat c + unat (1 :: ULLONG) < 2 ^ LENGTH(64)" by simp
  then show ?thesis by (simp add: unat_add_lem [THEN iffD1])
qed

interpretation spawn: job_system FSpawn "spawn_ok pjt" "spawn_rank pjt" "\<lambda>_. 0" "\<lambda>_. 0" for pjt
proof
  fix c ph sk p par q b
  assume "spawn_ok pjt c ph sk" and "sk p = Some (par, Some q, b)"
  then have False unfolding spawn_ok_def by blast
  then show "spawn_ok pjt c ph (sk(p := None)) \<and> spawn_rank pjt c (bag (sk(p := None))) < spawn_rank pjt c (bag sk)" ..
next
  fix c ph sk p par pjq b
  assume W: "spawn_ok pjt c ph sk" and p: "sk p = Some (par, pjq, b)"
  then have b: "b = pjt" "pjq = None" and lim: "unat c + spawn_rank pjt c (bag sk) < 2 ^ 64"
    and sk: "sk r = Some (x, y, z) \<Longrightarrow> y = None \<and> z = pjt" for r x y z
    unfolding spawn_ok_def by blast+
  show "\<exists>r. FSpawn b c = Inr r" unfolding FSpawn_def Let_def by (cases "c < ucast (m_ulRounds b)") auto
  fix b' cs c'
  show "(0 :: nat) = 0 \<and> (\<forall>(d, pjq) \<in> set cs. (0 :: nat) \<le> 0 \<and> (\<forall>q. pjq = Some q \<longrightarrow> (0 :: nat) = 0 \<and> (0 :: nat) < 0))"
    if "FSpawn b c = Inr (False, b', cs, c')"
    using that by (auto simp: FSpawn_def Let_def split: if_splits)
  assume fin: "finite (dom sk)"
  define B where "B = bag (sk(p := None))"
  have bs: "bag sk = add_mset pjt B" using bag_split [OF fin p] b by (simp add: B_def)
  have cnt: "unat (c + 1) = unat c + 1" using spawn_count lim by (simp add: bs)
  show "cs = [] \<and> spawn_ok pjt c' (set_phase ph pjq Over) (sk(p := None)) \<and> spawn_rank pjt c' (bag (sk(p := None))) < spawn_rank pjt c (bag sk)"
    if "FSpawn b c = Inr (True, b', cs, c')"
  proof -
    have e: "cs = []" "c' = c + 1" "unat (m_ulRounds pjt) \<le> unat c"
      using that b by (auto simp: FSpawn_def Let_def spawn_less split: if_splits)
    have "r = p \<or> sk r = Some (x, y, z) \<longrightarrow> r = p \<or> y = None \<and> z = pjt" for r x y z using sk by blast
    then show ?thesis using lim cnt e bs unfolding spawn_ok_def B_def [symmetric] by (auto simp: spawn_rank_def dest: sk)
  qed
  fix n assume un: "unused ph sk n"
  assume "FSpawn b c = Inr (False, b', cs, c')"
  then have e: "cs = replicate (unat (m_ulFanout pjt)) (pjt, None)" "c' = c + 1" "unat c < unat (m_ulRounds pjt)" "b' = pjt"
    using b by (auto simp: FSpawn_def Let_def spawn_less split: if_splits)
  have g: "bag (grown sk n p par pjq b' cs) = add_mset pjt (mset (map fst cs) + B)"
    using bag_grown [OF fin un p] e(4) by (simp add: B_def)
  have "unat (m_ulRounds pjt) - unat c = Suc (unat (m_ulRounds pjt) - (unat c + 1))" using e(3) by simp
  then have r: "spawn_rank pjt c' (bag (grown sk n p par pjq b' cs)) + 1 = spawn_rank pjt c (bag sk)"
  proof -
    have "size (mset (map fst cs)) = unat (m_ulFanout pjt)" unfolding e(1) by simp
    moreover have "unat c' = unat c + 1" unfolding e(2) by (rule cnt)
    moreover obtain d where "unat (m_ulRounds pjt) = Suc (unat c) + d" using e(3) less_iff_Suc_add by auto
    ultimately show ?thesis unfolding spawn_rank_def g bs by simp
  qed
  have "y = None \<and> z = pjt" if "grown sk n p par pjq b' cs r = Some (x, y, z)" for r x y z
    using that sk [of r x y z] e b by (auto simp: grown_def split: if_splits)
  then show "spawn_ok pjt c' (set_phase ph pjq (Led p)) (grown sk n p par pjq b' cs) \<and>
      spawn_rank pjt c' (bag (grown sk n p par pjq b' cs)) < spawn_rank pjt c (bag sk)"
    using lim cnt e r unfolding spawn_ok_def by auto
qed

text \<open>
  C6: The scheduler ends the search of test jobs in spawning mode, with any number of rounds and any fanout, with or
  without tracking: no assertion fails, every job that was ever added is completed and released, each link to
  a waiting job has been taken from the list, no job is left as suspended, and the destructor finds no job.
  (Spawning jobs wait behind no queue, so that the queues stay as empty as they were.)
\<close>

theorem CJobTest_search_ends:
  "\<exists>S S'. search_start tr pjt None 0 = Inr S \<and> sch_ExecuteJobs FSpawn S = Some (Inr S') \<and> m_job S' = (\<lambda>_. None) \<and>
    sch_dtor (m_sched S') = Inr () \<and> m_ulpStatsCompleted (m_sched S') = of_nat (m_njobs S') \<and>
    m_ulpStatsDequeued (m_sched S') = m_ulpStatsQueued (m_sched S') \<and>
    m_listjSuspended (m_sched S') = (if tr then [] else m_listjSuspended (m_sched S')) \<and>
    (\<forall>q. m_listjQueued (m_queue S' q) = [])"
proof -
  obtain S S' where "search_start tr pjt None 0 = Inr S \<and> sch_ExecuteJobs FSpawn S = Some (Inr S') \<and> m_job S' = (\<lambda>_. None) \<and>
    sch_dtor (m_sched S') = Inr () \<and> m_ulpStatsCompleted (m_sched S') = of_nat (m_njobs S') \<and>
    m_ulpStatsDequeued (m_sched S') = m_ulpStatsQueued (m_sched S') \<and>
    m_listjSuspended (m_sched S') = (if tr then [] else m_listjSuspended (m_sched S')) \<and>
    (\<forall>q. m_listjQueued (m_queue S' q) = []) \<and> (\<exists>ph. spawn_ok pjt (m_world S') ph Map.empty)"
    using spawn.search_completes [OF spawn_start, where tr = tr] by blast
  then show ?thesis by blast
qed

end
