(* ===== verification/Spec2Isabelle.thy ===== *)
theory Spec2Isabelle
  imports BitVector BitSet ColRefSet Range Datum Interval IntervalExpr TreeMap PlanMap
    XformFactory XformRules Registry RegistryLaws RegistryProps PlanProps
    StateMachine JobMachines SyncPool JobFactory Operators Memo MemoOps MemoLinks MemoMerge MemoInsert
    MemoBuild MemoExplore MemoProps Scheduler SchedulerInv SchedulerRun SchedulerLive JobTest
begin

text \<open>
  A verification development for the BOSS query optimizer, an extension of the Orca optimizer by
  engines that are registered at run time.

  \<^bold>\<open>The program.\<close> \<^verbatim>\<open>libgpos\<close> is the base library (memory, tasks, containers, bit sets).
  \<^verbatim>\<open>libnaucrates\<close> holds metadata, statistics and the exchange format DXL. \<^verbatim>\<open>libgpopt\<close> is the
  optimizer: operators and their properties, transformation rules, the memo of groups, the search
  over optimization requests with the enforcement of plan properties, and the counting and
  sampling of plans. \<^verbatim>\<open>libgpoptextender\<close> adds the dynamic registry of engines, operators and rules,
  a cost model whose tables it fills, and the engine as a further plan property. The optimizer keeps
  columns in bit sets, derives from predicates the intervals of values a column may have, takes its
  rules from the rule factory, asks the registry for engines and hooks, and enforces order,
  rewindability and engine on the plans it costs.

  \<^bold>\<open>How code is modelled.\<close> A class is a record, an enumeration a datatype (or, where dynamic values
  extend it, a natural number), a member function one definition with the state as an argument
  and the new state in its result. A violated \<^verbatim>\<open>GPOS_ASSERT\<close>, a member access through NULL, an
  access out of bounds and a thrown exception are values of \<open>gpos_error\<close> in the type \<open>result\<close> of
  \<open>Prelude\<close>; the development thus describes the build with assertions, and that no assertion fails is part
  of what is proved. \<^verbatim>\<open>ULONG\<close> and \<^verbatim>\<open>ULLONG\<close> are words of 32 and 64 bits. Pointers into lists are
  indices. Reference counts and memory pools do not appear.

  \<^bold>\<open>The theories.\<close>

  \<^item> \<open>Prelude\<close>: machine types, results, facts on lists and words.
  \<^item> \<open>BitVector\<close>, \<open>BitSet\<close> (\<^verbatim>\<open>CBitVector.cpp\<close>, \<^verbatim>\<open>CBitSet.cpp\<close>, \<^verbatim>\<open>CBitSetIter.cpp\<close>): vectors of 64 bit units and
    sorted lists of vectors at offsets. The abstractions \<open>bv_set\<close> and \<open>bs_set\<close> are sets of positions;
    every operation is shown to be the operation on sets, to keep the invariant \<open>bs_ok\<close> and to keep
    the stored size equal to the cardinality. The iterator visits the elements in ascending order
    and ends. \<open>ulong_set\<close> is the interface of a set that clients use; the bit set interprets it.
  \<^item> \<open>ColRefSet\<close> (\<^verbatim>\<open>CColRefSet.cpp\<close>): column sets, clients of \<open>ulong_set\<close>.
  \<^item> \<open>Range\<close>, \<open>Datum\<close>, \<open>Interval\<close>, \<open>IntervalExpr\<close> (\<^verbatim>\<open>CRange.cpp\<close>, \<^verbatim>\<open>IDatum.cpp\<close>, \<^verbatim>\<open>CDefaultComparator.cpp\<close>,
    \<^verbatim>\<open>CConstraintInterval.cpp\<close>, \<^verbatim>\<open>CDatumSortedSet.cpp\<close>): ranges with open, closed and infinite ends over
    a comparator, sorted lists of disjoint ranges with a flag for NULL, and the derivation of such
    intervals from predicates. The locale \<open>datum_order\<close> holds the laws of a comparator, and is interpreted
    on \<^verbatim>\<open>CDefaultComparator\<close>. Union, intersection and difference are exact on values; the derived interval of a
    supported predicate has exactly the values for which the predicate is true under three-valued
    logic, and the predicate built from an interval has exactly its values.
  \<^item> \<open>TreeMap\<close>, \<open>PlanMap\<close> (\<^verbatim>\<open>CTreeMap.h\<close>, \<^verbatim>\<open>utils.cpp\<close>): the AND/OR graph of plans. The specification \<open>plans\<close> is the
    list of plans of a node; counting returns its length and unranking its elements, with the
    64 bit overflow of the counts as an exception; the ranks are in bijection with the plans that the graph admits
    by the inductive definition \<open>admits\<close>. The recursion of the C++ code is bounded by the
    stack: the argument \<open>d\<close> is the number of activations that fit, exceeding it is the exception
    \<open>OutOfStack\<close>, and as many activations as there are nodes are shown to be enough, on cyclic graphs too.
  \<^item> \<open>XformFactory\<close>, \<open>XformRules\<close> (\<^verbatim>\<open>CXformFactory.cpp\<close>, the ids and names in the headers of \<^verbatim>\<open>gpopt/xforms\<close>): the rule
    factory, and the table of all built-in rules. The table is shown to be in the order of the ids
    with different names, so that instantiation passes all assertions.
  \<^item> \<open>Registry\<close>, \<open>RegistryLaws\<close>, \<open>RegistryProps\<close> (\<^verbatim>\<open>DynamicRegistry.cpp\<close>, \<^verbatim>\<open>DynamicRegistry.hpp\<close>, \<^verbatim>\<open>Engine.hpp\<close>,
    \<^verbatim>\<open>BOSSCostModel.cpp\<close>): the registry and the tables of the cost model. \<open>reg_step\<close> has one case for each
    public operation, and \<open>reg_go\<close> is a step on a registry none of whose 32 bit counters of ids is exhausted (the
    code checks neither the end of the enumerations nor the wrap-around, \<open>enum_succ\<close>); reachable registries are
    those that a history of such steps makes of a new one, where a new cost model takes over the static tables of
    the cost functions from the one before. The locale \<open>id_table\<close> states how ids are handed out and is interpreted for operators, rules and
    engines. The invariants say that ids are unique for ever, that every physical operator that shares its name with
    no logical one and every operator of the optimizer has a cost function, and that translators belong to converters
    that exist; the removal of an engine is characterised in closed form. Rules registered at run
    time are shown to be found in the factory by their ids.
  \<^item> \<open>PlanProps\<close> (\<^verbatim>\<open>COrderSpec.cpp\<close>, \<^verbatim>\<open>CRewindabilitySpec.cpp\<close>, \<^verbatim>\<open>CEngineSpec.cpp\<close>, \<^verbatim>\<open>CPhysicalSort.cpp\<close>, \<^verbatim>\<open>CPhysicalSpool.cpp\<close>,
    \<^verbatim>\<open>CPhysicalEngineTransition.cpp\<close>, \<^verbatim>\<open>CEngine.cpp\<close>): satisfaction of order, rewindability and engine, the enforcers, and
    the check of enforceable properties. \<open>prop_spec\<close> states satisfaction as a preorder. Plans of
    enforcers that pass the check in a valid context are shown to satisfy the request, for transitions that keep
    the required rewindability (others are accepted too, and shown to be invalid), and an enforcer never requests
    of its group what is requested of it.
  \<^item> \<open>StateMachine\<close>, \<open>JobMachines\<close> (\<^verbatim>\<open>CStateMachine.h\<close>, \<^verbatim>\<open>CJobStateMachine.h\<close>, the heads and \<^verbatim>\<open>Init\<close> of the seven
    \<^verbatim>\<open>CJob*.cpp\<close>): state machines with their history and actions, and the machines of the search jobs, whose matrices are
    shown to be deterministic and forward, with the final state reachable from every state.
  \<^item> \<open>SyncPool\<close>, \<open>JobFactory\<close> (\<^verbatim>\<open>CSyncPool.h\<close>, \<^verbatim>\<open>CJobFactory.cpp\<close>): pools with two bitmaps and a cursor, and the factory of
    jobs over them. The locale of a pool says that no object is handed out twice; the pool interprets it, and
    the factory offers the same contract for jobs of all types.
  \<^item> \<open>Operators\<close>, \<open>Memo\<close>, \<open>MemoOps\<close> (\<^verbatim>\<open>CGroup.cpp\<close>, \<^verbatim>\<open>CGroupExpression.cpp\<close>, \<^verbatim>\<open>CGroupProxy.cpp\<close>, \<^verbatim>\<open>CMemo.cpp\<close>, \<^verbatim>\<open>CSyncHashtable.h\<close>,
    \<^verbatim>\<open>CEngine.cpp\<close>): the interface of operators that the memo calls, with the operators of simple queries as its
    instance; groups and group expressions in a store, the hash table of expressions, and the operations
    that insert expressions and rule results, mark duplicate groups and merge them.
  \<^item> \<open>MemoLinks\<close>, \<open>MemoMerge\<close>: links to duplicates go to larger ids, and marking joins two classes of the equivalence they
    generate. The specification of merging is the congruence closure of the memo: the least equivalence
    that contains the links and equates groups with equal expressions over equal groups. Merging is
    shown to end, to pass all assertions and to compute that closure.
  \<^item> \<open>MemoInsert\<close>, \<open>MemoBuild\<close>, \<open>MemoExplore\<close>, \<open>MemoProps\<close>: the invariant \<open>memo_ok\<close> of a memo that is being explored, the relation
    \<open>stored\<close> between an expression and the group that has it, insertion and re-insertion, the step
    relation \<open>exploration\<close> of the memos that exploration goes through, and the properties with their
    witnesses. The locale \<open>operator_laws\<close> holds what is asked of operators.
  \<^item> \<open>Scheduler\<close> (\<^verbatim>\<open>CScheduler.cpp\<close>, \<^verbatim>\<open>CJobQueue.cpp\<close>, \<^verbatim>\<open>CJob.cpp\<close>): jobs with counters of references, queues of jobs for one
    operation, and the loop of the scheduler, whose divergence is the value \<open>None\<close>. What a job does is an
    argument. \<open>SchedulerInv\<close> and \<open>SchedulerRun\<close> hold the invariant and what one round of the loop does to it: a count of
    references is exactly the number of unreleased children, and one more behind a queue.
  \<^item> \<open>SchedulerLive\<close>, \<open>JobTest\<close> (\<^verbatim>\<open>CJobTest.cpp\<close>): the locale \<open>job_system\<close> says what jobs promise; under it the loop is shown
    to end with every job completed. The optimizer's test jobs interpret it.

  \<^bold>\<open>Behaviour that differs from the intention.\<close> Theorems also record what goes wrong: an intersection of bit sets with links
  that compare unequal, intervals that lose values under a negated conjunction and for
  \<^verbatim>\<open><> ANY\<close>, constants that are all NULL, cyclic plan graphs that are counted, an ignored
  rewindability flag, the removal of an unknown engine that removes the optimizer's own, ids that
  are made without a bound, default
  operators left with a removed engine, dynamic rules without the built-in ones, engine
  transitions that are accepted with invalid plans, and comparisons with swapped sides that the hash table
  of the memo misses.

  \<^bold>\<open>Parameters.\<close> Code outside the repository is an argument: the converters between BOSS expressions and
  optimizer expressions (their methods to register and remove translators), the external
  evaluator of constant expressions, cost functions and operator factories of engines, and the order in
  which hash maps iterate. The arithmetic of doubles is a parameter too, and so are the virtual methods of
  operators that the memo calls, the derivation of their properties, the addresses an allocator gives, and
  what a search job does.

  \<^bold>\<open>Not modelled.\<close> The cost formulas and the statistics (floating point without a specification); the
  property derivation of about 170 operators, the rules' rewritings and the translators, which work on
  operator trees and on DXL; the optimization and cost contexts of groups and the jobs that compute them, for
  the same reason; distribution, keys, functional dependencies and partition maps; memory pools, threads,
  text output and the glue to Postgres. The scheduler runs in one thread, as the optimizer does.
\<close>

end
